(* ===== verification/Script_Num.thy ===== *)
theory Script_Num
  imports Squid_Prelude
begin

unbundle bit_operations_syntax

text \<open>
  The error codes of package txscript (\<open>error.go\<close>) and the script number codec
  (\<open>scriptnum.go\<close>): numbers live on the script stacks as little-endian sign-magnitude byte
  strings and are computed with as Go \<open>int64\<close> values.
\<close>

section \<open>Error codes\<close>

text \<open>
  \<open>type ErrorCode int\<close> with its \<open>iota\<close> constants: the codes are numbered as the source
  numbers them. \<open>GoPanic\<close> is no code of the source: it is the outcome of a model function
  where the Go code would panic (index out of range, nil dereference). \<open>ErrOther\<close> stands for
  the plain errors that are not of type \<open>txscript.Error\<close>.
\<close>

datatype ErrorCode = GoPanic | ErrOther | ErrCode nat

abbreviation ErrInternal :: ErrorCode where "ErrInternal \<equiv> ErrCode 0"
abbreviation ErrInvalidFlags :: ErrorCode where "ErrInvalidFlags \<equiv> ErrCode 1"
abbreviation ErrInvalidIndex :: ErrorCode where "ErrInvalidIndex \<equiv> ErrCode 2"
abbreviation ErrUnsupportedAddress :: ErrorCode where "ErrUnsupportedAddress \<equiv> ErrCode 3"
abbreviation ErrNotMultisigScript :: ErrorCode where "ErrNotMultisigScript \<equiv> ErrCode 4"
abbreviation ErrTooManyRequiredSigs :: ErrorCode where "ErrTooManyRequiredSigs \<equiv> ErrCode 5"
abbreviation ErrTooMuchNullData :: ErrorCode where "ErrTooMuchNullData \<equiv> ErrCode 6"
abbreviation ErrUnsupportedScriptVersion :: ErrorCode where "ErrUnsupportedScriptVersion \<equiv> ErrCode 7"
abbreviation ErrEarlyReturn :: ErrorCode where "ErrEarlyReturn \<equiv> ErrCode 8"
abbreviation ErrEmptyStack :: ErrorCode where "ErrEmptyStack \<equiv> ErrCode 9"
abbreviation ErrEvalFalse :: ErrorCode where "ErrEvalFalse \<equiv> ErrCode 10"
abbreviation ErrScriptUnfinished :: ErrorCode where "ErrScriptUnfinished \<equiv> ErrCode 11"
abbreviation ErrInvalidProgramCounter :: ErrorCode where "ErrInvalidProgramCounter \<equiv> ErrCode 12"
abbreviation ErrScriptTooBig :: ErrorCode where "ErrScriptTooBig \<equiv> ErrCode 13"
abbreviation ErrElementTooBig :: ErrorCode where "ErrElementTooBig \<equiv> ErrCode 14"
abbreviation ErrTooManyOperations :: ErrorCode where "ErrTooManyOperations \<equiv> ErrCode 15"
abbreviation ErrStackOverflow :: ErrorCode where "ErrStackOverflow \<equiv> ErrCode 16"
abbreviation ErrInvalidPubKeyCount :: ErrorCode where "ErrInvalidPubKeyCount \<equiv> ErrCode 17"
abbreviation ErrInvalidSignatureCount :: ErrorCode where "ErrInvalidSignatureCount \<equiv> ErrCode 18"
abbreviation ErrNumberTooBig :: ErrorCode where "ErrNumberTooBig \<equiv> ErrCode 19"
abbreviation ErrVerify :: ErrorCode where "ErrVerify \<equiv> ErrCode 20"
abbreviation ErrEqualVerify :: ErrorCode where "ErrEqualVerify \<equiv> ErrCode 21"
abbreviation ErrNumEqualVerify :: ErrorCode where "ErrNumEqualVerify \<equiv> ErrCode 22"
abbreviation ErrCheckSigVerify :: ErrorCode where "ErrCheckSigVerify \<equiv> ErrCode 23"
abbreviation ErrCheckMultiSigVerify :: ErrorCode where "ErrCheckMultiSigVerify \<equiv> ErrCode 24"
abbreviation ErrDisabledOpcode :: ErrorCode where "ErrDisabledOpcode \<equiv> ErrCode 25"
abbreviation ErrReservedOpcode :: ErrorCode where "ErrReservedOpcode \<equiv> ErrCode 26"
abbreviation ErrMalformedPush :: ErrorCode where "ErrMalformedPush \<equiv> ErrCode 27"
abbreviation ErrInvalidStackOperation :: ErrorCode where "ErrInvalidStackOperation \<equiv> ErrCode 28"
abbreviation ErrUnbalancedConditional :: ErrorCode where "ErrUnbalancedConditional \<equiv> ErrCode 29"
abbreviation ErrMinimalData :: ErrorCode where "ErrMinimalData \<equiv> ErrCode 30"
abbreviation ErrInvalidSigHashType :: ErrorCode where "ErrInvalidSigHashType \<equiv> ErrCode 31"
abbreviation ErrSigTooShort :: ErrorCode where "ErrSigTooShort \<equiv> ErrCode 32"
abbreviation ErrSigTooLong :: ErrorCode where "ErrSigTooLong \<equiv> ErrCode 33"
abbreviation ErrSigInvalidSeqID :: ErrorCode where "ErrSigInvalidSeqID \<equiv> ErrCode 34"
abbreviation ErrSigInvalidDataLen :: ErrorCode where "ErrSigInvalidDataLen \<equiv> ErrCode 35"
abbreviation ErrSigMissingSTypeID :: ErrorCode where "ErrSigMissingSTypeID \<equiv> ErrCode 36"
abbreviation ErrSigMissingSLen :: ErrorCode where "ErrSigMissingSLen \<equiv> ErrCode 37"
abbreviation ErrSigInvalidSLen :: ErrorCode where "ErrSigInvalidSLen \<equiv> ErrCode 38"
abbreviation ErrSigInvalidRIntID :: ErrorCode where "ErrSigInvalidRIntID \<equiv> ErrCode 39"
abbreviation ErrSigZeroRLen :: ErrorCode where "ErrSigZeroRLen \<equiv> ErrCode 40"
abbreviation ErrSigNegativeR :: ErrorCode where "ErrSigNegativeR \<equiv> ErrCode 41"
abbreviation ErrSigTooMuchRPadding :: ErrorCode where "ErrSigTooMuchRPadding \<equiv> ErrCode 42"
abbreviation ErrSigInvalidSIntID :: ErrorCode where "ErrSigInvalidSIntID \<equiv> ErrCode 43"
abbreviation ErrSigZeroSLen :: ErrorCode where "ErrSigZeroSLen \<equiv> ErrCode 44"
abbreviation ErrSigNegativeS :: ErrorCode where "ErrSigNegativeS \<equiv> ErrCode 45"
abbreviation ErrSigTooMuchSPadding :: ErrorCode where "ErrSigTooMuchSPadding \<equiv> ErrCode 46"
abbreviation ErrSigHighS :: ErrorCode where "ErrSigHighS \<equiv> ErrCode 47"
abbreviation ErrNotPushOnly :: ErrorCode where "ErrNotPushOnly \<equiv> ErrCode 48"
abbreviation ErrSigNullDummy :: ErrorCode where "ErrSigNullDummy \<equiv> ErrCode 49"
abbreviation ErrPubKeyType :: ErrorCode where "ErrPubKeyType \<equiv> ErrCode 50"
abbreviation ErrCleanStack :: ErrorCode where "ErrCleanStack \<equiv> ErrCode 51"
abbreviation ErrNullFail :: ErrorCode where "ErrNullFail \<equiv> ErrCode 52"
abbreviation ErrWitnessMalleated :: ErrorCode where "ErrWitnessMalleated \<equiv> ErrCode 53"
abbreviation ErrWitnessMalleatedP2SH :: ErrorCode where "ErrWitnessMalleatedP2SH \<equiv> ErrCode 54"
abbreviation ErrDiscourageUpgradableNOPs :: ErrorCode where "ErrDiscourageUpgradableNOPs \<equiv> ErrCode 55"
abbreviation ErrNegativeLockTime :: ErrorCode where "ErrNegativeLockTime \<equiv> ErrCode 56"
abbreviation ErrUnsatisfiedLockTime :: ErrorCode where "ErrUnsatisfiedLockTime \<equiv> ErrCode 57"
abbreviation ErrMinimalIf :: ErrorCode where "ErrMinimalIf \<equiv> ErrCode 58"
abbreviation ErrDiscourageUpgradableWitnessProgram :: ErrorCode where "ErrDiscourageUpgradableWitnessProgram \<equiv> ErrCode 59"
abbreviation ErrWitnessProgramEmpty :: ErrorCode where "ErrWitnessProgramEmpty \<equiv> ErrCode 60"
abbreviation ErrWitnessProgramMismatch :: ErrorCode where "ErrWitnessProgramMismatch \<equiv> ErrCode 61"
abbreviation ErrWitnessProgramWrongLength :: ErrorCode where "ErrWitnessProgramWrongLength \<equiv> ErrCode 62"
abbreviation ErrWitnessUnexpected :: ErrorCode where "ErrWitnessUnexpected \<equiv> ErrCode 63"
abbreviation ErrWitnessPubKeyType :: ErrorCode where "ErrWitnessPubKeyType \<equiv> ErrCode 64"
abbreviation ErrDiscourageOpSuccess :: ErrorCode where "ErrDiscourageOpSuccess \<equiv> ErrCode 65"
abbreviation ErrDiscourageUpgradeableTaprootVersion :: ErrorCode where "ErrDiscourageUpgradeableTaprootVersion \<equiv> ErrCode 66"
abbreviation ErrTapscriptCheckMultisig :: ErrorCode where "ErrTapscriptCheckMultisig \<equiv> ErrCode 67"
abbreviation ErrDiscourageUpgradeablePubKeyType :: ErrorCode where "ErrDiscourageUpgradeablePubKeyType \<equiv> ErrCode 68"
abbreviation ErrTaprootSigInvalid :: ErrorCode where "ErrTaprootSigInvalid \<equiv> ErrCode 69"
abbreviation ErrTaprootMerkleProofInvalid :: ErrorCode where "ErrTaprootMerkleProofInvalid \<equiv> ErrCode 70"
abbreviation ErrTaprootOutputKeyParityMismatch :: ErrorCode where "ErrTaprootOutputKeyParityMismatch \<equiv> ErrCode 71"
abbreviation ErrControlBlockTooSmall :: ErrorCode where "ErrControlBlockTooSmall \<equiv> ErrCode 72"
abbreviation ErrControlBlockTooLarge :: ErrorCode where "ErrControlBlockTooLarge \<equiv> ErrCode 73"
abbreviation ErrControlBlockInvalidLength :: ErrorCode where "ErrControlBlockInvalidLength \<equiv> ErrCode 74"
abbreviation ErrWitnessHasNoAnnex :: ErrorCode where "ErrWitnessHasNoAnnex \<equiv> ErrCode 75"
abbreviation ErrInvalidTaprootSigLen :: ErrorCode where "ErrInvalidTaprootSigLen \<equiv> ErrCode 76"
abbreviation ErrTaprootPubkeyIsEmpty :: ErrorCode where "ErrTaprootPubkeyIsEmpty \<equiv> ErrCode 77"
abbreviation ErrTaprootMaxSigOps :: ErrorCode where "ErrTaprootMaxSigOps \<equiv> ErrCode 78"
abbreviation ErrNonConstScriptCode :: ErrorCode where "ErrNonConstScriptCode \<equiv> ErrCode 79"
abbreviation ErrCodeSeparator :: ErrorCode where "ErrCodeSeparator \<equiv> ErrCode 80"

type_synonym 'a res = "ErrorCode + 'a"

section \<open>The codec\<close>

definition maxInt32 :: int where "maxInt32 = 2 ^ 31 - 1"
definition minInt32 :: int where "minInt32 = - (2 ^ 31)"
definition maxScriptNumLen :: nat where "maxScriptNumLen = 4"
definition cltvMaxScriptNumLen :: nat where "cltvMaxScriptNumLen = 5"

definition checkMinimalDataEncoding :: "bytes \<Rightarrow> unit res" where
  "checkMinimalDataEncoding v =
     (if length v = 0 then Inr ()
      else if last v AND 0x7f = 0 then
        (if length v = 1 \<or> v ! (length v - 2) AND 0x80 = 0 then Inl ErrMinimalData else Inr ())
      else Inr ())"

text \<open>The loop \<open>for n > 0 { result = append(result, byte(n&0xff)); n >>= 8 }\<close>.\<close>

function Bytes_loop :: "int \<Rightarrow> bytes" where
  "Bytes_loop n = (if n > 0 then word_of_int (n AND 0xff) # Bytes_loop (drop_bit 8 n) else [])"
  by pat_completeness auto
termination
  by (relation "measure nat") (auto simp: drop_bit_eq_div)

declare Bytes_loop.simps [simp del]

text \<open>
  \<open>scriptNum.Bytes\<close>. The negation is Go's \<open>int64\<close> negation, so it wraps at the minimum; the
  loop then yields nothing and \<open>result[len(result)-1]\<close> panics.
\<close>

definition Bytes :: "int \<Rightarrow> bytes res" where
  "Bytes n =
     (if n = 0 then Inr []
      else let isNegative = n < 0;
               m = (if isNegative then i64 (- n) else n);
               result = Bytes_loop m
           in if result = [] then Inl GoPanic
              else if last result AND 0x80 \<noteq> 0
              then Inr (result @ [if isNegative then 0x80 else 0])
              else if isNegative
              then Inr (butlast result @ [last result OR 0x80])
              else Inr result)"

definition Int32 :: "int \<Rightarrow> int" where
  "Int32 n = (if n > maxInt32 then maxInt32 else if n < minInt32 then minInt32 else n)"

text \<open>The loop \<open>result |= int64(val) << uint8(8*i)\<close> of \<open>MakeScriptNum\<close>.\<close>

fun decode_loop :: "nat \<Rightarrow> bytes \<Rightarrow> int \<Rightarrow> int" where
  "decode_loop i [] result = result"
| "decode_loop i (val # v) result =
     decode_loop (Suc i) v (result OR i64 (push_bit (8 * i mod 256) (uint val)))"

definition MakeScriptNum :: "bytes \<Rightarrow> bool \<Rightarrow> nat \<Rightarrow> int res" where
  "MakeScriptNum v requireMinimal scriptNumLen =
     (if length v > scriptNumLen then Inl ErrNumberTooBig
      else rbind (if requireMinimal then checkMinimalDataEncoding v else Inr ()) (\<lambda>_.
        if length v = 0 then Inr 0
        else let result = decode_loop 0 v 0 in
          if last v AND 0x80 \<noteq> 0
          then Inr (i64 (- (result AND NOT (i64 (push_bit (8 * (length v - 1) mod 256) 0x80)))))
          else Inr result))"

section \<open>Bits of bytes\<close>

lemma u8_and_80: "(b :: u8) AND 0x80 = 0 \<longleftrightarrow> unat b < 128"
proof -
  have "b AND 2 ^ 7 = 0 \<longleftrightarrow> \<not> bit b 7" by (rule and_exp_eq_0_iff_not_bit)
  also have "\<dots> \<longleftrightarrow> even (unat b div 128)"
    using bit_unsigned_iff [of b 7, where ?'a = nat] by (auto simp: bit_iff_odd [of "unat b"])
  also have "unat b div 128 = (if unat b < 128 then 0 else 1)"
    using unat_u8_less [of b] by auto
  then have "even (unat b div 128) \<longleftrightarrow> unat b < 128" by simp
  finally show ?thesis by simp
qed

lemma u8_and_7f: "(b :: u8) AND 0x7f = 0 \<longleftrightarrow> unat b mod 128 = 0"
proof -
  have "b AND mask 7 = 0 \<longleftrightarrow> unat (take_bit 7 b) = 0" by (simp add: take_bit_eq_mask unat_0_iff)
  also have "\<dots> \<longleftrightarrow> unat b mod 128 = 0" 
    unfolding unsigned_take_bit_eq by (simp add: take_bit_eq_mod)
  finally show ?thesis by (simp add: mask_eq_decr_exp)
qed

lemma u8_or_80: "unat (b :: u8) < 128 \<Longrightarrow> unat (b OR 0x80) = unat b + 128"
proof -
  assume *: "unat b < 128"
  then have "b OR 0x80 = b + 0x80" using u8_and_80 [of b] by (simp add: disjunctive_add_eq_or)
  then show ?thesis using * by (simp add: unat_word_ariths)
qed

lemma int_or_push_bit:
  fixes a b :: int
  assumes "0 \<le> a" "a < 2 ^ k"
  shows "a OR push_bit k b = a + 2 ^ k * b"
proof -
  have "take_bit k a = a" using assms by (simp add: take_bit_int_eq_self)
  then have "a AND push_bit k b = 0"
    by (metis (no_types) bit_and_iff bit_eqI bit_push_bit_iff bit_take_bit_iff bit_0_eq bot_apply
        bot_bool_def linorder_not_less)
  then have "a OR push_bit k b = a + push_bit k b" by (simp add: disjunctive_add_eq_or)
  then show ?thesis by (simp add: push_bit_eq_mult mult.commute)
qed

lemma i64_or: "i64 x OR i64 y = i64 (x OR y)"
  by (rule bit_eqI) (auto simp: i64_def bit_simps)

lemma i64_and_not: "i64 x AND NOT (i64 y) = i64 (x AND NOT y)"
  by (rule bit_eqI) (auto simp: i64_def bit_simps)

section \<open>What the codec computes\<close>

lemma Bytes_loop_pos: "0 < n \<Longrightarrow>
    Bytes_loop n = of_nat (nat n mod 256) # Bytes_loop (n div 256)"
proof -
  assume "0 < n"
  have "(n AND 255) = int (nat n mod 256)"
    using \<open>0 < n\<close> take_bit_eq_mask [of 8 n]
    by (simp add: mask_eq_exp_minus_1 take_bit_eq_mod zmod_int)
  with \<open>0 < n\<close> show ?thesis
    by (subst Bytes_loop.simps) (simp add: drop_bit_eq_div)
qed

lemma Bytes_loop_0 [simp]: "n \<le> 0 \<Longrightarrow> Bytes_loop n = []"
  by (subst Bytes_loop.simps) simp

lemma le_val_Bytes_loop: "le_val (Bytes_loop n) = nat n"
proof (induction n rule: Bytes_loop.induct)
  case (1 n)
  show ?case
  proof (cases "0 < n")
    case True
    with "1.IH" have "le_val (Bytes_loop (n div 256)) = nat n div 256"
      by (simp add: drop_bit_eq_div nat_div_distrib)
    with True show ?thesis by (simp add: Bytes_loop_pos unat_of_nat_u8)
  qed simp
qed

lemma Bytes_loop_last: "0 < n \<Longrightarrow> Bytes_loop n \<noteq> [] \<and> last (Bytes_loop n) \<noteq> 0"
proof (induction n rule: Bytes_loop.induct)
  case (1 n)
  show ?case
  proof (cases "n < 256")
    case True
    with "1.prems" have "n div 256 = 0" "nat n mod 256 = nat n" by simp_all
    moreover have "(of_nat (nat n) :: u8) \<noteq> 0"
      using True "1.prems" unat_of_nat_u8 [of "nat n"] by auto
    ultimately show ?thesis using "1.prems" by (simp add: Bytes_loop_pos)
  next
    case False
    then have "0 < n div 256" by simp
    with "1" show ?thesis by (simp add: Bytes_loop_pos drop_bit_eq_div)
  qed
qed

text \<open>A byte string whose most significant byte is not zero is the magnitude of one number only.\<close>

lemma Bytes_loop_le_val: "v = [] \<or> last v \<noteq> 0 \<Longrightarrow> Bytes_loop (int (le_val v)) = v"
proof (induction v)
  case Nil
  show ?case by simp
next
  case (Cons b v)
  have pos: "0 < le_val (b # v)"
  proof (cases "v = []")
    case True
    with Cons.prems show ?thesis by (simp add: unat_0_iff [symmetric] del: unat_0_iff)
  next
    case False
    with Cons have "Bytes_loop (int (le_val v)) = v" by simp
    with False have "le_val v \<noteq> 0" by (intro notI) simp
    then show ?thesis by simp
  qed
  have "le_val (b # v) mod 256 = unat b" "int (le_val (b # v)) div 256 = int (le_val v)"
    using unat_u8_less [of b] uint_lt2p [of b] by simp_all
  moreover have "Bytes_loop (int (le_val v)) = v" using Cons by (cases "v = []") auto
  ultimately show ?case
    using pos Bytes_loop_pos [of "int (le_val (b # v))"] by (simp only: nat_int) simp
qed

lemma decode_loop_i64:
  "i + length v \<le> 8 \<Longrightarrow> 0 \<le> a \<Longrightarrow> a < 256 ^ i \<Longrightarrow>
     decode_loop i v (i64 a) = i64 (a + 256 ^ i * int (le_val v))"
proof (induction v arbitrary: i a)
  case Nil
  then show ?case by simp
next
  case (Cons b v)
  have pow: "(256::int) ^ i = 2 ^ (8 * i)" by (simp add: power_mult)
  have "8 * i mod 256 = 8 * i" using Cons.prems(1) by simp
  then have "decode_loop i (b # v) (i64 a) = decode_loop (Suc i) v (i64 (a + 256 ^ i * uint b))"
    using Cons.prems by (simp add: i64_or int_or_push_bit pow)
  also have "\<dots> = i64 (a + 256 ^ i * uint b + 256 ^ Suc i * int (le_val v))"
  proof (rule Cons.IH)
    have "uint b + 1 \<le> 256" using uint_lt2p [of b] by simp
    then have "256 ^ i * (uint b + 1) \<le> 256 ^ i * 256" by (rule mult_left_mono) simp
    then have "256 ^ i * uint b + 256 ^ i \<le> 256 ^ Suc i" by (simp add: distrib_left)
    with Cons.prems(3) show "a + 256 ^ i * uint b < 256 ^ Suc i" by linarith
  qed (use Cons.prems in auto)
  finally show ?case by (simp add: algebra_simps)
qed

lemma decode_loop_0: "length v \<le> 8 \<Longrightarrow> decode_loop 0 v 0 = i64 (int (le_val v))"
  using decode_loop_i64 [of 0 v 0] by simp

text \<open>
  The reference reading of a script number: the little-endian magnitude of all bits but the
  most significant one, which is the sign.
\<close>

definition sign_bit :: "bytes \<Rightarrow> bool" where
  "sign_bit v \<longleftrightarrow> v \<noteq> [] \<and> 128 \<le> unat (last v)"

definition sm_val :: "bytes \<Rightarrow> int" where
  "sm_val v = (if sign_bit v then - (int (le_val v) - 2 ^ (8 * length v - 1)) else int (le_val v))"

definition minimal_num :: "bytes \<Rightarrow> bool" where
  "minimal_num v \<longleftrightarrow> v = [] \<or> unat (last v) mod 128 \<noteq> 0 \<or>
     (1 < length v \<and> 128 \<le> unat (v ! (length v - 2)))"

lemma checkMinimal_iff: "checkMinimalDataEncoding v = Inr u \<longleftrightarrow> minimal_num v"
  by (cases "v = []")
    (auto simp: checkMinimalDataEncoding_def minimal_num_def u8_and_80 u8_and_7f not_less neq_Nil_conv)

lemma le_val_split:
  assumes "v \<noteq> []"
  shows "le_val v = le_val (butlast v) + 2 ^ (8 * (length v - 1)) * unat (last v)"
proof -
  have "le_val v = le_val (butlast v @ [last v])" using assms by simp
  also have "\<dots> = le_val (butlast v) + 256 ^ (length v - 1) * unat (last v)"
    by (simp only: le_val_append) simp
  finally show ?thesis by (simp add: power_mult)
qed

lemma le_val_butlast_less: "v \<noteq> [] \<Longrightarrow> le_val (butlast v) < 2 ^ (8 * (length v - 1))"
  using le_val_less [of "butlast v"] by (simp add: power_mult)

lemma sm_top: "v \<noteq> [] \<Longrightarrow> 2 ^ (8 * length v - 1) = 128 * (2::'a::semiring_1) ^ (8 * (length v - 1))"
  by (cases v) (simp_all add: power_add)

text \<open>Sign and magnitude of a non-empty byte string.\<close>

lemma le_val_sign_bounds:
  assumes "v \<noteq> []"
  shows "sign_bit v \<Longrightarrow> 2 ^ (8 * length v - 1) \<le> le_val v \<and> le_val v < 2 * 2 ^ (8 * length v - 1)"
    and "\<not> sign_bit v \<Longrightarrow> le_val v < 2 ^ (8 * length v - 1)"
proof -
  let ?k = "2 ^ (8 * (length v - 1)) :: nat"
  have low: "le_val (butlast v) < ?k" using assms by (rule le_val_butlast_less)
  have "unat (last v) \<le> 255" by (rule unat_u8_le)
  then have hi: "?k * unat (last v) \<le> ?k * 255" by (rule mult_le_mono2)
  { assume "sign_bit v"
    then have "?k * 128 \<le> ?k * unat (last v)" by (simp add: sign_bit_def)
    with low hi show "2 ^ (8 * length v - 1) \<le> le_val v \<and> le_val v < 2 * 2 ^ (8 * length v - 1)"
      unfolding le_val_split [OF assms] sm_top [OF assms] by linarith }
  { assume "\<not> sign_bit v"
    then have "unat (last v) \<le> 127" using assms by (simp add: sign_bit_def)
    then have "?k * unat (last v) \<le> ?k * 127" by (rule mult_le_mono2)
    with low show "le_val v < 2 ^ (8 * length v - 1)"
      unfolding le_val_split [OF assms] sm_top [OF assms] by linarith }
qed

lemma le_val_sign_bounds_int:
  assumes "v \<noteq> []"
  shows "sign_bit v \<Longrightarrow> 2 ^ (8 * length v - 1) \<le> int (le_val v)"
    and "sign_bit v \<Longrightarrow> int (le_val v) < 2 * 2 ^ (8 * length v - 1)"
    and "\<not> sign_bit v \<Longrightarrow> int (le_val v) < 2 ^ (8 * length v - 1)"
proof -
  have "int (2 ^ (8 * length v - 1)) \<le> int (le_val v) \<and>
      int (le_val v) < int (2 * 2 ^ (8 * length v - 1))" if "sign_bit v"
    using le_val_sign_bounds(1) [OF assms that] by (simp only: of_nat_le_iff of_nat_less_iff)
  then show "sign_bit v \<Longrightarrow> 2 ^ (8 * length v - 1) \<le> int (le_val v)"
    and "sign_bit v \<Longrightarrow> int (le_val v) < 2 * 2 ^ (8 * length v - 1)" by simp_all
  have "int (le_val v) < int (2 ^ (8 * length v - 1))" if "\<not> sign_bit v"
    using le_val_sign_bounds(2) [OF assms that] by (simp only: of_nat_less_iff)
  then show "\<not> sign_bit v \<Longrightarrow> int (le_val v) < 2 ^ (8 * length v - 1)" by simp
qed

text \<open>The bit manipulations of \<open>MakeScriptNum\<close> compute exactly that reading, up to eight bytes.\<close>

lemma and_not_exp:
  fixes x :: int
  assumes "2 ^ k \<le> x" "x < 2 * 2 ^ k"
  shows "x AND NOT (2 ^ k) = x - 2 ^ k"
proof -
  have "(x - 2 ^ k) OR push_bit k 1 = x"
    using assms by (subst int_or_push_bit) auto
  then have x: "x = (x - 2 ^ k) OR 2 ^ k" by (simp add: push_bit_of_1)
  have "\<not> bit (x - 2 ^ k) k"
  proof -
    have "(x - 2 ^ k) div 2 ^ k = 0" using assms by (intro div_pos_pos_trivial) auto
    then show ?thesis by (simp add: bit_iff_odd)
  qed
  then have "((x - 2 ^ k) OR 2 ^ k) AND NOT (2 ^ k) = x - 2 ^ k"
    by (intro bit_eqI) (auto simp: bit_simps)
  then show ?thesis using x by simp
qed

lemma MakeScriptNum_eq_sm_val:
  assumes "length v \<le> 8" "length v \<le> k"
  shows "MakeScriptNum v False k = Inr (sm_val v)"
proof (cases "v = []")
  case True
  then show ?thesis by (simp add: MakeScriptNum_def sm_val_def sign_bit_def)
next
  case False
  let ?K = "2 ^ (8 * length v - 1) :: int"
  have "?K \<le> 2 ^ 63" using assms(1) by (intro power_increasing) auto
  note bounds = le_val_sign_bounds_int [OF False]
  have top: "last v AND 0x80 \<noteq> 0 \<longleftrightarrow> sign_bit v"
    using False by (simp add: u8_and_80 sign_bit_def not_less)
  have sh: "push_bit (8 * (length v - 1)) 0x80 = ?K"
    using assms(1) sm_top [OF False, where ?'a = int] by (simp add: push_bit_eq_mult)
  show ?thesis
  proof (cases "sign_bit v")
    case True
    then have le: "?K \<le> int (le_val v)" "int (le_val v) < 2 * ?K"
      by (rule bounds)+
    then have "i64 (int (le_val v)) AND NOT (i64 ?K) = int (le_val v) - ?K"
      using \<open>?K \<le> 2 ^ 63\<close> by (simp add: i64_and_not and_not_exp i64_id is_i64_def)
    moreover have "i64 (- (int (le_val v) - ?K)) = - (int (le_val v) - ?K)"
      using le \<open>?K \<le> 2 ^ 63\<close> by (intro i64_id, unfold is_i64_def) linarith
    ultimately show ?thesis
      using True False assms
      by (simp add: MakeScriptNum_def sm_val_def top sh [unfolded One_nat_def] decode_loop_0 Let_def del: minus_diff_eq)
  next
    case nsign: False
    then have "int (le_val v) < ?K" by (rule bounds)
    then have "i64 (int (le_val v)) = int (le_val v)"
      using \<open>?K \<le> 2 ^ 63\<close> by (intro i64_id, unfold is_i64_def) linarith
    with nsign False assms show ?thesis
      by (simp add: MakeScriptNum_def sm_val_def top decode_loop_0 Let_def)
  qed
qed

lemma MakeScriptNum_full:
  "length v \<le> 8 \<Longrightarrow> MakeScriptNum v m k =
     (if length v > k then Inl ErrNumberTooBig
      else if m \<and> \<not> minimal_num v then Inl ErrMinimalData else Inr (sm_val v))"
  using MakeScriptNum_eq_sm_val [of v k] checkMinimal_iff [of v]
  by (cases "checkMinimalDataEncoding v")
    (auto simp: MakeScriptNum_def checkMinimalDataEncoding_def split: if_splits)

lemma MakeScriptNum_Inr:
  assumes "MakeScriptNum v m k = Inr n" "k \<le> 8"
  shows "length v \<le> k" "m \<longrightarrow> minimal_num v" "n = sm_val v"
proof -
  show "length v \<le> k" using assms(1) by (auto simp: MakeScriptNum_def split: if_splits)
  with assms show "m \<longrightarrow> minimal_num v" "n = sm_val v"
    by (auto simp: MakeScriptNum_full split: if_splits)
qed

lemma sm_val_bound: "v \<noteq> [] \<Longrightarrow> \<bar>sm_val v\<bar> < 2 ^ (8 * length v - 1)"
  using le_val_sign_bounds_int [of v] by (auto simp: sm_val_def)

text \<open>The magnitude \<open>\<bar>sm_val v\<bar>\<close>: the bytes below the last one and its low seven bits.\<close>

definition clear_sign :: "u8 \<Rightarrow> u8" where
  "clear_sign b = of_nat (unat b mod 128)"

lemma unat_clear_sign: "unat (clear_sign b) = unat b mod 128"
  by (simp add: clear_sign_def unat_of_nat_u8)

lemma clear_sign_or:
  "128 \<le> unat b \<Longrightarrow> clear_sign b OR 0x80 = b" "unat b < 128 \<Longrightarrow> clear_sign b = b"
proof -
  show "clear_sign b OR 0x80 = b" if "128 \<le> unat b"
  proof -
    have "unat b mod 128 + 128 = unat b" using that unat_u8_less [of b] by (simp add: le_mod_geq)
    then have "unat (clear_sign b OR 0x80) = unat b" by (simp add: u8_or_80 unat_clear_sign)
    then show ?thesis by (rule u8_eqI)
  qed
  show "clear_sign b = b" if "unat b < 128" using that by (simp add: clear_sign_def)
qed

lemma abs_sm_val:
  assumes "v \<noteq> []"
  shows "\<bar>sm_val v\<bar> = int (le_val (butlast v @ [clear_sign (last v)]))"
proof -
  let ?k = "2 ^ (8 * (length v - 1)) :: nat"
  have m: "le_val (butlast v @ [clear_sign (last v)]) = le_val (butlast v) + ?k * (unat (last v) mod 128)"
    by (simp add: le_val_append unat_clear_sign power_mult)
  show ?thesis
  proof (cases "sign_bit v")
    case True
    then have "unat (last v) = 128 + unat (last v) mod 128"
      using unat_u8_less [of "last v"] by (simp add: sign_bit_def le_mod_geq)
    then have "?k * unat (last v) = ?k * 128 + ?k * (unat (last v) mod 128)"
      by (metis distrib_left)
    with True have "sm_val v = - int (le_val (butlast v) + ?k * (unat (last v) mod 128))"
      unfolding sm_val_def le_val_split [OF assms] sm_top [OF assms] by simp
    then show ?thesis unfolding m by (simp only: abs_minus_cancel abs_of_nat)
  next
    case False
    then have "unat (last v) mod 128 = unat (last v)" using assms by (simp add: sign_bit_def)
    with False show ?thesis unfolding m sm_val_def le_val_split [OF assms] by simp
  qed
qed

lemma sm_val_neg_iff: "sm_val v \<noteq> 0 \<Longrightarrow> sm_val v < 0 \<longleftrightarrow> sign_bit v"
  using le_val_sign_bounds_int(1) [of v] by (auto simp: sm_val_def sign_bit_def)

lemma Bytes_nonzero:
  assumes "n \<noteq> 0" "- (2 ^ 63) < n" and r: "Bytes_loop \<bar>n\<bar> = r"
  shows "Bytes n = Inr (if last r AND 0x80 \<noteq> 0 then r @ [if n < 0 then 0x80 else 0]
                        else if n < 0 then butlast r @ [last r OR 0x80] else r)"
proof -
  have "n < 0 \<Longrightarrow> Bytes_loop (i64 (- n)) = r" "\<not> n < 0 \<Longrightarrow> Bytes_loop n = r"
    using assms(2) r by (simp_all add: i64_id is_i64_def)
  moreover have "r \<noteq> []" using Bytes_loop_last [of "\<bar>n\<bar>"] assms(1) r by simp
  ultimately show ?thesis using assms(1) r by (simp add: Bytes_def Let_def)
qed

text \<open>A minimal encoding is the encoding \<open>Bytes\<close> produces: encodings are unique.\<close>

lemma Bytes_sm_val:
  assumes min: "minimal_num v" and bound: "- (2 ^ 63) < sm_val v"
  shows "Bytes (sm_val v) = Inr v"
proof (cases "v = []")
  case True
  then show ?thesis by (simp add: sm_val_def sign_bit_def Bytes_def)
next
  case False
  define r where "r = (if unat (last v) mod 128 \<noteq> 0 then butlast v @ [clear_sign (last v)] else butlast v)"
  have zero: "clear_sign (last v) = 0" if "unat (last v) mod 128 = 0"
    using that by (simp add: clear_sign_def)
  have mag: "\<bar>sm_val v\<bar> = int (le_val r)"
    using abs_sm_val [OF False] by (auto simp: r_def zero le_val_append)
  have prev: "butlast v \<noteq> [] \<and> 128 \<le> unat (last (butlast v))" if "unat (last v) mod 128 = 0"
  proof -
    from that min False have l: "1 < length v" "128 \<le> unat (v ! (length v - 2))"
      by (auto simp: minimal_num_def)
    then have "butlast v \<noteq> []" by (cases v rule: rev_cases) auto
    then show ?thesis using l by (simp add: last_conv_nth nth_butlast numeral_2_eq_2)
  qed
  have r: "r \<noteq> []" "last r \<noteq> 0"
    using prev by (auto simp: r_def unat_clear_sign simp flip: unat_0_iff)
  then have loop: "Bytes_loop \<bar>sm_val v\<bar> = r"
    unfolding mag by (intro Bytes_loop_le_val) simp
  with r have pos: "sm_val v \<noteq> 0" by (metis Bytes_loop_0 abs_0 order_refl)
  note enc = Bytes_nonzero [OF pos bound loop]
  have sgn: "sm_val v < 0 \<longleftrightarrow> 128 \<le> unat (last v)"
    using sm_val_neg_iff [OF pos] False by (simp add: sign_bit_def)
  have hi: "last r AND 0x80 \<noteq> 0 \<longleftrightarrow> unat (last v) mod 128 = 0"
    using prev by (auto simp: u8_and_80 r_def unat_clear_sign)
  have split: "butlast v @ [last v] = v" using False by simp
  show ?thesis
  proof (cases "unat (last v) mod 128 = 0")
    case True
    have "(if sm_val v < 0 then 0x80 else 0) = last v"
    proof -
      have "unat (last v) = (if sm_val v < 0 then 128 else 0)"
        using True sgn unat_u8_less [of "last v"] by (auto elim!: dvdE simp: mod_eq_0_iff_dvd)
      then show ?thesis by (intro u8_eqI) simp
    qed
    then show ?thesis
      using True hi split by (simp add: enc) (simp add: r_def)
  next
    case False
    have "butlast r @ [last r OR 0x80] = v" if "sm_val v < 0"
      using that sgn False split clear_sign_or(1) [of "last v"]
      by (simp add: r_def)
    moreover have "r = v" if "\<not> sm_val v < 0"
      using that sgn False split clear_sign_or(2) [of "last v"] by (simp add: r_def not_le)
    ultimately show ?thesis
      using False hi by (simp add: enc)
  qed
qed

text \<open>Every \<open>int64\<close> but the smallest has a minimal encoding, of at most eight bytes.\<close>

lemma minimal_num_lower:
  assumes "minimal_num v" "v \<noteq> []"
  shows "2 ^ (8 * (length v - 1)) \<le> 2 * \<bar>sm_val v\<bar>"
proof (cases "unat (last v) mod 128 = 0")
  case True
  then have l: "1 < length v" "128 \<le> unat (v ! (length v - 2))"
    using assms by (auto simp: minimal_num_def)
  then have ne: "butlast v \<noteq> []" by (cases v rule: rev_cases) auto
  then have "sign_bit (butlast v)"
    using l by (simp add: sign_bit_def last_conv_nth nth_butlast numeral_2_eq_2)
  then have "2 ^ (8 * (length v - 1) - 1) \<le> int (le_val (butlast v))"
    using le_val_sign_bounds_int(1) [OF ne] by simp
  also have "int (le_val (butlast v)) = \<bar>sm_val v\<bar>"
    using abs_sm_val [OF assms(2)] True by (simp add: le_val_append clear_sign_def)
  finally have "2 * 2 ^ (8 * (length v - 1) - 1) \<le> 2 * \<bar>sm_val v\<bar>" by simp
  then show ?thesis using l(1) by (simp flip: power_Suc)
next
  case False
  then have "1 \<le> unat (last v) mod 128" by simp
  then have "256 ^ (length v - 1) * 1 \<le> 256 ^ (length v - 1) * (unat (last v) mod 128)"
    by (rule mult_le_mono2)
  then have "256 ^ (length v - 1) \<le> le_val (butlast v) + 256 ^ (length v - 1) * (unat (last v) mod 128)"
    by linarith
  also have "\<dots> = le_val (butlast v @ [clear_sign (last v)])"
    by (simp add: le_val_append unat_clear_sign)
  finally have "int (256 ^ (length v - 1)) \<le> \<bar>sm_val v\<bar>"
    unfolding abs_sm_val [OF assms(2)] of_nat_le_iff .
  then show ?thesis by (simp add: power_mult)
qed

lemma Bytes_Inr:
  assumes "- (2 ^ 63) < n" "n < 2 ^ 63"
  obtains v where "Bytes n = Inr v" "sm_val v = n" "minimal_num v" "length v \<le> 8"
proof -
  have "\<exists>v. Bytes n = Inr v \<and> sm_val v = n \<and> minimal_num v"
  proof (cases "n = 0")
    case True
    then show ?thesis by (simp add: Bytes_def sm_val_def sign_bit_def minimal_num_def)
  next
    case False
    define r where "r = Bytes_loop \<bar>n\<bar>"
    have r: "r \<noteq> []" "last r \<noteq> 0" "int (le_val r) = \<bar>n\<bar>"
      using Bytes_loop_last [of "\<bar>n\<bar>"] False by (simp_all add: r_def le_val_Bytes_loop)
    note enc = Bytes_nonzero [OF False assms(1) r_def [symmetric]]
    show ?thesis
    proof (cases "unat (last r) < 128")
      case True
      have "unat (last r) \<noteq> 0" using r(2) by (simp add: unat_0_iff)
      define v where "v = (if n < 0 then butlast r @ [last r OR 0x80] else r)"
      have v: "v \<noteq> []" "butlast v = butlast r" "unat (last v) mod 128 = unat (last r)"
        "sign_bit v \<longleftrightarrow> n < 0"
        using r True by (simp_all add: v_def u8_or_80 sign_bit_def)
      then have "clear_sign (last v) = last r" by (simp add: clear_sign_def)
      then have "\<bar>sm_val v\<bar> = \<bar>n\<bar>" using abs_sm_val [of v] v r by simp
      then have "sm_val v = n" using sm_val_neg_iff [of v] v(4) False by linarith
      moreover have "Bytes n = Inr v" using True by (simp add: enc v_def u8_and_80)
      moreover have "minimal_num v" using v \<open>unat (last r) \<noteq> 0\<close> by (simp add: minimal_num_def)
      ultimately show ?thesis by blast
    next
      case hi: False
      define v where "v = r @ [if n < 0 then 0x80 else 0]"
      have v: "v \<noteq> []" "butlast v = r" "clear_sign (last v) = 0" "sign_bit v \<longleftrightarrow> n < 0"
        by (simp_all add: v_def clear_sign_def sign_bit_def)
      then have "\<bar>sm_val v\<bar> = \<bar>n\<bar>" using abs_sm_val [of v] r by (simp add: le_val_append)
      then have "sm_val v = n" using sm_val_neg_iff [of v] v(4) False by linarith
      moreover have "Bytes n = Inr v" using hi by (simp add: enc v_def u8_and_80)
      moreover have "minimal_num v"
        using hi r(1) by (simp add: minimal_num_def v_def nth_append last_conv_nth)
      ultimately show ?thesis by blast
    qed
  qed
  then obtain v where v: "Bytes n = Inr v" "sm_val v = n" "minimal_num v" by blast
  have "length v \<le> 8"
  proof (rule ccontr)
    assume "\<not> length v \<le> 8"
    then have "(2::int) ^ 64 \<le> 2 ^ (8 * (length v - 1))" by (intro power_increasing) auto
    moreover have "v \<noteq> []" using \<open>\<not> length v \<le> 8\<close> by auto
    ultimately show False using minimal_num_lower [OF v(3)] v(2) assms by simp
  qed
  with v show ?thesis by (rule that)
qed

section \<open>Properties\<close>

text \<open>C27: Encoding a script number and decoding it again gives the number back, with or without the
  minimal-encoding requirement and for every length limit the encoding fits, for every
  \<open>int64\<close> but the smallest.\<close>

theorem scriptnum_roundtrip:
  assumes "- (2 ^ 63) < n" "n < 2 ^ 63"
  shows "\<exists>v. Bytes n = Inr v \<and> length v \<le> 8 \<and> (\<forall>m k. MakeScriptNum v m k = (if length v \<le> k then Inr n else Inl ErrNumberTooBig))"
proof -
  obtain v where "Bytes n = Inr v" "sm_val v = n" "minimal_num v" "length v \<le> 8"
    using Bytes_Inr [OF assms] .
  then show ?thesis by (auto simp: MakeScriptNum_full)
qed

theorem scriptnum_roundtrip_witness:
  "\<exists>v. Bytes (-70000) = Inr v \<and> length v \<le> 8 \<and> MakeScriptNum v True 8 = Inr (-70000)"
  using scriptnum_roundtrip [of "-70000"] by auto

text \<open>Decoding with the minimal-encoding requirement is injective and canonical: the only byte
  string that decodes to a number is the one \<open>Bytes\<close> produces, and the number lies in the range
  of the length limit.\<close>

theorem MakeScriptNum_canonical:
  assumes "MakeScriptNum v True k = Inr n" "0 < k" "k \<le> 8"
  shows "Bytes n = Inr v \<and> \<bar>n\<bar> < 2 ^ (8 * k - 1)"
proof -
  have v: "length v \<le> k" "minimal_num v" "n = sm_val v"
    using MakeScriptNum_Inr [OF assms(1,3)] by simp_all
  have b: "\<bar>n\<bar> < 2 ^ (8 * k - 1)"
  proof (cases "v = []")
    case True
    then show ?thesis using v by (simp add: sm_val_def sign_bit_def)
  next
    case False
    have "\<bar>n\<bar> < 2 ^ (8 * length v - 1)" using sm_val_bound [OF False] v by simp
    also have "\<dots> \<le> (2::int) ^ (8 * k - 1)" using v by (intro power_increasing) auto
    finally show ?thesis .
  qed
  also have "(2::int) ^ (8 * k - 1) \<le> 2 ^ 63" using assms by (intro power_increasing) auto
  finally have "- (2 ^ 63) < sm_val v" using v by simp
  with Bytes_sm_val v b show ?thesis by blast
qed

theorem MakeScriptNum_canonical_witness:
  "Bytes 128 = Inr [0x80, 0] \<and> \<bar>128 :: int\<bar> < 2 ^ (8 * 4 - 1)"
proof (rule MakeScriptNum_canonical)
  show "MakeScriptNum [0x80, 0] True 4 = Inr 128" by code_simp
qed simp_all

text \<open>Encoding fails on exactly one \<open>int64\<close>: at the minimum the negation wraps, the digit loop
  yields nothing and the indexing of the last digit panics.\<close>

theorem Bytes_panics_iff:
  assumes "is_i64 n"
  shows "Bytes n = Inl e \<longleftrightarrow> n = - (2 ^ 63) \<and> e = GoPanic"
proof (cases "n = - (2 ^ 63)")
  case True
  have "i64 (2 ^ 63) = - (2 ^ 63)" by (simp add: i64_def)
  with True show ?thesis by (auto simp: Bytes_def)
next
  case False
  then have "- (2 ^ 63) < n" "n < 2 ^ 63" using assms by (auto simp: is_i64_def)
  then obtain v where "Bytes n = Inr v" using Bytes_Inr by metis
  with False show ?thesis by simp
qed

theorem Bytes_panics_iff_witness: "Bytes (- (2 ^ 63)) = Inl GoPanic"
  using Bytes_panics_iff [of "- (2 ^ 63)" GoPanic] by (simp add: is_i64_def)

end
