(* ===== verification/Script_Tokenizer.thy ===== *)
theory Script_Tokenizer
  imports Script_Num
begin

unbundle bit_operations_syntax

text \<open>
  The opcode constants and lengths (\<open>opcode.go\<close>) and the tokenizer that walks a raw script
  opcode by opcode (\<open>tokenizer.go\<close>), with the proof that tokenizing inverts the byte encoding
  of instructions.
\<close>

section \<open>Opcodes\<close>

abbreviation OP_0 :: u8 where "OP_0 \<equiv> 0x00"
abbreviation OP_FALSE :: u8 where "OP_FALSE \<equiv> 0x00"
abbreviation OP_DATA_1 :: u8 where "OP_DATA_1 \<equiv> 0x01"
abbreviation OP_DATA_20 :: u8 where "OP_DATA_20 \<equiv> 0x14"
abbreviation OP_DATA_32 :: u8 where "OP_DATA_32 \<equiv> 0x20"
abbreviation OP_DATA_33 :: u8 where "OP_DATA_33 \<equiv> 0x21"
abbreviation OP_DATA_65 :: u8 where "OP_DATA_65 \<equiv> 0x41"
abbreviation OP_DATA_75 :: u8 where "OP_DATA_75 \<equiv> 0x4b"
abbreviation OP_PUSHDATA1 :: u8 where "OP_PUSHDATA1 \<equiv> 0x4c"
abbreviation OP_PUSHDATA2 :: u8 where "OP_PUSHDATA2 \<equiv> 0x4d"
abbreviation OP_PUSHDATA4 :: u8 where "OP_PUSHDATA4 \<equiv> 0x4e"
abbreviation OP_1NEGATE :: u8 where "OP_1NEGATE \<equiv> 0x4f"
abbreviation OP_RESERVED :: u8 where "OP_RESERVED \<equiv> 0x50"
abbreviation OP_1 :: u8 where "OP_1 \<equiv> 0x51"
abbreviation OP_TRUE :: u8 where "OP_TRUE \<equiv> 0x51"
abbreviation OP_2 :: u8 where "OP_2 \<equiv> 0x52"
abbreviation OP_3 :: u8 where "OP_3 \<equiv> 0x53"
abbreviation OP_4 :: u8 where "OP_4 \<equiv> 0x54"
abbreviation OP_5 :: u8 where "OP_5 \<equiv> 0x55"
abbreviation OP_6 :: u8 where "OP_6 \<equiv> 0x56"
abbreviation OP_7 :: u8 where "OP_7 \<equiv> 0x57"
abbreviation OP_8 :: u8 where "OP_8 \<equiv> 0x58"
abbreviation OP_9 :: u8 where "OP_9 \<equiv> 0x59"
abbreviation OP_10 :: u8 where "OP_10 \<equiv> 0x5a"
abbreviation OP_11 :: u8 where "OP_11 \<equiv> 0x5b"
abbreviation OP_12 :: u8 where "OP_12 \<equiv> 0x5c"
abbreviation OP_13 :: u8 where "OP_13 \<equiv> 0x5d"
abbreviation OP_14 :: u8 where "OP_14 \<equiv> 0x5e"
abbreviation OP_15 :: u8 where "OP_15 \<equiv> 0x5f"
abbreviation OP_16 :: u8 where "OP_16 \<equiv> 0x60"
abbreviation OP_NOP :: u8 where "OP_NOP \<equiv> 0x61"
abbreviation OP_VER :: u8 where "OP_VER \<equiv> 0x62"
abbreviation OP_IF :: u8 where "OP_IF \<equiv> 0x63"
abbreviation OP_NOTIF :: u8 where "OP_NOTIF \<equiv> 0x64"
abbreviation OP_VERIF :: u8 where "OP_VERIF \<equiv> 0x65"
abbreviation OP_VERNOTIF :: u8 where "OP_VERNOTIF \<equiv> 0x66"
abbreviation OP_ELSE :: u8 where "OP_ELSE \<equiv> 0x67"
abbreviation OP_ENDIF :: u8 where "OP_ENDIF \<equiv> 0x68"
abbreviation OP_VERIFY :: u8 where "OP_VERIFY \<equiv> 0x69"
abbreviation OP_RETURN :: u8 where "OP_RETURN \<equiv> 0x6a"
abbreviation OP_TOALTSTACK :: u8 where "OP_TOALTSTACK \<equiv> 0x6b"
abbreviation OP_FROMALTSTACK :: u8 where "OP_FROMALTSTACK \<equiv> 0x6c"
abbreviation OP_2DROP :: u8 where "OP_2DROP \<equiv> 0x6d"
abbreviation OP_2DUP :: u8 where "OP_2DUP \<equiv> 0x6e"
abbreviation OP_3DUP :: u8 where "OP_3DUP \<equiv> 0x6f"
abbreviation OP_2OVER :: u8 where "OP_2OVER \<equiv> 0x70"
abbreviation OP_2ROT :: u8 where "OP_2ROT \<equiv> 0x71"
abbreviation OP_2SWAP :: u8 where "OP_2SWAP \<equiv> 0x72"
abbreviation OP_IFDUP :: u8 where "OP_IFDUP \<equiv> 0x73"
abbreviation OP_DEPTH :: u8 where "OP_DEPTH \<equiv> 0x74"
abbreviation OP_DROP :: u8 where "OP_DROP \<equiv> 0x75"
abbreviation OP_DUP :: u8 where "OP_DUP \<equiv> 0x76"
abbreviation OP_NIP :: u8 where "OP_NIP \<equiv> 0x77"
abbreviation OP_OVER :: u8 where "OP_OVER \<equiv> 0x78"
abbreviation OP_PICK :: u8 where "OP_PICK \<equiv> 0x79"
abbreviation OP_ROLL :: u8 where "OP_ROLL \<equiv> 0x7a"
abbreviation OP_ROT :: u8 where "OP_ROT \<equiv> 0x7b"
abbreviation OP_SWAP :: u8 where "OP_SWAP \<equiv> 0x7c"
abbreviation OP_TUCK :: u8 where "OP_TUCK \<equiv> 0x7d"
abbreviation OP_CAT :: u8 where "OP_CAT \<equiv> 0x7e"
abbreviation OP_SUBSTR :: u8 where "OP_SUBSTR \<equiv> 0x7f"
abbreviation OP_LEFT :: u8 where "OP_LEFT \<equiv> 0x80"
abbreviation OP_RIGHT :: u8 where "OP_RIGHT \<equiv> 0x81"
abbreviation OP_SIZE :: u8 where "OP_SIZE \<equiv> 0x82"
abbreviation OP_INVERT :: u8 where "OP_INVERT \<equiv> 0x83"
abbreviation OP_AND :: u8 where "OP_AND \<equiv> 0x84"
abbreviation OP_OR :: u8 where "OP_OR \<equiv> 0x85"
abbreviation OP_XOR :: u8 where "OP_XOR \<equiv> 0x86"
abbreviation OP_EQUAL :: u8 where "OP_EQUAL \<equiv> 0x87"
abbreviation OP_EQUALVERIFY :: u8 where "OP_EQUALVERIFY \<equiv> 0x88"
abbreviation OP_RESERVED1 :: u8 where "OP_RESERVED1 \<equiv> 0x89"
abbreviation OP_RESERVED2 :: u8 where "OP_RESERVED2 \<equiv> 0x8a"
abbreviation OP_1ADD :: u8 where "OP_1ADD \<equiv> 0x8b"
abbreviation OP_1SUB :: u8 where "OP_1SUB \<equiv> 0x8c"
abbreviation OP_2MUL :: u8 where "OP_2MUL \<equiv> 0x8d"
abbreviation OP_2DIV :: u8 where "OP_2DIV \<equiv> 0x8e"
abbreviation OP_NEGATE :: u8 where "OP_NEGATE \<equiv> 0x8f"
abbreviation OP_ABS :: u8 where "OP_ABS \<equiv> 0x90"
abbreviation OP_NOT :: u8 where "OP_NOT \<equiv> 0x91"
abbreviation OP_0NOTEQUAL :: u8 where "OP_0NOTEQUAL \<equiv> 0x92"
abbreviation OP_ADD :: u8 where "OP_ADD \<equiv> 0x93"
abbreviation OP_SUB :: u8 where "OP_SUB \<equiv> 0x94"
abbreviation OP_MUL :: u8 where "OP_MUL \<equiv> 0x95"
abbreviation OP_DIV :: u8 where "OP_DIV \<equiv> 0x96"
abbreviation OP_MOD :: u8 where "OP_MOD \<equiv> 0x97"
abbreviation OP_LSHIFT :: u8 where "OP_LSHIFT \<equiv> 0x98"
abbreviation OP_RSHIFT :: u8 where "OP_RSHIFT \<equiv> 0x99"
abbreviation OP_BOOLAND :: u8 where "OP_BOOLAND \<equiv> 0x9a"
abbreviation OP_BOOLOR :: u8 where "OP_BOOLOR \<equiv> 0x9b"
abbreviation OP_NUMEQUAL :: u8 where "OP_NUMEQUAL \<equiv> 0x9c"
abbreviation OP_NUMEQUALVERIFY :: u8 where "OP_NUMEQUALVERIFY \<equiv> 0x9d"
abbreviation OP_NUMNOTEQUAL :: u8 where "OP_NUMNOTEQUAL \<equiv> 0x9e"
abbreviation OP_LESSTHAN :: u8 where "OP_LESSTHAN \<equiv> 0x9f"
abbreviation OP_GREATERTHAN :: u8 where "OP_GREATERTHAN \<equiv> 0xa0"
abbreviation OP_LESSTHANOREQUAL :: u8 where "OP_LESSTHANOREQUAL \<equiv> 0xa1"
abbreviation OP_GREATERTHANOREQUAL :: u8 where "OP_GREATERTHANOREQUAL \<equiv> 0xa2"
abbreviation OP_MIN :: u8 where "OP_MIN \<equiv> 0xa3"
abbreviation OP_MAX :: u8 where "OP_MAX \<equiv> 0xa4"
abbreviation OP_WITHIN :: u8 where "OP_WITHIN \<equiv> 0xa5"
abbreviation OP_RIPEMD160 :: u8 where "OP_RIPEMD160 \<equiv> 0xa6"
abbreviation OP_SHA1 :: u8 where "OP_SHA1 \<equiv> 0xa7"
abbreviation OP_SHA256 :: u8 where "OP_SHA256 \<equiv> 0xa8"
abbreviation OP_HASH160 :: u8 where "OP_HASH160 \<equiv> 0xa9"
abbreviation OP_HASH256 :: u8 where "OP_HASH256 \<equiv> 0xaa"
abbreviation OP_CODESEPARATOR :: u8 where "OP_CODESEPARATOR \<equiv> 0xab"
abbreviation OP_CHECKSIG :: u8 where "OP_CHECKSIG \<equiv> 0xac"
abbreviation OP_CHECKSIGVERIFY :: u8 where "OP_CHECKSIGVERIFY \<equiv> 0xad"
abbreviation OP_CHECKMULTISIG :: u8 where "OP_CHECKMULTISIG \<equiv> 0xae"
abbreviation OP_CHECKMULTISIGVERIFY :: u8 where "OP_CHECKMULTISIGVERIFY \<equiv> 0xaf"
abbreviation OP_NOP1 :: u8 where "OP_NOP1 \<equiv> 0xb0"
abbreviation OP_NOP2 :: u8 where "OP_NOP2 \<equiv> 0xb1"
abbreviation OP_CHECKLOCKTIMEVERIFY :: u8 where "OP_CHECKLOCKTIMEVERIFY \<equiv> 0xb1"
abbreviation OP_NOP3 :: u8 where "OP_NOP3 \<equiv> 0xb2"
abbreviation OP_CHECKSEQUENCEVERIFY :: u8 where "OP_CHECKSEQUENCEVERIFY \<equiv> 0xb2"
abbreviation OP_NOP4 :: u8 where "OP_NOP4 \<equiv> 0xb3"
abbreviation OP_NOP5 :: u8 where "OP_NOP5 \<equiv> 0xb4"
abbreviation OP_NOP6 :: u8 where "OP_NOP6 \<equiv> 0xb5"
abbreviation OP_NOP7 :: u8 where "OP_NOP7 \<equiv> 0xb6"
abbreviation OP_NOP8 :: u8 where "OP_NOP8 \<equiv> 0xb7"
abbreviation OP_NOP9 :: u8 where "OP_NOP9 \<equiv> 0xb8"
abbreviation OP_NOP10 :: u8 where "OP_NOP10 \<equiv> 0xb9"
abbreviation OP_CHECKSIGADD :: u8 where "OP_CHECKSIGADD \<equiv> 0xba"
abbreviation OP_SMALLINTEGER :: u8 where "OP_SMALLINTEGER \<equiv> 0xfa"
abbreviation OP_PUBKEYS :: u8 where "OP_PUBKEYS \<equiv> 0xfb"
abbreviation OP_PUBKEYHASH :: u8 where "OP_PUBKEYHASH \<equiv> 0xfd"
abbreviation OP_PUBKEY :: u8 where "OP_PUBKEY \<equiv> 0xfe"
abbreviation OP_INVALIDOPCODE :: u8 where "OP_INVALIDOPCODE \<equiv> 0xff"

text \<open>
  The \<open>length\<close> column of \<open>opcodeArray\<close>: positive for an opcode with a fixed number of bytes
  (itself included), negative for the number of length bytes of the \<open>OP_PUSHDATA\<close> forms.
\<close>

definition op_length :: "u8 \<Rightarrow> int" where
  "op_length op =
     (if OP_DATA_1 \<le> op \<and> op \<le> OP_DATA_75 then int (unat op) + 1
      else if op = OP_PUSHDATA1 then -1
      else if op = OP_PUSHDATA2 then -2
      else if op = OP_PUSHDATA4 then -4
      else 1)"

section \<open>The tokenizer\<close>

text \<open>Go's conversion of a \<open>uint32\<close> to \<open>int32\<close>.\<close>

definition i32 :: "int \<Rightarrow> int" where
  "i32 x = signed_take_bit 31 x"

text \<open>
  Offsets are natural numbers here. The source keeps them, and the length of the script, in an
  \<open>int32\<close>; the theory \<open>Script_Width\<close> has the tokenizer at that width and shows that the two agree on
  scripts of fewer than \<open>2 ^ 31\<close> bytes, far more than any message of the network can hold.
\<close>

record ScriptTokenizer =
  tok_script :: bytes
  tok_version :: nat
  tok_offset :: nat
  tok_opcodePos :: int
  tok_op :: u8
  tok_data :: bytes
  tok_err :: "ErrorCode option"

definition tok_Done :: "ScriptTokenizer \<Rightarrow> bool" where
  "tok_Done t \<longleftrightarrow> tok_err t \<noteq> None \<or> tok_offset t \<ge> length (tok_script t)"

text \<open>
  \<open>Next\<close>: whether an opcode was parsed, and the tokenizer afterwards. The last branch is the
  \<open>panic("unreachable")\<close> of the source.
\<close>

definition Next :: "ScriptTokenizer \<Rightarrow> bool \<times> ScriptTokenizer" where
  "Next t0 =
     (if tok_Done t0 then (False, t0)
      else let t = t0\<lparr>tok_opcodePos := tok_opcodePos t0 + 1\<rparr>;
               op = tok_script t ! tok_offset t; len = op_length op;
               malformed = (False, t\<lparr>tok_err := Some ErrMalformedPush\<rparr>) in
        if len = 1 then (True, t\<lparr>tok_offset := tok_offset t + 1, tok_op := op, tok_data := []\<rparr>)
        else if len > 1 then
          (let script = drop (tok_offset t) (tok_script t) in
           if int (length script) < len then malformed
           else (True, t\<lparr>tok_offset := tok_offset t + nat len, tok_op := op,
                   tok_data := take (nat len - 1) (drop 1 script)\<rparr>))
        else if len < 0 then
          (let script = drop (tok_offset t + 1) (tok_script t) in
           if int (length script) < - len then malformed
           else if len \<notin> {-1, -2, -4} then malformed
           else let dataLen = (if len = -1 then int (unat (script ! 0))
                               else if len = -2 then int (le_val (take 2 script))
                               else i32 (int (le_val (take 4 script))));
                    script = drop (nat (- len)) script in
             if dataLen > int (length script) \<or> dataLen < 0 then malformed
             else (True, t\<lparr>tok_offset := tok_offset t + 1 + nat (- len) + nat dataLen, tok_op := op,
                     tok_data := take (nat dataLen) script\<rparr>))
        else (False, t\<lparr>tok_err := Some GoPanic\<rparr>))"

definition MakeScriptTokenizer :: "nat \<Rightarrow> bytes \<Rightarrow> ScriptTokenizer" where
  "MakeScriptTokenizer scriptVersion script =
     \<lparr>tok_script = script, tok_version = scriptVersion, tok_offset = 0, tok_opcodePos = -1,
      tok_op = 0, tok_data = [],
      tok_err = (if scriptVersion \<noteq> 0 then Some ErrUnsupportedScriptVersion else None)\<rparr>"

section \<open>Instructions and their bytes\<close>

text \<open>
  The grammar the tokenizer parses: an instruction is an opcode and the data it pushes;
  \<open>enc_instr\<close> prints it and \<open>wf_instr\<close> says which data an opcode can carry.
\<close>

type_synonym instr = "u8 \<times> bytes"

definition len_width :: "u8 \<Rightarrow> nat" where
  "len_width op = (if op = OP_PUSHDATA1 then 1 else if op = OP_PUSHDATA2 then 2
                   else if op = OP_PUSHDATA4 then 4 else 0)"

definition enc_instr :: "instr \<Rightarrow> bytes" where
  "enc_instr i = fst i # le_bytes (len_width (fst i)) (length (snd i)) @ snd i"

definition wf_instr :: "instr \<Rightarrow> bool" where
  "wf_instr i \<longleftrightarrow>
     (if OP_DATA_1 \<le> fst i \<and> fst i \<le> OP_DATA_75 then length (snd i) = unat (fst i)
      else if fst i = OP_PUSHDATA1 then length (snd i) < 2 ^ 8
      else if fst i = OP_PUSHDATA2 then length (snd i) < 2 ^ 16
      else if fst i = OP_PUSHDATA4 then length (snd i) < 2 ^ 31
      else snd i = [])"

lemma op_length_cases:
  obtains (data) "OP_DATA_1 \<le> op" "op \<le> OP_DATA_75" "op_length op = int (unat op) + 1"
      "len_width op = 0" "1 \<le> unat op" "unat op \<le> 75"
    | (push1) "op = OP_PUSHDATA1" "op_length op = -1" "len_width op = 1"
    | (push2) "op = OP_PUSHDATA2" "op_length op = -2" "len_width op = 2"
    | (push4) "op = OP_PUSHDATA4" "op_length op = -4" "len_width op = 4"
    | (single) "\<not> (OP_DATA_1 \<le> op \<and> op \<le> OP_DATA_75)" "op \<noteq> OP_PUSHDATA1" "op \<noteq> OP_PUSHDATA2"
      "op \<noteq> OP_PUSHDATA4" "op_length op = 1" "len_width op = 0"
proof -
  consider "OP_DATA_1 \<le> op \<and> op \<le> OP_DATA_75" | "op = OP_PUSHDATA1" | "op = OP_PUSHDATA2"
    | "op = OP_PUSHDATA4" | "\<not> (OP_DATA_1 \<le> op \<and> op \<le> OP_DATA_75) \<and> op \<noteq> OP_PUSHDATA1 \<and>
        op \<noteq> OP_PUSHDATA2 \<and> op \<noteq> OP_PUSHDATA4" by blast
  then show ?thesis
  proof cases
    case 1
    then have "1 \<le> unat op" "unat op \<le> 75" by (simp_all add: word_le_nat_alt)
    moreover have "len_width op = 0" using 1 by (auto simp: len_width_def)
    ultimately show ?thesis using 1 data by (simp add: op_length_def)
  qed (use push1 push2 push4 single in \<open>auto simp: op_length_def len_width_def\<close>)
qed

lemma i32_small: "x < 2 ^ 31 \<Longrightarrow> i32 (int x) = int x"
  by (simp add: i32_def signed_take_bit_int_eq_self)

lemma i32_range:
  assumes "0 \<le> i32 (int x)" "x < 2 ^ 32"
  shows "x < 2 ^ 31"
proof (rule ccontr)
  assume "\<not> x < 2 ^ 31"
  with assms(2) have "int x div 2 ^ 31 = 1" by (simp add: div_pos_geq)
  then have "bit (int x) 31" by (simp add: bit_iff_odd)
  with assms(1) show False by (simp add: i32_def)
qed

lemma Next_Done: "tok_Done t \<Longrightarrow> Next t = (False, t)"
  by (simp add: Next_def)

text \<open>
  The declared length of an instruction whose opcode \<open>op\<close> is followed by the bytes \<open>rest\<close>, and
  \<open>Next\<close> in terms of it.
\<close>

definition decl_len :: "u8 \<Rightarrow> bytes \<Rightarrow> int" where
  "decl_len op rest =
     (if OP_DATA_1 \<le> op \<and> op \<le> OP_DATA_75 then int (unat op)
      else i32 (int (le_val (take (len_width op) rest))))"

lemma take_1_conv: "rest \<noteq> [] \<Longrightarrow> take (Suc 0) rest = [rest ! 0]"
  by (cases rest) auto

lemma le_val_take2: "le_val (take 2 rest) < 2 ^ 31" 
  using le_val_less [of "take 2 rest"] power_increasing [of "length (take 2 rest)" 2 "256::nat"] by simp

lemma Next_unfold:
  assumes "\<not> tok_Done t" and rest: "drop (tok_offset t) (tok_script t) = op # rest"
  shows "Next t =
    (let w = len_width op; n = decl_len op rest; t1 = t\<lparr>tok_opcodePos := tok_opcodePos t + 1\<rparr> in
     if length rest < w \<or> n < 0 \<or> int (length rest) < int w + n
     then (False, t1\<lparr>tok_err := Some ErrMalformedPush\<rparr>)
     else (True, t1\<lparr>tok_offset := tok_offset t + 1 + w + nat n, tok_op := op,
                     tok_data := take (nat n) (drop w rest)\<rparr>))"
proof -
  have op: "tok_script t ! tok_offset t = op"
    using assms by (metis nth_via_drop)
  have rest': "drop (Suc (tok_offset t)) (tok_script t) = rest"
    using rest by (metis drop_Suc list.sel(3) tl_drop)
  show ?thesis
  proof (cases op rule: op_length_cases)
    case data
    from data(1,2) have "decl_len op rest = int (unat op)" by (simp add: decl_len_def)
    moreover have "nat (int (unat op) + 1) = Suc (unat op)" by linarith
    moreover have "0 < int (unat op)" "\<not> int (unat op) + 1 < 0" using data(5) by linarith+
    ultimately show ?thesis using data(3,4) assms(1)
      by (simp only: Next_def Let_def op rest) (simp add: op rest)
  next
    case push1
    then show ?thesis using assms op rest' i32_small [of "unat (rest ! 0)"] unat_u8_less [of "rest ! 0"]
      by (cases "rest = []") (auto simp: Next_def Let_def decl_len_def take_1_conv)
  next
    case push2
    then show ?thesis using assms op rest' le_val_take2 [of rest]
      by (auto simp: Next_def Let_def decl_len_def i32_small)
  next
    case push4
    then show ?thesis using assms op rest'
      by (auto simp: Next_def Let_def decl_len_def)
  next
    case single
    then show ?thesis using assms op rest'
      by (auto simp: Next_def Let_def decl_len_def i32_def)
  qed
qed

text \<open>What a successful \<open>Next\<close> consumed is exactly the encoding of what it reports.\<close>

lemma not_Done_drop:
  assumes "\<not> tok_Done t"
  obtains op rest where "drop (tok_offset t) (tok_script t) = op # rest"
  using assms by (metis Cons_nth_drop_Suc not_le tok_Done_def)

lemma decl_len_wf:
  assumes n: "n = decl_len op rest" "0 \<le> n" and len: "len_width op + nat n \<le> length rest"
  shows "wf_instr (op, take (nat n) (drop (len_width op) rest))"
    and "enc_instr (op, take (nat n) (drop (len_width op) rest)) = op # take (len_width op + nat n) rest"
proof -
  let ?d = "take (nat n) (drop (len_width op) rest)"
  have ld: "length ?d = nat n" using len by simp
  have lt: "length (take (len_width op) rest) = len_width op" using len by simp
  have split: "take (len_width op + nat n) rest = take (len_width op) rest @ ?d"
    by (simp add: take_add)
  have enc: "le_bytes (len_width op) (nat n) = take (len_width op) rest \<and> wf_instr (op, ?d)"
  proof (cases op rule: op_length_cases)
    case data
    then show ?thesis using n(1) ld by (simp add: wf_instr_def decl_len_def)
  next
    case push1
    have "le_val (take 1 rest) < 256" using le_val_less [of "take 1 rest"] lt push1 by simp
    then have "nat n = le_val (take 1 rest)" using n(1) push1 by (simp add: decl_len_def i32_small)
    then show ?thesis using ld lt push1 le_bytes_le_val [of "take 1 rest"] \<open>le_val (take 1 rest) < 256\<close>
      by (simp add: wf_instr_def)
  next
    case push2
    have "le_val (take 2 rest) < 65536" using le_val_less [of "take 2 rest"] lt push2 by simp
    then have "nat n = le_val (take 2 rest)" using n(1) push2 by (simp add: decl_len_def i32_small)
    then show ?thesis using ld lt push2 le_bytes_le_val [of "take 2 rest"] \<open>le_val (take 2 rest) < 65536\<close>
      by (simp add: wf_instr_def)
  next
    case push4
    have "le_val (take 4 rest) < 2 ^ 32" using le_val_less [of "take 4 rest"] lt push4 by simp
    moreover have "0 \<le> i32 (int (le_val (take 4 rest)))" using n push4 by (simp add: decl_len_def)
    ultimately have small: "le_val (take 4 rest) < 2 ^ 31" using i32_range by blast
    then have "nat n = le_val (take 4 rest)" using n(1) push4 by (simp add: decl_len_def i32_small)
    then show ?thesis using ld lt push4 le_bytes_le_val [of "take 4 rest"] small
      by (simp add: wf_instr_def)
  next
    case single
    then have "n = 0" using n(1) by (simp only: decl_len_def if_False) (simp add: i32_def)
    then show ?thesis using single by (auto simp: wf_instr_def)
  qed
  then show "wf_instr (op, ?d)" by blast
  show "enc_instr (op, ?d) = op # take (len_width op + nat n) rest"
    using enc ld split by (simp add: enc_instr_def)
qed

lemma Next_sound:
  assumes "Next t = (True, t')"
  shows "wf_instr (tok_op t', tok_data t')"
    and "drop (tok_offset t) (tok_script t)
         = enc_instr (tok_op t', tok_data t') @ drop (tok_offset t') (tok_script t)"
    and "tok_offset t < tok_offset t'" "tok_offset t' \<le> length (tok_script t)"
    and "tok_script t' = tok_script t" "tok_version t' = tok_version t"
    and "tok_err t = None" "tok_err t' = None"
    and "tok_opcodePos t' = tok_opcodePos t + 1"
proof -
  have nd: "\<not> tok_Done t" using assms by (auto simp: Next_def)
  then obtain op rest where dr: "drop (tok_offset t) (tok_script t) = op # rest" by (rule not_Done_drop)
  define n where "n = decl_len op rest"
  let ?w = "len_width op"
  note u = Next_unfold [OF nd dr, folded n_def, unfolded Let_def]
  have c: "0 \<le> n" "?w + nat n \<le> length rest"
    and t': "t' = t\<lparr>tok_opcodePos := tok_opcodePos t + 1, tok_offset := tok_offset t + 1 + ?w + nat n,
             tok_op := op, tok_data := take (nat n) (drop ?w rest)\<rparr>"
    using assms u by (auto split: if_splits)
  note wf = decl_len_wf [OF n_def c]
  show "wf_instr (tok_op t', tok_data t')" using wf(1) t' by simp
  have "drop (?w + nat n + 1 + tok_offset t) (tok_script t) = drop (?w + nat n + 1) (op # rest)"
    by (simp only: drop_drop [symmetric] dr)
  then have "drop (tok_offset t') (tok_script t) = drop (?w + nat n) rest"
    using t' by (simp add: ac_simps)
  then show "drop (tok_offset t) (tok_script t)
         = enc_instr (tok_op t', tok_data t') @ drop (tok_offset t') (tok_script t)"
    using wf(2) t' dr by simp
  have "length (tok_script t) - tok_offset t = Suc (length rest)" using dr by (metis length_Cons length_drop)
  then show "tok_offset t' \<le> length (tok_script t)" using c t' by simp
  show "tok_err t = None" "tok_err t' = None" using nd t' by (simp_all add: tok_Done_def)
  show "tok_offset t < tok_offset t'" "tok_script t' = tok_script t" "tok_version t' = tok_version t"
    "tok_opcodePos t' = tok_opcodePos t + 1" using t' by simp_all
qed

text \<open>Conversely, a tokenizer standing before an encoded instruction reads it.\<close>

lemma enc_decl_len:
  assumes "wf_instr i" and rest: "rest = le_bytes (len_width (fst i)) (length (snd i)) @ snd i @ r"
  shows "decl_len (fst i) rest = int (length (snd i))"
proof (cases "fst i" rule: op_length_cases)
  case data
  then show ?thesis using assms(1) by (simp add: decl_len_def wf_instr_def)
next
  case push1
  then have "take (len_width (fst i)) rest = le_bytes 1 (length (snd i))" using assms(2) by simp
  moreover have "le_val (le_bytes 1 (length (snd i))) = length (snd i)" "length (snd i) < 2 ^ 31"
    using push1(1) assms(1) by (simp_all only: le_val_le_bytes) (simp_all add: wf_instr_def)
  ultimately show ?thesis using push1(1) by (simp only: decl_len_def i32_small) simp
next
  case push2
  then have "le_val (take 2 rest) = length (snd i)" using assms
    by (simp add: wf_instr_def le_val_le_bytes)
  then show ?thesis using push2 assms(1) by (simp add: decl_len_def wf_instr_def i32_small)
next
  case push4
  then have "le_val (take 4 rest) = length (snd i)" using assms
    by (simp add: wf_instr_def le_val_le_bytes)
  then show ?thesis using push4 assms(1) by (simp add: decl_len_def wf_instr_def i32_small)
next
  case single
  then have "snd i = []" using assms(1) by (auto simp: wf_instr_def split: if_splits)
  then show ?thesis using single by (simp only: decl_len_def if_False) (simp add: i32_def)
qed

lemma Next_complete:
  assumes wf: "wf_instr i" and err: "tok_err t = None"
    and dr: "drop (tok_offset t) (tok_script t) = enc_instr i @ r"
  shows "Next t = (True, t\<lparr>tok_opcodePos := tok_opcodePos t + 1,
           tok_offset := tok_offset t + length (enc_instr i), tok_op := fst i, tok_data := snd i\<rparr>)"
proof -
  let ?rest = "le_bytes (len_width (fst i)) (length (snd i)) @ snd i @ r"
  have dr': "drop (tok_offset t) (tok_script t) = fst i # ?rest"
    using dr by (simp add: enc_instr_def)
  then have "tok_offset t < length (tok_script t)" by (metis drop_all list.distinct(1) not_le)
  then have nd: "\<not> tok_Done t" using err by (simp add: tok_Done_def)
  note dl = enc_decl_len [OF wf refl, of r]
  show ?thesis
    by (simp add: Next_unfold [OF nd dr'] Let_def dl enc_instr_def)
qed

section \<open>Walking a whole script\<close>

text \<open>
  The loop \<open>for tokenizer.Next() { ... }\<close> of every script routine: the states after each
  successful call, and the state the loop leaves.
\<close>

function tokens :: "ScriptTokenizer \<Rightarrow> ScriptTokenizer list \<times> ScriptTokenizer" where
  "tokens t = (case Next t of
      (ok, t') \<Rightarrow> if ok then (case tokens t' of (ts, t'') \<Rightarrow> (t' # ts, t'')) else ([], t'))"
  by pat_completeness auto
termination
proof (relation "measure (\<lambda>t. length (tok_script t) - tok_offset t)", goal_cases)
  case (2 t ok t')
  from 2 have "Next t = (True, t')" by simp
  from Next_sound(3-5) [OF this] show ?case by simp
qed simp

declare tokens.simps [simp del]

definition tok_instr :: "ScriptTokenizer \<Rightarrow> instr" where
  "tok_instr t = (tok_op t, tok_data t)"

definition script_instrs :: "bytes \<Rightarrow> instr list" where
  "script_instrs script = map tok_instr (fst (tokens (MakeScriptTokenizer 0 script)))"

definition script_err :: "bytes \<Rightarrow> ErrorCode option" where
  "script_err script = tok_err (snd (tokens (MakeScriptTokenizer 0 script)))"

lemma tokens_True: "Next t = (True, t') \<Longrightarrow> tokens t = (t' # fst (tokens t'), snd (tokens t'))"
  by (subst tokens.simps) (simp split: prod.split)

lemma tokens_False: "Next t = (False, t') \<Longrightarrow> tokens t = ([], t')"
  by (subst tokens.simps) simp

lemma tokens_encode:
  assumes "\<forall>i\<in>set ins. wf_instr i" "tok_err t = None" "tok_offset t \<le> length (tok_script t)"
    and "drop (tok_offset t) (tok_script t) = concat (map enc_instr ins)"
  shows "map tok_instr (fst (tokens t)) = ins \<and> tok_err (snd (tokens t)) = None
    \<and> tok_offset (snd (tokens t)) = length (tok_script t)"
  using assms
proof (induction ins arbitrary: t)
  case Nil
  then have "tok_Done t" by (simp add: tok_Done_def)
  from tokens_False [OF Next_Done [OF this]] Nil show ?case by simp
next
  case (Cons i ins)
  let ?t = "t\<lparr>tok_opcodePos := tok_opcodePos t + 1,
           tok_offset := tok_offset t + length (enc_instr i), tok_op := fst i, tok_data := snd i\<rparr>"
  have dr: "drop (tok_offset t) (tok_script t) = enc_instr i @ concat (map enc_instr ins)"
    using Cons.prems(4) by simp
  have nx: "Next t = (True, ?t)" using Cons.prems(1,2) dr by (intro Next_complete) auto
  have "drop (length (enc_instr i) + tok_offset t) (tok_script t) = concat (map enc_instr ins)"
    by (simp only: drop_drop [symmetric] dr) simp
  moreover have "tok_offset ?t \<le> length (tok_script ?t)" using Next_sound(4) [OF nx] by simp
  ultimately have "map tok_instr (fst (tokens ?t)) = ins \<and> tok_err (snd (tokens ?t)) = None
    \<and> tok_offset (snd (tokens ?t)) = length (tok_script ?t)"
    using Cons.prems(1,2) by (intro Cons.IH) (auto simp: add.commute)
  moreover have "tok_instr ?t = i" by (simp add: tok_instr_def)
  ultimately show ?case by (simp add: tokens_True [OF nx])
qed

lemma tokens_sound:
  assumes "tok_offset t \<le> length (tok_script t)"
  shows "(\<forall>i\<in>set (map tok_instr (fst (tokens t))). wf_instr i)
    \<and> drop (tok_offset t) (tok_script t)
       = concat (map enc_instr (map tok_instr (fst (tokens t)))) @ drop (tok_offset (snd (tokens t))) (tok_script t)
    \<and> (tok_err (snd (tokens t)) = None \<longrightarrow> tok_offset (snd (tokens t)) = length (tok_script t))
    \<and> tok_script (snd (tokens t)) = tok_script t"
  using assms
proof (induction t rule: tokens.induct)
  case (1 t)
  show ?case
  proof (cases "fst (Next t)")
    case True
    then obtain t' where nx: "Next t = (True, t')" by (cases "Next t") auto
    note s = Next_sound [OF nx]
    from 1(1) [OF nx [symmetric] TrueI] s(4,5)
    show ?thesis using s by (simp add: tokens_True [OF nx] tok_instr_def)
  next
    case False
    then obtain t' where nx: "Next t = (False, t')" by (cases "Next t") auto
    have "tok_offset t' = tok_offset t \<and> tok_script t' = tok_script t \<and>
        (tok_err t' = None \<longrightarrow> tok_offset t \<ge> length (tok_script t))"
      using nx by (auto simp: Next_def Let_def tok_Done_def split: if_splits)
    then show ?thesis using "1.prems" by (simp add: tokens_False [OF nx])
  qed
qed

lemma MakeScriptTokenizer_simps [simp]:
  "tok_offset (MakeScriptTokenizer v s) = 0" "tok_script (MakeScriptTokenizer v s) = s"
  "tok_version (MakeScriptTokenizer v s) = v"
  "tok_err (MakeScriptTokenizer 0 s) = None"
  by (simp_all add: MakeScriptTokenizer_def)

section \<open>Whole scripts\<close>

lemma script_instrs_enc:
  assumes "\<forall>i\<in>set ins. wf_instr i"
  shows "script_instrs (concat (map enc_instr ins)) = ins" "script_err (concat (map enc_instr ins)) = None"
  using tokens_encode [of ins "MakeScriptTokenizer 0 (concat (map enc_instr ins))"] assms
  by (simp_all add: script_instrs_def script_err_def)

lemma script_parse:
  assumes "script_err script = None"
  shows "script = concat (map enc_instr (script_instrs script))" "\<forall>i\<in>set (script_instrs script). wf_instr i"
  using tokens_sound [of "MakeScriptTokenizer 0 script"] assms
  by (metis MakeScriptTokenizer_simps(1,2) append_Nil2 drop0 drop_all order_refl script_err_def
      script_instrs_def zero_le)+

end
