(* ===== verification/Script_Width.thy ===== *)
theory Script_Width
  imports Script_Tokenizer
begin

text \<open>
  The tokenizer at the width of the source (\<open>txscript/tokenizer.go\<close>): the offset, the position of the
  opcode and the length of the script are \<open>int32\<close> values that wrap around, and an index outside
  the script is a run-time panic. The tokenizer of \<open>Script_Tokenizer\<close>, which the rest of the development
  uses, counts bytes with natural numbers; the two agree on every script of fewer than \<open>2 ^ 31\<close> bytes,
  and the theorems on parsing and printing are stated for both.
\<close>

section \<open>The tokenizer with 32-bit offsets\<close>

record Tokenizer32 =
  t32_script :: bytes
  t32_version :: nat
  t32_offset :: int
  t32_opcodePos :: int
  t32_op :: u8
  t32_data :: bytes
  t32_err :: "ErrorCode option"

definition Done32 :: "Tokenizer32 \<Rightarrow> bool" where
  "Done32 t \<longleftrightarrow> t32_err t \<noteq> None \<or> t32_offset t \<ge> i32 (int (length (t32_script t)))"

text \<open>\<open>None\<close> is the panic of an index or a slice that is out of range.\<close>

definition Next32 :: "Tokenizer32 \<Rightarrow> (bool \<times> Tokenizer32) option" where
  "Next32 t0 =
     (if Done32 t0 then Some (False, t0)
      else if t32_offset t0 < 0 \<or> int (length (t32_script t0)) \<le> t32_offset t0 then None
      else let t = t0\<lparr>t32_opcodePos := i32 (t32_opcodePos t0 + 1)\<rparr>;
               op = t32_script t ! nat (t32_offset t); len = op_length op;
               malformed = Some (False, t\<lparr>t32_err := Some ErrMalformedPush\<rparr>) in
        if len = 1 then Some (True, t\<lparr>t32_offset := i32 (t32_offset t + 1), t32_op := op, t32_data := []\<rparr>)
        else if len > 1 then
          (let script = drop (nat (t32_offset t)) (t32_script t) in
           if int (length script) < len then malformed
           else Some (True, t\<lparr>t32_offset := i32 (t32_offset t + i32 len), t32_op := op,
                   t32_data := take (nat len - 1) (drop 1 script)\<rparr>))
        else if len < 0 then
          (if i32 (t32_offset t + 1) < 0 then None
           else let script = drop (nat (i32 (t32_offset t + 1))) (t32_script t) in
           if int (length script) < - len then malformed
           else if len \<notin> {-1, -2, -4} then malformed
           else let dataLen = (if len = -1 then int (unat (script ! 0))
                               else if len = -2 then int (le_val (take 2 script))
                               else i32 (int (le_val (take 4 script))));
                    script = drop (nat (- len)) script in
             if dataLen > i32 (int (length script)) \<or> dataLen < 0 then malformed
             else Some (True, t\<lparr>t32_offset := i32 (t32_offset t + i32 (1 + i32 (- len) + dataLen)),
                     t32_op := op, t32_data := take (nat dataLen) script\<rparr>))
        else Some (False, t\<lparr>t32_err := Some GoPanic\<rparr>))"

definition Make32 :: "nat \<Rightarrow> bytes \<Rightarrow> Tokenizer32" where
  "Make32 scriptVersion script =
     \<lparr>t32_script = script, t32_version = scriptVersion, t32_offset = 0, t32_opcodePos = -1,
      t32_op = 0, t32_data = [],
      t32_err = (if scriptVersion \<noteq> 0 then Some ErrUnsupportedScriptVersion else None)\<rparr>"

text \<open>The loop over a script: the instructions it reports and the error it ends with. One call more
  than there are bytes is enough for it to end.\<close>

fun walk32 :: "nat \<Rightarrow> Tokenizer32 \<Rightarrow> (instr list \<times> ErrorCode option) option" where
  "walk32 0 t = None"
| "walk32 (Suc k) t =
     (case Next32 t of
        None \<Rightarrow> None
      | Some (ok, t') \<Rightarrow>
          if ok then map_option (\<lambda>(ins, e). ((t32_op t', t32_data t') # ins, e)) (walk32 k t')
          else Some ([], t32_err t'))"

definition tokenize32 :: "bytes \<Rightarrow> (instr list \<times> ErrorCode option) option" where
  "tokenize32 script = walk32 (Suc (length script)) (Make32 0 script)"

section \<open>Agreement with the tokenizer that counts in natural numbers\<close>

definition narrow :: "ScriptTokenizer \<Rightarrow> Tokenizer32" where
  "narrow t =
     \<lparr>t32_script = tok_script t, t32_version = tok_version t, t32_offset = int (tok_offset t),
      t32_opcodePos = tok_opcodePos t, t32_op = tok_op t, t32_data = tok_data t, t32_err = tok_err t\<rparr>"

definition fits32 :: "ScriptTokenizer \<Rightarrow> bool" where
  "fits32 t \<longleftrightarrow>
     length (tok_script t) < 2 ^ 31 \<and> tok_offset t \<le> length (tok_script t) \<and>
     - 1 \<le> tok_opcodePos t \<and> tok_opcodePos t < int (tok_offset t)"

lemma i32_exact: "0 \<le> x \<Longrightarrow> x < 2 ^ 31 \<Longrightarrow> i32 x = x"
  by (simp add: i32_def signed_take_bit_int_eq_self)

lemma narrow_simps [simp]:
  "t32_script (narrow t) = tok_script t" "t32_offset (narrow t) = int (tok_offset t)"
  "t32_opcodePos (narrow t) = tok_opcodePos t" "t32_err (narrow t) = tok_err t"
  "t32_op (narrow t) = tok_op t" "t32_data (narrow t) = tok_data t"
  by (simp_all add: narrow_def)

lemma Done32_narrow: "fits32 t \<Longrightarrow> Done32 (narrow t) \<longleftrightarrow> tok_Done t"
  by (simp add: Done32_def tok_Done_def fits32_def i32_exact)

lemma narrow_updates:
  "narrow (t\<lparr>tok_offset := a\<rparr>) = (narrow t)\<lparr>t32_offset := int a\<rparr>"
  "narrow (t\<lparr>tok_opcodePos := p\<rparr>) = (narrow t)\<lparr>t32_opcodePos := p\<rparr>"
  "narrow (t\<lparr>tok_op := q\<rparr>) = (narrow t)\<lparr>t32_op := q\<rparr>"
  "narrow (t\<lparr>tok_data := d\<rparr>) = (narrow t)\<lparr>t32_data := d\<rparr>"
  "narrow (t\<lparr>tok_err := e\<rparr>) = (narrow t)\<lparr>t32_err := e\<rparr>"
  by (simp_all add: narrow_def)

lemma Next32_narrow:
  assumes "fits32 t"
  shows "Next32 (narrow t) = Some (map_prod id narrow (Next t))"
proof (cases "tok_Done t")
  case True
  then show ?thesis using assms by (simp add: Next32_def Next_def Done32_narrow)
next
  case False
  let ?o = "tok_offset t" and ?s = "tok_script t"
  have o: "?o < length ?s" "length ?s < 2 ^ 31" using False assms by (auto simp: tok_Done_def fits32_def)
  have pos: "i32 (tok_opcodePos t + 1) = tok_opcodePos t + 1"
    using assms o by (intro i32_exact) (auto simp: fits32_def)
  have off: "i32 (int ?o + 1) = int ?o + 1" "nat (int ?o + 1) = Suc ?o" using o by (simp_all add: i32_exact)
  have len: "i32 (int (length (drop a ?s))) = int (length (drop a ?s))" for a using o by (intro i32_exact) auto
  have rest: "i32 (int (length ?s) - x) = int (length ?s) - x" if "0 \<le> x" "x \<le> int (length ?s)" for x
    using that o by (intro i32_exact) auto
  have adv: "i32 (int ?o + i32 (1 + i32 (int w) + d)) = int (?o + 1 + w + nat d)"
    if "w \<le> length (drop (Suc ?o) ?s)" "0 \<le> d" "d \<le> int (length (drop (Suc ?o + w) ?s))" for w d
    using that o by (simp add: i32_exact)
  note unf = Next32_def Next_def Done32_narrow [OF assms] Let_def narrow_updates
  show ?thesis
  proof (cases "?s ! ?o" rule: op_length_cases)
    case data
    define L where "L = unat (?s ! ?o) + 1"
    have L: "op_length (?s ! ?o) = int L" "1 < L" "L \<le> 76" using data by (simp_all add: L_def)
    have "i32 (int L) = int L" "int ?o + int L < 2 ^ 31 \<Longrightarrow> i32 (int ?o + int L) = int ?o + int L"
      using L by (simp_all add: i32_exact)
    with L show ?thesis using False o off pos by (simp add: unf)
  next
    case single
    then show ?thesis using False o off pos by (simp add: unf)
  next
    case push1
    then show ?thesis using False o off pos len adv [of 1 "int (unat (?s ! Suc ?o))"]
      by (cases "length ?s \<le> Suc ?o") (simp_all add: unf rest)
  next
    case push2
    then show ?thesis using False o off pos len adv [of 2 "int (le_val (take 2 (drop (Suc ?o) ?s)))"]
      by (cases "length ?s - Suc ?o < 2") (simp_all add: unf rest)
  next
    case push4
    then show ?thesis using False o off pos len adv [of 4 "i32 (int (le_val (take 4 (drop (Suc ?o) ?s))))"]
      by (cases "length ?s - Suc ?o < 4") (simp_all add: unf rest)
  qed
qed

lemma fits32_Next:
  assumes "fits32 t" "Next t = (True, t')"
  shows "fits32 t'"
  using assms(1) Next_sound [OF assms(2)] by (simp add: fits32_def)

lemma walk32_tokens:
  assumes "fits32 t" "length (tok_script t) - tok_offset t < k"
  shows "walk32 k (narrow t) = Some (map tok_instr (fst (tokens t)), tok_err (snd (tokens t)))"
  using assms
proof (induction k arbitrary: t)
  case (Suc k)
  obtain ok t' where nx: "Next t = (ok, t')" by fastforce
  show ?case
  proof (cases ok)
    case True
    with nx have nx: "Next t = (True, t')" by simp
    have "length (tok_script t') - tok_offset t' < k" using Suc.prems Next_sound(3-5) [OF nx] by simp
    with Suc.IH [of t'] fits32_Next [OF Suc.prems(1) nx] Next32_narrow [OF Suc.prems(1)] show ?thesis
      by (simp add: nx tokens_True [OF nx] tok_instr_def)
  next
    case False
    with nx Next32_narrow [OF Suc.prems(1)] show ?thesis by (simp add: tokens_False)
  qed
qed simp

text \<open>On scripts of fewer than \<open>2 ^ 31\<close> bytes the loop ends, without a panic, with what the other
  tokenizer reports.\<close>

lemma tokenize32_exact:
  assumes "length script < 2 ^ 31"
  shows "tokenize32 script = Some (script_instrs script, script_err script)"
proof -
  have "fits32 (MakeScriptTokenizer 0 script)" using assms by (simp add: fits32_def MakeScriptTokenizer_def)
  moreover have "narrow (MakeScriptTokenizer 0 script) = Make32 0 script"
    by (simp add: narrow_def Make32_def MakeScriptTokenizer_def)
  ultimately show ?thesis
    using walk32_tokens [of "MakeScriptTokenizer 0 script" "Suc (length script)"]
    by (simp add: tokenize32_def script_instrs_def script_err_def)
qed

text \<open>A script of \<open>2 ^ 31\<close> bytes or more, whose length is negative as an \<open>int32\<close>, has no instructions
  and no error.\<close>

lemma tokenize32_oversized:
  assumes "2 ^ 31 \<le> length script" "length script < 2 ^ 32"
  shows "tokenize32 script = Some ([], None)"
proof -
  have "\<not> 0 \<le> i32 (int (length script))" using i32_range [OF _ assms(2)] assms(1) by auto
  then show ?thesis by (simp add: tokenize32_def Make32_def Next32_def Done32_def)
qed

section \<open>Parsing and printing\<close>

text \<open>C25: Tokenizing the concatenated encodings of any list of well-formed instructions returns
  exactly these instructions and no error, as long as the script is shorter than \<open>2 ^ 31\<close> bytes: the
  loop over the tokenizer with its 32-bit offsets ends, without a panic, with exactly this result, and so
  does the tokenizer that the other theories use.\<close>

theorem tokenize_encode:
  assumes "\<forall>i\<in>set ins. wf_instr i" "script = concat (map enc_instr ins)" "length script < 2 ^ 31"
  shows "tokenize32 script = Some (ins, None) \<and> script_instrs script = ins \<and> script_err script = None"
  using tokenize32_exact [OF assms(3)] script_instrs_enc [OF assms(1)] assms(2) by simp

theorem tokenize_encode_witness:
  "tokenize32 [OP_DUP, 3, 7, 8, 9, OP_PUSHDATA2, 2, 0, 1, 2]
     = Some ([(OP_DUP, []), (3, [7, 8, 9]), (OP_PUSHDATA2, [1, 2])], None)"
proof -
  let ?ins = "[(OP_DUP, []), (3, [7, 8, 9]), (OP_PUSHDATA2, [1, 2])]"
  have enc: "[OP_DUP, 3, 7, 8, 9, OP_PUSHDATA2, 2, 0, 1, 2] = concat (map enc_instr ?ins)" by code_simp
  show ?thesis using tokenize_encode [OF _ enc] by (simp add: wf_instr_def)
qed

text \<open>C26: Every script of fewer than \<open>2 ^ 31\<close> bytes is tokenized to the end or to an error, without a
  panic of the 32-bit offsets, and a script that is tokenized without error is the concatenation of the
  encodings of the instructions it reported, each of them well formed: no byte is skipped, read
  twice or misattributed.\<close>

theorem tokenize_sound:
  assumes "length script < 2 ^ 31"
  shows "\<exists>ins e. tokenize32 script = Some (ins, e) \<and> ins = script_instrs script \<and> e = script_err script \<and>
    (e = None \<longrightarrow> script = concat (map enc_instr ins) \<and> (\<forall>i\<in>set ins. wf_instr i))"
  using tokenize32_exact [OF assms] script_parse [of script] by simp

theorem tokenize_sound_witness:
  "\<exists>ins. tokenize32 [OP_DUP, 2, 7, 8] = Some (ins, None) \<and> [OP_DUP, 2, 7, 8] = concat (map enc_instr ins)"
proof -
  have "tokenize32 [OP_DUP, 2, 7, 8] = Some ([(OP_DUP, []), (2, [7, 8])], None)" by code_simp
  moreover from tokenize_sound [of "[OP_DUP, 2, 7, 8]"] obtain ins e
    where "tokenize32 [OP_DUP, 2, 7, 8] = Some (ins, e)" "e = None \<longrightarrow> [OP_DUP, 2, 7, 8] = concat (map enc_instr ins)"
    by auto
  ultimately show ?thesis by (metis Pair_inject option.inject)
qed

end
