(* ===== verification/Script_Stack.thy ===== *)
theory Script_Stack
  imports Script_Num
begin

text \<open>
  The operand stacks of the script engine (\<open>stack.go\<close>). The source keeps the top of the stack at
  the end of a slice; \<open>stk_abs\<close> reads it top first, and the locale \<open>operand_stack\<close> is the
  contract on that reading from which the multi-item operations are verified.
\<close>

section \<open>The contract of an operand stack\<close>

text \<open>
  \<open>abs\<close> lists the items from the top, \<open>mk\<close> replaces them and keeps everything else of the state.
\<close>

locale operand_stack =
  fixes abs :: "'s \<Rightarrow> 'x list"
    and mk :: "'x list \<Rightarrow> 's \<Rightarrow> 's"
    and push :: "'x \<Rightarrow> 's \<Rightarrow> 's"
    and peek :: "'s \<Rightarrow> int \<Rightarrow> 'e + 'x"
    and nip :: "'s \<Rightarrow> int \<Rightarrow> 'e + ('x \<times> 's)"
    and bad :: 'e
  assumes abs_mk: "abs (mk xs s) = xs"
    and mk_mk: "mk ys (mk xs s) = mk ys s"
    and mk_abs: "mk (abs s) s = s"
    and push_mk: "push x s = mk (x # abs s) s"
    and peek_abs: "peek s i =
      (if 0 \<le> i \<and> i < int (length (abs s)) then Inr (abs s ! nat i) else Inl bad)"
    and nip_abs: "nip s i =
      (if 0 \<le> i \<and> i < int (length (abs s))
       then Inr (abs s ! nat i, mk (take (nat i) (abs s) @ drop (Suc (nat i)) (abs s)) s) else Inl bad)"
begin

lemmas stack_laws = abs_mk mk_mk mk_abs push_mk peek_abs nip_abs

lemma nip_split:
  "abs s = xs @ y # zs \<Longrightarrow> nip s (int (length xs)) = Inr (y, mk (xs @ zs) s)"
  by (simp add: nip_abs nth_append)

lemma peek_split: "abs s = xs @ y # zs \<Longrightarrow> peek s (int (length xs)) = Inr y"
  by (simp add: peek_abs nth_append)

text \<open>Moving the item at depth \<open>e\<close> to the top, as often as there are items in \<open>ys\<close>.\<close>

lemma roll_loop:
  "abs s = xs @ ys @ zs \<Longrightarrow> e = int (length xs + length ys) - 1 \<Longrightarrow>
     repeat_r (length ys) (\<lambda>s. rbind (nip s e) (\<lambda>(so, s). Inr (push so s))) s =
       Inr (mk (ys @ xs @ zs) s)"
proof (induction ys arbitrary: xs s rule: rev_induct)
  case Nil
  then show ?case by (metis append_Nil list.size(3) mk_abs repeat_r.simps(1))
next
  case (snoc y ys)
  have "nip s e = Inr (y, mk (xs @ ys @ zs) s)"
    using nip_split [of s "xs @ ys" y zs] snoc.prems by simp
  moreover have "repeat_r (length ys) (\<lambda>s. rbind (nip s e) (\<lambda>(so, s). Inr (push so s)))
      (mk (y # xs @ ys @ zs) s) = Inr (mk (ys @ (y # xs) @ zs) (mk (y # xs @ ys @ zs) s))"
    using snoc.prems by (intro snoc.IH) (simp_all add: abs_mk)
  ultimately show ?case by (simp add: push_mk abs_mk mk_mk)
qed

text \<open>Copying the item at depth \<open>e\<close> to the top, as often as there are items in \<open>ys\<close>.\<close>

lemma copy_loop:
  "abs s = xs @ ys @ zs \<Longrightarrow> e = int (length xs + length ys) - 1 \<Longrightarrow>
     repeat_r (length ys) (\<lambda>s. rbind (peek s e) (\<lambda>so. Inr (push so s))) s =
       Inr (mk (ys @ xs @ ys @ zs) s)"
proof (induction ys arbitrary: xs zs s rule: rev_induct)
  case Nil
  then show ?case by (metis append_Nil list.size(3) mk_abs repeat_r.simps(1))
next
  case (snoc y ys)
  have "peek s e = Inr y"
    using peek_split [of s "xs @ ys" y zs] snoc.prems by simp
  moreover have "repeat_r (length ys) (\<lambda>s. rbind (peek s e) (\<lambda>so. Inr (push so s)))
      (mk (y # xs @ ys @ y # zs) s) =
      Inr (mk (ys @ (y # xs) @ ys @ y # zs) (mk (y # xs @ ys @ y # zs) s))"
    using snoc.prems by (intro snoc.IH) (simp_all add: abs_mk)
  ultimately show ?case using snoc.prems by (simp add: push_mk mk_mk)
qed

lemma pop_loop:
  "abs s = xs @ zs \<Longrightarrow>
     repeat_r (length xs) (\<lambda>s. rbind (nip s 0) (\<lambda>(so, s). Inr s)) s = Inr (mk zs s)"
proof (induction xs arbitrary: s)
  case Nil
  then show ?case by (metis append_Nil list.size(3) mk_abs repeat_r.simps(1))
next
  case (Cons x xs)
  then have "nip s 0 = Inr (x, mk (xs @ zs) s)" using nip_split [of s "[]" x] by simp
  then show ?case using Cons.IH [of "mk (xs @ zs) s"] by (simp add: abs_mk mk_mk)
qed

lemma split_at_depth:
  assumes "k \<le> m" "m \<le> length (abs s)"
  shows "abs s = take (m - k) (abs s) @ take k (drop (m - k) (abs s)) @ drop m (abs s)"
proof -
  have "take (m - k) (abs s) @ take k (drop (m - k) (abs s)) = take m (abs s)"
    using assms(1) by (metis diff_add_inverse2 le_add_diff_inverse2 take_add)
  then show ?thesis by (metis append.assoc append_take_drop_id)
qed

text \<open>The loops of the stack operations, with their failure: too few items.\<close>

lemma roll_n:
  assumes "1 \<le> k" "k \<le> m"
  shows "repeat_r k (\<lambda>s. rbind (nip s (int m - 1)) (\<lambda>(so, s). Inr (push so s))) s =
    (if m \<le> length (abs s)
     then Inr (mk (take k (drop (m - k) (abs s)) @ take (m - k) (abs s) @ drop m (abs s)) s)
     else Inl bad)"
proof (cases "m \<le> length (abs s)")
  case True
  then show ?thesis
    using roll_loop [OF split_at_depth [OF assms(2) True]] assms by (simp add: min_absorb2)
next
  case False
  obtain j where "k = Suc j" using assms(1) by (cases k) auto
  with False assms show ?thesis by (simp add: nip_abs)
qed

lemma copy_n:
  assumes "1 \<le> k" "k \<le> m"
  shows "repeat_r k (\<lambda>s. rbind (peek s (int m - 1)) (\<lambda>so. Inr (push so s))) s =
    (if m \<le> length (abs s)
     then Inr (mk (take k (drop (m - k) (abs s)) @ abs s) s)
     else Inl bad)"
proof (cases "m \<le> length (abs s)")
  case True
  note split = split_at_depth [OF assms(2) True]
  show ?thesis
    using copy_loop [OF split] assms True split by (simp add: min_absorb2)
next
  case False
  obtain j where "k = Suc j" using assms(1) by (cases k) auto
  with False assms show ?thesis by (simp add: peek_abs)
qed

lemma pop_n:
  "repeat_r k (\<lambda>s. rbind (nip s 0) (\<lambda>(so, s). Inr s)) s =
    (if k \<le> length (abs s) then Inr (mk (drop k (abs s)) s) else Inl bad)"
proof (cases "k \<le> length (abs s)")
  case True
  then show ?thesis using pop_loop [of s "take k (abs s)" "drop k (abs s)"] by (simp add: min_absorb2)
next
  case False
  then show ?thesis
  proof (induction k arbitrary: s)
    case 0
    then show ?case by simp
  next
    case (Suc k)
    show ?case
    proof (cases "abs s")
      case Nil
      then show ?thesis by (simp add: nip_abs)
    next
      case (Cons x xs)
      then have "nip s 0 = Inr (x, mk xs s)" using nip_split [of s "[]" x xs] by simp
      then show ?thesis using Suc.IH [of "mk xs s"] Suc.prems Cons by (simp add: abs_mk)
    qed
  qed
qed

end

section \<open>The stack of the engine\<close>

text \<open>A range loop that leaves at the first non-zero byte; \<open>i\<close> is the index of the first byte.\<close>

fun asBool_from :: "nat \<Rightarrow> nat \<Rightarrow> bytes \<Rightarrow> bool" where
  "asBool_from n i [] = False"
| "asBool_from n i (b # t) =
     (if b \<noteq> 0 then (if i = n - 1 \<and> b = 0x80 then False else True) else asBool_from n (Suc i) t)"

definition asBool :: "bytes \<Rightarrow> bool" where
  "asBool t = asBool_from (length t) 0 t"

definition fromBool :: "bool \<Rightarrow> bytes" where
  "fromBool v = (if v then [1] else [])"

record stack =
  stk :: "bytes list"
  verifyMinimalData :: bool

definition Depth :: "stack \<Rightarrow> int" where
  "Depth s = int (length (stk s))"

definition PushByteArray :: "bytes \<Rightarrow> stack \<Rightarrow> stack" where
  "PushByteArray so s = s\<lparr>stk := stk s @ [so]\<rparr>"

definition PushInt :: "int \<Rightarrow> stack \<Rightarrow> stack res" where
  "PushInt val s = rbind (Bytes val) (\<lambda>bs. Inr (PushByteArray bs s))"

definition PushBool :: "bool \<Rightarrow> stack \<Rightarrow> stack" where
  "PushBool val s = PushByteArray (fromBool val) s"

definition nipN :: "stack \<Rightarrow> int \<Rightarrow> (bytes \<times> stack) res" where
  "nipN s idx =
     (let sz = int (length (stk s)) in
      if idx < 0 \<or> idx > sz - 1 then Inl ErrInvalidStackOperation
      else let so = stk s ! nat (sz - idx - 1) in
        if idx = 0 then Inr (so, s\<lparr>stk := take (nat (sz - 1)) (stk s)\<rparr>)
        else if idx = sz - 1 then Inr (so, s\<lparr>stk := drop 1 (stk s)\<rparr>)
        else let s1 = drop (nat (sz - idx)) (stk s)
             in Inr (so, s\<lparr>stk := take (nat (sz - idx - 1)) (stk s) @ s1\<rparr>))"

definition PopByteArray :: "stack \<Rightarrow> (bytes \<times> stack) res" where
  "PopByteArray s = nipN s 0"

definition PopInt :: "stack \<Rightarrow> (int \<times> stack) res" where
  "PopInt s = rbind (PopByteArray s) (\<lambda>(so, s').
     rbind (MakeScriptNum so (verifyMinimalData s') maxScriptNumLen) (\<lambda>n. Inr (n, s')))"

definition PopBool :: "stack \<Rightarrow> (bool \<times> stack) res" where
  "PopBool s = rbind (PopByteArray s) (\<lambda>(so, s'). Inr (asBool so, s'))"

definition PeekByteArray :: "stack \<Rightarrow> int \<Rightarrow> bytes res" where
  "PeekByteArray s idx =
     (let sz = int (length (stk s)) in
      if idx < 0 \<or> idx \<ge> sz then Inl ErrInvalidStackOperation
      else Inr (stk s ! nat (sz - idx - 1)))"

definition PeekInt :: "stack \<Rightarrow> int \<Rightarrow> int res" where
  "PeekInt s idx = rbind (PeekByteArray s idx) (\<lambda>so.
     MakeScriptNum so (verifyMinimalData s) maxScriptNumLen)"

definition PeekBool :: "stack \<Rightarrow> int \<Rightarrow> bool res" where
  "PeekBool s idx = rbind (PeekByteArray s idx) (\<lambda>so. Inr (asBool so))"

definition NipN :: "stack \<Rightarrow> int \<Rightarrow> stack res" where
  "NipN s idx = rbind (nipN s idx) (\<lambda>(so, s). Inr s)"

definition Tuck :: "stack \<Rightarrow> stack res" where
  "Tuck s = rbind (PopByteArray s) (\<lambda>(so2, s). rbind (PopByteArray s) (\<lambda>(so1, s).
     Inr (PushByteArray so2 (PushByteArray so1 (PushByteArray so2 s)))))"

definition DropN :: "stack \<Rightarrow> int \<Rightarrow> stack res" where
  "DropN s n = (if n < 1 then Inl ErrInvalidStackOperation
     else repeat_r (nat n) (\<lambda>s. rbind (PopByteArray s) (\<lambda>(so, s). Inr s)) s)"

definition DupN :: "stack \<Rightarrow> int \<Rightarrow> stack res" where
  "DupN s n = (if n < 1 then Inl ErrInvalidStackOperation
     else repeat_r (nat n) (\<lambda>s. rbind (PeekByteArray s (n - 1)) (\<lambda>so. Inr (PushByteArray so s))) s)"

definition RotN :: "stack \<Rightarrow> int \<Rightarrow> stack res" where
  "RotN s n = (if n < 1 then Inl ErrInvalidStackOperation
     else let entry = 3 * n - 1
          in repeat_r (nat n) (\<lambda>s. rbind (nipN s entry) (\<lambda>(so, s). Inr (PushByteArray so s))) s)"

definition SwapN :: "stack \<Rightarrow> int \<Rightarrow> stack res" where
  "SwapN s n = (if n < 1 then Inl ErrInvalidStackOperation
     else let entry = 2 * n - 1
          in repeat_r (nat n) (\<lambda>s. rbind (nipN s entry) (\<lambda>(so, s). Inr (PushByteArray so s))) s)"

definition OverN :: "stack \<Rightarrow> int \<Rightarrow> stack res" where
  "OverN s n = (if n < 1 then Inl ErrInvalidStackOperation
     else let entry = 2 * n - 1
          in repeat_r (nat n) (\<lambda>s. rbind (PeekByteArray s entry) (\<lambda>so. Inr (PushByteArray so s))) s)"

definition PickN :: "stack \<Rightarrow> int \<Rightarrow> stack res" where
  "PickN s n = rbind (PeekByteArray s n) (\<lambda>so. Inr (PushByteArray so s))"

definition RollN :: "stack \<Rightarrow> int \<Rightarrow> stack res" where
  "RollN s n = rbind (nipN s n) (\<lambda>(so, s). Inr (PushByteArray so s))"

text \<open>
  \<open>getStack\<close> and \<open>setStack\<close> of \<open>engine.go\<close>, which work on these stacks.
\<close>

definition getStack :: "stack \<Rightarrow> bytes list" where
  "getStack s = map (\<lambda>i. case PeekByteArray s (Depth s - int i - 1) of Inl e \<Rightarrow> [] | Inr so \<Rightarrow> so)
     [0..<length (stk s)]"

definition setStack :: "stack \<Rightarrow> bytes list \<Rightarrow> stack" where
  "setStack s data = fold PushByteArray data (ignore_err s (DropN s (Depth s)))"

section \<open>Reading the stack top first\<close>

definition stk_abs :: "stack \<Rightarrow> bytes list" where
  "stk_abs s = rev (stk s)"

definition stk_mk :: "bytes list \<Rightarrow> stack \<Rightarrow> stack" where
  "stk_mk xs s = s\<lparr>stk := rev xs\<rparr>"

lemma nipN_abs:
  "nipN s i =
     (if 0 \<le> i \<and> i < int (length (stk_abs s))
      then Inr (stk_abs s ! nat i, stk_mk (take (nat i) (stk_abs s) @ drop (Suc (nat i)) (stk_abs s)) s)
      else Inl ErrInvalidStackOperation)"
proof (cases "0 \<le> i \<and> i < int (length (stk s))")
  case True
  then obtain n where n: "i = int n" "n < length (stk s)" by (metis nonneg_int_cases of_nat_less_iff)
  have ix: "nat (int (length (stk s)) - int n - 1) = length (stk s) - Suc n" using n by simp
  have top: "stk s ! (length (stk s) - Suc n) = rev (stk s) ! n" using n by (simp add: rev_nth)
  have "take (length (stk s) - Suc n) (stk s) @ drop (length (stk s) - n) (stk s)
      = rev (take n (rev (stk s)) @ drop (Suc n) (rev (stk s)))"
    by (simp add: rev_take rev_drop)
  moreover have "nat (int (length (stk s)) - int n) = length (stk s) - n" by simp
  moreover have "length (stk s) - n = Suc 0" if "int n = int (length (stk s)) - 1"
    using that by linarith
  ultimately show ?thesis
    using n by (auto simp: nipN_def stk_abs_def stk_mk_def Let_def ix top drop_rev take_rev nat_diff_distrib)
qed (auto simp: nipN_def stk_abs_def Let_def)

interpretation stk: operand_stack stk_abs stk_mk PushByteArray PeekByteArray nipN ErrInvalidStackOperation
proof (unfold_locales, goal_cases)
  case (5 s i)
  show ?case by (auto simp: PeekByteArray_def stk_abs_def rev_nth Let_def nat_diff_distrib)
next
  case (6 s i)
  show ?case by (rule nipN_abs)
qed (simp_all add: stk_abs_def stk_mk_def PushByteArray_def)

lemma length_stk_abs [simp]: "length (stk_abs s) = length (stk s)"
  by (simp add: stk_abs_def)

lemma verifyMinimalData_stk_mk [simp]: "verifyMinimalData (stk_mk xs s) = verifyMinimalData s"
  by (simp add: stk_mk_def)

lemma stk_stk_mk [simp]: "stk (stk_mk xs s) = rev xs"
  by (simp add: stk_mk_def)

lemmas stk_laws = stk.abs_mk stk.mk_mk stk.mk_abs stk.push_mk

declare stk.abs_mk [simp] stk.mk_mk [simp] stk.mk_abs [simp]

lemma PopByteArray_cases:
  "PopByteArray s = (case stk_abs s of [] \<Rightarrow> Inl ErrInvalidStackOperation
     | x # xs \<Rightarrow> Inr (x, stk_mk xs s))"
  by (cases "stk_abs s") (simp_all add: PopByteArray_def nipN_abs)

lemma DropN_spec:
  "DropN s n = (if 1 \<le> n \<and> n \<le> Depth s then Inr (stk_mk (drop (nat n) (stk_abs s)) s)
                else Inl ErrInvalidStackOperation)"
  by (auto simp: DropN_def PopByteArray_def Depth_def stk.pop_n)

lemma DupN_spec:
  "DupN s n = (if 1 \<le> n \<and> n \<le> Depth s then Inr (stk_mk (take (nat n) (stk_abs s) @ stk_abs s) s)
               else Inl ErrInvalidStackOperation)"
  using stk.copy_n [of "nat n" "nat n" s] by (auto simp: DupN_def Depth_def)

lemma RotN_spec:
  "RotN s n = (if 1 \<le> n \<and> 3 * n \<le> Depth s
     then (let k = nat n; xs = stk_abs s
           in Inr (stk_mk (take k (drop (2 * k) xs) @ take (2 * k) xs @ drop (3 * k) xs) s))
     else Inl ErrInvalidStackOperation)"
proof (cases "1 \<le> n")
  case True
  then have "3 * nat n - nat n = 2 * nat n" "int (3 * nat n) - 1 = 3 * n - 1" by simp_all
  with True stk.roll_n [of "nat n" "3 * nat n" s] show ?thesis
    by (auto simp: RotN_def Depth_def Let_def)
qed (simp add: RotN_def)

lemma SwapN_spec:
  "SwapN s n = (if 1 \<le> n \<and> 2 * n \<le> Depth s
     then (let k = nat n; xs = stk_abs s
           in Inr (stk_mk (take k (drop k xs) @ take k xs @ drop (2 * k) xs) s))
     else Inl ErrInvalidStackOperation)"
proof (cases "1 \<le> n")
  case True
  then have "2 * nat n - nat n = nat n" "int (2 * nat n) - 1 = 2 * n - 1" by simp_all
  with True stk.roll_n [of "nat n" "2 * nat n" s] show ?thesis
    by (auto simp: SwapN_def Depth_def Let_def)
qed (simp add: SwapN_def)

lemma OverN_spec:
  "OverN s n = (if 1 \<le> n \<and> 2 * n \<le> Depth s
     then (let k = nat n; xs = stk_abs s in Inr (stk_mk (take k (drop k xs) @ xs) s))
     else Inl ErrInvalidStackOperation)"
proof (cases "1 \<le> n")
  case True
  then have "2 * nat n - nat n = nat n" "int (2 * nat n) - 1 = 2 * n - 1" by simp_all
  with True stk.copy_n [of "nat n" "2 * nat n" s] show ?thesis
    by (auto simp: OverN_def Depth_def Let_def)
qed (simp add: OverN_def)

lemma Tuck_spec:
  "Tuck s = (case stk_abs s of x2 # x1 # xs \<Rightarrow> Inr (stk_mk (x2 # x1 # x2 # xs) s)
     | _ \<Rightarrow> Inl ErrInvalidStackOperation)"
  by (auto simp: Tuck_def PopByteArray_cases stk.push_mk split: list.splits)

lemma PickN_spec:
  "PickN s n = (if 0 \<le> n \<and> n < Depth s then Inr (stk_mk (stk_abs s ! nat n # stk_abs s) s)
                else Inl ErrInvalidStackOperation)"
  by (auto simp: PickN_def Depth_def stk.peek_abs stk.push_mk)

lemma RollN_spec:
  "RollN s n = (if 0 \<le> n \<and> n < Depth s
     then (let k = nat n; xs = stk_abs s in Inr (stk_mk (xs ! k # take k xs @ drop (Suc k) xs) s))
     else Inl ErrInvalidStackOperation)"
  by (auto simp: RollN_def Depth_def nipN_abs stk.push_mk Let_def)

lemma NipN_spec:
  "NipN s n = (if 0 \<le> n \<and> n < Depth s
     then (let k = nat n; xs = stk_abs s in Inr (stk_mk (take k xs @ drop (Suc k) xs) s))
     else Inl ErrInvalidStackOperation)"
  by (auto simp: NipN_def Depth_def nipN_abs Let_def)

lemma getStack_eq: "getStack s = stk s"
  by (rule nth_equalityI)
    (auto simp: getStack_def Depth_def PeekByteArray_def Let_def nat_diff_distrib)

lemma fold_PushByteArray: "fold PushByteArray xs s = s\<lparr>stk := stk s @ xs\<rparr>"
  by (induction xs arbitrary: s) (simp_all add: PushByteArray_def)

lemma drop_all_stack: "ignore_err s (DropN s (Depth s)) = s\<lparr>stk := []\<rparr>"
  by (cases "stk s") (auto simp: ignore_err_def DropN_spec Depth_def stk_mk_def)

lemma setStack_eq: "setStack s data = s\<lparr>stk := data\<rparr>"
  by (simp add: setStack_def drop_all_stack fold_PushByteArray)

text \<open>Every value is false exactly when it reads as the number zero, negative zero included.\<close>

lemma asBool_from_eq:
  "i + length t = n \<Longrightarrow> asBool_from n i t \<longleftrightarrow>
     (\<exists>b \<in> set (butlast t). b \<noteq> 0) \<or> (t \<noteq> [] \<and> last t \<noteq> 0 \<and> last t \<noteq> 0x80)"
  by (induction n i t rule: asBool_from.induct) auto

lemma le_val_eq_0: "le_val v = 0 \<longleftrightarrow> (\<forall>b \<in> set v. b = 0)"
  by (induction v) (auto simp: unat_0_iff)

lemma clear_sign_eq_0: "clear_sign b = 0 \<longleftrightarrow> b = 0 \<or> b = 0x80"
proof -
  have "clear_sign b = 0 \<longleftrightarrow> unat b mod 128 = 0" by (metis unat_0_iff unat_clear_sign)
  also have "\<dots> \<longleftrightarrow> unat b = 0 \<or> unat b = 128"
    using unat_u8_less [of b] by (auto simp: mod_eq_0_iff_dvd elim!: dvdE)
  also have "unat b = 128 \<longleftrightarrow> b = 0x80" by (auto intro: u8_eqI)
  finally show ?thesis by (simp add: unat_0_iff)
qed

lemma asBool_iff: "asBool t \<longleftrightarrow> sm_val t \<noteq> 0"
proof (cases "t = []")
  case True
  then show ?thesis by (simp add: asBool_def sm_val_def sign_bit_def)
next
  case False
  have "sm_val t = 0 \<longleftrightarrow> le_val (butlast t @ [clear_sign (last t)]) = 0"
    using abs_sm_val [OF False] by linarith
  then show ?thesis
    using False by (auto simp: asBool_def asBool_from_eq le_val_eq_0 clear_sign_eq_0)
qed

lemma asBool_fromBool [simp]: "asBool (fromBool b) = b"
  by (simp add: asBool_def fromBool_def)

section \<open>Properties\<close>

text \<open>Every stack-shuffling operation computes the list rearrangement its documentation draws
  (top of the stack first), whatever number of elements it moves, and reports
  \<open>ErrInvalidStackOperation\<close> exactly when the count is not positive or the stack is too short.\<close>

theorem stack_shuffles:
  "DropN s n = (if 1 \<le> n \<and> n \<le> Depth s then Inr (stk_mk (drop (nat n) (stk_abs s)) s)
                else Inl ErrInvalidStackOperation) \<and>
   DupN s n = (if 1 \<le> n \<and> n \<le> Depth s then Inr (stk_mk (take (nat n) (stk_abs s) @ stk_abs s) s)
               else Inl ErrInvalidStackOperation) \<and>
   RotN s n = (if 1 \<le> n \<and> 3 * n \<le> Depth s
     then (let k = nat n; xs = stk_abs s
           in Inr (stk_mk (take k (drop (2 * k) xs) @ take (2 * k) xs @ drop (3 * k) xs) s))
     else Inl ErrInvalidStackOperation) \<and>
   SwapN s n = (if 1 \<le> n \<and> 2 * n \<le> Depth s
     then (let k = nat n; xs = stk_abs s
           in Inr (stk_mk (take k (drop k xs) @ take k xs @ drop (2 * k) xs) s))
     else Inl ErrInvalidStackOperation) \<and>
   OverN s n = (if 1 \<le> n \<and> 2 * n \<le> Depth s
     then (let k = nat n; xs = stk_abs s in Inr (stk_mk (take k (drop k xs) @ xs) s))
     else Inl ErrInvalidStackOperation) \<and>
   Tuck s = (case stk_abs s of x2 # x1 # xs \<Rightarrow> Inr (stk_mk (x2 # x1 # x2 # xs) s)
     | _ \<Rightarrow> Inl ErrInvalidStackOperation)"
  by (intro conjI DropN_spec DupN_spec RotN_spec SwapN_spec OverN_spec Tuck_spec)

text \<open>The truth value of a stack item agrees with its numeric value: an item is false exactly
  when the number it denotes is zero, negative zero included.\<close>

theorem asBool_numeric:
  assumes "MakeScriptNum v m k = Inr n" "k \<le> 8"
  shows "asBool v \<longleftrightarrow> n \<noteq> 0"
  using MakeScriptNum_Inr(3) [OF assms] asBool_iff by simp

theorem asBool_numeric_witness: "asBool [0, 0x80] \<longleftrightarrow> (0 :: int) \<noteq> 0"
proof (rule asBool_numeric)
  show "MakeScriptNum [0, 0x80] False 4 = Inr 0" by code_simp
qed simp

end
