(* ===== verification/Script_Forms.thy ===== *)
theory Script_Forms
  imports Script_Tokenizer
begin

text \<open>
  The analyses of raw scripts that need no execution (\<open>script.go\<close> and the recognisers of
  \<open>standard.go\<close>): standard forms, witness programs, multisig scripts, removal of opcodes and
  counting of signature operations. A Go result of \<open>nil\<close> is \<open>None\<close>.
\<close>

section \<open>Small integers and limits\<close>

definition MaxOpsPerScript :: nat where "MaxOpsPerScript = 201"
definition MaxPubKeysPerMultiSig :: nat where "MaxPubKeysPerMultiSig = 20"
definition MaxScriptElementSize :: nat where "MaxScriptElementSize = 520"
definition MaxScriptSize :: nat where "MaxScriptSize = 10000"
definition MaxDataCarrierSize :: nat where "MaxDataCarrierSize = 80"
abbreviation TaprootAnnexTag :: u8 where "TaprootAnnexTag \<equiv> 0x50"
abbreviation TaprootLeafMask :: u8 where "TaprootLeafMask \<equiv> 0xfe"

definition IsSmallInt :: "u8 \<Rightarrow> bool" where
  "IsSmallInt op \<longleftrightarrow> op = OP_0 \<or> (op \<ge> OP_1 \<and> op \<le> OP_16)"

definition AsSmallInt :: "u8 \<Rightarrow> nat" where
  "AsSmallInt op = (if op = OP_0 then 0 else unat (op - (OP_1 - 1)))"

definition isStrictPubKeyEncoding :: "bytes \<Rightarrow> bool" where
  "isStrictPubKeyEncoding pubKey \<longleftrightarrow>
     (length pubKey = 33 \<and> (pubKey ! 0 = 0x02 \<or> pubKey ! 0 = 0x03)) \<or>
     (length pubKey = 65 \<and> (pubKey ! 0 = 0x04 \<or> pubKey ! 0 = 0x06 \<or> pubKey ! 0 = 0x07))"

section \<open>Walks over a whole script\<close>

definition IsPushOnlyScript :: "bytes \<Rightarrow> bool" where
  "IsPushOnlyScript script =
     (case tokens (MakeScriptTokenizer 0 script) of (ts, t) \<Rightarrow>
        list_all (\<lambda>t. \<not> tok_op t > OP_16) ts \<and> tok_err t = None)"

definition checkScriptParses :: "nat \<Rightarrow> bytes \<Rightarrow> unit res" where
  "checkScriptParses scriptVersion script =
     (case tok_err (snd (tokens (MakeScriptTokenizer scriptVersion script))) of
        Some e \<Rightarrow> Inl e | None \<Rightarrow> Inr ())"

text \<open>The loop state of \<open>removeOpcodeRaw\<close>: the slice \<open>result\<close>, nil at first, and \<open>prevOffset\<close>.\<close>

definition removeOpcodeRaw_step ::
  "bytes \<Rightarrow> u8 \<Rightarrow> ScriptTokenizer \<Rightarrow> bytes option \<times> nat \<Rightarrow> bytes option \<times> nat" where
  "removeOpcodeRaw_step script opcode t st = (case st of (result, prevOffset) \<Rightarrow>
     ((if tok_op t = opcode then
         (case result of None \<Rightarrow> Some (take prevOffset script) | Some r \<Rightarrow> Some r)
       else map_option (\<lambda>r. r @ drop prevOffset (take (tok_offset t) script)) result),
      tok_offset t))"

definition removeOpcodeRaw :: "bytes \<Rightarrow> u8 \<Rightarrow> bytes" where
  "removeOpcodeRaw script opcode =
     (if script = [] then script
      else case fst (fold (removeOpcodeRaw_step script opcode)
                       (fst (tokens (MakeScriptTokenizer 0 script))) (None, 0)) of
             None \<Rightarrow> script | Some r \<Rightarrow> r)"

definition isCanonicalPush :: "u8 \<Rightarrow> bytes \<Rightarrow> bool" where
  "isCanonicalPush opcode data =
     (let dataLen = length data in
      if opcode > OP_16 then True
      else if opcode < OP_PUSHDATA1 \<and> opcode > OP_0 \<and> (dataLen = 1 \<and> data ! 0 \<le> 16) then False
      else if opcode = OP_PUSHDATA1 \<and> dataLen < unat OP_PUSHDATA1 then False
      else if opcode = OP_PUSHDATA2 \<and> dataLen \<le> 0xff then False
      else if opcode = OP_PUSHDATA4 \<and> dataLen \<le> 0xffff then False
      else True)"

definition removeOpcodeCanonical ::
  "ScriptTokenizer \<Rightarrow> bytes \<Rightarrow> bytes \<Rightarrow> nat \<Rightarrow> bytes option \<Rightarrow> bytes option \<times> nat \<times> bool" where
  "removeOpcodeCanonical t script dataToRemove prevOffset result =
     (if isCanonicalPush (tok_op t) (tok_data t) \<and> tok_data t = dataToRemove then
        ((case result of None \<Rightarrow> Some (take prevOffset script) | Some r \<Rightarrow> Some r), tok_offset t, True)
      else (map_option (\<lambda>r. r @ drop prevOffset (take (tok_offset t) script)) result, tok_offset t, False))"

definition removeOpcodeByData :: "bytes \<Rightarrow> bytes \<Rightarrow> bytes \<times> bool" where
  "removeOpcodeByData script dataToRemove =
     (if script = [] \<or> dataToRemove = [] then (script, False)
      else case fold (\<lambda>t (result, prevOffset, match).
                   case removeOpcodeCanonical t script dataToRemove prevOffset result of
                     (result, prevOffset, found) \<Rightarrow> (result, prevOffset, if found then True else match))
                 (fst (tokens (MakeScriptTokenizer 0 script))) (None, 0, False) of
             (result, prevOffset, match) \<Rightarrow> (case result of None \<Rightarrow> script | Some r \<Rightarrow> r, match))"

definition countSigOps_step :: "bool \<Rightarrow> ScriptTokenizer \<Rightarrow> nat \<times> u8 \<Rightarrow> nat \<times> u8" where
  "countSigOps_step precise t st = (case st of (numSigOps, prevOp) \<Rightarrow>
     (if tok_op t = OP_CHECKSIG \<or> tok_op t = OP_CHECKSIGVERIFY then numSigOps + 1
      else if tok_op t = OP_CHECKMULTISIG \<or> tok_op t = OP_CHECKMULTISIGVERIFY then
        (if precise \<and> prevOp \<ge> OP_1 \<and> prevOp \<le> OP_16 then numSigOps + AsSmallInt prevOp
         else numSigOps + MaxPubKeysPerMultiSig)
      else numSigOps, tok_op t))"

definition countSigOpsV0 :: "bytes \<Rightarrow> bool \<Rightarrow> nat" where
  "countSigOpsV0 script precise =
     fst (fold (countSigOps_step precise) (fst (tokens (MakeScriptTokenizer 0 script)))
            (0, OP_INVALIDOPCODE))"

definition GetSigOpCount :: "bytes \<Rightarrow> nat" where
  "GetSigOpCount script = countSigOpsV0 script False"

definition finalOpcodeData :: "nat \<Rightarrow> bytes \<Rightarrow> bytes option" where
  "finalOpcodeData scriptVersion script =
     (if script = [] then None
      else case tokens (MakeScriptTokenizer scriptVersion script) of (ts, t) \<Rightarrow>
        if tok_err t \<noteq> None then None
        else fold (\<lambda>t data. if op_length (tok_op t) = 1 then None else Some (tok_data t)) ts None)"

definition IsUnspendable :: "bytes \<Rightarrow> bool" where
  "IsUnspendable pkScript =
     (if length pkScript > 0 \<and> pkScript ! 0 = OP_RETURN then True
      else if length pkScript > MaxScriptSize then True
      else checkScriptParses 0 pkScript \<noteq> Inr ())"

text \<open>The keys of the map \<open>successOpcodes\<close>.\<close>

definition successOpcodes :: "u8 list" where
  "successOpcodes =
     [OP_RESERVED, OP_VER, OP_CAT, OP_SUBSTR, OP_LEFT, OP_RIGHT, OP_INVERT, OP_AND, OP_OR, OP_XOR,
      OP_RESERVED1, OP_RESERVED2, OP_2MUL, OP_2DIV, OP_MUL, OP_DIV, OP_MOD, OP_LSHIFT, OP_RSHIFT] @
     map of_nat [187 ..< 255]"

definition ScriptHasOpSuccess :: "bytes \<Rightarrow> bool" where
  "ScriptHasOpSuccess witnessScript =
     list_ex (\<lambda>t. tok_op t \<in> set successOpcodes) (fst (tokens (MakeScriptTokenizer 0 witnessScript)))"

section \<open>Standard forms\<close>

definition extractCompressedPubKey :: "bytes \<Rightarrow> bytes option" where
  "extractCompressedPubKey script =
     (if length script = 35 \<and> script ! 34 = OP_CHECKSIG \<and> script ! 0 = OP_DATA_33
         \<and> (script ! 1 = 0x02 \<or> script ! 1 = 0x03)
      then Some (drop 1 (take 34 script)) else None)"

definition extractUncompressedPubKey :: "bytes \<Rightarrow> bytes option" where
  "extractUncompressedPubKey script =
     (if length script = 67 \<and> script ! 66 = OP_CHECKSIG \<and> script ! 0 = OP_DATA_65
         \<and> (script ! 1 = 0x04 \<or> script ! 1 = 0x06 \<or> script ! 1 = 0x07)
      then Some (drop 1 (take 66 script)) else None)"

definition extractPubKey :: "bytes \<Rightarrow> bytes option" where
  "extractPubKey script =
     (case extractCompressedPubKey script of Some pubKey \<Rightarrow> Some pubKey
      | None \<Rightarrow> extractUncompressedPubKey script)"

definition isPubKeyScript :: "bytes \<Rightarrow> bool" where
  "isPubKeyScript script \<longleftrightarrow> extractPubKey script \<noteq> None"

definition extractPubKeyHash :: "bytes \<Rightarrow> bytes option" where
  "extractPubKeyHash script =
     (if length script = 25 \<and> script ! 0 = OP_DUP \<and> script ! 1 = OP_HASH160 \<and> script ! 2 = OP_DATA_20
         \<and> script ! 23 = OP_EQUALVERIFY \<and> script ! 24 = OP_CHECKSIG
      then Some (drop 3 (take 23 script)) else None)"

definition isPubKeyHashScript :: "bytes \<Rightarrow> bool" where
  "isPubKeyHashScript script \<longleftrightarrow> extractPubKeyHash script \<noteq> None"

definition extractScriptHash :: "bytes \<Rightarrow> bytes option" where
  "extractScriptHash script =
     (if length script = 23 \<and> script ! 0 = OP_HASH160 \<and> script ! 1 = OP_DATA_20 \<and> script ! 22 = OP_EQUAL
      then Some (drop 2 (take 22 script)) else None)"

definition isScriptHashScript :: "bytes \<Rightarrow> bool" where
  "isScriptHashScript script \<longleftrightarrow> extractScriptHash script \<noteq> None"

record multiSigDetails =
  requiredSigs :: nat
  numPubKeys :: nat
  pubKeys :: "bytes list"
  msd_valid :: bool

definition no_multiSigDetails :: multiSigDetails where
  "no_multiSigDetails = \<lparr>requiredSigs = 0, numPubKeys = 0, pubKeys = [], msd_valid = False\<rparr>"

text \<open>
  The loop over the public keys: it walks the remaining successful states of the tokenizer and
  leaves at the first small integer, or at the state \<open>final\<close> in which \<open>Next\<close> returned false.
\<close>

fun multisig_keys ::
  "bool \<Rightarrow> ScriptTokenizer \<Rightarrow> ScriptTokenizer list \<Rightarrow> nat \<Rightarrow> bytes list \<Rightarrow> ScriptTokenizer \<times> nat \<times> bytes list" where
  "multisig_keys extract final [] n keys = (final, n, keys)"
| "multisig_keys extract final (t # ts) n keys =
     (if IsSmallInt (tok_op t) then (t, n, keys)
      else multisig_keys extract final ts (n + 1)
             (if \<not> isStrictPubKeyEncoding (tok_data t) then keys
              else if extract then keys @ [tok_data t] else keys))"

definition extractMultisigScriptDetails :: "nat \<Rightarrow> bytes \<Rightarrow> bool \<Rightarrow> multiSigDetails" where
  "extractMultisigScriptDetails scriptVersion script extractPubKeys =
     (if scriptVersion \<noteq> 0 then no_multiSigDetails
      else if length script < 3 \<or> last script \<noteq> OP_CHECKMULTISIG then no_multiSigDetails
      else case Next (MakeScriptTokenizer scriptVersion script) of (ok, t1) \<Rightarrow>
        if \<not> ok \<or> \<not> IsSmallInt (tok_op t1) then no_multiSigDetails
        else let required = AsSmallInt (tok_op t1) in
          case tokens t1 of (ts, final) \<Rightarrow>
          case multisig_keys extractPubKeys final ts 0 [] of (t2, n, keys) \<Rightarrow>
            if tok_Done t2 then no_multiSigDetails
            else if \<not> IsSmallInt (tok_op t2) \<or> AsSmallInt (tok_op t2) \<noteq> n then no_multiSigDetails
            else if length (tok_script t2) - tok_offset t2 \<noteq> 1 then no_multiSigDetails
            else \<lparr>requiredSigs = required, numPubKeys = n, pubKeys = keys, msd_valid = True\<rparr>)"

definition isMultisigScript :: "nat \<Rightarrow> bytes \<Rightarrow> bool" where
  "isMultisigScript scriptVersion script =
     msd_valid (extractMultisigScriptDetails scriptVersion script False)"

definition IsMultisigSigScript :: "bytes \<Rightarrow> bool" where
  "IsMultisigSigScript script =
     (if length script < 4 \<or> last script \<noteq> OP_CHECKMULTISIG then False
      else case finalOpcodeData 0 script of None \<Rightarrow> False
        | Some possibleRedeemScript \<Rightarrow> isMultisigScript 0 possibleRedeemScript)"

definition extractWitnessPubKeyHash :: "bytes \<Rightarrow> bytes option" where
  "extractWitnessPubKeyHash script =
     (if length script = 22 \<and> script ! 0 = OP_0 \<and> script ! 1 = OP_DATA_20
      then Some (drop 2 (take 22 script)) else None)"

definition isWitnessPubKeyHashScript :: "bytes \<Rightarrow> bool" where
  "isWitnessPubKeyHashScript script \<longleftrightarrow> extractWitnessPubKeyHash script \<noteq> None"

definition extractWitnessV0ScriptHash :: "bytes \<Rightarrow> bytes option" where
  "extractWitnessV0ScriptHash script =
     (if length script = 34 \<and> script ! 0 = OP_0 \<and> script ! 1 = OP_DATA_32
      then Some (drop 2 (take 34 script)) else None)"

definition extractWitnessV1KeyBytes :: "bytes \<Rightarrow> bytes option" where
  "extractWitnessV1KeyBytes script =
     (if length script = 34 \<and> script ! 0 = OP_1 \<and> script ! 1 = OP_DATA_32
      then Some (drop 2 (take 34 script)) else None)"

definition isWitnessScriptHashScript :: "bytes \<Rightarrow> bool" where
  "isWitnessScriptHashScript script \<longleftrightarrow> extractWitnessV0ScriptHash script \<noteq> None"

definition extractWitnessProgramInfo :: "bytes \<Rightarrow> nat \<times> bytes \<times> bool" where
  "extractWitnessProgramInfo script =
     (if length script < 4 \<or> length script > 42 then (0, [], False)
      else case Next (MakeScriptTokenizer 0 script) of (ok1, t1) \<Rightarrow>
        if \<not> ok1 \<or> \<not> IsSmallInt (tok_op t1) then (0, [], False)
        else case Next t1 of (ok2, t2) \<Rightarrow>
          if \<not> ok2 \<or> \<not> isCanonicalPush (tok_op t2) (tok_data t2) then (0, [], False)
          else (AsSmallInt (tok_op t1), tok_data t2, tok_Done t2 \<and> tok_err t2 = None))"

definition isWitnessProgramScript :: "bytes \<Rightarrow> bool" where
  "isWitnessProgramScript script = snd (snd (extractWitnessProgramInfo script))"

definition isWitnessTaprootScript :: "bytes \<Rightarrow> bool" where
  "isWitnessTaprootScript script \<longleftrightarrow> extractWitnessV1KeyBytes script \<noteq> None"

definition isAnnexedWitness :: "bytes list \<Rightarrow> bool" where
  "isAnnexedWitness witness =
     (if length witness < 2 then False
      else length (last witness) > 0 \<and> last witness ! 0 = TaprootAnnexTag)"

definition extractAnnex :: "bytes list \<Rightarrow> bytes res" where
  "extractAnnex witness =
     (if \<not> isAnnexedWitness witness then Inl ErrWitnessHasNoAnnex else Inr (last witness))"

definition isNullDataScript :: "nat \<Rightarrow> bytes \<Rightarrow> bool" where
  "isNullDataScript scriptVersion script =
     (if scriptVersion \<noteq> 0 then False
      else if length script < 1 \<or> script ! 0 \<noteq> OP_RETURN then False
      else if length script = 1 then True
      else case Next (MakeScriptTokenizer scriptVersion (drop 1 script)) of (ok, t) \<Rightarrow>
        ok \<and> tok_Done t \<and> (IsSmallInt (tok_op t) \<or> tok_op t \<le> OP_PUSHDATA4)
        \<and> length (tok_data t) \<le> MaxDataCarrierSize)"

datatype ScriptClass = NonStandardTy | PubKeyTy | PubKeyHashTy | WitnessV0PubKeyHashTy | ScriptHashTy
  | WitnessV0ScriptHashTy | MultiSigTy | NullDataTy | WitnessV1TaprootTy | WitnessUnknownTy

definition typeOfScript :: "nat \<Rightarrow> bytes \<Rightarrow> ScriptClass" where
  "typeOfScript scriptVersion script =
     (if scriptVersion = 0 then
        (if isPubKeyScript script then PubKeyTy
         else if isPubKeyHashScript script then PubKeyHashTy
         else if isScriptHashScript script then ScriptHashTy
         else if isWitnessPubKeyHashScript script then WitnessV0PubKeyHashTy
         else if isWitnessScriptHashScript script then WitnessV0ScriptHashTy
         else if isMultisigScript scriptVersion script then MultiSigTy
         else if isNullDataScript scriptVersion script then NullDataTy
         else NonStandardTy)
      else if scriptVersion = 1 then
        (if isWitnessTaprootScript script then WitnessV1TaprootTy else NonStandardTy)
      else NonStandardTy)"

definition GetScriptClass :: "bytes \<Rightarrow> ScriptClass" where
  "GetScriptClass script =
     (let classSegWit = typeOfScript 0 script in
      if classSegWit \<noteq> NonStandardTy then classSegWit else typeOfScript 1 script)"

section \<open>Signature operation counts and script statistics\<close>

definition nil_bytes :: "bytes option \<Rightarrow> bytes" where
  "nil_bytes b = (case b of None \<Rightarrow> [] | Some v \<Rightarrow> v)"

definition GetPreciseSigOpCount :: "bytes \<Rightarrow> bytes \<Rightarrow> nat" where
  "GetPreciseSigOpCount scriptSig scriptPubKey =
     (if \<not> isScriptHashScript scriptPubKey then countSigOpsV0 scriptPubKey True
      else if length scriptSig = 0 \<or> \<not> IsPushOnlyScript scriptSig then 0
      else let redeemScript = nil_bytes (finalOpcodeData 0 scriptSig) in
        if length redeemScript = 0 then 0 else countSigOpsV0 redeemScript True)"

definition getWitnessSigOps :: "bytes \<Rightarrow> bytes list \<Rightarrow> nat" where
  "getWitnessSigOps pkScript witness =
     (case extractWitnessProgramInfo pkScript of (witnessVersion, witnessProgram, valid) \<Rightarrow>
        if \<not> valid then 0
        else if witnessVersion = 0 then
          (if length witnessProgram = 20 then 1
           else if length witnessProgram = 32 \<and> length witness > 0 then countSigOpsV0 (last witness) True
           else 0)
        else 0)"

definition GetWitnessSigOpCount :: "bytes \<Rightarrow> bytes \<Rightarrow> bytes list \<Rightarrow> nat" where
  "GetWitnessSigOpCount sigScript pkScript witness =
     (if isWitnessProgramScript pkScript then getWitnessSigOps pkScript witness
      else if isScriptHashScript pkScript \<and> IsPushOnlyScript sigScript \<and> length sigScript > 0
              \<and> isWitnessProgramScript (drop 1 sigScript)
      then getWitnessSigOps (drop 1 sigScript) witness
      else 0)"

text \<open>\<open>expectedInputs\<close>; the indexing \<open>script[0]\<close> of the multisig case panics on an empty script.\<close>

definition expectedInputs :: "bytes \<Rightarrow> ScriptClass \<Rightarrow> int res" where
  "expectedInputs script class =
     (case class of
        PubKeyTy \<Rightarrow> Inr 1 | PubKeyHashTy \<Rightarrow> Inr 2 | WitnessV0PubKeyHashTy \<Rightarrow> Inr 2
      | ScriptHashTy \<Rightarrow> Inr 1 | WitnessV0ScriptHashTy \<Rightarrow> Inr 1 | WitnessV1TaprootTy \<Rightarrow> Inr 1
      | MultiSigTy \<Rightarrow> (case script of [] \<Rightarrow> Inl GoPanic | op # _ \<Rightarrow> Inr (int (AsSmallInt op) + 1))
      | _ \<Rightarrow> Inr (-1))"

record ScriptInfo =
  PkScriptClass :: ScriptClass
  NumInputs :: nat
  ExpectedInputs :: int
  SigOps :: nat

definition add_inputs :: "int \<Rightarrow> int \<Rightarrow> int" where
  "add_inputs expected inputs = (if inputs = -1 then -1 else expected + inputs)"

text \<open>
  The switch of \<open>CalcScriptInfo\<close>. The guard of its third case slices \<open>sigScript[1:]\<close> whenever the
  class is \<open>ScriptHashTy\<close> and the first case did not apply, and its fourth indexes the last
  witness item: both panic on empty input.
\<close>

definition CalcScriptInfo_switch ::
  "bytes \<Rightarrow> bytes \<Rightarrow> bytes list \<Rightarrow> bool \<Rightarrow> bool \<Rightarrow> nat \<Rightarrow> ScriptInfo \<Rightarrow> ScriptInfo res" where
  "CalcScriptInfo_switch sigScript pkScript witness bip16 segwit numInputs si =
     (let class = PkScriptClass si in
      if class = ScriptHashTy \<and> bip16 \<and> \<not> segwit then
        (let redeemScript = nil_bytes (finalOpcodeData 0 sigScript) in
         rbind (expectedInputs redeemScript (typeOfScript 0 redeemScript)) (\<lambda>rsInputs.
           Inr (si\<lparr>ExpectedInputs := add_inputs (ExpectedInputs si) rsInputs,
                   SigOps := countSigOpsV0 redeemScript True, NumInputs := numInputs\<rparr>)))
      else if class = WitnessV0PubKeyHashTy \<and> segwit then
        Inr (si\<lparr>SigOps := GetWitnessSigOpCount sigScript pkScript witness, NumInputs := length witness\<rparr>)
      else if class = ScriptHashTy \<and> sigScript = [] then Inl GoPanic
      else if class = ScriptHashTy \<and> isWitnessProgramScript (drop 1 sigScript) \<and> bip16 \<and> segwit then
        rbind (expectedInputs (drop 1 sigScript) (typeOfScript 0 (drop 1 sigScript))) (\<lambda>shInputs.
          Inr (si\<lparr>ExpectedInputs := add_inputs (ExpectedInputs si) shInputs,
                  SigOps := GetWitnessSigOpCount sigScript pkScript witness,
                  NumInputs := length witness + numInputs\<rparr>))
      else if class = WitnessV0ScriptHashTy \<and> segwit then
        (if witness = [] then Inl GoPanic
         else rbind (expectedInputs (last witness) (typeOfScript 0 (last witness))) (\<lambda>shInputs.
           Inr (si\<lparr>ExpectedInputs := add_inputs (ExpectedInputs si) shInputs,
                   SigOps := GetWitnessSigOpCount sigScript pkScript witness,
                   NumInputs := length witness\<rparr>)))
      else Inr (si\<lparr>SigOps := countSigOpsV0 pkScript True, NumInputs := numInputs\<rparr>))"

definition CalcScriptInfo :: "bytes \<Rightarrow> bytes \<Rightarrow> bytes list \<Rightarrow> bool \<Rightarrow> bool \<Rightarrow> ScriptInfo res" where
  "CalcScriptInfo sigScript pkScript witness bip16 segwit =
     (case tokens (MakeScriptTokenizer 0 sigScript) of (ts, t) \<Rightarrow>
        (case tok_err t of Some e \<Rightarrow> Inl e
         | None \<Rightarrow> rbind (checkScriptParses 0 pkScript) (\<lambda>_.
             if \<not> IsPushOnlyScript sigScript then Inl ErrNotPushOnly
             else let class = typeOfScript 0 pkScript in
               rbind (expectedInputs pkScript class) (\<lambda>n.
                 CalcScriptInfo_switch sigScript pkScript witness bip16 segwit (length ts)
                   \<lparr>PkScriptClass = class, NumInputs = 0, ExpectedInputs = n, SigOps = 0\<rparr>))))"

definition CalcMultiSigStats :: "bytes \<Rightarrow> (nat \<times> nat) res" where
  "CalcMultiSigStats script =
     (let details = extractMultisigScriptDetails 0 script False in
      if \<not> msd_valid details then Inl ErrNotMultisigScript
      else Inr (numPubKeys details, requiredSigs details))"

text \<open>\<open>tokenizer.Data() != nil\<close> holds for every opcode that carries data, even of length 0.\<close>

definition PushedData :: "bytes \<Rightarrow> bytes list res" where
  "PushedData script =
     (case tokens (MakeScriptTokenizer 0 script) of (ts, t) \<Rightarrow>
        (case tok_err t of Some e \<Rightarrow> Inl e
         | None \<Rightarrow> Inr (fold (\<lambda>t data. if op_length (tok_op t) \<noteq> 1 then data @ [tok_data t]
                                       else if tok_op t = OP_0 then data @ [[]] else data) ts [])))"

record AtomicSwapDataPushes =
  RecipientHash160 :: bytes
  RefundHash160 :: bytes
  SecretHash :: bytes
  SecretSize :: int
  LockTime :: int

text \<open>An entry of the template: a canonical integer of at most so many bytes, or a fixed opcode.\<close>

datatype templateMatch = ExpectInt nat | ExpectOp u8

definition swap_template :: "templateMatch list" where
  "swap_template =
     [ExpectOp OP_IF, ExpectOp OP_SIZE, ExpectInt maxScriptNumLen, ExpectOp OP_EQUALVERIFY,
      ExpectOp OP_SHA256, ExpectOp OP_DATA_32, ExpectOp OP_EQUALVERIFY, ExpectOp OP_DUP,
      ExpectOp OP_HASH160, ExpectOp OP_DATA_20, ExpectOp OP_ELSE, ExpectInt cltvMaxScriptNumLen,
      ExpectOp OP_CHECKLOCKTIMEVERIFY, ExpectOp OP_DROP, ExpectOp OP_DUP, ExpectOp OP_HASH160,
      ExpectOp OP_DATA_20, ExpectOp OP_ENDIF, ExpectOp OP_EQUALVERIFY, ExpectOp OP_CHECKSIG]"

text \<open>
  The matching loop: \<open>Inr None\<close> when the script is not of the form, otherwise the extracted
  integer and data of every template entry passed.
\<close>

fun match_template ::
  "templateMatch list \<Rightarrow> ScriptTokenizer list \<Rightarrow> (int \<times> bytes) list \<Rightarrow> (int \<times> bytes) list option res" where
  "match_template tpl [] acc = Inr (Some acc)"
| "match_template [] (t # ts) acc = Inr None"
| "match_template (ExpectInt k # tpl) (t # ts) acc =
     (if op_length (tok_op t) \<noteq> 1 then
        rbind (MakeScriptNum (tok_data t) True k) (\<lambda>val. match_template tpl ts (acc @ [(val, [])]))
      else if IsSmallInt (tok_op t) then match_template tpl ts (acc @ [(int (AsSmallInt (tok_op t)), [])])
      else Inr None)"
| "match_template (ExpectOp op # tpl) (t # ts) acc =
     (if tok_op t \<noteq> op then Inr None else match_template tpl ts (acc @ [(0, tok_data t)]))"

definition ExtractAtomicSwapDataPushes :: "nat \<Rightarrow> bytes \<Rightarrow> AtomicSwapDataPushes option res" where
  "ExtractAtomicSwapDataPushes version pkScript =
     (case tokens (MakeScriptTokenizer version pkScript) of (ts, t) \<Rightarrow>
        rbind (match_template swap_template ts []) (\<lambda>r. case r of
          None \<Rightarrow> Inr None
        | Some m \<Rightarrow>
            (case tok_err t of Some e \<Rightarrow> Inl e
             | None \<Rightarrow>
                if \<not> tok_Done t \<or> length m \<noteq> length swap_template then Inr None
                else Inr (Some \<lparr>RecipientHash160 = snd (m ! 9), RefundHash160 = snd (m ! 16),
                            SecretHash = snd (m ! 5), SecretSize = fst (m ! 2), LockTime = fst (m ! 11)\<rparr>))))"

section \<open>Removing opcodes\<close>

text \<open>
  Both removal loops are instances of one step, which skips the instructions satisfying \<open>P\<close> and
  allocates a result only at the first of them.
\<close>

definition remove_step ::
  "(instr \<Rightarrow> bool) \<Rightarrow> bytes \<Rightarrow> ScriptTokenizer \<Rightarrow> bytes option \<times> nat \<Rightarrow> bytes option \<times> nat" where
  "remove_step P script t st = (case st of (result, prevOffset) \<Rightarrow>
     ((if P (tok_instr t) then
         (case result of None \<Rightarrow> Some (take prevOffset script) | Some r \<Rightarrow> Some r)
       else map_option (\<lambda>r. r @ drop prevOffset (take (tok_offset t) script)) result),
      tok_offset t))"

definition removed :: "bytes \<Rightarrow> bytes option \<times> nat \<Rightarrow> bytes" where
  "removed script st = (case fst st of None \<Rightarrow> take (snd st) script | Some r \<Rightarrow> r)"

lemma drop_take_between:
  assumes "drop a xs = ys @ drop b xs" "a \<le> b" "b \<le> length xs"
  shows "drop a (take b xs) = ys"
proof -
  have "length ys = b - a" using arg_cong [OF assms(1), of length] assms(2,3) by simp
  then show ?thesis using assms(1) by (simp add: drop_take)
qed

lemma take_take_between:
  assumes "drop a xs = ys @ drop b xs" "a \<le> b" "b \<le> length xs"
  shows "take b xs = take a xs @ ys"
  using drop_take_between [OF assms] assms(2) append_take_drop_id [of a "take b xs"]
  by (simp add: min_absorb1)

lemma remove_fold:
  assumes "script = tok_script t" "tok_offset t \<le> length script" "snd st = tok_offset t"
  shows "removed script (fold (remove_step P script) (fst (tokens t)) st)
       = removed script st @ concat (map enc_instr (filter (\<lambda>i. \<not> P i) (map tok_instr (fst (tokens t)))))
    \<and> snd (fold (remove_step P script) (fst (tokens t)) st) = tok_offset (snd (tokens t))
    \<and> (fst (fold (remove_step P script) (fst (tokens t)) st) = None
        \<longleftrightarrow> fst st = None \<and> (\<forall>i\<in>set (map tok_instr (fst (tokens t))). \<not> P i))"
  using assms
proof (induction t arbitrary: st rule: tokens.induct)
  case (1 t)
  show ?case
  proof (cases "fst (Next t)")
    case True
    then obtain t' where nx: "Next t = (True, t')" by (cases "Next t") auto
    note s = Next_sound [OF nx]
    have d: "drop (tok_offset t) script = enc_instr (tok_instr t') @ drop (tok_offset t') script"
      using s(2) "1.prems"(1) by (simp add: tok_instr_def)
    have le: "tok_offset t \<le> tok_offset t'" "tok_offset t' \<le> length script"
      using s(3,4) "1.prems"(1) by simp_all
    let ?st = "remove_step P script t' st"
    have st: "snd ?st = tok_offset t'" by (cases st) (simp add: remove_step_def)
    have r: "removed script ?st = removed script st @ (if P (tok_instr t') then [] else enc_instr (tok_instr t'))"
      using take_take_between [OF d le] drop_take_between [OF d le] "1.prems"(3)
      by (cases st) (auto simp: remove_step_def removed_def split: option.splits)
    have n: "fst ?st = None \<longleftrightarrow> fst st = None \<and> \<not> P (tok_instr t')"
      by (cases st) (auto simp: remove_step_def split: option.splits)
    have sc: "script = tok_script t'" using s(5) "1.prems"(1) by simp
    from 1(1) [OF nx [symmetric] TrueI sc le(2) st]
    show ?thesis by (auto simp add: tokens_True [OF nx] r n)
  next
    case False
    then obtain t' where nx: "Next t = (False, t')" by (cases "Next t") auto
    have "tok_offset t' = tok_offset t"
      using nx by (auto simp: Next_def Let_def split: if_splits)
    then show ?thesis using "1.prems"(3) by (simp add: tokens_False [OF nx])
  qed
qed

lemma remove_script:
  assumes "script_err script = None"
  shows "(case fst (fold (remove_step P script) (fst (tokens (MakeScriptTokenizer 0 script))) (None, 0)) of
            None \<Rightarrow> script | Some r \<Rightarrow> r)
       = concat (map enc_instr (filter (\<lambda>i. \<not> P i) (script_instrs script)))"
proof -
  let ?f = "fold (remove_step P script) (fst (tokens (MakeScriptTokenizer 0 script))) (None, 0)"
  have "removed script ?f = concat (map enc_instr (filter (\<lambda>i. \<not> P i) (script_instrs script)))"
    and off: "snd ?f = tok_offset (snd (tokens (MakeScriptTokenizer 0 script)))"
    using remove_fold [of script "MakeScriptTokenizer 0 script" "(None, 0)" P]
    by (simp_all add: removed_def script_instrs_def)
  moreover have "snd ?f = length script"
    using tokens_sound [of "MakeScriptTokenizer 0 script"] assms off by (simp add: script_err_def)
  ultimately show ?thesis by (auto simp: removed_def split: option.splits)
qed

lemma script_instrs_Nil [simp]: "script_instrs [] = []"
proof -
  have "tok_Done (MakeScriptTokenizer 0 [])" by (simp add: tok_Done_def)
  then show ?thesis by (simp add: script_instrs_def tokens_False Next_Done)
qed

lemma removeOpcodeRaw_eq:
  assumes "script_err script = None"
  shows "removeOpcodeRaw script opcode
       = concat (map enc_instr (filter (\<lambda>i. fst i \<noteq> opcode) (script_instrs script)))"
proof -
  have "removeOpcodeRaw_step script opcode = remove_step (\<lambda>i. fst i = opcode) script"
    by (intro ext) (simp add: removeOpcodeRaw_step_def remove_step_def tok_instr_def)
  then show ?thesis
    using remove_script [OF assms, of "\<lambda>i. fst i = opcode"]
    by (cases "script = []") (auto simp: removeOpcodeRaw_def)
qed

lemma removeOpcodeByData_fold:
  "fold (\<lambda>t (result, prevOffset, match).
       case removeOpcodeCanonical t script d prevOffset result of
         (result, prevOffset, found) \<Rightarrow> (result, prevOffset, if found then True else match)) ts (r, p, m)
   = (let P = (\<lambda>i. isCanonicalPush (fst i) (snd i) \<and> snd i = d) in
      case fold (remove_step P script) ts (r, p) of
        (r', p') \<Rightarrow> (r', p', m \<or> (\<exists>i\<in>set (map tok_instr ts). P i)))"
proof (induction ts arbitrary: r p m)
  case (Cons t ts)
  then show ?case
    by (auto simp: removeOpcodeCanonical_def remove_step_def tok_instr_def Let_def split: prod.splits)
qed simp

lemma removeOpcodeByData_eq:
  assumes "script_err script = None" "d \<noteq> []"
  shows "removeOpcodeByData script d =
    (concat (map enc_instr (filter (\<lambda>i. \<not> (isCanonicalPush (fst i) (snd i) \<and> snd i = d)) (script_instrs script))),
     \<exists>i\<in>set (script_instrs script). isCanonicalPush (fst i) (snd i) \<and> snd i = d)"
proof (cases "script = []")
  case True
  then show ?thesis by (simp add: removeOpcodeByData_def)
next
  case False
  then show ?thesis
    using remove_script [OF assms(1), of "\<lambda>i. isCanonicalPush (fst i) (snd i) \<and> snd i = d"] assms(2)
    by (auto simp: removeOpcodeByData_def removeOpcodeByData_fold Let_def script_instrs_def
             split: prod.splits)
qed

section \<open>Witness programs\<close>

lemma small_int_unat: "IsSmallInt op \<Longrightarrow> unat op = 0 \<or> 81 \<le> unat op"
  by (auto simp: IsSmallInt_def word_le_nat_alt)

lemma wf_small_int:
  assumes "IsSmallInt op"
  shows "wf_instr (op, d) \<longleftrightarrow> d = []" "enc_instr (op, []) = [op]"
proof -
  have c: "unat op = 0 \<or> 81 \<le> unat op" using assms by (rule small_int_unat)
  have "\<not> (OP_DATA_1 \<le> op \<and> op \<le> OP_DATA_75)"
    using c by (simp add: word_le_nat_alt) linarith
  moreover have "op \<noteq> OP_PUSHDATA1" "op \<noteq> OP_PUSHDATA2" "op \<noteq> OP_PUSHDATA4" using c by auto
  ultimately show "wf_instr (op, d) \<longleftrightarrow> d = []" "enc_instr (op, []) = [op]"
    by (auto simp: wf_instr_def enc_instr_def len_width_def)
qed

lemma data_push_op:
  assumes "1 \<le> n" "n \<le> 75"
  shows "OP_DATA_1 \<le> (of_nat n :: u8)" "(of_nat n :: u8) \<le> OP_DATA_75" "unat (of_nat n :: u8) = n"
    "len_width (of_nat n) = 0"
proof -
  show u: "unat (of_nat n :: u8) = n" using assms by (simp add: unat_of_nat_u8)
  show "OP_DATA_1 \<le> (of_nat n :: u8)" "(of_nat n :: u8) \<le> OP_DATA_75"
    using assms u by (simp_all add: word_le_nat_alt)
  then show "len_width (of_nat n) = 0" by (cases "of_nat n :: u8" rule: op_length_cases) auto
qed

lemma data_push_instr:
  assumes "1 \<le> length d" "length d \<le> 75"
  shows "wf_instr (of_nat (length d), d)" "enc_instr (of_nat (length d), d) = of_nat (length d) # d"
  using data_push_op [OF assms] by (simp_all add: wf_instr_def enc_instr_def)

lemma canonical_short_push:
  assumes "wf_instr (op, d)" "isCanonicalPush op d" "3 \<le> length (enc_instr (op, d))" "length (enc_instr (op, d)) \<le> 41"
  shows "op = of_nat (length d) \<and> 2 \<le> length d \<and> length d \<le> 40"
proof (cases op rule: op_length_cases)
  case data
  then have "length d = unat op" using assms(1) by (simp add: wf_instr_def)
  then show ?thesis using data assms(3,4) by (auto simp: enc_instr_def intro!: u8_eqI)
next
  case single
  then have "d = []" using assms(1) by (auto simp: wf_instr_def split: if_splits)
  then show ?thesis using single assms(3) by (simp add: enc_instr_def)
qed (use assms in \<open>simp_all add: isCanonicalPush_def enc_instr_def Let_def\<close>)

lemma witness_program_sound:
  assumes "extractWitnessProgramInfo script = (v, prog, True)"
  obtains op where "IsSmallInt op" "v = AsSmallInt op" "2 \<le> length prog" "length prog \<le> 40"
    "script = op # of_nat (length prog) # prog"
proof -
  let ?t0 = "MakeScriptTokenizer 0 script"
  have len: "4 \<le> length script" "length script \<le> 42"
    using assms by (auto simp: extractWitnessProgramInfo_def split: if_splits)
  obtain ok1 t1 ok2 t2 where n: "Next ?t0 = (ok1, t1)" "Next t1 = (ok2, t2)" by (metis surj_pair)
  have ok: "ok1" "ok2" "IsSmallInt (tok_op t1)" "isCanonicalPush (tok_op t2) (tok_data t2)"
      "tok_Done t2" "tok_err t2 = None" "v = AsSmallInt (tok_op t1)" "prog = tok_data t2"
    using assms len n by (auto simp: extractWitnessProgramInfo_def split: if_splits)
  note s1 = Next_sound [OF n(1) [unfolded eqTrueI [OF ok(1)]]]
  note s2 = Next_sound [OF n(2) [unfolded eqTrueI [OF ok(2)]]]
  have d1: "tok_data t1 = []" using s1(1) wf_small_int(1) [OF ok(3)] by simp
  have "script = [tok_op t1] @ drop (tok_offset t1) script"
    using s1(2) d1 wf_small_int(2) [OF ok(3)] by simp
  also have "drop (tok_offset t1) script = enc_instr (tok_op t2, prog) @ drop (tok_offset t2) script"
    using s2(2) s1(5) ok(8) by simp
  also have "drop (tok_offset t2) script = []"
    using ok(5,6) s1(5) s2(5) by (simp add: tok_Done_def)
  finally have sc: "script = tok_op t1 # enc_instr (tok_op t2, prog)" by simp
  have "3 \<le> length (enc_instr (tok_op t2, prog))" "length (enc_instr (tok_op t2, prog)) \<le> 41"
    using len arg_cong [OF sc, of length] by simp_all
  with canonical_short_push [OF s2(1) ok(4)] ok(8)
  have p: "tok_op t2 = of_nat (length prog)" "2 \<le> length prog" "length prog \<le> 40" by simp_all
  from sc data_push_instr(2) [of prog] p have "script = tok_op t1 # of_nat (length prog) # prog" by simp
  with that [OF ok(3,7) p(2,3)] show ?thesis by blast
qed

lemma witness_tokens:
  assumes op: "IsSmallInt op" and p: "1 \<le> length prog" "length prog \<le> 75"
  obtains t1 t2 where "Next (MakeScriptTokenizer 0 (op # of_nat (length prog) # prog)) = (True, t1)"
    "tok_op t1 = op" "Next t1 = (True, t2)" "tokens t1 = ([t2], t2)" "tok_op t2 = of_nat (length prog)"
    "tok_data t2 = prog" "tok_err t2 = None" "tok_Done t2"
proof -
  let ?n = "of_nat (length prog) :: u8"
  let ?t0 = "MakeScriptTokenizer 0 (op # ?n # prog)"
  define t1 where "t1 = ?t0\<lparr>tok_opcodePos := tok_opcodePos ?t0 + 1, tok_offset := Suc 0, tok_op := op, tok_data := []\<rparr>"
  define t2 where "t2 = t1\<lparr>tok_opcodePos := tok_opcodePos t1 + 1, tok_offset := Suc (Suc (length prog)),
                          tok_op := ?n, tok_data := prog\<rparr>"
  have wf1: "wf_instr (op, [])" "enc_instr (op, []) = [op]" using wf_small_int [OF op] by simp_all
  have wf2: "wf_instr (?n, prog)" "enc_instr (?n, prog) = ?n # prog" using data_push_instr [of prog] p by simp_all
  have n1: "Next ?t0 = (True, t1)"
    using Next_complete [OF wf1(1), of ?t0 "?n # prog"] wf1(2) by (simp add: t1_def)
  have n2: "Next t1 = (True, t2)"
    using Next_complete [OF wf2(1), of t1 "[]"] wf2(2) by (simp add: t1_def t2_def)
  have d: "tok_Done t2" by (simp add: t1_def t2_def tok_Done_def)
  from that [OF n1 _ n2 _ _ _ _ d] tokens_True [OF n2] tokens_False [OF Next_Done [OF d]]
  show ?thesis by (simp add: t1_def t2_def)
qed

lemma witness_program_complete:
  assumes op: "IsSmallInt op" and p: "2 \<le> length prog" "length prog \<le> 40"
  shows "extractWitnessProgramInfo (op # of_nat (length prog) # prog) = (AsSmallInt op, prog, True)"
proof -
  obtain t1 t2 where t: "Next (MakeScriptTokenizer 0 (op # of_nat (length prog) # prog)) = (True, t1)"
    "tok_op t1 = op" "Next t1 = (True, t2)" "tokens t1 = ([t2], t2)" "tok_op t2 = of_nat (length prog)"
    "tok_data t2 = prog" "tok_err t2 = None" "tok_Done t2"
    using witness_tokens [OF op, of prog] p by auto
  have "isCanonicalPush (of_nat (length prog)) prog"
    using p data_push_op [of "length prog"] by (auto simp: isCanonicalPush_def Let_def)
  then show ?thesis using p op by (simp add: extractWitnessProgramInfo_def t)
qed

section \<open>Signature operation counts\<close>

lemma AsSmallInt_le: "OP_1 \<le> op \<Longrightarrow> op \<le> OP_16 \<Longrightarrow> AsSmallInt op \<le> 16"
  by (auto simp: AsSmallInt_def word_le_nat_alt unat_sub_if_size)

lemma countSigOps_mono:
  assumes "fst a \<le> fst b" "snd a = snd b"
  shows "fst (fold (countSigOps_step True) ts a) \<le> fst (fold (countSigOps_step False) ts b)"
  using assms
proof (induction ts arbitrary: a b)
  case (Cons t ts)
  have "fst (countSigOps_step True t a) \<le> fst (countSigOps_step False t b)"
    using Cons.prems AsSmallInt_le [of "snd a"]
    by (cases a; cases b) (force simp: countSigOps_step_def MaxPubKeysPerMultiSig_def)
  moreover have "snd (countSigOps_step True t a) = snd (countSigOps_step False t b)"
    by (cases a; cases b) (simp add: countSigOps_step_def)
  ultimately show ?case using Cons.IH by simp
qed simp

lemma countSigOps_bound:
  "fst (fold (countSigOps_step False) ts a) \<le> fst a + MaxPubKeysPerMultiSig * length ts"
proof (induction ts arbitrary: a)
  case (Cons t ts)
  have "fst (countSigOps_step False t a) \<le> fst a + MaxPubKeysPerMultiSig"
    by (cases a) (auto simp: countSigOps_step_def MaxPubKeysPerMultiSig_def)
  with Cons.IH [of "countSigOps_step False t a"] show ?case by simp
qed simp

lemma tokens_length: "length (fst (tokens t)) \<le> length (tok_script t) - tok_offset t"
proof (induction t rule: tokens.induct)
  case (1 t)
  show ?case
  proof (cases "fst (Next t)")
    case True
    then obtain t' where nx: "Next t = (True, t')" by (cases "Next t") auto
    from 1(1) [OF nx [symmetric] TrueI] Next_sound(3-5) [OF nx]
    show ?thesis by (simp add: tokens_True [OF nx])
  next
    case False
    then obtain t' where nx: "Next t = (False, t')" by (cases "Next t") auto
    show ?thesis by (simp add: tokens_False [OF nx])
  qed
qed

section \<open>The standard classes\<close>

lemma first_op:
  assumes "Next (MakeScriptTokenizer 0 script) = (True, t)"
  shows "script \<noteq> []" "script ! 0 = tok_op t"
  using Next_sound(2) [OF assms] by (auto simp: enc_instr_def) (metis nth_Cons_0)

lemma multisig_ends:
  assumes "isMultisigScript 0 script"
  shows "last script = OP_CHECKMULTISIG" "IsSmallInt (script ! 0)"
proof -
  show "last script = OP_CHECKMULTISIG" using assms
    by (auto simp: isMultisigScript_def extractMultisigScriptDetails_def no_multiSigDetails_def split: if_splits)
  obtain ok t where n: "Next (MakeScriptTokenizer 0 script) = (ok, t)" by (metis surj_pair)
  then have "ok" "IsSmallInt (tok_op t)" using assms
    by (auto simp: isMultisigScript_def extractMultisigScriptDetails_def no_multiSigDetails_def split: if_splits)
  with n first_op(2) [of script t] show "IsSmallInt (script ! 0)" by simp
qed

lemma witness_not_multisig:
  assumes op: "IsSmallInt op" and p: "1 \<le> length prog" "length prog \<le> 75"
  shows "\<not> isMultisigScript 0 (op # of_nat (length prog) # prog)"
proof -
  obtain t1 t2 where t: "Next (MakeScriptTokenizer 0 (op # of_nat (length prog) # prog)) = (True, t1)"
    "tokens t1 = ([t2], t2)" "tok_Done t2" "tok_op t2 = of_nat (length prog)"
    using witness_tokens [OF assms] by metis
  have "\<not> IsSmallInt (tok_op t2)" using data_push_op(3) [OF p] t(4) p small_int_unat [of "tok_op t2"] by auto
  then show ?thesis using t(3)
    by (auto simp: isMultisigScript_def extractMultisigScriptDetails_def no_multiSigDetails_def t(1,2))
qed

lemma witness_form_not_multisig:
  assumes "IsSmallInt (script ! 0)" "length script = unat (script ! 1) + 2" "1 \<le> unat (script ! 1)"
    "unat (script ! 1) \<le> 75"
  shows "\<not> isMultisigScript 0 script"
proof -
  have e: "script = script ! 0 # script ! 1 # drop 2 script"
    using assms(2) by (cases script; cases "tl script") auto
  have "of_nat (length (drop 2 script)) = script ! 1" using assms(2) by simp
  then show ?thesis using witness_not_multisig [OF assms(1), of "drop 2 script"] assms(2-4) e by simp
qed

lemmas form_defs = isPubKeyScript_def extractPubKey_def extractCompressedPubKey_def
  extractUncompressedPubKey_def isPubKeyHashScript_def extractPubKeyHash_def isScriptHashScript_def
  extractScriptHash_def isWitnessPubKeyHashScript_def extractWitnessPubKeyHash_def
  isWitnessScriptHashScript_def extractWitnessV0ScriptHash_def isWitnessTaprootScript_def
  extractWitnessV1KeyBytes_def

lemma last_nth: "length xs = Suc n \<Longrightarrow> last xs = xs ! n"
  by (cases xs rule: rev_cases) (auto simp: nth_append)

lemma multisig_exclusive:
  assumes "isMultisigScript 0 script"
  shows "\<not> isPubKeyScript script" "\<not> isPubKeyHashScript script" "\<not> isScriptHashScript script"
    "\<not> isWitnessPubKeyHashScript script" "\<not> isWitnessScriptHashScript script"
    "\<not> isNullDataScript 0 script" "\<not> isWitnessTaprootScript script"
proof -
  note e = multisig_ends [OF assms]
  have l: "length script = 35 \<Longrightarrow> script ! 34 = OP_CHECKMULTISIG"
    "length script = 67 \<Longrightarrow> script ! 66 = OP_CHECKMULTISIG"
    "length script = 25 \<Longrightarrow> script ! 24 = OP_CHECKMULTISIG"
    "length script = 23 \<Longrightarrow> script ! 22 = OP_CHECKMULTISIG"
    using e(1) last_nth [of script 34] last_nth [of script 66] last_nth [of script 24] last_nth [of script 22]
    by simp_all
  then show "\<not> isPubKeyScript script" "\<not> isPubKeyHashScript script" "\<not> isScriptHashScript script"
    by (auto simp: form_defs)
  show "\<not> isNullDataScript 0 script" using e(2) by (auto simp: isNullDataScript_def IsSmallInt_def)
  have w: "length script \<noteq> unat (script ! 1) + 2 \<or> unat (script ! 1) < 1 \<or> 75 < unat (script ! 1)"
    using witness_form_not_multisig [OF e(2)] assms by force
  then show "\<not> isWitnessPubKeyHashScript script" "\<not> isWitnessScriptHashScript script"
    "\<not> isWitnessTaprootScript script"
    by (auto simp: form_defs)
qed

lemma typeOfScript_iff:
  "typeOfScript 0 script = PubKeyTy \<longleftrightarrow> isPubKeyScript script"
  "typeOfScript 0 script = PubKeyHashTy \<longleftrightarrow> isPubKeyHashScript script"
  "typeOfScript 0 script = ScriptHashTy \<longleftrightarrow> isScriptHashScript script"
  "typeOfScript 0 script = WitnessV0PubKeyHashTy \<longleftrightarrow> isWitnessPubKeyHashScript script"
  "typeOfScript 0 script = WitnessV0ScriptHashTy \<longleftrightarrow> isWitnessScriptHashScript script"
  "typeOfScript 0 script = MultiSigTy \<longleftrightarrow> isMultisigScript 0 script"
  "typeOfScript 0 script = NullDataTy \<longleftrightarrow> isNullDataScript 0 script"
proof -
  have a: "isPubKeyScript script \<Longrightarrow> \<not> isPubKeyHashScript script \<and> \<not> isScriptHashScript script
      \<and> \<not> isWitnessPubKeyHashScript script \<and> \<not> isWitnessScriptHashScript script"
    "isPubKeyHashScript script \<Longrightarrow> \<not> isScriptHashScript script
      \<and> \<not> isWitnessPubKeyHashScript script \<and> \<not> isWitnessScriptHashScript script"
    "isScriptHashScript script \<Longrightarrow> \<not> isWitnessPubKeyHashScript script \<and> \<not> isWitnessScriptHashScript script"
    "isWitnessPubKeyHashScript script \<Longrightarrow> \<not> isWitnessScriptHashScript script"
    by (auto simp: form_defs split: if_splits)
  have n: "isNullDataScript 0 script \<Longrightarrow> \<not> isPubKeyScript script \<and> \<not> isPubKeyHashScript script
      \<and> \<not> isScriptHashScript script \<and> \<not> isWitnessPubKeyHashScript script \<and> \<not> isWitnessScriptHashScript script"
    by (auto simp: form_defs isNullDataScript_def split: if_splits)
  note m = multisig_exclusive [of script]
  show "typeOfScript 0 script = PubKeyTy \<longleftrightarrow> isPubKeyScript script"
    "typeOfScript 0 script = PubKeyHashTy \<longleftrightarrow> isPubKeyHashScript script"
    "typeOfScript 0 script = ScriptHashTy \<longleftrightarrow> isScriptHashScript script"
    "typeOfScript 0 script = WitnessV0PubKeyHashTy \<longleftrightarrow> isWitnessPubKeyHashScript script"
    "typeOfScript 0 script = WitnessV0ScriptHashTy \<longleftrightarrow> isWitnessScriptHashScript script"
    "typeOfScript 0 script = MultiSigTy \<longleftrightarrow> isMultisigScript 0 script"
    "typeOfScript 0 script = NullDataTy \<longleftrightarrow> isNullDataScript 0 script"
    using a n m by (auto simp: typeOfScript_def)
qed

section \<open>Properties\<close>

text \<open>A script is recognised as a witness program exactly when it is a small-integer opcode
  followed by one direct push of 2 to 40 bytes that ends the script, and the version and program
  returned are that integer and these bytes.\<close>

theorem witness_program_iff:
  "extractWitnessProgramInfo script = (v, prog, True) \<longleftrightarrow>
     (\<exists>op. IsSmallInt op \<and> v = AsSmallInt op \<and> 2 \<le> length prog \<and> length prog \<le> 40
        \<and> script = op # of_nat (length prog) # prog)"
  using witness_program_sound [of script v prog] witness_program_complete by metis

text \<open>On a script that parses, removing an opcode returns the encoding of the instructions with
  another opcode, in order, and nothing else.\<close>

theorem removeOpcodeRaw_filters:
  assumes "script_err script = None"
  shows "script_instrs (removeOpcodeRaw script opcode) = filter (\<lambda>i. fst i \<noteq> opcode) (script_instrs script)
       \<and> script_err (removeOpcodeRaw script opcode) = None"
  using removeOpcodeRaw_eq [OF assms] script_parse(2) [OF assms]
    script_instrs_enc [of "filter (\<lambda>i. fst i \<noteq> opcode) (script_instrs script)"]
  by simp

lemma codesep_script_parses: "script_err [OP_DUP, OP_CODESEPARATOR, 1, OP_CODESEPARATOR] = None"
  using script_instrs_enc(2) [of "[(OP_DUP, []), (OP_CODESEPARATOR, []), (1, [OP_CODESEPARATOR])]"]
  by (simp add: enc_instr_def len_width_def wf_instr_def)

theorem removeOpcodeRaw_filters_witness:
  "script_instrs (removeOpcodeRaw [OP_DUP, OP_CODESEPARATOR, 1, OP_CODESEPARATOR] OP_CODESEPARATOR)
   = filter (\<lambda>i. fst i \<noteq> OP_CODESEPARATOR) (script_instrs [OP_DUP, OP_CODESEPARATOR, 1, OP_CODESEPARATOR])"
  using removeOpcodeRaw_filters [OF codesep_script_parses] by blast

text \<open>On a script that parses, removing a signature from it deletes exactly the canonical pushes
  of these bytes, keeps every other instruction byte for byte, and reports whether there was one.\<close>

theorem removeOpcodeByData_filters:
  assumes "script_err script = None" "d \<noteq> []"
  shows "script_instrs (fst (removeOpcodeByData script d))
       = filter (\<lambda>i. \<not> (isCanonicalPush (fst i) (snd i) \<and> snd i = d)) (script_instrs script)
    \<and> (snd (removeOpcodeByData script d) \<longleftrightarrow>
        (\<exists>i. i \<in> set (script_instrs script) \<and> isCanonicalPush (fst i) (snd i) \<and> snd i = d))"
  using removeOpcodeByData_eq [OF assms] script_parse(2) [OF assms(1)]
    script_instrs_enc [of "filter (\<lambda>i. \<not> (isCanonicalPush (fst i) (snd i) \<and> snd i = d)) (script_instrs script)"]
  by (simp add: Bex_def)

theorem removeOpcodeByData_filters_witness:
  "script_instrs (fst (removeOpcodeByData [OP_DUP, OP_CODESEPARATOR, 1, OP_CODESEPARATOR] [OP_CODESEPARATOR]))
   = filter (\<lambda>i. \<not> (isCanonicalPush (fst i) (snd i) \<and> snd i = [OP_CODESEPARATOR]))
       (script_instrs [OP_DUP, OP_CODESEPARATOR, 1, OP_CODESEPARATOR])"
  using removeOpcodeByData_filters [OF codesep_script_parses, of "[OP_CODESEPARATOR]"] by blast

text \<open>The precise count of signature operations never exceeds the quick count, and both are
  bounded by twenty times the script length.\<close>

theorem sigop_counts_ordered:
  "countSigOpsV0 script True \<le> countSigOpsV0 script False
   \<and> GetSigOpCount script \<le> 20 * length script"
proof -
  let ?t = "MakeScriptTokenizer 0 script"
  have "countSigOpsV0 script False \<le> 20 * length (fst (tokens ?t))"
    using countSigOps_bound [of "fst (tokens ?t)" "(0, OP_INVALIDOPCODE)"]
    by (simp add: countSigOpsV0_def MaxPubKeysPerMultiSig_def)
  also have "\<dots> \<le> 20 * length script" using tokens_length [of ?t] by simp
  finally show ?thesis
    by (simp add: GetSigOpCount_def) (simp add: countSigOpsV0_def countSigOps_mono)
qed

text \<open>The standard script classes are mutually exclusive: the class reported is a given one
  exactly when that form's own recogniser accepts, so the order of the tests does not matter.\<close>

theorem script_classes_exclusive:
  "(typeOfScript 0 script = PubKeyTy \<longleftrightarrow> isPubKeyScript script) \<and>
   (typeOfScript 0 script = PubKeyHashTy \<longleftrightarrow> isPubKeyHashScript script) \<and>
   (typeOfScript 0 script = ScriptHashTy \<longleftrightarrow> isScriptHashScript script) \<and>
   (typeOfScript 0 script = WitnessV0PubKeyHashTy \<longleftrightarrow> isWitnessPubKeyHashScript script) \<and>
   (typeOfScript 0 script = WitnessV0ScriptHashTy \<longleftrightarrow> isWitnessScriptHashScript script) \<and>
   (typeOfScript 0 script = MultiSigTy \<longleftrightarrow> isMultisigScript 0 script) \<and>
   (typeOfScript 0 script = NullDataTy \<longleftrightarrow> isNullDataScript 0 script)"
  using typeOfScript_iff by blast

end
