(* ===== verification/Script_Builder.thy ===== *)
theory Script_Builder
  imports Script_Forms
begin

text \<open>
  The script builder (\<open>scriptbuilder.go\<close>) and the payment scripts made with it
  (\<open>standard.go\<close>), with the proof that what it builds parses, pushes the data it was given and is
  recognised by the extraction routines.
\<close>

section \<open>The builder\<close>

record ScriptBuilder =
  bld_script :: bytes
  bld_err :: "ErrorCode option"

text \<open>\<open>ErrScriptNotCanonical\<close> is an error type of its own, not an \<open>ErrorCode\<close>.\<close>

abbreviation ErrScriptNotCanonical :: ErrorCode where "ErrScriptNotCanonical \<equiv> ErrOther"

definition NewScriptBuilder :: ScriptBuilder where
  "NewScriptBuilder = \<lparr>bld_script = [], bld_err = None\<rparr>"

definition AddOp :: "u8 \<Rightarrow> ScriptBuilder \<Rightarrow> ScriptBuilder" where
  "AddOp opcode b =
     (if bld_err b \<noteq> None then b
      else if length (bld_script b) + 1 > MaxScriptSize then b\<lparr>bld_err := Some ErrScriptNotCanonical\<rparr>
      else b\<lparr>bld_script := bld_script b @ [opcode]\<rparr>)"

definition AddOps :: "bytes \<Rightarrow> ScriptBuilder \<Rightarrow> ScriptBuilder" where
  "AddOps opcodes b =
     (if bld_err b \<noteq> None then b
      else if length (bld_script b) + length opcodes > MaxScriptSize
      then b\<lparr>bld_err := Some ErrScriptNotCanonical\<rparr>
      else b\<lparr>bld_script := bld_script b @ opcodes\<rparr>)"

definition canonicalDataSize :: "bytes \<Rightarrow> nat" where
  "canonicalDataSize data =
     (let dataLen = length data in
      if dataLen = 0 then 1
      else if dataLen = 1 \<and> data ! 0 \<le> 16 then 1
      else if dataLen = 1 \<and> data ! 0 = 0x81 then 1
      else if dataLen < unat OP_PUSHDATA1 then 1 + dataLen
      else if dataLen \<le> 0xff then 2 + dataLen
      else if dataLen \<le> 0xffff then 3 + dataLen
      else 5 + dataLen)"

definition addData :: "bytes \<Rightarrow> ScriptBuilder \<Rightarrow> ScriptBuilder" where
  "addData data b =
     (let dataLen = length data; put = (\<lambda>bs. b\<lparr>bld_script := bld_script b @ bs\<rparr>) in
      if dataLen = 0 \<or> dataLen = 1 \<and> data ! 0 = 0 then put [OP_0]
      else if dataLen = 1 \<and> data ! 0 \<le> 16 then put [(OP_1 - 1) + data ! 0]
      else if dataLen = 1 \<and> data ! 0 = 0x81 then put [OP_1NEGATE]
      else if dataLen < unat OP_PUSHDATA1 then put (of_nat (unat (OP_DATA_1 - 1) + dataLen) # data)
      else if dataLen \<le> 0xff then put (OP_PUSHDATA1 # of_nat dataLen # data)
      else if dataLen \<le> 0xffff then put (OP_PUSHDATA2 # le_bytes 2 dataLen @ data)
      else put (OP_PUSHDATA4 # le_bytes 4 dataLen @ data))"

definition AddFullData :: "bytes \<Rightarrow> ScriptBuilder \<Rightarrow> ScriptBuilder" where
  "AddFullData data b = (if bld_err b \<noteq> None then b else addData data b)"

definition AddData :: "bytes \<Rightarrow> ScriptBuilder \<Rightarrow> ScriptBuilder" where
  "AddData data b =
     (if bld_err b \<noteq> None then b
      else if length (bld_script b) + canonicalDataSize data > MaxScriptSize
      then b\<lparr>bld_err := Some ErrScriptNotCanonical\<rparr>
      else if length data > MaxScriptElementSize then b\<lparr>bld_err := Some ErrScriptNotCanonical\<rparr>
      else addData data b)"

text \<open>\<open>AddInt64\<close> panics where \<open>scriptNum.Bytes\<close> does.\<close>

definition AddInt64 :: "int \<Rightarrow> ScriptBuilder \<Rightarrow> ScriptBuilder res" where
  "AddInt64 val b =
     (if bld_err b \<noteq> None then Inr b
      else if length (bld_script b) + 1 > MaxScriptSize then Inr (b\<lparr>bld_err := Some ErrScriptNotCanonical\<rparr>)
      else if val = 0 then Inr (b\<lparr>bld_script := bld_script b @ [OP_0]\<rparr>)
      else if val = -1 \<or> (val \<ge> 1 \<and> val \<le> 16)
      then Inr (b\<lparr>bld_script := bld_script b @ [word_of_int (uint (OP_1 - 1) + val)]\<rparr>)
      else rbind (Bytes val) (\<lambda>bs. Inr (AddData bs b)))"

definition bld_Reset :: "ScriptBuilder \<Rightarrow> ScriptBuilder" where
  "bld_Reset b = b\<lparr>bld_script := [], bld_err := None\<rparr>"

text \<open>\<open>Script\<close> returns the script built so far together with the error, if any.\<close>

definition bld_Script :: "ScriptBuilder \<Rightarrow> bytes \<times> ErrorCode option" where
  "bld_Script b = (bld_script b, bld_err b)"

section \<open>Payment scripts\<close>

definition payToPubKeyHashScript :: "bytes \<Rightarrow> bytes \<times> ErrorCode option" where
  "payToPubKeyHashScript pubKeyHash =
     bld_Script (AddOp OP_CHECKSIG (AddOp OP_EQUALVERIFY (AddData pubKeyHash
       (AddOp OP_HASH160 (AddOp OP_DUP NewScriptBuilder)))))"

definition payToWitnessPubKeyHashScript :: "bytes \<Rightarrow> bytes \<times> ErrorCode option" where
  "payToWitnessPubKeyHashScript pubKeyHash = bld_Script (AddData pubKeyHash (AddOp OP_0 NewScriptBuilder))"

definition payToScriptHashScript :: "bytes \<Rightarrow> bytes \<times> ErrorCode option" where
  "payToScriptHashScript scriptHash =
     bld_Script (AddOp OP_EQUAL (AddData scriptHash (AddOp OP_HASH160 NewScriptBuilder)))"

definition payToWitnessScriptHashScript :: "bytes \<Rightarrow> bytes \<times> ErrorCode option" where
  "payToWitnessScriptHashScript scriptHash = bld_Script (AddData scriptHash (AddOp OP_0 NewScriptBuilder))"

definition payToWitnessTaprootScript :: "bytes \<Rightarrow> bytes \<times> ErrorCode option" where
  "payToWitnessTaprootScript rawKey = bld_Script (AddData rawKey (AddOp OP_1 NewScriptBuilder))"

definition payToPubKeyScript :: "bytes \<Rightarrow> bytes \<times> ErrorCode option" where
  "payToPubKeyScript serializedPubKey =
     bld_Script (AddOp OP_CHECKSIG (AddData serializedPubKey NewScriptBuilder))"

text \<open>
  The address types the type switch of \<open>PayToAddrScript\<close> distinguishes, each by the bytes its
  \<open>ScriptAddress\<close> returns; \<open>None\<close> is a typed nil pointer.
\<close>

datatype Address = AddressPubKeyHash "bytes option" | AddressScriptHash "bytes option"
  | AddressPubKey "bytes option" | AddressWitnessPubKeyHash "bytes option"
  | AddressWitnessScriptHash "bytes option" | AddressTaproot "bytes option" | AddressOther

definition PayToAddrScript :: "Address \<Rightarrow> bytes \<times> ErrorCode option" where
  "PayToAddrScript addr =
     (let pay = (\<lambda>f a. case a of None \<Rightarrow> ([], Some ErrUnsupportedAddress) | Some h \<Rightarrow> f h) in
      case addr of
        AddressPubKeyHash a \<Rightarrow> pay payToPubKeyHashScript a
      | AddressScriptHash a \<Rightarrow> pay payToScriptHashScript a
      | AddressPubKey a \<Rightarrow> pay payToPubKeyScript a
      | AddressWitnessPubKeyHash a \<Rightarrow> pay payToWitnessPubKeyHashScript a
      | AddressWitnessScriptHash a \<Rightarrow> pay payToWitnessScriptHashScript a
      | AddressTaproot a \<Rightarrow> pay payToWitnessTaprootScript a
      | AddressOther \<Rightarrow> ([], Some ErrUnsupportedAddress))"

definition NullDataScript :: "bytes \<Rightarrow> bytes \<times> ErrorCode option" where
  "NullDataScript data =
     (if length data > MaxDataCarrierSize then ([], Some ErrTooMuchNullData)
      else bld_Script (AddData data (AddOp OP_RETURN NewScriptBuilder)))"

text \<open>\<open>pubkeys\<close> are the keys' \<open>ScriptAddress\<close> bytes.\<close>

definition MultiSigScript :: "bytes list \<Rightarrow> int \<Rightarrow> (bytes \<times> ErrorCode option) res" where
  "MultiSigScript pubkeys nrequired =
     (if int (length pubkeys) < nrequired then Inr ([], Some ErrTooManyRequiredSigs)
      else rbind (AddInt64 nrequired NewScriptBuilder) (\<lambda>b.
        rbind (AddInt64 (int (length pubkeys)) (fold AddData pubkeys b)) (\<lambda>b.
          Inr (bld_Script (AddOp OP_CHECKMULTISIG b)))))"

section \<open>What a data push appends\<close>

text \<open>The instruction \<open>addData\<close> chooses, and the bytes a push instruction leaves on the stack.\<close>

definition push_instr :: "bytes \<Rightarrow> instr" where
  "push_instr data =
     (if length data = 0 \<or> data = [0] then (OP_0, [])
      else if length data = 1 \<and> data ! 0 \<le> 16 then (OP_1 - 1 + data ! 0, [])
      else if data = [0x81] then (OP_1NEGATE, [])
      else if length data < 76 then (of_nat (length data), data)
      else if length data \<le> 0xff then (OP_PUSHDATA1, data)
      else if length data \<le> 0xffff then (OP_PUSHDATA2, data)
      else (OP_PUSHDATA4, data))"

definition pushed_value :: "instr \<Rightarrow> bytes" where
  "pushed_value i =
     (if fst i = OP_1NEGATE then [0x81]
      else if OP_1 \<le> fst i \<and> fst i \<le> OP_16 then [fst i - (OP_1 - 1)]
      else snd i)"

lemma singleton_iff: "length d = 1 \<and> d ! 0 = x \<longleftrightarrow> d = [x]"
  by (cases d) auto

lemma small_data_op:
  assumes "b \<le> 16" "b \<noteq> (0 :: u8)"
  shows "unat (OP_1 - 1 + b) = 80 + unat b" "1 \<le> unat b" "unat b \<le> 16"
proof -
  show "1 \<le> unat b" using assms(2) by (simp add: Suc_le_eq unat_gt_0)
  show b: "unat b \<le> 16" using assms(1) by (simp add: word_le_nat_alt)
  then show "unat (OP_1 - 1 + b) = 80 + unat b" by (simp add: unat_plus_if_size word_size)
qed

lemma small_data_op_neq:
  assumes "b \<le> 16" "b \<noteq> (0 :: u8)" "unat c \<le> 80"
  shows "OP_1 - 1 + b \<noteq> c"
  using small_data_op [OF assms(1,2)] assms(3) by auto

lemma no_data_instr:
  assumes "unat op = 0 \<or> 79 \<le> unat op"
  shows "wf_instr (op, [])" "enc_instr (op, []) = [op]"
proof -
  have "\<not> (OP_DATA_1 \<le> op \<and> op \<le> OP_DATA_75)"
    using assms by (simp add: word_le_nat_alt) linarith
  moreover have "op \<noteq> OP_PUSHDATA1" "op \<noteq> OP_PUSHDATA2" "op \<noteq> OP_PUSHDATA4" using assms by auto
  ultimately show "wf_instr (op, [])" "enc_instr (op, []) = [op]"
    by (auto simp: wf_instr_def enc_instr_def len_width_def)
qed

lemma push_instr_cases:
  obtains (empty) "data = [] \<or> data = [0]" "push_instr data = (OP_0, [])"
  | (small) b where "data = [b]" "b \<le> 16" "b \<noteq> 0" "push_instr data = (OP_1 - 1 + b, [])"
  | (minus) "data = [0x81]" "push_instr data = (OP_1NEGATE, [])"
  | (direct) "1 \<le> length data" "length data < 76" "\<not> (length data = 1 \<and> (data ! 0 \<le> 16 \<or> data ! 0 = 0x81))"
      "push_instr data = (of_nat (length data), data)"
  | (one) "76 \<le> length data" "length data \<le> 0xff" "push_instr data = (OP_PUSHDATA1, data)"
  | (two) "0xff < length data" "length data \<le> 0xffff" "push_instr data = (OP_PUSHDATA2, data)"
  | (four) "0xffff < length data" "push_instr data = (OP_PUSHDATA4, data)"
proof (cases data)
  case Nil
  then show ?thesis using empty by (simp add: push_instr_def)
next
  case (Cons b bs)
  show ?thesis
  proof (cases bs)
    case Nil
    with Cons have d: "data = [b]" by simp
    consider "b = 0" | "b = 0x81" | "b \<noteq> 0" "b \<le> 16" | "b \<noteq> 0x81" "\<not> b \<le> 16" by blast
    then show ?thesis
    proof cases
      case 1
      then show ?thesis using empty d by (simp add: push_instr_def)
    next
      case 2
      then show ?thesis using minus d by (simp add: push_instr_def)
    next
      case 3
      then show ?thesis using small [OF d] d by (simp add: push_instr_def)
    next
      case 4
      then have "b \<noteq> 0" by auto
      then show ?thesis using direct d 4 by (simp add: push_instr_def)
    qed
  next
    case (Cons c cs)
    then have l: "2 \<le> length data" "data \<noteq> [0]" "data \<noteq> [0x81]" using \<open>data = b # bs\<close> by simp_all
    then have "push_instr data = (if length data < 76 then (of_nat (length data), data)
      else if length data \<le> 0xff then (OP_PUSHDATA1, data)
      else if length data \<le> 0xffff then (OP_PUSHDATA2, data) else (OP_PUSHDATA4, data))"
      by (simp add: push_instr_def)
    with l(1) show ?thesis using direct one two four
      by (cases "length data < 76"; cases "length data \<le> 0xff"; cases "length data \<le> 0xffff") simp_all
  qed
qed

lemma addData_push_instr: "addData data b = b\<lparr>bld_script := bld_script b @ enc_instr (push_instr data)\<rparr>"
proof (cases data rule: push_instr_cases)
  case (small x)
  then show ?thesis using no_data_instr(2) [of "OP_1 - 1 + x"] small_data_op [of x]
    by (simp add: addData_def Let_def)
next
  case direct
  then have "enc_instr (push_instr data) = of_nat (length data) # data"
    using data_push_instr(2) [of data] by simp
  moreover have "\<not> (length data = 0 \<or> length data = 1 \<and> data ! 0 = 0)" using direct by auto
  ultimately show ?thesis using direct(2,3)
    by (simp only: addData_def Let_def if_False) auto
next
  case two
  then show ?thesis by (auto simp add: addData_def Let_def enc_instr_def len_width_def)
next
  case four
  then show ?thesis by (auto simp add: addData_def Let_def enc_instr_def len_width_def)
qed (auto simp: addData_def Let_def enc_instr_def len_width_def)

lemma push_instr_wf:
  assumes "length data < 2 ^ 31"
  shows "wf_instr (push_instr data)"
proof (cases data rule: push_instr_cases)
  case (small x)
  then show ?thesis using no_data_instr(1) [of "OP_1 - 1 + x"] small_data_op [of x] by simp
next
  case direct
  then show ?thesis using data_push_instr(1) [of data] by simp
qed (use assms in \<open>auto simp: wf_instr_def\<close>)

lemma push_instr_size: "length (enc_instr (push_instr data)) = canonicalDataSize data"
proof (cases data rule: push_instr_cases)
  case (small x)
  then show ?thesis using no_data_instr(2) [of "OP_1 - 1 + x"] small_data_op [of x]
    by (simp add: canonicalDataSize_def Let_def)
next
  case direct
  then have "enc_instr (push_instr data) = of_nat (length data) # data"
    using data_push_instr(2) [of data] by simp
  then show ?thesis using direct by (auto simp: canonicalDataSize_def Let_def)
qed (auto simp: canonicalDataSize_def Let_def enc_instr_def len_width_def)

lemma push_instr_value: "pushed_value (push_instr data) = (if data = [0] then [] else data)"
proof (cases data rule: push_instr_cases)
  case (small x)
  note u = small_data_op [OF small(2,3)]
  have "OP_1 - 1 + x \<noteq> OP_1NEGATE" using small(2,3) by (rule small_data_op_neq) simp
  moreover have "OP_1 \<le> OP_1 - 1 + x" "OP_1 - 1 + x \<le> OP_16"
    using u by (simp_all only: word_le_nat_alt) simp_all
  ultimately show ?thesis using small by (simp add: pushed_value_def)
next
  case direct
  have "of_nat (length data) \<noteq> OP_1NEGATE" "\<not> OP_1 \<le> (of_nat (length data) :: u8)" "data \<noteq> [0]"
    using direct data_push_op(3) [of "length data"] by (auto simp: word_le_nat_alt)
  then show ?thesis using direct(4) by (simp add: pushed_value_def)
qed (auto simp: pushed_value_def)

lemma push_instr_canonical: "isCanonicalPush (fst (push_instr data)) (snd (push_instr data))"
proof (cases data rule: push_instr_cases)
  case (small x)
  note ne = small_data_op_neq [OF small(2,3)]
  have "OP_1 - 1 + x \<noteq> OP_PUSHDATA1" "OP_1 - 1 + x \<noteq> OP_PUSHDATA2" "OP_1 - 1 + x \<noteq> OP_PUSHDATA4"
    by (rule ne, simp)+
  then show ?thesis using small(4) by (simp add: isCanonicalPush_def Let_def)
next
  case direct
  then show ?thesis using data_push_op [of "length data"]
    by (auto simp: isCanonicalPush_def Let_def)
qed (auto simp: isCanonicalPush_def Let_def)

lemma script_instrs_snoc:
  assumes "script_err script = None" "wf_instr i"
  shows "script_instrs (script @ enc_instr i) = script_instrs script @ [i]" "script_err (script @ enc_instr i) = None"
proof -
  have e: "script @ enc_instr i = concat (map enc_instr (script_instrs script @ [i]))"
    using script_parse(1) [OF assms(1)] by simp
  have "\<forall>j\<in>set (script_instrs script @ [i]). wf_instr j" using script_parse(2) [OF assms(1)] assms(2) by auto
  from script_instrs_enc [OF this]
  show "script_instrs (script @ enc_instr i) = script_instrs script @ [i]" "script_err (script @ enc_instr i) = None"
    by (simp_all only: e)
qed

lemma AddData_ok:
  assumes "bld_err b = None" "bld_err (AddData data b) = None"
  shows "bld_script (AddData data b) = bld_script b @ enc_instr (push_instr data)" "length data \<le> 520"
    "length (bld_script (AddData data b)) \<le> MaxScriptSize"
proof -
  have c: "length (bld_script b) + canonicalDataSize data \<le> MaxScriptSize" "length data \<le> MaxScriptElementSize"
    using assms by (auto simp: AddData_def split: if_splits)
  then show "bld_script (AddData data b) = bld_script b @ enc_instr (push_instr data)" "length data \<le> 520"
    "length (bld_script (AddData data b)) \<le> MaxScriptSize"
    using assms(1) by (auto simp: AddData_def addData_push_instr push_instr_size MaxScriptElementSize_def)
qed

text \<open>A direct push of 2 to 75 bytes onto a short script succeeds.\<close>

lemma AddData_direct:
  assumes "bld_err b = None" "2 \<le> length d" "length d \<le> 75" "length (bld_script b) \<le> 9000"
  shows "AddData d b = b\<lparr>bld_script := bld_script b @ of_nat (length d) # d\<rparr>"
proof (cases d rule: push_instr_cases)
  case direct
  then have "enc_instr (push_instr d) = of_nat (length d) # d" using data_push_instr(2) [of d] by simp
  then show ?thesis using assms push_instr_size [of d]
    by (auto simp: AddData_def addData_push_instr MaxScriptSize_def MaxScriptElementSize_def)
qed (use assms in auto)

lemma AddOp_ok:
  "bld_err b = None \<Longrightarrow> length (bld_script b) < 10000 \<Longrightarrow> AddOp op b = b\<lparr>bld_script := bld_script b @ [op]\<rparr>"
  by (simp add: AddOp_def MaxScriptSize_def)

lemma NewScriptBuilder_simps [simp]: "bld_script NewScriptBuilder = []" "bld_err NewScriptBuilder = None"
  by (simp_all add: NewScriptBuilder_def)

section \<open>Properties\<close>

text \<open>Adding data to a script under construction that parses appends exactly one instruction,
  which is a canonical push of that data, within the script size limit; the one exception is the
  single byte 0, for which the empty string is pushed.\<close>

theorem AddData_appends_push:
  assumes "bld_err b = None" "script_err (bld_script b) = None" "bld_err (AddData data b) = None"
  shows "\<exists>i. script_instrs (bld_script (AddData data b)) = script_instrs (bld_script b) @ [i]
      \<and> script_err (bld_script (AddData data b)) = None
      \<and> pushed_value i = (if data = [0] then [] else data)
      \<and> isCanonicalPush (fst i) (snd i)
      \<and> length (bld_script (AddData data b)) \<le> MaxScriptSize"
proof -
  note ok = AddData_ok [OF assms(1,3)]
  have "length data < 2 ^ 31" using ok(2) by simp
  from script_instrs_snoc [OF assms(2) push_instr_wf [OF this]]
  show ?thesis using ok(1,3) push_instr_value push_instr_canonical by metis
qed

lemma script_err_Nil: "script_err [] = None"
  using script_instrs_enc(2) [of "[]"] by simp

theorem AddData_appends_push_witness:
  "\<exists>i. script_instrs (bld_script (AddData [7, 7, 7] NewScriptBuilder)) = [i] \<and> pushed_value i = [7, 7, 7]"
proof -
  have "bld_err (AddData [7, 7, 7] NewScriptBuilder) = None"
    by (simp add: AddData_direct)
  from AddData_appends_push [OF _ _ this] show ?thesis by (auto simp: script_err_Nil)
qed

text \<open>Every payment script made for a well-formed hash or key is built without error and the
  extraction routine of its class returns the hash or key it was made for.\<close>

theorem payment_scripts_roundtrip:
  assumes "length h20 = 20" "length h32 = 32" "length key = 33" "key ! 0 = 0x02 \<or> key ! 0 = 0x03"
  shows "\<exists>s1 s2 s3 s4 s5 s6.
      PayToAddrScript (AddressPubKeyHash (Some h20)) = (s1, None) \<and> extractPubKeyHash s1 = Some h20 \<and>
      PayToAddrScript (AddressScriptHash (Some h20)) = (s2, None) \<and> extractScriptHash s2 = Some h20 \<and>
      PayToAddrScript (AddressPubKey (Some key)) = (s3, None) \<and> extractPubKey s3 = Some key \<and>
      PayToAddrScript (AddressWitnessPubKeyHash (Some h20)) = (s4, None) \<and> extractWitnessPubKeyHash s4 = Some h20 \<and>
      PayToAddrScript (AddressWitnessScriptHash (Some h32)) = (s5, None) \<and> extractWitnessV0ScriptHash s5 = Some h32 \<and>
      PayToAddrScript (AddressTaproot (Some h32)) = (s6, None) \<and> extractWitnessV1KeyBytes s6 = Some h32"
proof -
  note defs = PayToAddrScript_def Let_def bld_Script_def AddOp_ok AddData_direct
  have 1: "PayToAddrScript (AddressPubKeyHash (Some h20)) = ([OP_DUP, OP_HASH160, 20] @ h20 @ [OP_EQUALVERIFY, OP_CHECKSIG], None)"
    using assms(1) by (simp add: defs payToPubKeyHashScript_def)
  have 2: "PayToAddrScript (AddressScriptHash (Some h20)) = ([OP_HASH160, 20] @ h20 @ [OP_EQUAL], None)"
    using assms(1) by (simp add: defs payToScriptHashScript_def)
  have 3: "PayToAddrScript (AddressPubKey (Some key)) = (33 # key @ [OP_CHECKSIG], None)"
    using assms(3) by (simp add: defs payToPubKeyScript_def)
  have 4: "PayToAddrScript (AddressWitnessPubKeyHash (Some h20)) = (OP_0 # 20 # h20, None)"
    using assms(1) by (simp add: defs payToWitnessPubKeyHashScript_def)
  have 5: "PayToAddrScript (AddressWitnessScriptHash (Some h32)) = (OP_0 # 32 # h32, None)"
    using assms(2) by (simp add: defs payToWitnessScriptHashScript_def)
  have 6: "PayToAddrScript (AddressTaproot (Some h32)) = (OP_1 # 32 # h32, None)"
    using assms(2) by (simp add: defs payToWitnessTaprootScript_def)
  have "extractPubKey (33 # key @ [OP_CHECKSIG]) = Some key"
    using assms(3,4) by (auto simp: extractPubKey_def extractCompressedPubKey_def nth_append)
  with 1 2 3 4 5 6 show ?thesis using assms(1,2)
    by (auto simp: extractPubKeyHash_def extractScriptHash_def extractWitnessPubKeyHash_def
        extractWitnessV0ScriptHash_def extractWitnessV1KeyBytes_def nth_append)
qed

theorem payment_scripts_roundtrip_witness:
  "\<exists>s. PayToAddrScript (AddressPubKeyHash (Some (replicate 20 7))) = (s, None)
       \<and> extractPubKeyHash s = Some (replicate 20 7)"
  using payment_scripts_roundtrip [of "replicate 20 7" "replicate 32 9" "2 # replicate 32 5"]
  by auto

section \<open>Null data and multisig scripts\<close>

lemma Next_last:
  assumes "wf_instr i"
  obtains t where "Next (MakeScriptTokenizer 0 (enc_instr i)) = (True, t)" "tok_op t = fst i"
    "tok_data t = snd i" "tok_Done t"
  using Next_complete [OF assms, of "MakeScriptTokenizer 0 (enc_instr i)" "[]"]
  by (auto simp: tok_Done_def)

lemma push_instr_null_op:
  "(IsSmallInt (fst (push_instr data)) \<or> fst (push_instr data) \<le> OP_PUSHDATA4) \<longleftrightarrow> data \<noteq> [0x81]"
proof (cases data rule: push_instr_cases)
  case (small x)
  note u = small_data_op [OF small(2,3)]
  have "OP_1 \<le> OP_1 - 1 + x" "OP_1 - 1 + x \<le> OP_16" using u by (simp_all only: word_le_nat_alt) simp_all
  then show ?thesis using small by (auto simp: IsSmallInt_def)
next
  case direct
  then have "of_nat (length data) \<le> OP_PUSHDATA4"
    using data_push_op(3) [of "length data"] by (simp add: word_le_nat_alt)
  then show ?thesis using direct by auto
qed (auto simp: IsSmallInt_def)

lemma push_instr_snd_length: "length (snd (push_instr data)) \<le> length data"
  by (cases data rule: push_instr_cases) auto

lemma NullDataScript_eq:
  assumes "length data \<le> 80"
  shows "NullDataScript data = (OP_RETURN # enc_instr (push_instr data), None)"
  using assms push_instr_size [of data]
  by (auto simp: NullDataScript_def MaxDataCarrierSize_def AddOp_ok AddData_def addData_push_instr
      bld_Script_def MaxScriptSize_def MaxScriptElementSize_def canonicalDataSize_def Let_def)

definition small_op :: "nat \<Rightarrow> u8" where
  "small_op n = (if n = 0 then OP_0 else of_nat (80 + n))"

lemma small_op_unat: "n \<le> 16 \<Longrightarrow> unat (small_op n) = (if n = 0 then 0 else 80 + n)"
  by (simp only: small_op_def unat_of_nat_u8 split: if_split) auto

lemma small_op_small:
  assumes "n \<le> 16"
  shows "IsSmallInt (small_op n)" "AsSmallInt (small_op n) = n"
proof -
  note u = small_op_unat [OF assms]
  show "IsSmallInt (small_op n)"
  proof (cases "n = 0")
    case False
    then show ?thesis using u assms by (simp add: IsSmallInt_def word_le_nat_alt)
  qed (simp add: small_op_def IsSmallInt_def)
  show "AsSmallInt (small_op n) = n"
  proof (cases "n = 0")
    case False
    then have "small_op n \<noteq> 0" using u by (metis add_is_0 unat_0 zero_neq_numeral)
    then show ?thesis using u False assms
      by (simp add: AsSmallInt_def unat_sub_if_size word_le_nat_alt)
  qed (simp add: small_op_def AsSmallInt_def)
qed

lemma AddInt64_small:
  assumes "n \<le> 16" "bld_err b = None" "length (bld_script b) < 10000"
  shows "AddInt64 (int n) b = Inr (b\<lparr>bld_script := bld_script b @ [small_op n]\<rparr>)"
proof (cases "n = 0")
  case True
  then show ?thesis using assms by (simp add: AddInt64_def small_op_def MaxScriptSize_def)
next
  case False
  then have "(word_of_int (uint (OP_1 - 1) + int n) :: u8) = small_op n" by (simp add: small_op_def)
  then show ?thesis using assms False by (simp add: AddInt64_def MaxScriptSize_def)
qed

lemma strict_key:
  assumes "isStrictPubKeyEncoding k"
  shows "push_instr k = (of_nat (length k), k)" "2 \<le> length k" "length k \<le> 65"
    "\<not> IsSmallInt (fst (push_instr k))" "enc_instr (push_instr k) = of_nat (length k) # k"
    "wf_instr (push_instr k)"
proof -
  show l: "2 \<le> length k" "length k \<le> 65" using assms by (auto simp: isStrictPubKeyEncoding_def)
  then show p: "push_instr k = (of_nat (length k), k)" by (cases k rule: push_instr_cases) auto
  show "\<not> IsSmallInt (fst (push_instr k))"
    using small_int_unat [of "of_nat (length k)"] data_push_op(3) [of "length k"] l p by auto
  show "enc_instr (push_instr k) = of_nat (length k) # k" "wf_instr (push_instr k)"
    using data_push_instr [of k] l p by simp_all
qed

lemma fold_AddData_keys:
  assumes "bld_err b = None" "\<forall>k\<in>set keys. isStrictPubKeyEncoding k"
    "length (bld_script b) + 66 * length keys \<le> 9000"
  shows "fold AddData keys b = b\<lparr>bld_script := bld_script b @ concat (map (\<lambda>k. enc_instr (push_instr k)) keys)\<rparr>
    \<and> length (concat (map (\<lambda>k. enc_instr (push_instr k)) keys)) \<le> 66 * length keys"
  using assms
proof (induction keys arbitrary: b)
  case (Cons k keys)
  have k: "isStrictPubKeyEncoding k" using Cons.prems(2) by simp
  note sk = strict_key [OF k]
  let ?b = "b\<lparr>bld_script := bld_script b @ of_nat (length k) # k\<rparr>"
  have a: "AddData k b = ?b" using AddData_direct [of b k] sk(2,3) Cons.prems by simp
  have "fold AddData keys ?b = ?b\<lparr>bld_script := bld_script ?b @ concat (map (\<lambda>k. enc_instr (push_instr k)) keys)\<rparr>
    \<and> length (concat (map (\<lambda>k. enc_instr (push_instr k)) keys)) \<le> 66 * length keys"
    using Cons.prems sk(3) by (intro Cons.IH) auto
  then show ?case using a sk(3,5) by simp
qed simp

lemma multisig_keys_walk:
  assumes "\<forall>k\<in>set keys. isStrictPubKeyEncoding k" "IsSmallInt opN" "tok_err t = None"
    and "drop (tok_offset t) (tok_script t) = concat (map (\<lambda>k. enc_instr (push_instr k)) keys) @ opN # r"
  shows "\<exists>t'. multisig_keys True (snd (tokens t)) (fst (tokens t)) n acc = (t', n + length keys, acc @ keys)
    \<and> tok_op t' = opN \<and> tok_err t' = None \<and> tok_script t' = tok_script t
    \<and> drop (tok_offset t') (tok_script t) = r"
  using assms
proof (induction keys arbitrary: t n acc)
  case Nil
  note w = wf_small_int [OF Nil.prems(2)]
  let ?t = "t\<lparr>tok_opcodePos := tok_opcodePos t + 1, tok_offset := tok_offset t + 1, tok_op := opN, tok_data := []\<rparr>"
  have "Next t = (True, ?t)" using Next_complete [of "(opN, [])" t r] Nil.prems w by simp
  moreover have "drop (1 + tok_offset t) (tok_script t) = r"
    using Nil.prems(4) by (simp only: drop_drop [symmetric]) simp
  ultimately show ?case using Nil.prems by (simp add: tokens_True add.commute)
next
  case (Cons k keys)
  have k: "isStrictPubKeyEncoding k" using Cons.prems(1) by simp
  note sk = strict_key [OF k]
  let ?t = "t\<lparr>tok_opcodePos := tok_opcodePos t + 1,
      tok_offset := tok_offset t + length (enc_instr (push_instr k)), tok_op := fst (push_instr k), tok_data := k\<rparr>"
  have nx: "Next t = (True, ?t)"
    using Next_complete [OF sk(6), of t "concat (map (\<lambda>k. enc_instr (push_instr k)) keys) @ opN # r"]
      Cons.prems(3,4) sk(1) by simp
  have "drop (length (enc_instr (push_instr k)) + tok_offset t) (tok_script t)
      = concat (map (\<lambda>k. enc_instr (push_instr k)) keys) @ opN # r"
    using Cons.prems(4) by (simp only: drop_drop [symmetric]) simp
  then have "\<exists>t'. multisig_keys True (snd (tokens ?t)) (fst (tokens ?t)) (n + 1) (acc @ [k]) = (t', n + 1 + length keys, (acc @ [k]) @ keys)
    \<and> tok_op t' = opN \<and> tok_err t' = None \<and> tok_script t' = tok_script ?t
    \<and> drop (tok_offset t') (tok_script ?t) = r"
    using Cons.prems by (intro Cons.IH) (auto simp: add.commute)
  then show ?case using sk(4) k by (simp add: tokens_True [OF nx])
qed

text \<open>A null data script is built for every payload of at most 80 bytes, and the recogniser accepts it
  unless the payload is the single byte 0x81, which is pushed with \<open>OP_1NEGATE\<close>, an opcode the
  recogniser does not admit.\<close>

theorem NullDataScript_recognised_iff:
  assumes "length data \<le> 80"
  shows "snd (NullDataScript data) = None \<and> (isNullDataScript 0 (fst (NullDataScript data)) \<longleftrightarrow> data \<noteq> [0x81])"
proof -
  have wf: "wf_instr (push_instr data)" using assms by (intro push_instr_wf) simp
  obtain t where t: "Next (MakeScriptTokenizer 0 (enc_instr (push_instr data))) = (True, t)"
    "tok_op t = fst (push_instr data)" "tok_data t = snd (push_instr data)" "tok_Done t"
    using Next_last [OF wf] .
  have "enc_instr (push_instr data) \<noteq> []" by (simp add: enc_instr_def)
  moreover have "length (tok_data t) \<le> MaxDataCarrierSize"
    using t(3) push_instr_snd_length [of data] assms by (simp add: MaxDataCarrierSize_def)
  ultimately show ?thesis
    using push_instr_null_op [of data] t
    by (simp add: NullDataScript_eq [OF assms] isNullDataScript_def)
qed

theorem NullDataScript_recognised_iff_witness:
  "snd (NullDataScript [1, 2]) = None \<and> isNullDataScript 0 (fst (NullDataScript [1, 2]))
   \<and> \<not> isNullDataScript 0 (fst (NullDataScript [0x81]))"
  using NullDataScript_recognised_iff [of "[1, 2]"] NullDataScript_recognised_iff [of "[0x81]"] by simp

text \<open>The multisig script for at most 16 strictly encoded keys, any number of them required, is
  built without error, and extraction returns the number required, the number of keys and the keys.\<close>

theorem multisig_roundtrip:
  assumes "\<forall>k\<in>set keys. isStrictPubKeyEncoding k" "n \<le> length keys" "length keys \<le> 16"
  shows "\<exists>s. MultiSigScript keys (int n) = Inr (s, None) \<and>
    extractMultisigScriptDetails 0 s True
      = \<lparr>requiredSigs = n, numPubKeys = length keys, pubKeys = keys, msd_valid = True\<rparr>"
proof -
  let ?body = "concat (map (\<lambda>k. enc_instr (push_instr k)) keys)"
  let ?rest = "?body @ small_op (length keys) # [OP_CHECKMULTISIG]"
  let ?s = "small_op n # ?rest"
  have f: "fold AddData keys (NewScriptBuilder\<lparr>bld_script := [small_op n]\<rparr>)
      = NewScriptBuilder\<lparr>bld_script := small_op n # ?body\<rparr>" and l: "length ?body \<le> 66 * length keys"
    using fold_AddData_keys [of "NewScriptBuilder\<lparr>bld_script := [small_op n]\<rparr>" keys] assms by simp_all
  have b: "MultiSigScript keys (int n) = Inr (?s, None)"
    using assms(2,3) l by (simp add: MultiSigScript_def AddInt64_small f AddOp_ok bld_Script_def)
  note w = wf_small_int [OF small_op_small(1) [of n]]
  let ?t0 = "MakeScriptTokenizer 0 ?s"
  define t1 where "t1 = ?t0\<lparr>tok_opcodePos := tok_opcodePos ?t0 + 1, tok_offset := 1, tok_op := small_op n, tok_data := []\<rparr>"
  have n1: "Next ?t0 = (True, t1)"
    using Next_complete [of "(small_op n, [])" ?t0 ?rest] w assms by (simp add: t1_def)
  obtain t2 where t2: "multisig_keys True (snd (tokens t1)) (fst (tokens t1)) 0 [] = (t2, length keys, keys)"
      "tok_op t2 = small_op (length keys)" "tok_err t2 = None" "tok_script t2 = ?s"
      "drop (tok_offset t2) ?s = [OP_CHECKMULTISIG]"
    using multisig_keys_walk [OF assms(1) small_op_small(1) [of "length keys"], of t1 "[OP_CHECKMULTISIG]" 0 "[]"] assms(3)
    by (auto simp: t1_def)
  have off: "length ?s - tok_offset t2 = 1" using arg_cong [OF t2(5), of length] by (simp only: length_drop) simp
  have "extractMultisigScriptDetails 0 ?s True
      = \<lparr>requiredSigs = n, numPubKeys = length keys, pubKeys = keys, msd_valid = True\<rparr>"
    using off assms small_op_small [of n] small_op_small [of "length keys"] t2
    by (simp add: extractMultisigScriptDetails_def n1 tok_Done_def split_beta) (simp add: t1_def)
  with b show ?thesis by blast
qed

theorem multisig_roundtrip_witness:
  "\<exists>s. MultiSigScript [2 # replicate 32 7, 3 # replicate 32 8] 1 = Inr (s, None) \<and>
    extractMultisigScriptDetails 0 s True
      = \<lparr>requiredSigs = 1, numPubKeys = 2, pubKeys = [2 # replicate 32 7, 3 # replicate 32 8], msd_valid = True\<rparr>"
  using multisig_roundtrip [of "[2 # replicate 32 7, 3 # replicate 32 8]" 1]
  by (simp add: isStrictPubKeyEncoding_def numeral_2_eq_2)

text \<open>The multisig recogniser does not check that what stands between the two numbers are public
  keys, or even pushes: a script with \<open>OP_CHECKSIG\<close> in a key's place is classified as multisig.\<close>

theorem multisig_accepts_non_keys:
  "typeOfScript 0 [OP_1, OP_CHECKSIG, OP_1, OP_CHECKMULTISIG] = MultiSigTy"
  by code_simp

text \<open>\<open>CalcScriptInfo\<close> panics on a pay-to-script-hash output with an empty signature script once
  segwit is active.\<close>

theorem CalcScriptInfo_empty_sigScript_panics:
  "CalcScriptInfo [] (OP_HASH160 # OP_DATA_20 # replicate 20 7 @ [OP_EQUAL]) [] True True = Inl GoPanic"
  by code_simp

end
