(* ===== verification/Wire_Tx.thy ===== *)
theory Wire_Tx
  imports Squid_Prelude
begin

text \<open>
  Transactions and their wire encoding (\<open>wire/msgtx.go\<close> and the variable-length integers of
  \<open>wire/common.go\<close>). A reader is a function from the remaining input to a value and the input
  left; the 4 MiB slab that scripts are read into is modelled by the room left in it, because
  slicing it beyond its end panics.
\<close>

section \<open>Data\<close>

type_synonym u16 = "16 word"
type_synonym u32 = "32 word"
type_synonym u64 = "64 word"

record OutPoint =
  op_Hash :: bytes
  op_Index :: u32

record TxIn =
  PreviousOutPoint :: OutPoint
  SignatureScript :: bytes
  Witness :: "bytes list"
  Sequence :: u32

record TxOut =
  Value :: u64
  PkScript :: bytes

record MsgTx =
  Version :: u32
  MsgTxIn :: "TxIn list"
  MsgTxOut :: "TxOut list"
  LockTime :: u32

text \<open>\<open>WirePanic\<close> is the outcome of a slice expression out of range.\<close>

datatype WireError = UnexpectedEOF | MessageError | SuperfluousWitnessRecord | WirePanic

type_synonym 'a wres = "WireError + 'a"

definition MaxMessagePayload :: nat where "MaxMessagePayload = 1024 * 1024 * 32"
definition minTxInPayload :: nat where "minTxInPayload = 9 + 32"
definition maxTxInPerMessage :: nat where "maxTxInPerMessage = MaxMessagePayload div minTxInPayload + 1"
definition MinTxOutPayload :: nat where "MinTxOutPayload = 9"
definition maxTxOutPerMessage :: nat where "maxTxOutPerMessage = MaxMessagePayload div MinTxOutPayload + 1"
definition maxWitnessItemsPerInput :: nat where "maxWitnessItemsPerInput = 4000000"
definition maxWitnessItemSize :: nat where "maxWitnessItemSize = 4000000"
definition scriptSlabSize :: nat where "scriptSlabSize = 2 ^ 22"

definition NewMsgTx :: "u32 \<Rightarrow> MsgTx" where
  "NewMsgTx version = \<lparr>Version = version, MsgTxIn = [], MsgTxOut = [], LockTime = 0\<rparr>"

definition AddTxIn :: "TxIn \<Rightarrow> MsgTx \<Rightarrow> MsgTx" where
  "AddTxIn ti msg = msg\<lparr>MsgTxIn := MsgTxIn msg @ [ti]\<rparr>"

definition AddTxOut :: "TxOut \<Rightarrow> MsgTx \<Rightarrow> MsgTx" where
  "AddTxOut to msg = msg\<lparr>MsgTxOut := MsgTxOut msg @ [to]\<rparr>"

definition HasWitness :: "MsgTx \<Rightarrow> bool" where
  "HasWitness msg \<longleftrightarrow> list_ex (\<lambda>txIn. Witness txIn \<noteq> []) (MsgTxIn msg)"

section \<open>Primitive readers and writers\<close>

text \<open>\<open>io.ReadFull(r, buf[:n])\<close>.\<close>

definition ReadFull :: "nat \<Rightarrow> bytes \<Rightarrow> (bytes \<times> bytes) wres" where
  "ReadFull n r = (if length r < n then Inl UnexpectedEOF else Inr (take n r, drop n r))"

definition WriteVarInt :: "nat \<Rightarrow> bytes" where
  "WriteVarInt val =
     (if val < 0xfd then [of_nat val]
      else if val \<le> 0xffff then 0xfd # le_bytes 2 val
      else if val \<le> 0xffffffff then 0xfe # le_bytes 4 val
      else 0xff # le_bytes 8 val)"

definition ReadVarInt :: "bytes \<Rightarrow> (nat \<times> bytes) wres" where
  "ReadVarInt r =
     rbind (ReadFull 1 r) (\<lambda>(b, r).
       let discriminant = b ! 0 in
       if discriminant = 0xff then
         rbind (ReadFull 8 r) (\<lambda>(b, r).
           if le_val b < 0x100000000 then Inl MessageError else Inr (le_val b, r))
       else if discriminant = 0xfe then
         rbind (ReadFull 4 r) (\<lambda>(b, r).
           if le_val b < 0x10000 then Inl MessageError else Inr (le_val b, r))
       else if discriminant = 0xfd then
         rbind (ReadFull 2 r) (\<lambda>(b, r).
           if le_val b < 0xfd then Inl MessageError else Inr (le_val b, r))
       else Inr (unat discriminant, r))"

definition VarIntSerializeSize :: "nat \<Rightarrow> nat" where
  "VarIntSerializeSize val =
     (if val < 0xfd then 1 else if val \<le> 0xffff then 3 else if val \<le> 0xffffffff then 5 else 9)"

definition WriteVarBytes :: "bytes \<Rightarrow> bytes" where
  "WriteVarBytes bs = WriteVarInt (length bs) @ bs"

definition ReadUint32 :: "bytes \<Rightarrow> (u32 \<times> bytes) wres" where
  "ReadUint32 r = rbind (ReadFull 4 r) (\<lambda>(b, r). Inr (of_nat (le_val b), r))"

definition ReadUint64 :: "bytes \<Rightarrow> (u64 \<times> bytes) wres" where
  "ReadUint64 r = rbind (ReadFull 8 r) (\<lambda>(b, r). Inr (of_nat (le_val b), r))"

section \<open>Parts of a transaction\<close>

definition writeOutPointBuf :: "OutPoint \<Rightarrow> bytes" where
  "writeOutPointBuf op = op_Hash op @ le_bytes 4 (unat (op_Index op))"

definition readOutPointBuf :: "bytes \<Rightarrow> (OutPoint \<times> bytes) wres" where
  "readOutPointBuf r =
     rbind (ReadFull 32 r) (\<lambda>(h, r). rbind (ReadUint32 r) (\<lambda>(i, r).
       Inr (\<lparr>op_Hash = h, op_Index = i\<rparr>, r)))"

text \<open>
  \<open>readScriptBuf\<close>; \<open>room\<close> is the capacity left in the slab, and the slice expression \<open>s[:count]\<close>
  is evaluated before anything is read.
\<close>

definition readScriptBuf :: "nat \<Rightarrow> bytes \<Rightarrow> (bytes \<times> bytes) wres" where
  "readScriptBuf room r =
     rbind (ReadVarInt r) (\<lambda>(count, r).
       if count > maxWitnessItemSize then Inl MessageError
       else if count > room then Inl WirePanic
       else ReadFull count r)"

definition writeTxInBuf :: "TxIn \<Rightarrow> bytes" where
  "writeTxInBuf ti =
     writeOutPointBuf (PreviousOutPoint ti) @ WriteVarBytes (SignatureScript ti) @ le_bytes 4 (unat (Sequence ti))"

definition readTxInBuf :: "nat \<Rightarrow> bytes \<Rightarrow> (TxIn \<times> bytes) wres" where
  "readTxInBuf room r =
     rbind (readOutPointBuf r) (\<lambda>(op, r). rbind (readScriptBuf room r) (\<lambda>(s, r).
       rbind (ReadUint32 r) (\<lambda>(q, r).
         Inr (\<lparr>PreviousOutPoint = op, SignatureScript = s, Witness = [], Sequence = q\<rparr>, r))))"

definition WriteTxOutBuf :: "TxOut \<Rightarrow> bytes" where
  "WriteTxOutBuf to = le_bytes 8 (unat (Value to)) @ WriteVarBytes (PkScript to)"

definition readTxOutBuf :: "nat \<Rightarrow> bytes \<Rightarrow> (TxOut \<times> bytes) wres" where
  "readTxOutBuf room r =
     rbind (ReadUint64 r) (\<lambda>(v, r). rbind (readScriptBuf room r) (\<lambda>(s, r).
       Inr (\<lparr>Value = v, PkScript = s\<rparr>, r)))"

definition writeTxWitnessBuf :: "bytes list \<Rightarrow> bytes" where
  "writeTxWitnessBuf wit = WriteVarInt (length wit) @ concat (map WriteVarBytes wit)"

text \<open>
  The counted reading loops of \<open>btcDecode\<close>: read an element, then advance the slab by the
  script bytes it took.
\<close>

fun read_list :: "(nat \<Rightarrow> bytes \<Rightarrow> ('a \<times> bytes) wres) \<Rightarrow> ('a \<Rightarrow> nat) \<Rightarrow> nat \<Rightarrow> nat \<Rightarrow> bytes
    \<Rightarrow> ('a list \<times> nat \<times> bytes) wres" where
  "read_list rd sz 0 room r = Inr ([], room, r)"
| "read_list rd sz (Suc n) room r =
     rbind (rd room r) (\<lambda>(x, r). rbind (read_list rd sz n (room - sz x) r) (\<lambda>(xs, room, r).
       Inr (x # xs, room, r)))"

text \<open>The witness stack of one input.\<close>

definition readTxWitness :: "nat \<Rightarrow> bytes \<Rightarrow> (bytes list \<times> nat \<times> bytes) wres" where
  "readTxWitness room r =
     rbind (ReadVarInt r) (\<lambda>(witCount, r).
       if witCount > maxWitnessItemsPerInput then Inl MessageError
       else read_list readScriptBuf length witCount room r)"

text \<open>The loop over the inputs that reads their witnesses.\<close>

fun read_witnesses :: "TxIn list \<Rightarrow> nat \<Rightarrow> bytes \<Rightarrow> (TxIn list \<times> nat \<times> bytes) wres" where
  "read_witnesses [] room r = Inr ([], room, r)"
| "read_witnesses (ti # tis) room r =
     rbind (readTxWitness room r) (\<lambda>(w, room, r).
       rbind (read_witnesses tis room r) (\<lambda>(tis, room, r). Inr (ti\<lparr>Witness := w\<rparr> # tis, room, r)))"

section \<open>Whole transactions\<close>

datatype MessageEncoding = BaseEncoding | WitnessEncoding

definition btcEncode :: "MessageEncoding \<Rightarrow> MsgTx \<Rightarrow> bytes" where
  "btcEncode enc msg =
     (let doWitness = (enc = WitnessEncoding \<and> HasWitness msg) in
      le_bytes 4 (unat (Version msg))
      @ (if doWitness then [0x00, 0x01] else [])
      @ WriteVarInt (length (MsgTxIn msg)) @ concat (map writeTxInBuf (MsgTxIn msg))
      @ WriteVarInt (length (MsgTxOut msg)) @ concat (map WriteTxOutBuf (MsgTxOut msg))
      @ (if doWitness then concat (map (\<lambda>ti. writeTxWitnessBuf (Witness ti)) (MsgTxIn msg)) else [])
      @ le_bytes 4 (unat (LockTime msg)))"

text \<open>
  The head of \<open>btcDecode\<close> after the version: the input count, and whether the witness flag was
  present.
\<close>

definition read_flag_count :: "MessageEncoding \<Rightarrow> bytes \<Rightarrow> (bool \<times> nat \<times> bytes) wres" where
  "read_flag_count enc r =
     rbind (ReadVarInt r) (\<lambda>(count, r).
       if count = 0 \<and> enc = WitnessEncoding then
         rbind (ReadFull 1 r) (\<lambda>(flag, r).
           if flag ! 0 \<noteq> 0x01 then Inl MessageError
           else rbind (ReadVarInt r) (\<lambda>(count, r). Inr (True, count, r)))
       else Inr (False, count, r))"

text \<open>The witness section, present when the flag was.\<close>

definition read_flagged_witnesses :: "bool \<Rightarrow> TxIn list \<Rightarrow> nat \<Rightarrow> bytes \<Rightarrow> (TxIn list \<times> bytes) wres" where
  "read_flagged_witnesses flag tis room r =
     (if flag then
        rbind (read_witnesses tis room r) (\<lambda>(tis, room, r).
          if \<not> list_ex (\<lambda>ti. Witness ti \<noteq> []) tis then Inl SuperfluousWitnessRecord
          else Inr (tis, r))
      else Inr (tis, r))"

definition btcDecode :: "MessageEncoding \<Rightarrow> bytes \<Rightarrow> (MsgTx \<times> bytes) wres" where
  "btcDecode enc r =
     rbind (ReadUint32 r) (\<lambda>(version, r).
     rbind (read_flag_count enc r) (\<lambda>(flag, count, r).
     if count > maxTxInPerMessage then Inl MessageError
     else rbind (read_list readTxInBuf (\<lambda>ti. length (SignatureScript ti)) count scriptSlabSize r) (\<lambda>(tis, room, r).
     rbind (ReadVarInt r) (\<lambda>(count, r).
     if count > maxTxOutPerMessage then Inl MessageError
     else rbind (read_list readTxOutBuf (\<lambda>to. length (PkScript to)) count room r) (\<lambda>(tos, room, r).
     rbind (read_flagged_witnesses flag tis room r) (\<lambda>(tis, r).
     rbind (ReadUint32 r) (\<lambda>(lockTime, r).
       Inr (\<lparr>Version = version, MsgTxIn = tis, MsgTxOut = tos, LockTime = lockTime\<rparr>, r))))))))"

definition Serialize :: "MsgTx \<Rightarrow> bytes" where
  "Serialize msg = btcEncode WitnessEncoding msg"

definition SerializeNoWitness :: "MsgTx \<Rightarrow> bytes" where
  "SerializeNoWitness msg = btcEncode BaseEncoding msg"

definition Deserialize :: "bytes \<Rightarrow> (MsgTx \<times> bytes) wres" where
  "Deserialize r = btcDecode WitnessEncoding r"

definition DeserializeNoWitness :: "bytes \<Rightarrow> (MsgTx \<times> bytes) wres" where
  "DeserializeNoWitness r = btcDecode BaseEncoding r"

section \<open>Sizes\<close>

definition TxIn_SerializeSize :: "TxIn \<Rightarrow> nat" where
  "TxIn_SerializeSize t =
     40 + VarIntSerializeSize (length (SignatureScript t)) + length (SignatureScript t)"

definition TxOut_SerializeSize :: "TxOut \<Rightarrow> nat" where
  "TxOut_SerializeSize t = 8 + VarIntSerializeSize (length (PkScript t)) + length (PkScript t)"

definition TxWitness_SerializeSize :: "bytes list \<Rightarrow> nat" where
  "TxWitness_SerializeSize t =
     fold (\<lambda>witItem n. n + VarIntSerializeSize (length witItem) + length witItem) t
       (VarIntSerializeSize (length t))"

definition baseSize :: "MsgTx \<Rightarrow> nat" where
  "baseSize msg =
     fold (\<lambda>txOut n. n + TxOut_SerializeSize txOut) (MsgTxOut msg)
       (fold (\<lambda>txIn n. n + TxIn_SerializeSize txIn) (MsgTxIn msg)
         (8 + VarIntSerializeSize (length (MsgTxIn msg)) + VarIntSerializeSize (length (MsgTxOut msg))))"

definition SerializeSize :: "MsgTx \<Rightarrow> nat" where
  "SerializeSize msg =
     (let n = baseSize msg in
      if HasWitness msg
      then fold (\<lambda>txin n. n + TxWitness_SerializeSize (Witness txin)) (MsgTxIn msg) (n + 2)
      else n)"

definition SerializeSizeStripped :: "MsgTx \<Rightarrow> nat" where
  "SerializeSizeStripped msg = baseSize msg"

fun pkScriptLocs_loop :: "nat \<Rightarrow> TxOut list \<Rightarrow> nat list" where
  "pkScriptLocs_loop n [] = []"
| "pkScriptLocs_loop n (txOut # tos) =
     (let n = n + 8 + VarIntSerializeSize (length (PkScript txOut))
      in n # pkScriptLocs_loop (n + length (PkScript txOut)) tos)"

text \<open>
  \<open>PkScriptLocs\<close> tests \<open>msg.TxIn[0].Witness != nil\<close>; \<open>nonNil\<close> is the value of that test, which an
  empty witness list can make true or false.
\<close>

definition PkScriptLocs :: "bool \<Rightarrow> MsgTx \<Rightarrow> nat list" where
  "PkScriptLocs nonNil msg =
     (if length (MsgTxOut msg) = 0 then []
      else let n = 4 + VarIntSerializeSize (length (MsgTxIn msg)) + VarIntSerializeSize (length (MsgTxOut msg));
               n = (if length (MsgTxIn msg) > 0 \<and> nonNil then n + 2 else n);
               n = fold (\<lambda>txIn n. n + TxIn_SerializeSize txIn) (MsgTxIn msg) n
           in pkScriptLocs_loop n (MsgTxOut msg))"

section \<open>Codecs as an interface\<close>

text \<open>
  What the transaction codec needs of the codec of a part: reading what was written gives it
  back and leaves the rest, and whatever is read is the encoding of the result.
\<close>

locale codec =
  fixes enc :: "'a \<Rightarrow> bytes" and dec :: "bytes \<Rightarrow> ('a \<times> bytes) wres" and ok :: "'a \<Rightarrow> bool"
  assumes enc_dec: "ok x \<Longrightarrow> dec (enc x @ r) = Inr (x, r)"
    and dec_enc: "dec b = Inr (x, r) \<Longrightarrow> ok x \<and> b = enc x @ r"
begin

lemma enc_inject: "ok x \<Longrightarrow> ok y \<Longrightarrow> enc x @ r = enc y @ q \<Longrightarrow> x = y \<and> r = q"
  using enc_dec [of x r] enc_dec [of y q] by (metis old.sum.inject(2) prod.inject)

end

text \<open>The same with the room in the slab: elements are read in sequence while it shrinks.\<close>

locale slab_codec =
  fixes enc :: "'a \<Rightarrow> bytes" and dec :: "nat \<Rightarrow> bytes \<Rightarrow> ('a \<times> bytes) wres"
    and sz :: "'a \<Rightarrow> nat" and ok :: "'a \<Rightarrow> bool"
  assumes slab_enc_dec: "ok x \<Longrightarrow> sz x \<le> room \<Longrightarrow> dec room (enc x @ r) = Inr (x, r)"
    and slab_dec_enc: "dec room b = Inr (x, r) \<Longrightarrow> ok x \<and> sz x \<le> room \<and> b = enc x @ r"
begin

lemma list_enc_dec:
  assumes "\<forall>x\<in>set xs. ok x" "sum_list (map sz xs) \<le> room"
  shows "read_list dec sz (length xs) room (concat (map enc xs) @ r) = Inr (xs, room - sum_list (map sz xs), r)"
  using assms
proof (induction xs arbitrary: room)
  case (Cons x xs)
  then have "dec room (enc x @ concat (map enc xs) @ r) = Inr (x, concat (map enc xs) @ r)"
    by (intro slab_enc_dec) auto
  moreover have "read_list dec sz (length xs) (room - sz x) (concat (map enc xs) @ r)
      = Inr (xs, room - sz x - sum_list (map sz xs), r)"
    using Cons by (intro Cons.IH) auto
  ultimately show ?case by simp
qed simp

lemma list_dec_enc:
  assumes "read_list dec sz n room b = Inr (xs, room', r)"
  shows "length xs = n \<and> (\<forall>x\<in>set xs. ok x) \<and> sum_list (map sz xs) \<le> room
    \<and> room' = room - sum_list (map sz xs) \<and> b = concat (map enc xs) @ r"
  using assms
proof (induction n arbitrary: room b xs)
  case (Suc n)
  obtain x b' ys where 1: "dec room b = Inr (x, b')"
      and 2: "read_list dec sz n (room - sz x) b' = Inr (ys, room', r)" and 3: "xs = x # ys"
    using Suc.prems by (auto simp: rbind_eq_Inr)
  show ?case using slab_dec_enc [OF 1] Suc.IH [OF 2] 3 by auto
qed simp

end

text \<open>A codec that needs no room is a slab codec of size 0.\<close>

sublocale codec \<subseteq> slab_codec enc "\<lambda>room. dec" "\<lambda>x. 0" ok
proof unfold_locales
  show "ok x \<and> 0 \<le> room \<and> b = enc x @ r" if "dec b = Inr (x, r)" for room :: nat and b x r
    using dec_enc [OF that] by simp
qed (rule enc_dec)

lemma ReadFull_append [simp]: "length b = n \<Longrightarrow> ReadFull n (b @ r) = Inr (b, r)"
  by (simp add: ReadFull_def)

lemma ReadFull_Inr: "ReadFull n b = Inr (x, r) \<longleftrightarrow> length x = n \<and> b = x @ r"
  by (auto simp: ReadFull_def)

lemma ReadVarInt_Cons:
  "ReadVarInt (d # r) =
     (if d = 0xff then
         rbind (ReadFull 8 r) (\<lambda>(b, r). if le_val b < 0x100000000 then Inl MessageError else Inr (le_val b, r))
       else if d = 0xfe then
         rbind (ReadFull 4 r) (\<lambda>(b, r). if le_val b < 0x10000 then Inl MessageError else Inr (le_val b, r))
       else if d = 0xfd then
         rbind (ReadFull 2 r) (\<lambda>(b, r). if le_val b < 0xfd then Inl MessageError else Inr (le_val b, r))
       else Inr (unat d, r))"
  using ReadFull_append [of "[d]" 1 r] by (simp add: ReadVarInt_def)

lemma varint_enc_dec: "n < 2 ^ 64 \<Longrightarrow> ReadVarInt (WriteVarInt n @ r) = Inr (n, r)"
proof -
  assume n: "n < 2 ^ 64"
  consider "n < 0xfd" | "0xfd \<le> n" "n \<le> 0xffff" | "0xffff < n" "n \<le> 0xffffffff" | "0xffffffff < n"
    by linarith
  then show ?thesis
  proof cases
    case 1
    then have "unat (of_nat n :: u8) = n" by (simp add: unat_of_nat_u8)
    moreover from this 1 have "(of_nat n :: u8) \<noteq> 0xff" "(of_nat n :: u8) \<noteq> 0xfe" "(of_nat n :: u8) \<noteq> 0xfd"
      by auto
    ultimately show ?thesis using 1 by (simp add: WriteVarInt_def ReadVarInt_Cons)
  qed (use n in \<open>simp_all add: WriteVarInt_def ReadVarInt_Cons le_val_le_bytes\<close>)
qed

lemma le_bytes_le_val_eq: "length b = k \<Longrightarrow> le_bytes k (le_val b) = b"
  using le_bytes_le_val [of b] by simp

lemma varint_dec_enc: "ReadVarInt b = Inr (n, r) \<Longrightarrow> n < 2 ^ 64 \<and> b = WriteVarInt n @ r"
proof -
  assume a: "ReadVarInt b = Inr (n, r)"
  then obtain d bs where b: "b = d # bs"
    by (cases b) (auto simp: ReadVarInt_def ReadFull_def)
  note a' = a [unfolded b ReadVarInt_Cons]
  consider "d = 0xff" | "d = 0xfe" | "d = 0xfd" | "d \<noteq> 0xff" "d \<noteq> 0xfe" "d \<noteq> 0xfd" by blast
  then show ?thesis
  proof cases
    case 1
    then obtain x where x: "length x = 8" "bs = x @ r" "n = le_val x" "\<not> le_val x < 0x100000000"
      using a' by (auto simp: rbind_eq_Inr ReadFull_Inr split: if_splits)
    have "le_val x < 2 ^ 64" using le_val_less [of x] x(1) by simp
    then show ?thesis using x 1 b le_bytes_le_val_eq [of x 8] by (simp add: WriteVarInt_def)
  next
    case 2
    then obtain x where x: "length x = 4" "bs = x @ r" "n = le_val x" "\<not> le_val x < 0x10000"
      using a' by (auto simp: rbind_eq_Inr ReadFull_Inr split: if_splits)
    have "le_val x < 2 ^ 32" using le_val_less [of x] x(1) by simp
    then show ?thesis using x 2 b le_bytes_le_val_eq [of x 4] by (simp add: WriteVarInt_def)
  next
    case 3
    then obtain x where x: "length x = 2" "bs = x @ r" "n = le_val x" "\<not> le_val x < 0xfd"
      using a' by (auto simp: rbind_eq_Inr ReadFull_Inr split: if_splits)
    have "le_val x < 2 ^ 16" using le_val_less [of x] x(1) by simp
    then show ?thesis using x 3 b le_bytes_le_val_eq [of x 2] by (simp add: WriteVarInt_def)
  next
    case 4
    then have n: "n = unat d" "bs = r" using a' by auto
    have "unat d \<noteq> 0xff" "unat d \<noteq> 0xfe" "unat d \<noteq> 0xfd"
      using 4 by (auto dest: arg_cong [where f = "of_nat :: nat \<Rightarrow> u8"])
    then have "unat d < 0xfd" using unat_u8_less [of d] by linarith
    then show ?thesis using n b by (simp add: WriteVarInt_def)
  qed
qed

interpretation varint: codec WriteVarInt ReadVarInt "\<lambda>n. n < 2 ^ 64"
  by unfold_locales (rule varint_enc_dec, assumption, rule varint_dec_enc)

section \<open>The codecs of the parts\<close>

lemma word_le_bytes:
  assumes "LENGTH('l::len) = 8 * k"
  shows "(of_nat (le_val (le_bytes k (unat w))) :: 'l word) = w"
    and "length b = k \<Longrightarrow> le_bytes k (unat (of_nat (le_val b) :: 'l word)) = b"
proof -
  have p: "(2::nat) ^ LENGTH('l) = 256 ^ k" using assms by (simp add: power_mult)
  have "unat w < 256 ^ k" using unsigned_less [of w, where ?'a = nat] p by simp
  then show "(of_nat (le_val (le_bytes k (unat w))) :: 'l word) = w" by (simp add: le_val_le_bytes)
  assume l: "length b = k"
  have "le_val b < 256 ^ k" using le_val_less [of b] l by simp
  then have "unat (of_nat (le_val b) :: 'l word) = le_val b" using p by (simp add: unat_of_nat)
  then show "le_bytes k (unat (of_nat (le_val b) :: 'l word)) = b" using le_bytes_le_val_eq [OF l] by simp
qed

lemmas reader_simps = rbind_eq_Inr ReadFull_Inr ReadUint32_def ReadUint64_def

interpretation u32: codec "\<lambda>w. le_bytes 4 (unat w)" ReadUint32 "\<lambda>w. True"
proof unfold_locales
  show "ReadUint32 (le_bytes 4 (unat x) @ r) = Inr (x, r)" for x r
    using word_le_bytes(1) [of 4 x] by (simp add: ReadUint32_def)
  show "True \<and> b = le_bytes 4 (unat x) @ r" if "ReadUint32 b = Inr (x, r)" for b x r
    using that word_le_bytes(2) [where ?'l = 32 and k = 4] by (auto simp: reader_simps)
qed

interpretation u64: codec "\<lambda>w. le_bytes 8 (unat w)" ReadUint64 "\<lambda>w. True"
proof unfold_locales
  show "ReadUint64 (le_bytes 8 (unat x) @ r) = Inr (x, r)" for x r
    using word_le_bytes(1) [of 8 x] by (simp add: ReadUint64_def)
  show "True \<and> b = le_bytes 8 (unat x) @ r" if "ReadUint64 b = Inr (x, r)" for b x r
    using that word_le_bytes(2) [where ?'l = 64 and k = 8] by (auto simp: reader_simps)
qed

interpretation outpoint: codec writeOutPointBuf readOutPointBuf "\<lambda>op. length (op_Hash op) = 32"
proof unfold_locales
  show "readOutPointBuf (writeOutPointBuf x @ r) = Inr (x, r)" if "length (op_Hash x) = 32" for x r
    using that by (simp add: readOutPointBuf_def writeOutPointBuf_def u32.enc_dec)
  show "length (op_Hash x) = 32 \<and> b = writeOutPointBuf x @ r" if "readOutPointBuf b = Inr (x, r)" for b x r
    using that by (auto simp: readOutPointBuf_def writeOutPointBuf_def rbind_eq_Inr ReadFull_Inr
        dest!: u32.dec_enc)
qed

interpretation script: slab_codec WriteVarBytes readScriptBuf length "\<lambda>s. length s \<le> maxWitnessItemSize"
proof unfold_locales
  show "readScriptBuf room (WriteVarBytes x @ r) = Inr (x, r)"
    if "length x \<le> maxWitnessItemSize" "length x \<le> room" for x room r
  proof -
    have "length x < 2 ^ 64" using that(1) by (simp add: maxWitnessItemSize_def)
    then show ?thesis using that
      by (simp add: readScriptBuf_def WriteVarBytes_def varint_enc_dec)
  qed
  show "length x \<le> maxWitnessItemSize \<and> length x \<le> room \<and> b = WriteVarBytes x @ r"
    if "readScriptBuf room b = Inr (x, r)" for room b x r
    using that by (auto simp: readScriptBuf_def WriteVarBytes_def rbind_eq_Inr ReadFull_Inr
        split: if_splits dest!: varint_dec_enc)
qed

definition ok_txin :: "TxIn \<Rightarrow> bool" where
  "ok_txin ti \<longleftrightarrow> length (op_Hash (PreviousOutPoint ti)) = 32 \<and> length (SignatureScript ti) \<le> maxWitnessItemSize"

interpretation txin: slab_codec writeTxInBuf readTxInBuf "\<lambda>ti. length (SignatureScript ti)"
  "\<lambda>ti. ok_txin ti \<and> Witness ti = []"
proof unfold_locales
  show "readTxInBuf room (writeTxInBuf x @ r) = Inr (x, r)"
    if "ok_txin x \<and> Witness x = []" "length (SignatureScript x) \<le> room" for x room r
    using that by (simp add: readTxInBuf_def writeTxInBuf_def ok_txin_def outpoint.enc_dec
        script.slab_enc_dec u32.enc_dec)
  show "(ok_txin x \<and> Witness x = []) \<and> length (SignatureScript x) \<le> room \<and> b = writeTxInBuf x @ r"
    if "readTxInBuf room b = Inr (x, r)" for room b x r
    using that by (auto simp: readTxInBuf_def writeTxInBuf_def ok_txin_def rbind_eq_Inr
        dest!: outpoint.dec_enc script.slab_dec_enc u32.dec_enc)
qed

interpretation txout: slab_codec WriteTxOutBuf readTxOutBuf "\<lambda>to. length (PkScript to)"
  "\<lambda>to. length (PkScript to) \<le> maxWitnessItemSize"
proof unfold_locales
  show "readTxOutBuf room (WriteTxOutBuf x @ r) = Inr (x, r)"
    if "length (PkScript x) \<le> maxWitnessItemSize" "length (PkScript x) \<le> room" for x room r
    using that by (simp add: readTxOutBuf_def WriteTxOutBuf_def script.slab_enc_dec u64.enc_dec)
  show "length (PkScript x) \<le> maxWitnessItemSize \<and> length (PkScript x) \<le> room \<and> b = WriteTxOutBuf x @ r"
    if "readTxOutBuf room b = Inr (x, r)" for room b x r
    using that by (auto simp: readTxOutBuf_def WriteTxOutBuf_def rbind_eq_Inr
        dest!: script.slab_dec_enc u64.dec_enc)
qed

section \<open>Witnesses\<close>

definition ok_witness :: "bytes list \<Rightarrow> bool" where
  "ok_witness w \<longleftrightarrow> length w \<le> maxWitnessItemsPerInput \<and> (\<forall>x\<in>set w. length x \<le> maxWitnessItemSize)"

definition wit_size :: "bytes list \<Rightarrow> nat" where
  "wit_size w = sum_list (map length w)"

lemma witness_enc_dec:
  assumes "ok_witness w" "wit_size w \<le> room"
  shows "readTxWitness room (writeTxWitnessBuf w @ r) = Inr (w, room - wit_size w, r)"
proof -
  have "length w < 2 ^ 64" using assms(1) by (simp add: ok_witness_def maxWitnessItemsPerInput_def)
  then show ?thesis using assms script.list_enc_dec [of w room r]
    by (simp add: readTxWitness_def writeTxWitnessBuf_def varint_enc_dec ok_witness_def wit_size_def)
qed

lemma witness_dec_enc:
  assumes "readTxWitness room b = Inr (w, room', r)"
  shows "ok_witness w \<and> wit_size w \<le> room \<and> room' = room - wit_size w \<and> b = writeTxWitnessBuf w @ r"
proof -
  obtain n b' where n: "ReadVarInt b = Inr (n, b')" "n \<le> maxWitnessItemsPerInput"
      "read_list readScriptBuf length n room b' = Inr (w, room', r)"
    using assms by (auto simp: readTxWitness_def rbind_eq_Inr split: if_splits)
  from varint_dec_enc [OF n(1)] script.list_dec_enc [OF n(3)] n(2)
  show ?thesis by (auto simp: ok_witness_def wit_size_def writeTxWitnessBuf_def)
qed

definition strip_witness :: "TxIn \<Rightarrow> TxIn" where
  "strip_witness ti = ti\<lparr>Witness := []\<rparr>"

definition wits_size :: "TxIn list \<Rightarrow> nat" where
  "wits_size tis = sum_list (map (\<lambda>ti. wit_size (Witness ti)) tis)"

definition enc_wits :: "TxIn list \<Rightarrow> bytes" where
  "enc_wits tis = concat (map (\<lambda>ti. writeTxWitnessBuf (Witness ti)) tis)"

lemma wits_size_simps [simp]:
  "wits_size [] = 0" "wits_size (ti # tis) = wit_size (Witness ti) + wits_size tis"
  by (simp_all add: wits_size_def)

lemma enc_wits_simps [simp]:
  "enc_wits [] = []" "enc_wits (ti # tis) = writeTxWitnessBuf (Witness ti) @ enc_wits tis"
  by (simp_all add: enc_wits_def)

lemma strip_witness_simps [simp]:
  "PreviousOutPoint (strip_witness ti) = PreviousOutPoint ti"
  "SignatureScript (strip_witness ti) = SignatureScript ti"
  "Sequence (strip_witness ti) = Sequence ti" "Witness (strip_witness ti) = []"
  "writeTxInBuf (strip_witness ti) = writeTxInBuf ti" "ok_txin (strip_witness ti) = ok_txin ti"
  "(strip_witness ti)\<lparr>Witness := Witness ti\<rparr> = ti"
  by (simp_all add: strip_witness_def writeTxInBuf_def ok_txin_def)

lemma strip_witness_id: "Witness ti = [] \<Longrightarrow> strip_witness ti = ti"
  by (cases ti) (simp add: strip_witness_def)

lemma witnesses_enc_dec:
  assumes "\<forall>ti\<in>set tis. ok_witness (Witness ti)" "wits_size tis \<le> room"
  shows "read_witnesses (map strip_witness tis) room (enc_wits tis @ r) = Inr (tis, room - wits_size tis, r)"
  using assms
proof (induction tis arbitrary: room)
  case (Cons ti tis)
  then have "readTxWitness room (writeTxWitnessBuf (Witness ti) @ enc_wits tis @ r)
      = Inr (Witness ti, room - wit_size (Witness ti), enc_wits tis @ r)"
    by (intro witness_enc_dec) auto
  with Cons show ?case by simp
qed simp

lemma witnesses_dec_enc:
  assumes "read_witnesses sis room b = Inr (tis, room', r)" "\<forall>ti\<in>set sis. Witness ti = []"
  shows "map strip_witness tis = sis \<and> (\<forall>ti\<in>set tis. ok_witness (Witness ti))
    \<and> wits_size tis \<le> room \<and> b = enc_wits tis @ r"
  using assms
proof (induction sis arbitrary: room b tis)
  case (Cons si sis)
  obtain w room1 b1 tis' where 1: "readTxWitness room b = Inr (w, room1, b1)"
      and 2: "read_witnesses sis room1 b1 = Inr (tis', room', r)" and 3: "tis = si\<lparr>Witness := w\<rparr> # tis'"
    using Cons.prems(1) by (auto simp: rbind_eq_Inr)
  have "strip_witness (si\<lparr>Witness := w\<rparr>) = si"
    using Cons.prems(2) strip_witness_id [of si] by (simp add: strip_witness_def)
  with witness_dec_enc [OF 1] Cons.IH [OF 2] Cons.prems(2) 3 show ?case by auto
qed simp

section \<open>Whole transactions\<close>

text \<open>
  The transactions an encoding can carry: element counts and script sizes within the limits of
  the reader, and all scripts together within the slab.
\<close>

definition wf_tx :: "MessageEncoding \<Rightarrow> MsgTx \<Rightarrow> bool" where
  "wf_tx enc msg \<longleftrightarrow>
     length (MsgTxIn msg) \<le> maxTxInPerMessage \<and> length (MsgTxOut msg) \<le> maxTxOutPerMessage
     \<and> (\<forall>ti\<in>set (MsgTxIn msg). ok_txin ti \<and> ok_witness (Witness ti))
     \<and> (\<forall>to\<in>set (MsgTxOut msg). length (PkScript to) \<le> maxWitnessItemSize)
     \<and> sum_list (map (\<lambda>ti. length (SignatureScript ti)) (MsgTxIn msg))
       + sum_list (map (\<lambda>to. length (PkScript to)) (MsgTxOut msg)) + wits_size (MsgTxIn msg) \<le> scriptSlabSize
     \<and> (if enc = WitnessEncoding then MsgTxIn msg \<noteq> [] else \<not> HasWitness msg)"

lemma HasWitness_iff: "HasWitness msg \<longleftrightarrow> (\<exists>ti\<in>set (MsgTxIn msg). Witness ti \<noteq> [])"
  by (auto simp: HasWitness_def list_ex_iff)

lemma flag_count_enc:
  assumes "n < 2 ^ 64" "enc = WitnessEncoding \<longrightarrow> n \<noteq> 0"
  shows "read_flag_count enc ((if enc = WitnessEncoding \<and> w then [0, 1] else []) @ WriteVarInt n @ r)
       = Inr (enc = WitnessEncoding \<and> w, n, r)"
proof (cases "enc = WitnessEncoding \<and> w")
  case True
  have z: "WriteVarInt 0 = [0]" by (simp add: WriteVarInt_def)
  have "ReadVarInt (0 # 1 # WriteVarInt n @ r) = Inr (0, 1 # WriteVarInt n @ r)"
    using varint_enc_dec [of 0 "1 # WriteVarInt n @ r"] z by simp
  moreover have "ReadFull 1 (1 # WriteVarInt n @ r) = Inr ([1], WriteVarInt n @ r)"
    using ReadFull_append [of "[1]" 1 "WriteVarInt n @ r"] by simp
  ultimately show ?thesis using True varint_enc_dec [OF assms(1)] by (simp add: read_flag_count_def)
next
  case False
  then show ?thesis using varint_enc_dec [OF assms(1)] assms(2) by (auto simp: read_flag_count_def)
qed

lemma tx_enc_dec:
  assumes wf: "wf_tx enc msg"
  shows "btcDecode enc (btcEncode enc msg @ r) = Inr (msg, r)"
proof -
  let ?w = "enc = WitnessEncoding \<and> HasWitness msg"
  let ?ins = "MsgTxIn msg" and ?outs = "MsgTxOut msg"
  let ?si = "sum_list (map (\<lambda>ti. length (SignatureScript ti)) ?ins)"
  let ?so = "sum_list (map (\<lambda>to. length (PkScript to)) ?outs)"
  let ?tail = "(if ?w then enc_wits ?ins else []) @ le_bytes 4 (unat (LockTime msg)) @ r"
  have small: "length ?ins < 2 ^ 64" "length ?outs < 2 ^ 64"
    using wf by (auto simp: wf_tx_def maxTxInPerMessage_def maxTxOutPerMessage_def MaxMessagePayload_def
        minTxInPayload_def MinTxOutPayload_def)
  have ins: "read_list readTxInBuf (\<lambda>ti. length (SignatureScript ti)) (length ?ins) scriptSlabSize
      (concat (map writeTxInBuf ?ins) @ q) = Inr (map strip_witness ?ins, scriptSlabSize - ?si, q)" for q
    using txin.list_enc_dec [of "map strip_witness ?ins" scriptSlabSize q] wf
    by (simp add: wf_tx_def comp_def)
  have outs: "read_list readTxOutBuf (\<lambda>to. length (PkScript to)) (length ?outs) (scriptSlabSize - ?si)
      (concat (map WriteTxOutBuf ?outs) @ q) = Inr (?outs, scriptSlabSize - ?si - ?so, q)" for q
    using wf by (intro txout.list_enc_dec) (auto simp: wf_tx_def)
  have wits: "read_witnesses (map strip_witness ?ins) (scriptSlabSize - ?si - ?so) (enc_wits ?ins @ q)
      = Inr (?ins, scriptSlabSize - ?si - ?so - wits_size ?ins, q)" for q
    using wf by (intro witnesses_enc_dec) (auto simp: wf_tx_def)
  have plain: "map strip_witness ?ins = ?ins" if "\<not> ?w"
    using that wf strip_witness_id by (auto simp: wf_tx_def HasWitness_iff split: if_splits intro!: map_idI)
  have e: "btcEncode enc msg @ r = le_bytes 4 (unat (Version msg))
     @ (if ?w then [0, 1] else []) @ WriteVarInt (length ?ins) @ concat (map writeTxInBuf ?ins)
     @ WriteVarInt (length ?outs) @ concat (map WriteTxOutBuf ?outs) @ ?tail"
    by (simp add: btcEncode_def Let_def enc_wits_def)
  have fc: "read_flag_count enc ((if ?w then [0, 1] else []) @ WriteVarInt (length ?ins) @ q) = Inr (?w, length ?ins, q)" for q
    using small(1) wf by (intro flag_count_enc) (auto simp: wf_tx_def)
  have fin: "read_flagged_witnesses ?w (map strip_witness ?ins) (scriptSlabSize - ?si - ?so) ?tail
      = Inr (?ins, le_bytes 4 (unat (LockTime msg)) @ r)"
    using wits [of "le_bytes 4 (unat (LockTime msg)) @ r"] plain
    by (auto simp: HasWitness_def read_flagged_witnesses_def)
  have cnt: "\<not> maxTxInPerMessage < length ?ins" "\<not> maxTxOutPerMessage < length ?outs"
    using wf by (auto simp: wf_tx_def)
  show ?thesis
    by (simp only: btcDecode_def e u32.enc_dec [OF TrueI] rbind_Inr prod.case fc ins outs cnt if_False
        varint_enc_dec [OF small(2)] fin) simp
qed

lemma flag_count_dec:
  assumes "read_flag_count enc b = Inr (flag, n, r)"
  shows "b = (if flag then [0, 1] else []) @ WriteVarInt n @ r \<and> (flag \<longrightarrow> enc = WitnessEncoding)
    \<and> (enc = WitnessEncoding \<and> \<not> flag \<longrightarrow> n \<noteq> 0)"
proof -
  obtain c b1 where c: "ReadVarInt b = Inr (c, b1)" using assms by (auto simp: read_flag_count_def rbind_eq_Inr)
  note b = varint_dec_enc [OF c]
  show ?thesis
  proof (cases "c = 0 \<and> enc = WitnessEncoding")
    case True
    then obtain f b2 where f: "ReadFull 1 b1 = Inr (f, b2)" "f ! 0 = 1" "flag" "ReadVarInt b2 = Inr (n, r)"
      using assms c by (auto simp: read_flag_count_def rbind_eq_Inr split: if_splits)
    have "b1 = 1 # b2" using f(1,2) by (cases f) (auto simp: ReadFull_Inr)
    with varint_dec_enc [OF f(4)] b True f(3) show ?thesis by (simp add: WriteVarInt_def)
  next
    case False
    then have "\<not> flag" "c = n" "b1 = r" using assms c by (auto simp: read_flag_count_def)
    with b False show ?thesis by auto
  qed
qed

lemma tx_dec_enc:
  assumes "btcDecode enc b = Inr (msg, r)"
  shows "wf_tx enc msg \<and> b = btcEncode enc msg @ r"
proof -
  from assms obtain v b1 flag n b2 sis room b3 m b4 tos room2 b5 tis b6 lt where
    1: "ReadUint32 b = Inr (v, b1)" and 2: "read_flag_count enc b1 = Inr (flag, n, b2)"
    and n: "n \<le> maxTxInPerMessage"
    and 3: "read_list readTxInBuf (\<lambda>ti. length (SignatureScript ti)) n scriptSlabSize b2 = Inr (sis, room, b3)"
    and 4: "ReadVarInt b3 = Inr (m, b4)" and m: "m \<le> maxTxOutPerMessage"
    and 5: "read_list readTxOutBuf (\<lambda>to. length (PkScript to)) m room b4 = Inr (tos, room2, b5)"
    and 6: "read_flagged_witnesses flag sis room2 b5 = Inr (tis, b6)"
    and 7: "ReadUint32 b6 = Inr (lt, r)"
    and msg: "msg = \<lparr>Version = v, MsgTxIn = tis, MsgTxOut = tos, LockTime = lt\<rparr>"
    unfolding btcDecode_def rbind_eq_Inr by (auto split: if_splits simp: not_less rbind_eq_Inr)
  note d1 = u32.dec_enc [OF 1] and d2 = flag_count_dec [OF 2] and d3 = txin.list_dec_enc [OF 3]
    and d4 = varint_dec_enc [OF 4] and d5 = txout.list_dec_enc [OF 5] and d7 = u32.dec_enc [OF 7]
  have sis: "\<forall>ti\<in>set sis. Witness ti = []" using d3 by blast
  have d6: "map strip_witness tis = sis \<and> (\<forall>ti\<in>set tis. ok_witness (Witness ti)) \<and> wits_size tis \<le> room2
    \<and> b5 = (if flag then enc_wits tis else []) @ b6 \<and> (flag \<longleftrightarrow> HasWitness msg)"
  proof (cases flag)
    case True
    then obtain room3 where "read_witnesses sis room2 b5 = Inr (tis, room3, b6)"
        "list_ex (\<lambda>ti. Witness ti \<noteq> []) tis"
      using 6 by (auto simp: read_flagged_witnesses_def rbind_eq_Inr split: if_splits)
    with witnesses_dec_enc [OF this(1) sis] True msg show ?thesis by (simp add: HasWitness_def)
  next
    case False
    then have t: "tis = sis" "b6 = b5" using 6 by (auto simp: read_flagged_witnesses_def)
    have "map strip_witness sis = sis" using sis strip_witness_id by (auto intro!: map_idI)
    moreover have "wits_size sis = 0" "\<forall>ti\<in>set sis. ok_witness (Witness ti)"
      using sis by (auto simp: wits_size_def wit_size_def ok_witness_def)
    ultimately show ?thesis using t False sis msg by (simp add: HasWitness_iff)
  qed
  have ins: "concat (map writeTxInBuf sis) = concat (map writeTxInBuf tis)" "length sis = length tis"
      "map (\<lambda>ti. length (SignatureScript ti)) sis = map (\<lambda>ti. length (SignatureScript ti)) tis"
      "\<forall>ti\<in>set tis. ok_txin ti"
    using d6 d3 by (auto simp: comp_def)
  have len: "length tis = n" "length tos = m" using d3 d5 ins(2) by simp_all
  have sum: "sum_list (map (\<lambda>ti. length (SignatureScript ti)) tis)
      + sum_list (map (\<lambda>to. length (PkScript to)) tos) + wits_size tis \<le> scriptSlabSize"
  proof -
    let ?a = "sum_list (map (\<lambda>ti. length (SignatureScript ti)) tis)"
    let ?b = "sum_list (map (\<lambda>to. length (PkScript to)) tos)"
    have "?a \<le> scriptSlabSize" "?b \<le> scriptSlabSize - ?a" "wits_size tis \<le> scriptSlabSize - ?a - ?b"
      using d3 d5 d6 ins(3) by simp_all
    then show ?thesis by arith
  qed
  have last: "if enc = WitnessEncoding then tis \<noteq> [] else \<not> HasWitness msg"
    using d2 d6 len(1) msg by (auto simp: HasWitness_iff)
  have "wf_tx enc msg" using n m len sum last d5 d6 ins(4) unfolding wf_tx_def msg by simp
  moreover have "b = le_bytes 4 (unat v) @ (if flag then [0, 1] else []) @ WriteVarInt n
      @ concat (map writeTxInBuf tis) @ WriteVarInt m @ concat (map WriteTxOutBuf tos)
      @ (if flag then enc_wits tis else []) @ le_bytes 4 (unat lt) @ r"
    using d1 d2 d3 d4 d5 d6 d7 ins(1) by simp
  moreover have "flag \<longleftrightarrow> enc = WitnessEncoding \<and> HasWitness msg" using d2 d6 by blast
  ultimately have "wf_tx enc msg" "b = btcEncode enc msg @ r"
    using len by (simp_all add: btcEncode_def Let_def enc_wits_def msg)
  then show ?thesis ..
qed

section \<open>Sizes\<close>

lemma length_WriteVarInt: "length (WriteVarInt n) = VarIntSerializeSize n"
  by (simp add: WriteVarInt_def VarIntSerializeSize_def)

lemma length_WriteVarBytes: "length (WriteVarBytes b) = VarIntSerializeSize (length b) + length b"
  by (simp add: WriteVarBytes_def length_WriteVarInt)

lemma length_writeTxInBuf:
  "length (op_Hash (PreviousOutPoint ti)) = 32 \<Longrightarrow> length (writeTxInBuf ti) = TxIn_SerializeSize ti"
  by (simp add: writeTxInBuf_def writeOutPointBuf_def length_WriteVarBytes TxIn_SerializeSize_def)

lemma length_WriteTxOutBuf: "length (WriteTxOutBuf to) = TxOut_SerializeSize to"
  by (simp add: WriteTxOutBuf_def length_WriteVarBytes TxOut_SerializeSize_def)

lemma fold_add: "fold (\<lambda>x n. n + f x) xs (k :: nat) = k + sum_list (map f xs)"
  by (induction xs arbitrary: k) auto

lemma length_writeTxWitnessBuf: "length (writeTxWitnessBuf w) = TxWitness_SerializeSize w"
proof -
  have "length (concat (map WriteVarBytes w)) = sum_list (map (\<lambda>x. VarIntSerializeSize (length x) + length x) w)"
    by (simp add: length_concat comp_def length_WriteVarBytes)
  moreover have "TxWitness_SerializeSize w
      = VarIntSerializeSize (length w) + sum_list (map (\<lambda>x. VarIntSerializeSize (length x) + length x) w)"
    using fold_add [of "\<lambda>x. VarIntSerializeSize (length x) + length x" w]
    by (simp add: TxWitness_SerializeSize_def add.assoc)
  ultimately show ?thesis by (simp add: writeTxWitnessBuf_def length_WriteVarInt)
qed

lemma length_ins:
  "\<forall>ti\<in>set tis. length (op_Hash (PreviousOutPoint ti)) = 32 \<Longrightarrow>
   length (concat (map writeTxInBuf tis)) = sum_list (map TxIn_SerializeSize tis)"
  by (induction tis) (auto simp: length_writeTxInBuf)

lemma length_outs: "length (concat (map WriteTxOutBuf tos)) = sum_list (map TxOut_SerializeSize tos)"
  by (simp add: length_concat comp_def length_WriteTxOutBuf)

lemma baseSize_eq:
  "baseSize msg = 8 + VarIntSerializeSize (length (MsgTxIn msg)) + VarIntSerializeSize (length (MsgTxOut msg))
     + sum_list (map TxIn_SerializeSize (MsgTxIn msg)) + sum_list (map TxOut_SerializeSize (MsgTxOut msg))"
  by (simp add: baseSize_def fold_add)

lemma pkScriptLocs_points:
  "i < length tos \<Longrightarrow> take (length (PkScript (tos ! i))) (drop (pkScriptLocs_loop (length p) tos ! i)
     (p @ concat (map WriteTxOutBuf tos) @ q)) = PkScript (tos ! i)"
proof (induction tos arbitrary: p i)
  case (Cons to tos)
  let ?h = "le_bytes 8 (unat (Value to)) @ WriteVarInt (length (PkScript to))"
  have e: "WriteTxOutBuf to = ?h @ PkScript to" by (simp add: WriteTxOutBuf_def WriteVarBytes_def)
  have l: "length p + 8 + VarIntSerializeSize (length (PkScript to)) = length (p @ ?h)"
    by (simp add: length_WriteVarInt)
  show ?case
  proof (cases i)
    case 0
    have "p @ concat (map WriteTxOutBuf (to # tos)) @ q
        = (p @ ?h) @ PkScript to @ concat (map WriteTxOutBuf tos) @ q" by (simp add: e)
    moreover have "pkScriptLocs_loop (length p) (to # tos) ! 0 = length (p @ ?h)" by (simp add: Let_def l)
    ultimately show ?thesis using 0 by (simp only: drop_append) simp
  next
    case (Suc j)
    have "p @ concat (map WriteTxOutBuf (to # tos)) @ q
        = (p @ ?h @ PkScript to) @ concat (map WriteTxOutBuf tos) @ q" by (simp add: e)
    moreover have "pkScriptLocs_loop (length p) (to # tos) ! i
        = pkScriptLocs_loop (length (p @ ?h @ PkScript to)) tos ! j" using Suc l by (simp add: Let_def add.assoc)
    ultimately show ?thesis using Cons.IH [of j "p @ ?h @ PkScript to"] Cons.prems Suc by (simp only:) simp
  qed
qed simp

section \<open>Properties\<close>

text \<open>C23: Decoding an encoded transaction gives the transaction back and leaves the rest of the
  input, in both encodings, for every transaction within the reader's limits.\<close>

theorem tx_roundtrip:
  assumes "wf_tx enc msg"
  shows "btcDecode enc (btcEncode enc msg @ r) = Inr (msg, r)"
  using assms by (rule tx_enc_dec)

definition sample_tx :: MsgTx where
  "sample_tx = \<lparr>Version = 2,
     MsgTxIn = [\<lparr>PreviousOutPoint = \<lparr>op_Hash = replicate 32 1, op_Index = 0\<rparr>, SignatureScript = [],
                 Witness = [[7, 8], []], Sequence = 0xffffffff\<rparr>],
     MsgTxOut = [\<lparr>Value = 5000, PkScript = [0x51]\<rparr>], LockTime = 0\<rparr>"

lemmas wire_limits = maxTxInPerMessage_def maxTxOutPerMessage_def MaxMessagePayload_def minTxInPayload_def
  MinTxOutPayload_def maxWitnessItemsPerInput_def maxWitnessItemSize_def scriptSlabSize_def

theorem tx_roundtrip_witness:
  "btcDecode WitnessEncoding (btcEncode WitnessEncoding sample_tx @ [9]) = Inr (sample_tx, [9])"
  by (rule tx_roundtrip)
    (simp add: sample_tx_def wf_tx_def ok_txin_def ok_witness_def wit_size_def wire_limits)

text \<open>C24: Decoding is canonical: whatever bytes decode to a transaction are exactly its encoding, so
  no two byte strings decode to the same transaction, and what is decoded is within the limits.\<close>

theorem tx_decode_canonical:
  assumes "btcDecode enc b = Inr (msg, r)"
  shows "b = btcEncode enc msg @ r \<and> wf_tx enc msg"
  using tx_dec_enc [OF assms] by simp

theorem tx_decode_canonical_witness:
  "\<exists>b. btcDecode WitnessEncoding b = Inr (sample_tx, []) \<and> b = btcEncode WitnessEncoding sample_tx"
proof -
  have "btcDecode WitnessEncoding (btcEncode WitnessEncoding sample_tx @ []) = Inr (sample_tx, [])"
    by (rule tx_enc_dec) (simp add: sample_tx_def wf_tx_def ok_txin_def ok_witness_def wit_size_def wire_limits)
  with tx_decode_canonical [OF this] show ?thesis by auto
qed

text \<open>The size functions return the number of bytes the serializers write.\<close>

theorem tx_sizes:
  assumes "\<forall>ti\<in>set (MsgTxIn msg). length (op_Hash (PreviousOutPoint ti)) = 32"
  shows "length (Serialize msg) = SerializeSize msg \<and> length (SerializeNoWitness msg) = SerializeSizeStripped msg"
proof -
  have "length (concat (map (\<lambda>ti. writeTxWitnessBuf (Witness ti)) (MsgTxIn msg)))
      = sum_list (map (\<lambda>ti. TxWitness_SerializeSize (Witness ti)) (MsgTxIn msg))"
    by (simp add: length_concat comp_def length_writeTxWitnessBuf)
  then show ?thesis using length_ins [OF assms]
    by (simp add: Serialize_def SerializeNoWitness_def btcEncode_def Let_def SerializeSize_def
        SerializeSizeStripped_def baseSize_eq length_WriteVarInt length_outs fold_add)
qed

theorem tx_sizes_witness: "length (Serialize sample_tx) = SerializeSize sample_tx"
  using tx_sizes [of sample_tx] by (simp add: sample_tx_def)

text \<open>The offsets reported for the output scripts point at these scripts in the serialization whenever
  the nil test on the first input's witness tells whether the transaction is serialized with its witnesses.\<close>

theorem PkScriptLocs_right:
  assumes "\<forall>ti\<in>set (MsgTxIn msg). length (op_Hash (PreviousOutPoint ti)) = 32"
    and "nonNil \<and> MsgTxIn msg \<noteq> [] \<longleftrightarrow> HasWitness msg" and "i < length (MsgTxOut msg)"
  shows "take (length (PkScript (MsgTxOut msg ! i))) (drop (PkScriptLocs nonNil msg ! i) (Serialize msg))
       = PkScript (MsgTxOut msg ! i)"
proof -
  let ?p = "le_bytes 4 (unat (Version msg)) @ (if HasWitness msg then [0, 1] else [])
     @ WriteVarInt (length (MsgTxIn msg)) @ concat (map writeTxInBuf (MsgTxIn msg)) @ WriteVarInt (length (MsgTxOut msg))"
  let ?q = "(if HasWitness msg then concat (map (\<lambda>ti. writeTxWitnessBuf (Witness ti)) (MsgTxIn msg)) else [])
     @ le_bytes 4 (unat (LockTime msg))"
  have s: "Serialize msg = ?p @ concat (map WriteTxOutBuf (MsgTxOut msg)) @ ?q"
    by (simp add: Serialize_def btcEncode_def Let_def)
  have "PkScriptLocs nonNil msg = pkScriptLocs_loop (length ?p) (MsgTxOut msg)"
    using assms length_ins [OF assms(1)]
    by (auto simp: PkScriptLocs_def Let_def length_WriteVarInt fold_add ac_simps)
  with pkScriptLocs_points [OF assms(3), of ?p ?q] show ?thesis by (simp only: s)
qed

theorem PkScriptLocs_right_witness:
  "take 1 (drop (PkScriptLocs True sample_tx ! 0) (Serialize sample_tx)) = [0x51]"
  using PkScriptLocs_right [of sample_tx True 0] by (simp add: sample_tx_def HasWitness_def)

text \<open>A variable-length integer is read exactly from its canonical encoding.\<close>

theorem varint_canonical:
  "ReadVarInt b = Inr (n, r) \<longleftrightarrow> n < 2 ^ 64 \<and> b = WriteVarInt n @ r"
  using varint_enc_dec varint_dec_enc by blast

text \<open>The reader panics on a transaction whose second output merely announces a script that does
  not fit into what the first left of the slab, although each announced length is below the
  limit the reader checks and nothing of the second script need be sent.\<close>

theorem oversized_scripts_panic:
  assumes "ok_txin ti" "Witness ti = []" "length s \<le> maxWitnessItemSize" "m \<le> maxWitnessItemSize"
    and "length (SignatureScript ti) + length s \<le> scriptSlabSize"
    and "scriptSlabSize < length (SignatureScript ti) + length s + m"
  shows "Deserialize (le_bytes 4 (unat (v :: u32)) @ WriteVarInt 1 @ writeTxInBuf ti @ WriteVarInt 2
     @ WriteTxOutBuf \<lparr>Value = x, PkScript = s\<rparr> @ le_bytes 8 (unat (y :: u64)) @ WriteVarInt m @ rest)
     = Inl WirePanic"
proof -
  let ?room = "scriptSlabSize - length (SignatureScript ti)"
  have fc: "read_flag_count WitnessEncoding (WriteVarInt 1 @ q) = Inr (False, 1, q)" for q
    using flag_count_enc [of 1 WitnessEncoding False q] by simp
  have ins: "read_list readTxInBuf (\<lambda>ti. length (SignatureScript ti)) 1 scriptSlabSize (writeTxInBuf ti @ q)
      = Inr ([ti], ?room, q)" for q
    using txin.list_enc_dec [of "[ti]" scriptSlabSize q] assms by simp
  have o1: "readTxOutBuf ?room (WriteTxOutBuf \<lparr>Value = x, PkScript = s\<rparr> @ q) = Inr (\<lparr>Value = x, PkScript = s\<rparr>, q)" for q
    using assms by (intro txout.slab_enc_dec) auto
  have "m < 2 ^ 64" using assms(4) by (simp add: maxWitnessItemSize_def)
  moreover have "?room - length s < m" using assms(5,6) by arith
  ultimately have o2: "readTxOutBuf (?room - length s) (le_bytes 8 (unat y) @ WriteVarInt m @ rest) = Inl WirePanic"
    using assms(4) by (simp add: readTxOutBuf_def u64.enc_dec readScriptBuf_def varint_enc_dec)
  have outs: "read_list readTxOutBuf (\<lambda>to. length (PkScript to)) 2 ?room
      (WriteTxOutBuf \<lparr>Value = x, PkScript = s\<rparr> @ le_bytes 8 (unat y) @ WriteVarInt m @ rest) = Inl WirePanic"
    using o1 o2 by (simp add: numeral_2_eq_2)
  have cnt: "\<not> maxTxInPerMessage < 1" "\<not> maxTxOutPerMessage < 2" by (simp_all add: wire_limits)
  have v2: "ReadVarInt (WriteVarInt 2 @ q) = Inr (2, q)" for q by (rule varint_enc_dec) simp
  show ?thesis
    by (simp only: Deserialize_def btcDecode_def u32.enc_dec [OF TrueI] rbind_Inr prod.case fc ins cnt
        if_False v2 outs rbind_Inl)
qed

theorem oversized_scripts_panic_witness:
  "\<exists>msg. length msg < 195000 \<and> Deserialize msg = Inl WirePanic"
proof -
  define ti where "ti = \<lparr>PreviousOutPoint = \<lparr>op_Hash = replicate 32 1, op_Index = 0\<rparr>, SignatureScript = [],
      Witness = [], Sequence = 0\<rparr>"
  let ?s = "replicate 194305 (0 :: u8)"
  let ?m = "le_bytes 4 (unat (1 :: u32)) @ WriteVarInt 1 @ writeTxInBuf ti @ WriteVarInt 2
     @ WriteTxOutBuf \<lparr>Value = 0, PkScript = ?s\<rparr> @ le_bytes 8 (unat (0 :: u64)) @ WriteVarInt 4000000 @ []"
  have "Deserialize ?m = Inl WirePanic"
    by (rule oversized_scripts_panic) (simp_all add: ti_def ok_txin_def wire_limits)
  moreover have "length ?m < 195000"
    by (simp add: ti_def length_writeTxInBuf length_WriteTxOutBuf TxIn_SerializeSize_def
        TxOut_SerializeSize_def length_WriteVarInt VarIntSerializeSize_def)
  ultimately show ?thesis by blast
qed

end
