(* ===== verification/Script_Sighash.thy ===== *)
theory Script_Sighash
  imports Script_Forms Wire_Tx
begin

unbundle bit_operations_syntax

text \<open>
  Signature hashes (\<open>sighash.go\<close>, \<open>hashcache.go\<close>): the legacy digest, the segwit v0 digest with its
  cached fragments and the taproot digest. The hash functions and the elliptic-curve operations
  are the fields of a parameter record; everything else is translated.
\<close>

section \<open>Primitives that are parameters\<close>

text \<open>
  Hash functions of the Go library and the operations of the \<open>secp256k1\<close> package. Parsed keys and
  signatures are kept as byte strings: a parser returns the bytes that stand for the parsed value,
  or \<open>None\<close> for an error.
\<close>

record crypto =
  sha1 :: "bytes \<Rightarrow> bytes"
  sha256 :: "bytes \<Rightarrow> bytes"
  ripemd160 :: "bytes \<Rightarrow> bytes"
  ParsePubKey :: "bytes \<Rightarrow> bytes option"
  ParseDERSignature :: "bytes \<Rightarrow> bytes option"
  ParseSignature :: "bytes \<Rightarrow> bytes option"
  ecdsa_Verify :: "bytes \<Rightarrow> bytes \<Rightarrow> bytes \<Rightarrow> bool"
  schnorr_ParsePubKey :: "bytes \<Rightarrow> bytes option"
  schnorr_ParseSignature :: "bytes \<Rightarrow> bytes option"
  schnorr_Verify :: "bytes \<Rightarrow> bytes \<Rightarrow> bytes \<Rightarrow> bool"
  schnorr_SerializePubKey :: "bytes \<Rightarrow> bytes"
  add_tweak :: "bytes \<Rightarrow> bytes \<Rightarrow> bytes"
  y_is_odd :: "bytes \<Rightarrow> bool"
  curve_N :: nat

definition HashB :: "crypto \<Rightarrow> bytes \<Rightarrow> bytes" where
  "HashB c b = sha256 c b"

definition DoubleHashB :: "crypto \<Rightarrow> bytes \<Rightarrow> bytes" where
  "DoubleHashB c b = sha256 c (sha256 c b)"

text \<open>\<open>TaggedHash\<close>; the table of precomputed tag hashes is an optimisation of \<open>sha256 tag\<close>.\<close>

definition TaggedHash :: "crypto \<Rightarrow> bytes \<Rightarrow> bytes list \<Rightarrow> bytes" where
  "TaggedHash c tag msgs =
     (let shaTag = sha256 c tag in sha256 c (shaTag @ shaTag @ concat msgs))"

definition ascii :: "string \<Rightarrow> bytes" where
  "ascii s = map (\<lambda>ch. of_nat (of_char ch)) s"

definition TagTapSighash :: bytes where "TagTapSighash = ascii ''TapSighash''"
definition TagTapLeaf :: bytes where "TagTapLeaf = ascii ''TapLeaf''"
definition TagTapBranch :: bytes where "TagTapBranch = ascii ''TapBranch''"
definition TagTapTweak :: bytes where "TagTapTweak = ascii ''TapTweak''"

section \<open>Hash types\<close>

type_synonym SigHashType = u32

abbreviation SigHashDefault :: SigHashType where "SigHashDefault \<equiv> 0x00"
abbreviation SigHashOld :: SigHashType where "SigHashOld \<equiv> 0x0"
abbreviation SigHashAll :: SigHashType where "SigHashAll \<equiv> 0x1"
abbreviation SigHashNone :: SigHashType where "SigHashNone \<equiv> 0x2"
abbreviation SigHashSingle :: SigHashType where "SigHashSingle \<equiv> 0x3"
abbreviation SigHashAnyOneCanPay :: SigHashType where "SigHashAnyOneCanPay \<equiv> 0x80"
abbreviation sigHashMask :: SigHashType where "sigHashMask \<equiv> 0x1f"
abbreviation blankCodeSepValue :: u32 where "blankCodeSepValue \<equiv> 0xffffffff"

section \<open>The legacy digest\<close>

text \<open>
  The copy of the transaction that is hashed. \<open>clear_inputs\<close> is the first loop over the inputs,
  \<open>zero_sequences\<close> the loop shared by \<open>SigHashNone\<close> and \<open>SigHashSingle\<close>.
\<close>

definition clear_inputs :: "bytes \<Rightarrow> nat \<Rightarrow> TxIn list \<Rightarrow> TxIn list" where
  "clear_inputs sigScript idx tis =
     map (\<lambda>(i, ti). ti\<lparr>SignatureScript := (if i = idx then sigScript else [])\<rparr>) (enumerate 0 tis)"

definition zero_sequences :: "nat \<Rightarrow> TxIn list \<Rightarrow> TxIn list" where
  "zero_sequences idx tis =
     map (\<lambda>(i, ti). if i \<noteq> idx then ti\<lparr>Sequence := 0\<rparr> else ti) (enumerate 0 tis)"

definition blank_outputs :: "nat \<Rightarrow> TxOut list \<Rightarrow> TxOut list" where
  "blank_outputs idx tos =
     map (\<lambda>(i, to). if i < idx then to\<lparr>Value := -1, PkScript := []\<rparr> else to) (enumerate 0 tos)"

definition sighash_copy :: "bytes \<Rightarrow> SigHashType \<Rightarrow> MsgTx \<Rightarrow> nat \<Rightarrow> MsgTx" where
  "sighash_copy sigScript hashType tx idx =
     (let txCopy = tx\<lparr>MsgTxIn := clear_inputs sigScript idx (MsgTxIn tx)\<rparr>;
          kind = hashType AND sigHashMask;
          txCopy =
            (if kind = SigHashNone then
               txCopy\<lparr>MsgTxOut := [], MsgTxIn := zero_sequences idx (MsgTxIn txCopy)\<rparr>
             else if kind = SigHashSingle then
               txCopy\<lparr>MsgTxOut := blank_outputs idx (take (idx + 1) (MsgTxOut txCopy)),
                      MsgTxIn := zero_sequences idx (MsgTxIn txCopy)\<rparr>
             else txCopy)
      in if hashType AND SigHashAnyOneCanPay \<noteq> 0
         then txCopy\<lparr>MsgTxIn := take 1 (drop idx (MsgTxIn txCopy))\<rparr> else txCopy)"

text \<open>The slice \<open>txCopy.TxIn[idx : idx+1]\<close> panics when the index is out of range.\<close>

definition calcSignatureHash :: "crypto \<Rightarrow> bytes \<Rightarrow> SigHashType \<Rightarrow> MsgTx \<Rightarrow> nat \<Rightarrow> bytes res" where
  "calcSignatureHash c sigScript hashType tx idx =
     (if hashType AND sigHashMask = SigHashSingle \<and> idx \<ge> length (MsgTxOut tx)
      then Inr (1 # replicate 31 0)
      else if hashType AND SigHashAnyOneCanPay \<noteq> 0 \<and> idx \<ge> length (MsgTxIn tx) then Inl GoPanic
      else let sigScript = removeOpcodeRaw sigScript OP_CODESEPARATOR;
               txCopy = sighash_copy sigScript hashType tx idx
           in Inr (DoubleHashB c (SerializeNoWitness txCopy @ le_bytes 4 (unat hashType))))"

definition CalcSignatureHash :: "crypto \<Rightarrow> bytes \<Rightarrow> SigHashType \<Rightarrow> MsgTx \<Rightarrow> nat \<Rightarrow> bytes res" where
  "CalcSignatureHash c script hashType tx idx =
     rbind (checkScriptParses 0 script) (\<lambda>_. calcSignatureHash c script hashType tx idx)"

section \<open>Cached fragments\<close>

definition calcHashPrevOuts :: "crypto \<Rightarrow> MsgTx \<Rightarrow> bytes" where
  "calcHashPrevOuts c tx =
     sha256 c (concat (map (\<lambda>ti. op_Hash (PreviousOutPoint ti)
       @ le_bytes 4 (unat (op_Index (PreviousOutPoint ti)))) (MsgTxIn tx)))"

definition calcHashSequence :: "crypto \<Rightarrow> MsgTx \<Rightarrow> bytes" where
  "calcHashSequence c tx = sha256 c (concat (map (\<lambda>ti. le_bytes 4 (unat (Sequence ti))) (MsgTxIn tx)))"

definition calcHashOutputs :: "crypto \<Rightarrow> MsgTx \<Rightarrow> bytes" where
  "calcHashOutputs c tx = sha256 c (concat (map WriteTxOutBuf (MsgTxOut tx)))"

text \<open>A \<open>PrevOutputFetcher\<close>; \<open>None\<close> is a nil output, whose dereference panics.\<close>

type_synonym PrevOutputFetcher = "OutPoint \<Rightarrow> TxOut option"

fun fetch_all :: "PrevOutputFetcher \<Rightarrow> TxIn list \<Rightarrow> TxOut list res" where
  "fetch_all fetch [] = Inr []"
| "fetch_all fetch (ti # tis) =
     (case fetch (PreviousOutPoint ti) of None \<Rightarrow> Inl GoPanic
      | Some prevOut \<Rightarrow> rbind (fetch_all fetch tis) (\<lambda>tos. Inr (prevOut # tos)))"

definition calcHashInputAmounts :: "crypto \<Rightarrow> MsgTx \<Rightarrow> PrevOutputFetcher \<Rightarrow> bytes res" where
  "calcHashInputAmounts c tx fetch =
     rbind (fetch_all fetch (MsgTxIn tx)) (\<lambda>outs.
       Inr (sha256 c (concat (map (\<lambda>txo. le_bytes 8 (unat (Value txo))) outs))))"

definition calcHashInputScripts :: "crypto \<Rightarrow> MsgTx \<Rightarrow> PrevOutputFetcher \<Rightarrow> bytes res" where
  "calcHashInputScripts c tx fetch =
     rbind (fetch_all fetch (MsgTxIn tx)) (\<lambda>outs.
       Inr (sha256 c (concat (map (\<lambda>txo. WriteVarBytes (PkScript txo)) outs))))"

record TxSigHashes =
  HashPrevOutsV0 :: bytes
  HashSequenceV0 :: bytes
  HashOutputsV0 :: bytes
  HashPrevOutsV1 :: bytes
  HashSequenceV1 :: bytes
  HashOutputsV1 :: bytes
  HashInputScriptsV1 :: bytes
  HashInputAmountsV1 :: bytes

definition zeroHash :: bytes where "zeroHash = replicate 32 0"

text \<open>The scan of \<open>NewTxSigHashes\<close>: whether there are inputs spending v0 and v1 outputs.\<close>

fun scan_inputs :: "PrevOutputFetcher \<Rightarrow> TxIn list \<Rightarrow> bool \<Rightarrow> bool \<Rightarrow> (bool \<times> bool) res" where
  "scan_inputs fetch [] hasV0 hasV1 = Inr (hasV0, hasV1)"
| "scan_inputs fetch (ti # tis) hasV0 hasV1 =
     (let outpoint = PreviousOutPoint ti in
      if op_Index outpoint = 0xffffffff \<and> op_Hash outpoint = zeroHash
      then scan_inputs fetch tis True hasV1
      else case fetch outpoint of None \<Rightarrow> Inl GoPanic
        | Some prevOut \<Rightarrow>
            (let hasV0 = hasV0 \<or> \<not> isWitnessTaprootScript (PkScript prevOut);
                 hasV1 = hasV1 \<or> isWitnessTaprootScript (PkScript prevOut)
             in if hasV0 \<and> hasV1 then Inr (hasV0, hasV1) else scan_inputs fetch tis hasV0 hasV1))"

definition NewTxSigHashes :: "crypto \<Rightarrow> MsgTx \<Rightarrow> PrevOutputFetcher \<Rightarrow> TxSigHashes res" where
  "NewTxSigHashes c tx fetch =
     rbind (scan_inputs fetch (MsgTxIn tx) False False) (\<lambda>(hasV0Inputs, hasV1Inputs).
       let p = calcHashPrevOuts c tx; s = calcHashSequence c tx; out = calcHashOutputs c tx;
           base = \<lparr>HashPrevOutsV0 = (if hasV0Inputs then sha256 c p else zeroHash),
                   HashSequenceV0 = (if hasV0Inputs then sha256 c s else zeroHash),
                   HashOutputsV0 = (if hasV0Inputs then sha256 c out else zeroHash),
                   HashPrevOutsV1 = p, HashSequenceV1 = s, HashOutputsV1 = out,
                   HashInputScriptsV1 = zeroHash, HashInputAmountsV1 = zeroHash\<rparr>
       in if hasV1Inputs then
            rbind (calcHashInputAmounts c tx fetch) (\<lambda>a.
              rbind (calcHashInputScripts c tx fetch) (\<lambda>sc.
                Inr (base\<lparr>HashInputAmountsV1 := a, HashInputScriptsV1 := sc\<rparr>)))
          else Inr base)"

section \<open>The segwit v0 digest\<close>

definition witness_script_code :: "bytes \<Rightarrow> bytes" where
  "witness_script_code subScript =
     (case extractWitnessPubKeyHash subScript of
        Some h \<Rightarrow> [0x19, OP_DUP, OP_HASH160, OP_DATA_20] @ h @ [OP_EQUALVERIFY, OP_CHECKSIG]
      | None \<Rightarrow> WriteVarBytes subScript)"

text \<open>The error of an index out of range is no \<open>txscript.Error\<close>.\<close>

definition calcWitnessSignatureHashRaw ::
  "crypto \<Rightarrow> bytes \<Rightarrow> TxSigHashes \<Rightarrow> SigHashType \<Rightarrow> MsgTx \<Rightarrow> nat \<Rightarrow> u64 \<Rightarrow> bytes res" where
  "calcWitnessSignatureHashRaw c subScript sigHashes hashType tx idx amt =
     (if idx \<ge> length (MsgTxIn tx) then Inl ErrOther
      else let txIn = MsgTxIn tx ! idx; kind = hashType AND sigHashMask in
        Inr (DoubleHashB c (
          le_bytes 4 (unat (Version tx))
          @ (if hashType AND SigHashAnyOneCanPay = 0 then HashPrevOutsV0 sigHashes else zeroHash)
          @ (if hashType AND SigHashAnyOneCanPay = 0 \<and> kind \<noteq> SigHashSingle \<and> kind \<noteq> SigHashNone
             then HashSequenceV0 sigHashes else zeroHash)
          @ op_Hash (PreviousOutPoint txIn) @ le_bytes 4 (unat (op_Index (PreviousOutPoint txIn)))
          @ witness_script_code subScript
          @ le_bytes 8 (unat amt) @ le_bytes 4 (unat (Sequence txIn))
          @ (if kind \<noteq> SigHashSingle \<and> kind \<noteq> SigHashNone then HashOutputsV0 sigHashes
             else if kind = SigHashSingle \<and> idx < length (MsgTxOut tx)
             then DoubleHashB c (WriteTxOutBuf (MsgTxOut tx ! idx))
             else zeroHash)
          @ le_bytes 4 (unat (LockTime tx)) @ le_bytes 4 (unat hashType))))"

definition CalcWitnessSigHash ::
  "crypto \<Rightarrow> bytes \<Rightarrow> TxSigHashes \<Rightarrow> SigHashType \<Rightarrow> MsgTx \<Rightarrow> nat \<Rightarrow> u64 \<Rightarrow> bytes res" where
  "CalcWitnessSigHash c script sigHashes hType tx idx amt =
     rbind (checkScriptParses 0 script) (\<lambda>_. calcWitnessSignatureHashRaw c script sigHashes hType tx idx amt)"

section \<open>The taproot digest\<close>

record taprootSigHashOptions =
  extFlag :: u8
  annexHash :: "bytes option"
  opt_tapLeafHash :: bytes
  keyVersion :: u8
  opt_codeSepPos :: u32

definition defaultTaprootSighashOptions :: taprootSigHashOptions where
  "defaultTaprootSighashOptions =
     \<lparr>extFlag = 0, annexHash = None, opt_tapLeafHash = [], keyVersion = 0, opt_codeSepPos = 0\<rparr>"

definition WithAnnex :: "crypto \<Rightarrow> bytes \<Rightarrow> taprootSigHashOptions \<Rightarrow> taprootSigHashOptions" where
  "WithAnnex c annex opts = opts\<lparr>annexHash := Some (HashB c (WriteVarBytes annex))\<rparr>"

definition WithBaseTapscriptVersion :: "u32 \<Rightarrow> bytes \<Rightarrow> taprootSigHashOptions \<Rightarrow> taprootSigHashOptions" where
  "WithBaseTapscriptVersion codeSepPos tapLeafHash opts =
     opts\<lparr>extFlag := 1, opt_tapLeafHash := tapLeafHash, keyVersion := 0, opt_codeSepPos := codeSepPos\<rparr>"

definition writeDigestExtensions :: "taprootSigHashOptions \<Rightarrow> bytes" where
  "writeDigestExtensions t =
     (if extFlag t = 0 then []
      else if extFlag t = 1
      then opt_tapLeafHash t @ [keyVersion t] @ le_bytes 4 (unat (opt_codeSepPos t)) else [])"

definition isValidTaprootSigHash :: "SigHashType \<Rightarrow> bool" where
  "isValidTaprootSigHash hashType =
     (hashType = SigHashDefault \<or> hashType = SigHashAll \<or> hashType = SigHashNone \<or> hashType = SigHashSingle
      \<or> hashType = 0x81 \<or> hashType = 0x82 \<or> hashType = 0x83)"

definition calcTaprootSignatureHashRaw ::
  "crypto \<Rightarrow> TxSigHashes \<Rightarrow> SigHashType \<Rightarrow> MsgTx \<Rightarrow> nat \<Rightarrow> PrevOutputFetcher \<Rightarrow> taprootSigHashOptions
   \<Rightarrow> bytes res" where
  "calcTaprootSignatureHashRaw c sigHashes hType tx idx fetch opts =
     (if \<not> isValidTaprootSigHash hType then Inl ErrOther
      else if idx \<ge> length (MsgTxIn tx) then Inl ErrOther
      else let input = MsgTxIn tx ! idx;
               acp = (hType AND SigHashAnyOneCanPay = SigHashAnyOneCanPay);
               pre = 0x00 # ucast hType # le_bytes 4 (unat (Version tx)) @ le_bytes 4 (unat (LockTime tx))
                 @ (if \<not> acp then HashPrevOutsV1 sigHashes @ HashInputAmountsV1 sigHashes
                      @ HashInputScriptsV1 sigHashes @ HashSequenceV1 sigHashes else [])
                 @ (if hType AND SigHashSingle \<noteq> SigHashSingle \<and> hType AND SigHashSingle \<noteq> SigHashNone
                    then HashOutputsV1 sigHashes else [])
                 @ [extFlag opts * 2 + (if annexHash opts \<noteq> None then 1 else 0)]
           in rbind (if acp then
                (case fetch (PreviousOutPoint input) of None \<Rightarrow> Inl GoPanic
                 | Some prevOut \<Rightarrow> Inr (writeOutPointBuf (PreviousOutPoint input) @ WriteTxOutBuf prevOut
                     @ le_bytes 4 (unat (Sequence input))))
              else Inr (le_bytes 4 idx)) (\<lambda>inp.
             if hType AND sigHashMask = SigHashSingle \<and> idx \<ge> length (MsgTxOut tx) then Inl ErrOther
             else Inr (TaggedHash c TagTapSighash
               [pre @ inp @ (case annexHash opts of Some h \<Rightarrow> h | None \<Rightarrow> [])
                @ (if hType AND sigHashMask = SigHashSingle
                   then sha256 c (WriteTxOutBuf (MsgTxOut tx ! idx)) else [])
                @ writeDigestExtensions opts])))"

section \<open>Prefix codes\<close>

text \<open>
  What a digest commits to rests on the encodings being uniquely readable: no encoding of a value is
  a prefix of the encoding of another one. The law for one field gives it for a list of them.
\<close>

locale prefix_code =
  fixes enc :: "'a \<Rightarrow> bytes" and ok :: "'a \<Rightarrow> bool" and same :: "'a \<Rightarrow> 'b"
  assumes unique: "ok x \<Longrightarrow> ok y \<Longrightarrow> enc x @ r = enc y @ q \<Longrightarrow> same x = same y \<and> r = q"
begin

lemma list_unique:
  "length xs = length ys \<Longrightarrow> list_all ok xs \<Longrightarrow> list_all ok ys \<Longrightarrow>
     concat (map enc xs) @ r = concat (map enc ys) @ q \<Longrightarrow> map same xs = map same ys \<and> r = q"
proof (induction xs ys rule: list_induct2)
  case (Cons x xs y ys)
  then have "same x = same y \<and> concat (map enc xs) @ r = concat (map enc ys) @ q"
    by (intro unique) auto
  with Cons show ?case by auto
qed auto

lemma counted_unique:
  assumes "length xs < 2 ^ 64" "length ys < 2 ^ 64" "list_all ok xs" "list_all ok ys"
    and eq: "WriteVarInt (length xs) @ concat (map enc xs) @ r = WriteVarInt (length ys) @ concat (map enc ys) @ q"
  shows "map same xs = map same ys \<and> r = q"
proof -
  have "length xs = length ys \<and> concat (map enc xs) @ r = concat (map enc ys) @ q"
    using varint.enc_inject [OF assms(1,2) eq] by simp
  then show ?thesis using list_unique assms by blast
qed

end

lemma WriteVarBytes_unique:
  assumes "length b < 2 ^ 64" "length d < 2 ^ 64" "WriteVarBytes b @ r = WriteVarBytes d @ q"
  shows "b = d \<and> r = q"
  using varint.enc_inject [OF assms(1,2), of "b @ r" "d @ q"] assms(3) by (auto simp: WriteVarBytes_def)

lemma le4_unique: "le_bytes 4 (unat (v :: u32)) @ r = le_bytes 4 (unat w) @ q \<Longrightarrow> v = w \<and> r = q"
  using u32.enc_inject by blast

definition go_txin :: "TxIn \<Rightarrow> bool" where
  "go_txin ti \<longleftrightarrow> length (op_Hash (PreviousOutPoint ti)) = 32 \<and> length (SignatureScript ti) < 2 ^ 64"

definition go_txout :: "TxOut \<Rightarrow> bool" where
  "go_txout txo \<longleftrightarrow> length (PkScript txo) < 2 ^ 64"

text \<open>What every transaction in memory satisfies: hashes are arrays of 32 bytes, lengths fit a machine word.\<close>

definition go_tx :: "MsgTx \<Rightarrow> bool" where
  "go_tx tx \<longleftrightarrow> length (MsgTxIn tx) < 2 ^ 64 \<and> length (MsgTxOut tx) < 2 ^ 64
     \<and> list_all go_txin (MsgTxIn tx) \<and> list_all go_txout (MsgTxOut tx)"

interpretation inputs: prefix_code writeTxInBuf go_txin strip_witness
proof
  fix x y r q
  assume ok: "go_txin x" "go_txin y" and eq: "writeTxInBuf x @ r = writeTxInBuf y @ q"
  from eq have "writeOutPointBuf (PreviousOutPoint x) @ WriteVarBytes (SignatureScript x) @ le_bytes 4 (unat (Sequence x)) @ r
    = writeOutPointBuf (PreviousOutPoint y) @ WriteVarBytes (SignatureScript y) @ le_bytes 4 (unat (Sequence y)) @ q"
    by (simp add: writeTxInBuf_def)
  then have p: "PreviousOutPoint x = PreviousOutPoint y" and
    "WriteVarBytes (SignatureScript x) @ le_bytes 4 (unat (Sequence x)) @ r
     = WriteVarBytes (SignatureScript y) @ le_bytes 4 (unat (Sequence y)) @ q"
    using outpoint.enc_inject [of "PreviousOutPoint x" "PreviousOutPoint y"] ok
    unfolding go_txin_def by blast+
  then have "SignatureScript x = SignatureScript y \<and> le_bytes 4 (unat (Sequence x)) @ r = le_bytes 4 (unat (Sequence y)) @ q"
    using ok by (intro WriteVarBytes_unique) (auto simp: go_txin_def)
  then have "SignatureScript x = SignatureScript y" "Sequence x = Sequence y" "r = q"
    using le4_unique by blast+
  then show "strip_witness x = strip_witness y \<and> r = q"
    using p by (cases x, cases y) (simp add: strip_witness_def)
qed

interpretation outputs: prefix_code WriteTxOutBuf go_txout "\<lambda>txo. txo"
proof
  fix x y :: TxOut and r q
  assume ok: "go_txout x" "go_txout y" and eq: "WriteTxOutBuf x @ r = WriteTxOutBuf y @ q"
  then have "le_bytes 8 (unat (Value x)) @ WriteVarBytes (PkScript x) @ r
      = le_bytes 8 (unat (Value y)) @ WriteVarBytes (PkScript y) @ q"
    by (simp add: WriteTxOutBuf_def)
  then have v: "Value x = Value y" and "WriteVarBytes (PkScript x) @ r = WriteVarBytes (PkScript y) @ q"
    using u64.enc_inject [OF TrueI TrueI] by blast+
  then have "PkScript x = PkScript y" "r = q"
    using WriteVarBytes_unique [of "PkScript x" "PkScript y"] ok unfolding go_txout_def by blast+
  then show "x = y \<and> r = q" using v by (cases x, cases y) simp
qed

lemma SerializeNoWitness_unique:
  assumes ok: "go_tx x" "go_tx y" and eq: "SerializeNoWitness x @ r = SerializeNoWitness y @ q"
  shows "Version x = Version y \<and> map strip_witness (MsgTxIn x) = map strip_witness (MsgTxIn y)
    \<and> MsgTxOut x = MsgTxOut y \<and> LockTime x = LockTime y \<and> r = q"
proof -
  let ?t = "\<lambda>z r. le_bytes 4 (unat (LockTime z)) @ r"
  let ?o = "\<lambda>z r. WriteVarInt (length (MsgTxOut z)) @ concat (map WriteTxOutBuf (MsgTxOut z)) @ ?t z r"
  let ?i = "\<lambda>z r. WriteVarInt (length (MsgTxIn z)) @ concat (map writeTxInBuf (MsgTxIn z)) @ ?o z r"
  have "le_bytes 4 (unat (Version x)) @ ?i x r = le_bytes 4 (unat (Version y)) @ ?i y q"
    using eq by (simp add: SerializeNoWitness_def btcEncode_def Let_def)
  then have v: "Version x = Version y" and "?i x r = ?i y q" using le4_unique by blast+
  then have i: "map strip_witness (MsgTxIn x) = map strip_witness (MsgTxIn y) \<and> ?o x r = ?o y q"
    using ok by (intro inputs.counted_unique) (auto simp: go_tx_def)
  then have "map (\<lambda>txo. txo) (MsgTxOut x) = map (\<lambda>txo. txo) (MsgTxOut y) \<and> ?t x r = ?t y q"
    using ok by (intro outputs.counted_unique) (auto simp: go_tx_def)
  then have "MsgTxOut x = MsgTxOut y" "?t x r = ?t y q" by simp_all
  moreover from this(2) have "LockTime x = LockTime y" "r = q" using le4_unique by blast+
  ultimately show ?thesis using v i by simp
qed

section \<open>What the legacy digest commits to\<close>

definition legacy_preimage :: "bytes \<Rightarrow> SigHashType \<Rightarrow> MsgTx \<Rightarrow> nat \<Rightarrow> bytes" where
  "legacy_preimage script hashType tx idx =
     SerializeNoWitness (sighash_copy (removeOpcodeRaw script OP_CODESEPARATOR) hashType tx idx)
     @ le_bytes 4 (unat hashType)"

definition signs_all :: "SigHashType \<Rightarrow> bool" where
  "signs_all hashType \<longleftrightarrow> hashType AND sigHashMask \<noteq> SigHashNone \<and> hashType AND sigHashMask \<noteq> SigHashSingle
     \<and> hashType AND SigHashAnyOneCanPay = 0"

lemma calcSignatureHash_all:
  "signs_all ht \<Longrightarrow> calcSignatureHash c s ht tx i = Inr (DoubleHashB c (legacy_preimage s ht tx i))"
  by (simp add: signs_all_def calcSignatureHash_def legacy_preimage_def Let_def)

lemma sighash_copy_all:
  "signs_all ht \<Longrightarrow> sighash_copy s ht tx i = tx\<lparr>MsgTxIn := clear_inputs s i (MsgTxIn tx)\<rparr>"
  by (simp add: signs_all_def sighash_copy_def Let_def)

lemma length_clear_inputs [simp]: "length (clear_inputs s i tis) = length tis"
  by (simp add: clear_inputs_def)

lemma nth_clear_inputs:
  "k < length tis \<Longrightarrow> clear_inputs s i tis ! k = (tis ! k)\<lparr>SignatureScript := (if k = i then s else [])\<rparr>"
  by (simp add: clear_inputs_def nth_enumerate_eq)

lemma go_tx_clear:
  assumes "go_tx tx" "length s < 2 ^ 64"
  shows "go_tx (tx\<lparr>MsgTxIn := clear_inputs s i (MsgTxIn tx)\<rparr>)"
  using assms by (simp add: go_tx_def list_all_length nth_clear_inputs go_txin_def)

lemma clear_inputs_fields:
  "map PreviousOutPoint (map strip_witness (clear_inputs s i tis)) = map PreviousOutPoint tis"
  "map Sequence (map strip_witness (clear_inputs s i tis)) = map Sequence tis"
  by (auto intro!: nth_equalityI simp: nth_clear_inputs)

lemma length_concat_filter: "length (concat (map f (filter P xs))) \<le> length (concat (map f xs))"
  by (induction xs) auto

lemma length_removeOpcodeRaw:
  assumes "script_err s = None"
  shows "length (removeOpcodeRaw s opcode) \<le> length s"
  using length_concat_filter [of enc_instr "\<lambda>i. fst i \<noteq> opcode" "script_instrs s"]
    removeOpcodeRaw_eq [OF assms, of opcode] script_parse(1) [OF assms] by simp

lemma legacy_preimage_all:
  assumes ok: "go_tx tx" "go_tx tx'" and len: "length s < 2 ^ 64" "length s' < 2 ^ 64"
    and p: "script_err s = None" "script_err s' = None"
    and all: "signs_all ht" "signs_all ht'"
    and eq: "legacy_preimage s ht tx i = legacy_preimage s' ht' tx' i'"
  shows "ht = ht' \<and> Version tx = Version tx' \<and> LockTime tx = LockTime tx' \<and> MsgTxOut tx = MsgTxOut tx'
    \<and> map PreviousOutPoint (MsgTxIn tx) = map PreviousOutPoint (MsgTxIn tx')
    \<and> map Sequence (MsgTxIn tx) = map Sequence (MsgTxIn tx')
    \<and> (\<forall>k<length (MsgTxIn tx). (if k = i then removeOpcodeRaw s OP_CODESEPARATOR else [])
        = (if k = i' then removeOpcodeRaw s' OP_CODESEPARATOR else []))"
proof -
  let ?s = "removeOpcodeRaw s OP_CODESEPARATOR" and ?s' = "removeOpcodeRaw s' OP_CODESEPARATOR"
  let ?t = "tx\<lparr>MsgTxIn := clear_inputs ?s i (MsgTxIn tx)\<rparr>"
  let ?t' = "tx'\<lparr>MsgTxIn := clear_inputs ?s' i' (MsgTxIn tx')\<rparr>"
  have "length ?s < 2 ^ 64" "length ?s' < 2 ^ 64"
    using len length_removeOpcodeRaw p by (meson le_less_trans)+
  then have g: "go_tx ?t" "go_tx ?t'" using go_tx_clear ok by blast+
  have "SerializeNoWitness ?t @ le_bytes 4 (unat ht) = SerializeNoWitness ?t' @ le_bytes 4 (unat ht')"
    using eq all by (simp add: legacy_preimage_def sighash_copy_all)
  note u = SerializeNoWitness_unique [OF g this]
  have ins: "map strip_witness (clear_inputs ?s i (MsgTxIn tx)) = map strip_witness (clear_inputs ?s' i' (MsgTxIn tx'))"
    using u by simp
  have f: "map PreviousOutPoint (MsgTxIn tx) = map PreviousOutPoint (MsgTxIn tx')"
    "map Sequence (MsgTxIn tx) = map Sequence (MsgTxIn tx')"
    using ins clear_inputs_fields by metis+
  have "(if k = i then ?s else []) = (if k = i' then ?s' else [])" if "k < length (MsgTxIn tx)" for k
  proof -
    have "k < length (MsgTxIn tx')" using that map_eq_imp_length_eq [OF f(1)] by simp
    then show ?thesis
      using that arg_cong [OF ins, of "\<lambda>l. SignatureScript (l ! k)"] by (simp add: nth_clear_inputs)
  qed
  then show ?thesis using u f le4_unique [of ht "[]" ht' "[]"] by simp
qed

section \<open>What a digest ignores\<close>

text \<open>Two inputs that differ in their signature script and witness only.\<close>

definition same_spend :: "TxIn \<Rightarrow> TxIn \<Rightarrow> bool" where
  "same_spend a b \<longleftrightarrow> PreviousOutPoint a = PreviousOutPoint b \<and> Sequence a = Sequence b"

lemma clear_inputs_same:
  assumes "list_all2 same_spend tis tis'"
  shows "map strip_witness (clear_inputs s i tis) = map strip_witness (clear_inputs s i tis')"
  using assms
  by (auto intro!: nth_equalityI simp: nth_clear_inputs list_all2_conv_all_nth same_spend_def strip_witness_def)

lemma zero_sequences_strip:
  "map strip_witness (zero_sequences i tis) = zero_sequences i (map strip_witness tis)"
  by (auto intro!: nth_equalityI simp: zero_sequences_def nth_enumerate_eq strip_witness_def)

lemma enc_ins_strip: "concat (map writeTxInBuf (map strip_witness tis)) = concat (map writeTxInBuf tis)"
  by (simp add: comp_def)

definition strip_tx :: "MsgTx \<Rightarrow> MsgTx" where
  "strip_tx tx = tx\<lparr>MsgTxIn := map strip_witness (MsgTxIn tx)\<rparr>"

lemma SerializeNoWitness_strip: "SerializeNoWitness (strip_tx tx) = SerializeNoWitness tx"
  by (simp add: SerializeNoWitness_def btcEncode_def strip_tx_def Let_def comp_def)

lemma sighash_copy_strip:
  assumes "list_all2 same_spend (MsgTxIn tx) tis"
  shows "strip_tx (sighash_copy s ht (tx\<lparr>MsgTxIn := tis\<rparr>) i) = strip_tx (sighash_copy s ht tx i)"
  using clear_inputs_same [OF assms, of s i]
  by (simp add: sighash_copy_def strip_tx_def Let_def zero_sequences_strip flip: take_map drop_map)

section \<open>Cached fragments against BIP 143 and BIP 341\<close>

text \<open>The digest of BIP 143 as the document states it, hashing the whole transaction for each input.\<close>

definition bip143_digest :: "crypto \<Rightarrow> bytes \<Rightarrow> SigHashType \<Rightarrow> MsgTx \<Rightarrow> nat \<Rightarrow> u64 \<Rightarrow> bytes" where
  "bip143_digest c script ht tx idx amt =
     (let ins = MsgTxIn tx; acp = (ht AND SigHashAnyOneCanPay \<noteq> 0);
          single = (ht AND sigHashMask = SigHashSingle); none = (ht AND sigHashMask = SigHashNone);
          hashPrevouts = (if acp then zeroHash
            else DoubleHashB c (concat (map (\<lambda>ti. writeOutPointBuf (PreviousOutPoint ti)) ins)));
          hashSequence = (if acp \<or> single \<or> none then zeroHash
            else DoubleHashB c (concat (map (\<lambda>ti. le_bytes 4 (unat (Sequence ti))) ins)));
          hashOutputs = (if \<not> single \<and> \<not> none then DoubleHashB c (concat (map WriteTxOutBuf (MsgTxOut tx)))
            else if single \<and> idx < length (MsgTxOut tx) then DoubleHashB c (WriteTxOutBuf (MsgTxOut tx ! idx))
            else zeroHash)
      in DoubleHashB c (le_bytes 4 (unat (Version tx)) @ hashPrevouts @ hashSequence
           @ writeOutPointBuf (PreviousOutPoint (ins ! idx)) @ witness_script_code script
           @ le_bytes 8 (unat amt) @ le_bytes 4 (unat (Sequence (ins ! idx))) @ hashOutputs
           @ le_bytes 4 (unat (LockTime tx)) @ le_bytes 4 (unat ht)))"

definition spends_taproot :: "PrevOutputFetcher \<Rightarrow> TxIn \<Rightarrow> bool" where
  "spends_taproot fetch ti = (case fetch (PreviousOutPoint ti) of
     Some prevOut \<Rightarrow> isWitnessTaprootScript (PkScript prevOut) | None \<Rightarrow> False)"

definition null_outpoint :: "TxIn \<Rightarrow> bool" where
  "null_outpoint ti \<longleftrightarrow> op_Index (PreviousOutPoint ti) = 0xffffffff \<and> op_Hash (PreviousOutPoint ti) = zeroHash"

lemma scan_inputs_mono:
  "scan_inputs fetch tis a b = Inr (v0, v1) \<Longrightarrow> (a \<longrightarrow> v0) \<and> (b \<longrightarrow> v1)"
  by (induction fetch tis a b rule: scan_inputs.induct) (auto simp: Let_def split: if_splits option.splits)

lemma scan_inputs_finds:
  assumes "scan_inputs fetch tis a b = Inr (v0, v1)" "ti \<in> set tis"
  shows "(\<not> spends_taproot fetch ti \<longrightarrow> v0) \<and> (spends_taproot fetch ti \<and> \<not> null_outpoint ti \<longrightarrow> v1)"
  using assms
proof (induction fetch tis a b rule: scan_inputs.induct)
  case (2 fetch t tis a b)
  show ?case
  proof (cases "null_outpoint t")
    case True
    then have r: "scan_inputs fetch tis True b = Inr (v0, v1)" using 2(3) by (simp add: null_outpoint_def)
    then show ?thesis using 2(1) [OF refl] True 2(4) scan_inputs_mono [OF r] by (auto simp: null_outpoint_def)
  next
    case False
    then obtain prevOut where f: "fetch (PreviousOutPoint t) = Some prevOut"
      using 2(3) by (auto simp: null_outpoint_def Let_def split: if_splits option.splits)
    let ?a = "a \<or> \<not> isWitnessTaprootScript (PkScript prevOut)" and ?b = "b \<or> isWitnessTaprootScript (PkScript prevOut)"
    have r: "(if ?a \<and> ?b then Inr (?a, ?b) else scan_inputs fetch tis ?a ?b) = Inr (v0, v1)"
      using 2(3) False unfolding scan_inputs.simps Let_def null_outpoint_def by (simp only: if_False f option.case)
    show ?thesis
    proof (cases "?a \<and> ?b")
      case True
      then show ?thesis using r by simp
    next
      case no: False
      then have s: "scan_inputs fetch tis ?a ?b = Inr (v0, v1)" using r by (simp only: if_False)
      have "(\<not> spends_taproot fetch ti \<longrightarrow> v0) \<and> (spends_taproot fetch ti \<and> \<not> null_outpoint ti \<longrightarrow> v1)" if "ti \<in> set tis"
        using 2(2) [OF refl _ f refl refl _ s that] False no by (simp add: null_outpoint_def)
      then show ?thesis using 2(4) f scan_inputs_mono [OF s] by (auto simp: spends_taproot_def)
    qed
  qed
qed simp

lemma NewTxSigHashes_fragments:
  assumes "NewTxSigHashes c tx fetch = Inr sh" "ti \<in> set (MsgTxIn tx)"
  shows "\<not> spends_taproot fetch ti \<Longrightarrow> HashPrevOutsV0 sh = sha256 c (calcHashPrevOuts c tx)
      \<and> HashSequenceV0 sh = sha256 c (calcHashSequence c tx) \<and> HashOutputsV0 sh = sha256 c (calcHashOutputs c tx)"
    and "HashPrevOutsV1 sh = calcHashPrevOuts c tx \<and> HashSequenceV1 sh = calcHashSequence c tx
      \<and> HashOutputsV1 sh = calcHashOutputs c tx"
    and "spends_taproot fetch ti \<Longrightarrow> \<not> null_outpoint ti \<Longrightarrow>
      calcHashInputAmounts c tx fetch = Inr (HashInputAmountsV1 sh)
      \<and> calcHashInputScripts c tx fetch = Inr (HashInputScriptsV1 sh)"
proof -
  obtain v0 v1 where sc: "scan_inputs fetch (MsgTxIn tx) False False = Inr (v0, v1)"
    using assms(1) by (auto simp: NewTxSigHashes_def rbind_eq_Inr)
  note new = assms(1) [unfolded NewTxSigHashes_def sc rbind_Inr prod.case Let_def]
  note fnd = scan_inputs_finds [OF sc assms(2)]
  show "\<not> spends_taproot fetch ti \<Longrightarrow> HashPrevOutsV0 sh = sha256 c (calcHashPrevOuts c tx)
      \<and> HashSequenceV0 sh = sha256 c (calcHashSequence c tx) \<and> HashOutputsV0 sh = sha256 c (calcHashOutputs c tx)"
    using new fnd by (auto simp: rbind_eq_Inr split: if_splits)
  show "HashPrevOutsV1 sh = calcHashPrevOuts c tx \<and> HashSequenceV1 sh = calcHashSequence c tx
      \<and> HashOutputsV1 sh = calcHashOutputs c tx"
    using new by (auto simp: rbind_eq_Inr split: if_splits)
  show "calcHashInputAmounts c tx fetch = Inr (HashInputAmountsV1 sh)
      \<and> calcHashInputScripts c tx fetch = Inr (HashInputScriptsV1 sh)" if "spends_taproot fetch ti" "\<not> null_outpoint ti"
    using new fnd that by (auto simp: rbind_eq_Inr split: if_splits)
qed

section \<open>Properties\<close>

text \<open>C34: A legacy signature with a hash type that signs all inputs and outputs commits to them, to the input it
  is for and to the script code: if the digests of two spends agree, the two spends have the same hash type,
  version, lock time, outputs, spent outpoints and sequence numbers, and the same input with the same script code
  up to code separators (or both script codes are empty, which no longer tells the inputs apart), unless the two
  preimages are a collision of the double SHA-256.\<close>

theorem legacy_sighash_commits:
  assumes "go_tx tx" "go_tx tx'" "length s < 2 ^ 31" "length s' < 2 ^ 31"
    and "signs_all ht" "signs_all ht'" "i < length (MsgTxIn tx)" "i' < length (MsgTxIn tx')"
    and "CalcSignatureHash c s ht tx i = Inr h" "CalcSignatureHash c s' ht' tx' i' = Inr h"
  shows "(ht = ht' \<and> Version tx = Version tx' \<and> LockTime tx = LockTime tx' \<and> MsgTxOut tx = MsgTxOut tx'
    \<and> map PreviousOutPoint (MsgTxIn tx) = map PreviousOutPoint (MsgTxIn tx')
    \<and> map Sequence (MsgTxIn tx) = map Sequence (MsgTxIn tx')
    \<and> removeOpcodeRaw s OP_CODESEPARATOR = removeOpcodeRaw s' OP_CODESEPARATOR
    \<and> (i = i' \<or> removeOpcodeRaw s OP_CODESEPARATOR = []))
    \<or> (legacy_preimage s ht tx i \<noteq> legacy_preimage s' ht' tx' i'
       \<and> DoubleHashB c (legacy_preimage s ht tx i) = DoubleHashB c (legacy_preimage s' ht' tx' i'))"
proof -
  have len: "length s < 2 ^ 64" "length s' < 2 ^ 64" using assms(3,4) by simp_all
  have p: "script_err s = None" "script_err s' = None"
    and h: "calcSignatureHash c s ht tx i = Inr h" "calcSignatureHash c s' ht' tx' i' = Inr h"
    using assms(9,10) by (auto simp: CalcSignatureHash_def rbind_eq_Inr checkScriptParses_def script_err_def split: option.splits)
  then have "DoubleHashB c (legacy_preimage s ht tx i) = DoubleHashB c (legacy_preimage s' ht' tx' i')"
    using calcSignatureHash_all [OF assms(5), of c s tx i] calcSignatureHash_all [OF assms(6), of c s' tx' i'] by simp
  moreover have "length (MsgTxIn tx) = length (MsgTxIn tx')"
    if "map PreviousOutPoint (MsgTxIn tx) = map PreviousOutPoint (MsgTxIn tx')" using map_eq_imp_length_eq [OF that] .
  ultimately show ?thesis using legacy_preimage_all [OF assms(1,2) len p assms(5,6)] assms(7,8) by (metis (no_types))
qed

text \<open>The legacy digest of an input depends on no signature script and no witness of the
  transaction: inputs may be signed in any order, and malleating a signature does not invalidate
  the others.\<close>

theorem legacy_sighash_ignores_signatures:
  assumes "list_all2 same_spend (MsgTxIn tx) tis"
  shows "calcSignatureHash c s ht (tx\<lparr>MsgTxIn := tis\<rparr>) i = calcSignatureHash c s ht tx i"
proof -
  let ?s = "removeOpcodeRaw s OP_CODESEPARATOR"
  have "SerializeNoWitness (sighash_copy ?s ht (tx\<lparr>MsgTxIn := tis\<rparr>) i) = SerializeNoWitness (sighash_copy ?s ht tx i)"
    using sighash_copy_strip [OF assms, of ?s ht i] SerializeNoWitness_strip by metis
  then show ?thesis
    using list_all2_lengthD [OF assms] by (simp add: calcSignatureHash_def Let_def)
qed

text \<open>C35: With the fragments that \<open>NewTxSigHashes\<close> caches, the segwit digest of an input that does not
  spend a taproot output is the digest of BIP 143, for every hash type: the scan that decides which
  fragments are filled in never skips one that is needed.\<close>

theorem segwit_digest_is_bip143:
  assumes "NewTxSigHashes c tx fetch = Inr sh" "idx < length (MsgTxIn tx)"
    and "\<not> spends_taproot fetch (MsgTxIn tx ! idx)"
  shows "calcWitnessSignatureHashRaw c script sh ht tx idx amt = Inr (bip143_digest c script ht tx idx amt)"
  using NewTxSigHashes_fragments(1) [OF assms(1) nth_mem [OF assms(2)] assms(3)] assms(2)
  by (simp add: calcWitnessSignatureHashRaw_def bip143_digest_def Let_def DoubleHashB_def calcHashPrevOuts_def
      calcHashSequence_def calcHashOutputs_def writeOutPointBuf_def)

section \<open>Witnesses\<close>

text \<open>A concrete instance of the parameters, for evaluation: no hashing, every signature verifies.\<close>

definition toy_crypto :: crypto where
  "toy_crypto = \<lparr>sha1 = id, sha256 = id, ripemd160 = id, ParsePubKey = Some, ParseDERSignature = Some,
     ParseSignature = Some, ecdsa_Verify = (\<lambda>_ _ _. True), schnorr_ParsePubKey = Some,
     schnorr_ParseSignature = Some, schnorr_Verify = (\<lambda>_ _ _. True), schnorr_SerializePubKey = id,
     add_tweak = (\<lambda>_ _. []), y_is_odd = (\<lambda>_. False), curve_N = 2 ^ 256\<rparr>"

lemma checksig_parses: "script_err [OP_CHECKSIG] = None"
  using script_instrs_enc(2) [of "[(OP_CHECKSIG, [])]"] by (simp add: enc_instr_def len_width_def wf_instr_def)

definition resigned_tx :: MsgTx where
  "resigned_tx = sample_tx\<lparr>MsgTxIn := map (\<lambda>ti. ti\<lparr>SignatureScript := [1, 2]\<rparr>) (MsgTxIn sample_tx)\<rparr>"

lemma resigned_same_spend: "list_all2 same_spend (MsgTxIn sample_tx) (MsgTxIn resigned_tx)"
  by (simp add: resigned_tx_def sample_tx_def same_spend_def)

lemma go_samples: "go_tx sample_tx" "go_tx resigned_tx"
  by (simp_all add: resigned_tx_def sample_tx_def go_tx_def go_txin_def go_txout_def)

theorem legacy_sighash_ignores_signatures_witness:
  "calcSignatureHash toy_crypto [OP_CHECKSIG] SigHashAll resigned_tx 0
   = calcSignatureHash toy_crypto [OP_CHECKSIG] SigHashAll sample_tx 0"
  using legacy_sighash_ignores_signatures [OF resigned_same_spend]
  by (simp add: resigned_tx_def)

text \<open>Two spends that differ in their signature scripts and in a code separator have the same digest, and
  the theorem finds what they agree in; the two inputs of one transaction have different digests.\<close>

definition pair_tx :: MsgTx where
  "pair_tx = sample_tx\<lparr>MsgTxIn := MsgTxIn sample_tx @ MsgTxIn sample_tx\<rparr>"

lemma separator_script:
  "script_err [OP_CODESEPARATOR, OP_CHECKSIG] = None"
  "removeOpcodeRaw [OP_CODESEPARATOR, OP_CHECKSIG] OP_CODESEPARATOR = [OP_CHECKSIG]"
  "removeOpcodeRaw [OP_CHECKSIG] OP_CODESEPARATOR = [OP_CHECKSIG]"
  by code_simp+

lemma CalcSignatureHash_all:
  "signs_all ht \<Longrightarrow> script_err s = None \<Longrightarrow>
   CalcSignatureHash c s ht tx i = Inr (DoubleHashB c (legacy_preimage s ht tx i))"
  by (simp add: CalcSignatureHash_def checkScriptParses_def script_err_def calcSignatureHash_all)

theorem legacy_sighash_commits_witness:
  "\<exists>h h1. CalcSignatureHash toy_crypto [OP_CHECKSIG] SigHashAll sample_tx 0 = Inr h
     \<and> CalcSignatureHash toy_crypto [OP_CODESEPARATOR, OP_CHECKSIG] SigHashAll resigned_tx 0 = Inr h
     \<and> MsgTxIn sample_tx \<noteq> MsgTxIn resigned_tx \<and> MsgTxOut sample_tx = MsgTxOut resigned_tx
     \<and> map PreviousOutPoint (MsgTxIn sample_tx) = map PreviousOutPoint (MsgTxIn resigned_tx)
     \<and> CalcSignatureHash toy_crypto [OP_CHECKSIG] SigHashAll pair_tx 0 = Inr h1
     \<and> CalcSignatureHash toy_crypto [OP_CHECKSIG] SigHashAll pair_tx 1 \<noteq> Inr h1"
proof -
  have all: "signs_all SigHashAll" by (simp add: signs_all_def)
  have inj: "DoubleHashB toy_crypto x = x" for x by (simp add: toy_crypto_def DoubleHashB_def)
  have one: "length (MsgTxIn sample_tx) = 1" "length (MsgTxIn resigned_tx) = 1" "length (MsgTxIn pair_tx) = 2"
    by (simp_all add: resigned_tx_def sample_tx_def pair_tx_def)
  have "legacy_preimage [OP_CODESEPARATOR, OP_CHECKSIG] SigHashAll resigned_tx 0 = legacy_preimage [OP_CHECKSIG] SigHashAll sample_tx 0"
    using sighash_copy_strip [OF resigned_same_spend] SerializeNoWitness_strip
    by (metis (no_types, lifting) legacy_preimage_def separator_script(2,3) resigned_tx_def MsgTx.surjective MsgTx.update_convs(2) MsgTx.select_convs(2))
  then have h: "CalcSignatureHash toy_crypto [OP_CHECKSIG] SigHashAll sample_tx 0 = Inr (legacy_preimage [OP_CHECKSIG] SigHashAll sample_tx 0)"
    "CalcSignatureHash toy_crypto [OP_CODESEPARATOR, OP_CHECKSIG] SigHashAll resigned_tx 0 = Inr (legacy_preimage [OP_CHECKSIG] SigHashAll sample_tx 0)"
    by (simp_all add: CalcSignatureHash_all [OF all] checksig_parses separator_script(1) inj)
  have same: "MsgTxOut sample_tx = MsgTxOut resigned_tx"
    "map PreviousOutPoint (MsgTxIn sample_tx) = map PreviousOutPoint (MsgTxIn resigned_tx)"
    using legacy_sighash_commits [OF go_samples _ _ all all _ _ h] by (simp_all add: one inj)
  have "go_tx pair_tx" by (simp add: pair_tx_def sample_tx_def go_tx_def go_txin_def go_txout_def)
  from legacy_sighash_commits [OF this this _ _ all all, of "[OP_CHECKSIG]" "[OP_CHECKSIG]" 0 1 toy_crypto]
  have "CalcSignatureHash toy_crypto [OP_CHECKSIG] SigHashAll pair_tx 1 \<noteq> Inr (legacy_preimage [OP_CHECKSIG] SigHashAll pair_tx 0)"
    by (auto simp: one inj separator_script(3) CalcSignatureHash_all [OF all] checksig_parses)
  moreover have "CalcSignatureHash toy_crypto [OP_CHECKSIG] SigHashAll pair_tx 0 = Inr (legacy_preimage [OP_CHECKSIG] SigHashAll pair_tx 0)"
    by (simp add: CalcSignatureHash_all [OF all] checksig_parses inj)
  moreover have "MsgTxIn sample_tx \<noteq> MsgTxIn resigned_tx" by (simp add: resigned_tx_def sample_tx_def)
  ultimately show ?thesis using h same by blast
qed

theorem segwit_digest_is_bip143_witness:
  "\<exists>sh. calcWitnessSignatureHashRaw toy_crypto [OP_CHECKSIG] sh SigHashAll sample_tx 0 5000
     = Inr (bip143_digest toy_crypto [OP_CHECKSIG] SigHashAll sample_tx 0 5000)"
proof -
  let ?f = "\<lambda>_ :: OutPoint. Some \<lparr>Value = 5000, PkScript = [OP_1]\<rparr>"
  have nt: "\<not> isWitnessTaprootScript [OP_1]"
    by (simp add: isWitnessTaprootScript_def extractWitnessV1KeyBytes_def)
  then obtain sh where "NewTxSigHashes toy_crypto sample_tx ?f = Inr sh"
    by (simp add: NewTxSigHashes_def sample_tx_def zeroHash_def Let_def)
  then show ?thesis
    using segwit_digest_is_bip143 [of toy_crypto sample_tx ?f sh 0] nt
    by (auto simp: sample_tx_def spends_taproot_def)
qed

end
