(* ===== verification/Script_Taproot.thy ===== *)
theory Script_Taproot
  imports Script_Sighash
begin

unbundle bit_operations_syntax

text \<open>
  The signature cache (\<open>sigcache.go\<close>), the taproot signature verifier (\<open>sigvalidate.go\<close>) and
  taproot commitments (\<open>taproot.go\<close>): control blocks, script trees and their inclusion proofs.
\<close>

section \<open>The signature cache\<close>

text \<open>
  The map of valid signatures is a list of keyed entries. Which entry a full cache evicts depends on
  the iteration order of Go maps: the \<open>n\<close>-th eviction takes the entry at position \<open>choices n\<close>, for an
  arbitrary function \<open>choices\<close>.
\<close>

record sigCacheEntry =
  entry_sig :: bytes
  entry_pubKey :: bytes

record SigCache =
  validSigs :: "(bytes \<times> sigCacheEntry) list"
  maxEntries :: nat
  choices :: "nat \<Rightarrow> nat"
  evictions :: nat

definition NewSigCache :: "nat \<Rightarrow> (nat \<Rightarrow> nat) \<Rightarrow> SigCache" where
  "NewSigCache mx ch = \<lparr>validSigs = [], maxEntries = mx, choices = ch, evictions = 0\<rparr>"

definition Exists :: "SigCache \<Rightarrow> bytes \<Rightarrow> bytes \<Rightarrow> bytes \<Rightarrow> bool" where
  "Exists s sigHash sig pubKey =
     (case map_of (validSigs s) sigHash of
        None \<Rightarrow> False
      | Some entry \<Rightarrow> entry_pubKey entry = pubKey \<and> entry_sig entry = sig)"

definition evict :: "SigCache \<Rightarrow> SigCache" where
  "evict s = (let i = choices s (evictions s) mod length (validSigs s) in
     s\<lparr>validSigs := take i (validSigs s) @ drop (Suc i) (validSigs s), evictions := evictions s + 1\<rparr>)"

definition Add :: "bytes \<Rightarrow> bytes \<Rightarrow> bytes \<Rightarrow> SigCache \<Rightarrow> SigCache" where
  "Add sigHash sig pubKey s =
     (if maxEntries s = 0 then s
      else let s = (if length (validSigs s) + 1 > maxEntries s then evict s else s)
           in s\<lparr>validSigs := (sigHash, \<lparr>entry_sig = sig, entry_pubKey = pubKey\<rparr>)
                 # filter (\<lambda>e. fst e \<noteq> sigHash) (validSigs s)\<rparr>)"

section \<open>The taproot signature verifier\<close>

record taprootSigVerifier =
  tv_pubKey :: bytes
  tv_pkBytes :: bytes
  tv_fullSigBytes :: bytes
  tv_sig :: bytes
  tv_hashType :: SigHashType

text \<open>An error of the key and signature parsers is no \<open>txscript.Error\<close>.\<close>

definition parse_or_err :: "bytes option \<Rightarrow> bytes res" where
  "parse_or_err p = (case p of None \<Rightarrow> Inl ErrOther | Some x \<Rightarrow> Inr x)"

definition parseTaprootSigAndPubKey :: "crypto \<Rightarrow> bytes \<Rightarrow> bytes \<Rightarrow> (bytes \<times> bytes \<times> SigHashType) res" where
  "parseTaprootSigAndPubKey c pkBytes rawSig =
     rbind (parse_or_err (schnorr_ParsePubKey c pkBytes)) (\<lambda>pubKey.
       if length rawSig = 64 then
         rbind (parse_or_err (schnorr_ParseSignature c rawSig)) (\<lambda>sig. Inr (pubKey, sig, SigHashDefault))
       else if length rawSig = 65 \<and> rawSig ! 64 \<noteq> 0 then
         rbind (parse_or_err (schnorr_ParseSignature c (take 64 rawSig)))
           (\<lambda>sig. Inr (pubKey, sig, ucast (rawSig ! 64)))
       else Inl ErrInvalidTaprootSigLen)"

definition newTaprootSigVerifier :: "crypto \<Rightarrow> bytes \<Rightarrow> bytes \<Rightarrow> taprootSigVerifier res" where
  "newTaprootSigVerifier c pkBytes fullSigBytes =
     rbind (parseTaprootSigAndPubKey c pkBytes fullSigBytes) (\<lambda>(pubKey, sig, sigHashType).
       Inr \<lparr>tv_pubKey = pubKey, tv_pkBytes = pkBytes, tv_fullSigBytes = fullSigBytes, tv_sig = sig,
            tv_hashType = sigHashType\<rparr>)"

text \<open>The cache pointer is \<open>None\<close> for nil. A verification returns the cache it leaves behind.\<close>

definition taproot_verifySig ::
  "crypto \<Rightarrow> taprootSigVerifier \<Rightarrow> SigCache option \<Rightarrow> bytes \<Rightarrow> bool \<times> SigCache option" where
  "taproot_verifySig c t sigCache sigHash =
     (if (case sigCache of Some s \<Rightarrow> Exists s sigHash (tv_fullSigBytes t) (tv_pkBytes t) | None \<Rightarrow> False)
      then (True, sigCache)
      else if schnorr_Verify c (tv_sig t) sigHash (tv_pubKey t)
      then (True, map_option (Add sigHash (tv_fullSigBytes t) (tv_pkBytes t)) sigCache)
      else (False, sigCache))"

text \<open>
  \<open>Verify\<close> of both taproot verifiers, which differ in their options. An error of the digest gives an
  invalid signature; a panic stays one. A nil hash cache panics when one of its fields is read, which
  every hash type does but NONE and SINGLE with ANYONECANPAY.
\<close>

definition reads_hashCache :: "SigHashType \<Rightarrow> bool" where
  "reads_hashCache hType \<longleftrightarrow> hType AND SigHashAnyOneCanPay \<noteq> SigHashAnyOneCanPay
     \<or> hType AND SigHashSingle \<noteq> SigHashSingle \<and> hType AND SigHashSingle \<noteq> SigHashNone"

definition nilSigHashes :: TxSigHashes where
  "nilSigHashes = \<lparr>HashPrevOutsV0 = [], HashSequenceV0 = [], HashOutputsV0 = [], HashPrevOutsV1 = [],
     HashSequenceV1 = [], HashOutputsV1 = [], HashInputScriptsV1 = [], HashInputAmountsV1 = []\<rparr>"

definition taproot_Verify ::
  "crypto \<Rightarrow> taprootSigVerifier \<Rightarrow> taprootSigHashOptions \<Rightarrow> SigCache option \<Rightarrow> TxSigHashes option
   \<Rightarrow> MsgTx \<Rightarrow> nat \<Rightarrow> PrevOutputFetcher \<Rightarrow> (bool \<times> SigCache option) res" where
  "taproot_Verify c t opts sigCache hashCache tx idx fetch =
     (if \<not> isValidTaprootSigHash (tv_hashType t) \<or> idx \<ge> length (MsgTxIn tx) then Inr (False, sigCache)
      else if hashCache = None \<and> reads_hashCache (tv_hashType t) then Inl GoPanic
      else let sigHashes = (case hashCache of None \<Rightarrow> nilSigHashes | Some h \<Rightarrow> h) in
        case calcTaprootSignatureHashRaw c sigHashes (tv_hashType t) tx idx fetch opts of
          Inl e \<Rightarrow> if e = GoPanic then Inl GoPanic else Inr (False, sigCache)
        | Inr sigHash \<Rightarrow> Inr (taproot_verifySig c t sigCache sigHash))"

definition VerifyTaprootKeySpend ::
  "crypto \<Rightarrow> bytes \<Rightarrow> bytes \<Rightarrow> MsgTx \<Rightarrow> nat \<Rightarrow> PrevOutputFetcher \<Rightarrow> TxSigHashes option \<Rightarrow> SigCache option
   \<Rightarrow> SigCache option res" where
  "VerifyTaprootKeySpend c witnessProgram rawSig tx idx fetch hashCache sigCache =
     (if idx \<ge> length (MsgTxIn tx) then Inl GoPanic
      else let witness = Witness (MsgTxIn tx ! idx);
               opts = (if isAnnexedWitness witness
                       then (case extractAnnex witness of
                               Inr annex \<Rightarrow> WithAnnex c annex defaultTaprootSighashOptions
                             | Inl _ \<Rightarrow> defaultTaprootSighashOptions)
                       else defaultTaprootSighashOptions)
           in rbind (newTaprootSigVerifier c witnessProgram rawSig) (\<lambda>t.
             rbind (taproot_Verify c t opts sigCache hashCache tx idx fetch) (\<lambda>(sigValid, sigCache).
               if sigValid then Inr sigCache else Inl ErrTaprootSigInvalid)))"

section \<open>Script trees and control blocks\<close>

abbreviation BaseLeafVersion :: u8 where "BaseLeafVersion \<equiv> 0xc0"

definition ControlBlockBaseSize :: nat where "ControlBlockBaseSize = 33"
definition ControlBlockNodeSize :: nat where "ControlBlockNodeSize = 32"
definition ControlBlockMaxNodeCount :: nat where "ControlBlockMaxNodeCount = 128"
definition ControlBlockMaxSize :: nat where
  "ControlBlockMaxSize = ControlBlockBaseSize + ControlBlockNodeSize * ControlBlockMaxNodeCount"

record TapLeaf =
  LeafVersion :: u8
  leaf_Script :: bytes

definition NewTapLeaf :: "u8 \<Rightarrow> bytes \<Rightarrow> TapLeaf" where
  "NewTapLeaf v script = \<lparr>LeafVersion = v, leaf_Script = script\<rparr>"

definition NewBaseTapLeaf :: "bytes \<Rightarrow> TapLeaf" where
  "NewBaseTapLeaf script = \<lparr>LeafVersion = BaseLeafVersion, leaf_Script = script\<rparr>"

definition leaf_TapHash :: "crypto \<Rightarrow> TapLeaf \<Rightarrow> bytes" where
  "leaf_TapHash c t = TaggedHash c TagTapLeaf [LeafVersion t # WriteVarBytes (leaf_Script t)]"

text \<open>\<open>bytes.Compare(l, r) > 0\<close>.\<close>

fun bytes_gt :: "bytes \<Rightarrow> bytes \<Rightarrow> bool" where
  "bytes_gt [] _ = False"
| "bytes_gt (x # xs) [] = True"
| "bytes_gt (x # xs) (y # ys) = (x > y \<or> x = y \<and> bytes_gt xs ys)"

definition tapBranchHash :: "crypto \<Rightarrow> bytes \<Rightarrow> bytes \<Rightarrow> bytes" where
  "tapBranchHash c l r =
     (if bytes_gt l r then TaggedHash c TagTapBranch [r, l] else TaggedHash c TagTapBranch [l, r])"

datatype TapNode = LeafNode TapLeaf | TapBranch TapNode TapNode

fun TapHash :: "crypto \<Rightarrow> TapNode \<Rightarrow> bytes" where
  "TapHash c (LeafNode t) = leaf_TapHash c t"
| "TapHash c (TapBranch l r) = tapBranchHash c (TapHash c l) (TapHash c r)"

fun leafDescendants :: "TapNode \<Rightarrow> TapNode list" where
  "leafDescendants (LeafNode t) = [LeafNode t]"
| "leafDescendants (TapBranch l r) = leafDescendants l @ leafDescendants r"

record ControlBlock =
  InternalKey :: bytes
  OutputKeyYIsOdd :: bool
  cb_LeafVersion :: u8
  InclusionProof :: bytes

definition ToBytes :: "crypto \<Rightarrow> ControlBlock \<Rightarrow> bytes" where
  "ToBytes c cb =
     (cb_LeafVersion cb OR (if OutputKeyYIsOdd cb then 1 else 0))
     # schnorr_SerializePubKey c (InternalKey cb) @ InclusionProof cb"

text \<open>The loop over the nodes of an inclusion proof.\<close>

fun rootHash_loop :: "crypto \<Rightarrow> nat \<Rightarrow> bytes \<Rightarrow> bytes \<Rightarrow> bytes" where
  "rootHash_loop c 0 proof acc = acc"
| "rootHash_loop c (Suc n) proof acc = rootHash_loop c n (drop 32 proof) (tapBranchHash c acc (take 32 proof))"

definition RootHash :: "crypto \<Rightarrow> ControlBlock \<Rightarrow> bytes \<Rightarrow> bytes" where
  "RootHash c cb revealedScript =
     rootHash_loop c (length (InclusionProof cb) div ControlBlockNodeSize) (InclusionProof cb)
       (leaf_TapHash c (NewTapLeaf (cb_LeafVersion cb) revealedScript))"

definition ParseControlBlock :: "crypto \<Rightarrow> bytes \<Rightarrow> ControlBlock res" where
  "ParseControlBlock c ctrlBlock =
     (if length ctrlBlock < ControlBlockBaseSize then Inl ErrControlBlockTooSmall
      else if length ctrlBlock > ControlBlockMaxSize then Inl ErrControlBlockTooLarge
      else if (length ctrlBlock - ControlBlockBaseSize) mod ControlBlockNodeSize \<noteq> 0
      then Inl ErrControlBlockInvalidLength
      else rbind (parse_or_err (schnorr_ParsePubKey c (take 32 (drop 1 ctrlBlock)))) (\<lambda>pubKey.
        Inr \<lparr>InternalKey = pubKey, OutputKeyYIsOdd = (ctrlBlock ! 0 AND 0x01 = 0x01),
             cb_LeafVersion = ctrlBlock ! 0 AND TaprootLeafMask, InclusionProof = drop 33 ctrlBlock\<rparr>))"

text \<open>
  The scalar multiplication and point addition are the parameter \<open>add_tweak\<close>; the error of the parse
  is dropped by the source, so that a failure is a nil dereference.
\<close>

definition ComputeTaprootOutputKey :: "crypto \<Rightarrow> bytes \<Rightarrow> bytes \<Rightarrow> bytes res" where
  "ComputeTaprootOutputKey c pubKey scriptRoot =
     (case schnorr_ParsePubKey c (schnorr_SerializePubKey c pubKey) of
        None \<Rightarrow> Inl GoPanic
      | Some internalKey \<Rightarrow>
          let tapTweakHash = TaggedHash c TagTapTweak [schnorr_SerializePubKey c internalKey, scriptRoot]
          in Inr (add_tweak c internalKey tapTweakHash))"

definition ComputeTaprootKeyNoScript :: "crypto \<Rightarrow> bytes \<Rightarrow> bytes res" where
  "ComputeTaprootKeyNoScript c internalKey = ComputeTaprootOutputKey c internalKey []"

definition VerifyTaprootLeafCommitment :: "crypto \<Rightarrow> ControlBlock \<Rightarrow> bytes \<Rightarrow> bytes \<Rightarrow> unit res" where
  "VerifyTaprootLeafCommitment c controlBlock taprootWitnessProgram revealedScript =
     (let rootHash = RootHash c controlBlock revealedScript in
      rbind (ComputeTaprootOutputKey c (InternalKey controlBlock) rootHash) (\<lambda>taprootKey.
        if schnorr_SerializePubKey c taprootKey \<noteq> taprootWitnessProgram
        then Inl ErrTaprootMerkleProofInvalid
        else if OutputKeyYIsOdd controlBlock \<noteq> y_is_odd c taprootKey
        then Inl ErrTaprootOutputKeyParityMismatch
        else Inr ()))"

section \<open>Assembling a script tree\<close>

record TapscriptProof =
  pf_TapLeaf :: TapLeaf
  pf_RootNode :: "TapNode option"
  pf_InclusionProof :: bytes

definition ToControlBlock :: "crypto \<Rightarrow> TapscriptProof \<Rightarrow> bytes \<Rightarrow> ControlBlock res" where
  "ToControlBlock c t internalKey =
     (case pf_RootNode t of None \<Rightarrow> Inl GoPanic
      | Some root \<Rightarrow> rbind (ComputeTaprootOutputKey c internalKey (TapHash c root)) (\<lambda>taprootKey.
          Inr \<lparr>InternalKey = internalKey, OutputKeyYIsOdd = y_is_odd c taprootKey,
               cb_LeafVersion = LeafVersion (pf_TapLeaf t), InclusionProof = pf_InclusionProof t\<rparr>))"

record IndexedTapScriptTree =
  RootNode :: "TapNode option"
  LeafMerkleProofs :: "TapscriptProof list"
  LeafProofIndex :: "bytes \<rightharpoonup> nat"

definition NewIndexedTapScriptTree :: "nat \<Rightarrow> IndexedTapScriptTree" where
  "NewIndexedTapScriptTree numLeaves =
     \<lparr>RootNode = None,
      LeafMerkleProofs = replicate numLeaves
        \<lparr>pf_TapLeaf = \<lparr>LeafVersion = 0, leaf_Script = []\<rparr>, pf_RootNode = None, pf_InclusionProof = []\<rparr>,
      LeafProofIndex = Map.empty\<rparr>"

text \<open>Reading a missing key of a Go map gives zero.\<close>

definition proof_index :: "IndexedTapScriptTree \<Rightarrow> bytes \<Rightarrow> nat" where
  "proof_index tree h = (case LeafProofIndex tree h of None \<Rightarrow> 0 | Some i \<Rightarrow> i)"

definition append_proof :: "nat \<Rightarrow> bytes \<Rightarrow> IndexedTapScriptTree \<Rightarrow> IndexedTapScriptTree" where
  "append_proof i h tree =
     tree\<lparr>LeafMerkleProofs := (LeafMerkleProofs tree)[i := (LeafMerkleProofs tree ! i)
       \<lparr>pf_InclusionProof := pf_InclusionProof (LeafMerkleProofs tree ! i) @ h\<rparr>]\<rparr>"

definition set_leaf :: "nat \<Rightarrow> TapLeaf \<Rightarrow> IndexedTapScriptTree \<Rightarrow> IndexedTapScriptTree" where
  "set_leaf i leaf tree =
     tree\<lparr>LeafMerkleProofs := (LeafMerkleProofs tree)[i := (LeafMerkleProofs tree ! i)\<lparr>pf_TapLeaf := leaf\<rparr>]\<rparr>"

text \<open>
  The first loop pairs the leaves; a branch is the pair of its nodes. The odd last leaf is merged with
  the last branch.
\<close>

function pair_loop ::
  "crypto \<Rightarrow> TapLeaf list \<Rightarrow> nat \<Rightarrow> IndexedTapScriptTree \<Rightarrow> (TapNode \<times> TapNode) list
   \<Rightarrow> IndexedTapScriptTree \<times> (TapNode \<times> TapNode) list" where
  "pair_loop c leaves i tree branches =
     (if i \<ge> length leaves then (tree, branches)
      else if i = length leaves - 1 then
        (let (l, r) = last branches; leaf = leaves ! i;
             branches = butlast branches @ [(TapBranch l r, LeafNode leaf)];
             tree = append_proof i (TapHash c (TapBranch l r)) (set_leaf i leaf tree);
             lastLeafHash = leaf_TapHash c leaf;
             tree = append_proof (proof_index tree (TapHash c l)) lastLeafHash tree;
             tree = append_proof (proof_index tree (TapHash c r)) lastLeafHash tree
         in pair_loop c leaves (i + 2) tree branches)
      else
        (let left = leaves ! i; right = leaves ! (i + 1);
             branches = branches @ [(LeafNode left, LeafNode right)];
             tree = append_proof i (leaf_TapHash c right) (set_leaf i left tree);
             tree = append_proof (i + 1) (leaf_TapHash c left) (set_leaf (i + 1) right tree)
         in pair_loop c leaves (i + 2) tree branches))"
  by pat_completeness auto
termination by (relation "measure (\<lambda>(c, leaves, i, _). length leaves - i)") auto

definition extend_proofs :: "crypto \<Rightarrow> TapNode list \<Rightarrow> bytes \<Rightarrow> IndexedTapScriptTree \<Rightarrow> IndexedTapScriptTree" where
  "extend_proofs c nodes h tree =
     fold (\<lambda>leaf tree. append_proof (proof_index tree (TapHash c leaf)) h tree) nodes tree"

text \<open>The second loop merges the first two branches and queues the result until one is left.\<close>

fun merge_loop ::
  "crypto \<Rightarrow> IndexedTapScriptTree \<Rightarrow> TapNode list \<Rightarrow> IndexedTapScriptTree \<times> TapNode option" where
  "merge_loop c tree [] = (tree, None)"
| "merge_loop c tree [b] = (tree, Some b)"
| "merge_loop c tree (left # right # branches) =
     (let tree = extend_proofs c (leafDescendants left) (TapHash c right) tree;
          tree = extend_proofs c (leafDescendants right) (TapHash c left) tree
      in merge_loop c tree (branches @ [TapBranch left right]))"

definition AssembleTaprootScriptTree :: "crypto \<Rightarrow> TapLeaf list \<Rightarrow> IndexedTapScriptTree" where
  "AssembleTaprootScriptTree c leaves =
     (if length leaves = 1 then
        (let leaf = leaves ! 0 in
         \<lparr>RootNode = Some (LeafNode leaf),
          LeafMerkleProofs = [\<lparr>pf_TapLeaf = leaf, pf_RootNode = Some (LeafNode leaf), pf_InclusionProof = []\<rparr>],
          LeafProofIndex = [leaf_TapHash c leaf \<mapsto> 0]\<rparr>)
      else
        (let tree = NewIndexedTapScriptTree (length leaves);
             tree = tree\<lparr>LeafProofIndex := fold (\<lambda>(i, leaf) ix. ix(leaf_TapHash c leaf \<mapsto> i))
                      (enumerate 0 leaves) (LeafProofIndex tree)\<rparr>;
             (tree, branches) = pair_loop c leaves 0 tree [];
             (tree, rootNode) = merge_loop c tree (map (\<lambda>(l, r). TapBranch l r) branches)
         in tree\<lparr>RootNode := rootNode,
              LeafMerkleProofs := map (\<lambda>p. p\<lparr>pf_RootNode := rootNode\<rparr>) (LeafMerkleProofs tree)\<rparr>))"

declare pair_loop.simps [simp del]

section \<open>Branch hashes and inclusion proofs\<close>

lemma bytes_gt_asym: "bytes_gt l r \<Longrightarrow> \<not> bytes_gt r l"
  by (induction l r rule: bytes_gt.induct) auto

lemma bytes_gt_total: "\<not> bytes_gt l r \<Longrightarrow> \<not> bytes_gt r l \<Longrightarrow> l = r"
proof (induction l r rule: bytes_gt.induct)
  case (1 r)
  then show ?case by (cases r) auto
qed auto

lemma tapBranchHash_commute: "tapBranchHash c l r = tapBranchHash c r l"
  using bytes_gt_asym [of l r] bytes_gt_total [of l r] by (auto simp: tapBranchHash_def)

definition hash32 :: "crypto \<Rightarrow> bool" where
  "hash32 c \<longleftrightarrow> (\<forall>b. length (sha256 c b) = 32)"

lemma length_TapHash: "hash32 c \<Longrightarrow> length (TapHash c node) = 32"
  by (cases node) (simp_all add: hash32_def leaf_TapHash_def tapBranchHash_def TaggedHash_def Let_def)

lemma rootHash_loop_append:
  "length p = 32 * n \<Longrightarrow> rootHash_loop c (Suc n) (p @ h) acc = tapBranchHash c (rootHash_loop c n p acc) (take 32 h)"
proof (induction n arbitrary: p acc)
  case (Suc n)
  then show ?case using Suc.IH [of "drop 32 p" "tapBranchHash c acc (take 32 p)"] by simp
qed simp

definition proves :: "crypto \<Rightarrow> bytes \<Rightarrow> bytes \<Rightarrow> bytes \<Rightarrow> bool" where
  "proves c h incl root \<longleftrightarrow> 32 dvd length incl \<and> rootHash_loop c (length incl div 32) incl h = root"

lemma proves_Nil [simp]: "proves c h [] h"
  by (simp add: proves_def)

lemma proves_snoc: "proves c h p root \<Longrightarrow> length s = 32 \<Longrightarrow> proves c h (p @ s) (tapBranchHash c root s)"
  using rootHash_loop_append [of p "length p div 32" c s h] by (auto simp: proves_def)

section \<open>The proofs of an assembled tree\<close>

fun tap_leaves :: "TapNode \<Rightarrow> TapLeaf list" where
  "tap_leaves (LeafNode t) = [t]"
| "tap_leaves (TapBranch l r) = tap_leaves l @ tap_leaves r"

lemma leafDescendants_eq: "leafDescendants node = map LeafNode (tap_leaves node)"
  by (induction node) auto

abbreviation incl :: "IndexedTapScriptTree \<Rightarrow> nat \<Rightarrow> bytes" where
  "incl tree i \<equiv> pf_InclusionProof (LeafMerkleProofs tree ! i)"

abbreviation pleaf :: "IndexedTapScriptTree \<Rightarrow> nat \<Rightarrow> TapLeaf" where
  "pleaf tree i \<equiv> pf_TapLeaf (LeafMerkleProofs tree ! i)"

text \<open>\<open>indexed\<close>: the index maps the hash of each leaf to its position.\<close>

definition indexed :: "crypto \<Rightarrow> TapLeaf list \<Rightarrow> IndexedTapScriptTree \<Rightarrow> bool" where
  "indexed c leaves tree \<longleftrightarrow> length (LeafMerkleProofs tree) = length leaves
     \<and> (\<forall>i < length leaves. LeafProofIndex tree (leaf_TapHash c (leaves ! i)) = Some i)"

lemma indexed_inj: "indexed c leaves tree \<Longrightarrow> i < length leaves \<Longrightarrow> j < length leaves \<Longrightarrow>
    leaves ! i = leaves ! j \<Longrightarrow> i = j"
  unfolding indexed_def by (metis option.inject)

lemma indexed_append_proof [simp]: "indexed c leaves (append_proof i h tree) = indexed c leaves tree"
  by (simp add: indexed_def append_proof_def)

lemma indexed_set_leaf [simp]: "indexed c leaves (set_leaf i leaf tree) = indexed c leaves tree"
  by (simp add: indexed_def set_leaf_def)

lemma prf_append_proof:
  "i < length (LeafMerkleProofs tree) \<Longrightarrow> incl (append_proof i h tree) j = (if j = i then incl tree i @ h else incl tree j)"
  "pleaf (append_proof i h tree) j = pleaf tree j"
  by (auto simp: append_proof_def nth_list_update) (metis TapscriptProof.select_convs(1)
      TapscriptProof.surjective TapscriptProof.update_convs(3) list_update_beyond not_less nth_list_update)

lemma prf_set_leaf:
  "incl (set_leaf i leaf tree) j = incl tree j"
  "i < length (LeafMerkleProofs tree) \<Longrightarrow> pleaf (set_leaf i leaf tree) j = (if j = i then leaf else pleaf tree j)"
  by (cases "i < length (LeafMerkleProofs tree)") (auto simp: set_leaf_def nth_list_update list_update_beyond)

lemma length_proofs [simp]:
  "length (LeafMerkleProofs (append_proof i h tree)) = length (LeafMerkleProofs tree)"
  "length (LeafMerkleProofs (set_leaf i leaf tree)) = length (LeafMerkleProofs tree)"
  by (simp_all add: append_proof_def set_leaf_def)

lemma proof_index_leaf:
  "indexed c leaves tree \<Longrightarrow> i < length leaves \<Longrightarrow> proof_index tree (leaf_TapHash c (leaves ! i)) = i"
  by (simp add: indexed_def proof_index_def)

lemma extend_proofs_leaves:
  assumes "indexed c leaves tree" "set ls \<subseteq> set leaves" "distinct ls"
  shows "indexed c leaves (extend_proofs c (map LeafNode ls) h tree) \<and>
    (\<forall>j < length leaves. incl (extend_proofs c (map LeafNode ls) h tree) j
       = (if leaves ! j \<in> set ls then incl tree j @ h else incl tree j)
       \<and> pleaf (extend_proofs c (map LeafNode ls) h tree) j = pleaf tree j)"
  using assms
proof (induction ls arbitrary: tree)
  case (Cons l ls)
  obtain i where i: "i < length leaves" "l = leaves ! i" using Cons.prems(2) by (auto simp: in_set_conv_nth)
  let ?t = "append_proof i h tree"
  have e: "extend_proofs c (map LeafNode (l # ls)) h tree = extend_proofs c (map LeafNode ls) h ?t"
    using proof_index_leaf [OF Cons.prems(1) i(1)] i by (simp add: extend_proofs_def)
  have p: "incl ?t j = (if j = i then incl tree i @ h else incl tree j)" "pleaf ?t j = pleaf tree j" for j
    using prf_append_proof i Cons.prems(1) by (auto simp: indexed_def)
  have "j = i \<longleftrightarrow> leaves ! j = l" if "j < length leaves" for j
    using indexed_inj [OF Cons.prems(1)] i that by auto
  then show ?case using Cons.IH [of ?t] Cons.prems p unfolding e by auto
qed (simp add: extend_proofs_def)

text \<open>The state between the steps: each leaf of a branch has a proof of that branch.\<close>

definition forest :: "crypto \<Rightarrow> TapLeaf list \<Rightarrow> IndexedTapScriptTree \<Rightarrow> TapNode list \<Rightarrow> bool" where
  "forest c leaves tree bs \<longleftrightarrow> indexed c leaves tree \<and> distinct (concat (map tap_leaves bs))
     \<and> set (concat (map tap_leaves bs)) \<subseteq> set leaves
     \<and> (\<forall>b \<in> set bs. \<forall>i < length leaves. leaves ! i \<in> set (tap_leaves b) \<longrightarrow>
          pleaf tree i = leaves ! i \<and> proves c (leaf_TapHash c (leaves ! i)) (incl tree i) (TapHash c b))"

lemma forest_merge:
  assumes f: "forest c leaves tree (l # r # bs)" and h: "hash32 c"
  shows "forest c leaves (extend_proofs c (leafDescendants r) (TapHash c l)
      (extend_proofs c (leafDescendants l) (TapHash c r) tree)) (bs @ [TapBranch l r])"
proof -
  let ?t1 = "extend_proofs c (leafDescendants l) (TapHash c r) tree"
  let ?t2 = "extend_proofs c (leafDescendants r) (TapHash c l) ?t1"
  have sub: "set (tap_leaves l) \<subseteq> set leaves" "set (tap_leaves r) \<subseteq> set leaves"
    and dist: "distinct (tap_leaves l)" "distinct (tap_leaves r)"
    and disj: "set (tap_leaves l) \<inter> set (tap_leaves r) = {}"
    and rest: "b \<in> set bs \<Longrightarrow> x \<in> set (tap_leaves b) \<Longrightarrow> x \<notin> set (tap_leaves l) \<and> x \<notin> set (tap_leaves r)" for b x
    using f by (auto simp: forest_def)
  have ix: "indexed c leaves tree" using f by (simp add: forest_def)
  note e1 = extend_proofs_leaves [OF ix sub(1) dist(1), of "TapHash c r", folded leafDescendants_eq]
  note e2 = extend_proofs_leaves [OF e1 [THEN conjunct1] sub(2) dist(2), of "TapHash c l", folded leafDescendants_eq]
  have p: "incl ?t2 j = (if leaves ! j \<in> set (tap_leaves l) then incl tree j @ TapHash c r
      else if leaves ! j \<in> set (tap_leaves r) then incl tree j @ TapHash c l else incl tree j)"
    and q: "pleaf ?t2 j = pleaf tree j" if "j < length leaves" for j
    using e1 e2 that disj by auto
  have new: "pleaf ?t2 i = leaves ! i \<and> proves c (leaf_TapHash c (leaves ! i)) (incl ?t2 i) (TapHash c (TapBranch l r))"
    if i: "i < length leaves" "leaves ! i \<in> set (tap_leaves (TapBranch l r))" for i
  proof (cases "leaves ! i \<in> set (tap_leaves l)")
    case True
    then show ?thesis using f i p q proves_snoc length_TapHash [OF h] by (simp add: forest_def)
  next
    case False
    then show ?thesis
      using f i p q proves_snoc length_TapHash [OF h] tapBranchHash_commute [of c "TapHash c l"] by (simp add: forest_def)
  qed
  have old: "pleaf ?t2 i = leaves ! i \<and> proves c (leaf_TapHash c (leaves ! i)) (incl ?t2 i) (TapHash c b)"
    if "b \<in> set bs" "i < length leaves" "leaves ! i \<in> set (tap_leaves b)" for i b
    using f that p q rest by (simp add: forest_def)
  have "distinct (concat (map tap_leaves (bs @ [TapBranch l r])))"
    "set (concat (map tap_leaves (bs @ [TapBranch l r]))) \<subseteq> set leaves"
    using f by (auto simp: forest_def)
  then show ?thesis using e2 new old unfolding forest_def by (simp add: ball_Un)
qed

lemma merge_loop_forest:
  "forest c leaves tree bs \<Longrightarrow> hash32 c \<Longrightarrow> bs \<noteq> [] \<Longrightarrow>
     \<exists>tree' root. merge_loop c tree bs = (tree', Some root) \<and> forest c leaves tree' [root]
       \<and> set (tap_leaves root) = set (concat (map tap_leaves bs))"
proof (induction c tree bs rule: merge_loop.induct)
  case (3 c tree l r bs)
  show ?case using "3.IH" [OF refl refl forest_merge [OF "3.prems"(1,2)]] "3.prems"(2) by (auto simp: Let_def)
qed auto

section \<open>The pairing loop\<close>

definition pairs :: "(TapNode \<times> TapNode) list \<Rightarrow> TapNode list" where
  "pairs bs = map (\<lambda>(l, r). TapBranch l r) bs"

lemma pairs_simps [simp]: "pairs [] = []" "pairs (as @ bs) = pairs as @ pairs bs" "pairs [(l, r)] = [TapBranch l r]"
  by (simp_all add: pairs_def)

definition leaf_pairs :: "TapLeaf list \<Rightarrow> (TapNode \<times> TapNode) list \<Rightarrow> bool" where
  "leaf_pairs dn bs \<longleftrightarrow> concat (map tap_leaves (pairs bs)) = dn
     \<and> (\<forall>(l, r) \<in> set bs. \<exists>a b. l = LeafNode a \<and> r = LeafNode b)"

definition fresh_from :: "nat \<Rightarrow> nat \<Rightarrow> IndexedTapScriptTree \<Rightarrow> bool" where
  "fresh_from i n tree \<longleftrightarrow> (\<forall>j. i \<le> j \<and> j < n \<longrightarrow> incl tree j = [])"

lemma forest_leaf:
  assumes f: "forest c leaves tree bs" and i: "i < length leaves" "incl tree i = []"
    and new: "leaves ! i \<notin> set (concat (map tap_leaves bs))"
  shows "forest c leaves (set_leaf i (leaves ! i) tree) (LeafNode (leaves ! i) # bs)"
proof -
  have ix: "indexed c leaves tree" and len: "length (LeafMerkleProofs tree) = length leaves"
    using f by (auto simp: forest_def indexed_def)
  have "j = i \<and> incl tree j = []" if "leaves ! j = leaves ! i" "j < length leaves" for j
    using indexed_inj [OF ix that(2) i(1) that(1)] i(2) by simp
  moreover have "j \<noteq> i" if "b \<in> set bs" "leaves ! j \<in> set (tap_leaves b)" for b j using that new by auto
  ultimately show ?thesis
    using f i new len unfolding forest_def by (auto simp: prf_set_leaf)
qed

lemma forest_front: "forest c leaves tree (x # ys @ [y]) \<Longrightarrow> forest c leaves tree (y # x # ys)"
  by (auto simp: forest_def)

lemma extend_leaf:
  "indexed c leaves tree \<Longrightarrow> i < length leaves \<Longrightarrow>
     extend_proofs c (leafDescendants (LeafNode (leaves ! i))) h tree = append_proof i h tree"
  by (simp add: extend_proofs_def proof_index_leaf)

lemma set_leaf_swap:
  "i \<noteq> j \<Longrightarrow> set_leaf i l (append_proof j h tree) = append_proof j h (set_leaf i l tree)"
  "i \<noteq> j \<Longrightarrow> set_leaf i l (set_leaf j l' tree) = set_leaf j l' (set_leaf i l tree)"
  by (auto simp: set_leaf_def append_proof_def list_update_swap)

lemma append_proof_swap:
  "i \<noteq> j \<Longrightarrow> append_proof i h (append_proof j k tree) = append_proof j k (append_proof i h tree)"
  by (auto simp: append_proof_def list_update_swap)

lemma nth_not_in_take: "distinct xs \<Longrightarrow> i \<le> j \<Longrightarrow> j < length xs \<Longrightarrow> xs ! j \<notin> set (take i xs)"
  by (auto simp: in_set_conv_nth nth_eq_iff_index_eq)

lemma forest_pair:
  assumes f: "forest c leaves tree (pairs bs)" and lp: "leaf_pairs (take i leaves) bs" and d: "distinct leaves"
    and fr: "fresh_from i (length leaves) tree" and i: "i + 1 < length leaves" and h: "hash32 c"
  defines "a \<equiv> leaves ! i" and "b \<equiv> leaves ! (i + 1)"
  shows "forest c leaves (append_proof (i + 1) (leaf_TapHash c a) (set_leaf (i + 1) b
      (append_proof i (leaf_TapHash c b) (set_leaf i a tree)))) (pairs (bs @ [(LeafNode a, LeafNode b)]))"
proof -
  let ?t = "set_leaf i a (set_leaf (i + 1) b tree)"
  have "set (concat (map tap_leaves (pairs bs))) = set (take i leaves)" using lp by (simp add: leaf_pairs_def)
  moreover have "a \<noteq> b" using d i by (simp add: a_def b_def nth_eq_iff_index_eq)
  ultimately have "forest c leaves ?t (LeafNode a # LeafNode b # pairs bs)"
    unfolding a_def b_def using f i fr nth_not_in_take [OF d, of i i] nth_not_in_take [OF d, of i "i + 1"]
    by (intro forest_leaf) (auto simp: prf_set_leaf fresh_from_def)
  from forest_merge [OF this h] have "forest c leaves (append_proof (i + 1) (leaf_TapHash c a)
      (append_proof i (leaf_TapHash c b) ?t)) (pairs bs @ [TapBranch (LeafNode a) (LeafNode b)])"
    using extend_leaf [of c leaves _ i] extend_leaf [of c leaves _ "i + 1"] f i
    by (simp add: a_def b_def forest_def)
  then show ?thesis by (simp add: set_leaf_swap)
qed

lemma leaf_pairs_step:
  assumes "leaf_pairs (take i leaves) bs" "i + 1 < length leaves"
  shows "leaf_pairs (take (i + 2) leaves) (bs @ [(LeafNode (leaves ! i), LeafNode (leaves ! (i + 1)))])"
proof -
  have "take (i + 2) leaves = take i leaves @ [leaves ! i, leaves ! (i + 1)]"
    using assms(2) take_Suc_conv_app_nth [of i leaves] take_Suc_conv_app_nth [of "Suc i" leaves] by simp
  then show ?thesis using assms(1) by (auto simp: leaf_pairs_def)
qed

lemma forest_odd:
  assumes f: "forest c leaves tree (pairs (bs @ [(l, r)]))" and lp: "leaf_pairs (take i leaves) (bs @ [(l, r)])"
    and d: "distinct leaves" and fr: "incl tree i = []" and i: "i < length leaves" and h: "hash32 c"
  defines "t1 \<equiv> append_proof i (TapHash c (TapBranch l r)) (set_leaf i (leaves ! i) tree)"
  defines "t2 \<equiv> append_proof (proof_index t1 (TapHash c l)) (leaf_TapHash c (leaves ! i)) t1"
  shows "forest c leaves (append_proof (proof_index t2 (TapHash c r)) (leaf_TapHash c (leaves ! i)) t2)
    (pairs (bs @ [(TapBranch l r, LeafNode (leaves ! i))]))"
proof -
  let ?x = "leaves ! i" and ?t = "set_leaf i (leaves ! i) tree"
  have dn: "set (concat (map tap_leaves (pairs (bs @ [(l, r)])))) = set (take i leaves)"
    using lp unfolding leaf_pairs_def by simp
  obtain a b where lr: "l = LeafNode a" "r = LeafNode b" using lp by (auto simp: leaf_pairs_def)
  have "a \<in> set (take i leaves)" "b \<in> set (take i leaves)" using dn lr by auto
  then obtain j k where jk: "j < i" "k < i" "a = leaves ! j" "b = leaves ! k" using i by (auto simp: in_set_conv_nth)
  have ix: "indexed c leaves ?t" using f by (simp add: forest_def)
  have "?x \<notin> set (concat (map tap_leaves (pairs (bs @ [(l, r)]))))"
    unfolding dn using nth_not_in_take [OF d order_refl i] .
  then have "forest c leaves ?t (LeafNode ?x # pairs bs @ [TapBranch l r])"
    using forest_leaf [OF f i fr] by simp
  from forest_merge [OF forest_front [OF this] h]
  have "forest c leaves (append_proof i (TapHash c (TapBranch l r)) (append_proof k (leaf_TapHash c ?x)
      (append_proof j (leaf_TapHash c ?x) ?t))) (pairs bs @ [TapBranch (TapBranch l r) (LeafNode ?x)])"
    using lr jk i ix by (simp add: extend_proofs_def proof_index_leaf)
  moreover have "proof_index t1 (TapHash c l) = j" "proof_index t2 (TapHash c r) = k"
    using lr jk i ix by (simp_all add: t1_def t2_def proof_index_leaf [of c leaves])
  ultimately show ?thesis
    using jk by (simp add: t1_def t2_def append_proof_swap [of i])
qed

lemma fresh_from_step:
  assumes "fresh_from i (length leaves) tree" "length (LeafMerkleProofs tree) = length leaves" "i + 1 < length leaves"
  shows "fresh_from (i + 2) (length leaves) (append_proof (i + 1) x (set_leaf (i + 1) b (append_proof i y (set_leaf i a tree))))"
  using assms by (simp add: fresh_from_def prf_append_proof prf_set_leaf)

lemma pair_loop_forest:
  assumes "forest c leaves tree (pairs bs)" "leaf_pairs (take i leaves) bs" "distinct leaves"
    "fresh_from i (length leaves) tree" "hash32 c" "i \<le> length leaves" "i + 1 = length leaves \<longrightarrow> bs \<noteq> []"
  shows "\<exists>tree' bs'. pair_loop c leaves i tree bs = (tree', bs') \<and> forest c leaves tree' (pairs bs')
    \<and> set (concat (map tap_leaves (pairs bs'))) = set leaves"
  using assms
proof (induction c leaves i tree bs rule: pair_loop.induct)
  case (1 c leaves i tree bs)
  note p = "1.prems"
  consider "i = length leaves" | "i + 1 = length leaves" | "i + 1 < length leaves" using p(6) by linarith
  then show ?case
  proof cases
    case 1
    then have "set (concat (map tap_leaves (pairs bs))) = set leaves" using p(2) unfolding leaf_pairs_def by simp
    then show ?thesis using 1 p(1) by (simp add: pair_loop.simps)
  next
    case 2
    then obtain ys l r where bs: "bs = ys @ [(l, r)]" using p(7) by (metis rev_exhaust surj_pair)
    have i: "i < length leaves" "incl tree i = []" using p(4) 2 by (auto simp: fresh_from_def)
    define t1 where "t1 = append_proof i (TapHash c (TapBranch l r)) (set_leaf i (leaves ! i) tree)"
    define t2 where "t2 = append_proof (proof_index t1 (TapHash c l)) (leaf_TapHash c (leaves ! i)) t1"
    define t3 where "t3 = append_proof (proof_index t2 (TapHash c r)) (leaf_TapHash c (leaves ! i)) t2"
    have "pair_loop c leaves i tree bs = (t3, ys @ [(TapBranch l r, LeafNode (leaves ! i))])"
      using 2 bs by (simp add: pair_loop.simps Let_def t1_def t2_def t3_def)
    moreover have "forest c leaves t3 (pairs (ys @ [(TapBranch l r, LeafNode (leaves ! i))]))"
      unfolding t3_def t2_def t1_def using forest_odd p(1,2,3,5) i unfolding bs by blast
    moreover have "set leaves = insert (leaves ! i) (set (take i leaves))"
      using 2 arg_cong [OF take_Suc_conv_app_nth [OF i(1)], of set] by simp
    moreover have "set (concat (map tap_leaves (pairs bs))) = set (take i leaves)" using p(2) unfolding leaf_pairs_def by simp
    ultimately show ?thesis unfolding bs by (simp add: Un_ac)
  next
    case 3
    let ?a = "leaves ! i" and ?b = "leaves ! (i + 1)"
    let ?bs = "bs @ [(LeafNode ?a, LeafNode ?b)]"
    let ?t = "append_proof (i + 1) (leaf_TapHash c ?a) (set_leaf (i + 1) ?b (append_proof i (leaf_TapHash c ?b) (set_leaf i ?a tree)))"
    have st: "pair_loop c leaves i tree bs = pair_loop c leaves (i + 2) ?t ?bs"
    proof -
      have "\<not> length leaves \<le> i" "i \<noteq> length leaves - 1" using 3 by linarith+
      then show ?thesis by (subst pair_loop.simps) (simp add: Let_def)
    qed
    have len: "length (LeafMerkleProofs tree) = length leaves" using p(1) by (simp add: forest_def indexed_def)
    show ?thesis
      unfolding st using 3
      by (intro "1.IH"(2) forest_pair leaf_pairs_step fresh_from_step p len) (simp_all add: not_le)
  qed
qed

lemma index_fold:
  "distinct (map f xs) \<Longrightarrow> i < length xs \<Longrightarrow>
     fold (\<lambda>(i, x) ix. ix(f x \<mapsto> i)) (enumerate k xs) m (f (xs ! i)) = Some (k + i)"
proof (induction xs arbitrary: i k m)
  case (Cons x xs)
  have keep: "y \<notin> f ` set xs \<Longrightarrow> fold (\<lambda>(i, x) ix. ix(f x \<mapsto> i)) (enumerate k xs) m y = m y" for y k m xs
    by (induction xs arbitrary: k m) auto
  show ?case using Cons keep [of "f x" xs] by (cases i) (simp_all del: fun_upd_apply, simp add: fun_upd_same)
qed simp

lemma assembled:
  assumes d: "distinct (map (leaf_TapHash c) leaves)" and h: "hash32 c" and ne: "leaves \<noteq> []"
  shows "\<exists>root. RootNode (AssembleTaprootScriptTree c leaves) = Some root \<and> set (tap_leaves root) = set leaves
    \<and> (\<forall>i < length leaves. LeafMerkleProofs (AssembleTaprootScriptTree c leaves) ! i
         = \<lparr>pf_TapLeaf = leaves ! i, pf_RootNode = Some root,
            pf_InclusionProof = incl (AssembleTaprootScriptTree c leaves) i\<rparr>
       \<and> proves c (leaf_TapHash c (leaves ! i)) (incl (AssembleTaprootScriptTree c leaves) i) (TapHash c root))"
proof (cases "length leaves = 1")
  case True
  then obtain x where "leaves = [x]" by (cases leaves) auto
  then show ?thesis by (simp add: AssembleTaprootScriptTree_def)
next
  case False
  let ?t0 = "NewIndexedTapScriptTree (length leaves)"
  let ?t = "?t0\<lparr>LeafProofIndex := fold (\<lambda>(i, leaf) ix. ix(leaf_TapHash c leaf \<mapsto> i)) (enumerate 0 leaves) (LeafProofIndex ?t0)\<rparr>"
  have "forest c leaves ?t (pairs [])"
    using index_fold [OF d] by (simp add: forest_def indexed_def NewIndexedTapScriptTree_def)
  then obtain t1 bs where 1: "pair_loop c leaves 0 ?t [] = (t1, bs)" "forest c leaves t1 (pairs bs)"
    "set (concat (map tap_leaves (pairs bs))) = set leaves"
    using pair_loop_forest [of c leaves ?t "[]" 0] h d False
    by (auto simp: leaf_pairs_def fresh_from_def NewIndexedTapScriptTree_def distinct_map)
  have "pairs bs \<noteq> []" using 1(3) ne by auto
  from merge_loop_forest [OF 1(2) h this] 1(3) obtain t2 root where 2: "merge_loop c t1 (pairs bs) = (t2, Some root)"
    "forest c leaves t2 [root]" "set (tap_leaves root) = set leaves" by auto
  have a: "AssembleTaprootScriptTree c leaves = t2\<lparr>RootNode := Some root,
      LeafMerkleProofs := map (\<lambda>p. p\<lparr>pf_RootNode := Some root\<rparr>) (LeafMerkleProofs t2)\<rparr>"
    using False 1(1) 2(1) by (simp add: AssembleTaprootScriptTree_def pairs_def Let_def)
  have "length (LeafMerkleProofs t2) = length leaves" using 2(2) by (simp add: forest_def indexed_def)
  moreover have "pleaf t2 i = leaves ! i \<and> proves c (leaf_TapHash c (leaves ! i)) (incl t2 i) (TapHash c root)"
    if "i < length leaves" for i
    using 2(2,3) that by (simp add: forest_def)
  ultimately show ?thesis unfolding a using 2(3) by simp
qed

section \<open>The cache\<close>

text \<open>What a verifier needs of a cache of positive results: it only confirms what is true.\<close>

locale verification_cache =
  fixes lookup :: "'s \<Rightarrow> 'k \<Rightarrow> bool" and insert :: "'k \<Rightarrow> 's \<Rightarrow> 's" and sound :: "('k \<Rightarrow> bool) \<Rightarrow> 's \<Rightarrow> bool"
  assumes lookup_sound: "sound good s \<Longrightarrow> lookup s k \<Longrightarrow> good k"
    and insert_sound: "sound good s \<Longrightarrow> good k \<Longrightarrow> sound good (insert k s)"
begin

lemma same_answer: "sound good s \<Longrightarrow> (if lookup s k then True else good k) = good k"
  using lookup_sound by auto

lemma stays_sound: "sound good s \<Longrightarrow> sound good (if lookup s k then s else if good k then insert k s else s)"
  using insert_sound by auto

end

definition cache_wf :: "SigCache \<Rightarrow> bool" where
  "cache_wf s \<longleftrightarrow> distinct (map fst (validSigs s)) \<and> length (validSigs s) \<le> maxEntries s"

text \<open>\<open>good\<close> holds of every entry that the cache would confirm.\<close>

definition cache_sound :: "(bytes \<Rightarrow> bytes \<Rightarrow> bytes \<Rightarrow> bool) \<Rightarrow> SigCache \<Rightarrow> bool" where
  "cache_sound good s \<longleftrightarrow> (\<forall>(h, e) \<in> set (validSigs s). good h (entry_sig e) (entry_pubKey e))"

lemma evict_subset: "set (validSigs (evict s)) \<subseteq> set (validSigs s)"
  using set_take_subset set_drop_subset by (fastforce simp: evict_def Let_def)

lemma distinct_skip: "distinct xs \<Longrightarrow> distinct (take i xs @ drop (Suc i) xs)"
  by (simp add: set_take_disj_set_drop_if_distinct)

lemma evict_wf: "cache_wf s \<Longrightarrow> cache_wf (evict s)"
  using distinct_skip [of "map fst (validSigs s)" "choices s (evictions s) mod length (validSigs s)"]
  by (auto simp: cache_wf_def evict_def Let_def take_map drop_map)

lemma length_evict: "validSigs s \<noteq> [] \<Longrightarrow> length (validSigs (evict s)) = length (validSigs s) - 1"
proof -
  assume "validSigs s \<noteq> []"
  then have "choices s (evictions s) mod length (validSigs s) < length (validSigs s)" by simp
  then show ?thesis by (simp add: evict_def Let_def min_def)
qed

lemma length_filter_key: "length (filter (\<lambda>e. fst e \<noteq> h) es) \<le> length es"
  by (rule length_filter_le)

lemma distinct_filter_key: "distinct (map fst es) \<Longrightarrow> distinct (map fst (filter (\<lambda>e. fst e \<noteq> h) es))"
  by (simp add: distinct_map inj_on_def)

lemma Add_wf: 
  assumes "cache_wf s"
  shows "cache_wf (Add h sig pk s)"
proof (cases "maxEntries s = 0")
  case False
  define t where "t = (if length (validSigs s) + 1 > maxEntries s then evict s else s)"
  have "cache_wf t" "maxEntries t = maxEntries s"
    using evict_wf assms by (auto simp: t_def evict_def Let_def)
  moreover have "length (validSigs t) < maxEntries s"
  proof (cases "length (validSigs s) + 1 > maxEntries s")
    case True
    then have "validSigs s \<noteq> []" using False by auto
    then show ?thesis using True length_evict [of s] assms False by (auto simp: t_def cache_wf_def)
  qed (simp add: t_def)
  moreover have "Add h sig pk s = t\<lparr>validSigs := (h, \<lparr>entry_sig = sig, entry_pubKey = pk\<rparr>)
      # filter (\<lambda>e. fst e \<noteq> h) (validSigs t)\<rparr>"
    using False by (simp add: Add_def t_def Let_def)
  ultimately show ?thesis
    using le_less_trans [OF length_filter_key] distinct_filter_key [of "validSigs t" h]
    by (auto simp: cache_wf_def Suc_le_eq)
qed (use assms in \<open>simp add: Add_def\<close>)

lemma Add_sound: 
  assumes "cache_sound good s" "good h sig pk"
  shows "cache_sound good (Add h sig pk s)"
  using assms evict_subset [of s] by (fastforce simp: cache_sound_def Add_def Let_def)

lemma Exists_sound: "cache_sound good s \<Longrightarrow> Exists s h sig pk \<Longrightarrow> good h sig pk"
  by (auto simp: cache_sound_def Exists_def dest!: map_of_SomeD split: option.splits)

lemma Exists_Add: "maxEntries s \<noteq> 0 \<Longrightarrow> Exists (Add h sig pk s) h sig pk"
  by (simp add: Exists_def Add_def Let_def)

interpretation sigcache: verification_cache "\<lambda>s (h, sig, pk). Exists s h sig pk" "\<lambda>(h, sig, pk). Add h sig pk"
  "\<lambda>good. cache_sound (\<lambda>h sig pk. good (h, sig, pk))"
  by unfold_locales (auto intro: Exists_sound Add_sound)

lemma taproot_verifySig_cached:
  assumes "cache_sound good s" "good h (tv_fullSigBytes t) (tv_pkBytes t) \<longleftrightarrow> schnorr_Verify c (tv_sig t) h (tv_pubKey t)"
  shows "fst (taproot_verifySig c t (Some s) h) = fst (taproot_verifySig c t None h)
    \<and> (\<exists>s'. snd (taproot_verifySig c t (Some s) h) = Some s' \<and> cache_sound good s')"
  using assms Exists_sound [OF assms(1)] Add_sound [OF assms(1)] by (auto simp: taproot_verifySig_def)

section \<open>Properties\<close>

text \<open>C37: Every inclusion proof of an assembled script tree verifies: for leaves with distinct hashes,
  the control block made from the proof of a leaf satisfies the commitment check of the engine against
  the output key of the tree, with the script of that leaf.\<close>

theorem script_tree_proofs_verify:
  assumes "distinct (map (leaf_TapHash c) leaves)" "hash32 c" "i < length leaves"
    and "ToControlBlock c (LeafMerkleProofs (AssembleTaprootScriptTree c leaves) ! i) internalKey = Inr cb"
    and "RootNode (AssembleTaprootScriptTree c leaves) = Some root"
    and "ComputeTaprootOutputKey c internalKey (TapHash c root) = Inr outputKey"
  shows "VerifyTaprootLeafCommitment c cb (schnorr_SerializePubKey c outputKey) (leaf_Script (leaves ! i)) = Inr ()"
proof -
  have "leaves \<noteq> []" using assms(3) by auto
  from assembled [OF assms(1,2) this] assms(3,5)
  have pf: "LeafMerkleProofs (AssembleTaprootScriptTree c leaves) ! i = \<lparr>pf_TapLeaf = leaves ! i, pf_RootNode = Some root,
      pf_InclusionProof = incl (AssembleTaprootScriptTree c leaves) i\<rparr>"
    and pr: "proves c (leaf_TapHash c (leaves ! i)) (incl (AssembleTaprootScriptTree c leaves) i) (TapHash c root)"
    by auto
  have cb: "cb = \<lparr>InternalKey = internalKey, OutputKeyYIsOdd = y_is_odd c outputKey,
      cb_LeafVersion = LeafVersion (leaves ! i), InclusionProof = incl (AssembleTaprootScriptTree c leaves) i\<rparr>"
    using assms(4,6) by (subst (asm) pf) (simp add: ToControlBlock_def)
  have "NewTapLeaf (LeafVersion (leaves ! i)) (leaf_Script (leaves ! i)) = leaves ! i" by (simp add: NewTapLeaf_def)
  then have "RootHash c cb (leaf_Script (leaves ! i)) = TapHash c root"
    using pr by (simp add: cb RootHash_def proves_def ControlBlockNodeSize_def)
  then show ?thesis using assms(6) by (simp add: VerifyTaprootLeafCommitment_def cb)
qed

definition toy32 :: crypto where
  "toy32 = toy_crypto\<lparr>sha256 := (\<lambda>b. sum_list b # replicate 31 0), add_tweak := (\<lambda>key tweak. key @ tweak), curve_N := 7\<rparr>"

definition toy_leaves :: "TapLeaf list" where
  "toy_leaves = map NewBaseTapLeaf [[OP_1], [OP_2], [OP_3]]"

text \<open>The control block of the second leaf, which verifies; without its proof, or with the script of
  another leaf, it does not.\<close>

definition toy_block :: "ControlBlock res" where
  "toy_block = ToControlBlock toy32 (LeafMerkleProofs (AssembleTaprootScriptTree toy32 toy_leaves) ! 1) [7]"

definition toy_root :: TapNode where
  "toy_root = TapBranch (TapBranch (LeafNode (toy_leaves ! 0)) (LeafNode (toy_leaves ! 1))) (LeafNode (toy_leaves ! 2))"

definition toy_key :: bytes where
  "toy_key = 7 # TaggedHash toy32 TagTapTweak [[7], TapHash toy32 toy_root]"

lemma toy_fields:
  "schnorr_ParsePubKey toy32 = Some" "schnorr_SerializePubKey toy32 = id" "add_tweak toy32 = (\<lambda>key tweak. key @ tweak)"
  by (simp_all add: toy32_def toy_crypto_def)

lemma pair_three: "\<exists>t'. pair_loop c [a, b, d] 0 t [] = (t', [(TapBranch (LeafNode a) (LeafNode b), LeafNode d)])"
proof -
  have 1: "\<exists>t1. pair_loop c [a, b, d] 0 t [] = pair_loop c [a, b, d] 2 t1 [(LeafNode a, LeafNode b)]"
    by (subst pair_loop.simps) (auto simp: Let_def eval_nat_numeral)
  have 2: "\<exists>t2. pair_loop c [a, b, d] 2 t1 [(LeafNode a, LeafNode b)]
      = pair_loop c [a, b, d] 4 t2 [(TapBranch (LeafNode a) (LeafNode b), LeafNode d)]" for t1
    by (subst pair_loop.simps) (auto simp: Let_def eval_nat_numeral)
  have "pair_loop c [a, b, d] 4 t2 bs = (t2, bs)" for t2 bs by (simp add: pair_loop.simps [of _ _ 4])
  with 1 2 show ?thesis by metis
qed

lemma root_three:
  "RootNode (AssembleTaprootScriptTree c [a, b, d]) = Some (TapBranch (TapBranch (LeafNode a) (LeafNode b)) (LeafNode d))"
proof -
  obtain t where "pair_loop c [a, b, d] 0 ((NewIndexedTapScriptTree 3)\<lparr>LeafProofIndex := fold (\<lambda>(i, leaf) ix. ix(leaf_TapHash c leaf \<mapsto> i))
      (enumerate 0 [a, b, d]) (LeafProofIndex (NewIndexedTapScriptTree 3))\<rparr>) []
    = (t, [(TapBranch (LeafNode a) (LeafNode b), LeafNode d)])" using pair_three by blast
  then show ?thesis by (simp add: AssembleTaprootScriptTree_def eval_nat_numeral del: enumerate_simps)
qed

lemma toy_RootNode: "RootNode (AssembleTaprootScriptTree toy32 toy_leaves) = Some toy_root"
  by (simp add: root_three toy_leaves_def toy_root_def)

text \<open>The toy hash keeps the sum of the bytes, so that a root can be told from a wrong one.\<close>

lemma toy_sum: "sum_list (TaggedHash toy32 tag msgs) = 2 * sum_list tag + sum_list (concat msgs)"
  by (simp add: TaggedHash_def toy32_def Let_def sum_list_replicate)

lemma toy_branch_sum: "sum_list (tapBranchHash toy32 l r) = 2 * sum_list TagTapBranch + sum_list l + sum_list r"
  by (simp add: tapBranchHash_def toy_sum)

lemma toy_loop_sum:
  "sum_list (rootHash_loop toy32 n p h) - sum_list h = sum_list (rootHash_loop toy32 n p h') - sum_list h'"
proof (induction n arbitrary: p h h')
  case (Suc n)
  show ?case
    using Suc.IH [of "drop 32 p" "tapBranchHash toy32 h (take 32 p)" "tapBranchHash toy32 h' (take 32 p)"]
    by (simp add: toy_branch_sum algebra_simps)
qed simp

lemma toy_verified:
  assumes "VerifyTaprootLeafCommitment toy32 cb toy_key s = Inr ()" "InternalKey cb = [7]"
  shows "sum_list (RootHash toy32 cb s) = sum_list (TapHash toy32 toy_root)"
proof -
  have "TaggedHash toy32 TagTapTweak [[7], RootHash toy32 cb s] = TaggedHash toy32 TagTapTweak [[7], TapHash toy32 toy_root]"
    using assms
    by (auto simp: VerifyTaprootLeafCommitment_def ComputeTaprootOutputKey_def toy_fields toy_key_def Let_def split: if_splits)
  from arg_cong [OF this, of sum_list] show ?thesis by (simp add: toy_sum)
qed

lemma toy_leaf_sum: "sum_list (leaf_TapHash toy32 (NewTapLeaf BaseLeafVersion [x])) = 2 * sum_list TagTapLeaf + BaseLeafVersion + 1 + x"
  by (simp add: leaf_TapHash_def toy_sum NewTapLeaf_def WriteVarBytes_def WriteVarInt_def algebra_simps)

theorem script_tree_proofs_verify_witness:
  "\<exists>cb. toy_block = Inr cb \<and> VerifyTaprootLeafCommitment toy32 cb toy_key [OP_2] = Inr ()
     \<and> VerifyTaprootLeafCommitment toy32 (cb\<lparr>InclusionProof := []\<rparr>) toy_key [OP_2] \<noteq> Inr ()
     \<and> VerifyTaprootLeafCommitment toy32 cb toy_key [OP_3] \<noteq> Inr ()"
proof -
  have h: "hash32 toy32" by (simp add: hash32_def toy32_def)
  have d: "distinct (map (leaf_TapHash toy32) toy_leaves)"
    by (simp add: toy_leaves_def NewBaseTapLeaf_def leaf_TapHash_def TaggedHash_def toy32_def Let_def
        WriteVarBytes_def WriteVarInt_def)
  have k: "ComputeTaprootOutputKey toy32 [7] (TapHash toy32 toy_root) = Inr toy_key"
    by (simp add: ComputeTaprootOutputKey_def toy_key_def toy_fields)
  have l: "1 < length toy_leaves" "leaf_Script (toy_leaves ! 1) = [OP_2]" "LeafVersion (toy_leaves ! 1) = BaseLeafVersion"
    by (simp_all add: toy_leaves_def NewBaseTapLeaf_def)
  then have pf: "LeafMerkleProofs (AssembleTaprootScriptTree toy32 toy_leaves) ! 1 = \<lparr>pf_TapLeaf = toy_leaves ! 1,
      pf_RootNode = Some toy_root, pf_InclusionProof = incl (AssembleTaprootScriptTree toy32 toy_leaves) 1\<rparr>"
    using assembled [OF d h] toy_RootNode by fastforce
  have "\<exists>cb. toy_block = Inr cb \<and> InternalKey cb = [7] \<and> cb_LeafVersion cb = BaseLeafVersion"
    unfolding toy_block_def by (subst pf) (simp add: ToControlBlock_def k l(3) del: One_nat_def)
  then obtain cb where cb: "toy_block = Inr cb" and f: "InternalKey cb = [7]" "cb_LeafVersion cb = BaseLeafVersion" by blast
  from script_tree_proofs_verify [OF d h l(1) cb [unfolded toy_block_def] toy_RootNode k]
  have v: "VerifyTaprootLeafCommitment toy32 cb toy_key [OP_2] = Inr ()" by (simp add: toy_fields l(2) [simplified])
  have "VerifyTaprootLeafCommitment toy32 cb toy_key [OP_3] \<noteq> Inr ()"
    using toy_verified [OF v f(1)] toy_verified [OF _ f(1), of "[OP_3]"]
      toy_loop_sum [of "length (InclusionProof cb) div 32" "InclusionProof cb"
        "leaf_TapHash toy32 (NewTapLeaf BaseLeafVersion [OP_2])" "leaf_TapHash toy32 (NewTapLeaf BaseLeafVersion [OP_3])"]
    by (auto simp: RootHash_def f(2) ControlBlockNodeSize_def toy_leaf_sum)
  moreover have "VerifyTaprootLeafCommitment toy32 (cb\<lparr>InclusionProof := []\<rparr>) toy_key [OP_2] \<noteq> Inr ()"
    using toy_verified [of "cb\<lparr>InclusionProof := []\<rparr>" "[OP_2]"] f toy_leaf_sum
    by (auto simp: RootHash_def ControlBlockNodeSize_def toy_root_def toy_branch_sum toy_leaves_def NewBaseTapLeaf_def
        NewTapLeaf_def TagTapLeaf_def TagTapBranch_def ascii_def)
  ultimately show ?thesis using cb v by blast
qed

text \<open>Control blocks survive serialization: what \<open>ToBytes\<close> writes, \<open>ParseControlBlock\<close> reads back,
  when the leaf version leaves the parity bit free and the proof has at most 128 whole nodes. The
  hypotheses on the keys are those of BIP 340: 32 bytes that parse back to the key.\<close>

theorem control_block_roundtrip:
  assumes "schnorr_ParsePubKey c (schnorr_SerializePubKey c (InternalKey cb)) = Some (InternalKey cb)"
    and "length (schnorr_SerializePubKey c (InternalKey cb)) = 32"
    and "cb_LeafVersion cb AND 1 = 0" "length (InclusionProof cb) = 32 * n" "n \<le> ControlBlockMaxNodeCount"
  shows "ParseControlBlock c (ToBytes c cb) = Inr cb"
proof -
  let ?p = "if OutputKeyYIsOdd cb then 1 else 0 :: u8"
  have bit0: "even (cb_LeafVersion cb)"
    using assms(3) by (simp add: and_one_eq mod2_eq_if split: if_splits)
  have mask: "TaprootLeafMask = NOT 1" by simp
  have "(cb_LeafVersion cb OR ?p) AND TaprootLeafMask = cb_LeafVersion cb"
    unfolding mask using bit0 by (intro bit_word_eqI) (auto simp: bit_simps bit_0)
  moreover have "((cb_LeafVersion cb OR ?p) AND 1 = 1) = OutputKeyYIsOdd cb"
    using bit0 by (simp add: and_one_eq mod2_eq_if even_or_iff)
  ultimately show ?thesis
    using assms by (simp add: ParseControlBlock_def ToBytes_def parse_or_err_def ControlBlockBaseSize_def
        ControlBlockMaxSize_def ControlBlockNodeSize_def ControlBlockMaxNodeCount_def)
qed

theorem control_block_roundtrip_witness:
  "ParseControlBlock toy_crypto (ToBytes toy_crypto
     \<lparr>InternalKey = replicate 32 7, OutputKeyYIsOdd = True, cb_LeafVersion = BaseLeafVersion, InclusionProof = replicate 64 9\<rparr>)
   = Inr \<lparr>InternalKey = replicate 32 7, OutputKeyYIsOdd = True, cb_LeafVersion = BaseLeafVersion, InclusionProof = replicate 64 9\<rparr>"
  by (rule control_block_roundtrip [where n = 2])
    (simp_all add: toy_crypto_def ControlBlockMaxNodeCount_def)

text \<open>C36: The signature cache never grows beyond its limit, keeps one entry per digest, and whatever
  entry it evicts to make room, it confirms only what was added to it as valid; a signature just added
  is confirmed unless the limit is zero.\<close>

theorem sigcache_sound_and_bounded:
  assumes "cache_wf s" "cache_sound good s" "good h sig pk"
  shows "cache_wf (Add h sig pk s) \<and> cache_sound good (Add h sig pk s)
    \<and> length (validSigs (Add h sig pk s)) \<le> maxEntries s
    \<and> (Exists (Add h sig pk s) h' sig' pk' \<longrightarrow> good h' sig' pk')
    \<and> (maxEntries s \<noteq> 0 \<longrightarrow> Exists (Add h sig pk s) h sig pk)"
  using Add_wf [OF assms(1), of h sig pk] sigcache.insert_sound [of "\<lambda>(h, sig, pk). good h sig pk" s "(h, sig, pk)"]
    sigcache.lookup_sound [of "\<lambda>(h, sig, pk). good h sig pk" "Add h sig pk s" "(h', sig', pk')"] assms Exists_Add [of s h sig pk]
  by (auto simp: cache_wf_def) (auto simp: Add_def evict_def Let_def split: if_splits)

theorem sigcache_sound_and_bounded_witness:
  "let s = Add [2] [1] [1] (Add [1] [1] [1] (NewSigCache 1 (\<lambda>_. 5))) in
   length (validSigs s) \<le> 1 \<and> Exists s [2] [1] [1]"
proof -
  have s: "cache_wf (NewSigCache 1 (\<lambda>_. 5))" "cache_sound (\<lambda>h sig pk. sig = pk) (NewSigCache 1 (\<lambda>_. 5))"
    by (simp_all add: NewSigCache_def cache_wf_def cache_sound_def)
  from sigcache_sound_and_bounded [OF s, of "[1]" "[1]" "[1]"]
  have t: "cache_wf (Add [1] [1] [1] (NewSigCache 1 (\<lambda>_. 5)))"
    "cache_sound (\<lambda>h sig pk. sig = pk) (Add [1] [1] [1] (NewSigCache 1 (\<lambda>_. 5)))" by auto
  have "maxEntries (Add [1] [1] [1] (NewSigCache 1 (\<lambda>_. 5))) = 1" by (simp add: Add_def NewSigCache_def evict_def Let_def)
  then show ?thesis using sigcache_sound_and_bounded [OF t, of "[1]" "[1]" "[2]"] by (simp add: Let_def)
qed

end
