(* ===== verification/Script_Vm.thy ===== *)
theory Script_Vm
  imports Script_Stack Script_Builder Script_Taproot
begin

unbundle bit_operations_syntax

text \<open>
  The state of the script engine (\<open>engine.go\<close>), its checks of signature and key encodings, and the
  signature verifiers of \<open>sigvalidate.go\<close>. The engine is a record that every operation returns
  updated; an error discards it, as the result of any method is undefined after an error.
\<close>

section \<open>Flags\<close>

type_synonym ScriptFlags = u32

abbreviation ScriptBip16 :: ScriptFlags where "ScriptBip16 \<equiv> 0x1"
abbreviation ScriptStrictMultiSig :: ScriptFlags where "ScriptStrictMultiSig \<equiv> 0x2"
abbreviation ScriptDiscourageUpgradableNops :: ScriptFlags where "ScriptDiscourageUpgradableNops \<equiv> 0x4"
abbreviation ScriptVerifyCheckLockTimeVerify :: ScriptFlags where "ScriptVerifyCheckLockTimeVerify \<equiv> 0x8"
abbreviation ScriptVerifyCheckSequenceVerify :: ScriptFlags where "ScriptVerifyCheckSequenceVerify \<equiv> 0x10"
abbreviation ScriptVerifyCleanStack :: ScriptFlags where "ScriptVerifyCleanStack \<equiv> 0x20"
abbreviation ScriptVerifyDERSignatures :: ScriptFlags where "ScriptVerifyDERSignatures \<equiv> 0x40"
abbreviation ScriptVerifyLowS :: ScriptFlags where "ScriptVerifyLowS \<equiv> 0x80"
abbreviation ScriptVerifyMinimalData :: ScriptFlags where "ScriptVerifyMinimalData \<equiv> 0x100"
abbreviation ScriptVerifyNullFail :: ScriptFlags where "ScriptVerifyNullFail \<equiv> 0x200"
abbreviation ScriptVerifySigPushOnly :: ScriptFlags where "ScriptVerifySigPushOnly \<equiv> 0x400"
abbreviation ScriptVerifyStrictEncoding :: ScriptFlags where "ScriptVerifyStrictEncoding \<equiv> 0x800"
abbreviation ScriptVerifyWitness :: ScriptFlags where "ScriptVerifyWitness \<equiv> 0x1000"
abbreviation ScriptVerifyDiscourageUpgradeableWitnessProgram :: ScriptFlags where
  "ScriptVerifyDiscourageUpgradeableWitnessProgram \<equiv> 0x2000"
abbreviation ScriptVerifyMinimalIf :: ScriptFlags where "ScriptVerifyMinimalIf \<equiv> 0x4000"
abbreviation ScriptVerifyWitnessPubKeyType :: ScriptFlags where "ScriptVerifyWitnessPubKeyType \<equiv> 0x8000"
abbreviation ScriptVerifyTaproot :: ScriptFlags where "ScriptVerifyTaproot \<equiv> 0x10000"
abbreviation ScriptVerifyDiscourageUpgradeableTaprootVersion :: ScriptFlags where
  "ScriptVerifyDiscourageUpgradeableTaprootVersion \<equiv> 0x20000"
abbreviation ScriptVerifyDiscourageOpSuccess :: ScriptFlags where "ScriptVerifyDiscourageOpSuccess \<equiv> 0x40000"
abbreviation ScriptVerifyDiscourageUpgradeablePubkeyType :: ScriptFlags where
  "ScriptVerifyDiscourageUpgradeablePubkeyType \<equiv> 0x80000"
abbreviation ScriptVerifyConstScriptCode :: ScriptFlags where "ScriptVerifyConstScriptCode \<equiv> 0x100000"

definition MaxStackSize :: nat where "MaxStackSize = 1000"

section \<open>The engine\<close>

datatype cond = OpCondFalse | OpCondTrue | OpCondSkip

record taprootExecutionCtx =
  annex :: "bytes option"
  codeSepPos :: u32
  tapLeafHash :: bytes
  sigOpsBudget :: int
  mustSucceed :: bool

definition sigOpsDelta :: int where "sigOpsDelta = 50"

definition tallysigOp :: "taprootExecutionCtx \<Rightarrow> taprootExecutionCtx res" where
  "tallysigOp t = (let t = t\<lparr>sigOpsBudget := i32 (sigOpsBudget t - sigOpsDelta)\<rparr> in
     if sigOpsBudget t < 0 then Inl ErrTaprootMaxSigOps else Inr t)"

definition newTaprootExecutionCtx :: "int \<Rightarrow> taprootExecutionCtx" where
  "newTaprootExecutionCtx inputWitnessSize =
     \<lparr>annex = None, codeSepPos = blankCodeSepValue, tapLeafHash = zeroHash,
      sigOpsBudget = i32 (sigOpsDelta + inputWitnessSize), mustSucceed = False\<rparr>"

record Engine =
  flags :: ScriptFlags
  vm_tx :: MsgTx
  txIdx :: nat
  vm_version :: nat
  bip16 :: bool
  sigCache :: "SigCache option"
  hashCache :: "TxSigHashes option"
  prevOutFetcher :: PrevOutputFetcher
  scripts :: "bytes list"
  scriptIdx :: nat
  opcodeIdx :: nat
  lastCodeSep :: nat
  tokenizer :: ScriptTokenizer
  savedFirstStack :: "bytes list"
  dstack :: stack
  astack :: stack
  condStack :: "cond list"
  numOps :: nat
  witnessVersion :: nat
  witnessProgram :: "bytes option"
  inputAmount :: u64
  taprootCtx :: "taprootExecutionCtx option"

definition hasFlag :: "Engine \<Rightarrow> ScriptFlags \<Rightarrow> bool" where
  "hasFlag vm flag \<longleftrightarrow> flags vm AND flag = flag"

definition isBranchExecuting :: "Engine \<Rightarrow> bool" where
  "isBranchExecuting vm = (if condStack vm = [] then True else last (condStack vm) = OpCondTrue)"

definition isWitnessVersionActive :: "Engine \<Rightarrow> nat \<Rightarrow> bool" where
  "isWitnessVersionActive vm version \<longleftrightarrow> witnessProgram vm \<noteq> None \<and> witnessVersion vm = version"

abbreviation BaseSegwitWitnessVersion :: nat where "BaseSegwitWitnessVersion \<equiv> 0"
abbreviation TaprootWitnessVersion :: nat where "TaprootWitnessVersion \<equiv> Suc 0"

text \<open>Slicing beyond the end, or a script index beyond the scripts, panics.\<close>

definition subScript :: "Engine \<Rightarrow> bytes res" where
  "subScript vm =
     (if scriptIdx vm \<ge> length (scripts vm) then Inl GoPanic
      else let script = scripts vm ! scriptIdx vm in
        if lastCodeSep vm > length script then Inl GoPanic else Inr (drop (lastCodeSep vm) script))"

definition GetStack :: "Engine \<Rightarrow> bytes list" where
  "GetStack vm = getStack (dstack vm)"

definition SetStack :: "bytes list \<Rightarrow> Engine \<Rightarrow> Engine" where
  "SetStack data vm = vm\<lparr>dstack := setStack (dstack vm) data\<rparr>"

section \<open>Encodings of keys and signatures\<close>

definition checkHashTypeEncoding :: "Engine \<Rightarrow> SigHashType \<Rightarrow> unit res" where
  "checkHashTypeEncoding vm hashType =
     (if \<not> hasFlag vm ScriptVerifyStrictEncoding then Inr ()
      else let sigHashType = hashType AND NOT SigHashAnyOneCanPay in
        if sigHashType < SigHashAll \<or> sigHashType > SigHashSingle then Inl ErrInvalidSigHashType else Inr ())"

definition IsCompressedPubKey :: "bytes \<Rightarrow> bool" where
  "IsCompressedPubKey pubKey \<longleftrightarrow> length pubKey = 33 \<and> pubKey ! 0 AND NOT 1 = 0x02"

definition checkPubKeyEncoding :: "Engine \<Rightarrow> bytes \<Rightarrow> unit res" where
  "checkPubKeyEncoding vm pubKey =
     (if hasFlag vm ScriptVerifyWitnessPubKeyType \<and> isWitnessVersionActive vm BaseSegwitWitnessVersion
         \<and> \<not> IsCompressedPubKey pubKey
      then Inl ErrWitnessPubKeyType
      else if \<not> hasFlag vm ScriptVerifyStrictEncoding then Inr ()
      else if length pubKey = 33 \<and> (pubKey ! 0 = 0x02 \<or> pubKey ! 0 = 0x03) then Inr ()
      else if length pubKey = 65 \<and> pubKey ! 0 = 0x04 then Inr ()
      else Inl ErrPubKeyType)"

definition be_val :: "bytes \<Rightarrow> nat" where
  "be_val b = le_val (rev b)"

definition halfOrder :: "crypto \<Rightarrow> nat" where
  "halfOrder c = curve_N c div 2"

text \<open>The checks after the guard on the flags, in their order; \<open>lowS\<close> is the flag of the last one.\<close>

definition der_checks :: "crypto \<Rightarrow> bool \<Rightarrow> bytes \<Rightarrow> unit res" where
  "der_checks c lowS sig =
     (let sigLen = length sig in
      if sigLen < 8 then Inl ErrSigTooShort
      else if sigLen > 72 then Inl ErrSigTooLong
      else if sig ! 0 \<noteq> 0x30 then Inl ErrSigInvalidSeqID
      else if unat (sig ! 1) \<noteq> sigLen - 2 then Inl ErrSigInvalidDataLen
      else let rLen = unat (sig ! 3); sTypeOffset = 4 + rLen; sLenOffset = sTypeOffset + 1 in
        if sTypeOffset \<ge> sigLen then Inl ErrSigMissingSTypeID
        else if sLenOffset \<ge> sigLen then Inl ErrSigMissingSLen
        else let sOffset = sLenOffset + 1; sLen = unat (sig ! sLenOffset) in
          if sOffset + sLen \<noteq> sigLen then Inl ErrSigInvalidSLen
          else if sig ! 2 \<noteq> 0x02 then Inl ErrSigInvalidRIntID
          else if rLen = 0 then Inl ErrSigZeroRLen
          else if sig ! 4 AND 0x80 \<noteq> 0 then Inl ErrSigNegativeR
          else if rLen > 1 \<and> sig ! 4 = 0 \<and> sig ! 5 AND 0x80 = 0 then Inl ErrSigTooMuchRPadding
          else if sig ! sTypeOffset \<noteq> 0x02 then Inl ErrSigInvalidSIntID
          else if sLen = 0 then Inl ErrSigZeroSLen
          else if sig ! sOffset AND 0x80 \<noteq> 0 then Inl ErrSigNegativeS
          else if sLen > 1 \<and> sig ! sOffset = 0 \<and> sig ! (sOffset + 1) AND 0x80 = 0 then Inl ErrSigTooMuchSPadding
          else if lowS \<and> be_val (take sLen (drop sOffset sig)) > halfOrder c then Inl ErrSigHighS
          else Inr ())"

definition checkSignatureEncoding :: "crypto \<Rightarrow> Engine \<Rightarrow> bytes \<Rightarrow> unit res" where
  "checkSignatureEncoding c vm sig =
     (if \<not> hasFlag vm ScriptVerifyDERSignatures \<and> \<not> hasFlag vm ScriptVerifyLowS
         \<and> \<not> hasFlag vm ScriptVerifyStrictEncoding
      then Inr () else der_checks c (hasFlag vm ScriptVerifyLowS) sig)"

section \<open>The ECDSA verifiers\<close>

record baseSigVerifier =
  bv_pubKey :: bytes
  bv_sig :: bytes
  bv_fullSigBytes :: bytes
  bv_sigBytes :: bytes
  bv_pkBytes :: bytes
  bv_subScript :: bytes
  bv_hashType :: SigHashType

definition parse_ecdsa :: "crypto \<Rightarrow> Engine \<Rightarrow> bytes \<Rightarrow> bytes option" where
  "parse_ecdsa c vm sigBytes =
     (if hasFlag vm ScriptVerifyStrictEncoding \<or> hasFlag vm ScriptVerifyDERSignatures
      then ParseDERSignature c sigBytes else ParseSignature c sigBytes)"

definition parseBaseSigAndPubkey :: "crypto \<Rightarrow> bytes \<Rightarrow> bytes \<Rightarrow> Engine \<Rightarrow> (bytes \<times> bytes \<times> SigHashType) res" where
  "parseBaseSigAndPubkey c pkBytes fullSigBytes vm =
     (if fullSigBytes = [] then Inl GoPanic
      else let hashType = ucast (last fullSigBytes); sigBytes = butlast fullSigBytes in
        rbind (checkHashTypeEncoding vm hashType) (\<lambda>_.
        rbind (checkSignatureEncoding c vm sigBytes) (\<lambda>_.
        rbind (checkPubKeyEncoding vm pkBytes) (\<lambda>_.
        rbind (parse_or_err (ParsePubKey c pkBytes)) (\<lambda>pubKey.
        rbind (parse_or_err (parse_ecdsa c vm sigBytes)) (\<lambda>signature.
          Inr (pubKey, signature, hashType)))))))"

definition newBaseSigVerifier :: "crypto \<Rightarrow> bytes \<Rightarrow> bytes \<Rightarrow> Engine \<Rightarrow> baseSigVerifier res" where
  "newBaseSigVerifier c pkBytes fullSigBytes vm =
     rbind (parseBaseSigAndPubkey c pkBytes fullSigBytes vm) (\<lambda>(pubKey, sig, hashType).
     rbind (subScript vm) (\<lambda>script.
       Inr \<lparr>bv_pubKey = pubKey, bv_sig = sig, bv_fullSigBytes = fullSigBytes,
            bv_sigBytes = butlast fullSigBytes, bv_pkBytes = pkBytes, bv_subScript = script,
            bv_hashType = hashType\<rparr>))"

text \<open>The verification through the cache, shared with \<open>opcodeCheckMultiSig\<close>.\<close>

definition ecdsa_cached ::
  "crypto \<Rightarrow> bytes \<Rightarrow> bytes \<Rightarrow> bytes \<Rightarrow> bytes \<Rightarrow> bytes \<Rightarrow> Engine \<Rightarrow> bool \<times> Engine" where
  "ecdsa_cached c sigHash sigBytes pkBytes sig pubKey vm =
     (case sigCache vm of
        None \<Rightarrow> (ecdsa_Verify c sig sigHash pubKey, vm)
      | Some s \<Rightarrow>
          if Exists s sigHash sigBytes pkBytes then (True, vm)
          else if ecdsa_Verify c sig sigHash pubKey
          then (True, vm\<lparr>sigCache := Some (Add sigHash sigBytes pkBytes s)\<rparr>)
          else (False, vm))"

definition base_verifySig :: "crypto \<Rightarrow> baseSigVerifier \<Rightarrow> bytes \<Rightarrow> Engine \<Rightarrow> bool \<times> Engine" where
  "base_verifySig c b sigHash vm = ecdsa_cached c sigHash (bv_sigBytes b) (bv_pkBytes b) (bv_sig b) (bv_pubKey b) vm"

text \<open>The results of \<open>Verify\<close> are \<open>sigValid\<close>, \<open>sigMatch\<close> and the engine with its cache.\<close>

definition base_Verify :: "crypto \<Rightarrow> baseSigVerifier \<Rightarrow> Engine \<Rightarrow> (bool \<times> bool \<times> Engine) res" where
  "base_Verify c b vm =
     (case removeOpcodeByData (bv_subScript b) (bv_fullSigBytes b) of (script, sigMatch) \<Rightarrow>
        rbind (calcSignatureHash c script (bv_hashType b) (vm_tx vm) (txIdx vm)) (\<lambda>sigHash.
          case base_verifySig c b sigHash vm of (sigValid, vm) \<Rightarrow> Inr (sigValid, sigMatch, vm)))"

definition segwit_hashes :: "crypto \<Rightarrow> Engine \<Rightarrow> TxSigHashes res" where
  "segwit_hashes c vm = (case hashCache vm of
     Some h \<Rightarrow> Inr h | None \<Rightarrow> NewTxSigHashes c (vm_tx vm) (prevOutFetcher vm))"

definition segwit_Verify :: "crypto \<Rightarrow> baseSigVerifier \<Rightarrow> Engine \<Rightarrow> (bool \<times> bool \<times> Engine) res" where
  "segwit_Verify c b vm =
     rbind (segwit_hashes c vm) (\<lambda>sigHashes.
       case calcWitnessSignatureHashRaw c (bv_subScript b) sigHashes (bv_hashType b) (vm_tx vm) (txIdx vm)
              (inputAmount vm) of
         Inl e \<Rightarrow> if e = GoPanic then Inl GoPanic else Inr (False, False, vm)
       | Inr sigHash \<Rightarrow> (case base_verifySig c b sigHash vm of (sigValid, vm) \<Rightarrow> Inr (sigValid, False, vm)))"

section \<open>The tapscript verifier\<close>

text \<open>\<open>None\<close> is the verifier with a nil key, which accepts.\<close>

definition newBaseTapscriptSigVerifier ::
  "crypto \<Rightarrow> bytes \<Rightarrow> bytes \<Rightarrow> Engine \<Rightarrow> taprootSigVerifier option res" where
  "newBaseTapscriptSigVerifier c pkBytes rawSig vm =
     (if length pkBytes = 0 then Inl ErrTaprootPubkeyIsEmpty
      else if length pkBytes = 32 then rbind (newTaprootSigVerifier c pkBytes rawSig) (\<lambda>t. Inr (Some t))
      else if hasFlag vm ScriptVerifyDiscourageUpgradeablePubkeyType then Inl ErrDiscourageUpgradeablePubKeyType
      else Inr None)"

definition tapscript_Verify ::
  "crypto \<Rightarrow> taprootSigVerifier option \<Rightarrow> taprootExecutionCtx \<Rightarrow> Engine \<Rightarrow> (bool \<times> bool \<times> Engine) res" where
  "tapscript_Verify c v ctx vm =
     (case v of None \<Rightarrow> Inr (True, False, vm)
      | Some t \<Rightarrow>
          let opts = WithBaseTapscriptVersion (codeSepPos ctx) (tapLeafHash ctx) defaultTaprootSighashOptions;
              opts = (case annex ctx of Some a \<Rightarrow> WithAnnex c a opts | None \<Rightarrow> opts)
          in rbind (taproot_Verify c t opts (sigCache vm) (hashCache vm) (vm_tx vm) (txIdx vm) (prevOutFetcher vm))
               (\<lambda>(sigValid, cache). Inr (sigValid, False, vm\<lparr>sigCache := cache\<rparr>)))"

section \<open>Strict signatures\<close>

text \<open>A positive DER integer of minimal length, and the signature made of two of them.\<close>

definition der_int :: "bytes \<Rightarrow> bool" where
  "der_int b \<longleftrightarrow> b \<noteq> [] \<and> b ! 0 AND 0x80 = 0 \<and> (length b > 1 \<and> b ! 0 = 0 \<longrightarrow> b ! 1 AND 0x80 \<noteq> 0)"

definition der_sig :: "bytes \<Rightarrow> bytes \<Rightarrow> bytes" where
  "der_sig R S = [0x30, of_nat (4 + length R + length S), 0x02, of_nat (length R)] @ R @ [0x02, of_nat (length S)] @ S"

lemma der_checks_der_sig:
  assumes R: "der_int R" and S: "der_int S" and len: "length (der_sig R S) \<le> 72"
    and low: "lowS \<longrightarrow> be_val S \<le> halfOrder c"
  shows "der_checks c lowS (der_sig R S) = Inr ()"
proof -
  let ?g = "der_sig R S"
  have l: "length ?g = 6 + length R + length S" by (simp add: der_sig_def)
  have small: "length R + length S \<le> 66" using len l by simp
  then have u: "unat (of_nat (4 + length R + length S) :: u8) = 4 + length R + length S"
    "unat (of_nat (length R) :: u8) = length R" "unat (of_nat (length S) :: u8) = length S"
    by (simp_all only: unat_of_nat_u8) simp_all
  have ne: "R \<noteq> []" "S \<noteq> []" using R S by (auto simp: der_int_def)
  have n: "?g ! 0 = 0x30" "?g ! 1 = of_nat (4 + length R + length S)" "?g ! 2 = 2" "?g ! 3 = of_nat (length R)"
    "?g ! 4 = R ! 0" "length R > 1 \<Longrightarrow> ?g ! 5 = R ! 1"
    "?g ! (4 + length R) = 2" "?g ! (4 + length R + 1) = of_nat (length S)"
    "?g ! (4 + length R + 1 + 1) = S ! 0" "length S > 1 \<Longrightarrow> ?g ! (4 + length R + 1 + 1 + 1) = S ! 1"
    using ne by (simp_all add: der_sig_def nth_append nth_Cons' numeral_2_eq_2 numeral_3_eq_3)
  have "take (length S) (drop (4 + length R + 1 + 1) ?g) = S"
    by (simp add: der_sig_def numeral_eq_Suc)
  then have lo: "\<not> (lowS \<and> be_val (take (length S) (drop (4 + length R + 1 + 1) ?g)) > halfOrder c)" using low by auto
  have pad: "\<not> (length R > 1 \<and> ?g ! 4 = 0 \<and> ?g ! 5 AND 0x80 = 0)"
    "\<not> (length S > 1 \<and> ?g ! (4 + length R + 1 + 1) = 0 \<and> ?g ! (4 + length R + 1 + 1 + 1) AND 0x80 = 0)"
    using R S n(5,6,9,10) by (auto simp: der_int_def)
  have neg: "?g ! 4 AND 0x80 = 0" "?g ! (4 + length R + 1 + 1) AND 0x80 = 0"
    using R S by (simp_all only: n der_int_def)
  have len: "\<not> 6 + length R + length S < 8" "\<not> 6 + length R + length S > 72" "4 + length R + length S = 6 + length R + length S - 2"
    "\<not> 4 + length R \<ge> 6 + length R + length S" "\<not> 4 + length R + 1 \<ge> 6 + length R + length S"
    "4 + length R + 1 + 1 + length S = 6 + length R + length S" "length R \<noteq> 0" "length S \<noteq> 0"
    using ne small by (auto simp: Suc_le_eq simp flip: length_greater_0_conv)
  show ?thesis
    unfolding der_checks_def Let_def n(1-4,7,8) u l
    using lo pad neg len by (simp only: if_False if_True simp_thms)
qed

lemma word_unat_eq: "unat (w :: u8) = n \<Longrightarrow> w = of_nat n"
  by auto

lemma der_checks_Inr:
  assumes ok: "der_checks c lowS sig = Inr ()"
  shows "\<exists>R S. sig = der_sig R S \<and> der_int R \<and> der_int S \<and> length sig \<le> 72
    \<and> (lowS \<longrightarrow> be_val S \<le> halfOrder c)"
proof -
  have l8: "8 \<le> length sig" "length sig \<le> 72" using ok by (auto simp: der_checks_def Let_def split: if_splits)
  then obtain a0 a1 a2 a3 rest where s0: "sig = a0 # a1 # a2 # a3 # rest"
    by (cases sig; cases "tl sig"; cases "tl (tl sig)"; cases "tl (tl (tl sig))") auto
  let ?r = "unat a3"
  have r: "?r + 1 < length rest" using ok unfolding s0 by (auto simp: der_checks_def Let_def split: if_splits)
  define R where "R = take ?r rest"
  define S where "S = drop (?r + 2) rest"
  obtain t l where rest: "rest = R @ t # l # S"
  proof -
    have "rest = R @ drop ?r rest" by (simp add: R_def)
    moreover have "drop ?r rest = rest ! ?r # rest ! (?r + 1) # S"
      using r by (simp add: S_def Cons_nth_drop_Suc)
    ultimately show ?thesis using that by metis
  qed
  have lR: "length R = ?r" using r by (simp add: R_def)
  have sig: "sig = a0 # a1 # a2 # a3 # R @ t # l # S" using s0 rest by simp
  have n: "sig ! 0 = a0" "sig ! 1 = a1" "sig ! 2 = a2" "sig ! 3 = a3" "sig ! (4 + ?r) = t" "sig ! (4 + ?r + 1) = l"
    "length sig = 6 + length R + length S"
    using lR by (simp_all add: sig nth_append nth_Cons' numeral_2_eq_2 numeral_3_eq_3)
  note chk = ok [unfolded der_checks_def Let_def n lR [symmetric]]
  have h: "a0 = 0x30" "a2 = 2" "t = 2" "unat a1 = 4 + length R + length S" "unat l = length S" "R \<noteq> []" "S \<noteq> []"
    using chk n lR by (auto split: if_splits)
  have m: "sig ! 4 = R ! 0" "length R > 1 \<Longrightarrow> sig ! 5 = R ! 1" "sig ! (4 + length R + 1 + 1) = S ! 0"
    "length S > 1 \<Longrightarrow> sig ! (4 + length R + 1 + 1 + 1) = S ! 1"
    "take (length S) (drop (4 + length R + 1 + 1) sig) = S"
    using h(6,7) by (simp_all add: sig nth_append nth_Cons' numeral_eq_Suc)
  have "der_int R" "der_int S" "lowS \<longrightarrow> be_val S \<le> halfOrder c"
    using chk h m by (auto simp: der_int_def not_le split: if_splits)
  moreover have "sig = der_sig R S"
    unfolding sig der_sig_def using h lR by (metis (no_types) append_Cons append_Nil word_unat_eq)
  ultimately show ?thesis using l8 by blast
qed

section \<open>The cache is transparent\<close>

text \<open>
  What an entry of the cache asserts: the key and the signature parse and the signature verifies.
  Keys of 32 bytes belong to Schnorr signatures, the others to ECDSA.
\<close>

definition valid_entry :: "crypto \<Rightarrow> bool \<Rightarrow> bytes \<Rightarrow> bytes \<Rightarrow> bytes \<Rightarrow> bool" where
  "valid_entry c strict h sig pk =
     (if length pk = 32
      then (case parseTaprootSigAndPubKey c pk sig of Inr (pubKey, s, _) \<Rightarrow> schnorr_Verify c s h pubKey | Inl _ \<Rightarrow> False)
      else (case (ParsePubKey c pk, if strict then ParseDERSignature c sig else ParseSignature c sig) of
              (Some pubKey, Some s) \<Rightarrow> ecdsa_Verify c s h pubKey | _ \<Rightarrow> False))"

definition strict_vm :: "Engine \<Rightarrow> bool" where
  "strict_vm vm \<longleftrightarrow> hasFlag vm ScriptVerifyStrictEncoding \<or> hasFlag vm ScriptVerifyDERSignatures"

definition sound_vm :: "crypto \<Rightarrow> Engine \<Rightarrow> bool" where
  "sound_vm c vm \<longleftrightarrow> (case sigCache vm of None \<Rightarrow> True | Some s \<Rightarrow> cache_sound (valid_entry c (strict_vm vm)) s)"

text \<open>The documented lengths of serialized public keys.\<close>

definition key_lengths :: "crypto \<Rightarrow> bool" where
  "key_lengths c \<longleftrightarrow> (\<forall>pk k. ParsePubKey c pk = Some k \<longrightarrow> length pk = 33 \<or> length pk = 65)
     \<and> (\<forall>pk k. schnorr_ParsePubKey c pk = Some k \<longrightarrow> length pk = 32)"

lemma ecdsa_cached_sound:
  assumes "sound_vm c vm" "valid_entry c (strict_vm vm) h sigBytes pk \<longleftrightarrow> ecdsa_Verify c sig h pubKey"
    and "ecdsa_cached c h sigBytes pk sig pubKey vm = (v, vm')"
  shows "v = ecdsa_Verify c sig h pubKey \<and> sound_vm c vm' \<and> (\<exists>s. vm' = vm\<lparr>sigCache := s\<rparr>)"
proof (cases "sigCache vm")
  case None
  then show ?thesis using assms by (auto simp: ecdsa_cached_def intro: exI [of _ "sigCache vm"])
next
  case (Some s)
  then have s: "cache_sound (valid_entry c (strict_vm vm)) s" using assms(1) by (simp add: sound_vm_def)
  show ?thesis
    using Some assms(2,3) Exists_sound [OF s] Add_sound [OF s, of h sigBytes pk] assms(1)
    by (auto simp: ecdsa_cached_def sound_vm_def strict_vm_def hasFlag_def split: if_splits intro: exI [of _ "sigCache vm"])
qed

lemma newBaseSigVerifier_valid:
  assumes "newBaseSigVerifier c pk full vm = Inr b" "key_lengths c"
  shows "valid_entry c (strict_vm vm) h (bv_sigBytes b) (bv_pkBytes b) \<longleftrightarrow> ecdsa_Verify c (bv_sig b) h (bv_pubKey b)"
proof -
  have "ParsePubKey c pk = Some (bv_pubKey b)" "parse_ecdsa c vm (butlast full) = Some (bv_sig b)"
    "bv_sigBytes b = butlast full" "bv_pkBytes b = pk"
    using assms(1) by (auto simp: newBaseSigVerifier_def parseBaseSigAndPubkey_def rbind_eq_Inr Let_def parse_or_err_def
        split: if_splits option.splits)
  then show ?thesis using assms(2) by (auto simp: valid_entry_def key_lengths_def parse_ecdsa_def strict_vm_def)
qed

lemma base_verifySig_sound:
  assumes "newBaseSigVerifier c pk full vm0 = Inr b" "key_lengths c" "sound_vm c vm" "strict_vm vm0 = strict_vm vm"
    and "base_verifySig c b h vm = (v, vm')"
  shows "v = ecdsa_Verify c (bv_sig b) h (bv_pubKey b) \<and> sound_vm c vm' \<and> (\<exists>s. vm' = vm\<lparr>sigCache := s\<rparr>)"
  using ecdsa_cached_sound [OF assms(3)] newBaseSigVerifier_valid [OF assms(1,2), of h] assms(4,5)
  by (auto simp: base_verifySig_def)

definition verdict :: "(bool \<times> bool \<times> Engine) res \<Rightarrow> (bool \<times> bool) res" where
  "verdict r = rbind r (\<lambda>(v, m, _). Inr (v, m))"

lemma verdict_simps [simp]: "verdict (Inl e) = Inl e" "verdict (Inr (v, m, vm)) = Inr (v, m)"
  by (simp_all add: verdict_def)

lemma base_verifySig_nil: "base_verifySig c b h (vm\<lparr>sigCache := None\<rparr>) = (ecdsa_Verify c (bv_sig b) h (bv_pubKey b), vm\<lparr>sigCache := None\<rparr>)"
  by (simp add: base_verifySig_def ecdsa_cached_def)

lemma cache_update_simps [simp]:
  "strict_vm (vm\<lparr>sigCache := s\<rparr>) = strict_vm vm" "segwit_hashes c (vm\<lparr>sigCache := s\<rparr>) = segwit_hashes c vm"
  "sound_vm c (vm\<lparr>sigCache := Some x\<rparr>) = cache_sound (valid_entry c (strict_vm vm)) x"
  by (simp_all add: strict_vm_def hasFlag_def segwit_hashes_def sound_vm_def split: option.split)

lemma base_Verify_cached:
  assumes "newBaseSigVerifier c pk full vm = Inr b" "key_lengths c" "sound_vm c vm"
  shows "verdict (base_Verify c b vm) = verdict (base_Verify c b (vm\<lparr>sigCache := None\<rparr>))
    \<and> (\<forall>v m vm'. base_Verify c b vm = Inr (v, m, vm') \<longrightarrow> sound_vm c vm')"
  using base_verifySig_sound [OF assms refl]
  by (auto simp: base_Verify_def base_verifySig_nil rbind_def split: prod.splits sum.splits)

lemma segwit_Verify_cached:
  assumes "newBaseSigVerifier c pk full vm = Inr b" "key_lengths c" "sound_vm c vm"
  shows "verdict (segwit_Verify c b vm) = verdict (segwit_Verify c b (vm\<lparr>sigCache := None\<rparr>))
    \<and> (\<forall>v m vm'. segwit_Verify c b vm = Inr (v, m, vm') \<longrightarrow> sound_vm c vm')"
  using base_verifySig_sound [OF assms refl] assms(3)
  by (auto simp: segwit_Verify_def base_verifySig_nil rbind_def split: prod.splits sum.splits)

lemma taproot_verifier_valid:
  assumes "newBaseTapscriptSigVerifier c pk full vm = Inr (Some t)"
  shows "valid_entry c strict h (tv_fullSigBytes t) (tv_pkBytes t) \<longleftrightarrow> schnorr_Verify c (tv_sig t) h (tv_pubKey t)"
  using assms by (auto simp: newBaseTapscriptSigVerifier_def newTaprootSigVerifier_def valid_entry_def rbind_eq_Inr split: if_splits)

lemma taproot_Verify_cached:
  assumes "newBaseTapscriptSigVerifier c pk full vm = Inr (Some t)" "cache_sound (valid_entry c strict) s"
  shows "rbind (taproot_Verify c t opts (Some s) hc tx i f) (\<lambda>(v, _). Inr v) = rbind (taproot_Verify c t opts None hc tx i f) (\<lambda>(v, _). Inr v)
    \<and> (\<forall>v s'. taproot_Verify c t opts (Some s) hc tx i f = Inr (v, s') \<longrightarrow> (\<exists>s''. s' = Some s'' \<and> cache_sound (valid_entry c strict) s''))"
proof -
  note tv = taproot_verifySig_cached [OF assms(2) taproot_verifier_valid [OF assms(1)]]
  have "fst (taproot_verifySig c t (Some s) h) = fst (taproot_verifySig c t None h)" for h using tv by blast
  moreover have "\<exists>s''. snd (taproot_verifySig c t (Some s) h) = Some s'' \<and> cache_sound (valid_entry c strict) s''" for h
    using tv by blast
  ultimately show ?thesis
    using assms(2) by (auto simp: taproot_Verify_def Let_def rbind_def split: sum.splits prod.splits) (metis fst_conv snd_conv)+
qed

lemma tapscript_Verify_cached:
  assumes "newBaseTapscriptSigVerifier c pk full vm = Inr t" "sound_vm c vm"
  shows "verdict (tapscript_Verify c t ctx vm) = verdict (tapscript_Verify c t ctx (vm\<lparr>sigCache := None\<rparr>))
    \<and> (\<forall>v m vm'. tapscript_Verify c t ctx vm = Inr (v, m, vm') \<longrightarrow> sound_vm c vm')"
proof (cases "sigCache vm")
  case (Some s)
  show ?thesis
  proof (cases t)
    case (Some t')
    have "cache_sound (valid_entry c (strict_vm vm)) s" using assms(2) \<open>sigCache vm = Some s\<close> by (simp add: sound_vm_def)
    note tv = taproot_Verify_cached [OF assms(1) [unfolded Some] this]
    define opts where "opts = (let opts = WithBaseTapscriptVersion (codeSepPos ctx) (tapLeafHash ctx) defaultTaprootSighashOptions
      in case annex ctx of Some a \<Rightarrow> WithAnnex c a opts | None \<Rightarrow> opts)"
    have v: "tapscript_Verify c t ctx vm' = rbind (taproot_Verify c t' opts (sigCache vm') (hashCache vm') (vm_tx vm')
        (txIdx vm') (prevOutFetcher vm')) (\<lambda>(v, cache). Inr (v, False, vm'\<lparr>sigCache := cache\<rparr>))" for vm'
      by (simp add: tapscript_Verify_def Some opts_def Let_def)
    have w: "verdict (rbind r (\<lambda>(v, cache). Inr (v, False, f cache))) = rbind (rbind r (\<lambda>(v, _). Inr v)) (\<lambda>v. Inr (v, False))"
      for r :: "(bool \<times> SigCache option) res" and f
      by (simp add: verdict_def rbind_assoc split_def)
    have "sound_vm c (vm\<lparr>sigCache := b\<rparr>)"
      if "taproot_Verify c t' opts (Some s) (hashCache vm) (vm_tx vm) (txIdx vm) (prevOutFetcher vm) = Inr (d, b)" for d b
      using tv [THEN conjunct2, rule_format, OF that] by auto
    then show ?thesis
      using tv [THEN conjunct1] \<open>sigCache vm = Some s\<close> by (auto simp: v w rbind_eq_Inr)
  qed (use assms in \<open>simp add: tapscript_Verify_def\<close>)
next
  case None
  then have "vm\<lparr>sigCache := None\<rparr> = vm" by simp
  then show ?thesis using None
    by (auto simp: tapscript_Verify_def sound_vm_def rbind_eq_Inr taproot_Verify_def taproot_verifySig_def Let_def split: option.splits if_splits sum.splits)
qed

section \<open>Properties\<close>

text \<open>Under any of the strict flags a signature passes the encoding check exactly when it is the DER
  encoding of two positive integers in their shortest form, at most 72 bytes long, and with the low-S
  flag the second one is at most half the group order: every (R, S) has one accepted encoding.\<close>

theorem checkSignatureEncoding_iff:
  assumes "hasFlag vm ScriptVerifyDERSignatures \<or> hasFlag vm ScriptVerifyLowS \<or> hasFlag vm ScriptVerifyStrictEncoding"
  shows "checkSignatureEncoding c vm sig = Inr () \<longleftrightarrow>
    (\<exists>R S. sig = der_sig R S \<and> der_int R \<and> der_int S \<and> length sig \<le> 72
       \<and> (hasFlag vm ScriptVerifyLowS \<longrightarrow> be_val S \<le> halfOrder c))"
  using der_checks_Inr [of c "hasFlag vm ScriptVerifyLowS" sig] der_checks_der_sig [of _ _ "hasFlag vm ScriptVerifyLowS" c] assms
  by (auto simp: checkSignatureEncoding_def)

text \<open>The signature cache is transparent: whatever valid signatures it holds, the ECDSA, segwit and
  tapscript verifiers return what they return without a cache, and leave only valid entries in it.\<close>

theorem verifiers_ignore_cache:
  assumes "key_lengths c" "sound_vm c vm" "newBaseSigVerifier c pk sig vm = Inr b"
    and "newBaseTapscriptSigVerifier c tpk tsig vm = Inr t"
  shows "verdict (base_Verify c b vm) = verdict (base_Verify c b (vm\<lparr>sigCache := None\<rparr>))
    \<and> verdict (segwit_Verify c b vm) = verdict (segwit_Verify c b (vm\<lparr>sigCache := None\<rparr>))
    \<and> verdict (tapscript_Verify c t ctx vm) = verdict (tapscript_Verify c t ctx (vm\<lparr>sigCache := None\<rparr>))
    \<and> (base_Verify c b vm = Inr (v, m, vm') \<or> segwit_Verify c b vm = Inr (v, m, vm')
       \<or> tapscript_Verify c t ctx vm = Inr (v, m, vm') \<longrightarrow> sound_vm c vm')"
  using base_Verify_cached [OF assms(3,1,2)] segwit_Verify_cached [OF assms(3,1,2)] tapscript_Verify_cached [OF assms(4,2)]
  by blast

section \<open>Witnesses\<close>

definition sample_vm :: Engine where
  "sample_vm = \<lparr>flags = ScriptVerifyLowS, vm_tx = sample_tx, txIdx = 0, vm_version = 0, bip16 = False,
     sigCache = Some (NewSigCache 3 (\<lambda>_. 0)), hashCache = None, prevOutFetcher = (\<lambda>_. Some \<lparr>Value = 0, PkScript = []\<rparr>),
     scripts = [[], [OP_CHECKSIG]], scriptIdx = 1, opcodeIdx = 0, lastCodeSep = 0,
     tokenizer = MakeScriptTokenizer 0 [OP_CHECKSIG], savedFirstStack = [],
     dstack = \<lparr>stk = [], verifyMinimalData = False\<rparr>, astack = \<lparr>stk = [], verifyMinimalData = False\<rparr>,
     condStack = [], numOps = 0, witnessVersion = 0, witnessProgram = None, inputAmount = 0, taprootCtx = None\<rparr>"

theorem checkSignatureEncoding_iff_witness:
  "checkSignatureEncoding toy_crypto sample_vm (der_sig [1] [2]) = Inr ()"
proof -
  have f: "hasFlag sample_vm ScriptVerifyDERSignatures \<or> hasFlag sample_vm ScriptVerifyLowS \<or> hasFlag sample_vm ScriptVerifyStrictEncoding"
    by (simp add: hasFlag_def sample_vm_def)
  have "be_val [2] \<le> halfOrder toy_crypto" by (simp add: be_val_def halfOrder_def toy_crypto_def)
  then show ?thesis
    unfolding checkSignatureEncoding_iff [OF f]
    by (intro exI [of _ "[1]"] exI [of _ "[2]"]) (simp add: der_int_def der_sig_def)
qed

definition key_crypto :: crypto where
  "key_crypto = toy_crypto\<lparr>ParsePubKey := (\<lambda>pk. if length pk = 33 then Some pk else None),
     schnorr_ParsePubKey := (\<lambda>pk. if length pk = 32 then Some pk else None)\<rparr>"

theorem verifiers_ignore_cache_witness:
  "\<exists>b t. verdict (base_Verify key_crypto b sample_vm) = verdict (base_Verify key_crypto b (sample_vm\<lparr>sigCache := None\<rparr>))
     \<and> verdict (tapscript_Verify key_crypto t (newTaprootExecutionCtx 100) sample_vm)
       = verdict (tapscript_Verify key_crypto t (newTaprootExecutionCtx 100) (sample_vm\<lparr>sigCache := None\<rparr>))"
proof -
  have k: "key_lengths key_crypto" by (auto simp: key_lengths_def key_crypto_def toy_crypto_def split: if_splits)
  have s: "sound_vm key_crypto sample_vm" by (simp add: sound_vm_def sample_vm_def cache_sound_def NewSigCache_def)
  have e: "checkSignatureEncoding key_crypto sample_vm (der_sig [1] [2]) = Inr ()"
    using der_checks_der_sig [of "[1]" "[2]" True key_crypto]
    by (simp add: checkSignatureEncoding_def hasFlag_def sample_vm_def der_int_def
        be_val_def halfOrder_def key_crypto_def toy_crypto_def) (simp add: der_sig_def)
  obtain b where b: "newBaseSigVerifier key_crypto (2 # replicate 32 0) (der_sig [1] [2] @ [1]) sample_vm = Inr b"
  proof -
    have "\<not> hasFlag sample_vm ScriptVerifyStrictEncoding" "\<not> hasFlag sample_vm ScriptVerifyDERSignatures"
      "\<not> hasFlag sample_vm ScriptVerifyWitnessPubKeyType" "subScript sample_vm = Inr [OP_CHECKSIG]"
      by (simp_all add: hasFlag_def sample_vm_def subScript_def)
    then show ?thesis
      using e that by (simp add: newBaseSigVerifier_def parseBaseSigAndPubkey_def checkHashTypeEncoding_def
          checkPubKeyEncoding_def parse_ecdsa_def parse_or_err_def key_crypto_def toy_crypto_def Let_def)
  qed
  obtain t where t: "newBaseTapscriptSigVerifier key_crypto (replicate 32 0) (replicate 64 0) sample_vm = Inr t"
    by (simp add: newBaseTapscriptSigVerifier_def newTaprootSigVerifier_def parseTaprootSigAndPubKey_def parse_or_err_def
        key_crypto_def toy_crypto_def)
  show ?thesis using verifiers_ignore_cache [OF k s b t] by blast
qed

end
