(* ===== verification/Script_Opcodes.thy ===== *)
theory Script_Opcodes
  imports Script_Vm
begin

unbundle bit_operations_syntax

text \<open>
  The opcode handlers (\<open>opcode.go\<close>), one definition per handler, and the table that maps opcodes to
  them. A handler takes the engine and returns it updated or the error of the source. Integers on the
  stack have at most four bytes; results are wrapped to 64 bits all the same, as Go computes them.
\<close>

section \<open>Helpers\<close>

definition on_dstack :: "(stack \<Rightarrow> stack res) \<Rightarrow> Engine \<Rightarrow> Engine res" where
  "on_dstack f vm = rbind (f (dstack vm)) (\<lambda>s. Inr (vm\<lparr>dstack := s\<rparr>))"

definition pop :: "Engine \<Rightarrow> (bytes \<times> Engine) res" where
  "pop vm = rbind (PopByteArray (dstack vm)) (\<lambda>(so, s). Inr (so, vm\<lparr>dstack := s\<rparr>))"

definition popInt :: "Engine \<Rightarrow> (int \<times> Engine) res" where
  "popInt vm = rbind (PopInt (dstack vm)) (\<lambda>(n, s). Inr (n, vm\<lparr>dstack := s\<rparr>))"

definition popBool :: "Engine \<Rightarrow> (bool \<times> Engine) res" where
  "popBool vm = rbind (PopBool (dstack vm)) (\<lambda>(b, s). Inr (b, vm\<lparr>dstack := s\<rparr>))"

definition push :: "bytes \<Rightarrow> Engine \<Rightarrow> Engine" where
  "push so vm = vm\<lparr>dstack := PushByteArray so (dstack vm)\<rparr>"

definition pushBool :: "bool \<Rightarrow> Engine \<Rightarrow> Engine" where
  "pushBool b vm = vm\<lparr>dstack := PushBool b (dstack vm)\<rparr>"

definition pushInt :: "int \<Rightarrow> Engine \<Rightarrow> Engine res" where
  "pushInt n vm = on_dstack (PushInt n) vm"

text \<open>Handlers that replace one or two integers, the second one popped being below the first.\<close>

definition int_unop :: "(int \<Rightarrow> int) \<Rightarrow> Engine \<Rightarrow> Engine res" where
  "int_unop f vm = rbind (popInt vm) (\<lambda>(m, vm). pushInt (f m) vm)"

definition int_binop :: "(int \<Rightarrow> int \<Rightarrow> int) \<Rightarrow> Engine \<Rightarrow> Engine res" where
  "int_binop f vm = rbind (popInt vm) (\<lambda>(v0, vm). rbind (popInt vm) (\<lambda>(v1, vm). pushInt (f v0 v1) vm))"

definition b2i :: "bool \<Rightarrow> int" where
  "b2i b = (if b then 1 else 0)"

definition hash_op :: "(bytes \<Rightarrow> bytes) \<Rightarrow> Engine \<Rightarrow> Engine res" where
  "hash_op h vm = rbind (pop vm) (\<lambda>(buf, vm). Inr (push (h buf) vm))"

section \<open>Constants and control\<close>

definition opcodeDisabled :: "Engine \<Rightarrow> Engine res" where "opcodeDisabled vm = Inl ErrDisabledOpcode"
definition opcodeReserved :: "Engine \<Rightarrow> Engine res" where "opcodeReserved vm = Inl ErrReservedOpcode"
definition opcodeInvalid :: "Engine \<Rightarrow> Engine res" where "opcodeInvalid vm = Inl ErrReservedOpcode"
definition opcodeFalse :: "Engine \<Rightarrow> Engine res" where "opcodeFalse vm = Inr (push [] vm)"
definition opcodePushData :: "bytes \<Rightarrow> Engine \<Rightarrow> Engine res" where "opcodePushData data vm = Inr (push data vm)"
definition opcode1Negate :: "Engine \<Rightarrow> Engine res" where "opcode1Negate vm = pushInt (-1) vm"

definition opcodeN :: "u8 \<Rightarrow> Engine \<Rightarrow> Engine res" where
  "opcodeN op vm = pushInt (int (unat (op - (OP_1 - 1)))) vm"

definition opcodeNop :: "u8 \<Rightarrow> Engine \<Rightarrow> Engine res" where
  "opcodeNop op vm =
     (if op \<in> {OP_NOP1, OP_NOP4, OP_NOP5, OP_NOP6, OP_NOP7, OP_NOP8, OP_NOP9, OP_NOP10}
         \<and> hasFlag vm ScriptDiscourageUpgradableNops
      then Inl ErrDiscourageUpgradableNOPs else Inr vm)"

definition popIfBool :: "Engine \<Rightarrow> (bool \<times> Engine) res" where
  "popIfBool vm =
     (if \<not> isWitnessVersionActive vm TaprootWitnessVersion
         \<and> (\<not> isWitnessVersionActive vm BaseSegwitWitnessVersion \<or> \<not> hasFlag vm ScriptVerifyMinimalIf)
      then popBool vm
      else rbind (pop vm) (\<lambda>(so, vm).
        if length so > 1 then Inl ErrMinimalIf
        else if length so = 1 \<and> so ! 0 \<noteq> 0x01 then Inl ErrMinimalIf
        else Inr (asBool so, vm)))"

definition opcodeIf :: "Engine \<Rightarrow> Engine res" where
  "opcodeIf vm =
     (if isBranchExecuting vm then
        rbind (popIfBool vm) (\<lambda>(ok, vm).
          Inr (vm\<lparr>condStack := condStack vm @ [if ok then OpCondTrue else OpCondFalse]\<rparr>))
      else Inr (vm\<lparr>condStack := condStack vm @ [OpCondSkip]\<rparr>))"

definition opcodeNotIf :: "Engine \<Rightarrow> Engine res" where
  "opcodeNotIf vm =
     (if isBranchExecuting vm then
        rbind (popIfBool vm) (\<lambda>(ok, vm).
          Inr (vm\<lparr>condStack := condStack vm @ [if \<not> ok then OpCondTrue else OpCondFalse]\<rparr>))
      else Inr (vm\<lparr>condStack := condStack vm @ [OpCondSkip]\<rparr>))"

definition opcodeElse :: "Engine \<Rightarrow> Engine res" where
  "opcodeElse vm =
     (if condStack vm = [] then Inl ErrUnbalancedConditional
      else Inr (vm\<lparr>condStack := butlast (condStack vm) @
             [case last (condStack vm) of OpCondTrue \<Rightarrow> OpCondFalse | OpCondFalse \<Rightarrow> OpCondTrue
              | OpCondSkip \<Rightarrow> OpCondSkip]\<rparr>))"

definition opcodeEndif :: "Engine \<Rightarrow> Engine res" where
  "opcodeEndif vm =
     (if condStack vm = [] then Inl ErrUnbalancedConditional
      else Inr (vm\<lparr>condStack := butlast (condStack vm)\<rparr>))"

definition abstractVerify :: "Engine \<Rightarrow> ErrorCode \<Rightarrow> Engine res" where
  "abstractVerify vm e = rbind (popBool vm) (\<lambda>(verified, vm). if \<not> verified then Inl e else Inr vm)"

definition opcodeVerify :: "Engine \<Rightarrow> Engine res" where "opcodeVerify vm = abstractVerify vm ErrVerify"
definition opcodeReturn :: "Engine \<Rightarrow> Engine res" where "opcodeReturn vm = Inl ErrEarlyReturn"

section \<open>Lock times\<close>

definition LockTimeThreshold :: int where "LockTimeThreshold = 500000000"

definition verifyLockTime :: "int \<Rightarrow> int \<Rightarrow> int \<Rightarrow> unit res" where
  "verifyLockTime txLockTime threshold lockTime =
     (if \<not> ((txLockTime < threshold \<and> lockTime < threshold)
             \<or> (txLockTime \<ge> threshold \<and> lockTime \<ge> threshold)) then Inl ErrUnsatisfiedLockTime
      else if lockTime > txLockTime then Inl ErrUnsatisfiedLockTime
      else Inr ())"

definition opcodeCheckLockTimeVerify :: "Engine \<Rightarrow> Engine res" where
  "opcodeCheckLockTimeVerify vm =
     (if \<not> hasFlag vm ScriptVerifyCheckLockTimeVerify then
        (if hasFlag vm ScriptDiscourageUpgradableNops then Inl ErrDiscourageUpgradableNOPs else Inr vm)
      else rbind (PeekByteArray (dstack vm) 0) (\<lambda>so.
        rbind (MakeScriptNum so (verifyMinimalData (dstack vm)) cltvMaxScriptNumLen) (\<lambda>lockTime.
          if lockTime < 0 then Inl ErrNegativeLockTime
          else rbind (verifyLockTime (uint (LockTime (vm_tx vm))) LockTimeThreshold lockTime) (\<lambda>_.
            if txIdx vm \<ge> length (MsgTxIn (vm_tx vm)) then Inl GoPanic
            else if Sequence (MsgTxIn (vm_tx vm) ! txIdx vm) = 0xffffffff then Inl ErrUnsatisfiedLockTime
            else Inr vm))))"

abbreviation SequenceLockTimeDisabled :: int where "SequenceLockTimeDisabled \<equiv> 0x80000000"
abbreviation SequenceLockTimeIsSeconds :: int where "SequenceLockTimeIsSeconds \<equiv> 0x400000"
abbreviation SequenceLockTimeMask :: int where "SequenceLockTimeMask \<equiv> 0x0000ffff"

definition opcodeCheckSequenceVerify :: "Engine \<Rightarrow> Engine res" where
  "opcodeCheckSequenceVerify vm =
     (if \<not> hasFlag vm ScriptVerifyCheckSequenceVerify then
        (if hasFlag vm ScriptDiscourageUpgradableNops then Inl ErrDiscourageUpgradableNOPs else Inr vm)
      else rbind (PeekByteArray (dstack vm) 0) (\<lambda>so.
        rbind (MakeScriptNum so (verifyMinimalData (dstack vm)) cltvMaxScriptNumLen) (\<lambda>sequence.
          if sequence < 0 then Inl ErrNegativeLockTime
          else if sequence AND SequenceLockTimeDisabled \<noteq> 0 then Inr vm
          else if unat (Version (vm_tx vm)) < 2 then Inl ErrUnsatisfiedLockTime
          else if txIdx vm \<ge> length (MsgTxIn (vm_tx vm)) then Inl GoPanic
          else let txSequence = uint (Sequence (MsgTxIn (vm_tx vm) ! txIdx vm)) in
            if txSequence AND SequenceLockTimeDisabled \<noteq> 0 then Inl ErrUnsatisfiedLockTime
            else let lockTimeMask = SequenceLockTimeIsSeconds OR SequenceLockTimeMask in
              rbind (verifyLockTime (txSequence AND lockTimeMask) SequenceLockTimeIsSeconds
                       (sequence AND lockTimeMask)) (\<lambda>_. Inr vm))))"

section \<open>Stack opcodes\<close>

definition opcodeToAltStack :: "Engine \<Rightarrow> Engine res" where
  "opcodeToAltStack vm = rbind (pop vm) (\<lambda>(so, vm). Inr (vm\<lparr>astack := PushByteArray so (astack vm)\<rparr>))"

definition opcodeFromAltStack :: "Engine \<Rightarrow> Engine res" where
  "opcodeFromAltStack vm = rbind (PopByteArray (astack vm)) (\<lambda>(so, a). Inr (push so (vm\<lparr>astack := a\<rparr>)))"

definition opcode2Drop :: "Engine \<Rightarrow> Engine res" where "opcode2Drop vm = on_dstack (\<lambda>s. DropN s 2) vm"
definition opcode2Dup :: "Engine \<Rightarrow> Engine res" where "opcode2Dup vm = on_dstack (\<lambda>s. DupN s 2) vm"
definition opcode3Dup :: "Engine \<Rightarrow> Engine res" where "opcode3Dup vm = on_dstack (\<lambda>s. DupN s 3) vm"
definition opcode2Over :: "Engine \<Rightarrow> Engine res" where "opcode2Over vm = on_dstack (\<lambda>s. OverN s 2) vm"
definition opcode2Rot :: "Engine \<Rightarrow> Engine res" where "opcode2Rot vm = on_dstack (\<lambda>s. RotN s 2) vm"
definition opcode2Swap :: "Engine \<Rightarrow> Engine res" where "opcode2Swap vm = on_dstack (\<lambda>s. SwapN s 2) vm"
definition opcodeDrop :: "Engine \<Rightarrow> Engine res" where "opcodeDrop vm = on_dstack (\<lambda>s. DropN s 1) vm"
definition opcodeDup :: "Engine \<Rightarrow> Engine res" where "opcodeDup vm = on_dstack (\<lambda>s. DupN s 1) vm"
definition opcodeNip :: "Engine \<Rightarrow> Engine res" where "opcodeNip vm = on_dstack (\<lambda>s. NipN s 1) vm"
definition opcodeOver :: "Engine \<Rightarrow> Engine res" where "opcodeOver vm = on_dstack (\<lambda>s. OverN s 1) vm"
definition opcodeRot :: "Engine \<Rightarrow> Engine res" where "opcodeRot vm = on_dstack (\<lambda>s. RotN s 1) vm"
definition opcodeSwap :: "Engine \<Rightarrow> Engine res" where "opcodeSwap vm = on_dstack (\<lambda>s. SwapN s 1) vm"
definition opcodeTuck :: "Engine \<Rightarrow> Engine res" where "opcodeTuck vm = on_dstack (\<lambda>s. Tuck s) vm"

definition opcodeIfDup :: "Engine \<Rightarrow> Engine res" where
  "opcodeIfDup vm = rbind (PeekByteArray (dstack vm) 0) (\<lambda>so. Inr (if asBool so then push so vm else vm))"

definition opcodeDepth :: "Engine \<Rightarrow> Engine res" where
  "opcodeDepth vm = pushInt (Depth (dstack vm)) vm"

definition opcodePick :: "Engine \<Rightarrow> Engine res" where
  "opcodePick vm = rbind (popInt vm) (\<lambda>(val, vm). on_dstack (\<lambda>s. PickN s (Int32 val)) vm)"

definition opcodeRoll :: "Engine \<Rightarrow> Engine res" where
  "opcodeRoll vm = rbind (popInt vm) (\<lambda>(val, vm). on_dstack (\<lambda>s. RollN s (Int32 val)) vm)"

definition opcodeSize :: "Engine \<Rightarrow> Engine res" where
  "opcodeSize vm = rbind (PeekByteArray (dstack vm) 0) (\<lambda>so. pushInt (int (length so)) vm)"

definition opcodeEqual :: "Engine \<Rightarrow> Engine res" where
  "opcodeEqual vm = rbind (pop vm) (\<lambda>(a, vm). rbind (pop vm) (\<lambda>(b, vm). Inr (pushBool (a = b) vm)))"

definition opcodeEqualVerify :: "Engine \<Rightarrow> Engine res" where
  "opcodeEqualVerify vm = rbind (opcodeEqual vm) (\<lambda>vm. abstractVerify vm ErrEqualVerify)"

section \<open>Arithmetic\<close>

definition opcode1Add :: "Engine \<Rightarrow> Engine res" where "opcode1Add vm = int_unop (\<lambda>m. i64 (m + 1)) vm"
definition opcode1Sub :: "Engine \<Rightarrow> Engine res" where "opcode1Sub vm = int_unop (\<lambda>m. i64 (m - 1)) vm"
definition opcodeNegate :: "Engine \<Rightarrow> Engine res" where "opcodeNegate vm = int_unop (\<lambda>m. i64 (- m)) vm"
definition opcodeAbs :: "Engine \<Rightarrow> Engine res" where "opcodeAbs vm = int_unop (\<lambda>m. if m < 0 then i64 (- m) else m) vm"
definition opcodeNot :: "Engine \<Rightarrow> Engine res" where "opcodeNot vm = int_unop (\<lambda>m. b2i (m = 0)) vm"
definition opcode0NotEqual :: "Engine \<Rightarrow> Engine res" where "opcode0NotEqual vm = int_unop (\<lambda>m. if m \<noteq> 0 then 1 else m) vm"
definition opcodeAdd :: "Engine \<Rightarrow> Engine res" where "opcodeAdd vm = int_binop (\<lambda>v0 v1. i64 (v0 + v1)) vm"
definition opcodeSub :: "Engine \<Rightarrow> Engine res" where "opcodeSub vm = int_binop (\<lambda>v0 v1. i64 (v1 - v0)) vm"
definition opcodeBoolAnd :: "Engine \<Rightarrow> Engine res" where "opcodeBoolAnd vm = int_binop (\<lambda>v0 v1. b2i (v0 \<noteq> 0 \<and> v1 \<noteq> 0)) vm"
definition opcodeBoolOr :: "Engine \<Rightarrow> Engine res" where "opcodeBoolOr vm = int_binop (\<lambda>v0 v1. b2i (v0 \<noteq> 0 \<or> v1 \<noteq> 0)) vm"
definition opcodeNumEqual :: "Engine \<Rightarrow> Engine res" where "opcodeNumEqual vm = int_binop (\<lambda>v0 v1. b2i (v0 = v1)) vm"
definition opcodeNumNotEqual :: "Engine \<Rightarrow> Engine res" where "opcodeNumNotEqual vm = int_binop (\<lambda>v0 v1. b2i (v0 \<noteq> v1)) vm"
definition opcodeLessThan :: "Engine \<Rightarrow> Engine res" where "opcodeLessThan vm = int_binop (\<lambda>v0 v1. b2i (v1 < v0)) vm"
definition opcodeGreaterThan :: "Engine \<Rightarrow> Engine res" where "opcodeGreaterThan vm = int_binop (\<lambda>v0 v1. b2i (v1 > v0)) vm"
definition opcodeLessThanOrEqual :: "Engine \<Rightarrow> Engine res" where "opcodeLessThanOrEqual vm = int_binop (\<lambda>v0 v1. b2i (v1 \<le> v0)) vm"
definition opcodeGreaterThanOrEqual :: "Engine \<Rightarrow> Engine res" where "opcodeGreaterThanOrEqual vm = int_binop (\<lambda>v0 v1. b2i (v1 \<ge> v0)) vm"
definition opcodeMin :: "Engine \<Rightarrow> Engine res" where "opcodeMin vm = int_binop (\<lambda>v0 v1. if v1 < v0 then v1 else v0) vm"
definition opcodeMax :: "Engine \<Rightarrow> Engine res" where "opcodeMax vm = int_binop (\<lambda>v0 v1. if v1 > v0 then v1 else v0) vm"

definition opcodeNumEqualVerify :: "Engine \<Rightarrow> Engine res" where
  "opcodeNumEqualVerify vm = rbind (opcodeNumEqual vm) (\<lambda>vm. abstractVerify vm ErrNumEqualVerify)"

definition opcodeWithin :: "Engine \<Rightarrow> Engine res" where
  "opcodeWithin vm = rbind (popInt vm) (\<lambda>(maxVal, vm). rbind (popInt vm) (\<lambda>(minVal, vm).
     rbind (popInt vm) (\<lambda>(x, vm). pushInt (b2i (x \<ge> minVal \<and> x < maxVal)) vm)))"

section \<open>Hashes\<close>

definition opcodeRipemd160 :: "crypto \<Rightarrow> Engine \<Rightarrow> Engine res" where "opcodeRipemd160 c vm = hash_op (ripemd160 c) vm"
definition opcodeSha1 :: "crypto \<Rightarrow> Engine \<Rightarrow> Engine res" where "opcodeSha1 c vm = hash_op (sha1 c) vm"
definition opcodeSha256 :: "crypto \<Rightarrow> Engine \<Rightarrow> Engine res" where "opcodeSha256 c vm = hash_op (sha256 c) vm"

definition opcodeHash160 :: "crypto \<Rightarrow> Engine \<Rightarrow> Engine res" where
  "opcodeHash160 c vm = hash_op (\<lambda>buf. ripemd160 c (sha256 c buf)) vm"

definition opcodeHash256 :: "crypto \<Rightarrow> Engine \<Rightarrow> Engine res" where "opcodeHash256 c vm = hash_op (DoubleHashB c) vm"

section \<open>Signatures\<close>

definition opcodeCodeSeparator :: "Engine \<Rightarrow> Engine res" where
  "opcodeCodeSeparator vm =
     (let vm = vm\<lparr>lastCodeSep := tok_offset (tokenizer vm)\<rparr> in
      case taprootCtx vm of
        Some ctx \<Rightarrow> Inr (vm\<lparr>taprootCtx := Some (ctx\<lparr>codeSepPos := word_of_int (tok_opcodePos (tokenizer vm))\<rparr>)\<rparr>)
      | None \<Rightarrow> if witnessProgram vm = None \<and> hasFlag vm ScriptVerifyConstScriptCode
                then Inl ErrCodeSeparator else Inr vm)"

text \<open>
  The part of \<open>opcodeCheckSig\<close> from \<open>sigVerifier.Verify\<close> on. In a tapscript the verifier works on the
  context of the engine, whose budget has been charged by then.
\<close>

definition finishCheckSig :: "bytes \<Rightarrow> (bool \<times> bool \<times> Engine) res \<Rightarrow> Engine res" where
  "finishCheckSig fullSigBytes result =
     rbind result (\<lambda>(valid, sigMatch, vm).
       if hasFlag vm ScriptVerifyConstScriptCode \<and> sigMatch then Inl ErrNonConstScriptCode
       else if \<not> valid \<and> taprootCtx vm \<noteq> None \<and> length fullSigBytes \<noteq> 0 then Inl ErrNullFail
       else if \<not> valid \<and> hasFlag vm ScriptVerifyNullFail \<and> length fullSigBytes > 0 then Inl ErrNullFail
       else Inr (pushBool valid vm))"

text \<open>A parse error that is no \<open>txscript.Error\<close> pushes false; the others end the script.\<close>

definition checkSig_ecdsa ::
  "crypto \<Rightarrow> (crypto \<Rightarrow> baseSigVerifier \<Rightarrow> Engine \<Rightarrow> (bool \<times> bool \<times> Engine) res) \<Rightarrow> bytes \<Rightarrow> bytes \<Rightarrow> Engine \<Rightarrow> Engine res" where
  "checkSig_ecdsa c verify pkBytes fullSigBytes vm =
     (case newBaseSigVerifier c pkBytes fullSigBytes vm of
        Inl e \<Rightarrow> if e = ErrOther then Inr (pushBool False vm) else Inl e
      | Inr b \<Rightarrow> finishCheckSig fullSigBytes (verify c b vm))"

definition charge :: "bytes \<Rightarrow> taprootExecutionCtx \<Rightarrow> taprootExecutionCtx res" where
  "charge sig ctx = (if length sig > 0 then tallysigOp ctx else Inr ctx)"

definition opcodeCheckSig :: "crypto \<Rightarrow> Engine \<Rightarrow> Engine res" where
  "opcodeCheckSig c vm =
     rbind (pop vm) (\<lambda>(pkBytes, vm). rbind (pop vm) (\<lambda>(fullSigBytes, vm).
       if taprootCtx vm = None \<and> length fullSigBytes < 1 then Inr (pushBool False vm)
       else if witnessProgram vm = None then checkSig_ecdsa c base_Verify pkBytes fullSigBytes vm
       else if isWitnessVersionActive vm BaseSegwitWitnessVersion
       then checkSig_ecdsa c segwit_Verify pkBytes fullSigBytes vm
       else case taprootCtx vm of
         None \<Rightarrow> Inl GoPanic
       | Some ctx \<Rightarrow> rbind (charge fullSigBytes ctx) (\<lambda>ctx.
           let vm = vm\<lparr>taprootCtx := Some ctx\<rparr> in
           if length pkBytes = 0 then Inl ErrTaprootPubkeyIsEmpty
           else if length fullSigBytes = 0 then Inr (push [] vm)
           else rbind (newBaseTapscriptSigVerifier c pkBytes fullSigBytes vm) (\<lambda>t.
             finishCheckSig fullSigBytes (tapscript_Verify c t ctx vm)))))"

definition opcodeCheckSigVerify :: "crypto \<Rightarrow> Engine \<Rightarrow> Engine res" where
  "opcodeCheckSigVerify c vm = rbind (opcodeCheckSig c vm) (\<lambda>vm. abstractVerify vm ErrCheckSigVerify)"

definition opcodeCheckSigAdd :: "crypto \<Rightarrow> Engine \<Rightarrow> Engine res" where
  "opcodeCheckSigAdd c vm =
     (case taprootCtx vm of
        None \<Rightarrow> Inl ErrReservedOpcode
      | Some ctx \<Rightarrow>
          rbind (pop vm) (\<lambda>(pubKeyBytes, vm). rbind (popInt vm) (\<lambda>(accumulatorInt, vm). rbind (pop vm) (\<lambda>(sigBytes, vm).
            rbind (charge sigBytes ctx) (\<lambda>ctx.
              let vm = vm\<lparr>taprootCtx := Some ctx\<rparr> in
              if length pubKeyBytes = 0 then Inl ErrTaprootPubkeyIsEmpty
              else if length sigBytes = 0 then pushInt accumulatorInt vm
              else rbind (newBaseTapscriptSigVerifier c pubKeyBytes sigBytes vm) (\<lambda>t.
                rbind (tapscript_Verify c t ctx vm) (\<lambda>(sigValid, _, vm).
                  if \<not> sigValid then Inl ErrNullFail else pushInt (i64 (accumulatorInt + 1)) vm)))))))"

section \<open>Multiple signatures\<close>

record parsedSigInfo =
  signature :: bytes
  parsedSignature :: "bytes option"
  parsed :: bool

text \<open>The parse of a signature at its first use, which is remembered.\<close>

definition parse_info :: "crypto \<Rightarrow> Engine \<Rightarrow> parsedSigInfo \<Rightarrow> parsedSigInfo res" where
  "parse_info c vm info =
     (if parsed info then Inr info
      else let hashType = ucast (last (signature info)); sig = butlast (signature info) in
        rbind (checkHashTypeEncoding vm hashType) (\<lambda>_.
        rbind (checkSignatureEncoding c vm sig) (\<lambda>_.
          Inr (info\<lparr>parsed := True, parsedSignature := parse_ecdsa c vm sig\<rparr>))))"

definition multisig_hash :: "crypto \<Rightarrow> bytes \<Rightarrow> SigHashType \<Rightarrow> Engine \<Rightarrow> bytes res" where
  "multisig_hash c script hashType vm =
     (if isWitnessVersionActive vm 0 then
        rbind (segwit_hashes c vm) (\<lambda>sigHashes.
          calcWitnessSignatureHashRaw c script sigHashes hashType (vm_tx vm) (txIdx vm) (inputAmount vm))
      else calcSignatureHash c script hashType (vm_tx vm) (txIdx vm))"

text \<open>
  One round of the loop for a signature and a key: whether the signature is valid, with the updated
  parse and engine. A \<open>continue\<close> of the source is a result that is not valid.
\<close>

definition try_key :: "crypto \<Rightarrow> bytes \<Rightarrow> parsedSigInfo \<Rightarrow> bytes \<Rightarrow> Engine \<Rightarrow> (bool \<times> parsedSigInfo \<times> Engine) res" where
  "try_key c script info pubKey vm =
     (if signature info = [] then Inr (False, info, vm)
      else rbind (parse_info c vm info) (\<lambda>info.
        case parsedSignature info of None \<Rightarrow> Inr (False, info, vm)
        | Some parsedSig \<Rightarrow>
            rbind (checkPubKeyEncoding vm pubKey) (\<lambda>_.
              case ParsePubKey c pubKey of None \<Rightarrow> Inr (False, info, vm)
              | Some parsedPubKey \<Rightarrow>
                  rbind (multisig_hash c script (ucast (last (signature info))) vm) (\<lambda>h.
                    case ecdsa_cached c h (butlast (signature info)) pubKey parsedSig parsedPubKey vm of
                      (valid, vm) \<Rightarrow> Inr (valid, info, vm)))))"

text \<open>
  The loop over signatures and keys. \<open>nKeys\<close> (\<open>numPubKeys\<close> of the source) starts one above the number of keys and is counted
  down at the start of a round; an index out of range would panic.
\<close>

fun checkMultiSig_loop ::
  "crypto \<Rightarrow> bytes \<Rightarrow> bytes list \<Rightarrow> nat \<Rightarrow> nat \<Rightarrow> nat \<Rightarrow> nat \<Rightarrow> parsedSigInfo list \<Rightarrow> Engine \<Rightarrow> (bool \<times> Engine) res" where
  "checkMultiSig_loop c script keys 0 pubKeyIdx numSignatures signatureIdx signatures vm =
     Inr (numSignatures = 0, vm)"
| "checkMultiSig_loop c script keys (Suc nKeys) pubKeyIdx numSignatures signatureIdx signatures vm =
     (if numSignatures = 0 then Inr (True, vm)
      else if numSignatures > nKeys then Inr (False, vm)
      else if signatureIdx \<ge> length signatures \<or> pubKeyIdx \<ge> length keys then Inl GoPanic
      else rbind (try_key c script (signatures ! signatureIdx) (keys ! pubKeyIdx) vm) (\<lambda>(valid, info, vm).
        checkMultiSig_loop c script keys nKeys (pubKeyIdx + 1)
          (if valid then numSignatures - 1 else numSignatures)
          (if valid then signatureIdx + 1 else signatureIdx) (signatures[signatureIdx := info]) vm))"

fun pop_n :: "nat \<Rightarrow> Engine \<Rightarrow> (bytes list \<times> Engine) res" where
  "pop_n 0 vm = Inr ([], vm)"
| "pop_n (Suc n) vm = rbind (pop vm) (\<lambda>(x, vm). rbind (pop_n n vm) (\<lambda>(xs, vm). Inr (x # xs, vm)))"

text \<open>Removing the signatures from a script that is no segwit script.\<close>

fun remove_sigs :: "bool \<Rightarrow> bytes list \<Rightarrow> bytes \<Rightarrow> bytes res" where
  "remove_sigs constScript [] script = Inr script"
| "remove_sigs constScript (sig # sigs) script =
     (case removeOpcodeByData script sig of (script, match) \<Rightarrow>
        if constScript \<and> match then Inl ErrNonConstScriptCode else remove_sigs constScript sigs script)"

definition opcodeCheckMultiSig :: "crypto \<Rightarrow> Engine \<Rightarrow> Engine res" where
  "opcodeCheckMultiSig c vm =
     (if taprootCtx vm \<noteq> None then Inl ErrTapscriptCheckMultisig
      else rbind (popInt vm) (\<lambda>(numKeys, vm).
        if Int32 numKeys < 0 then Inl ErrInvalidPubKeyCount
        else if Int32 numKeys > int MaxPubKeysPerMultiSig then Inl ErrInvalidPubKeyCount
        else let numPubKeys = nat (Int32 numKeys); vm = vm\<lparr>numOps := numOps vm + numPubKeys\<rparr> in
          if numOps vm > MaxOpsPerScript then Inl ErrTooManyOperations
          else rbind (pop_n numPubKeys vm) (\<lambda>(keys, vm).
            rbind (popInt vm) (\<lambda>(numSigs, vm).
              if Int32 numSigs < 0 then Inl ErrInvalidSignatureCount
              else if Int32 numSigs > int numPubKeys then Inl ErrInvalidSignatureCount
              else let numSignatures = nat (Int32 numSigs) in
                rbind (pop_n numSignatures vm) (\<lambda>(sigs, vm).
                rbind (pop vm) (\<lambda>(dummy, vm).
                  if hasFlag vm ScriptStrictMultiSig \<and> length dummy \<noteq> 0 then Inl ErrSigNullDummy
                  else rbind (subScript vm) (\<lambda>script.
                    rbind (if \<not> isWitnessVersionActive vm 0
                           then remove_sigs (hasFlag vm ScriptVerifyConstScriptCode) sigs script
                           else Inr script) (\<lambda>script.
                    rbind (checkMultiSig_loop c script keys (numPubKeys + 1) 0 numSignatures 0
                             (map (\<lambda>sig. \<lparr>signature = sig, parsedSignature = None, parsed = False\<rparr>) sigs) vm)
                      (\<lambda>(success, vm).
                        if \<not> success \<and> hasFlag vm ScriptVerifyNullFail \<and> (\<exists>sig\<in>set sigs. length sig > 0)
                        then Inl ErrNullFail
                        else Inr (pushBool success vm))))))))))"

definition opcodeCheckMultiSigVerify :: "crypto \<Rightarrow> Engine \<Rightarrow> Engine res" where
  "opcodeCheckMultiSigVerify c vm = rbind (opcodeCheckMultiSig c vm) (\<lambda>vm. abstractVerify vm ErrCheckMultiSigVerify)"

section \<open>The table of handlers\<close>

type_synonym handler = "crypto \<Rightarrow> u8 \<Rightarrow> bytes \<Rightarrow> Engine \<Rightarrow> Engine res"

text \<open>The rows of \<open>opcodeArray\<close>; the pushes of data, the small numbers and the unknown opcodes are ranges.\<close>

definition opcodeArray :: "(u8 \<times> handler) list" where
  "opcodeArray = [
     (OP_FALSE, \<lambda>c op data vm. opcodeFalse vm),
     (OP_PUSHDATA1, \<lambda>c op data vm. opcodePushData data vm),
     (OP_PUSHDATA2, \<lambda>c op data vm. opcodePushData data vm),
     (OP_PUSHDATA4, \<lambda>c op data vm. opcodePushData data vm),
     (OP_1NEGATE, \<lambda>c op data vm. opcode1Negate vm),
     (OP_RESERVED, \<lambda>c op data vm. opcodeReserved vm),
     (OP_NOP, \<lambda>c op data vm. opcodeNop op vm),
     (OP_VER, \<lambda>c op data vm. opcodeReserved vm),
     (OP_IF, \<lambda>c op data vm. opcodeIf vm),
     (OP_NOTIF, \<lambda>c op data vm. opcodeNotIf vm),
     (OP_VERIF, \<lambda>c op data vm. opcodeReserved vm),
     (OP_VERNOTIF, \<lambda>c op data vm. opcodeReserved vm),
     (OP_ELSE, \<lambda>c op data vm. opcodeElse vm),
     (OP_ENDIF, \<lambda>c op data vm. opcodeEndif vm),
     (OP_VERIFY, \<lambda>c op data vm. opcodeVerify vm),
     (OP_RETURN, \<lambda>c op data vm. opcodeReturn vm),
     (OP_CHECKLOCKTIMEVERIFY, \<lambda>c op data vm. opcodeCheckLockTimeVerify vm),
     (OP_CHECKSEQUENCEVERIFY, \<lambda>c op data vm. opcodeCheckSequenceVerify vm),
     (OP_TOALTSTACK, \<lambda>c op data vm. opcodeToAltStack vm),
     (OP_FROMALTSTACK, \<lambda>c op data vm. opcodeFromAltStack vm),
     (OP_2DROP, \<lambda>c op data vm. opcode2Drop vm),
     (OP_2DUP, \<lambda>c op data vm. opcode2Dup vm),
     (OP_3DUP, \<lambda>c op data vm. opcode3Dup vm),
     (OP_2OVER, \<lambda>c op data vm. opcode2Over vm),
     (OP_2ROT, \<lambda>c op data vm. opcode2Rot vm),
     (OP_2SWAP, \<lambda>c op data vm. opcode2Swap vm),
     (OP_IFDUP, \<lambda>c op data vm. opcodeIfDup vm),
     (OP_DEPTH, \<lambda>c op data vm. opcodeDepth vm),
     (OP_DROP, \<lambda>c op data vm. opcodeDrop vm),
     (OP_DUP, \<lambda>c op data vm. opcodeDup vm),
     (OP_NIP, \<lambda>c op data vm. opcodeNip vm),
     (OP_OVER, \<lambda>c op data vm. opcodeOver vm),
     (OP_PICK, \<lambda>c op data vm. opcodePick vm),
     (OP_ROLL, \<lambda>c op data vm. opcodeRoll vm),
     (OP_ROT, \<lambda>c op data vm. opcodeRot vm),
     (OP_SWAP, \<lambda>c op data vm. opcodeSwap vm),
     (OP_TUCK, \<lambda>c op data vm. opcodeTuck vm),
     (OP_CAT, \<lambda>c op data vm. opcodeDisabled vm),
     (OP_SUBSTR, \<lambda>c op data vm. opcodeDisabled vm),
     (OP_LEFT, \<lambda>c op data vm. opcodeDisabled vm),
     (OP_RIGHT, \<lambda>c op data vm. opcodeDisabled vm),
     (OP_SIZE, \<lambda>c op data vm. opcodeSize vm),
     (OP_INVERT, \<lambda>c op data vm. opcodeDisabled vm),
     (OP_AND, \<lambda>c op data vm. opcodeDisabled vm),
     (OP_OR, \<lambda>c op data vm. opcodeDisabled vm),
     (OP_XOR, \<lambda>c op data vm. opcodeDisabled vm),
     (OP_EQUAL, \<lambda>c op data vm. opcodeEqual vm),
     (OP_EQUALVERIFY, \<lambda>c op data vm. opcodeEqualVerify vm),
     (OP_RESERVED1, \<lambda>c op data vm. opcodeReserved vm),
     (OP_RESERVED2, \<lambda>c op data vm. opcodeReserved vm),
     (OP_1ADD, \<lambda>c op data vm. opcode1Add vm),
     (OP_1SUB, \<lambda>c op data vm. opcode1Sub vm),
     (OP_2MUL, \<lambda>c op data vm. opcodeDisabled vm),
     (OP_2DIV, \<lambda>c op data vm. opcodeDisabled vm),
     (OP_NEGATE, \<lambda>c op data vm. opcodeNegate vm),
     (OP_ABS, \<lambda>c op data vm. opcodeAbs vm),
     (OP_NOT, \<lambda>c op data vm. opcodeNot vm),
     (OP_0NOTEQUAL, \<lambda>c op data vm. opcode0NotEqual vm),
     (OP_ADD, \<lambda>c op data vm. opcodeAdd vm),
     (OP_SUB, \<lambda>c op data vm. opcodeSub vm),
     (OP_MUL, \<lambda>c op data vm. opcodeDisabled vm),
     (OP_DIV, \<lambda>c op data vm. opcodeDisabled vm),
     (OP_MOD, \<lambda>c op data vm. opcodeDisabled vm),
     (OP_LSHIFT, \<lambda>c op data vm. opcodeDisabled vm),
     (OP_RSHIFT, \<lambda>c op data vm. opcodeDisabled vm),
     (OP_BOOLAND, \<lambda>c op data vm. opcodeBoolAnd vm),
     (OP_BOOLOR, \<lambda>c op data vm. opcodeBoolOr vm),
     (OP_NUMEQUAL, \<lambda>c op data vm. opcodeNumEqual vm),
     (OP_NUMEQUALVERIFY, \<lambda>c op data vm. opcodeNumEqualVerify vm),
     (OP_NUMNOTEQUAL, \<lambda>c op data vm. opcodeNumNotEqual vm),
     (OP_LESSTHAN, \<lambda>c op data vm. opcodeLessThan vm),
     (OP_GREATERTHAN, \<lambda>c op data vm. opcodeGreaterThan vm),
     (OP_LESSTHANOREQUAL, \<lambda>c op data vm. opcodeLessThanOrEqual vm),
     (OP_GREATERTHANOREQUAL, \<lambda>c op data vm. opcodeGreaterThanOrEqual vm),
     (OP_MIN, \<lambda>c op data vm. opcodeMin vm),
     (OP_MAX, \<lambda>c op data vm. opcodeMax vm),
     (OP_WITHIN, \<lambda>c op data vm. opcodeWithin vm),
     (OP_RIPEMD160, \<lambda>c op data vm. opcodeRipemd160 c vm),
     (OP_SHA1, \<lambda>c op data vm. opcodeSha1 c vm),
     (OP_SHA256, \<lambda>c op data vm. opcodeSha256 c vm),
     (OP_HASH160, \<lambda>c op data vm. opcodeHash160 c vm),
     (OP_HASH256, \<lambda>c op data vm. opcodeHash256 c vm),
     (OP_CODESEPARATOR, \<lambda>c op data vm. opcodeCodeSeparator vm),
     (OP_CHECKSIG, \<lambda>c op data vm. opcodeCheckSig c vm),
     (OP_CHECKSIGVERIFY, \<lambda>c op data vm. opcodeCheckSigVerify c vm),
     (OP_CHECKMULTISIG, \<lambda>c op data vm. opcodeCheckMultiSig c vm),
     (OP_CHECKMULTISIGVERIFY, \<lambda>c op data vm. opcodeCheckMultiSigVerify c vm),
     (OP_CHECKSIGADD, \<lambda>c op data vm. opcodeCheckSigAdd c vm),
     (OP_NOP1, \<lambda>c op data vm. opcodeNop op vm),
     (OP_NOP4, \<lambda>c op data vm. opcodeNop op vm),
     (OP_NOP5, \<lambda>c op data vm. opcodeNop op vm),
     (OP_NOP6, \<lambda>c op data vm. opcodeNop op vm),
     (OP_NOP7, \<lambda>c op data vm. opcodeNop op vm),
     (OP_NOP8, \<lambda>c op data vm. opcodeNop op vm),
     (OP_NOP9, \<lambda>c op data vm. opcodeNop op vm),
     (OP_NOP10, \<lambda>c op data vm. opcodeNop op vm)]"

definition opfunc :: "u8 \<Rightarrow> handler" where
  "opfunc op =
     (if OP_DATA_1 \<le> op \<and> op \<le> OP_DATA_75 then \<lambda>c op data vm. opcodePushData data vm
      else if OP_1 \<le> op \<and> op \<le> OP_16 then \<lambda>c op data vm. opcodeN op vm
      else case map_of opcodeArray op of Some h \<Rightarrow> h | None \<Rightarrow> \<lambda>c op data vm. opcodeInvalid vm)"

section \<open>What a handler may change\<close>

text \<open>
  \<open>on_stack k\<close>: only the data stack changes, and grows by at most \<open>k\<close> items; \<open>same_frame\<close>: the program
  counter, the scripts and everything fixed at creation stay.
\<close>

definition on_stack :: "int \<Rightarrow> Engine \<Rightarrow> Engine \<Rightarrow> bool" where
  "on_stack k vm vm' \<longleftrightarrow> (\<exists>d. vm' = vm\<lparr>dstack := d\<rparr> \<and> verifyMinimalData d = verifyMinimalData (dstack vm)
     \<and> int (length (stk d)) \<le> int (length (stk (dstack vm))) + k)"

definition stack_items :: "Engine \<Rightarrow> nat" where
  "stack_items vm = length (stk (dstack vm)) + length (stk (astack vm))"

definition same_ctx :: "Engine \<Rightarrow> Engine \<Rightarrow> bool" where
  "same_ctx vm vm' \<longleftrightarrow> map_option (\<lambda>t. (annex t, tapLeafHash t, mustSucceed t)) (taprootCtx vm')
     = map_option (\<lambda>t. (annex t, tapLeafHash t, mustSucceed t)) (taprootCtx vm)"

definition same_frame :: "Engine \<Rightarrow> Engine \<Rightarrow> bool" where
  "same_frame vm vm' \<longleftrightarrow> flags vm' = flags vm \<and> vm_tx vm' = vm_tx vm \<and> txIdx vm' = txIdx vm
     \<and> vm_version vm' = vm_version vm \<and> bip16 vm' = bip16 vm \<and> hashCache vm' = hashCache vm
     \<and> prevOutFetcher vm' = prevOutFetcher vm \<and> scripts vm' = scripts vm \<and> scriptIdx vm' = scriptIdx vm
     \<and> opcodeIdx vm' = opcodeIdx vm \<and> tokenizer vm' = tokenizer vm \<and> savedFirstStack vm' = savedFirstStack vm
     \<and> witnessVersion vm' = witnessVersion vm \<and> witnessProgram vm' = witnessProgram vm
     \<and> inputAmount vm' = inputAmount vm \<and> verifyMinimalData (dstack vm') = verifyMinimalData (dstack vm)
     \<and> verifyMinimalData (astack vm') = verifyMinimalData (astack vm) \<and> same_ctx vm vm'
     \<and> (lastCodeSep vm' = lastCodeSep vm \<or> lastCodeSep vm' = tok_offset (tokenizer vm))"

lemma on_stackI:
  "verifyMinimalData d = verifyMinimalData (dstack vm) \<Longrightarrow> int (length (stk d)) \<le> int (length (stk (dstack vm))) + k
   \<Longrightarrow> on_stack k vm (vm\<lparr>dstack := d\<rparr>)"
  unfolding on_stack_def by blast

lemma on_stackE:
  assumes "on_stack k vm vm'"
  obtains d where "vm' = vm\<lparr>dstack := d\<rparr>" "verifyMinimalData d = verifyMinimalData (dstack vm)"
    "int (length (stk d)) \<le> int (length (stk (dstack vm))) + k"
  using assms unfolding on_stack_def by blast

lemma on_stack_trans: "on_stack a vm vm1 \<Longrightarrow> on_stack b vm1 vm2 \<Longrightarrow> on_stack (a + b) vm vm2"
  by (elim on_stackE) (simp add: on_stackI)

lemma on_stack_mono: "on_stack a vm vm' \<Longrightarrow> a \<le> b \<Longrightarrow> on_stack b vm vm'"
  by (elim on_stackE) (simp add: on_stackI)

lemma same_frame_refl [simp]: "same_frame vm vm"
  by (simp add: same_frame_def same_ctx_def)

lemma length_stk_of_abs: "stk_abs s = xs \<Longrightarrow> length (stk s) = length xs"
  by (metis length_stk_abs)

lemma PopByteArray_bounds:
  "PopByteArray s = Inr (x, s') \<Longrightarrow> verifyMinimalData s' = verifyMinimalData s \<and> length (stk s) = length (stk s') + 1"
  by (cases "stk_abs s") (auto simp: PopByteArray_cases dest: length_stk_of_abs)

lemma pop_on_stack: "pop vm = Inr (x, vm') \<Longrightarrow> on_stack (-1) vm vm'"
  using PopByteArray_bounds [of "dstack vm"] by (auto simp: pop_def rbind_eq_Inr intro!: on_stackI)

lemma popInt_on_stack: "popInt vm = Inr (n, vm') \<Longrightarrow> on_stack (-1) vm vm'"
  using pop_on_stack by (fastforce simp: popInt_def PopInt_def pop_def rbind_eq_Inr)

lemma popBool_on_stack: "popBool vm = Inr (b, vm') \<Longrightarrow> on_stack (-1) vm vm'"
  using pop_on_stack by (fastforce simp: popBool_def PopBool_def pop_def rbind_eq_Inr)

lemma push_on_stack: "on_stack 1 vm (push so vm)" "on_stack 1 vm (pushBool b vm)"
  by (simp_all add: on_stackI push_def pushBool_def PushBool_def PushByteArray_def)

lemma pushInt_on_stack: "pushInt n vm = Inr vm' \<Longrightarrow> on_stack 1 vm vm'"
  by (auto simp: pushInt_def on_dstack_def PushInt_def PushByteArray_def rbind_eq_Inr intro!: on_stackI)

lemmas on_stack_basic = pop_on_stack popInt_on_stack popBool_on_stack push_on_stack pushInt_on_stack

lemma int_unop_on_stack: "int_unop f vm = Inr vm' \<Longrightarrow> on_stack 0 vm vm'"
  using on_stack_trans [OF popInt_on_stack pushInt_on_stack] by (fastforce simp: int_unop_def rbind_eq_Inr)

lemma int_binop_on_stack: "int_binop f vm = Inr vm' \<Longrightarrow> on_stack (-1) vm vm'"
  using on_stack_trans [OF popInt_on_stack on_stack_trans [OF popInt_on_stack pushInt_on_stack]]
  by (fastforce simp: int_binop_def rbind_eq_Inr)

lemma hash_op_on_stack: "hash_op f vm = Inr vm' \<Longrightarrow> on_stack 0 vm vm'"
  using on_stack_trans [OF pop_on_stack push_on_stack(1)] by (fastforce simp: hash_op_def rbind_eq_Inr)

lemma abstractVerify_on_stack: "abstractVerify vm e = Inr vm' \<Longrightarrow> on_stack (-1) vm vm'"
  using popBool_on_stack by (fastforce simp: abstractVerify_def rbind_eq_Inr split: if_splits)

definition grows :: "(stack \<Rightarrow> stack res) \<Rightarrow> int \<Rightarrow> bool" where
  "grows f k \<longleftrightarrow> (\<forall>s s'. f s = Inr s' \<longrightarrow> verifyMinimalData s' = verifyMinimalData s
     \<and> int (length (stk s')) \<le> int (length (stk s)) + k)"

lemma shuffle_grows:
  "grows (\<lambda>s. DropN s n) 0" "0 \<le> n \<Longrightarrow> grows (\<lambda>s. DupN s n) n" "grows (\<lambda>s. RotN s n) 0" "grows (\<lambda>s. SwapN s n) 0"
  "0 \<le> n \<Longrightarrow> grows (\<lambda>s. OverN s n) n" "grows (\<lambda>s. NipN s n) 0" "grows (\<lambda>s. PickN s n) 1" "grows (\<lambda>s. RollN s n) 0"
  by (simp_all add: grows_def DropN_spec DupN_spec RotN_spec SwapN_spec OverN_spec NipN_spec PickN_spec RollN_spec
      Depth_def Let_def min_def) auto

lemma Tuck_grows: "grows Tuck 1"
  unfolding grows_def
proof (intro allI impI)
  fix s s'
  assume "Tuck s = Inr s'"
  then obtain a b xs where "stk_abs s = a # b # xs" "s' = stk_mk (a # b # a # xs) s"
    by (auto simp: Tuck_spec split: list.splits)
  then show "verifyMinimalData s' = verifyMinimalData s \<and> int (length (stk s')) \<le> int (length (stk s)) + 1"
    by (auto dest: length_stk_of_abs)
qed

lemma on_dstack_grows: "grows f k \<Longrightarrow> on_dstack f vm = Inr vm' \<Longrightarrow> on_stack k vm vm'"
  by (auto simp: grows_def on_dstack_def rbind_eq_Inr intro!: on_stackI)

text \<open>The same for handlers that change more than the data stack.\<close>

definition moves :: "int \<Rightarrow> Engine \<Rightarrow> Engine \<Rightarrow> bool" where
  "moves k vm vm' \<longleftrightarrow> same_frame vm vm' \<and> int (stack_items vm') \<le> int (stack_items vm) + k
     \<and> numOps vm \<le> numOps vm' \<and> numOps vm' \<le> max (numOps vm) MaxOpsPerScript \<and> condStack vm' = condStack vm"

text \<open>The same up to the conditional stack, which only the four conditional opcodes change.\<close>

definition steps :: "int \<Rightarrow> Engine \<Rightarrow> Engine \<Rightarrow> bool" where
  "steps k vm vm' \<longleftrightarrow> moves k vm (vm'\<lparr>condStack := condStack vm\<rparr>)"

lemma moves_steps: "moves k vm vm' \<Longrightarrow> steps k vm vm'"
  by (simp add: steps_def moves_def same_frame_def same_ctx_def stack_items_def)

lemma same_frame_trans: "same_frame a b \<Longrightarrow> same_frame b c \<Longrightarrow> same_frame a c"
  by (simp add: same_frame_def same_ctx_def) (elim conjE disjE; simp)

lemma moves_trans: "moves a vm vm1 \<Longrightarrow> moves b vm1 vm2 \<Longrightarrow> a + b \<le> k \<Longrightarrow> moves k vm vm2"
  using same_frame_trans [of vm vm1 vm2] by (auto simp: moves_def)

lemma moves_steps_trans: "moves a vm vm1 \<Longrightarrow> steps b vm1 vm2 \<Longrightarrow> a + b \<le> k \<Longrightarrow> steps k vm vm2"
  using moves_trans [of a vm vm1 b _ k] by (auto simp: steps_def moves_def)

lemma moves_mono: "moves a vm vm' \<Longrightarrow> a \<le> k \<Longrightarrow> moves k vm vm'"
  by (auto simp: moves_def)

lemma moves_refl: "0 \<le> k \<Longrightarrow> moves k vm vm"
  by (simp add: moves_def)

lemma on_stack_moves: "on_stack a vm vm' \<Longrightarrow> a \<le> k \<Longrightarrow> moves k vm vm'"
  by (elim on_stackE) (simp add: moves_def same_frame_def same_ctx_def stack_items_def)

lemma moves_update:
  "moves k vm vm' \<Longrightarrow> steps k vm (vm'\<lparr>condStack := cs\<rparr>)" "moves k vm vm' \<Longrightarrow> moves k vm (vm'\<lparr>sigCache := s\<rparr>)"
  by (simp_all add: steps_def moves_def same_frame_def same_ctx_def stack_items_def)

lemma popIfBool_moves: "popIfBool vm = Inr (b, vm') \<Longrightarrow> moves (-1) vm vm'"
  using on_stack_moves [OF popBool_on_stack order_refl] on_stack_moves [OF pop_on_stack order_refl]
  by (auto simp: popIfBool_def rbind_eq_Inr split: if_splits)

lemma control_steps:
  "opcodeIf vm = Inr vm' \<Longrightarrow> steps 3 vm vm'" "opcodeNotIf vm = Inr vm' \<Longrightarrow> steps 3 vm vm'"
  "opcodeElse vm = Inr vm' \<Longrightarrow> steps 3 vm vm'" "opcodeEndif vm = Inr vm' \<Longrightarrow> steps 3 vm vm'"
  using moves_mono [OF popIfBool_moves, of vm _ _ 3]
  by (auto simp: opcodeIf_def opcodeNotIf_def opcodeElse_def opcodeEndif_def rbind_eq_Inr moves_update moves_refl
      split: if_splits)

lemma alt_moves:
  "opcodeToAltStack vm = Inr vm' \<Longrightarrow> moves 0 vm vm'" "opcodeFromAltStack vm = Inr vm' \<Longrightarrow> moves 0 vm vm'"
  using PopByteArray_bounds [of "dstack vm"] PopByteArray_bounds [of "astack vm"]
  by (auto simp: opcodeToAltStack_def opcodeFromAltStack_def pop_def push_def rbind_eq_Inr moves_def same_frame_def
      same_ctx_def stack_items_def PushByteArray_def)

lemma codesep_moves: "opcodeCodeSeparator vm = Inr vm' \<Longrightarrow> moves 0 vm vm'"
  by (auto simp: opcodeCodeSeparator_def Let_def moves_def same_frame_def same_ctx_def stack_items_def
      split: option.splits if_splits)

lemma ecdsa_cached_moves: "ecdsa_cached c h s p sg k vm = (v, vm') \<Longrightarrow> moves 0 vm vm'"
  by (auto simp: ecdsa_cached_def moves_update moves_refl split: option.splits if_splits)

lemma rbindE: "rbind r f = Inr y \<Longrightarrow> (\<And>x. r = Inr x \<Longrightarrow> f x = Inr y \<Longrightarrow> P) \<Longrightarrow> P"
  by (cases r) auto

lemma base_verifySig_moves: "moves 0 vm (snd (base_verifySig c b h vm))"
  using ecdsa_cached_moves by (metis base_verifySig_def surjective_pairing)

lemma verify_moves:
  "base_Verify c b vm = Inr (v, m, vm') \<Longrightarrow> moves 0 vm vm'" "segwit_Verify c b vm = Inr (v, m, vm') \<Longrightarrow> moves 0 vm vm'"
  "tapscript_Verify c t ctx vm = Inr (v, m, vm') \<Longrightarrow> moves 0 vm vm'"
  using base_verifySig_moves
  by (auto simp: base_Verify_def segwit_Verify_def tapscript_Verify_def Let_def split_def moves_update moves_refl
      elim!: rbindE split: sum.split_asm if_split_asm option.split_asm)

lemma pushBool_moves: "moves 1 vm (pushBool b vm)" "moves 1 vm (push so vm)"
  using on_stack_moves [OF push_on_stack(2) order_refl] on_stack_moves [OF push_on_stack(1) order_refl] by auto

lemma finishCheckSig_moves:
  assumes "finishCheckSig sig r = Inr vm'" "\<And>v m vm1. r = Inr (v, m, vm1) \<Longrightarrow> moves 0 vm vm1"
  shows "moves 1 vm vm'"
proof -
  obtain v m vm1 where r: "r = Inr (v, m, vm1)" "vm' = pushBool v vm1"
    using assms(1) by (auto simp: finishCheckSig_def elim!: rbindE split: if_split_asm)
  show ?thesis unfolding r(2) using moves_trans [OF assms(2) [OF r(1)] pushBool_moves(1)] by simp
qed

lemma checkSig_ecdsa_moves:
  assumes "checkSig_ecdsa c verify pk sig vm = Inr vm'" "verify = base_Verify \<or> verify = segwit_Verify"
  shows "moves 1 vm vm'"
  using assms finishCheckSig_moves verify_moves pushBool_moves
  by (auto simp: checkSig_ecdsa_def split: sum.splits if_splits)

lemma charge_ctx: "charge sig ctx = Inr ctx' \<Longrightarrow> annex ctx' = annex ctx \<and> tapLeafHash ctx' = tapLeafHash ctx \<and> mustSucceed ctx' = mustSucceed ctx"
  by (auto simp: charge_def tallysigOp_def Let_def split: if_splits)

lemma charge_moves: "charge sig ctx = Inr ctx' \<Longrightarrow> taprootCtx vm = Some ctx \<Longrightarrow> moves 0 vm (vm\<lparr>taprootCtx := Some ctx'\<rparr>)"
  using charge_ctx by (simp add: moves_def same_frame_def same_ctx_def stack_items_def)

lemma pop_moves: "pop vm = Inr (x, vm') \<Longrightarrow> moves (-1) vm vm'" "popInt vm = Inr (n, vm') \<Longrightarrow> moves (-1) vm vm'"
  using on_stack_moves [OF pop_on_stack order_refl] on_stack_moves [OF popInt_on_stack order_refl] by blast+

lemma pushInt_moves: "pushInt n vm = Inr vm' \<Longrightarrow> moves 1 vm vm'"
  using on_stack_moves [OF pushInt_on_stack order_refl] by blast

lemma pop_ctx [simp]: "pop vm = Inr (x, vm') \<Longrightarrow> taprootCtx vm' = taprootCtx vm" "popInt vm = Inr (n, vm') \<Longrightarrow> taprootCtx vm' = taprootCtx vm"
  by (auto dest!: pop_on_stack popInt_on_stack elim!: on_stackE)

lemma opcodeCheckSig_moves:
  assumes "opcodeCheckSig c vm = Inr vm'"
  shows "moves 0 vm vm'"
proof -
  obtain pk vm1 sig vm2 where p: "pop vm = Inr (pk, vm1)" "pop vm1 = Inr (sig, vm2)"
    using assms by (auto simp: opcodeCheckSig_def rbind_eq_Inr)
  have "moves 1 vm2 vm'"
  proof (cases "taprootCtx vm2")
    case None
    then show ?thesis using assms p checkSig_ecdsa_moves pushBool_moves
      by (auto simp: opcodeCheckSig_def split: if_split_asm)
  next
    case (Some ctx)
    consider (ecdsa) "checkSig_ecdsa c base_Verify pk sig vm2 = Inr vm' \<or> checkSig_ecdsa c segwit_Verify pk sig vm2 = Inr vm'"
      | (empty) ctx' where "charge sig ctx = Inr ctx'" "vm' = push [] (vm2\<lparr>taprootCtx := Some ctx'\<rparr>)"
      | (tap) ctx' t where "charge sig ctx = Inr ctx'"
          "finishCheckSig sig (tapscript_Verify c t ctx' (vm2\<lparr>taprootCtx := Some ctx'\<rparr>)) = Inr vm'"
      using assms p Some by (auto simp: opcodeCheckSig_def rbind_eq_Inr Let_def split: if_split_asm)
    then show ?thesis
    proof cases
      case ecdsa
      then show ?thesis using checkSig_ecdsa_moves by blast
    next
      case empty
      then show ?thesis using moves_trans [OF charge_moves [OF empty(1) Some] pushBool_moves(2)] by simp
    next
      case tap
      have "moves 1 (vm2\<lparr>taprootCtx := Some ctx'\<rparr>) vm'" using finishCheckSig_moves [OF tap(2)] verify_moves(3) by blast
      then show ?thesis using moves_trans [OF charge_moves [OF tap(1) Some], of 1 vm' 1] by simp
    qed
  qed
  from moves_trans [OF pop_moves(1) [OF p(2)] this, of 0] show ?thesis
    using moves_trans [OF pop_moves(1) [OF p(1)], of 0 vm' 0] by simp
qed

lemma opcodeCheckSigAdd_moves:
  assumes "opcodeCheckSigAdd c vm = Inr vm'"
  shows "moves 0 vm vm'"
proof -
  obtain ctx pk vm1 n vm2 sig vm3 ctx' where p: "taprootCtx vm = Some ctx" "pop vm = Inr (pk, vm1)" "popInt vm1 = Inr (n, vm2)"
    "pop vm2 = Inr (sig, vm3)" "charge sig ctx = Inr ctx'"
    using assms by (auto simp: opcodeCheckSigAdd_def rbind_eq_Inr split: option.split_asm)
  let ?v = "vm3\<lparr>taprootCtx := Some ctx'\<rparr>"
  have "taprootCtx vm3 = Some ctx" using p by simp
  note v3 = charge_moves [OF p(5) this]
  have "moves 1 ?v vm'"
    using assms p pushInt_moves moves_trans [OF verify_moves(3) pushInt_moves, where k = 1]
    by (auto simp: opcodeCheckSigAdd_def rbind_eq_Inr Let_def split: if_split_asm)
  from moves_trans [OF v3 this] have "moves 1 vm3 vm'" by simp
  from moves_trans [OF pop_moves(1) [OF p(4)] this] have "moves 0 vm2 vm'" by simp
  from moves_trans [OF pop_moves(2) [OF p(3)] this] have "moves 0 vm1 vm'" by simp
  from moves_trans [OF pop_moves(1) [OF p(2)] this] show ?thesis by simp
qed

lemma try_key_moves: "try_key c script info pk vm = Inr (v, info', vm') \<Longrightarrow> moves 0 vm vm'"
  using ecdsa_cached_moves
  by (auto simp: try_key_def moves_refl elim!: rbindE split: if_split_asm option.split_asm prod.split_asm)

lemma checkMultiSig_loop_moves:
  "checkMultiSig_loop c script keys n k ns si sigs vm = Inr (ok, vm') \<Longrightarrow> moves 0 vm vm'"
proof (induction n arbitrary: k ns si sigs vm)
  case (Suc n)
  show ?case
  proof (cases "ns = 0 \<or> ns > n")
    case False
    then obtain v info vm1 where t: "try_key c script (sigs ! si) (keys ! k) vm = Inr (v, info, vm1)"
      and r: "checkMultiSig_loop c script keys n (k + 1) (if v then ns - 1 else ns) (if v then si + 1 else si) (sigs[si := info]) vm1
        = Inr (ok, vm')"
      using Suc.prems by (auto simp: rbind_eq_Inr split: if_split_asm)
    from moves_trans [OF try_key_moves [OF t] Suc.IH [OF r]] show ?thesis by simp
  qed (use Suc.prems in \<open>auto simp: moves_refl split: if_splits\<close>)
qed (simp add: moves_refl)

lemma pop_n_moves: "pop_n n vm = Inr (xs, vm') \<Longrightarrow> moves 0 vm vm'"
proof (induction n arbitrary: vm xs)
  case (Suc n)
  then obtain x vm1 ys where "pop vm = Inr (x, vm1)" "pop_n n vm1 = Inr (ys, vm')" by (auto simp: rbind_eq_Inr)
  then show ?case using moves_trans [OF pop_moves(1) Suc.IH, where k = 0] by simp
qed (simp add: moves_refl)

lemma numOps_moves: "numOps vm + n \<le> MaxOpsPerScript \<Longrightarrow> moves 0 vm (vm\<lparr>numOps := numOps vm + n\<rparr>)"
  by (simp add: moves_def same_frame_def same_ctx_def stack_items_def)

lemma opcodeCheckMultiSig_moves:
  assumes "opcodeCheckMultiSig c vm = Inr vm'"
  shows "moves 0 vm vm'"
proof -
  obtain n vm1 ks vm2 m vm3 sigs vm4 d vm5 script ok vm6 where
    p: "popInt vm = Inr (n, vm1)" "numOps vm1 + nat (Int32 n) \<le> MaxOpsPerScript"
    "pop_n (nat (Int32 n)) (vm1\<lparr>numOps := numOps vm1 + nat (Int32 n)\<rparr>) = Inr (ks, vm2)"
    "popInt vm2 = Inr (m, vm3)" "pop_n (nat (Int32 m)) vm3 = Inr (sigs, vm4)" "pop vm4 = Inr (d, vm5)"
    "checkMultiSig_loop c script ks (nat (Int32 n) + 1) 0 (nat (Int32 m)) 0
       (map (\<lambda>sig. \<lparr>signature = sig, parsedSignature = None, parsed = False\<rparr>) sigs) vm5 = Inr (ok, vm6)"
    "vm' = pushBool ok vm6"
    using assms by (auto simp: opcodeCheckMultiSig_def rbind_eq_Inr Let_def simp del: checkMultiSig_loop.simps split: if_split_asm)
  have "moves 1 vm6 vm'" unfolding p(8) by (rule pushBool_moves)
  from moves_trans [OF checkMultiSig_loop_moves [OF p(7)] this] have "moves 1 vm5 vm'" by simp
  from moves_trans [OF pop_moves(1) [OF p(6)] this] have "moves 0 vm4 vm'" by simp
  from moves_trans [OF pop_n_moves [OF p(5)] this] have "moves 0 vm3 vm'" by simp
  from moves_trans [OF pop_moves(2) [OF p(4)] this] have "moves 0 vm2 vm'" by simp
  from moves_trans [OF pop_n_moves [OF p(3)] this] have "moves 0 (vm1\<lparr>numOps := numOps vm1 + nat (Int32 n)\<rparr>) vm'" by simp
  from moves_trans [OF numOps_moves [OF p(2)] this] have "moves 0 vm1 vm'" by simp
  from moves_trans [OF pop_moves(2) [OF p(1)] this] show ?thesis by simp
qed

lemma dstack_moves:
  "on_dstack (\<lambda>s. DropN s n) vm = Inr vm' \<Longrightarrow> moves 3 vm vm'"
  "on_dstack (\<lambda>s. DupN s n) vm = Inr vm' \<Longrightarrow> 0 \<le> n \<Longrightarrow> n \<le> 3 \<Longrightarrow> moves 3 vm vm'"
  "on_dstack (\<lambda>s. RotN s n) vm = Inr vm' \<Longrightarrow> moves 3 vm vm'" "on_dstack (\<lambda>s. SwapN s n) vm = Inr vm' \<Longrightarrow> moves 3 vm vm'"
  "on_dstack (\<lambda>s. OverN s n) vm = Inr vm' \<Longrightarrow> 0 \<le> n \<Longrightarrow> n \<le> 3 \<Longrightarrow> moves 3 vm vm'"
  "on_dstack (\<lambda>s. NipN s n) vm = Inr vm' \<Longrightarrow> moves 3 vm vm'" "on_dstack Tuck vm = Inr vm' \<Longrightarrow> moves 3 vm vm'"
  "on_dstack (\<lambda>s. PickN s n) vm = Inr vm' \<Longrightarrow> moves 3 vm vm'" "on_dstack (\<lambda>s. RollN s n) vm = Inr vm' \<Longrightarrow> moves 3 vm vm'"
  by (rule on_stack_moves [OF on_dstack_grows]; (assumption | rule shuffle_grows Tuck_grows)?; simp)+

lemma generic_moves:
  "int_unop f vm = Inr vm' \<Longrightarrow> moves 3 vm vm'" "int_binop g vm = Inr vm' \<Longrightarrow> moves 3 vm vm'"
  "hash_op h vm = Inr vm' \<Longrightarrow> moves 3 vm vm'" "abstractVerify vm e = Inr vm' \<Longrightarrow> moves 3 vm vm'"
  "pushInt n vm = Inr vm' \<Longrightarrow> moves 3 vm vm'" "moves 3 vm (push so vm)"
  by (rule on_stack_moves [OF int_unop_on_stack] on_stack_moves [OF int_binop_on_stack] on_stack_moves [OF hash_op_on_stack]
      on_stack_moves [OF abstractVerify_on_stack] on_stack_moves [OF pushInt_on_stack] on_stack_moves [OF push_on_stack(1)]; simp)+

lemma simple_moves:
  "opcode2Drop vm = Inr vm' \<Longrightarrow> moves 3 vm vm'"
  "opcode2Dup vm = Inr vm' \<Longrightarrow> moves 3 vm vm'"
  "opcode3Dup vm = Inr vm' \<Longrightarrow> moves 3 vm vm'"
  "opcode2Over vm = Inr vm' \<Longrightarrow> moves 3 vm vm'"
  "opcode2Rot vm = Inr vm' \<Longrightarrow> moves 3 vm vm'"
  "opcode2Swap vm = Inr vm' \<Longrightarrow> moves 3 vm vm'"
  "opcodeDrop vm = Inr vm' \<Longrightarrow> moves 3 vm vm'"
  "opcodeDup vm = Inr vm' \<Longrightarrow> moves 3 vm vm'"
  "opcodeNip vm = Inr vm' \<Longrightarrow> moves 3 vm vm'"
  "opcodeOver vm = Inr vm' \<Longrightarrow> moves 3 vm vm'"
  "opcodeRot vm = Inr vm' \<Longrightarrow> moves 3 vm vm'"
  "opcodeSwap vm = Inr vm' \<Longrightarrow> moves 3 vm vm'"
  "opcodeTuck vm = Inr vm' \<Longrightarrow> moves 3 vm vm'"
  "opcode1Add vm = Inr vm' \<Longrightarrow> moves 3 vm vm'"
  "opcode1Sub vm = Inr vm' \<Longrightarrow> moves 3 vm vm'"
  "opcodeNegate vm = Inr vm' \<Longrightarrow> moves 3 vm vm'"
  "opcodeAbs vm = Inr vm' \<Longrightarrow> moves 3 vm vm'"
  "opcodeNot vm = Inr vm' \<Longrightarrow> moves 3 vm vm'"
  "opcode0NotEqual vm = Inr vm' \<Longrightarrow> moves 3 vm vm'"
  "opcodeAdd vm = Inr vm' \<Longrightarrow> moves 3 vm vm'"
  "opcodeSub vm = Inr vm' \<Longrightarrow> moves 3 vm vm'"
  "opcodeBoolAnd vm = Inr vm' \<Longrightarrow> moves 3 vm vm'"
  "opcodeBoolOr vm = Inr vm' \<Longrightarrow> moves 3 vm vm'"
  "opcodeNumEqual vm = Inr vm' \<Longrightarrow> moves 3 vm vm'"
  "opcodeNumNotEqual vm = Inr vm' \<Longrightarrow> moves 3 vm vm'"
  "opcodeLessThan vm = Inr vm' \<Longrightarrow> moves 3 vm vm'"
  "opcodeGreaterThan vm = Inr vm' \<Longrightarrow> moves 3 vm vm'"
  "opcodeLessThanOrEqual vm = Inr vm' \<Longrightarrow> moves 3 vm vm'"
  "opcodeGreaterThanOrEqual vm = Inr vm' \<Longrightarrow> moves 3 vm vm'"
  "opcodeMin vm = Inr vm' \<Longrightarrow> moves 3 vm vm'"
  "opcodeMax vm = Inr vm' \<Longrightarrow> moves 3 vm vm'"
  "opcodeFalse vm = Inr vm' \<Longrightarrow> moves 3 vm vm'"
  "opcode1Negate vm = Inr vm' \<Longrightarrow> moves 3 vm vm'"
  "opcodeDepth vm = Inr vm' \<Longrightarrow> moves 3 vm vm'"
  "opcodeVerify vm = Inr vm' \<Longrightarrow> moves 3 vm vm'"
  "opcodeRipemd160 c vm = Inr vm' \<Longrightarrow> moves 3 vm vm'"
  "opcodeSha1 c vm = Inr vm' \<Longrightarrow> moves 3 vm vm'"
  "opcodeSha256 c vm = Inr vm' \<Longrightarrow> moves 3 vm vm'"
  "opcodeHash160 c vm = Inr vm' \<Longrightarrow> moves 3 vm vm'"
  "opcodeHash256 c vm = Inr vm' \<Longrightarrow> moves 3 vm vm'"
  "opcodePushData data vm = Inr vm' \<Longrightarrow> moves 3 vm vm'"
  "opcodeN op vm = Inr vm' \<Longrightarrow> moves 3 vm vm'"
  "opcodeNop op vm = Inr vm' \<Longrightarrow> moves 3 vm vm'"
  unfolding opcode2Drop_def opcode2Dup_def opcode3Dup_def opcode2Over_def opcode2Rot_def opcode2Swap_def opcodeDrop_def opcodeDup_def opcodeNip_def opcodeOver_def opcodeRot_def opcodeSwap_def opcodeTuck_def opcode1Add_def opcode1Sub_def opcodeNegate_def opcodeAbs_def opcodeNot_def opcode0NotEqual_def opcodeAdd_def opcodeSub_def opcodeBoolAnd_def opcodeBoolOr_def opcodeNumEqual_def opcodeNumNotEqual_def opcodeLessThan_def opcodeGreaterThan_def opcodeLessThanOrEqual_def opcodeGreaterThanOrEqual_def opcodeMin_def opcodeMax_def opcodeFalse_def opcode1Negate_def opcodeDepth_def opcodeVerify_def opcodeRipemd160_def opcodeSha1_def opcodeSha256_def opcodeHash160_def opcodeHash256_def opcodePushData_def opcodeN_def opcodeNop_def
  by ((erule dstack_moves generic_moves; simp) | (auto simp: generic_moves moves_refl split: if_split_asm)[1])+

lemma compound_moves:
  "opcodeIfDup vm = Inr vm' \<Longrightarrow> moves 3 vm vm'" "opcodeSize vm = Inr vm' \<Longrightarrow> moves 3 vm vm'"
  "opcodeCheckLockTimeVerify vm = Inr vm' \<Longrightarrow> moves 3 vm vm'" "opcodeCheckSequenceVerify vm = Inr vm' \<Longrightarrow> moves 3 vm vm'"
  "opcodeDisabled vm = Inr vm' \<Longrightarrow> moves 3 vm vm'" "opcodeReserved vm = Inr vm' \<Longrightarrow> moves 3 vm vm'"
  "opcodeInvalid vm = Inr vm' \<Longrightarrow> moves 3 vm vm'" "opcodeReturn vm = Inr vm' \<Longrightarrow> moves 3 vm vm'"
  by (auto simp: opcodeIfDup_def opcodeSize_def opcodeCheckLockTimeVerify_def opcodeCheckSequenceVerify_def
      opcodeDisabled_def opcodeReserved_def opcodeInvalid_def opcodeReturn_def Let_def generic_moves moves_refl
      elim!: rbindE split: if_split_asm)

lemma abstractVerify_moves: "moves 0 vm vm1 \<Longrightarrow> abstractVerify vm1 e = Inr vm' \<Longrightarrow> moves 3 vm vm'"
  using moves_trans [OF _ on_stack_moves [OF abstractVerify_on_stack order_refl]] by fastforce

lemma two_step_moves:
  "opcodePick vm = Inr vm' \<Longrightarrow> moves 3 vm vm'" "opcodeRoll vm = Inr vm' \<Longrightarrow> moves 3 vm vm'"
  "opcodeEqual vm = Inr vm' \<Longrightarrow> moves 0 vm vm'" "opcodeNumEqual vm = Inr vm' \<Longrightarrow> moves 0 vm vm'"
  "opcodeWithin vm = Inr vm' \<Longrightarrow> moves 3 vm vm'"
proof -
  have pick: "on_dstack (\<lambda>s. PickN s n) vm1 = Inr vm2 \<Longrightarrow> moves 1 vm1 vm2"
    and roll: "on_dstack (\<lambda>s. RollN s n) vm1 = Inr vm2 \<Longrightarrow> moves 1 vm1 vm2" for n vm1 vm2
    by (rule on_stack_moves [OF on_dstack_grows]; (rule shuffle_grows)?; simp)+
  show "opcodePick vm = Inr vm' \<Longrightarrow> moves 3 vm vm'" "opcodeRoll vm = Inr vm' \<Longrightarrow> moves 3 vm vm'"
    using moves_trans [OF pop_moves(2) pick, where k = 3] moves_trans [OF pop_moves(2) roll, where k = 3]
    by (auto simp: opcodePick_def opcodeRoll_def elim!: rbindE)
  show "opcodeEqual vm = Inr vm' \<Longrightarrow> moves 0 vm vm'"
    using moves_trans [OF pop_moves(1) moves_trans [OF pop_moves(1) pushBool_moves(1), where k = 0], where k = 0]
    by (auto simp: opcodeEqual_def elim!: rbindE)
  show "opcodeNumEqual vm = Inr vm' \<Longrightarrow> moves 0 vm vm'"
    using on_stack_moves [OF int_binop_on_stack] by (auto simp: opcodeNumEqual_def)
  show "opcodeWithin vm = Inr vm' \<Longrightarrow> moves 3 vm vm'"
    using moves_trans [OF pop_moves(2) moves_trans [OF pop_moves(2) moves_trans [OF pop_moves(2) pushInt_moves, where k = 0], where k = 0], where k = 3]
    by (auto simp: opcodeWithin_def elim!: rbindE)
qed

lemma verify_variants_moves:
  "opcodeEqualVerify vm = Inr vm' \<Longrightarrow> moves 3 vm vm'" "opcodeNumEqualVerify vm = Inr vm' \<Longrightarrow> moves 3 vm vm'"
  "opcodeCheckSigVerify c vm = Inr vm' \<Longrightarrow> moves 3 vm vm'" "opcodeCheckMultiSigVerify c vm = Inr vm' \<Longrightarrow> moves 3 vm vm'"
  unfolding opcodeEqualVerify_def opcodeNumEqualVerify_def opcodeCheckSigVerify_def opcodeCheckMultiSigVerify_def
  by (elim rbindE; rule abstractVerify_moves; (assumption | erule two_step_moves(3,4) opcodeCheckSig_moves opcodeCheckMultiSig_moves))+

lemma zero_moves:
  assumes "moves 0 vm vm'"
  shows "moves 3 vm vm'"
  using moves_mono [OF assms] by simp

lemmas handler_moves = simple_moves compound_moves two_step_moves(1,2,5) verify_variants_moves
  two_step_moves(3,4) [THEN zero_moves] alt_moves [THEN zero_moves]
  codesep_moves [THEN zero_moves] opcodeCheckSig_moves [THEN zero_moves]
  opcodeCheckSigAdd_moves [THEN zero_moves] opcodeCheckMultiSig_moves [THEN zero_moves]

definition cond_ops :: "u8 set" where "cond_ops = {OP_IF, OP_NOTIF, OP_ELSE, OP_ENDIF}"

lemma table_moves:
  "list_all (\<lambda>(k, h). k \<notin> cond_ops \<longrightarrow> (\<forall>c op data vm vm'. h c op data vm = Inr vm' \<longrightarrow> moves 3 vm vm')) opcodeArray"
  unfolding opcodeArray_def list.pred_inject(2) prod.case
  by (intro conjI allI impI list.pred_inject(1); (erule handler_moves | simp add: cond_ops_def))

lemma range_moves:
  "opcodePushData data vm = Inr vm' \<Longrightarrow> moves 3 vm vm'" "opcodeN op vm = Inr vm' \<Longrightarrow> moves 3 vm vm'"
  "opcodeInvalid vm = Inr vm' \<Longrightarrow> moves 3 vm vm'"
  by (erule handler_moves)+

lemma opfunc_moves:
  assumes "opfunc op c op' data vm = Inr vm'" "op \<notin> cond_ops"
  shows "moves 3 vm vm'"
proof -
  have "h c' op'' data' v = Inr v' \<Longrightarrow> moves 3 v v'" if "map_of opcodeArray op = Some h" for h c' op'' data' v v'
    using table_moves map_of_SomeD [OF that] assms(2) by (fastforce simp: list_all_iff)
  then show ?thesis
    using assms range_moves unfolding opfunc_def by (auto split: if_split_asm option.split_asm)
qed

lemma opfunc_cond:
  "opfunc OP_IF = (\<lambda>c op data vm. opcodeIf vm)" "opfunc OP_NOTIF = (\<lambda>c op data vm. opcodeNotIf vm)"
  "opfunc OP_ELSE = (\<lambda>c op data vm. opcodeElse vm)" "opfunc OP_ENDIF = (\<lambda>c op data vm. opcodeEndif vm)"
  unfolding opfunc_def opcodeArray_def by simp_all

lemma opfunc_steps:
  assumes "opfunc op c op' data vm = Inr vm'"
  shows "steps 3 vm vm'"
  using assms opfunc_moves [OF assms, THEN moves_steps] control_steps
  by (cases "op \<in> cond_ops") (auto simp: cond_ops_def opfunc_cond)

end
