(* ===== verification/Script_Engine.thy ===== *)
theory Script_Engine
  imports Script_Opcodes
begin

unbundle bit_operations_syntax

text \<open>
  The execution of scripts (\<open>engine.go\<close>): the checks around an opcode, one step, the change from one
  script to the next with the pay-to-script-hash and witness rules, the run of a whole spend and the
  creation of an engine.
\<close>

section \<open>Executing an opcode\<close>

definition isOpcodeDisabled :: "u8 \<Rightarrow> bool" where
  "isOpcodeDisabled opcode \<longleftrightarrow> opcode \<in> {OP_CAT, OP_SUBSTR, OP_LEFT, OP_RIGHT, OP_INVERT, OP_AND, OP_OR, OP_XOR,
     OP_2MUL, OP_2DIV, OP_MUL, OP_DIV, OP_MOD, OP_LSHIFT, OP_RSHIFT}"

definition isOpcodeAlwaysIllegal :: "u8 \<Rightarrow> bool" where
  "isOpcodeAlwaysIllegal opcode \<longleftrightarrow> opcode \<in> {OP_VERIF, OP_VERNOTIF}"

definition isOpcodeConditional :: "u8 \<Rightarrow> bool" where
  "isOpcodeConditional opcode \<longleftrightarrow> opcode \<in> {OP_IF, OP_NOTIF, OP_ELSE, OP_ENDIF}"

definition checkMinimalDataPush :: "u8 \<Rightarrow> bytes \<Rightarrow> unit res" where
  "checkMinimalDataPush opcodeVal data =
     (let dataLen = length data in
      if dataLen = 0 \<and> opcodeVal \<noteq> OP_0 then Inl ErrMinimalData
      else if dataLen = 1 \<and> data ! 0 \<ge> 1 \<and> data ! 0 \<le> 16 then
        (if opcodeVal \<noteq> OP_1 + data ! 0 - 1 then Inl ErrMinimalData else Inr ())
      else if dataLen = 1 \<and> data ! 0 = 0x81 then
        (if opcodeVal \<noteq> OP_1NEGATE then Inl ErrMinimalData else Inr ())
      else if dataLen \<le> 75 then (if unat opcodeVal \<noteq> dataLen then Inl ErrMinimalData else Inr ())
      else if dataLen \<le> 255 then (if opcodeVal \<noteq> OP_PUSHDATA1 then Inl ErrMinimalData else Inr ())
      else if dataLen \<le> 65535 then (if opcodeVal \<noteq> OP_PUSHDATA2 then Inl ErrMinimalData else Inr ())
      else Inr ())"

text \<open>The operation count and the size of an element.\<close>

definition countOp :: "u8 \<Rightarrow> bytes \<Rightarrow> Engine \<Rightarrow> Engine res" where
  "countOp op data vm =
     (if taprootCtx vm = None \<and> op > OP_16 then
        (let vm = vm\<lparr>numOps := numOps vm + 1\<rparr> in
         if numOps vm > MaxOpsPerScript then Inl ErrTooManyOperations else Inr vm)
      else if length data > MaxScriptElementSize then Inl ErrElementTooBig
      else Inr vm)"

definition executeOpcode :: "crypto \<Rightarrow> u8 \<Rightarrow> bytes \<Rightarrow> Engine \<Rightarrow> Engine res" where
  "executeOpcode c op data vm =
     (if isOpcodeDisabled op then Inl ErrDisabledOpcode
      else if isOpcodeAlwaysIllegal op then Inl ErrReservedOpcode
      else rbind (countOp op data vm) (\<lambda>vm.
        if \<not> isBranchExecuting vm \<and> \<not> isOpcodeConditional op then Inr vm
        else rbind
          (if verifyMinimalData (dstack vm) \<and> isBranchExecuting vm \<and> op \<le> OP_PUSHDATA4
           then checkMinimalDataPush op data else Inr ()) (\<lambda>_. opfunc op c op data vm)))"

section \<open>The end of a script\<close>

definition CheckErrorCondition :: "Engine \<Rightarrow> bool \<Rightarrow> Engine res" where
  "CheckErrorCondition vm finalScript =
     (if (case taprootCtx vm of Some ctx \<Rightarrow> mustSucceed ctx | None \<Rightarrow> False) then Inr vm
      else if scriptIdx vm < length (scripts vm) then Inl ErrScriptUnfinished
      else if finalScript \<and> isWitnessVersionActive vm BaseSegwitWitnessVersion \<and> Depth (dstack vm) \<noteq> 1
      then Inl ErrEvalFalse
      else let cleanStackActive = (hasFlag vm ScriptVerifyCleanStack \<or> taprootCtx vm \<noteq> None) in
        if finalScript \<and> cleanStackActive \<and> Depth (dstack vm) \<noteq> 1 then Inl ErrCleanStack
        else if Depth (dstack vm) < 1 then Inl ErrEmptyStack
        else rbind (popBool vm) (\<lambda>(v, vm). if \<not> v then Inl ErrEvalFalse else Inr vm))"

text \<open>The limits on a witness stack, checked at the end of \<open>verifyWitnessProgram\<close>.\<close>

definition witness_limits :: "Engine \<Rightarrow> Engine res" where
  "witness_limits vm =
     (if isWitnessVersionActive vm TaprootWitnessVersion \<and> Depth (dstack vm) > int MaxStackSize
      then Inl ErrStackOverflow
      else if (isWitnessVersionActive vm TaprootWitnessVersion \<or> isWitnessVersionActive vm BaseSegwitWitnessVersion)
              \<and> (\<exists>e\<in>set (GetStack vm). length e > MaxScriptElementSize)
      then Inl ErrElementTooBig
      else Inr vm)"

definition append_script :: "bytes \<Rightarrow> Engine \<Rightarrow> Engine" where
  "append_script script vm = vm\<lparr>scripts := scripts vm @ [script]\<rparr>"

definition verify_v0 :: "crypto \<Rightarrow> bytes \<Rightarrow> bytes list \<Rightarrow> Engine \<Rightarrow> Engine res" where
  "verify_v0 c program witness vm =
     (if length program = 20 then
        (if length witness \<noteq> 2 then Inl ErrWitnessProgramMismatch
         else case payToPubKeyHashScript program of (pkScript, err) \<Rightarrow>
           (case err of Some e \<Rightarrow> Inl e
            | None \<Rightarrow> rbind (checkScriptParses (vm_version vm) pkScript) (\<lambda>_.
                witness_limits (SetStack witness (append_script pkScript vm)))))
      else if length program = 32 then
        (if length witness = 0 then Inl ErrWitnessProgramEmpty
         else let witnessScript = last witness in
           if length witnessScript > MaxScriptSize then Inl ErrScriptTooBig
           else if sha256 c witnessScript \<noteq> program then Inl ErrWitnessProgramMismatch
           else rbind (checkScriptParses (vm_version vm) witnessScript) (\<lambda>_.
             witness_limits (SetStack (butlast witness) (append_script witnessScript vm))))
      else Inl ErrWitnessProgramWrongLength)"

definition must_succeed :: "taprootExecutionCtx \<Rightarrow> Engine \<Rightarrow> Engine" where
  "must_succeed ctx vm = vm\<lparr>taprootCtx := Some (ctx\<lparr>mustSucceed := True\<rparr>)\<rparr>"

definition verify_tapscript :: "crypto \<Rightarrow> bytes \<Rightarrow> bytes list \<Rightarrow> taprootExecutionCtx \<Rightarrow> Engine \<Rightarrow> Engine res" where
  "verify_tapscript c program witness ctx vm =
     (if length witness < 2 then Inl GoPanic
      else rbind (ParseControlBlock c (last witness)) (\<lambda>controlBlock.
        let witnessScript = last (butlast witness) in
        rbind (VerifyTaprootLeafCommitment c controlBlock program witnessScript) (\<lambda>_.
          if ScriptHasOpSuccess witnessScript then
            (if hasFlag vm ScriptVerifyDiscourageOpSuccess then Inl ErrDiscourageOpSuccess
             else Inr (must_succeed ctx vm))
          else if cb_LeafVersion controlBlock \<noteq> BaseLeafVersion then
            (if hasFlag vm ScriptVerifyDiscourageUpgradeableTaprootVersion
             then Inl ErrDiscourageUpgradeableTaprootVersion
             else Inr (must_succeed ctx vm))
          else rbind (checkScriptParses (vm_version vm) witnessScript) (\<lambda>_.
            let ctx = ctx\<lparr>tapLeafHash := leaf_TapHash c (NewBaseTapLeaf witnessScript)\<rparr>;
                vm = append_script witnessScript (vm\<lparr>taprootCtx := Some ctx\<rparr>)
            in witness_limits (SetStack (butlast (butlast witness)) vm)))))"

text \<open>
  Of the tapscript branch, an empty witness has been refused and one item is a key spend; after an
  annex is removed there is at least one item, so that two are left for the script branch.
\<close>

definition verify_v1 :: "crypto \<Rightarrow> bytes \<Rightarrow> bytes list \<Rightarrow> Engine \<Rightarrow> Engine res" where
  "verify_v1 c program witness vm =
     (if \<not> hasFlag vm ScriptVerifyTaproot then Inr vm
      else if length witness = 0 then Inl ErrWitnessProgramEmpty
      else let ctx = newTaprootExecutionCtx (i32 (int (TxWitness_SerializeSize witness)));
               annexed = isAnnexedWitness witness;
               ctx = (if annexed then ctx\<lparr>annex := (case extractAnnex witness of Inr a \<Rightarrow> Some a | Inl _ \<Rightarrow> None)\<rparr> else ctx);
               witness = (if annexed then butlast witness else witness)
           in if length witness = 1 then
                rbind (VerifyTaprootKeySpend c program (witness ! 0) (vm_tx vm) (txIdx vm) (prevOutFetcher vm)
                         (hashCache vm) (sigCache vm))
                  (\<lambda>cache. Inr (must_succeed ctx (vm\<lparr>sigCache := cache\<rparr>)))
              else verify_tapscript c program witness ctx vm)"

definition verifyWitnessProgram :: "crypto \<Rightarrow> bytes list \<Rightarrow> Engine \<Rightarrow> Engine res" where
  "verifyWitnessProgram c witness vm =
     (case witnessProgram vm of
        Some program \<Rightarrow>
          if witnessVersion vm = BaseSegwitWitnessVersion then verify_v0 c program witness vm
          else if witnessVersion vm = TaprootWitnessVersion \<and> length program = 32 \<and> \<not> bip16 vm
          then verify_v1 c program witness vm
          else if hasFlag vm ScriptVerifyDiscourageUpgradeableWitnessProgram
          then Inl ErrDiscourageUpgradableWitnessProgram
          else witness_limits (vm\<lparr>witnessProgram := None\<rparr>)
      | None \<Rightarrow>
          if hasFlag vm ScriptVerifyDiscourageUpgradeableWitnessProgram
          then Inl ErrDiscourageUpgradableWitnessProgram
          else witness_limits vm)"

section \<open>One step\<close>

text \<open>The switch that advances to the next script.\<close>

definition nextScript :: "crypto \<Rightarrow> Engine \<Rightarrow> Engine res" where
  "nextScript c vm =
     (if scriptIdx vm = 0 \<and> bip16 vm then
        Inr (vm\<lparr>scriptIdx := scriptIdx vm + 1, savedFirstStack := GetStack vm\<rparr>)
      else if scriptIdx vm = 1 \<and> bip16 vm then
        rbind (CheckErrorCondition (vm\<lparr>scriptIdx := scriptIdx vm + 1\<rparr>) False) (\<lambda>vm.
          if savedFirstStack vm = [] then Inl GoPanic
          else let script = last (savedFirstStack vm) in
            rbind (checkScriptParses (vm_version vm) script) (\<lambda>_.
              Inr (SetStack (butlast (savedFirstStack vm)) (append_script script vm))))
      else if scriptIdx vm = 1 \<and> witnessProgram vm \<noteq> None
              \<or> scriptIdx vm = 2 \<and> witnessProgram vm \<noteq> None \<and> bip16 vm then
        (if txIdx vm \<ge> length (MsgTxIn (vm_tx vm)) then Inl GoPanic
         else verifyWitnessProgram c (Witness (MsgTxIn (vm_tx vm) ! txIdx vm)) (vm\<lparr>scriptIdx := scriptIdx vm + 1\<rparr>))
      else Inr (vm\<lparr>scriptIdx := scriptIdx vm + 1\<rparr>))"

definition endScript :: "crypto \<Rightarrow> Engine \<Rightarrow> (bool \<times> Engine) res" where
  "endScript c vm =
     (if condStack vm \<noteq> [] then Inl ErrUnbalancedConditional
      else let vm = vm\<lparr>astack := ignore_err (astack vm) (DropN (astack vm) (Depth (astack vm))),
                      numOps := 0, opcodeIdx := 0\<rparr>
           in rbind (nextScript c vm) (\<lambda>vm.
             let vm = (if scriptIdx vm < length (scripts vm) \<and> length (scripts vm ! scriptIdx vm) = 0
                       then vm\<lparr>scriptIdx := scriptIdx vm + 1\<rparr> else vm);
                 vm = vm\<lparr>lastCodeSep := 0\<rparr>
             in if scriptIdx vm \<ge> length (scripts vm) then Inr (True, vm)
                else Inr (False, vm\<lparr>tokenizer := MakeScriptTokenizer (vm_version vm) (scripts vm ! scriptIdx vm)\<rparr>)))"

definition Step :: "crypto \<Rightarrow> Engine \<Rightarrow> (bool \<times> Engine) res" where
  "Step c vm =
     (if scriptIdx vm \<ge> length (scripts vm) then Inl ErrInvalidProgramCounter
      else case Next (tokenizer vm) of (ok, t) \<Rightarrow>
        let vm = vm\<lparr>tokenizer := t\<rparr> in
        if \<not> ok then Inl (case tok_err t of Some e \<Rightarrow> e | None \<Rightarrow> ErrInvalidProgramCounter)
        else rbind (executeOpcode c (tok_op t) (tok_data t) vm) (\<lambda>vm.
          if Depth (dstack vm) + Depth (astack vm) > int MaxStackSize then Inl ErrStackOverflow
          else let vm = vm\<lparr>opcodeIdx := opcodeIdx vm + 1\<rparr> in
            if tok_Done (tokenizer vm) then endScript c vm else Inr (False, vm)))"

section \<open>A step makes progress\<close>

lemma countOp_moves: "countOp op data vm = Inr vm' \<Longrightarrow> moves 0 vm vm'"
  using numOps_moves [of vm 1] by (auto simp: countOp_def Let_def moves_refl split: if_split_asm)

lemma executeOpcode_cases:
  assumes "executeOpcode c op data vm = Inr vm'"
  obtains vm1 where "countOp op data vm = Inr vm1" "vm' = vm1 \<and> op \<notin> cond_ops \<or> opfunc op c op data vm1 = Inr vm'"
  using assms unfolding executeOpcode_def
  by (elim rbindE | simp split: if_split_asm add: isOpcodeConditional_def cond_ops_def)+

lemma executeOpcode_steps:
  assumes "executeOpcode c op data vm = Inr vm'"
  shows "steps 3 vm vm'"
proof -
  obtain vm1 where 1: "countOp op data vm = Inr vm1" and 2: "vm' = vm1 \<or> opfunc op c op data vm1 = Inr vm'"
    using executeOpcode_cases [OF assms] by metis
  show ?thesis
    using 2 moves_steps [OF zero_moves [OF countOp_moves [OF 1]]] moves_steps_trans [OF countOp_moves [OF 1] opfunc_steps] by auto
qed

lemma executeOpcode_moves:
  assumes "executeOpcode c op data vm = Inr vm'" "op \<notin> cond_ops"
  shows "moves 3 vm vm'"
proof -
  obtain vm1 where 1: "countOp op data vm = Inr vm1" and 2: "vm' = vm1 \<or> opfunc op c op data vm1 = Inr vm'"
    using executeOpcode_cases [OF assms(1)] by metis
  show ?thesis
    using 2 assms(2) zero_moves [OF countOp_moves [OF 1]] moves_trans [OF countOp_moves [OF 1] opfunc_moves] by auto
qed

lemma SetStack_simps [simp]:
  "SetStack d vm = vm\<lparr>dstack := (dstack vm)\<lparr>stk := d\<rparr>\<rparr>" "GetStack vm = stk (dstack vm)"
  by (simp_all add: SetStack_def setStack_eq GetStack_def getStack_eq)

lemma witness_limits_Inr: "witness_limits vm = Inr vm' \<Longrightarrow> vm' = vm"
  by (auto simp: witness_limits_def split: if_split_asm)

text \<open>What the end of a script keeps, and that at most one script is added, at the two places that do.\<close>

definition same_config :: "Engine \<Rightarrow> Engine \<Rightarrow> bool" where
  "same_config vm vm' \<longleftrightarrow> flags vm' = flags vm \<and> vm_tx vm' = vm_tx vm \<and> txIdx vm' = txIdx vm
     \<and> vm_version vm' = vm_version vm \<and> bip16 vm' = bip16 vm \<and> hashCache vm' = hashCache vm
     \<and> prevOutFetcher vm' = prevOutFetcher vm \<and> inputAmount vm' = inputAmount vm
     \<and> verifyMinimalData (dstack vm') = verifyMinimalData (dstack vm)
     \<and> verifyMinimalData (astack vm') = verifyMinimalData (astack vm)"

definition next_ok :: "Engine \<Rightarrow> Engine \<Rightarrow> bool" where
  "next_ok vm vm' \<longleftrightarrow> same_config vm vm' \<and> condStack vm' = condStack vm \<and> astack vm' = astack vm
     \<and> numOps vm' = numOps vm \<and> tokenizer vm' = tokenizer vm"

lemma next_ok_refl [simp]: "next_ok vm vm"
  by (simp add: next_ok_def same_config_def)

lemma verify_v0_next:
  "verify_v0 c program witness vm = Inr vm' \<Longrightarrow> next_ok vm vm' \<and> scriptIdx vm' = scriptIdx vm \<and> length (scripts vm') = length (scripts vm) + 1"
  by (auto simp: verify_v0_def append_script_def next_ok_def same_config_def Let_def elim!: rbindE dest!: witness_limits_Inr
      split: if_split_asm prod.split_asm option.split_asm)

lemma verify_tapscript_cases:
  assumes "verify_tapscript c program witness ctx vm = Inr vm'"
  obtains "vm' = must_succeed ctx vm"
  | ctx' script d where "vm' = SetStack d (append_script script (vm\<lparr>taprootCtx := Some ctx'\<rparr>))"
  using assms unfolding verify_tapscript_def Let_def
  by (auto simp del: SetStack_simps elim!: rbindE dest!: witness_limits_Inr split: if_split_asm)

lemma verify_v1_cases:
  assumes "verify_v1 c program witness vm = Inr vm'"
  obtains (inactive) "vm' = vm" | (key) ctx cache where "vm' = must_succeed ctx (vm\<lparr>sigCache := cache\<rparr>)"
  | (script) ctx w where "verify_tapscript c program w ctx vm = Inr vm'"
proof -
  let ?w = "if isAnnexedWitness witness then butlast witness else witness"
  note v = assms [unfolded verify_v1_def Let_def]
  consider "\<not> hasFlag vm ScriptVerifyTaproot" | "hasFlag vm ScriptVerifyTaproot" "length witness = 0"
    | "hasFlag vm ScriptVerifyTaproot" "length witness \<noteq> 0" "length ?w = 1"
    | "hasFlag vm ScriptVerifyTaproot" "length witness \<noteq> 0" "length ?w \<noteq> 1" by blast
  then show thesis
  proof cases
    case 1
    then have "vm' = vm" using v by (simp only: not_True_eq_False not_False_eq_True if_True sum.inject)
    then show thesis by (rule inactive)
  next
    case 2
    then show thesis using v by (simp only: not_True_eq_False if_False simp_thms if_True sum.distinct)
  next
    case 3
    then show thesis using v by (simp only: not_True_eq_False if_False simp_thms if_True) (elim rbindE, rule key, simp only: sum.inject, erule sym)
  next
    case 4
    then show thesis using v by (simp only: not_True_eq_False if_False) (rule script)
  qed
qed

lemma verify_v1_next:
  "verify_v1 c program witness vm = Inr vm' \<Longrightarrow> next_ok vm vm' \<and> scriptIdx vm' = scriptIdx vm \<and> length (scripts vm') \<le> length (scripts vm) + 1"
  by (elim verify_v1_cases verify_tapscript_cases)
    (simp_all add: must_succeed_def append_script_def next_ok_def same_config_def)

lemma verifyWitnessProgram_next:
  "verifyWitnessProgram c witness vm = Inr vm' \<Longrightarrow> next_ok vm vm' \<and> scriptIdx vm' = scriptIdx vm \<and> length (scripts vm') \<le> length (scripts vm) + 1"
  by (auto simp: verifyWitnessProgram_def next_ok_def same_config_def dest!: verify_v0_next verify_v1_next witness_limits_Inr
      split: option.split_asm if_split_asm)

lemma popBool_keeps: "popBool vm = Inr (b, vm') \<Longrightarrow> \<exists>d. vm' = vm\<lparr>dstack := d\<rparr> \<and> verifyMinimalData d = verifyMinimalData (dstack vm)"
  by (drule popBool_on_stack) (elim on_stackE, blast)

lemma CheckErrorCondition_keeps:
  "CheckErrorCondition vm f = Inr vm' \<Longrightarrow> \<exists>d. vm' = vm\<lparr>dstack := d\<rparr> \<and> verifyMinimalData d = verifyMinimalData (dstack vm)"
  by (auto simp: CheckErrorCondition_def Let_def elim!: rbindE dest!: popBool_keeps intro: exI [of _ "dstack vm"]
      split: if_split_asm option.split_asm)

text \<open>The change to the next script: the four branches of the switch.\<close>

lemma nextScript_cases:
  assumes "nextScript c vm = Inr vm'"
  obtains (first) "scriptIdx vm = 0" "bip16 vm" "vm' = vm\<lparr>scriptIdx := 1, savedFirstStack := stk (dstack vm)\<rparr>"
  | (redeem) d script where "scriptIdx vm = 1" "bip16 vm" "verifyMinimalData d = verifyMinimalData (dstack vm)"
      "vm' = append_script script (vm\<lparr>scriptIdx := scriptIdx vm + 1, dstack := d\<rparr>)"
  | (witness) w where "scriptIdx vm = 1 \<and> \<not> bip16 vm \<or> scriptIdx vm = 2 \<and> bip16 vm" "witnessProgram vm \<noteq> None"
      "verifyWitnessProgram c w (vm\<lparr>scriptIdx := scriptIdx vm + 1\<rparr>) = Inr vm'"
  | (plain) "scriptIdx vm \<noteq> 1 \<or> \<not> bip16 vm \<and> witnessProgram vm = None" "scriptIdx vm \<noteq> 0 \<or> \<not> bip16 vm"
      "vm' = vm\<lparr>scriptIdx := scriptIdx vm + 1\<rparr>"
proof -
  consider (1) "scriptIdx vm = 0 \<and> bip16 vm" | (2) "scriptIdx vm = 1 \<and> bip16 vm"
    | (3) "\<not> (scriptIdx vm = 0 \<and> bip16 vm)" "\<not> (scriptIdx vm = 1 \<and> bip16 vm)"
        "scriptIdx vm = 1 \<and> witnessProgram vm \<noteq> None \<or> scriptIdx vm = 2 \<and> witnessProgram vm \<noteq> None \<and> bip16 vm"
    | (4) "\<not> (scriptIdx vm = 0 \<and> bip16 vm)" "\<not> (scriptIdx vm = 1 \<and> bip16 vm)"
        "\<not> (scriptIdx vm = 1 \<and> witnessProgram vm \<noteq> None \<or> scriptIdx vm = 2 \<and> witnessProgram vm \<noteq> None \<and> bip16 vm)" by blast
  then show thesis
  proof cases
    case 1
    then have "vm' = vm\<lparr>scriptIdx := 1, savedFirstStack := stk (dstack vm)\<rparr>" using assms by (simp add: nextScript_def)
    with 1 show thesis using first by blast
  next
    case 2
    then obtain v where v: "CheckErrorCondition (vm\<lparr>scriptIdx := scriptIdx vm + 1\<rparr>) False = Inr v"
      "vm' = SetStack (butlast (savedFirstStack v)) (append_script (last (savedFirstStack v)) v)"
      using assms by (auto simp: nextScript_def Let_def simp del: SetStack_simps elim!: rbindE split: if_split_asm)
    obtain d where d: "v = vm\<lparr>scriptIdx := scriptIdx vm + 1, dstack := d\<rparr>" "verifyMinimalData d = verifyMinimalData (dstack vm)"
      using CheckErrorCondition_keeps [OF v(1)] by auto
    have "vm' = append_script (last (savedFirstStack vm)) (vm\<lparr>scriptIdx := scriptIdx vm + 1, dstack := d\<lparr>stk := butlast (savedFirstStack vm)\<rparr>\<rparr>)"
      unfolding v(2) d(1) by (simp add: append_script_def)
    from redeem [OF _ _ _ this] show thesis using 2 d(2) by simp
  next
    case 3
    then have "verifyWitnessProgram c (Witness (MsgTxIn (vm_tx vm) ! txIdx vm)) (vm\<lparr>scriptIdx := scriptIdx vm + 1\<rparr>) = Inr vm'"
      using assms unfolding nextScript_def by (simp only: if_False if_True split: if_split_asm) simp
    then show thesis using witness 3 by blast
  next
    case 4
    then have "vm' = vm\<lparr>scriptIdx := scriptIdx vm + 1\<rparr>" using assms unfolding nextScript_def by (simp only: if_False sum.inject)
    from plain [OF _ _ this] 4 show thesis by argo
  qed
qed

lemma nextScript_next:
  assumes "nextScript c vm = Inr vm'"
  shows "next_ok vm vm' \<and> scriptIdx vm' = scriptIdx vm + 1
    \<and> length (scripts vm') \<le> length (scripts vm) + (if scriptIdx vm = 1 \<or> scriptIdx vm = 2 then 1 else 0)"
  using assms
proof (cases rule: nextScript_cases)
  case witness
  from verifyWitnessProgram_next [OF witness(3)] witness(1) show ?thesis by (auto simp: next_ok_def same_config_def)
qed (simp_all add: next_ok_def same_config_def append_script_def)

text \<open>
  How many scripts may still be run: those not yet reached, and one for each of the two places where
  a script can be added.
\<close>

definition scripts_left :: "Engine \<Rightarrow> nat" where
  "scripts_left vm = length (scripts vm) + (if scriptIdx vm \<le> 1 then 2 else if scriptIdx vm = 2 then 1 else 0) - scriptIdx vm"

definition bytes_left :: "Engine \<Rightarrow> nat" where
  "bytes_left vm = length (tok_script (tokenizer vm)) - tok_offset (tokenizer vm)"

lemma endScript_next:
  assumes "endScript c vm = Inr (fin, vm')"
  shows "same_config vm vm' \<and> condStack vm' = [] \<and> numOps vm' = 0 \<and> stk (astack vm') = []
    \<and> (fin \<longleftrightarrow> scriptIdx vm' \<ge> length (scripts vm'))
    \<and> (\<not> fin \<longrightarrow> tokenizer vm' = MakeScriptTokenizer (vm_version vm') (scripts vm' ! scriptIdx vm'))
    \<and> (\<not> fin \<and> scriptIdx vm < length (scripts vm) \<longrightarrow> scripts_left vm' < scripts_left vm)"
proof -
  let ?v = "vm\<lparr>astack := (astack vm)\<lparr>stk := []\<rparr>, numOps := 0, opcodeIdx := 0\<rparr>"
  let ?skip = "\<lambda>vm. if scriptIdx vm < length (scripts vm) \<and> length (scripts vm ! scriptIdx vm) = 0
                       then vm\<lparr>scriptIdx := scriptIdx vm + 1\<rparr> else vm"
  let ?w = "\<lambda>vm. ?skip vm\<lparr>lastCodeSep := 0\<rparr>"
  obtain vm1 where v: "condStack vm = []" "nextScript c ?v = Inr vm1"
    "(fin, vm') = (if scriptIdx (?w vm1) \<ge> length (scripts (?w vm1)) then (True, ?w vm1)
       else (False, (?w vm1)\<lparr>tokenizer := MakeScriptTokenizer (vm_version (?w vm1)) (scripts (?w vm1) ! scriptIdx (?w vm1))\<rparr>))"
    using assms by (auto simp: endScript_def drop_all_stack Let_def elim!: rbindE split: if_split_asm)
  note nx = nextScript_next [OF v(2)]
  have c: "same_config vm vm1" "condStack vm1 = []" "numOps vm1 = 0" "stk (astack vm1) = []"
    using nx v(1) by (auto simp: next_ok_def same_config_def)
  have i: "scriptIdx vm + 1 \<le> scriptIdx vm'" "scripts vm' = scripts vm1"
    using v(3) nx by (auto split: if_split_asm)
  have l: "length (scripts vm1) \<le> length (scripts vm) + (if scriptIdx vm = 1 \<or> scriptIdx vm = 2 then 1 else 0)"
    using nx by simp
  have "scripts_left vm' < scripts_left vm" if "scriptIdx vm' < length (scripts vm')" "scriptIdx vm < length (scripts vm)"
    using that i l unfolding scripts_left_def by (auto split: if_split_asm)
  then show ?thesis using v(3) c by (auto simp: same_config_def split: if_split_asm)
qed

lemma Step_cases:
  assumes "Step c vm = Inr (fin, vm')"
  obtains t vm1 where "scriptIdx vm < length (scripts vm)" "Next (tokenizer vm) = (True, t)"
    "executeOpcode c (tok_op t) (tok_data t) (vm\<lparr>tokenizer := t\<rparr>) = Inr vm1" "stack_items vm1 \<le> MaxStackSize" "tokenizer vm1 = t"
    "if tok_Done t then endScript c (vm1\<lparr>opcodeIdx := opcodeIdx vm1 + 1\<rparr>) = Inr (fin, vm')
     else \<not> fin \<and> vm' = vm1\<lparr>opcodeIdx := opcodeIdx vm1 + 1\<rparr>"
proof -
  obtain t vm1 where s: "scriptIdx vm < length (scripts vm)" "Next (tokenizer vm) = (True, t)"
    "executeOpcode c (tok_op t) (tok_data t) (vm\<lparr>tokenizer := t\<rparr>) = Inr vm1" "stack_items vm1 \<le> MaxStackSize"
    "if tok_Done (tokenizer vm1) then endScript c (vm1\<lparr>opcodeIdx := opcodeIdx vm1 + 1\<rparr>) = Inr (fin, vm')
       else \<not> fin \<and> vm' = vm1\<lparr>opcodeIdx := opcodeIdx vm1 + 1\<rparr>"
    using assms by (auto simp: Step_def Let_def stack_items_def Depth_def elim!: rbindE split: if_split_asm prod.split_asm)
  moreover have "tokenizer vm1 = t"
    using executeOpcode_steps [OF s(3)] by (simp add: steps_def moves_def same_frame_def)
  ultimately show thesis using that by simp
qed

lemma Step_progress:
  assumes "Step c vm = Inr (False, vm')"
  shows "scripts_left vm' < scripts_left vm \<or> scripts_left vm' = scripts_left vm \<and> bytes_left vm' < bytes_left vm"
  using assms
proof (cases rule: Step_cases)
  case (1 t vm1)
  have f: "scripts vm1 = scripts vm" "scriptIdx vm1 = scriptIdx vm"
    using executeOpcode_steps [OF 1(3)] by (auto simp: steps_def moves_def same_frame_def)
  then have "scripts_left (vm1\<lparr>opcodeIdx := opcodeIdx vm1 + 1\<rparr>) = scripts_left vm" by (simp add: scripts_left_def)
  then show ?thesis
    using endScript_next [of c "vm1\<lparr>opcodeIdx := opcodeIdx vm1 + 1\<rparr>" False vm'] 1 f Next_sound(3-5) [OF 1(2)]
    by (cases "tok_Done t") (simp_all add: scripts_left_def bytes_left_def)
qed

function exec_loop :: "crypto \<Rightarrow> Engine \<Rightarrow> Engine res" where
  "exec_loop c vm = rbind (Step c vm) (\<lambda>(fin, vm). if fin then Inr vm else exec_loop c vm)"
  by pat_completeness auto
termination
proof (relation "measures [\<lambda>(c, vm). scripts_left vm, \<lambda>(c, vm). bytes_left vm]", goal_cases)
  case (2 c vm x fin vm')
  then show ?case using Step_progress [of c vm vm'] by auto
qed simp

declare exec_loop.simps [simp del]

text \<open>\<open>Execute\<close>: scripts of an unknown version succeed without being run.\<close>

definition Execute :: "crypto \<Rightarrow> Engine \<Rightarrow> Engine res" where
  "Execute c vm =
     (if vm_version vm \<noteq> 0 then Inr vm
      else rbind (exec_loop c vm) (\<lambda>vm. CheckErrorCondition vm True))"

section \<open>Creating an engine\<close>

definition ExtractWitnessProgramInfo :: "bytes \<Rightarrow> (nat \<times> bytes) res" where
  "ExtractWitnessProgramInfo script =
     (case extractWitnessProgramInfo script of (version, program, valid) \<Rightarrow>
        if \<not> valid then Inl ErrOther else Inr (version, program))"

fun check_scripts :: "bytes list \<Rightarrow> unit res" where
  "check_scripts [] = Inr ()"
| "check_scripts (scr # scrs) =
     (if length scr > MaxScriptSize then Inl ErrScriptTooBig
      else rbind (checkScriptParses 0 scr) (\<lambda>_. check_scripts scrs))"

text \<open>The witness mode: the program found, if any, and its version.\<close>

definition witness_mode :: "bytes \<Rightarrow> bytes \<Rightarrow> bytes list \<Rightarrow> Engine \<Rightarrow> Engine res" where
  "witness_mode scriptSig scriptPubKey witness vm =
     (if \<not> hasFlag vm ScriptVerifyWitness then Inr vm
      else if \<not> hasFlag vm ScriptBip16 then Inl ErrInvalidFlags
      else rbind
        (if isWitnessProgramScript scriptPubKey then
           (if length scriptSig \<noteq> 0 then Inl ErrWitnessMalleated else Inr (Some scriptPubKey))
         else if length witness \<noteq> 0 \<and> bip16 vm then
           (if length scriptSig > 2 \<and> isCanonicalPush (scriptSig ! 0) (drop 1 scriptSig)
               \<and> isWitnessProgramScript (drop 1 scriptSig)
            then Inr (Some (drop 1 scriptSig)) else Inl ErrWitnessMalleatedP2SH)
         else Inr None) (\<lambda>witProgram.
        case witProgram of
          Some prog \<Rightarrow> rbind (ExtractWitnessProgramInfo prog) (\<lambda>(version, program).
            Inr (vm\<lparr>witnessVersion := version, witnessProgram := Some program\<rparr>))
        | None \<Rightarrow> if length witness \<noteq> 0 then Inl ErrWitnessUnexpected else Inr vm))"

definition emptyEngine :: "ScriptFlags \<Rightarrow> MsgTx \<Rightarrow> nat \<Rightarrow> SigCache option \<Rightarrow> TxSigHashes option \<Rightarrow> u64 \<Rightarrow> PrevOutputFetcher \<Rightarrow> Engine" where
  "emptyEngine fl tx idx sc hc amt fetch =
     \<lparr>flags = fl, vm_tx = tx, txIdx = idx, vm_version = 0, bip16 = False, sigCache = sc, hashCache = hc,
      prevOutFetcher = fetch, scripts = [], scriptIdx = 0, opcodeIdx = 0, lastCodeSep = 0,
      tokenizer = MakeScriptTokenizer 0 [], savedFirstStack = [],
      dstack = \<lparr>stk = [], verifyMinimalData = False\<rparr>, astack = \<lparr>stk = [], verifyMinimalData = False\<rparr>,
      condStack = [], numOps = 0, witnessVersion = 0, witnessProgram = None, inputAmount = amt, taprootCtx = None\<rparr>"

definition NewEngine ::
  "bytes \<Rightarrow> MsgTx \<Rightarrow> int \<Rightarrow> ScriptFlags \<Rightarrow> SigCache option \<Rightarrow> TxSigHashes option \<Rightarrow> u64 \<Rightarrow> PrevOutputFetcher \<Rightarrow> Engine res" where
  "NewEngine scriptPubKey tx idx fl sc hc amt fetch =
     (if idx < 0 \<or> idx \<ge> int (length (MsgTxIn tx)) then Inl ErrInvalidIndex
      else let input = MsgTxIn tx ! nat idx; scriptSig = SignatureScript input;
               vm = emptyEngine fl tx (nat idx) sc hc amt fetch in
        if length scriptSig = 0 \<and> length scriptPubKey = 0 then Inl ErrEvalFalse
        else if hasFlag vm ScriptVerifyCleanStack \<and> \<not> hasFlag vm ScriptBip16 \<and> \<not> hasFlag vm ScriptVerifyWitness
        then Inl ErrInvalidFlags
        else if hasFlag vm ScriptVerifySigPushOnly \<and> \<not> IsPushOnlyScript scriptSig then Inl ErrNotPushOnly
        else let p2sh = (hasFlag vm ScriptBip16 \<and> isScriptHashScript scriptPubKey) in
          if p2sh \<and> \<not> hasFlag vm ScriptVerifySigPushOnly \<and> \<not> IsPushOnlyScript scriptSig then Inl ErrNotPushOnly
          else rbind (check_scripts [scriptSig, scriptPubKey]) (\<lambda>_.
            let vm = vm\<lparr>bip16 := p2sh, scripts := [scriptSig, scriptPubKey],
                       scriptIdx := (if length scriptSig = 0 then 1 else 0)\<rparr>;
                vm = (if hasFlag vm ScriptVerifyMinimalData
                      then vm\<lparr>dstack := (dstack vm)\<lparr>verifyMinimalData := True\<rparr>,
                              astack := (astack vm)\<lparr>verifyMinimalData := True\<rparr>\<rparr> else vm)
            in rbind (witness_mode scriptSig scriptPubKey (Witness input) vm) (\<lambda>vm.
              Inr (vm\<lparr>tokenizer := MakeScriptTokenizer 0 (scripts vm ! scriptIdx vm)\<rparr>))))"
end
