(* ===== verification/Script_Safety.thy ===== *)
theory Script_Safety
  imports Script_Engine
begin

unbundle bit_operations_syntax

text \<open>
  Safety of the script machine: which states an engine can reach, what holds in all of them, and that
  no panic of the source (an index out of range, a nil dereference, the encoding of the least 64-bit
  integer) is reached by a run.
\<close>

section \<open>Results that are no panic\<close>

definition np :: "'a res \<Rightarrow> bool" where
  "np r \<longleftrightarrow> r \<noteq> Inl GoPanic"

named_theorems nps \<open>operations that do not panic\<close>

lemma np_simps [simp]: "np (Inr x)" "np (Inl e) \<longleftrightarrow> e \<noteq> GoPanic"
  by (simp_all add: np_def)

lemma np_rbind [intro?]: "np r \<Longrightarrow> (\<And>x. r = Inr x \<Longrightarrow> np (f x)) \<Longrightarrow> np (rbind r f)"
  by (cases r) auto

lemma np_rbind_pair: "np r \<Longrightarrow> (\<And>a b. r = Inr (a, b) \<Longrightarrow> np (f a b)) \<Longrightarrow> np (rbind r (\<lambda>(a, b). f a b))"
  by (rule np_rbind) auto

lemma np_if: "(b \<Longrightarrow> np x) \<Longrightarrow> (\<not> b \<Longrightarrow> np y) \<Longrightarrow> np (if b then x else y)"
  by simp

lemma np_stack [nps]:
  "np (PopByteArray s)" "np (PeekByteArray s i)" "np (DropN s n)" "np (DupN s n)" "np (RotN s n)" "np (SwapN s n)"
  "np (OverN s n)" "np (Tuck s)" "np (PickN s n)" "np (RollN s n)" "np (NipN s n)"
  by (simp_all add: PopByteArray_cases PeekByteArray_def DropN_spec DupN_spec RotN_spec SwapN_spec OverN_spec Tuck_spec
      PickN_spec RollN_spec NipN_spec Let_def split: list.split)

lemma np_MakeScriptNum [nps]: "np (MakeScriptNum v m k)"
  by (simp add: MakeScriptNum_def checkMinimalDataEncoding_def Let_def)

lemma np_Bytes: "- (2 ^ 63) < n \<Longrightarrow> np (Bytes n)"
  using Bytes_nonzero [of n] by (cases "n = 0") (simp_all add: Bytes_def)

lemma np_PushInt: "- (2 ^ 63) < n \<Longrightarrow> np (PushInt n s)"
  unfolding PushInt_def by (rule np_rbind) (simp_all add: np_Bytes)

lemma np_on_dstack: "np (f (dstack vm)) \<Longrightarrow> np (on_dstack f vm)"
  unfolding on_dstack_def by (rule np_rbind) simp_all

lemma np_pushInt: "- (2 ^ 63) < n \<Longrightarrow> np (pushInt n vm)"
  unfolding pushInt_def by (intro np_on_dstack np_PushInt)

lemma np_pop [nps]: "np (pop vm)" "np (popInt vm)" "np (popBool vm)"
  by (auto simp: pop_def popInt_def popBool_def PopInt_def PopBool_def nps intro!: np_rbind)

lemma popInt_bound:
  assumes "popInt vm = Inr (n, vm')"
  shows "\<bar>n\<bar> < 2 ^ 31"
proof -
  obtain v m where "MakeScriptNum v m maxScriptNumLen = Inr n"
    using assms by (auto simp: popInt_def PopInt_def elim!: rbindE)
  then have "length v \<le> 4" "n = sm_val v" using MakeScriptNum_Inr by (auto simp: maxScriptNumLen_def)
  then show ?thesis
  proof (cases "v = []")
    case False
    have "(2::int) ^ (8 * length v - 1) \<le> 2 ^ 31" using \<open>length v \<le> 4\<close> by (intro power_increasing) auto
    then show ?thesis using sm_val_bound [OF False] \<open>n = sm_val v\<close> by linarith
  qed (simp add: sm_val_def sign_bit_def)
qed

lemma small_i64: "\<bar>x\<bar> < 2 ^ 33 \<Longrightarrow> i64 x = x"
  by (rule i64_id) (auto simp: is_i64_def)

lemma np_int_unop:
  assumes "\<And>m. \<bar>m\<bar> < 2 ^ 31 \<Longrightarrow> - (2 ^ 63) < f m"
  shows "np (int_unop f vm)"
  unfolding int_unop_def using assms popInt_bound by (auto intro!: np_rbind np_pushInt simp: nps)

lemma np_int_binop:
  assumes "\<And>m n. \<bar>m\<bar> < 2 ^ 31 \<Longrightarrow> \<bar>n\<bar> < 2 ^ 31 \<Longrightarrow> - (2 ^ 63) < f m n"
  shows "np (int_binop f vm)"
  unfolding int_binop_def using assms popInt_bound by (auto intro!: np_rbind np_pushInt simp: nps)

lemma np_hash_op [nps]: "np (hash_op h vm)"
  unfolding hash_op_def by (auto intro!: np_rbind simp: nps)

lemma np_abstractVerify: "e \<noteq> GoPanic \<Longrightarrow> np (abstractVerify vm e)"
  unfolding abstractVerify_def by (auto intro!: np_rbind simp: nps)

lemma np_arith [nps]:
  "np (opcode1Add vm)" "np (opcode1Sub vm)" "np (opcodeNegate vm)" "np (opcodeAbs vm)" "np (opcodeNot vm)"
  "np (opcode0NotEqual vm)"
  unfolding opcode1Add_def opcode1Sub_def opcodeNegate_def opcodeAbs_def opcodeNot_def opcode0NotEqual_def
  by (rule np_int_unop; simp add: b2i_def small_i64)+

lemma np_arith2 [nps]:
  "np (opcodeAdd vm)" "np (opcodeSub vm)" "np (opcodeBoolAnd vm)" "np (opcodeBoolOr vm)" "np (opcodeNumEqual vm)"
  "np (opcodeNumNotEqual vm)" "np (opcodeLessThan vm)" "np (opcodeGreaterThan vm)" "np (opcodeLessThanOrEqual vm)"
  "np (opcodeGreaterThanOrEqual vm)" "np (opcodeMin vm)" "np (opcodeMax vm)"
  unfolding opcodeAdd_def opcodeSub_def opcodeBoolAnd_def opcodeBoolOr_def opcodeNumEqual_def opcodeNumNotEqual_def
    opcodeLessThan_def opcodeGreaterThan_def opcodeLessThanOrEqual_def opcodeGreaterThanOrEqual_def opcodeMin_def opcodeMax_def
  by (rule np_int_binop; (simp add: b2i_def small_i64)?; linarith?)+

lemma np_within [nps]: "np (opcodeWithin vm)"
  unfolding opcodeWithin_def by (auto intro!: np_rbind np_pushInt simp: nps b2i_def)

lemma np_simple [nps]:
  "np (opcode2Drop vm)" "np (opcode2Dup vm)" "np (opcode3Dup vm)" "np (opcode2Over vm)" "np (opcode2Rot vm)"
  "np (opcode2Swap vm)" "np (opcodeDrop vm)" "np (opcodeDup vm)" "np (opcodeNip vm)" "np (opcodeOver vm)"
  "np (opcodeRot vm)" "np (opcodeSwap vm)" "np (opcodeTuck vm)"
  unfolding opcode2Drop_def opcode2Dup_def opcode3Dup_def opcode2Over_def opcode2Rot_def opcode2Swap_def opcodeDrop_def
    opcodeDup_def opcodeNip_def opcodeOver_def opcodeRot_def opcodeSwap_def opcodeTuck_def
  by (rule np_on_dstack, simp add: nps)+

lemma np_hashes [nps]:
  "np (opcodeRipemd160 c vm)" "np (opcodeSha1 c vm)" "np (opcodeSha256 c vm)" "np (opcodeHash160 c vm)" "np (opcodeHash256 c vm)"
  by (simp_all add: opcodeRipemd160_def opcodeSha1_def opcodeSha256_def opcodeHash160_def opcodeHash256_def nps)

lemma np_constants [nps]:
  "np (opcodeDisabled vm)" "np (opcodeReserved vm)" "np (opcodeInvalid vm)" "np (opcodeReturn vm)" "np (opcodeFalse vm)"
  "np (opcodePushData data vm)" "np (opcodeNop op vm)" "np (opcode1Negate vm)" "np (opcodeN op vm)" "np (opcodeDepth vm)"
  "np (opcodeVerify vm)" "np (opcodeCodeSeparator vm)"
  using np_pushInt [of "int (unat (op - (OP_1 - 1)))" vm] np_pushInt [of "-1" vm] np_pushInt [of "Depth (dstack vm)" vm]
  by (simp_all add: opcodeDisabled_def opcodeReserved_def opcodeInvalid_def opcodeReturn_def opcodeFalse_def opcodePushData_def
      opcodeNop_def opcode1Negate_def opcodeN_def opcodeDepth_def opcodeVerify_def opcodeCodeSeparator_def Depth_def
      np_abstractVerify Let_def less_le_trans [OF _ uint_ge_0] split: option.split)

lemma np_popIfBool [nps]: "np (popIfBool vm)"
  by (auto simp: popIfBool_def nps intro!: np_rbind)

lemma np_control [nps]:
  "np (opcodeIf vm)" "np (opcodeNotIf vm)" "np (opcodeElse vm)" "np (opcodeEndif vm)"
  by (auto simp: opcodeIf_def opcodeNotIf_def opcodeElse_def opcodeEndif_def nps intro!: np_rbind)

lemma np_compound [nps]:
  "np (opcodeIfDup vm)" "np (opcodeSize vm)" "np (opcodePick vm)" "np (opcodeRoll vm)" "np (opcodeToAltStack vm)"
  "np (opcodeFromAltStack vm)" "np (opcodeEqual vm)"
  by (auto simp: opcodeIfDup_def opcodeSize_def opcodePick_def opcodeRoll_def opcodeToAltStack_def opcodeFromAltStack_def
      opcodeEqual_def nps intro!: np_rbind np_pushInt np_on_dstack)

lemma np_verify [nps]: "np (opcodeEqualVerify vm)" "np (opcodeNumEqualVerify vm)"
  by (auto simp: opcodeEqualVerify_def opcodeNumEqualVerify_def nps intro!: np_rbind np_abstractVerify)

section \<open>What a run relies on\<close>

text \<open>
  What the caller of the engine provides: the outputs spent by every input, the shared hashes (which
  the taproot verifiers require), and curve operations for which a parsed key can be parsed again.
\<close>

definition provided :: "crypto \<Rightarrow> Engine \<Rightarrow> bool" where
  "provided c vm \<longleftrightarrow> hashCache vm \<noteq> None \<and> txIdx vm < length (MsgTxIn (vm_tx vm))
     \<and> (\<forall>ti\<in>set (MsgTxIn (vm_tx vm)). prevOutFetcher vm (PreviousOutPoint ti) \<noteq> None)
     \<and> (\<forall>b k. schnorr_ParsePubKey c b = Some k \<longrightarrow> schnorr_ParsePubKey c (schnorr_SerializePubKey c k) \<noteq> None)"

text \<open>The script being run and the position of its last code separator.\<close>

definition in_script :: "Engine \<Rightarrow> bool" where
  "in_script vm \<longleftrightarrow> scriptIdx vm < length (scripts vm) \<and> lastCodeSep vm \<le> length (scripts vm ! scriptIdx vm)"

text \<open>
  Signature checks dispatch on the witness program: a program of a later version than 0 is only in
  force once the taproot context is set.
\<close>

definition dispatch :: "Engine \<Rightarrow> bool" where
  "dispatch vm \<longleftrightarrow> (taprootCtx vm = None \<and> witnessProgram vm \<noteq> None \<longrightarrow> witnessVersion vm = 0)
     \<and> (taprootCtx vm \<noteq> None \<longrightarrow> witnessProgram vm \<noteq> None \<and> witnessVersion vm = 1)"

lemma same_frame_provided: "same_frame vm vm' \<Longrightarrow> provided c vm \<Longrightarrow> provided c vm'"
  by (simp add: provided_def same_frame_def)

lemma np_calcSignatureHash: "provided c vm \<Longrightarrow> np (calcSignatureHash c' s ht (vm_tx vm) (txIdx vm))"
  by (simp add: calcSignatureHash_def provided_def Let_def)

lemma np_subScript: "in_script vm \<Longrightarrow> np (subScript vm)"
  by (simp add: subScript_def in_script_def Let_def)

lemma np_encodings [nps]:
  "np (checkHashTypeEncoding vm ht)" "np (checkSignatureEncoding c vm s)" "np (checkPubKeyEncoding vm pk)" "np (parse_or_err p)"
  by (simp_all add: checkHashTypeEncoding_def checkSignatureEncoding_def der_checks_def checkPubKeyEncoding_def parse_or_err_def Let_def
      split: option.split)

lemma np_newBaseSigVerifier: "sig \<noteq> [] \<Longrightarrow> in_script vm \<Longrightarrow> np (newBaseSigVerifier c pk sig vm)"
  by (auto simp: newBaseSigVerifier_def parseBaseSigAndPubkey_def nps np_subScript Let_def intro!: np_rbind)

lemma np_segwit_hashes: "provided c vm \<Longrightarrow> np (segwit_hashes c vm)"
  by (auto simp: segwit_hashes_def provided_def split: option.split)

lemma np_calcWitness [nps]: "np (calcWitnessSignatureHashRaw c s h ht tx i a)"
  by (simp add: calcWitnessSignatureHashRaw_def Let_def)

lemma np_base_Verify: "provided c vm \<Longrightarrow> np (base_Verify c b vm)" "provided c vm \<Longrightarrow> np (segwit_Verify c b vm)"
  using np_calcWitness [unfolded np_def]
  by (auto simp: base_Verify_def segwit_Verify_def np_calcSignatureHash np_segwit_hashes
      intro!: np_rbind split: prod.split sum.split)

lemma np_calcTaproot: "fetch (PreviousOutPoint (MsgTxIn tx ! i)) \<noteq> None \<Longrightarrow> np (calcTaprootSignatureHashRaw c h ht tx i fetch opts)"
  by (auto simp: calcTaprootSignatureHashRaw_def Let_def intro!: np_rbind split: option.split)

lemma np_taproot_Verify:
  assumes "provided c vm"
  shows "np (taproot_Verify c t opts sc (hashCache vm) (vm_tx vm) (txIdx vm) (prevOutFetcher vm))"
proof -
  have "prevOutFetcher vm (PreviousOutPoint (MsgTxIn (vm_tx vm) ! txIdx vm)) \<noteq> None"
    using assms by (simp add: provided_def)
  then have "np (calcTaprootSignatureHashRaw c h ht (vm_tx vm) (txIdx vm) (prevOutFetcher vm) opts)" for h ht
    by (rule np_calcTaproot)
  then show ?thesis using assms by (auto simp: taproot_Verify_def provided_def np_def Let_def split: sum.split)
qed

lemma np_newTaproot [nps]: "np (newTaprootSigVerifier c pk sig)" "np (newBaseTapscriptSigVerifier c pk sig vm)"
  by (auto simp: newTaprootSigVerifier_def newBaseTapscriptSigVerifier_def parseTaprootSigAndPubKey_def nps intro!: np_rbind)

lemma np_tapscript_Verify: "provided c vm \<Longrightarrow> np (tapscript_Verify c t ctx vm)"
  by (auto simp: tapscript_Verify_def np_taproot_Verify Let_def intro!: np_rbind split: option.split)

lemma np_finishCheckSig: "np r \<Longrightarrow> np (finishCheckSig sig r)"
  unfolding finishCheckSig_def by (rule np_rbind) (auto split: prod.split)

lemma np_checkSig_ecdsa:
  assumes "sig \<noteq> []" "in_script vm" "provided c vm" "verify = base_Verify \<or> verify = segwit_Verify"
  shows "np (checkSig_ecdsa c verify pk sig vm)"
  using np_newBaseSigVerifier [OF assms(1,2), of c pk] assms np_base_Verify np_finishCheckSig
  by (auto simp: checkSig_ecdsa_def np_def [of "Inl _"] split: sum.split)

lemma np_charge [nps]: "np (charge sig ctx)"
  by (simp add: charge_def tallysigOp_def Let_def)

section \<open>No handler panics\<close>

definition sig_ready :: "crypto \<Rightarrow> Engine \<Rightarrow> bool" where
  "sig_ready c vm \<longleftrightarrow> provided c vm \<and> in_script vm \<and> dispatch vm"

lemma on_stack_ready: "on_stack k vm vm' \<Longrightarrow> sig_ready c vm \<Longrightarrow> sig_ready c vm'"
  by (elim on_stackE) (simp add: sig_ready_def provided_def in_script_def dispatch_def)

lemma pop_ready: "pop vm = Inr (x, vm') \<Longrightarrow> sig_ready c vm \<Longrightarrow> sig_ready c vm'"
  "popInt vm = Inr (n, vm') \<Longrightarrow> sig_ready c vm \<Longrightarrow> sig_ready c vm'"
  using on_stack_ready [OF pop_on_stack] on_stack_ready [OF popInt_on_stack] by blast+

lemma ready_ctx: "sig_ready c vm \<Longrightarrow> taprootCtx vm = Some ctx \<Longrightarrow> sig_ready c (vm\<lparr>taprootCtx := Some ctx'\<rparr>)"
  by (simp add: sig_ready_def provided_def in_script_def dispatch_def)

lemma ready_provided: "sig_ready c vm \<Longrightarrow> provided c vm" "sig_ready c vm \<Longrightarrow> in_script vm"
  by (simp_all add: sig_ready_def)

lemma np_checkSig_body:
  assumes r: "sig_ready c vm"
  shows "np (if taprootCtx vm = None \<and> length sig < 1 then Inr (pushBool False vm)
       else if witnessProgram vm = None then checkSig_ecdsa c base_Verify pk sig vm
       else if isWitnessVersionActive vm BaseSegwitWitnessVersion then checkSig_ecdsa c segwit_Verify pk sig vm
       else case taprootCtx vm of
         None \<Rightarrow> Inl GoPanic
       | Some ctx \<Rightarrow> rbind (charge sig ctx) (\<lambda>ctx.
           let vm = vm\<lparr>taprootCtx := Some ctx\<rparr> in
           if length pk = 0 then Inl ErrTaprootPubkeyIsEmpty
           else if length sig = 0 then Inr (push [] vm)
           else rbind (newBaseTapscriptSigVerifier c pk sig vm) (\<lambda>t.
             finishCheckSig sig (tapscript_Verify c t ctx vm))))"
proof (cases "taprootCtx vm")
  case None
  then have "witnessProgram vm \<noteq> None \<Longrightarrow> isWitnessVersionActive vm 0"
    using r by (simp add: sig_ready_def dispatch_def isWitnessVersionActive_def)
  then show ?thesis using None np_checkSig_ecdsa [of sig vm c, OF _ ready_provided(2,1) [OF r]] by auto
next
  case (Some ctx)
  have "np (tapscript_Verify c t ctx'' (vm\<lparr>taprootCtx := Some ctx'\<rparr>))" for t ctx' ctx''
    using np_tapscript_Verify ready_provided(1) [OF ready_ctx [OF r Some]] .
  moreover have "witnessProgram vm \<noteq> None" "\<not> isWitnessVersionActive vm 0"
    using Some r by (auto simp: sig_ready_def dispatch_def isWitnessVersionActive_def)
  ultimately show ?thesis using Some by (auto simp: Let_def nps np_finishCheckSig intro!: np_rbind)
qed

lemma np_opcodeCheckSig: "sig_ready c vm \<Longrightarrow> np (opcodeCheckSig c vm)"
  unfolding opcodeCheckSig_def
  by (rule np_rbind, rule nps, unfold split_paired_all prod.case, rule np_rbind, rule nps, unfold split_paired_all prod.case,
      rule np_checkSig_body, erule pop_ready, erule pop_ready)

lemma np_opcodeCheckSigVerify: "sig_ready c vm \<Longrightarrow> np (opcodeCheckSigVerify c vm)"
  unfolding opcodeCheckSigVerify_def by (intro np_rbind np_opcodeCheckSig np_abstractVerify) auto

lemma np_opcodeCheckSigAdd:
  assumes r: "sig_ready c vm"
  shows "np (opcodeCheckSigAdd c vm)"
proof (cases "taprootCtx vm")
  case (Some ctx)
  have body: "np (rbind (charge sig ctx) (\<lambda>ctx.
      let vm = vm3\<lparr>taprootCtx := Some ctx\<rparr> in
      if length pk = 0 then Inl ErrTaprootPubkeyIsEmpty
      else if length sig = 0 then pushInt n vm
      else rbind (newBaseTapscriptSigVerifier c pk sig vm) (\<lambda>t.
        rbind (tapscript_Verify c t ctx vm) (\<lambda>(sigValid, _, vm).
          if \<not> sigValid then Inl ErrNullFail else pushInt (i64 (n + 1)) vm))))"
    if "sig_ready c vm3" "taprootCtx vm3 = Some ctx" "\<bar>n\<bar> < 2 ^ 31" for pk sig n vm3
  proof -
    have "np (tapscript_Verify c t ctx'' (vm3\<lparr>taprootCtx := Some ctx'\<rparr>))" for t ctx' ctx''
      using np_tapscript_Verify ready_provided(1) [OF ready_ctx [OF that(1,2)]] .
    moreover have "- (2 ^ 63) < n" "- (2 ^ 63) < i64 (n + 1)" using that(3) by (simp_all add: small_i64)
    ultimately show ?thesis by (auto simp: Let_def nps intro!: np_rbind np_pushInt)
  qed
  show ?thesis unfolding opcodeCheckSigAdd_def Some option.case
    by (rule np_rbind, rule nps, unfold split_paired_all prod.case, rule np_rbind, rule nps, unfold split_paired_all prod.case,
        rule np_rbind, rule nps, unfold split_paired_all prod.case, rule body)
      (use r Some pop_ready popInt_bound pop_ctx in metis)+
qed (simp add: opcodeCheckSigAdd_def)

lemma np_locktimes:
  "sig_ready c vm \<Longrightarrow> np (opcodeCheckLockTimeVerify vm)" "sig_ready c vm \<Longrightarrow> np (opcodeCheckSequenceVerify vm)"
  by (auto simp: opcodeCheckLockTimeVerify_def opcodeCheckSequenceVerify_def verifyLockTime_def sig_ready_def provided_def nps Let_def
      intro!: np_rbind)

lemma np_multisig_hash: "sig_ready c vm \<Longrightarrow> np (multisig_hash c script ht vm)"
  unfolding multisig_hash_def
  by (rule np_if np_rbind np_segwit_hashes nps np_calcSignatureHash, (erule ready_provided)?)+

lemma np_parse_info [nps]: "np (parse_info c vm info)"
  by (auto simp: parse_info_def nps Let_def intro!: np_rbind)

lemma np_try_key: "sig_ready c vm \<Longrightarrow> np (try_key c script info pk vm)"
  by (auto simp: try_key_def nps np_multisig_hash intro!: np_rbind split: option.split prod.split)

lemma ready_cache [simp]: "sig_ready c (vm\<lparr>sigCache := x\<rparr>) = sig_ready c vm" "sig_ready c (vm\<lparr>numOps := n\<rparr>) = sig_ready c vm"
  by (simp_all add: sig_ready_def provided_def in_script_def dispatch_def)

lemma ecdsa_cached_ready: "ecdsa_cached c' h s p sg k vm = (v, vm') \<Longrightarrow> sig_ready c vm' = sig_ready c vm"
  by (auto simp: ecdsa_cached_def split: option.split_asm if_split_asm)

lemma try_key_ready: "try_key c' script info pk vm = Inr (v, info', vm') \<Longrightarrow> sig_ready c vm \<Longrightarrow> sig_ready c vm'"
  by (auto simp: try_key_def dest!: ecdsa_cached_ready [of _ _ _ _ _ _ _ _ _ c] elim!: rbindE
      split: if_split_asm option.split_asm prod.split_asm)

lemma np_checkMultiSig_loop:
  "sig_ready c vm \<Longrightarrow> ns \<le> length sigs - si \<Longrightarrow> k + n = length keys + 1
   \<Longrightarrow> np (checkMultiSig_loop c script keys n k ns si sigs vm)"
proof (induction n arbitrary: k ns si sigs vm)
  case (Suc n)
  show ?case
  proof (cases "ns = 0 \<or> ns > n")
    case False
    then have idx: "si < length sigs" "k < length keys" using Suc.prems by auto
    have "np (checkMultiSig_loop c script keys n (k + 1) (if v then ns - 1 else ns) (if v then si + 1 else si) (sigs[si := info]) vm1)"
      if "try_key c script (sigs ! si) (keys ! k) vm = Inr (v, info, vm1)" for v info vm1
      using that Suc.prems by (intro Suc.IH try_key_ready [OF that]) auto
    then show ?thesis using False idx np_try_key [OF Suc.prems(1)] by (auto intro!: np_rbind)
  qed auto
qed simp

lemma pop_n_length: "pop_n n vm = Inr (xs, vm') \<Longrightarrow> length xs = n \<and> (sig_ready c vm \<longrightarrow> sig_ready c vm')"
  by (induction n arbitrary: vm xs) (auto elim!: rbindE dest: pop_ready)

lemma np_pop_n [nps]: "np (pop_n n vm)"
  by (induction n arbitrary: vm) (auto simp: nps intro!: np_rbind)

lemma np_remove_sigs [nps]: "np (remove_sigs b sigs script)"
  by (induction b sigs script rule: remove_sigs.induct) (auto split: prod.split)

lemma np_opcodeCheckMultiSig:
  assumes r: "sig_ready c vm"
  shows "np (opcodeCheckMultiSig c vm)"
proof -
  have rdy: "sig_ready c v5 \<and> length ks = n \<and> length sigs = m"
    if "popInt vm = Inr (a, v1)" "pop_n n (v1\<lparr>numOps := k\<rparr>) = Inr (ks, v2)" "popInt v2 = Inr (b, v3)" "pop_n m v3 = Inr (sigs, v4)"
      "pop v4 = Inr (d, v5)" for a v1 n k ks v2 b v3 m sigs v4 d v5
    using pop_ready(2) [OF that(1) r] pop_n_length [OF that(2), of c] pop_ready(2) [OF that(3), of c] pop_n_length [OF that(4), of c]
      pop_ready(1) [OF that(5), of c] by simp
  show ?thesis
    unfolding opcodeCheckMultiSig_def Let_def
    by (rule np_if | rule np_rbind_pair | rule np_rbind | rule nps np_simps np_subScript np_checkMultiSig_loop
        | (frule (4) rdy, auto simp: sig_ready_def; fail) | (simp split: prod.split; fail))+
qed

lemma np_opcodeCheckMultiSigVerify: "sig_ready c vm \<Longrightarrow> np (opcodeCheckMultiSigVerify c vm)"
  unfolding opcodeCheckMultiSigVerify_def by (intro np_rbind np_opcodeCheckMultiSig np_abstractVerify) auto

lemmas np_handlers = nps np_opcodeCheckSig np_opcodeCheckSigVerify np_opcodeCheckSigAdd np_opcodeCheckMultiSig np_opcodeCheckMultiSigVerify
  np_locktimes

lemma np_table: "list_all (\<lambda>(k, h). \<forall>c op data vm. sig_ready c vm \<longrightarrow> np (h c op data vm)) opcodeArray"
  unfolding opcodeArray_def list.pred_inject(2) prod.case
  by (intro conjI allI impI list.pred_inject(1); (rule nps | erule np_handlers))

lemma np_opfunc: "sig_ready c vm \<Longrightarrow> np (opfunc op c op' data vm)"
proof -
  assume r: "sig_ready c vm"
  have "np (h c op' data vm)" if "map_of opcodeArray op = Some h" for h
    using np_table map_of_SomeD [OF that] r by (fastforce simp: list_all_iff)
  then show ?thesis by (auto simp: opfunc_def nps split: option.split)
qed

lemma np_checkMinimalDataPush [nps]: "np (checkMinimalDataPush op data)"
  by (simp add: checkMinimalDataPush_def Let_def)

lemma np_countOp [nps]: "np (countOp op data vm)"
  by (simp add: countOp_def Let_def)

lemma countOp_ready: "countOp op data vm = Inr vm' \<Longrightarrow> sig_ready c vm' = sig_ready c vm"
  by (auto simp: countOp_def Let_def split: if_split_asm)

lemma np_executeOpcode:
  assumes "sig_ready c vm"
  shows "np (executeOpcode c op data vm)"
proof -
  have "np (opfunc op c op data v)" if "countOp op data vm = Inr v" for v
    using np_opfunc countOp_ready [OF that, of c] assms by blast
  then show ?thesis
    by (auto simp: executeOpcode_def nps intro!: np_rbind)
qed

section \<open>The reachable states\<close>

text \<open>The position in the script being run; a fresh script starts outside of any conditional.\<close>

definition at_script :: "Engine \<Rightarrow> bool" where
  "at_script vm \<longleftrightarrow> vm_version vm = 0 \<and> scriptIdx vm < length (scripts vm) \<and> length (scripts vm) \<le> max 2 (scriptIdx vm + 1)
     \<and> tok_script (tokenizer vm) = scripts vm ! scriptIdx vm \<and> tok_err (tokenizer vm) = None
     \<and> tok_offset (tokenizer vm) < length (tok_script (tokenizer vm)) \<and> lastCodeSep vm \<le> tok_offset (tokenizer vm)
     \<and> (tok_offset (tokenizer vm) = 0 \<longrightarrow> condStack vm = [])"

text \<open>A witness program of a later version than 0 that is still to be verified.\<close>

definition pending :: "Engine \<Rightarrow> bool" where
  "pending vm \<longleftrightarrow> taprootCtx vm = None \<and> witnessProgram vm \<noteq> None \<and> witnessVersion vm \<noteq> 0"

lemma pending_update [simp]:
  "pending (vm\<lparr>scriptIdx := i\<rparr>) = pending vm" "pending (vm\<lparr>savedFirstStack := f\<rparr>) = pending vm" "pending (vm\<lparr>dstack := d\<rparr>) = pending vm"
  "pending (vm\<lparr>tokenizer := t\<rparr>) = pending vm" "pending (vm\<lparr>lastCodeSep := n\<rparr>) = pending vm" "pending (vm\<lparr>scripts := ss\<rparr>) = pending vm"
  "pending (vm\<lparr>opcodeIdx := k\<rparr>) = pending vm" "pending (vm\<lparr>numOps := k\<rparr>) = pending vm" "pending (vm\<lparr>astack := d\<rparr>) = pending vm"
  by (simp_all add: pending_def)

definition program_ok :: "Engine \<Rightarrow> bool" where
  "program_ok vm \<longleftrightarrow> (taprootCtx vm \<noteq> None \<longrightarrow> witnessProgram vm \<noteq> None \<and> witnessVersion vm = 1 \<and> scriptIdx vm \<ge> 2 \<and> \<not> bip16 vm)
     \<and> (pending vm \<longrightarrow> scriptIdx vm = 1 \<and> \<not> bip16 vm \<and> isWitnessProgramScript (scripts vm ! 1) \<and> tok_offset (tokenizer vm) \<le> 1)"

text \<open>
  A pay-to-script-hash spend reads the redeem script from the stack saved before the output script; that
  script hashes an item first, so it fails on an empty stack.
\<close>

definition p2sh_ok :: "Engine \<Rightarrow> bool" where
  "p2sh_ok vm \<longleftrightarrow> (bip16 vm \<and> scriptIdx vm \<le> 1 \<longrightarrow> isScriptHashScript (scripts vm ! 1))
     \<and> (bip16 vm \<and> scriptIdx vm = 1 \<longrightarrow>
          (if tok_offset (tokenizer vm) = 0 then stk (dstack vm) = savedFirstStack vm else savedFirstStack vm \<noteq> []))"

definition vm_ok :: "crypto \<Rightarrow> Engine \<Rightarrow> bool" where
  "vm_ok c vm \<longleftrightarrow> provided c vm \<and> at_script vm \<and> program_ok vm \<and> p2sh_ok vm"

lemma Next_offset:
  assumes "Next t = (True, t')"
  shows "tok_offset t' = tok_offset t + length (enc_instr (tok_op t', tok_data t'))" "tok_op t' = tok_script t ! tok_offset t"
proof -
  note n = Next_sound [OF assms]
  have "length (tok_script t) - tok_offset t = length (enc_instr (tok_op t', tok_data t')) + (length (tok_script t) - tok_offset t')"
    using arg_cong [OF n(2), of length] by simp
  then show "tok_offset t' = tok_offset t + length (enc_instr (tok_op t', tok_data t'))" using n(3,4) by linarith
  have "hd (drop (tok_offset t) (tok_script t)) = tok_op t'" unfolding n(2) by (simp add: enc_instr_def)
  then show "tok_op t' = tok_script t ! tok_offset t" using n(3,4) by (simp add: hd_drop_conv_nth)
qed

lemma Next_no_panic: "Next t = (False, t') \<Longrightarrow> tok_err t = None \<Longrightarrow> tok_err t' \<noteq> Some GoPanic"
proof (cases "tok_Done t")
  case False
  assume n: "Next t = (False, t')"
  obtain op rest where "drop (tok_offset t) (tok_script t) = op # rest" using not_Done_drop [OF False] .
  then show ?thesis using n Next_unfold [OF False] by (auto simp: Let_def split: if_split_asm)
qed (simp add: Next_Done)

lemma program_step:
  assumes "isWitnessProgramScript s" "tok_script t = s" "tok_offset t \<le> 1" "Next t = (True, t')"
  shows "(IsSmallInt (tok_op t') \<or> OP_DATA_1 \<le> tok_op t' \<and> tok_op t' \<le> OP_DATA_75) \<and> (tok_offset t' \<le> 1 \<or> tok_offset t' = length s)"
proof -
  obtain v prog where "extractWitnessProgramInfo s = (v, prog, True)"
    using assms(1) by (cases "extractWitnessProgramInfo s") (simp add: isWitnessProgramScript_def)
  from witness_program_sound [OF this] obtain op where
    s: "IsSmallInt op" "2 \<le> length prog" "length prog \<le> 40" "s = op # of_nat (length prog) # prog" .
  note n = Next_offset [OF assms(4)]
  have wf: "wf_instr (tok_op t', tok_data t')" by (rule Next_sound(1) [OF assms(4)])
  consider "tok_offset t = 0" | "tok_offset t = 1" using assms(3) by linarith
  then show ?thesis
  proof cases
    case 1
    then have o: "tok_op t' = op" using n(2) assms(2) s(4) by simp
    have "\<not> (OP_DATA_1 \<le> op \<and> op \<le> OP_DATA_75)" "op \<noteq> OP_PUSHDATA1" "op \<noteq> OP_PUSHDATA2" "op \<noteq> OP_PUSHDATA4"
      using s(1) by (auto simp: IsSmallInt_def) (simp add: word_le_nat_alt)
    then have "length (enc_instr (tok_op t', tok_data t')) = 1"
      using wf o by (auto simp: wf_instr_def enc_instr_def len_width_def split: if_split_asm)
    then show ?thesis using n(1) 1 o s(1) by simp
  next
    case 2
    then have o: "tok_op t' = of_nat (length prog)" using n(2) assms(2) s(4) by simp
    have u: "unat (of_nat (length prog) :: u8) = length prog" using s(3) by (simp add: unat_of_nat_u8)
    then have d: "OP_DATA_1 \<le> tok_op t'" "tok_op t' \<le> OP_DATA_75" using s(2,3) by (simp_all add: o word_le_nat_alt)
    then have "length (enc_instr (tok_op t', tok_data t')) = 1 + length prog"
      using wf u o by (auto simp: wf_instr_def enc_instr_def len_width_def)
    then show ?thesis using n(1) 2 d s(4) by simp
  qed
qed

lemma np_push_ops:
  assumes "IsSmallInt op \<or> OP_DATA_1 \<le> op \<and> op \<le> OP_DATA_75"
  shows "np (executeOpcode c op data vm)"
proof -
  have "map_of opcodeArray OP_FALSE = Some (\<lambda>c op data vm. opcodeFalse vm)" by (simp add: opcodeArray_def)
  then have "np (opfunc op c op data v)" for v
    using assms by (auto simp: opfunc_def IsSmallInt_def nps split: option.split)
  then show ?thesis by (auto simp: executeOpcode_def nps intro!: np_rbind)
qed

lemma tokens_no_panic: "tok_err t = None \<Longrightarrow> tok_err (snd (tokens t)) \<noteq> Some GoPanic"
proof (induction t rule: tokens.induct)
  case (1 t)
  show ?case
  proof (cases "Next t")
    case (Pair ok t')
    show ?thesis
    proof (cases ok)
      case True
      then have "Next t = (True, t')" using Pair by simp
      then show ?thesis using "1.IH" Next_sound(8) tokens_True by fastforce
    next
      case False
      then show ?thesis using Pair Next_no_panic [of t t'] "1.prems" by (simp add: tokens_False)
    qed
  qed
qed

lemma np_checkScriptParses [nps]: "np (checkScriptParses 0 script)"
  using tokens_no_panic [of "MakeScriptTokenizer 0 script"]
  by (auto simp: checkScriptParses_def split: option.split)

lemma pay_pkh_ok: "length h = 20 \<Longrightarrow> snd (payToPubKeyHashScript h) = None"
  by (simp add: payToPubKeyHashScript_def NewScriptBuilder_def AddOp_def AddData_def addData_def canonicalDataSize_def bld_Script_def
      MaxScriptSize_def MaxScriptElementSize_def Let_def)

lemma np_witness_limits [nps]: "np (witness_limits vm)"
  by (simp add: witness_limits_def)

lemma np_verify_v0: "vm_version vm = 0 \<Longrightarrow> np (verify_v0 c program witness vm)"
  using pay_pkh_ok [of program]
  by (auto simp: verify_v0_def nps append_script_def Let_def intro!: np_rbind split: prod.split option.split)

lemma np_keySpend: "provided c vm \<Longrightarrow> np (VerifyTaprootKeySpend c p s (vm_tx vm) (txIdx vm) (prevOutFetcher vm) (hashCache vm) sc)"
  using np_taproot_Verify [of c vm]
  by (auto simp: VerifyTaprootKeySpend_def provided_def nps Let_def intro!: np_rbind)

lemma np_commitment:
  assumes "provided c vm" "ParseControlBlock c b = Inr cb"
  shows "np (VerifyTaprootLeafCommitment c cb p s)"
proof -
  have "schnorr_ParsePubKey c (schnorr_SerializePubKey c (InternalKey cb)) \<noteq> None"
    using assms by (auto simp: ParseControlBlock_def parse_or_err_def provided_def elim!: rbindE split: if_split_asm option.split_asm)
  then show ?thesis
    by (auto simp: VerifyTaprootLeafCommitment_def ComputeTaprootOutputKey_def Let_def intro!: np_rbind split: option.split)
qed

lemma np_ParseControlBlock [nps]: "np (ParseControlBlock c b)"
  by (auto simp: ParseControlBlock_def nps intro!: np_rbind)

lemma np_verify_tapscript:
  assumes "provided c vm" "vm_version vm = 0" "length witness \<ge> 2"
  shows "np (verify_tapscript c p witness ctx vm)"
  using assms np_commitment [OF assms(1)]
  by (auto simp: verify_tapscript_def nps Let_def intro!: np_rbind)

lemma np_verify_v1:
  assumes "provided c vm" "vm_version vm = 0"
  shows "np (verify_v1 c p witness vm)"
proof -
  have two: "2 \<le> length w" if "w \<noteq> []" "length w \<noteq> 1" for w :: "bytes list" using that by (cases w) (auto simp: Suc_le_eq)
  show ?thesis using assms np_keySpend [OF assms(1)] np_verify_tapscript [OF assms] two
    by (auto simp: verify_v1_def isAnnexedWitness_def Let_def intro!: np_rbind np_if)
qed

lemma np_verifyWitnessProgram: "provided c vm \<Longrightarrow> vm_version vm = 0 \<Longrightarrow> np (verifyWitnessProgram c witness vm)"
  by (auto simp: verifyWitnessProgram_def np_verify_v0 np_verify_v1 nps split: option.split)

lemma np_CheckErrorCondition [nps]: "np (CheckErrorCondition vm f)"
  by (auto simp: CheckErrorCondition_def Let_def nps intro!: np_rbind split: option.split)

lemma np_nextScript:
  assumes "provided c vm" "vm_version vm = 0" "bip16 vm \<and> scriptIdx vm = 1 \<longrightarrow> savedFirstStack vm \<noteq> []"
  shows "np (nextScript c vm)"
proof -
  have p: "provided c (vm\<lparr>scriptIdx := n\<rparr>)" for n using assms(1) by (simp add: provided_def)
  have k: "savedFirstStack v = savedFirstStack vm \<and> vm_version v = 0"
    if "CheckErrorCondition (vm\<lparr>scriptIdx := n\<rparr>) False = Inr v" for n v
    using CheckErrorCondition_keeps [OF that] assms(2) by auto
  show ?thesis using assms p k np_verifyWitnessProgram [OF p]
    by (auto simp: nextScript_def provided_def nps Let_def intro!: np_rbind)
qed

section \<open>A step keeps the invariant\<close>

lemma same_frame_config: "steps k vm vm' \<Longrightarrow> same_config vm vm'"
  by (simp add: steps_def moves_def same_frame_def same_config_def)

lemma same_config_provided: "same_config vm vm' \<Longrightarrow> provided c vm \<Longrightarrow> provided c vm'"
  by (simp add: provided_def same_config_def)

lemma same_ctx_None: "same_ctx vm vm' \<Longrightarrow> taprootCtx vm' = None \<longleftrightarrow> taprootCtx vm = None"
  by (cases "taprootCtx vm"; cases "taprootCtx vm'") (simp_all add: same_ctx_def)

lemma hash160_needs_item:
  assumes "executeOpcode c OP_HASH160 data vm = Inr vm'" "condStack vm = []"
  shows "stk (dstack vm) \<noteq> []"
proof
  assume e: "stk (dstack vm) = []"
  have "opfunc OP_HASH160 = (\<lambda>c op data vm. opcodeHash160 c vm)" by (simp add: opfunc_def opcodeArray_def)
  then obtain vm1 where "countOp OP_HASH160 data vm = Inr vm1" "opcodeHash160 c vm1 = Inr vm'"
    using assms by (auto simp: executeOpcode_def isBranchExecuting_def countOp_def Let_def elim!: rbindE split: if_split_asm)
  moreover have "stk (dstack vm1) = []" using calculation(1) e by (auto simp: countOp_def Let_def split: if_split_asm)
  ultimately show False
    by (auto simp: opcodeHash160_def hash_op_def pop_def PopByteArray_def nipN_def elim!: rbindE)
qed

text \<open>The state between an opcode and the change to the next script.\<close>

definition mid_ok :: "crypto \<Rightarrow> Engine \<Rightarrow> bool" where
  "mid_ok c vm \<longleftrightarrow> provided c vm \<and> vm_version vm = 0 \<and> scriptIdx vm < length (scripts vm)
     \<and> length (scripts vm) \<le> max 2 (scriptIdx vm + 1)
     \<and> (taprootCtx vm \<noteq> None \<longrightarrow> witnessProgram vm \<noteq> None \<and> witnessVersion vm = 1 \<and> scriptIdx vm \<ge> 2 \<and> \<not> bip16 vm)
     \<and> (pending vm \<longrightarrow> scriptIdx vm = 1 \<and> \<not> bip16 vm)
     \<and> (bip16 vm \<and> scriptIdx vm \<le> 1 \<longrightarrow> isScriptHashScript (scripts vm ! 1))
     \<and> (bip16 vm \<and> scriptIdx vm = 1 \<longrightarrow> savedFirstStack vm \<noteq> [])"

lemma np_phase:
  assumes ok: "vm_ok c vm" and n: "Next (tokenizer vm) = (True, t)"
  shows "np (executeOpcode c (tok_op t) (tok_data t) (vm\<lparr>tokenizer := t\<rparr>))"
proof (cases "pending vm")
  case True
  then have "isWitnessProgramScript (tok_script (tokenizer vm))" "tok_offset (tokenizer vm) \<le> 1"
    using ok by (auto simp: vm_ok_def program_ok_def at_script_def)
  then show ?thesis using np_push_ops program_step [OF _ refl _ n] by blast
next
  case False
  moreover have "program_ok vm" using ok by (simp add: vm_ok_def)
  ultimately have "dispatch (vm\<lparr>tokenizer := t\<rparr>)"
    by (cases "taprootCtx vm") (simp_all add: dispatch_def program_ok_def pending_def disj_imp)
  moreover have "in_script (vm\<lparr>tokenizer := t\<rparr>)" using ok by (auto simp: vm_ok_def in_script_def at_script_def)
  moreover have "provided c (vm\<lparr>tokenizer := t\<rparr>)" using ok by (simp add: vm_ok_def provided_def)
  ultimately show ?thesis by (intro np_executeOpcode) (simp add: sig_ready_def)
qed

lemma phase_ok:
  assumes ok: "vm_ok c vm" and n: "Next (tokenizer vm) = (True, t)"
    and e: "executeOpcode c (tok_op t) (tok_data t) (vm\<lparr>tokenizer := t\<rparr>) = Inr vm1"
  shows "mid_ok c vm1" "tokenizer vm1 = t" "\<not> tok_Done t \<Longrightarrow> vm_ok c (vm1\<lparr>opcodeIdx := k\<rparr>)"
proof -
  note s = executeOpcode_steps [OF e]
  have f: "scripts vm1 = scripts vm" "scriptIdx vm1 = scriptIdx vm" "tokenizer vm1 = t" "bip16 vm1 = bip16 vm"
    "vm_version vm1 = vm_version vm" "savedFirstStack vm1 = savedFirstStack vm" "witnessProgram vm1 = witnessProgram vm"
    "witnessVersion vm1 = witnessVersion vm" "lastCodeSep vm1 = lastCodeSep vm \<or> lastCodeSep vm1 = tok_offset t"
    and ctx: "taprootCtx vm1 = None \<longleftrightarrow> taprootCtx vm = None"
    using s same_ctx_None [of "vm\<lparr>tokenizer := t\<rparr>" "vm1\<lparr>condStack := condStack vm\<rparr>"]
    by (simp_all add: steps_def moves_def same_frame_def)
  have pn: "pending vm1 = pending vm" using f ctx by (simp add: pending_def)
  have "provided c (vm\<lparr>tokenizer := t\<rparr>)" using ok by (simp add: vm_ok_def provided_def)
  note pr = same_config_provided [OF same_frame_config [OF s] this]
  note nt = Next_sound(3-5,8) [OF n]
  have saved: "savedFirstStack vm \<noteq> []" if "bip16 vm" "scriptIdx vm = 1"
  proof (cases "tok_offset (tokenizer vm) = 0")
    case True
    have "tok_op t = OP_HASH160"
      using ok that True Next_offset(2) [OF n]
      by (auto simp: vm_ok_def p2sh_ok_def at_script_def isScriptHashScript_def extractScriptHash_def split: if_split_asm)
    then have "stk (dstack vm) \<noteq> []"
      using hash160_needs_item [of c "tok_data t" "vm\<lparr>tokenizer := t\<rparr>" vm1] e ok True by (simp add: vm_ok_def at_script_def)
    then show ?thesis using ok that True by (simp add: vm_ok_def p2sh_ok_def)
  qed (use ok that in \<open>simp add: vm_ok_def p2sh_ok_def\<close>)
  show "mid_ok c vm1"
    using ok saved pr pn f ctx unfolding vm_ok_def mid_ok_def at_script_def program_ok_def p2sh_ok_def by simp
  show "tokenizer vm1 = t" by (rule f(3))
  assume d: "\<not> tok_Done t"
  have "tok_offset t \<le> 1" if "pending vm"
    using program_step [OF _ refl _ n] that ok d nt
    by (auto simp: vm_ok_def program_ok_def at_script_def tok_Done_def)
  then have "program_ok (vm1\<lparr>opcodeIdx := k\<rparr>)"
    using ok pn f ctx by (simp add: vm_ok_def program_ok_def pending_def)
  moreover have "at_script (vm1\<lparr>opcodeIdx := k\<rparr>)"
    using ok f nt d by (auto simp: vm_ok_def at_script_def tok_Done_def)
  moreover have "p2sh_ok (vm1\<lparr>opcodeIdx := k\<rparr>)"
    using ok saved f nt by (simp add: vm_ok_def p2sh_ok_def)
  ultimately show "vm_ok c (vm1\<lparr>opcodeIdx := k\<rparr>)"
    using pr by (simp add: vm_ok_def provided_def)
qed

lemma verifyWitnessProgram_program:
  assumes "verifyWitnessProgram c w vm = Inr vm'" "taprootCtx vm = None"
  shows "(taprootCtx vm' \<noteq> None \<longrightarrow> witnessProgram vm' \<noteq> None \<and> witnessVersion vm' = 1 \<and> \<not> bip16 vm)
    \<and> (pending vm' \<longrightarrow> scripts vm' = scripts vm)"
proof -
  have v0_keeps: "taprootCtx vm' = taprootCtx vm \<and> witnessVersion vm' = witnessVersion vm" if "verify_v0 c p w vm = Inr vm'" for p
    using that by (auto simp: verify_v0_def append_script_def Let_def elim!: rbindE dest!: witness_limits_Inr
        split: if_split_asm prod.split_asm option.split_asm)
  have v1_keeps: "witnessProgram vm' = witnessProgram vm \<and> witnessVersion vm' = witnessVersion vm \<and> (taprootCtx vm' = None \<longrightarrow> vm' = vm)"
    if "verify_v1 c p w vm = Inr vm'" for p
    using that by (elim verify_v1_cases verify_tapscript_cases) (simp_all add: must_succeed_def append_script_def)
  consider (v0) p where "witnessVersion vm = 0" "verify_v0 c p w vm = Inr vm'"
    | (v1) p where "witnessProgram vm = Some p" "witnessVersion vm = 1" "\<not> bip16 vm" "verify_v1 c p w vm = Inr vm'"
    | (other) "vm' = vm\<lparr>witnessProgram := None\<rparr> \<or> witnessProgram vm = None \<and> vm' = vm"
    using assms(1) unfolding verifyWitnessProgram_def
    by (cases "witnessProgram vm") (auto dest!: witness_limits_Inr split: if_split_asm)
  then show ?thesis
  proof cases
    case v0
    then show ?thesis using v0_keeps assms(2) by (simp add: pending_def)
  next
    case v1
    then show ?thesis using v1_keeps [OF v1(4)] by (auto simp: pending_def)
  next
    case other
    then show ?thesis using assms(2) by (auto simp: pending_def)
  qed
qed

lemma next_mid:
  assumes ok: "mid_ok c vm" and n: "nextScript c vm = Inr vm'"
  shows "provided c vm' \<and> vm_version vm' = 0 \<and> length (scripts vm') \<le> scriptIdx vm' + 1"
    and "taprootCtx vm' \<noteq> None \<longrightarrow> witnessProgram vm' \<noteq> None \<and> witnessVersion vm' = 1 \<and> scriptIdx vm' \<ge> 2 \<and> \<not> bip16 vm'"
    and "pending vm' \<longrightarrow> scriptIdx vm' \<ge> length (scripts vm')"
    and "bip16 vm' \<and> scriptIdx vm' \<le> 1 \<longrightarrow> isScriptHashScript (scripts vm' ! 1) \<and> stk (dstack vm') = savedFirstStack vm'"
proof -
  note nx = nextScript_next [OF n]
  have "same_config vm vm'" using nx by (simp add: next_ok_def)
  then show "provided c vm' \<and> vm_version vm' = 0 \<and> length (scripts vm') \<le> scriptIdx vm' + 1"
  proof (intro conjI)
    show "provided c vm'" using ok same_config_provided [OF \<open>same_config vm vm'\<close>] by (simp add: mid_ok_def)
    show "vm_version vm' = 0" using ok \<open>same_config vm vm'\<close> by (simp add: mid_ok_def same_config_def)
    have "length (scripts vm) \<le> max 2 (scriptIdx vm + 1)" using ok by (simp add: mid_ok_def)
    then show "length (scripts vm') \<le> scriptIdx vm' + 1" using nx by (auto split: if_split_asm)
  qed
  have ctx: "taprootCtx vm = None" if "scriptIdx vm = 1 \<or> bip16 vm" using ok that by (auto simp: mid_ok_def)
  have pn: "\<not> pending vm" if "scriptIdx vm \<noteq> 1 \<or> bip16 vm" using ok that by (auto simp: mid_ok_def)
  have len: "length (scripts vm) \<le> 2" if "scriptIdx vm = 1" using ok that by (simp add: mid_ok_def)
  show "taprootCtx vm' \<noteq> None \<longrightarrow> witnessProgram vm' \<noteq> None \<and> witnessVersion vm' = 1 \<and> scriptIdx vm' \<ge> 2 \<and> \<not> bip16 vm'"
    using n
  proof (cases rule: nextScript_cases)
    case (witness w)
    have "taprootCtx (vm\<lparr>scriptIdx := scriptIdx vm + 1\<rparr>) = None" using ctx witness(1) by auto
    from verifyWitnessProgram_program [OF witness(3) this] nx witness(1) \<open>same_config vm vm'\<close>
    show ?thesis by (auto simp: same_config_def)
  next
    case plain
    have "taprootCtx vm \<noteq> None \<longrightarrow> witnessProgram vm \<noteq> None \<and> witnessVersion vm = 1 \<and> scriptIdx vm \<ge> 2 \<and> \<not> bip16 vm"
      using ok by (simp add: mid_ok_def)
    then show ?thesis using plain(3) by auto
  qed (simp_all add: append_script_def ctx)
  show "pending vm' \<longrightarrow> scriptIdx vm' \<ge> length (scripts vm')"
    using n
  proof (cases rule: nextScript_cases)
    case (witness w)
    have "taprootCtx (vm\<lparr>scriptIdx := scriptIdx vm + 1\<rparr>) = None" using ctx witness(1) by auto
    note p = verifyWitnessProgram_program [OF witness(3) this]
    have "length (scripts vm) \<le> max 2 (scriptIdx vm + 1)" using ok by (simp add: mid_ok_def)
    then have "length (scripts vm) \<le> scriptIdx vm + 1" using witness(1) by auto
    then show ?thesis using p nx by simp
  next
    case plain
    then have "pending vm' = pending vm" by simp
    then show ?thesis using pn plain(1) by (auto simp: pending_def)
  next
    case first
    then show ?thesis using pn by simp
  next
    case redeem
    then show ?thesis using pn by (simp add: append_script_def)
  qed
  show "bip16 vm' \<and> scriptIdx vm' \<le> 1 \<longrightarrow> isScriptHashScript (scripts vm' ! 1) \<and> stk (dstack vm') = savedFirstStack vm'"
    using n
  proof (cases rule: nextScript_cases)
    case (witness w)
    then show ?thesis using nx by auto
  next
    case first
    then show ?thesis using ok by (simp add: mid_ok_def)
  next
    case redeem
    then show ?thesis by (simp add: append_script_def)
  next
    case plain
    then show ?thesis by (cases "scriptIdx vm = 0") simp_all
  qed
qed

lemma endScript_False:
  assumes "endScript c vm = Inr (False, vm')" "vm_version vm = 0" "length (scripts vm) \<le> max 2 (scriptIdx vm + 1)"
  obtains v where "condStack vm = []" "nextScript c (vm\<lparr>astack := (astack vm)\<lparr>stk := []\<rparr>, numOps := 0, opcodeIdx := 0\<rparr>) = Inr v"
    "vm' = v\<lparr>lastCodeSep := 0, tokenizer := MakeScriptTokenizer 0 (scripts v ! scriptIdx v)\<rparr>"
    "scriptIdx v = scriptIdx vm + 1" "at_script vm'"
proof -
  let ?v = "vm\<lparr>astack := (astack vm)\<lparr>stk := []\<rparr>, numOps := 0, opcodeIdx := 0\<rparr>"
  have len: "vm_version v = 0 \<and> length (scripts v) \<le> scriptIdx v + 1 \<and> scriptIdx v = scriptIdx vm + 1" if "nextScript c ?v = Inr v" for v
    using nextScript_next [OF that] assms(2,3) by (auto simp: next_ok_def same_config_def split: if_split_asm)
  obtain v where v: "condStack vm = []" "nextScript c ?v = Inr v"
    and r: "vm' = v\<lparr>lastCodeSep := 0, tokenizer := MakeScriptTokenizer 0 (scripts v ! scriptIdx v)\<rparr>"
      "scriptIdx v < length (scripts v)" "scripts v ! scriptIdx v \<noteq> []"
    using assms(1) len by (auto simp: endScript_def drop_all_stack Let_def elim!: rbindE split: if_split_asm)
  have "condStack v = []" using nextScript_next [OF v(2)] v(1) by (simp add: next_ok_def)
  moreover have "length (scripts v) \<le> max 2 (scriptIdx v + 1)" using len [OF v(2)] by linarith
  ultimately have "at_script vm'" unfolding r(1) using len [OF v(2)] r(2,3) by (simp add: at_script_def)
  then show thesis using that v r(1) len [OF v(2)] by blast
qed

lemma endScript_ok:
  assumes ok: "mid_ok c vm"
  shows "np (endScript c vm)" and "endScript c vm = Inr (False, vm') \<Longrightarrow> vm_ok c vm'"
proof -
  let ?v = "vm\<lparr>astack := (astack vm)\<lparr>stk := []\<rparr>, numOps := 0, opcodeIdx := 0\<rparr>"
  have m: "mid_ok c ?v" using ok by (simp add: mid_ok_def provided_def pending_def)
  then have "np (nextScript c ?v)" by (intro np_nextScript) (simp_all add: mid_ok_def)
  then show "np (endScript c vm)"
    unfolding endScript_def Let_def drop_all_stack by (auto intro!: np_rbind)
  assume e: "endScript c vm = Inr (False, vm')"
  have "vm_version vm = 0" "length (scripts vm) \<le> max 2 (scriptIdx vm + 1)" using ok by (simp_all add: mid_ok_def)
  with e obtain v where v: "nextScript c ?v = Inr v" and "at_script vm'"
    and r: "vm' = v\<lparr>lastCodeSep := 0, tokenizer := MakeScriptTokenizer 0 (scripts v ! scriptIdx v)\<rparr>"
    by (rule endScript_False)
  note n = next_mid [OF m v]
  note \<open>at_script vm'\<close>
  moreover have "\<not> pending v" using n(3) calculation by (auto simp: r at_script_def)
  then have "program_ok vm'" unfolding r using n(2) by (simp add: program_ok_def)
  moreover have "p2sh_ok vm'" unfolding r using n(4) by (simp add: p2sh_ok_def)
  ultimately show "vm_ok c vm'" using n(1) unfolding r by (simp add: vm_ok_def provided_def)
qed

lemma Step_ok:
  assumes ok: "vm_ok c vm"
  shows "np (Step c vm)" and "Step c vm = Inr (False, vm') \<Longrightarrow> vm_ok c vm'"
proof -
  obtain b t where n: "Next (tokenizer vm) = (b, t)" by (cases "Next (tokenizer vm)")
  have e: "tok_err (tokenizer vm) = None" "scriptIdx vm < length (scripts vm)" using ok by (auto simp: vm_ok_def at_script_def)
  have mid: "mid_ok c (vm1\<lparr>opcodeIdx := k\<rparr>)" if "mid_ok c vm1" for vm1 k
    using that by (simp add: mid_ok_def provided_def pending_def)
  have "np (Step c vm) \<and> (Step c vm = Inr (False, vm') \<longrightarrow> vm_ok c vm')"
  proof (cases b)
    case False
    then show ?thesis using n e Next_no_panic [of "tokenizer vm" t] by (auto simp: Step_def split: option.split)
  next
    case True
    then have n: "Next (tokenizer vm) = (True, t)" using n by simp
    have s: "Step c vm = rbind (executeOpcode c (tok_op t) (tok_data t) (vm\<lparr>tokenizer := t\<rparr>)) (\<lambda>vm.
        if Depth (dstack vm) + Depth (astack vm) > int MaxStackSize then Inl ErrStackOverflow
        else if tok_Done (tokenizer vm) then endScript c (vm\<lparr>opcodeIdx := opcodeIdx vm + 1\<rparr>)
        else Inr (False, vm\<lparr>opcodeIdx := opcodeIdx vm + 1\<rparr>))"
      unfolding Step_def Let_def using e n by (simp cong: if_cong)
    have "np (Step c vm)"
      unfolding s using np_phase [OF ok n] endScript_ok(1) [OF mid [OF phase_ok(1) [OF ok n]]]
      by (auto intro!: np_rbind)
    moreover have "vm_ok c vm'" if "Step c vm = Inr (False, vm')"
      using that phase_ok(2,3) [OF ok n] endScript_ok(2) [OF mid [OF phase_ok(1) [OF ok n]]] unfolding s
      by (auto elim!: rbindE split: if_split_asm)
    ultimately show ?thesis by blast
  qed
  then show "np (Step c vm)" "Step c vm = Inr (False, vm') \<Longrightarrow> vm_ok c vm'" by blast+
qed

lemma np_exec_loop: "vm_ok c vm \<Longrightarrow> np (exec_loop c vm)"
proof (induction c vm rule: exec_loop.induct)
  case (1 c vm)
  show ?case
    unfolding exec_loop.simps [of c vm]
    using Step_ok [OF "1.prems"] "1.IH" by (auto intro!: np_rbind)
qed

section \<open>A new engine\<close>

lemma check_scripts_Inr: "check_scripts scrs = Inr () \<longleftrightarrow> (\<forall>s\<in>set scrs. length s \<le> MaxScriptSize \<and> checkScriptParses 0 s = Inr ())"
  by (induction scrs) (auto elim!: rbindE)

lemma witness_mode_Inr:
  assumes "witness_mode scriptSig scriptPubKey w vm = Inr vm'"
  obtains (none) "vm' = vm"
  | (native) version program where "scriptSig = []" "isWitnessProgramScript scriptPubKey"
      "vm' = vm\<lparr>witnessVersion := version, witnessProgram := Some program\<rparr>"
  | (nested) version program where "bip16 vm" "isWitnessProgramScript (drop 1 scriptSig)"
      "vm' = vm\<lparr>witnessVersion := version, witnessProgram := Some program\<rparr>"
proof (cases "hasFlag vm ScriptVerifyWitness")
  case False
  then show thesis using assms none by (simp add: witness_mode_def)
next
  case True
  let ?native = "isWitnessProgramScript scriptPubKey"
  let ?nested = "length scriptSig > 2 \<and> isCanonicalPush (scriptSig ! 0) (drop 1 scriptSig) \<and> isWitnessProgramScript (drop 1 scriptSig)"
  have "hasFlag vm ScriptBip16" using assms True by (cases "hasFlag vm ScriptBip16") (simp_all add: witness_mode_def)
  then obtain wp where sel: "(if ?native then (if length scriptSig \<noteq> 0 then Inl ErrWitnessMalleated else Inr (Some scriptPubKey))
      else if length w \<noteq> 0 \<and> bip16 vm then (if ?nested then Inr (Some (drop 1 scriptSig)) else Inl ErrWitnessMalleatedP2SH)
      else Inr None) = Inr wp"
    and use: "(case wp of Some prog \<Rightarrow> rbind (ExtractWitnessProgramInfo prog) (\<lambda>(version, program).
            Inr (vm\<lparr>witnessVersion := version, witnessProgram := Some program\<rparr>))
        | None \<Rightarrow> if length w \<noteq> 0 then Inl ErrWitnessUnexpected else Inr vm) = Inr vm'"
    using assms True unfolding witness_mode_def by (simp only: not_True_eq_False if_False) (elim rbindE)
  show thesis
  proof (cases wp)
    case None
    then show thesis using use none by (simp split: if_split_asm)
  next
    case (Some prog)
    then obtain version program where v: "vm' = vm\<lparr>witnessVersion := version, witnessProgram := Some program\<rparr>"
      using use by (auto elim!: rbindE)
    show thesis
    proof (cases ?native)
      case True
      then have "scriptSig = []" using sel by (simp split: if_split_asm)
      then show thesis using native True v by blast
    next
      case False
      then have "bip16 vm" "isWitnessProgramScript (drop 1 scriptSig)"
        using sel Some by (simp_all split: if_split_asm)
      then show thesis using nested v by blast
    qed
  qed
qed

lemma NewEngine_cases:
  assumes "NewEngine scriptPubKey tx idx fl sc hc amt fetch = Inr vm"
  obtains scriptSig p2sh vm0 vm1 where "0 \<le> idx" "nat idx < length (MsgTxIn tx)" "scriptSig = SignatureScript (MsgTxIn tx ! nat idx)"
    "scriptSig \<noteq> [] \<or> scriptPubKey \<noteq> []" "p2sh \<longrightarrow> isScriptHashScript scriptPubKey \<and> IsPushOnlyScript scriptSig"
    "check_scripts [scriptSig, scriptPubKey] = Inr ()"
    "vm0 = (emptyEngine fl tx (nat idx) sc hc amt fetch)\<lparr>bip16 := p2sh, scripts := [scriptSig, scriptPubKey],
       scriptIdx := (if length scriptSig = 0 then 1 else 0),
       dstack := \<lparr>stk = [], verifyMinimalData = hasFlag vm0 ScriptVerifyMinimalData\<rparr>,
       astack := \<lparr>stk = [], verifyMinimalData = hasFlag vm0 ScriptVerifyMinimalData\<rparr>\<rparr>"
    "witness_mode scriptSig scriptPubKey (Witness (MsgTxIn tx ! nat idx)) vm0 = Inr vm1"
    "vm = vm1\<lparr>tokenizer := MakeScriptTokenizer 0 (scripts vm1 ! scriptIdx vm1)\<rparr>"
proof -
  let ?sig = "SignatureScript (MsgTxIn tx ! nat idx)" and ?e = "emptyEngine fl tx (nat idx) sc hc amt fetch"
  let ?p = "hasFlag ?e ScriptBip16 \<and> isScriptHashScript scriptPubKey"
  let ?b = "?e\<lparr>bip16 := ?p, scripts := [?sig, scriptPubKey], scriptIdx := (if length ?sig = 0 then 1 else 0)\<rparr>"
  let ?v = "if hasFlag ?b ScriptVerifyMinimalData
     then ?b\<lparr>dstack := (dstack ?b)\<lparr>verifyMinimalData := True\<rparr>, astack := (astack ?b)\<lparr>verifyMinimalData := True\<rparr>\<rparr> else ?b"
  have guard: "\<not> b \<and> r = Inr x" if "(if b then Inl e else r) = Inr x" for b e and r :: "Engine res" and x
    using that by (simp split: if_split_asm)
  note g1 = guard [OF assms [unfolded NewEngine_def Let_def]]
  note g2 = guard [OF conjunct2 [OF g1]]
  note g3 = guard [OF conjunct2 [OF g2]]
  note g4 = guard [OF conjunct2 [OF g3]]
  note g5 = guard [OF conjunct2 [OF g4]]
  obtain vm1 where r: "check_scripts [?sig, scriptPubKey] = Inr ()"
    "witness_mode ?sig scriptPubKey (Witness (MsgTxIn tx ! nat idx)) ?v = Inr vm1"
    "vm = vm1\<lparr>tokenizer := MakeScriptTokenizer 0 (scripts vm1 ! scriptIdx vm1)\<rparr>"
    using conjunct2 [OF g5] by (elim rbindE) simp
  show thesis
  proof (rule that [of ?sig ?p ?v vm1])
    show "?v = ?e\<lparr>bip16 := ?p, scripts := [?sig, scriptPubKey], scriptIdx := (if length ?sig = 0 then 1 else 0),
       dstack := \<lparr>stk = [], verifyMinimalData = hasFlag ?v ScriptVerifyMinimalData\<rparr>,
       astack := \<lparr>stk = [], verifyMinimalData = hasFlag ?v ScriptVerifyMinimalData\<rparr>\<rparr>"
      by (simp add: emptyEngine_def hasFlag_def)
  qed (use r g1 g2 g3 g4 g5 in auto)
qed

text \<open>Where a new engine stands, whatever the caller provides.\<close>

lemma NewEngine_start:
  assumes "NewEngine scriptPubKey tx idx fl sc hc amt fetch = Inr vm"
  shows "at_script vm" "p2sh_ok vm" "taprootCtx vm = None" "condStack vm = []" "numOps vm = 0" "tok_offset (tokenizer vm) = 0"
    "stk (dstack vm) = []" "stk (astack vm) = []" "vm_tx vm = tx" "txIdx vm < length (MsgTxIn tx)" "hashCache vm = hc" "prevOutFetcher vm = fetch"
    "\<not> (bip16 vm \<and> pending vm) \<Longrightarrow> program_ok vm"
    "scriptPubKey \<noteq> [] \<Longrightarrow> scripts vm ! 1 = scriptPubKey"
proof -
  obtain scriptSig p2sh vm0 vm1 where e: "0 \<le> idx" "nat idx < length (MsgTxIn tx)" "scriptSig \<noteq> [] \<or> scriptPubKey \<noteq> []"
    "p2sh \<longrightarrow> isScriptHashScript scriptPubKey"
    and v0: "vm0 = (emptyEngine fl tx (nat idx) sc hc amt fetch)\<lparr>bip16 := p2sh, scripts := [scriptSig, scriptPubKey],
       scriptIdx := (if length scriptSig = 0 then 1 else 0),
       dstack := \<lparr>stk = [], verifyMinimalData = hasFlag vm0 ScriptVerifyMinimalData\<rparr>,
       astack := \<lparr>stk = [], verifyMinimalData = hasFlag vm0 ScriptVerifyMinimalData\<rparr>\<rparr>"
    and w: "witness_mode scriptSig scriptPubKey (Witness (MsgTxIn tx ! nat idx)) vm0 = Inr vm1"
    and vm: "vm = vm1\<lparr>tokenizer := MakeScriptTokenizer 0 (scripts vm1 ! scriptIdx vm1)\<rparr>"
    using NewEngine_cases [OF assms] by metis
  have fields: "flags vm0 = fl" "vm_tx vm0 = tx" "txIdx vm0 = nat idx" "vm_version vm0 = 0" "bip16 vm0 = p2sh" "hashCache vm0 = hc"
    "prevOutFetcher vm0 = fetch" "scripts vm0 = [scriptSig, scriptPubKey]" "scriptIdx vm0 = (if length scriptSig = 0 then 1 else 0)"
    "stk (dstack vm0) = []" "stk (astack vm0) = []" "savedFirstStack vm0 = []" "condStack vm0 = []" "numOps vm0 = 0"
    "taprootCtx vm0 = None" "witnessProgram vm0 = None" "lastCodeSep vm0 = 0"
    by (subst v0, simp add: emptyEngine_def)+
  obtain wv wp where v1: "vm1 = vm0\<lparr>witnessVersion := wv, witnessProgram := wp\<rparr>"
    and pn: "wp \<noteq> None \<longrightarrow> scriptSig = [] \<and> isWitnessProgramScript scriptPubKey \<or> p2sh"
    using w
  proof (cases rule: witness_mode_Inr)
    case none
    then have "vm1 = vm0\<lparr>witnessVersion := witnessVersion vm0, witnessProgram := witnessProgram vm0\<rparr>" by simp
    then show ?thesis using that fields by blast
  qed (use that fields in blast)+
  let ?s = "scripts vm1 ! scriptIdx vm1"
  have s: "?s \<noteq> []" using e(3) fields by (auto simp: v1)
  show "at_script vm" using s fields by (simp add: vm v1 at_script_def)
  show "p2sh_ok vm" using e(4) fields by (simp add: vm v1 p2sh_ok_def)
  show "taprootCtx vm = None" "condStack vm = []" "numOps vm = 0" "tok_offset (tokenizer vm) = 0" "stk (dstack vm) = []"
    "stk (astack vm) = []" "vm_tx vm = tx" "txIdx vm < length (MsgTxIn tx)" "hashCache vm = hc" "prevOutFetcher vm = fetch"
    using e fields by (simp_all add: vm v1)
  show "\<not> (bip16 vm \<and> pending vm) \<Longrightarrow> program_ok vm"
    using pn fields by (auto simp: vm v1 program_ok_def pending_def)
  show "scriptPubKey \<noteq> [] \<Longrightarrow> scripts vm ! 1 = scriptPubKey" using fields by (simp add: vm v1)
qed

section \<open>Limits\<close>

text \<open>
  Conditionals that are executed are nested below conditionals that are executed: from the outermost
  one, true ones, then at most one false one, then skipped ones only.
\<close>

definition cond_ok :: "cond list \<Rightarrow> bool" where
  "cond_ok cs \<longleftrightarrow> (\<exists>n. cs = replicate n OpCondTrue) \<or> (\<exists>n m. cs = replicate n OpCondTrue @ OpCondFalse # replicate m OpCondSkip)"

definition within_limits :: "Engine \<Rightarrow> bool" where
  "within_limits vm \<longleftrightarrow> numOps vm \<le> MaxOpsPerScript \<and> cond_ok (condStack vm)
     \<and> length (condStack vm) \<le> tok_offset (tokenizer vm)
     \<and> (0 < tok_offset (tokenizer vm) \<longrightarrow> stack_items vm \<le> MaxStackSize)"

lemma cond_ok_intros:
  "cond_ok (replicate n OpCondTrue)" "cond_ok (replicate n OpCondTrue @ [OpCondTrue])" "cond_ok (replicate n OpCondTrue @ [OpCondFalse])"
  "cond_ok (replicate n OpCondTrue @ OpCondFalse # replicate m OpCondSkip)"
  "cond_ok (replicate n OpCondTrue @ OpCondFalse # replicate m OpCondSkip @ [OpCondSkip])"
proof -
  have snoc: "replicate k x @ [x] = replicate (Suc k) x" for k and x :: cond by (simp add: replicate_append_same)
  show "cond_ok (replicate n OpCondTrue)" "cond_ok (replicate n OpCondTrue @ OpCondFalse # replicate m OpCondSkip)" for m
    unfolding cond_ok_def by blast+
  from this(2) [of 0] show "cond_ok (replicate n OpCondTrue @ [OpCondFalse])" by simp
  show "cond_ok (replicate n OpCondTrue @ [OpCondTrue])" unfolding snoc cond_ok_def by blast
  show "cond_ok (replicate n OpCondTrue @ OpCondFalse # replicate m OpCondSkip @ [OpCondSkip])" unfolding snoc cond_ok_def by blast
qed

lemma cond_ok_cases:
  assumes "cond_ok cs"
  obtains (exec) n where "cs = replicate n OpCondTrue" | (no) n m where "cs = replicate n OpCondTrue @ OpCondFalse # replicate m OpCondSkip"
  using assms by (auto simp: cond_ok_def)

lemma cond_ok_executing:
  assumes "cond_ok cs"
  shows "cs = [] \<or> last cs = OpCondTrue \<longleftrightarrow> (\<forall>x\<in>set cs. x = OpCondTrue)"
  using assms
proof (cases rule: cond_ok_cases)
  case (exec n)
  then show ?thesis by (cases n) simp_all
qed (auto simp: last_replicate)

lemma cond_ok_if:
  assumes "cond_ok cs"
  shows "cs = [] \<or> last cs = OpCondTrue \<Longrightarrow> cond_ok (cs @ [if b then OpCondTrue else OpCondFalse])"
    and "\<not> (cs = [] \<or> last cs = OpCondTrue) \<Longrightarrow> cond_ok (cs @ [OpCondSkip])"
proof -
  have T: "\<exists>n. cs = replicate n OpCondTrue" if "cs = [] \<or> last cs = OpCondTrue"
    using that cond_ok_executing [OF assms] by (metis replicate_eqI)
  then show "cs = [] \<or> last cs = OpCondTrue \<Longrightarrow> cond_ok (cs @ [if b then OpCondTrue else OpCondFalse])"
    using cond_ok_intros(2,3) by (metis (full_types))
  have "\<exists>n m. cs = replicate n OpCondTrue @ OpCondFalse # replicate m OpCondSkip" if "\<not> (cs = [] \<or> last cs = OpCondTrue)"
    using assms that by (cases rule: cond_ok_cases) (auto simp: last_replicate)
  then show "\<not> (cs = [] \<or> last cs = OpCondTrue) \<Longrightarrow> cond_ok (cs @ [OpCondSkip])"
    using cond_ok_intros(5) by fastforce
qed

lemma cond_ok_butlast:
  assumes "cond_ok cs" "cs \<noteq> []"
  shows "cond_ok (butlast cs)"
    and "cond_ok (butlast cs @ [case last cs of OpCondTrue \<Rightarrow> OpCondFalse | OpCondFalse \<Rightarrow> OpCondTrue | OpCondSkip \<Rightarrow> OpCondSkip])"
proof -
  have snoc: "replicate (Suc k) x = replicate k x @ [x]" for k and x :: cond by (simp add: replicate_append_same)
  consider (exec) n where "cs = replicate n OpCondTrue @ [OpCondTrue]" | (no) n where "cs = replicate n OpCondTrue @ [OpCondFalse]"
    | (skip) n m where "cs = replicate n OpCondTrue @ OpCondFalse # replicate m OpCondSkip @ [OpCondSkip]"
    using assms(1)
  proof (cases rule: cond_ok_cases)
    case (exec n)
    then obtain k where "n = Suc k" using assms(2) by (cases n) auto
    then show ?thesis using that(1) exec snoc by metis
  next
    case (no n m)
    then show ?thesis using that(2) [of n] that(3) [of n "m - 1"] by (cases m) (simp_all only: snoc, simp_all)
  qed
  then show "cond_ok (butlast cs)"
    "cond_ok (butlast cs @ [case last cs of OpCondTrue \<Rightarrow> OpCondFalse | OpCondFalse \<Rightarrow> OpCondTrue | OpCondSkip \<Rightarrow> OpCondSkip])"
    by (cases; simp add: butlast_append cond_ok_intros)+
qed

lemma executeOpcode_cond:
  assumes "executeOpcode c op data vm = Inr vm'" "cond_ok (condStack vm)"
  shows "cond_ok (condStack vm')"
proof (cases "op \<in> cond_ops")
  case False
  then show ?thesis using executeOpcode_moves [OF assms(1)] assms(2) by (simp add: moves_def)
next
  case True
  then obtain vm1 where c: "countOp op data vm = Inr vm1" and h: "opfunc op c op data vm1 = Inr vm'"
    using executeOpcode_cases [OF assms(1)] by metis
  have ok: "cond_ok (condStack vm1)" using countOp_moves [OF c] assms(2) by (simp add: moves_def)
  have pb: "condStack v = condStack vm1" if "popIfBool vm1 = Inr (b, v)" for b v using popIfBool_moves [OF that] by (simp add: moves_def)
  from True h show ?thesis
    using cond_ok_if [OF ok] cond_ok_butlast [OF ok] pb
    by (auto simp: cond_ops_def opfunc_cond opcodeIf_def opcodeNotIf_def opcodeElse_def opcodeEndif_def isBranchExecuting_def
        elim!: rbindE split: if_split_asm)
qed

lemma executeOpcode_nesting:
  assumes "executeOpcode c op data vm = Inr vm'"
  shows "length (condStack vm') \<le> Suc (length (condStack vm))"
proof (cases "op \<in> cond_ops")
  case False
  then show ?thesis using executeOpcode_moves [OF assms] by (simp add: moves_def)
next
  case True
  then obtain vm1 where c: "countOp op data vm = Inr vm1" and h: "opfunc op c op data vm1 = Inr vm'"
    using executeOpcode_cases [OF assms] by metis
  have "condStack vm1 = condStack vm" using countOp_moves [OF c] by (simp add: moves_def)
  moreover have "condStack v = condStack vm1" if "popIfBool vm1 = Inr (b, v)" for b v using popIfBool_moves [OF that] by (simp add: moves_def)
  ultimately show ?thesis using True h
    by (auto simp: cond_ops_def opfunc_cond opcodeIf_def opcodeNotIf_def opcodeElse_def opcodeEndif_def
        elim!: rbindE split: if_split_asm)
qed

section \<open>Runs\<close>

text \<open>A step that does not end the run.\<close>

definition step_rel :: "crypto \<Rightarrow> Engine \<Rightarrow> Engine \<Rightarrow> bool" where
  "step_rel c vm vm' \<longleftrightarrow> Step c vm = Inr (False, vm')"

lemma at_script_step:
  assumes at: "at_script vm" and n: "Next (tokenizer vm) = (True, t)" and d: "\<not> tok_Done t"
    and e: "executeOpcode c (tok_op t) (tok_data t) (vm\<lparr>tokenizer := t\<rparr>) = Inr vm1"
  shows "at_script (vm1\<lparr>opcodeIdx := k\<rparr>)"
proof -
  have f: "scripts vm1 = scripts vm" "scriptIdx vm1 = scriptIdx vm" "tokenizer vm1 = t" "vm_version vm1 = vm_version vm"
    "lastCodeSep vm1 = lastCodeSep vm \<or> lastCodeSep vm1 = tok_offset t"
    using executeOpcode_steps [OF e] by (simp_all add: steps_def moves_def same_frame_def)
  show ?thesis using at f Next_sound(3-5,8) [OF n] d by (auto simp: at_script_def tok_Done_def)
qed

lemma step_invariant:
  assumes "step_rel c vm vm'" "at_script vm" "within_limits vm"
  shows "at_script vm' \<and> within_limits vm'"
  using assms(1) unfolding step_rel_def
proof (cases rule: Step_cases)
  case (1 t vm1)
  note s = executeOpcode_steps [OF 1(3)]
  have f: "scripts vm1 = scripts vm" "scriptIdx vm1 = scriptIdx vm" "vm_version vm1 = vm_version vm"
    "numOps vm1 \<le> MaxOpsPerScript"
    using s assms(3) by (auto simp: steps_def moves_def same_frame_def within_limits_def)
  have c: "cond_ok (condStack vm1)" using executeOpcode_cond [OF 1(3)] assms(3) by (simp add: within_limits_def)
  show ?thesis
  proof (cases "tok_Done t")
    case True
    then have e: "endScript c (vm1\<lparr>opcodeIdx := opcodeIdx vm1 + 1\<rparr>) = Inr (False, vm')" using 1(6) by simp
    have "at_script vm'"
      by (rule endScript_False [OF e]) (use assms(2) f in \<open>simp_all add: at_script_def\<close>)
    moreover have "cond_ok []" using cond_ok_intros(1) [of 0] by simp
    ultimately show ?thesis using endScript_next [OF e] by (simp add: within_limits_def)
  next
    case False
    then have "vm' = vm1\<lparr>opcodeIdx := opcodeIdx vm1 + 1\<rparr>" using 1(6) by simp
    moreover have "length (condStack vm1) \<le> tok_offset t"
      using executeOpcode_nesting [OF 1(3)] Next_sound(3) [OF 1(2)] assms(3) by (simp add: within_limits_def)
    moreover have "tokenizer vm1 = t" using s by (simp add: steps_def moves_def same_frame_def)
    ultimately show ?thesis using at_script_step [OF assms(2) 1(2) False 1(3)] f(4) c 1(4)
      by (simp add: within_limits_def stack_items_def)
  qed
qed

text \<open>The bytes of script passed so far.\<close>

definition position :: "Engine \<Rightarrow> nat" where
  "position vm = sum_list (map length (take (scriptIdx vm) (scripts vm))) + tok_offset (tokenizer vm)"

lemma verifyWitnessProgram_scripts: "verifyWitnessProgram c w vm = Inr vm' \<Longrightarrow> \<exists>ss. scripts vm' = scripts vm @ ss"
  by (auto simp: verifyWitnessProgram_def verify_v0_def append_script_def must_succeed_def Let_def
      elim!: rbindE verify_v1_cases verify_tapscript_cases dest!: witness_limits_Inr split: option.split_asm if_split_asm prod.split_asm)

lemma nextScript_scripts: "nextScript c vm = Inr vm' \<Longrightarrow> \<exists>ss. scripts vm' = scripts vm @ ss"
  by (cases rule: nextScript_cases) (auto simp: append_script_def dest: verifyWitnessProgram_scripts)

lemma step_position:
  assumes "step_rel c vm vm'" "at_script vm"
  shows "position vm < position vm'"
  using assms(1) unfolding step_rel_def
proof (cases rule: Step_cases)
  case (1 t vm1)
  have f: "scripts vm1 = scripts vm" "scriptIdx vm1 = scriptIdx vm" "vm_version vm1 = vm_version vm"
    using executeOpcode_steps [OF 1(3)] by (auto simp: steps_def moves_def same_frame_def)
  show ?thesis
  proof (cases "tok_Done t")
    case True
    let ?m = "vm1\<lparr>opcodeIdx := opcodeIdx vm1 + 1\<rparr>"
    have e: "endScript c ?m = Inr (False, vm')" using 1(6) True by simp
    obtain v where v: "nextScript c (?m\<lparr>astack := (astack ?m)\<lparr>stk := []\<rparr>, numOps := 0, opcodeIdx := 0\<rparr>) = Inr v"
      "vm' = v\<lparr>lastCodeSep := 0, tokenizer := MakeScriptTokenizer 0 (scripts v ! scriptIdx v)\<rparr>" "scriptIdx v = scriptIdx ?m + 1"
      using endScript_False [OF e] assms(2) f by (auto simp: at_script_def)
    obtain ss where ss: "scripts v = scripts vm @ ss" using nextScript_scripts [OF v(1)] f by auto
    have i: "scriptIdx vm < length (scripts vm)" "tok_offset (tokenizer vm) < length (scripts vm ! scriptIdx vm)"
      using assms(2) by (auto simp: at_script_def)
    then have "sum_list (map length (take (scriptIdx vm + 1) (scripts v)))
      = sum_list (map length (take (scriptIdx vm) (scripts vm))) + length (scripts vm ! scriptIdx vm)"
      by (simp add: ss take_Suc_conv_app_nth)
    then show ?thesis using i(2) v f by (simp add: position_def)
  next
    case False
    then show ?thesis using 1(5,6) f Next_sound(3) [OF 1(2)] by (simp add: position_def)
  qed
qed

section \<open>Properties\<close>

text \<open>C3: No spend crashes the script engine. Whatever the signature script, the output script, the witness and
  the flags are, running an engine that \<open>NewEngine\<close> returned ends with a result or an error of the
  script, never with a panic, provided the spent outputs and the shared hashes are given, keys can be
  serialized and parsed again, and the engine is not one for a witness program of a later version than
  0 nested in a pay-to-script-hash output.\<close>

theorem engine_never_panics:
  assumes "NewEngine scriptPubKey tx idx fl sc (Some hc) amt fetch = Inr vm"
    and "\<forall>ti\<in>set (MsgTxIn tx). fetch (PreviousOutPoint ti) \<noteq> None"
    and "\<forall>b k. schnorr_ParsePubKey c b = Some k \<longrightarrow> schnorr_ParsePubKey c (schnorr_SerializePubKey c k) \<noteq> None"
    and "\<not> (bip16 vm \<and> witnessProgram vm \<noteq> None \<and> witnessVersion vm \<noteq> 0)"
  shows "Execute c vm \<noteq> Inl GoPanic"
proof -
  note s = NewEngine_start [OF assms(1)]
  have "provided c vm" using assms(2,3) s(9-12) by (simp add: provided_def)
  moreover have "program_ok vm" by (rule s(13)) (use assms(4) in \<open>simp add: pending_def\<close>)
  ultimately have "vm_ok c vm" using s(1,2) by (simp add: vm_ok_def)
  then have "np (Execute c vm)" unfolding Execute_def by (intro np_if np_rbind np_exec_loop nps) simp_all
  then show ?thesis by (simp add: np_def)
qed

text \<open>C5: Limits of every reachable state: at most 201 operations are counted; once an opcode of the current script
  has run, the two stacks hold at most 1000 items (before its first opcode the stack may hold any number of items
  of a witness); conditionals are nested at most as deep as there are bytes of the script before this point, the
  conditional stack has the shape of properly nested conditionals, and an opcode is executed exactly when every
  enclosing conditional is true.\<close>

theorem run_limits:
  assumes "NewEngine scriptPubKey tx idx fl sc hc amt fetch = Inr vm" "(step_rel c)\<^sup>*\<^sup>* vm vm'"
  shows "numOps vm' \<le> 201
    \<and> (0 < tok_offset (tokenizer vm') \<longrightarrow> length (stk (dstack vm')) + length (stk (astack vm')) \<le> 1000)
    \<and> length (condStack vm') \<le> tok_offset (tokenizer vm')
    \<and> cond_ok (condStack vm') \<and> (isBranchExecuting vm' \<longleftrightarrow> (\<forall>x\<in>set (condStack vm'). x = OpCondTrue))
    \<and> lastCodeSep vm' \<le> length (scripts vm' ! scriptIdx vm')"
proof -
  note s = NewEngine_start [OF assms(1)]
  have "cond_ok []" using cond_ok_intros(1) [of 0] by simp
  then have "at_script vm \<and> within_limits vm" using s by (simp add: within_limits_def)
  with assms(2) have "at_script vm' \<and> within_limits vm'"
    by (induction rule: rtranclp_induct) (auto dest: step_invariant)
  then show ?thesis
    using cond_ok_executing [of "condStack vm'"]
    by (auto simp: within_limits_def stack_items_def MaxOpsPerScript_def MaxStackSize_def isBranchExecuting_def at_script_def)
qed

text \<open>C14: A run takes at most one step per byte of the scripts it has been given: after any number of steps that do not
  end the run, the next step, which may end it with success or with an error, is still within the number of bytes of
  the scripts.\<close>

theorem run_length_bounded:
  assumes "NewEngine scriptPubKey tx idx fl sc hc amt fetch = Inr vm" "(step_rel c ^^ n) vm vm'"
  shows "Suc n \<le> sum_list (map length (scripts vm'))"
proof -
  note s = NewEngine_start [OF assms(1)]
  have "cond_ok []" using cond_ok_intros(1) [of 0] by simp
  then have "at_script vm \<and> within_limits vm" using s by (simp add: within_limits_def)
  with assms(2) have "at_script vm' \<and> within_limits vm' \<and> n \<le> position vm'"
  proof (induction n arbitrary: vm')
    case (Suc n)
    then obtain v where "(step_rel c ^^ n) vm v" "step_rel c v vm'" by auto
    then show ?case using Suc.IH [of v] Suc.prems(2) step_invariant [of c v vm'] step_position [of c v vm'] by simp
  qed simp
  moreover have "position vm' < sum_list (map length (scripts vm'))" if "at_script vm'"
  proof -
    have "sum_list (map length (scripts vm')) = sum_list (map length (take (Suc (scriptIdx vm')) (scripts vm')))
        + sum_list (map length (drop (Suc (scriptIdx vm')) (scripts vm')))"
      by (metis append_take_drop_id map_append sum_list_append)
    moreover have "scriptIdx vm' < length (scripts vm')" "tok_offset (tokenizer vm') < length (scripts vm' ! scriptIdx vm')"
      using that by (auto simp: at_script_def)
    ultimately show ?thesis by (simp add: position_def take_Suc_conv_app_nth)
  qed
  ultimately show ?thesis by simp
qed

section \<open>Witnesses\<close>

definition small_crypto :: crypto where
  "small_crypto = \<lparr>sha1 = id, sha256 = id, ripemd160 = (\<lambda>b. replicate 20 7), ParsePubKey = Some, ParseDERSignature = Some,
     ParseSignature = Some, ecdsa_Verify = (\<lambda>_ _ _. True), schnorr_ParsePubKey = Some,
     schnorr_ParseSignature = Some, schnorr_Verify = (\<lambda>_ _ _. True), schnorr_SerializePubKey = id,
     add_tweak = (\<lambda>_ _. []), y_is_odd = (\<lambda>_. False), curve_N = 7\<rparr>"

definition spend_tx :: "bytes \<Rightarrow> bytes list \<Rightarrow> MsgTx" where
  "spend_tx scriptSig witness = \<lparr>Version = 1, MsgTxIn = [\<lparr>PreviousOutPoint = \<lparr>op_Hash = replicate 32 1, op_Index = 0\<rparr>,
     SignatureScript = scriptSig, Witness = witness, Sequence = 0\<rparr>], MsgTxOut = [], LockTime = 0\<rparr>"

definition spend :: "bytes \<Rightarrow> bytes \<Rightarrow> bytes list \<Rightarrow> ScriptFlags \<Rightarrow> Engine res" where
  "spend scriptPubKey scriptSig witness fl =
     NewEngine scriptPubKey (spend_tx scriptSig witness) 0 fl None (Some nilSigHashes) 0 (\<lambda>_. Some \<lparr>Value = 0, PkScript = scriptPubKey\<rparr>)"

definition res_is :: "(ErrorCode \<Rightarrow> bool) \<Rightarrow> ('a \<Rightarrow> bool) \<Rightarrow> 'a res \<Rightarrow> bool" where
  "res_is p q r = (case r of Inl e \<Rightarrow> p e | Inr x \<Rightarrow> q x)"

lemma spend_example: "res_is (\<lambda>_. False) (\<lambda>vm. \<not> (bip16 vm \<and> witnessProgram vm \<noteq> None \<and> witnessVersion vm \<noteq> 0))
    (spend [OP_DUP, OP_EQUAL] [OP_1] [] ScriptBip16)"
  by code_simp

theorem engine_never_panics_witness:
  "\<exists>vm. spend [OP_DUP, OP_EQUAL] [OP_1] [] ScriptBip16 = Inr vm \<and> Execute small_crypto vm \<noteq> Inl GoPanic"
proof -
  obtain vm where v: "spend [OP_DUP, OP_EQUAL] [OP_1] [] ScriptBip16 = Inr vm" "\<not> (bip16 vm \<and> witnessProgram vm \<noteq> None \<and> witnessVersion vm \<noteq> 0)"
    using spend_example by (auto simp: res_is_def split: sum.split_asm)
  have "Execute small_crypto vm \<noteq> Inl GoPanic"
    by (rule engine_never_panics [OF v(1) [unfolded spend_def] _ _ v(2)]) (simp_all add: small_crypto_def)
  then show ?thesis using v(1) by blast
qed

lemma spend_step_example:
  "res_is (\<lambda>_. False) (\<lambda>(b, vm). \<not> b \<and> scripts vm = [[OP_1, OP_1], [OP_EQUAL]]) (rbind (spend [OP_EQUAL] [OP_1, OP_1] [] 0) (Step small_crypto))"
  by code_simp

lemma spend_step:
  obtains vm vm' where "spend [OP_EQUAL] [OP_1, OP_1] [] 0 = Inr vm" "step_rel small_crypto vm vm'" "scripts vm' = [[OP_1, OP_1], [OP_EQUAL]]"
  using spend_step_example by (auto simp: res_is_def step_rel_def split: sum.split_asm elim!: rbindE)

theorem run_limits_witness:
  "\<exists>vm vm'. spend [OP_EQUAL] [OP_1, OP_1] [] 0 = Inr vm \<and> step_rel small_crypto vm vm' \<and> numOps vm' \<le> 201 \<and> cond_ok (condStack vm')"
proof -
  obtain vm vm' where v: "spend [OP_EQUAL] [OP_1, OP_1] [] 0 = Inr vm" "step_rel small_crypto vm vm'"
    "scripts vm' = [[OP_1, OP_1], [OP_EQUAL]]" by (rule spend_step)
  from run_limits [OF v(1) [unfolded spend_def] r_into_rtranclp [of "step_rel small_crypto", OF v(2)]] v(1,2) show ?thesis by auto
qed

lemma res_isD: "res_is (\<lambda>_. False) Q r \<Longrightarrow> \<exists>x. r = Inr x \<and> Q x"
  by (auto simp: res_is_def split: sum.split_asm)

text \<open>The run of this spend has two steps before the one that ends it, for three bytes of script.\<close>

lemma three_steps_example:
  "res_is (\<lambda>_. False) (\<lambda>(b, vm). \<not> b \<and> res_is (\<lambda>_. False) (\<lambda>(b, vm). \<not> b \<and> scripts vm = [[OP_1, OP_1], [OP_EQUAL]] \<and>
       res_is (\<lambda>_. False) fst (Step small_crypto vm)) (Step small_crypto vm))
     (rbind (spend [OP_EQUAL] [OP_1, OP_1] [] 0) (Step small_crypto))"
  by code_simp

theorem run_length_bounded_witness:
  "\<exists>vm vm' vm''. spend [OP_EQUAL] [OP_1, OP_1] [] 0 = Inr vm \<and> (step_rel small_crypto ^^ 2) vm vm' \<and>
     Step small_crypto vm' = Inr (True, vm'') \<and> Suc 2 \<le> sum_list (map length (scripts vm')) \<and>
     sum_list (map length (scripts vm')) = 3"
proof -
  obtain vm v vm' vm'' where v: "spend [OP_EQUAL] [OP_1, OP_1] [] 0 = Inr vm" "step_rel small_crypto vm v"
    "step_rel small_crypto v vm'" "Step small_crypto vm' = Inr (True, vm'')" "scripts vm' = [[OP_1, OP_1], [OP_EQUAL]]"
    using three_steps_example by (auto simp: step_rel_def rbind_eq_Inr dest!: res_isD)
  have "(step_rel small_crypto ^^ 2) vm vm'" using v(2,3) by (auto simp: numeral_2_eq_2)
  with run_length_bounded [OF v(1) [unfolded spend_def] this] v show ?thesis by auto
qed

text \<open>A spend that crashes the engine. The check that the signature script of a nested witness program is one
  canonical push reads its first opcode only, so that \<open>OP_1 OP_1 <32 bytes>\<close> passes as a push of the
  version 1 program \<open>OP_1 <32 bytes>\<close>; the redeem script is then these 32 bytes, and a signature check in
  it finds neither a verifier of version 0 nor a taproot context and calls a nil verifier.\<close>

lemma nested_witness_panics:
  "\<exists>redeem vm. spend (OP_HASH160 # OP_DATA_20 # replicate 20 7 @ [OP_EQUAL]) ([OP_1, OP_1, OP_DATA_32] @ redeem) [[]]
       (ScriptBip16 OR ScriptVerifyWitness OR ScriptVerifyTaproot) = Inr vm
     \<and> Execute small_crypto vm = Inl GoPanic"
proof -
  let ?redeem = "OP_CHECKSIG # replicate 31 OP_NOP"
  let ?s = "spend (OP_HASH160 # OP_DATA_20 # replicate 20 7 @ [OP_EQUAL]) ([OP_1, OP_1, OP_DATA_32] @ ?redeem) [[]]
       (ScriptBip16 OR ScriptVerifyWitness OR ScriptVerifyTaproot)"
  have "res_is (\<lambda>_. False) (\<lambda>vm. res_is (\<lambda>e. e = GoPanic) (\<lambda>_. False) (Execute small_crypto vm)) ?s" by code_simp
  then show ?thesis by (auto simp: res_is_def split: sum.split_asm)
qed

end
