(* ===== verification/Script_Spends.thy ===== *)
theory Script_Spends
  imports Script_Safety "HOL-Library.Sublist"
begin

unbundle bit_operations_syntax

text \<open>
  What scripts compute: multi-signature checks against the keys in order, exact arithmetic, pushes that
  put exactly their data on the stack, and whole spends of standard outputs.
\<close>

section \<open>Multi-signature checks\<close>

text \<open>Whether a signature verifies under a key for the hash of the script.\<close>

definition sig_matches :: "crypto \<Rightarrow> bytes \<Rightarrow> Engine \<Rightarrow> bytes \<Rightarrow> bytes \<Rightarrow> bool" where
  "sig_matches c script vm sig key \<longleftrightarrow> sig \<noteq> [] \<and>
     (\<exists>s p h. parse_ecdsa c vm (butlast sig) = Some s \<and> ParsePubKey c key = Some p
        \<and> multisig_hash c script (ucast (last sig)) vm = Inr h \<and> ecdsa_Verify c s h p)"

text \<open>The order the loop tries signatures and keys in, and what it decides.\<close>

fun greedy :: "('s \<Rightarrow> 'k \<Rightarrow> bool) \<Rightarrow> 's list \<Rightarrow> 'k list \<Rightarrow> bool" where
  "greedy v [] ks = True"
| "greedy v (s # ss) [] = False"
| "greedy v (s # ss) (k # ks) = (if v s k then greedy v ss ks else greedy v (s # ss) ks)"

lemma list_all2_subseq_Cons: "subseq ks' ks \<Longrightarrow> list_all2 v (s # ss) ks' \<Longrightarrow> \<exists>ks''. subseq ks'' ks \<and> list_all2 v ss ks''"
  by (cases ks') (auto dest: subseq_Cons')

lemma greedy_iff: "greedy v ss ks \<longleftrightarrow> (\<exists>ks'. subseq ks' ks \<and> list_all2 v ss ks')"
proof (induction v ss ks rule: greedy.induct)
  case (3 v s ss k ks)
  show ?case
  proof (cases "v s k")
    case True
    have "(\<exists>ks'. subseq ks' (k # ks) \<and> list_all2 v (s # ss) ks') \<longleftrightarrow> (\<exists>ks'. subseq ks' ks \<and> list_all2 v ss ks')"
    proof
      assume "\<exists>ks'. subseq ks' (k # ks) \<and> list_all2 v (s # ss) ks'"
      then obtain k' ks' where "subseq (k' # ks') (k # ks)" "list_all2 v ss ks'"
        by (auto simp: list_all2_Cons1)
      then show "\<exists>ks'. subseq ks' ks \<and> list_all2 v ss ks'"
        by (auto split: if_split_asm dest: subseq_Cons')
    next
      assume "\<exists>ks'. subseq ks' ks \<and> list_all2 v ss ks'"
      then obtain ks' where "subseq ks' ks" "list_all2 v ss ks'" by blast
      then have "subseq (k # ks') (k # ks)" "list_all2 v (s # ss) (k # ks')" using True by simp_all
      then show "\<exists>ks'. subseq ks' (k # ks) \<and> list_all2 v (s # ss) ks'" by blast
    qed
    then show ?thesis using 3 True by simp
  next
    case False
    have "subseq ks' (k # ks) = subseq ks' ks" if "list_all2 v (s # ss) ks'" for ks'
      using that False by (auto simp: list_all2_Cons1 split: if_split_asm)
    then show ?thesis using 3 False by auto
  qed
qed (auto simp: list_all2_Cons1)

lemma greedy_too_few: "length ss > length ks \<Longrightarrow> \<not> greedy v ss ks"
  by (auto simp: greedy_iff dest!: list_all2_lengthD list_emb_length)

lemma greedy_Nil [simp]: "greedy v ss [] \<longleftrightarrow> ss = []"
  by (cases ss) simp_all

text \<open>A remembered parse is what parsing again would give.\<close>

definition parse_kept :: "crypto \<Rightarrow> Engine \<Rightarrow> parsedSigInfo \<Rightarrow> bool" where
  "parse_kept c vm info \<longleftrightarrow> (parsed info \<longrightarrow> parsedSignature info = parse_ecdsa c vm (butlast (signature info)))"

lemma try_key_valid:
  assumes "try_key c script info key vm = Inr (v, info', vm')" "sigCache vm = None" "parse_kept c vm info"
  shows "v = sig_matches c script vm (signature info) key \<and> vm' = vm \<and> signature info' = signature info \<and> parse_kept c vm info'"
proof (cases "signature info = []")
  case True
  then show ?thesis using assms by (simp add: try_key_def sig_matches_def)
next
  case False
  then obtain i where i: "parse_info c vm info = Inr i"
    and r: "(case parsedSignature i of None \<Rightarrow> Inr (False, i, vm)
        | Some parsedSig \<Rightarrow>
            rbind (checkPubKeyEncoding vm key) (\<lambda>_.
              case ParsePubKey c key of None \<Rightarrow> Inr (False, i, vm)
              | Some parsedPubKey \<Rightarrow>
                  rbind (multisig_hash c script (ucast (last (signature i))) vm) (\<lambda>h.
                    case ecdsa_cached c h (butlast (signature i)) key parsedSig parsedPubKey vm of
                      (valid, vm) \<Rightarrow> Inr (valid, i, vm)))) = Inr (v, info', vm')"
    using assms(1) by (auto simp: try_key_def elim!: rbindE)
  have p: "parsedSignature i = parse_ecdsa c vm (butlast (signature info))" "signature i = signature info" "parse_kept c vm i"
    using i assms(3) by (auto simp: parse_info_def parse_kept_def Let_def elim!: rbindE split: if_split_asm)
  show ?thesis
    using r p False assms(2)
    by (auto simp: sig_matches_def ecdsa_cached_def elim!: rbindE split: option.split_asm)
qed

lemma checkMultiSig_loop_greedy:
  assumes "checkMultiSig_loop c script keys n k ns si infos vm = Inr (ok, vm')" "sigCache vm = None"
    and "\<forall>i\<in>set infos. parse_kept c vm i" "ns + si = length infos" "n + k = length keys + 1"
  shows "vm' = vm \<and> ok = greedy (sig_matches c script vm) (drop si (map signature infos)) (drop k keys)"
  using assms
proof (induction n arbitrary: k ns si infos)
  case (Suc n)
  let ?g = "greedy (sig_matches c script vm)"
  show ?case
  proof (cases "ns = 0 \<or> ns > n")
    case True
    then show ?thesis
      using Suc.prems greedy_too_few [of "drop k keys" "drop si (map signature infos)" "sig_matches c script vm"]
      by (auto split: if_split_asm)
  next
    case False
    then have idx: "si < length infos" "k < length keys" using Suc.prems by auto
    obtain v info vm1 where t: "try_key c script (infos ! si) (keys ! k) vm = Inr (v, info, vm1)"
      and r: "checkMultiSig_loop c script keys n (k + 1) (if v then ns - 1 else ns) (if v then si + 1 else si) (infos[si := info]) vm1
        = Inr (ok, vm')"
      using Suc.prems(1) False by (auto simp: rbind_eq_Inr split: if_split_asm)
    have "parse_kept c vm (infos ! si)" using Suc.prems(3) idx by simp
    note v = try_key_valid [OF t Suc.prems(2) this]
    have sigs: "map signature (infos[si := info]) = map signature infos"
      using v idx by (simp add: map_update list_update_same_conv)
    have "\<forall>i\<in>set (infos[si := info]). parse_kept c vm i"
      using Suc.prems(3) v set_update_subset_insert [of infos si info] by auto
    with r v have "vm' = vm \<and> ok = ?g (drop (if v then si + 1 else si) (map signature (infos[si := info]))) (drop (k + 1) keys)"
      using False Suc.prems(2,4,5) by (intro Suc.IH) auto
    moreover have "drop si (map signature infos) = signature (infos ! si) # drop (si + 1) (map signature infos)"
      "drop k keys = keys ! k # drop (k + 1) keys"
      using idx by (simp_all add: Cons_nth_drop_Suc [symmetric])
    ultimately show ?thesis using v sigs by simp
  qed
qed auto

section \<open>Popping from a known stack\<close>

abbreviation with_stack :: "bytes list \<Rightarrow> Engine \<Rightarrow> Engine" where
  "with_stack xs vm \<equiv> vm\<lparr>dstack := (dstack vm)\<lparr>stk := xs\<rparr>\<rparr>"

lemma pop_snoc: "stk (dstack vm) = xs @ [x] \<Longrightarrow> pop vm = Inr (x, with_stack xs vm)"
  by (simp add: pop_def PopByteArray_cases stk_abs_def stk_mk_def)

lemma popInt_snoc:
  "stk (dstack vm) = xs @ [x] \<Longrightarrow> MakeScriptNum x (verifyMinimalData (dstack vm)) maxScriptNumLen = Inr n
   \<Longrightarrow> popInt vm = Inr (n, with_stack xs vm)"
  by (simp add: popInt_def PopInt_def PopByteArray_cases stk_abs_def stk_mk_def)

lemma popBool_snoc: "stk (dstack vm) = xs @ [x] \<Longrightarrow> popBool vm = Inr (asBool x, with_stack xs vm)"
  by (simp add: popBool_def PopBool_def PopByteArray_cases stk_abs_def stk_mk_def)

lemma pop_n_snoc: "stk (dstack vm) = xs @ ys \<Longrightarrow> pop_n (length ys) vm = Inr (rev ys, with_stack xs vm)"
proof (induction ys arbitrary: vm rule: rev_induct)
  case (snoc y ys)
  then have "pop vm = Inr (y, with_stack (xs @ ys) vm)" by (intro pop_snoc) simp
  then show ?case using snoc.IH [of "with_stack (xs @ ys) vm"] by simp
qed simp

lemma hashing_ignores_stack:
  "parse_ecdsa c (vm\<lparr>dstack := d\<rparr>) = parse_ecdsa c vm" "parse_ecdsa c (vm\<lparr>numOps := n\<rparr>) = parse_ecdsa c vm"
  "multisig_hash c script ht (vm\<lparr>dstack := d\<rparr>) = multisig_hash c script ht vm"
  "multisig_hash c script ht (vm\<lparr>numOps := n\<rparr>) = multisig_hash c script ht vm"
  "subScript (vm\<lparr>dstack := d\<rparr>) = subScript vm" "subScript (vm\<lparr>numOps := n\<rparr>) = subScript vm"
  "hasFlag (vm\<lparr>dstack := d\<rparr>) = hasFlag vm" "hasFlag (vm\<lparr>numOps := n\<rparr>) = hasFlag vm"
  "isWitnessVersionActive (vm\<lparr>dstack := d\<rparr>) = isWitnessVersionActive vm" "isWitnessVersionActive (vm\<lparr>numOps := n\<rparr>) = isWitnessVersionActive vm"
  by (auto simp: parse_ecdsa_def multisig_hash_def segwit_hashes_def hasFlag_def isWitnessVersionActive_def subScript_def Let_def
      cong: option.case_cong intro!: ext)

lemma sig_matches_stack [simp]:
  "sig_matches c script (vm\<lparr>dstack := d\<rparr>) = sig_matches c script vm" "sig_matches c script (vm\<lparr>numOps := n\<rparr>) = sig_matches c script vm"
  by (intro ext, simp add: sig_matches_def hashing_ignores_stack)+

lemma Int32_popped: "popInt vm = Inr (n, vm') \<Longrightarrow> Int32 n = n"
  using popInt_bound [of vm n vm'] by (auto simp: Int32_def maxInt32_def minInt32_def)

lemma subseq_rev_mono: "subseq xs ys \<Longrightarrow> subseq (rev xs) (rev ys)"
proof (induction rule: list_emb.induct)
  case (list_emb_Cons xs ys y)
  then show ?case using list_emb_append_mono [of "(=)" "rev xs" "rev ys" "[]" "[y]"] by simp
next
  case (list_emb_Cons2 x y xs ys)
  then show ?case using list_emb_append_mono [of "(=)" "rev xs" "rev ys" "[x]" "[y]"] by simp
qed simp

lemma rev_matches:
  "(\<exists>ks. subseq ks (rev keys) \<and> list_all2 P (rev sigs) ks) \<longleftrightarrow> (\<exists>ks. subseq ks keys \<and> list_all2 P sigs ks)"
  by (metis list_all2_rev rev_rev_ident subseq_rev_mono)

section \<open>Arithmetic\<close>

definition arithmetic :: "(u8 \<times> (int \<Rightarrow> int \<Rightarrow> int)) list" where
  "arithmetic = [(OP_ADD, \<lambda>a b. a + b), (OP_SUB, \<lambda>a b. a - b), (OP_BOOLAND, \<lambda>a b. b2i (a \<noteq> 0 \<and> b \<noteq> 0)),
     (OP_BOOLOR, \<lambda>a b. b2i (a \<noteq> 0 \<or> b \<noteq> 0)), (OP_NUMEQUAL, \<lambda>a b. b2i (a = b)), (OP_NUMNOTEQUAL, \<lambda>a b. b2i (a \<noteq> b)),
     (OP_LESSTHAN, \<lambda>a b. b2i (a < b)), (OP_GREATERTHAN, \<lambda>a b. b2i (a > b)), (OP_LESSTHANOREQUAL, \<lambda>a b. b2i (a \<le> b)),
     (OP_GREATERTHANOREQUAL, \<lambda>a b. b2i (a \<ge> b)), (OP_MIN, min), (OP_MAX, max)]"

lemma opfunc_arithmetic:
  "opfunc OP_ADD = (\<lambda>c op data vm. opcodeAdd vm)" "opfunc OP_SUB = (\<lambda>c op data vm. opcodeSub vm)"
  "opfunc OP_BOOLAND = (\<lambda>c op data vm. opcodeBoolAnd vm)" "opfunc OP_BOOLOR = (\<lambda>c op data vm. opcodeBoolOr vm)"
  "opfunc OP_NUMEQUAL = (\<lambda>c op data vm. opcodeNumEqual vm)" "opfunc OP_NUMNOTEQUAL = (\<lambda>c op data vm. opcodeNumNotEqual vm)"
  "opfunc OP_LESSTHAN = (\<lambda>c op data vm. opcodeLessThan vm)" "opfunc OP_GREATERTHAN = (\<lambda>c op data vm. opcodeGreaterThan vm)"
  "opfunc OP_LESSTHANOREQUAL = (\<lambda>c op data vm. opcodeLessThanOrEqual vm)"
  "opfunc OP_GREATERTHANOREQUAL = (\<lambda>c op data vm. opcodeGreaterThanOrEqual vm)"
  "opfunc OP_MIN = (\<lambda>c op data vm. opcodeMin vm)" "opfunc OP_MAX = (\<lambda>c op data vm. opcodeMax vm)"
  unfolding opfunc_def opcodeArray_def by simp_all

lemma i64_small: "\<bar>n\<bar> < 2 ^ 33 \<Longrightarrow> i64 n = n"
  by (rule i64_id) (auto simp: is_i64_def)

lemmas arithmetic_defs = opcodeAdd_def opcodeSub_def opcodeBoolAnd_def opcodeBoolOr_def opcodeNumEqual_def opcodeNumNotEqual_def
  opcodeLessThan_def opcodeGreaterThan_def opcodeLessThanOrEqual_def opcodeGreaterThanOrEqual_def opcodeMin_def opcodeMax_def

lemma arithmetic_handlers:
  assumes "map_of arithmetic op = Some f" "\<bar>a\<bar> < 2 ^ 31" "\<bar>b\<bar> < 2 ^ 31"
  shows "\<exists>g. opfunc op c op data vm = int_binop g vm \<and> g b a = f a b \<and> \<bar>f a b\<bar> < 2 ^ 33"
  using assms
  by (auto simp: arithmetic_def opfunc_arithmetic arithmetic_defs i64_small b2i_def min_def max_def split: if_split_asm
      intro!: exI conjI [OF refl])

lemma Bytes_small: "\<bar>n\<bar> < 2 ^ 33 \<Longrightarrow> \<exists>z. Bytes n = Inr z \<and> sm_val z = n \<and> minimal_num z"
  by (rule Bytes_Inr [of n]) auto

text \<open>C13: A multi-signature check with \<open>sigs\<close> and \<open>keys\<close> on the stack, in this order, leaves true exactly when the
  signatures verify, in order, under a subsequence of the keys; the hash they sign is that of the
  current script from its last code separator on, without the signatures themselves unless the script
  is a witness script.\<close>

theorem multisig_matches:
  assumes "stk (dstack vm) = base @ [dummy] @ sigs @ [m] @ keys @ [n]"
    and "MakeScriptNum n (verifyMinimalData (dstack vm)) maxScriptNumLen = Inr (int (length keys))"
    and "MakeScriptNum m (verifyMinimalData (dstack vm)) maxScriptNumLen = Inr (int (length sigs))"
    and "sigCache vm = None" "opcodeCheckMultiSig c vm = Inr vm'"
  shows "\<exists>script0 script. subScript vm = Inr script0
    \<and> (if isWitnessVersionActive vm 0 then script = script0
       else remove_sigs (hasFlag vm ScriptVerifyConstScriptCode) (rev sigs) script0 = Inr script)
    \<and> stk (dstack vm') = base @ [fromBool (\<exists>ks. subseq ks keys \<and> list_all2 (sig_matches c script vm) sigs ks)]"
proof -
  let ?v1 = "with_stack (base @ [dummy] @ sigs @ [m] @ keys) vm"
  let ?w = "?v1\<lparr>numOps := numOps vm + length keys\<rparr>"
  let ?v2 = "with_stack (base @ [dummy] @ sigs @ [m]) ?w"
  let ?v3 = "with_stack (base @ [dummy] @ sigs) ?v2"
  let ?v4 = "with_stack (base @ [dummy]) ?v3"
  let ?v5 = "with_stack base ?v4"
  let ?infos = "map (\<lambda>sig. \<lparr>signature = sig, parsedSignature = None, parsed = False\<rparr>) (rev sigs)"
  have p: "popInt vm = Inr (int (length keys), ?v1)" "pop_n (length keys) ?w = Inr (rev keys, ?v2)"
    "popInt ?v2 = Inr (int (length sigs), ?v3)" "pop_n (length sigs) ?v3 = Inr (rev sigs, ?v4)" "pop ?v4 = Inr (dummy, ?v5)"
    using assms(1-3) popInt_snoc [of vm "base @ [dummy] @ sigs @ [m] @ keys" n] pop_n_snoc [of ?w "base @ [dummy] @ sigs @ [m]" keys]
      popInt_snoc [of ?v2 "base @ [dummy] @ sigs" m] pop_n_snoc [of ?v3 "base @ [dummy]" sigs] pop_snoc [of ?v4 base dummy]
    by simp_all
  obtain script0 script ok vm6 where r: "subScript ?v5 = Inr script0"
    "(if \<not> isWitnessVersionActive ?v5 0 then remove_sigs (hasFlag ?v5 ScriptVerifyConstScriptCode) (rev sigs) script0 else Inr script0) = Inr script"
    "checkMultiSig_loop c script (rev keys) (length keys + 1) 0 (length sigs) 0 ?infos ?v5 = Inr (ok, vm6)" "vm' = pushBool ok vm6"
    using assms(5) p Int32_popped [OF p(1)] Int32_popped [OF p(3)]
    by (auto simp: opcodeCheckMultiSig_def Let_def simp del: checkMultiSig_loop.simps elim!: rbindE split: if_split_asm)
  have "vm6 = ?v5 \<and> ok = greedy (sig_matches c script ?v5) (drop 0 (map signature ?infos)) (drop 0 (rev keys))"
    by (rule checkMultiSig_loop_greedy [OF r(3)]) (use assms(4) in \<open>simp_all add: parse_kept_def\<close>)
  moreover have "map signature ?infos = rev sigs" by (simp add: comp_def)
  ultimately have "vm6 = ?v5" "ok = (\<exists>ks. subseq ks keys \<and> list_all2 (sig_matches c script vm) sigs ks)"
    using rev_matches [of keys "sig_matches c script vm" sigs] by (simp_all add: greedy_iff)
  then show ?thesis
    using r by (auto simp: hashing_ignores_stack pushBool_def PushBool_def PushByteArray_def split: if_split_asm)
qed

text \<open>Script arithmetic is exact. On two numbers of at most four bytes every binary arithmetic and comparison
  opcode replaces them by the number it is named for, encoded minimally: the sums and differences of such
  numbers never wrap, even though they are computed with 64 bits.\<close>

theorem script_arithmetic_exact:
  assumes "stk (dstack vm) = base @ [x, y]" "map_of arithmetic op = Some f"
    and "MakeScriptNum x (verifyMinimalData (dstack vm)) maxScriptNumLen = Inr a"
    and "MakeScriptNum y (verifyMinimalData (dstack vm)) maxScriptNumLen = Inr b"
  shows "\<exists>z. Bytes (f a b) = Inr z \<and> sm_val z = f a b \<and> minimal_num z
    \<and> opfunc op c op data vm = Inr (vm\<lparr>dstack := (dstack vm)\<lparr>stk := base @ [z]\<rparr>\<rparr>)"
proof -
  have ab: "\<bar>a\<bar> < 2 ^ 31" "\<bar>b\<bar> < 2 ^ 31"
    using popInt_snoc [of vm "base @ [x]" y b] popInt_snoc [of "with_stack (base @ [x]) vm" base x a] assms popInt_bound by force+
  obtain g where g: "opfunc op c op data vm = int_binop g vm" "g b a = f a b" "\<bar>f a b\<bar> < 2 ^ 33"
    using arithmetic_handlers [OF assms(2) ab] by blast
  then obtain z where z: "Bytes (f a b) = Inr z" "sm_val z = f a b" "minimal_num z" using Bytes_small by (metis (no_types))
  have "opfunc op c op data vm = Inr (with_stack (base @ [z]) vm)"
    using g z popInt_snoc [of vm "base @ [x]" y b] popInt_snoc [of "with_stack (base @ [x]) vm" base x a] assms
    by (simp add: int_binop_def pushInt_def on_dstack_def PushInt_def PushByteArray_def)
  then show ?thesis using z by blast
qed

definition multisig_vm :: Engine where
  "multisig_vm = (emptyEngine 0 (spend_tx [] []) 0 None (Some nilSigHashes) 0 (\<lambda>_. None))
     \<lparr>scripts := [[], [OP_CHECKMULTISIG]], scriptIdx := 1,
      dstack := \<lparr>stk = [[], [9, 1], [1], [5], [1]], verifyMinimalData = False\<rparr>\<rparr>"

lemma multisig_vm_runs:
  "res_is (\<lambda>_. False) (\<lambda>vm. stk (dstack vm) = [[1]]) (opcodeCheckMultiSig small_crypto multisig_vm)"
  by code_simp

theorem multisig_matches_witness:
  "\<exists>script ks. subseq ks [[5]] \<and> list_all2 (sig_matches small_crypto script multisig_vm) [[9, 1]] ks"
proof -
  obtain vm' where r: "opcodeCheckMultiSig small_crypto multisig_vm = Inr vm'" "stk (dstack vm') = [[1]]"
    using multisig_vm_runs by (auto simp: res_is_def split: sum.split_asm)
  have s: "stk (dstack multisig_vm) = [] @ [[]] @ [[9, 1]] @ [[1]] @ [[5]] @ [[1]]" "sigCache multisig_vm = None"
    by (simp_all add: multisig_vm_def emptyEngine_def)
  have "MakeScriptNum [1] (verifyMinimalData (dstack multisig_vm)) maxScriptNumLen = Inr (int (length [[5::u8]]))"
    "MakeScriptNum [1] (verifyMinimalData (dstack multisig_vm)) maxScriptNumLen = Inr (int (length [[9::u8, 1]]))"
    by code_simp+
  from multisig_matches [OF s(1) this s(2) r(1)] r(2) show ?thesis
    by (auto simp: fromBool_def split: if_split_asm)
qed

theorem script_arithmetic_exact_witness:
  "\<exists>z. sm_val z = -5 \<and> opfunc OP_SUB small_crypto OP_SUB [] (with_stack [[2], [7]] multisig_vm) = Inr (with_stack [z] multisig_vm)"
proof -
  let ?vm = "with_stack [[2], [7]] multisig_vm"
  have n: "MakeScriptNum [2] (verifyMinimalData (dstack ?vm)) maxScriptNumLen = Inr 2"
    "MakeScriptNum [7] (verifyMinimalData (dstack ?vm)) maxScriptNumLen = Inr 7" by code_simp+
  have "map_of arithmetic OP_SUB = Some (\<lambda>a b. a - b)" by (simp add: arithmetic_def)
  from script_arithmetic_exact [of ?vm "[]", OF _ this n, of small_crypto "[]"] show ?thesis by auto
qed

end
