(* ===== verification/Script_P2pkh.thy ===== *)
theory Script_P2pkh
  imports Script_Spends
begin

unbundle bit_operations_syntax

text \<open>
  A whole spend: the engine runs a script as the sequence of its instructions, and an output that pays to
  a key hash is spent by a signature script if and only if the key and the signature are right.
\<close>

section \<open>A script is the sequence of its instructions\<close>

text \<open>The engine after the tokenizer has read the next instruction.\<close>

definition advance :: "instr \<Rightarrow> Engine \<Rightarrow> Engine" where
  "advance i vm = vm\<lparr>tokenizer := (tokenizer vm)\<lparr>tok_opcodePos := tok_opcodePos (tokenizer vm) + 1,
     tok_offset := tok_offset (tokenizer vm) + length (enc_instr i), tok_op := fst i, tok_data := snd i\<rparr>\<rparr>"

fun run_ops :: "crypto \<Rightarrow> instr list \<Rightarrow> Engine \<Rightarrow> Engine res" where
  "run_ops c [] vm = Inr vm"
| "run_ops c (i # ins) vm = rbind (executeOpcode c (fst i) (snd i) (advance i vm)) (\<lambda>vm.
     if stack_items vm > MaxStackSize then Inl ErrStackOverflow else run_ops c ins (vm\<lparr>opcodeIdx := opcodeIdx vm + 1\<rparr>))"

definition at_instrs :: "instr list \<Rightarrow> Engine \<Rightarrow> bool" where
  "at_instrs ins vm \<longleftrightarrow> scriptIdx vm < length (scripts vm) \<and> tok_err (tokenizer vm) = None \<and> (\<forall>i\<in>set ins. wf_instr i)
     \<and> tok_offset (tokenizer vm) \<le> length (tok_script (tokenizer vm))
     \<and> drop (tok_offset (tokenizer vm)) (tok_script (tokenizer vm)) = concat (map enc_instr ins)"

definition after_script :: "crypto \<Rightarrow> Engine \<Rightarrow> Engine res" where
  "after_script c vm = rbind (endScript c vm) (\<lambda>(fin, vm). if fin then Inr vm else exec_loop c vm)"

lemma enc_instr_Cons: "enc_instr i \<noteq> []" "length (enc_instr i) > 0"
  by (simp_all add: enc_instr_def)

lemma at_instrs_Next:
  assumes "at_instrs (i # ins) vm"
  shows "Next (tokenizer vm) = (True, tokenizer (advance i vm))" "tok_Done (tokenizer (advance i vm)) \<longleftrightarrow> ins = []"
    "at_instrs ins (advance i vm)" "vm\<lparr>tokenizer := tokenizer (advance i vm)\<rparr> = advance i vm"
proof -
  have d: "drop (tok_offset (tokenizer vm)) (tok_script (tokenizer vm)) = enc_instr i @ concat (map enc_instr ins)"
    using assms by (simp add: at_instrs_def)
  show n: "Next (tokenizer vm) = (True, tokenizer (advance i vm))"
    using Next_complete [of i "tokenizer vm", OF _ _ d] assms by (simp add: at_instrs_def advance_def)
  have r: "drop (tok_offset (tokenizer vm) + length (enc_instr i)) (tok_script (tokenizer vm)) = concat (map enc_instr ins)"
    by (simp only: add.commute [of "tok_offset (tokenizer vm)"] drop_drop [symmetric] d) simp
  show "at_instrs ins (advance i vm)"
    using assms r Next_sound(4) [OF n] by (simp add: at_instrs_def advance_def)
  have "concat (map enc_instr ins) = [] \<longleftrightarrow> ins = []" using enc_instr_Cons by (cases ins) auto
  then show "tok_Done (tokenizer (advance i vm)) \<longleftrightarrow> ins = []"
    using assms r by (auto simp: tok_Done_def advance_def at_instrs_def)
  show "vm\<lparr>tokenizer := tokenizer (advance i vm)\<rparr> = advance i vm" by (simp add: advance_def)
qed

lemma exec_loop_script:
  "at_instrs ins vm \<Longrightarrow> ins \<noteq> [] \<Longrightarrow> exec_loop c vm = rbind (run_ops c ins vm) (after_script c)"
proof (induction ins arbitrary: vm)
  case (Cons i ins)
  note n = at_instrs_Next [OF Cons.prems(1)]
  have idx: "scriptIdx vm < length (scripts vm)" using Cons.prems by (simp add: at_instrs_def)
  have tok: "tok_op (tokenizer (advance i vm)) = fst i" "tok_data (tokenizer (advance i vm)) = snd i" by (simp_all add: advance_def)
  show ?case
  proof (cases "executeOpcode c (fst i) (snd i) (advance i vm)")
    case (Inl e)
    then show ?thesis using n idx tok by (subst exec_loop.simps) (simp add: Step_def Let_def)
  next
    case (Inr vm1)
    have f: "tokenizer vm1 = tokenizer (advance i vm)" "scriptIdx vm1 = scriptIdx vm" "scripts vm1 = scripts vm"
      using executeOpcode_steps [OF Inr] by (simp_all add: steps_def moves_def same_frame_def advance_def)
    let ?vm = "vm1\<lparr>opcodeIdx := opcodeIdx vm1 + 1\<rparr>"
    have at: "at_instrs ins ?vm" using n(3) f by (simp add: at_instrs_def advance_def)
    show ?thesis
    proof (cases "ins = []")
      case True
      then show ?thesis using n idx tok Inr f
        by (subst exec_loop.simps) (simp add: Step_def Let_def stack_items_def Depth_def after_script_def)
    next
      case False
      note ih = Cons.IH [OF at False]
      show ?thesis using False n idx tok Inr f ih
        by (subst exec_loop.simps) (simp add: Step_def Let_def stack_items_def Depth_def)
    qed
  qed
qed simp

section \<open>Spending a pay-to-pubkey-hash output\<close>

definition direct_push :: "bytes \<Rightarrow> instr" where
  "direct_push d = (of_nat (length d), d)"

text \<open>An engine outside conditionals and tapscripts.\<close>

definition plain :: "Engine \<Rightarrow> bool" where
  "plain vm \<longleftrightarrow> condStack vm = [] \<and> taprootCtx vm = None \<and> witnessProgram vm = None \<and> sigCache vm = None"

lemma plain_update [simp]:
  "plain (advance i vm) = plain vm" "plain (vm\<lparr>dstack := d\<rparr>) = plain vm" "plain (vm\<lparr>numOps := n\<rparr>) = plain vm"
  "plain (vm\<lparr>opcodeIdx := n\<rparr>) = plain vm" "plain (vm\<lparr>astack := d\<rparr>) = plain vm" "plain (vm\<lparr>scriptIdx := n\<rparr>) = plain vm"
  "plain (vm\<lparr>lastCodeSep := n\<rparr>) = plain vm" "plain (vm\<lparr>tokenizer := t\<rparr>) = plain vm"
  by (simp_all add: plain_def advance_def)

lemma advance_simps [simp]:
  "dstack (advance i vm) = dstack vm" "astack (advance i vm) = astack vm" "numOps (advance i vm) = numOps vm"
  "opcodeIdx (advance i vm) = opcodeIdx vm" "scripts (advance i vm) = scripts vm" "scriptIdx (advance i vm) = scriptIdx vm"
  "flags (advance i vm) = flags vm" "vm_tx (advance i vm) = vm_tx vm" "txIdx (advance i vm) = txIdx vm"
  "lastCodeSep (advance i vm) = lastCodeSep vm" "bip16 (advance i vm) = bip16 vm"
  by (simp_all add: advance_def)

lemma unat_of_len: "n \<le> 75 \<Longrightarrow> unat (of_nat n :: u8) = n"
  by (simp add: unat_of_nat)

lemma direct_push_wf: "1 \<le> length d \<Longrightarrow> length d \<le> 75 \<Longrightarrow> wf_instr (direct_push d)"
  by (simp add: wf_instr_def direct_push_def word_le_nat_alt unat_of_len)

lemma enc_direct_push: "length d \<le> 75 \<Longrightarrow> enc_instr (direct_push d) = of_nat (length d) # d"
  by (auto simp: enc_instr_def direct_push_def len_width_def word_unat_eq_iff unat_of_len)

lemma exec_direct_push:
  assumes "2 \<le> length d" "length d \<le> 75" "plain vm"
  shows "executeOpcode c (fst (direct_push d)) (snd (direct_push d)) vm = Inr (with_stack (stk (dstack vm) @ [d]) vm)"
proof -
  let ?op = "of_nat (length d) :: u8"
  have u: "unat ?op = length d" using assms by (simp add: unat_of_len)
  have "\<not> isOpcodeDisabled ?op" "\<not> isOpcodeAlwaysIllegal ?op"
    using assms(2) u by (auto simp: isOpcodeDisabled_def isOpcodeAlwaysIllegal_def dest!: arg_cong [where f = unat])
  moreover have "countOp ?op d vm = Inr vm"
    using assms u by (auto simp: countOp_def word_less_nat_alt MaxScriptElementSize_def)
  moreover have "checkMinimalDataPush ?op d = Inr ()" using assms u by (auto simp: checkMinimalDataPush_def Let_def)
  moreover have "opfunc ?op c ?op d vm = Inr (push d vm)"
    using assms u by (simp add: opfunc_def word_le_nat_alt opcodePushData_def)
  ultimately show ?thesis
    using assms(3) by (simp add: direct_push_def executeOpcode_def plain_def isBranchExecuting_def push_def PushByteArray_def)
qed

lemma exec_op:
  assumes "\<not> isOpcodeDisabled op" "\<not> isOpcodeAlwaysIllegal op" "op > OP_16" "plain vm" "numOps vm < MaxOpsPerScript"
  shows "executeOpcode c op [] vm = opfunc op c op [] (vm\<lparr>numOps := numOps vm + 1\<rparr>)"
proof -
  have "\<not> op \<le> OP_PUSHDATA4" using assms(3) by (simp add: word_le_nat_alt word_less_nat_alt)
  then show ?thesis
    using assms by (simp add: executeOpcode_def countOp_def Let_def plain_def isBranchExecuting_def)
qed

lemma opfunc_p2pkh:
  "opfunc OP_DUP = (\<lambda>c op data vm. opcodeDup vm)" "opfunc OP_HASH160 = (\<lambda>c op data vm. opcodeHash160 c vm)"
  "opfunc OP_EQUALVERIFY = (\<lambda>c op data vm. opcodeEqualVerify vm)" "opfunc OP_CHECKSIG = (\<lambda>c op data vm. opcodeCheckSig c vm)"
  unfolding opfunc_def opcodeArray_def by simp_all

lemma opcodeDup_snoc: "stk (dstack vm) = xs @ [x] \<Longrightarrow> opcodeDup vm = Inr (with_stack (xs @ [x, x]) vm)"
  by (simp add: opcodeDup_def on_dstack_def DupN_spec Depth_def stk_abs_def stk_mk_def)

lemma opcodeHash160_snoc: "stk (dstack vm) = xs @ [x] \<Longrightarrow> opcodeHash160 c vm = Inr (with_stack (xs @ [ripemd160 c (sha256 c x)]) vm)"
  by (simp add: opcodeHash160_def hash_op_def pop_snoc push_def PushByteArray_def)

lemma opcodeEqualVerify_snoc:
  "stk (dstack vm) = xs @ [x, y] \<Longrightarrow> opcodeEqualVerify vm = (if x = y then Inr (with_stack xs vm) else Inl ErrEqualVerify)"
  using pop_snoc [of vm "xs @ [x]" y] pop_snoc [of "with_stack (xs @ [x]) vm" xs x]
  by (auto simp: opcodeEqualVerify_def opcodeEqual_def abstractVerify_def pushBool_def PushBool_def PushByteArray_def
      popBool_snoc asBool_fromBool)

text \<open>What a signature check of a script outside witnesses accepts: encodings the flags allow, a key and a
  signature that parse, and a signature of the hash of the transaction with the given script.\<close>

definition signed_by :: "crypto \<Rightarrow> Engine \<Rightarrow> bytes \<Rightarrow> bytes \<Rightarrow> bytes \<Rightarrow> bool" where
  "signed_by c vm script pk sig \<longleftrightarrow> checkHashTypeEncoding vm (ucast (last sig)) = Inr ()
     \<and> checkSignatureEncoding c vm (butlast sig) = Inr () \<and> checkPubKeyEncoding vm pk = Inr ()
     \<and> (\<exists>k s h. ParsePubKey c pk = Some k \<and> parse_ecdsa c vm (butlast sig) = Some s
          \<and> calcSignatureHash c script (ucast (last sig)) (vm_tx vm) (txIdx vm) = Inr h \<and> ecdsa_Verify c s h k)"


lemma finishCheckSig_base:
  "taprootCtx vm = None \<Longrightarrow> length sig > 0 \<Longrightarrow> finishCheckSig sig (Inr (valid, False, vm))
   = (if \<not> valid \<and> hasFlag vm ScriptVerifyNullFail then Inl ErrNullFail else Inr (pushBool valid vm))"
  by (simp add: finishCheckSig_def)

lemma parse_or_err_cases: "parse_or_err x = (case x of None \<Rightarrow> Inl ErrOther | Some y \<Rightarrow> Inr y)"
  by (simp add: parse_or_err_def split: option.split)

lemma checkSig_base:
  assumes "plain vm" "sig \<noteq> []" "subScript vm = Inr script" "removeOpcodeByData script sig = (script, False)"
  shows "signed_by c vm script pk sig \<and> checkSig_ecdsa c base_Verify pk sig vm = Inr (pushBool True vm)
    \<or> \<not> signed_by c vm script pk sig \<and> (\<exists>e. checkSig_ecdsa c base_Verify pk sig vm \<in> {Inl e, Inr (pushBool False vm)})"
proof (cases "newBaseSigVerifier c pk sig vm")
  case (Inl e)
  then have "\<not> signed_by c vm script pk sig"
    using assms(2,3) by (auto simp: newBaseSigVerifier_def parseBaseSigAndPubkey_def signed_by_def Let_def parse_or_err_cases)
  then show ?thesis using Inl by (simp add: checkSig_ecdsa_def)
next
  case (Inr b)
  have n: "newBaseSigVerifier c pk sig vm = Inr b" by (fact Inr)
  have p: "checkHashTypeEncoding vm (ucast (last sig)) = Inr ()" "checkSignatureEncoding c vm (butlast sig) = Inr ()"
    "checkPubKeyEncoding vm pk = Inr ()" "ParsePubKey c pk = Some (bv_pubKey b)" "parse_ecdsa c vm (butlast sig) = Some (bv_sig b)"
    "bv_subScript b = script" "bv_fullSigBytes b = sig" "bv_hashType b = ucast (last sig)"
    using n assms(2,3) by (auto simp: newBaseSigVerifier_def parseBaseSigAndPubkey_def Let_def parse_or_err_cases
        elim!: rbindE split: option.split_asm if_split_asm)
  show ?thesis
  proof (cases "calcSignatureHash c script (ucast (last sig)) (vm_tx vm) (txIdx vm)")
    case (Inl e)
    then show ?thesis using n p assms(4) by (simp add: checkSig_ecdsa_def base_Verify_def finishCheckSig_def signed_by_def)
  next
    case (Inr h)
    have v: "base_Verify c b vm = Inr (ecdsa_Verify c (bv_sig b) h (bv_pubKey b), False, vm)"
      using Inr p assms(1,4) by (simp add: base_Verify_def base_verifySig_def ecdsa_cached_def plain_def)
    have "signed_by c vm script pk sig \<longleftrightarrow> ecdsa_Verify c (bv_sig b) h (bv_pubKey b)"
      using p Inr by (simp add: signed_by_def)
    then show ?thesis
      using v n assms(1,2) by (auto simp: checkSig_ecdsa_def finishCheckSig_base plain_def)
  qed
qed

lemma opcodeCheckSig_snoc:
  assumes "stk (dstack vm) = xs @ [sig, pk]" "plain vm" "sig \<noteq> []"
  shows "opcodeCheckSig c vm = checkSig_ecdsa c base_Verify pk sig (with_stack xs vm)"
  using pop_snoc [of vm "xs @ [sig]" pk] pop_snoc [of "with_stack (xs @ [sig]) vm" xs sig] assms
  by (simp add: opcodeCheckSig_def plain_def)

text \<open>The end of the two scripts of a plain spend.\<close>

lemma after_first:
  assumes "plain vm" "scripts vm = [s0, s1]" "s1 \<noteq> []" "scriptIdx vm = 0" "bip16 vm = False" "vm_version vm = 0" "stk (astack vm) = []"
  shows "after_script c vm = exec_loop c (vm\<lparr>numOps := 0, opcodeIdx := 0, scriptIdx := 1, lastCodeSep := 0,
     tokenizer := MakeScriptTokenizer 0 s1\<rparr>)"
proof -
  have "ignore_err (astack vm) (DropN (astack vm) (Depth (astack vm))) = astack vm"
    using assms(7) by (simp add: DropN_def Depth_def ignore_err_def)
  then show ?thesis using assms by (simp add: after_script_def endScript_def nextScript_def plain_def Let_def)
qed

lemma after_last:
  assumes "plain vm" "scripts vm = [s0, s1]" "scriptIdx vm = 1" "bip16 vm = False" "vm_version vm = 0" "stk (dstack vm) = [x]"
  shows "(\<exists>vm'. rbind (after_script c vm) (\<lambda>vm. CheckErrorCondition vm True) = Inr vm') \<longleftrightarrow> asBool x"
proof -
  obtain vm1 where v: "after_script c vm = Inr vm1" "plain vm1" "scripts vm1 = [s0, s1]" "scriptIdx vm1 = 2" "stk (dstack vm1) = [x]"
    using assms by (auto simp: after_script_def endScript_def nextScript_def plain_def Let_def)
  then have "popBool vm1 = Inr (asBool x, with_stack [] vm1)" using popBool_snoc [of vm1 "[]" x] by simp
  then show ?thesis using v by (simp add: CheckErrorCondition_def plain_def isWitnessVersionActive_def Depth_def Let_def)
qed

text \<open>An engine in the middle of a plain script: only the position, the data stack and the operation count differ
  from the engine the script began with.\<close>

definition mid :: "Engine \<Rightarrow> bytes list \<Rightarrow> nat \<Rightarrow> Engine \<Rightarrow> bool" where
  "mid vm xs k vm' \<longleftrightarrow> plain vm \<and> stk (astack vm) = []
     \<and> (\<exists>t n. vm' = vm\<lparr>tokenizer := t, opcodeIdx := n, dstack := (dstack vm)\<lparr>stk := xs\<rparr>, numOps := k\<rparr>)"

lemma mid_simps:
  assumes "mid vm xs k vm'"
  shows "plain vm'" "stk (dstack vm') = xs" "numOps vm' = k" "stk (astack vm') = []" "mid vm xs k (advance i vm')"
    "mid vm ys k (with_stack ys vm')" "mid vm xs m (vm'\<lparr>numOps := m\<rparr>)" "mid vm xs k (vm'\<lparr>opcodeIdx := j\<rparr>)"
    "scripts vm' = scripts vm" "scriptIdx vm' = scriptIdx vm" "bip16 vm' = bip16 vm" "vm_version vm' = vm_version vm"
    "lastCodeSep vm' = lastCodeSep vm"
proof -
  obtain t n where v: "vm' = vm\<lparr>tokenizer := t, opcodeIdx := n, dstack := (dstack vm)\<lparr>stk := xs\<rparr>, numOps := k\<rparr>"
    using assms by (auto simp: mid_def)
  have a: "plain vm" "stk (astack vm) = []" using assms by (auto simp: mid_def)
  show "plain vm'" "stk (dstack vm') = xs" "numOps vm' = k" "stk (astack vm') = []" 
    "scripts vm' = scripts vm" "scriptIdx vm' = scriptIdx vm" "bip16 vm' = bip16 vm" "vm_version vm' = vm_version vm"
    "lastCodeSep vm' = lastCodeSep vm"
    using a by (simp_all add: v)
  have "advance i vm' = vm\<lparr>tokenizer := tokenizer (advance i vm'), opcodeIdx := n, dstack := (dstack vm)\<lparr>stk := xs\<rparr>, numOps := k\<rparr>"
    "with_stack ys vm' = vm\<lparr>tokenizer := t, opcodeIdx := n, dstack := (dstack vm)\<lparr>stk := ys\<rparr>, numOps := k\<rparr>"
    "vm'\<lparr>numOps := m\<rparr> = vm\<lparr>tokenizer := t, opcodeIdx := n, dstack := (dstack vm)\<lparr>stk := xs\<rparr>, numOps := m\<rparr>"
    "vm'\<lparr>opcodeIdx := j\<rparr> = vm\<lparr>tokenizer := t, opcodeIdx := j, dstack := (dstack vm)\<lparr>stk := xs\<rparr>, numOps := k\<rparr>"
    by (rule Engine.equality; simp add: v advance_def)+
  then show "mid vm xs k (advance i vm')" "mid vm ys k (with_stack ys vm')" "mid vm xs m (vm'\<lparr>numOps := m\<rparr>)" "mid vm xs k (vm'\<lparr>opcodeIdx := j\<rparr>)"
    using a unfolding mid_def by blast+
qed

lemma run_op_mid:
  assumes "executeOpcode c (fst i) (snd i) (advance i vm1) = Inr vm2" "mid vm xs k vm2" "length xs \<le> MaxStackSize"
  shows "\<exists>vm3. run_ops c (i # ins) vm1 = run_ops c ins vm3 \<and> mid vm xs k vm3"
  using assms mid_simps [OF assms(2)] by (auto simp: stack_items_def intro!: exI) 

declare run_ops.simps(2) [simp del]

lemma run_push_mid:
  assumes "2 \<le> length d" "length d \<le> 75" "mid vm xs k vm1" "length xs < MaxStackSize"
  obtains vm2 where "run_ops c (direct_push d # ins) vm1 = run_ops c ins vm2" "mid vm (xs @ [d]) k vm2"
proof -
  note m = mid_simps(5) [OF assms(3), of "direct_push d"]
  have "executeOpcode c (fst (direct_push d)) (snd (direct_push d)) (advance (direct_push d) vm1)
      = Inr (with_stack (xs @ [d]) (advance (direct_push d) vm1))"
    using exec_direct_push [OF assms(1,2) mid_simps(1) [OF m]] mid_simps(2) [OF m] by simp
  then show thesis using run_op_mid [OF _ mid_simps(6) [OF m]] assms(4) that by fastforce
qed

lemma exec_op_mid:
  assumes "mid vm xs k vm1" "k < MaxOpsPerScript" "\<not> isOpcodeDisabled op" "\<not> isOpcodeAlwaysIllegal op" "op > OP_16"
  obtains v where "executeOpcode c op [] (advance (op, []) vm1) = opfunc op c op [] v" "mid vm xs (k + 1) v"
proof (rule that)
  let ?v = "(advance (op, []) vm1)\<lparr>numOps := k + 1\<rparr>"
  show "executeOpcode c op [] (advance (op, []) vm1) = opfunc op c op [] ?v"
    using assms mid_simps(1,3) [OF assms(1)] by (simp add: exec_op)
  show "mid vm xs (k + 1) ?v" by (rule mid_simps(7) [OF mid_simps(5) [OF assms(1)]])
qed

lemma p2pkh_opcodes:
  "op \<in> {OP_DUP, OP_HASH160, OP_EQUALVERIFY, OP_CHECKSIG} \<Longrightarrow> \<not> isOpcodeDisabled op \<and> \<not> isOpcodeAlwaysIllegal op \<and> op > OP_16"
  by (auto simp: isOpcodeDisabled_def isOpcodeAlwaysIllegal_def)

lemma run_dup_mid:
  assumes "mid vm (xs @ [x]) k vm1" "k < MaxOpsPerScript" "length xs + 2 \<le> MaxStackSize"
  obtains vm2 where "run_ops c ((OP_DUP, []) # ins) vm1 = run_ops c ins vm2" "mid vm (xs @ [x, x]) (k + 1) vm2"
proof -
  obtain v where v: "executeOpcode c OP_DUP [] (advance (OP_DUP, []) vm1) = opcodeDup v" "mid vm (xs @ [x]) (k + 1) v"
    using exec_op_mid [OF assms(1,2), of OP_DUP] p2pkh_opcodes [of OP_DUP] by (auto simp: opfunc_p2pkh)
  show thesis
    using run_op_mid [of c "(OP_DUP, [])" vm1 _ vm "xs @ [x, x]" "k + 1" ins] v mid_simps(6) [OF v(2)] opcodeDup_snoc [OF mid_simps(2) [OF v(2)]]
      assms(3) that by auto
qed

lemma run_hash_mid:
  assumes "mid vm (xs @ [x]) k vm1" "k < MaxOpsPerScript" "length xs + 1 \<le> MaxStackSize"
  obtains vm2 where "run_ops c ((OP_HASH160, []) # ins) vm1 = run_ops c ins vm2" "mid vm (xs @ [ripemd160 c (sha256 c x)]) (k + 1) vm2"
proof -
  obtain v where v: "executeOpcode c OP_HASH160 [] (advance (OP_HASH160, []) vm1) = opcodeHash160 c v" "mid vm (xs @ [x]) (k + 1) v"
    using exec_op_mid [OF assms(1,2), of OP_HASH160] p2pkh_opcodes [of OP_HASH160] by (auto simp: opfunc_p2pkh)
  show thesis
    using run_op_mid [of c "(OP_HASH160, [])" vm1 _ vm "xs @ [ripemd160 c (sha256 c x)]" "k + 1" ins] v mid_simps(6) [OF v(2)]
      opcodeHash160_snoc [OF mid_simps(2) [OF v(2)]] assms(3) that by auto
qed

lemma run_equalverify_mid:
  assumes "mid vm (xs @ [x, y]) k vm1" "k < MaxOpsPerScript" "length xs \<le> MaxStackSize"
  obtains vm2 where "run_ops c ((OP_EQUALVERIFY, []) # ins) vm1 = (if x = y then run_ops c ins vm2 else Inl ErrEqualVerify)"
    "mid vm xs (k + 1) vm2"
proof -
  obtain v where v: "executeOpcode c OP_EQUALVERIFY [] (advance (OP_EQUALVERIFY, []) vm1) = opcodeEqualVerify v" "mid vm (xs @ [x, y]) (k + 1) v"
    using exec_op_mid [OF assms(1,2), of OP_EQUALVERIFY] p2pkh_opcodes [of OP_EQUALVERIFY] by (auto simp: opfunc_p2pkh)
  note e = opcodeEqualVerify_snoc [OF mid_simps(2) [OF v(2)]]
  show thesis
  proof (cases "x = y")
    case True
    then show thesis
      using run_op_mid [of c "(OP_EQUALVERIFY, [])" vm1 _ vm xs "k + 1" ins] v(1) mid_simps(6) [OF v(2)] e assms(3) that by auto
  next
    case False
    then show thesis using e v(1) mid_simps(6) [OF v(2), of xs] that by (auto simp: run_ops.simps(2))
  qed
qed

definition p2pkh_ops :: "bytes \<Rightarrow> instr list" where
  "p2pkh_ops h = [(OP_DUP, []), (OP_HASH160, []), direct_push h, (OP_EQUALVERIFY, []), (OP_CHECKSIG, [])]"

lemma run_p2pkh_prefix:
  assumes "length h = 20" "mid vm [sig, pk] 0 vm1"
  obtains vm2 where "run_ops c (p2pkh_ops h) vm1 = (if ripemd160 c (sha256 c pk) = h then run_ops c [(OP_CHECKSIG, [])] vm2 else Inl ErrEqualVerify)"
    "mid vm [sig, pk] 3 vm2"
proof -
  obtain v1 where 1: "run_ops c (p2pkh_ops h) vm1 = run_ops c [(OP_HASH160, []), direct_push h, (OP_EQUALVERIFY, []), (OP_CHECKSIG, [])] v1"
    "mid vm [sig, pk, pk] 1 v1"
    by (rule run_dup_mid [of vm "[sig]" pk 0 vm1 c "[(OP_HASH160, []), direct_push h, (OP_EQUALVERIFY, []), (OP_CHECKSIG, [])]"]) (use assms in \<open>simp_all add: MaxOpsPerScript_def MaxStackSize_def p2pkh_ops_def\<close>)
  obtain v2 where 2: "run_ops c [(OP_HASH160, []), direct_push h, (OP_EQUALVERIFY, []), (OP_CHECKSIG, [])] v1
      = run_ops c [direct_push h, (OP_EQUALVERIFY, []), (OP_CHECKSIG, [])] v2" "mid vm [sig, pk, ripemd160 c (sha256 c pk)] 2 v2"
    by (rule run_hash_mid [of vm "[sig, pk]" pk 1 v1 c "[direct_push h, (OP_EQUALVERIFY, []), (OP_CHECKSIG, [])]"]) (use 1 in \<open>simp_all add: MaxOpsPerScript_def MaxStackSize_def numeral_2_eq_2\<close>)
  obtain v3 where 3: "run_ops c [direct_push h, (OP_EQUALVERIFY, []), (OP_CHECKSIG, [])] v2 = run_ops c [(OP_EQUALVERIFY, []), (OP_CHECKSIG, [])] v3"
    "mid vm [sig, pk, ripemd160 c (sha256 c pk), h] 2 v3"
    by (rule run_push_mid [OF _ _ 2(2), of h c "[(OP_EQUALVERIFY, []), (OP_CHECKSIG, [])]"]) (use assms in \<open>simp_all add: MaxStackSize_def\<close>)
  obtain v4 where 4: "run_ops c [(OP_EQUALVERIFY, []), (OP_CHECKSIG, [])] v3
      = (if ripemd160 c (sha256 c pk) = h then run_ops c [(OP_CHECKSIG, [])] v4 else Inl ErrEqualVerify)" "mid vm [sig, pk] 3 v4"
    by (rule run_equalverify_mid [of vm "[sig, pk]" "ripemd160 c (sha256 c pk)" h 2 v3 c "[(OP_CHECKSIG, [])]"])
      (use 3 in \<open>simp_all add: MaxOpsPerScript_def MaxStackSize_def numeral_3_eq_3 numeral_2_eq_2\<close>)
  show thesis by (rule that [of v4]) (use 1(1) 2(1) 3(1) 4 in simp_all)
qed

lemma p2pkh_script:
  assumes "payToPubKeyHashScript h = (script, None)" "length h = 20"
  shows "script = concat (map enc_instr (p2pkh_ops h))" "\<forall>i\<in>set (p2pkh_ops h). wf_instr i" "length script = 25" "script ! 0 = OP_DUP"
proof -
  have e: "script = [OP_DUP, OP_HASH160, 20] @ h @ [OP_EQUALVERIFY, OP_CHECKSIG]"
    using assms by (simp add: payToPubKeyHashScript_def bld_Script_def AddOp_ok AddData_direct)
  then show "script = concat (map enc_instr (p2pkh_ops h))"
    using assms(2) enc_direct_push [of h] by (simp add: p2pkh_ops_def enc_instr_def [of "(op, [])" for op] len_width_def)
  show "\<forall>i\<in>set (p2pkh_ops h). wf_instr i"
    using assms(2) direct_push_wf [of h] by (simp add: p2pkh_ops_def) (simp add: wf_instr_def)
  show "length script = 25" "script ! 0 = OP_DUP" using e assms(2) by simp_all
qed

lemma p2pkh_not_program:
  assumes "length script = 25" "script ! 0 = OP_DUP"
  shows "\<not> isWitnessProgramScript script" "\<not> isScriptHashScript script"
proof -
  have "tok_op t = OP_DUP" if "Next (MakeScriptTokenizer 0 script) = (True, t)" for t
    using Next_offset(2) [OF that] assms(2) by (simp add: MakeScriptTokenizer_def)
  then show "\<not> isWitnessProgramScript script"
    by (auto simp: isWitnessProgramScript_def extractWitnessProgramInfo_def IsSmallInt_def split: prod.split)
  show "\<not> isScriptHashScript script" using assms by (simp add: isScriptHashScript_def extractScriptHash_def)
qed

lemma plain_start:
  assumes "NewEngine scriptPubKey tx idx fl None hc amt fetch = Inr vm" "SignatureScript (MsgTxIn tx ! nat idx) = scriptSig"
    "scriptSig \<noteq> []" "\<not> isWitnessProgramScript scriptPubKey" "\<not> isScriptHashScript scriptPubKey"
  shows "plain vm" "scripts vm = [scriptSig, scriptPubKey]" "scriptIdx vm = 0" "bip16 vm = False" "vm_version vm = 0"
    "tokenizer vm = MakeScriptTokenizer 0 scriptSig" "numOps vm = 0" "stk (dstack vm) = []" "stk (astack vm) = []"
proof -
  obtain p2sh vm0 vm1 where e: "p2sh \<longrightarrow> isScriptHashScript scriptPubKey"
    and v0: "vm0 = (emptyEngine fl tx (nat idx) None hc amt fetch)\<lparr>bip16 := p2sh, scripts := [scriptSig, scriptPubKey],
       scriptIdx := (if length scriptSig = 0 then 1 else 0),
       dstack := \<lparr>stk = [], verifyMinimalData = hasFlag vm0 ScriptVerifyMinimalData\<rparr>,
       astack := \<lparr>stk = [], verifyMinimalData = hasFlag vm0 ScriptVerifyMinimalData\<rparr>\<rparr>"
    and w: "witness_mode scriptSig scriptPubKey (Witness (MsgTxIn tx ! nat idx)) vm0 = Inr vm1"
    and vm: "vm = vm1\<lparr>tokenizer := MakeScriptTokenizer 0 (scripts vm1 ! scriptIdx vm1)\<rparr>"
    using NewEngine_cases [OF assms(1)] assms(2) by metis
  have f: "vm_version vm0 = 0" "bip16 vm0 = False" "sigCache vm0 = None" "scripts vm0 = [scriptSig, scriptPubKey]" "scriptIdx vm0 = 0"
    "stk (dstack vm0) = []" "stk (astack vm0) = []" "condStack vm0 = []" "numOps vm0 = 0" "taprootCtx vm0 = None" "witnessProgram vm0 = None"
    using e assms(3,5) by (subst v0, simp add: emptyEngine_def)+
  have "vm1 = vm0" using w by (cases rule: witness_mode_Inr) (use assms(3,4) f in simp_all)
  then show "plain vm" "scripts vm = [scriptSig, scriptPubKey]" "scriptIdx vm = 0" "bip16 vm = False" "vm_version vm = 0"
    "tokenizer vm = MakeScriptTokenizer 0 scriptSig" "numOps vm = 0" "stk (dstack vm) = []" "stk (astack vm) = []"
    using f vm by (simp_all add: plain_def)
qed

lemma signed_by_cong:
  assumes "flags vm' = flags vm" "witnessProgram vm' = witnessProgram vm" "witnessVersion vm' = witnessVersion vm"
    "vm_tx vm' = vm_tx vm" "txIdx vm' = txIdx vm"
  shows "signed_by c vm' script pk sig = signed_by c vm script pk sig"
proof -
  have "hasFlag vm' = hasFlag vm" "isWitnessVersionActive vm' = isWitnessVersionActive vm"
    using assms by (auto simp: hasFlag_def isWitnessVersionActive_def)
  then show ?thesis
    unfolding signed_by_def checkHashTypeEncoding_def checkSignatureEncoding_def checkPubKeyEncoding_def parse_ecdsa_def
    using assms(4,5) by (simp only:)
qed

lemma signed_by_mid:
  assumes "mid vm xs k vm'"
  shows "signed_by c vm' script pk sig = signed_by c vm script pk sig"
  using assms by (intro signed_by_cong) (auto simp: mid_def)

lemma signed_by_moved:
  "signed_by c (vm\<lparr>numOps := n, opcodeIdx := j, scriptIdx := i, lastCodeSep := l, tokenizer := t\<rparr>) script pk sig = signed_by c vm script pk sig"
  by (intro signed_by_cong) simp_all

lemma p2pkh_unchanged:
  assumes "payToPubKeyHashScript h = (script, None)" "length h = 20" "length sig \<noteq> 20" "sig \<noteq> []"
  shows "removeOpcodeByData script sig = (script, False)"
proof -
  note k = p2pkh_script [OF assms(1,2)]
  have i: "script_instrs script = p2pkh_ops h" "script_err script = None" using script_instrs_enc [OF k(2)] k(1) by simp_all
  have "\<forall>i\<in>set (p2pkh_ops h). snd i \<noteq> sig" using assms(2-4) by (auto simp: p2pkh_ops_def direct_push_def)
  then show ?thesis using removeOpcodeByData_eq [OF i(2) assms(4)] i(1) k(1) by (auto simp: filter_id_conv)
qed

text \<open>The end of the run: a signature check that leaves one item.\<close>

lemma run_checksig_mid:
  assumes "mid vm [sig, pk] 3 vm1" "scripts vm = [s0, script]" "scriptIdx vm = 1" "bip16 vm = False" "vm_version vm = 0"
    "lastCodeSep vm = 0" "sig \<noteq> []" "removeOpcodeByData script sig = (script, False)"
  shows "(\<exists>vm'. rbind (rbind (run_ops c [(OP_CHECKSIG, [])] vm1) (after_script c)) (\<lambda>vm. CheckErrorCondition vm True) = Inr vm')
    \<longleftrightarrow> signed_by c vm script pk sig"
proof -
  obtain v where v: "executeOpcode c OP_CHECKSIG [] (advance (OP_CHECKSIG, []) vm1) = opcodeCheckSig c v" "mid vm [sig, pk] 4 v"
    using exec_op_mid [OF assms(1), of OP_CHECKSIG] p2pkh_opcodes [of OP_CHECKSIG] by (auto simp: opfunc_p2pkh MaxOpsPerScript_def)
  let ?w = "with_stack [] v"
  note m = mid_simps [OF mid_simps(6) [OF v(2), of "[]"]]
  have cs: "opcodeCheckSig c v = checkSig_ecdsa c base_Verify pk sig ?w"
    using opcodeCheckSig_snoc [of v "[]" sig pk] mid_simps(1,2) [OF v(2)] assms(7) by simp
  have "subScript ?w = Inr script" using m(9,10,13) assms(2,3,6) by (simp add: subScript_def)
  note cb = checkSig_base [OF m(1) assms(7) this assms(8), of c pk]
  have fin: "(\<exists>vm'. rbind (rbind (run_ops c [(OP_CHECKSIG, [])] vm1) (after_script c)) (\<lambda>vm. CheckErrorCondition vm True) = Inr vm') \<longleftrightarrow> b"
    if "checkSig_ecdsa c base_Verify pk sig ?w = Inr (pushBool b ?w)" for b
  proof -
    have p: "pushBool b ?w = with_stack [fromBool b] v" by (simp add: pushBool_def PushBool_def PushByteArray_def)
    have r: "run_ops c [(OP_CHECKSIG, [])] vm1 = Inr ((with_stack [fromBool b] v)\<lparr>opcodeIdx := opcodeIdx v + 1\<rparr>)"
      using v(1) cs that mid_simps(4) [OF v(2)] by (simp add: p run_ops.simps(2) stack_items_def MaxStackSize_def)
    note q = mid_simps [OF mid_simps(8) [OF mid_simps(6) [OF v(2), of "[fromBool b]"], of "opcodeIdx v + 1"]]
    show ?thesis using after_last [OF q(1) _ _ _ _ q(2), of s0 script c] q(9-12) assms(2-5) r by simp
  qed
  have err: "\<not> (\<exists>vm'. rbind (rbind (run_ops c [(OP_CHECKSIG, [])] vm1) (after_script c)) (\<lambda>vm. CheckErrorCondition vm True) = Inr vm')"
    if "checkSig_ecdsa c base_Verify pk sig ?w = Inl e" for e
    using v(1) cs that by (simp add: run_ops.simps(2))
  show ?thesis
    using cb fin [of True] fin [of False] err signed_by_mid [OF mid_simps(6) [OF v(2), of "[]"], of c script pk sig] by auto
qed

text \<open>C4: A pay-to-pubkey-hash output is spent exactly by its owner. For an output script made for a key hash and a
  signature script that the builder makes of a signature and a key, the engine accepts the spend if and
  only if the key hashes to the hash of the output and the signature, in an encoding the flags allow,
  verifies under the key for the signature hash of the transaction with the output script.\<close>

theorem p2pkh_spend_iff:
  assumes "payToPubKeyHashScript h = (scriptPubKey, None)" "length h = 20"
    and "bld_Script (AddData pk (AddData sig NewScriptBuilder)) = (scriptSig, None)"
    and "2 \<le> length sig" "length sig \<le> 75" "2 \<le> length pk" "length pk \<le> 75" "length sig \<noteq> 20"
    and "NewEngine scriptPubKey tx idx fl None hc amt fetch = Inr vm" "SignatureScript (MsgTxIn tx ! nat idx) = scriptSig"
  shows "(\<exists>vm'. Execute c vm = Inr vm') \<longleftrightarrow> ripemd160 c (sha256 c pk) = h \<and> signed_by c vm scriptPubKey pk sig"
proof -
  note k = p2pkh_script [OF assms(1,2)]
  let ?ins = "[direct_push sig, direct_push pk]"
  have s: "scriptSig = concat (map enc_instr ?ins)" "\<forall>i\<in>set ?ins. wf_instr i" "scriptSig \<noteq> []"
    using assms(3-7) by (auto simp: bld_Script_def AddData_direct enc_direct_push direct_push_wf)
  note st = plain_start [OF assms(9,10) s(3) p2pkh_not_program [OF k(3,4)]]
  have "at_instrs ?ins vm" using st s by (simp add: at_instrs_def MakeScriptTokenizer_def)
  then have run1: "exec_loop c vm = rbind (run_ops c ?ins vm) (after_script c)" by (rule exec_loop_script) simp
  have "vm = vm\<lparr>tokenizer := tokenizer vm, opcodeIdx := opcodeIdx vm, dstack := (dstack vm)\<lparr>stk := []\<rparr>, numOps := 0\<rparr>"
    using st by (intro Engine.equality stack.equality) simp_all
  then have "mid vm [] 0 vm" using st unfolding mid_def by metis
  then obtain v1 where 1: "run_ops c ?ins vm = run_ops c [direct_push pk] v1" "mid vm ([] @ [sig]) 0 v1"
    by (rule run_push_mid [OF assms(4,5)]) (simp add: MaxStackSize_def)
  obtain v2 where 2: "run_ops c [direct_push pk] v1 = run_ops c [] v2" "mid vm (([] @ [sig]) @ [pk]) 0 v2"
    by (rule run_push_mid [OF assms(6,7) 1(2)]) (simp add: MaxStackSize_def)
  note m2 = mid_simps [OF 2(2)]
  let ?v3 = "v2\<lparr>numOps := 0, opcodeIdx := 0, scriptIdx := 1, lastCodeSep := 0, tokenizer := MakeScriptTokenizer 0 scriptPubKey\<rparr>"
  have "scriptPubKey \<noteq> []" using k(3) by auto
  then have run2: "after_script c v2 = exec_loop c ?v3" using after_first [OF m2(1), of scriptSig scriptPubKey c] m2(4,9-12) st by simp
  have p3: "plain ?v3" "stk (astack ?v3) = []" using m2 by simp_all
  have "at_instrs (p2pkh_ops h) ?v3" using st m2(9,10) k by (simp add: at_instrs_def MakeScriptTokenizer_def)
  then have run3: "exec_loop c ?v3 = rbind (run_ops c (p2pkh_ops h) ?v3) (after_script c)"
    by (rule exec_loop_script) (simp add: p2pkh_ops_def)
  have "mid ?v3 [sig, pk] 0 ?v3"
    using p3 m2(2) by (auto simp: mid_def intro!: exI Engine.equality stack.equality)
  then obtain v4 where 4: "run_ops c (p2pkh_ops h) ?v3 =
      (if ripemd160 c (sha256 c pk) = h then run_ops c [(OP_CHECKSIG, [])] v4 else Inl ErrEqualVerify)" "mid ?v3 [sig, pk] 3 v4"
    by (rule run_p2pkh_prefix [OF assms(2)])
  have rm: "removeOpcodeByData scriptPubKey sig = (scriptPubKey, False)"
    using p2pkh_unchanged [OF assms(1,2), of sig] assms(4,8) by (cases sig) auto
  have "signed_by c ?v3 scriptPubKey pk sig = signed_by c vm scriptPubKey pk sig"
    using signed_by_mid [OF 2(2), of c scriptPubKey pk sig] signed_by_moved by simp
  moreover have "(\<exists>vm'. rbind (rbind (run_ops c [(OP_CHECKSIG, [])] v4) (after_script c)) (\<lambda>vm. CheckErrorCondition vm True) = Inr vm')
    \<longleftrightarrow> signed_by c ?v3 scriptPubKey pk sig"
    by (rule run_checksig_mid [OF 4(2)]) (use st m2(9,11,12) assms(4) rm in auto)
  moreover have "Execute c vm = rbind (rbind (run_ops c (p2pkh_ops h) ?v3) (after_script c)) (\<lambda>vm. CheckErrorCondition vm True)"
    using st(5) run1 1(1) 2(1) run2 run3 by (simp add: Execute_def)
  ultimately show ?thesis using 4(1) by simp
qed

definition p2pkh_example :: "bytes \<times> bytes \<times> bytes \<times> bytes" where
  "p2pkh_example = (fst (payToPubKeyHashScript (replicate 20 7)),
     fst (bld_Script (AddData (replicate 33 2) (AddData (replicate 22 1) NewScriptBuilder))), replicate 33 2, replicate 22 1)"

lemma p2pkh_example_runs:
  "case p2pkh_example of (out, scriptSig, pk, sig) \<Rightarrow>
     res_is (\<lambda>_. False) (\<lambda>vm. res_is (\<lambda>_. False) (\<lambda>_. True) (Execute small_crypto vm)) (spend out scriptSig [] ScriptBip16)"
  by code_simp

lemma res_is_Inr: "res_is (\<lambda>_. False) q r \<Longrightarrow> \<exists>x. r = Inr x \<and> q x"
  by (cases r) (simp_all add: res_is_def)

theorem p2pkh_spend_iff_witness:
  "\<exists>out scriptSig pk sig vm. p2pkh_example = (out, scriptSig, pk, sig) \<and> spend out scriptSig [] ScriptBip16 = Inr vm
     \<and> signed_by small_crypto vm out pk sig"
proof -
  obtain out scriptSig pk sig where e: "p2pkh_example = (out, scriptSig, pk, sig)" by (cases p2pkh_example)
  obtain vm where r: "spend out scriptSig [] ScriptBip16 = Inr vm" "\<exists>vm'. Execute small_crypto vm = Inr vm'"
    using p2pkh_example_runs unfolding e prod.case by (auto dest!: res_is_Inr)
  have d: "pk = replicate 33 2" "sig = replicate 22 1" "payToPubKeyHashScript (replicate 20 7) = (out, None)"
    "bld_Script (AddData pk (AddData sig NewScriptBuilder)) = (scriptSig, None)"
    using e by (auto simp: p2pkh_example_def payToPubKeyHashScript_def bld_Script_def AddOp_ok AddData_direct)
  have "signed_by small_crypto vm out pk sig"
    using p2pkh_spend_iff [OF d(3) _ d(4) _ _ _ _ _ r(1) [unfolded spend_def], of small_crypto] r(2) d(1,2) by (simp add: spend_tx_def)
  with e r(1) show ?thesis by blast
qed

end
