(* ===== verification/Chain_Compress.thy ===== *)
theory Chain_Compress
  imports Script_Builder Script_Sighash
begin

unbundle bit_operations_syntax

text \<open>
  The compressed form in which the node stores outputs (\<open>btcd/blockchain/compress.go\<close>): variable length
  quantities, amounts with their trailing zeros removed, and scripts of the standard forms reduced to
  their hash or key. A \<open>put\<close> function writes into a target slice and returns the number of bytes written;
  the model returns the target after the call with that number, and \<open>GoPanic\<close> where the target is too
  short. \<open>SerializeUncompressed\<close> belongs to the library of the curve and is a parameter.
\<close>

section \<open>Variable length quantities\<close>

function serializeSizeVLQ :: "u64 \<Rightarrow> nat" where
  "serializeSizeVLQ n = (if n > 0x7f then 1 + serializeSizeVLQ (drop_bit 7 n - 1) else 1)"
  by pat_completeness auto

text \<open>The bytes \<open>putVLQ\<close> writes, before it reverses them.\<close>

function vlq_groups :: "u64 \<Rightarrow> bool \<Rightarrow> bytes" where
  "vlq_groups n first =
     (let b = ucast (n AND 0x7f) OR (if first then 0x00 else 0x80) in
      if n \<le> 0x7f then [b] else b # vlq_groups (drop_bit 7 n - 1) False)"
  by pat_completeness auto

lemma vlq_less:
  assumes "(n :: u64) > 0x7f"
  shows "unat (drop_bit 7 n - 1) = unat n div 128 - 1" "unat n \<ge> 128" "drop_bit 7 n \<noteq> 0"
proof -
  have n: "unat n \<ge> 128" using assms by (simp add: word_less_nat_alt)
  have u: "unat (drop_bit 7 n) = unat n div 128" by (simp add: drop_bit_eq_div unat_div)
  with n have "unat (drop_bit 7 n) \<ge> 1" by simp
  then show "drop_bit 7 n \<noteq> 0" by auto
  then show "unat (drop_bit 7 n - 1) = unat n div 128 - 1" using u by (simp add: unat_minus_one)
  show "unat n \<ge> 128" by (fact n)
qed

termination serializeSizeVLQ
proof (relation "measure unat", goal_cases)
  case (2 n)
  then show ?case using vlq_less [of n] by simp
qed simp

termination vlq_groups
proof (relation "measure (\<lambda>(n, _). unat n)", goal_cases)
  case (2 n first x)
  then have "n > 0x7f" by simp
  then show ?case using vlq_less [of n] by simp
qed simp

declare serializeSizeVLQ.simps [simp del] vlq_groups.simps [simp del]

text \<open>Writing bytes at the start of a slice, and \<open>copy(target[k:], src)\<close>, which stops at the end of the target.\<close>

definition put :: "bytes \<Rightarrow> bytes \<Rightarrow> (bytes \<times> nat) res" where
  "put target bs = (if length target < length bs then Inl GoPanic else Inr (bs @ drop (length bs) target, length bs))"

definition copy_at :: "bytes \<Rightarrow> nat \<Rightarrow> bytes \<Rightarrow> bytes" where
  "copy_at target k src = take k target @ take (length target - k) src @ drop (k + length src) target"

definition putVLQ :: "bytes \<Rightarrow> u64 \<Rightarrow> (bytes \<times> nat) res" where
  "putVLQ target n = put target (rev (vlq_groups n True))"

fun deserializeVLQ_loop :: "bytes \<Rightarrow> u64 \<Rightarrow> nat \<Rightarrow> u64 \<times> nat" where
  "deserializeVLQ_loop [] n read = (n, read)"
| "deserializeVLQ_loop (val # vs) n read =
     (let read = read + 1; n = push_bit 7 n OR ucast (val AND 0x7f) in
      if val AND 0x80 \<noteq> 0x80 then (n, read) else deserializeVLQ_loop vs (n + 1) read)"

definition deserializeVLQ :: "bytes \<Rightarrow> u64 \<times> nat" where
  "deserializeVLQ serialized = deserializeVLQ_loop serialized 0 0"

section \<open>Scripts\<close>

definition cstPayToPubKeyHash :: u64 where "cstPayToPubKeyHash = 0"
definition cstPayToScriptHash :: u64 where "cstPayToScriptHash = 1"
definition cstPayToPubKeyComp2 :: u64 where "cstPayToPubKeyComp2 = 2"
definition cstPayToPubKeyComp3 :: u64 where "cstPayToPubKeyComp3 = 3"
definition cstPayToPubKeyUncomp4 :: u64 where "cstPayToPubKeyUncomp4 = 4"
definition cstPayToPubKeyUncomp5 :: u64 where "cstPayToPubKeyUncomp5 = 5"
definition numSpecialScripts :: nat where "numSpecialScripts = 6"

definition isPubKeyHash :: "bytes \<Rightarrow> bytes option" where
  "isPubKeyHash script =
     (if length script = 25 \<and> script ! 0 = OP_DUP \<and> script ! 1 = OP_HASH160 \<and> script ! 2 = OP_DATA_20
         \<and> script ! 23 = OP_EQUALVERIFY \<and> script ! 24 = OP_CHECKSIG
      then Some (take 20 (drop 3 script)) else None)"

definition isScriptHash :: "bytes \<Rightarrow> bytes option" where
  "isScriptHash script =
     (if length script = 23 \<and> script ! 0 = OP_HASH160 \<and> script ! 1 = OP_DATA_20 \<and> script ! 22 = OP_EQUAL
      then Some (take 20 (drop 2 script)) else None)"

definition isPubKey :: "crypto \<Rightarrow> bytes \<Rightarrow> bytes option" where
  "isPubKey c script =
     (if length script = 35 \<and> script ! 0 = OP_DATA_33 \<and> script ! 34 = OP_CHECKSIG \<and> (script ! 1 = 0x02 \<or> script ! 1 = 0x03)
         \<and> ParsePubKey c (take 33 (drop 1 script)) \<noteq> None
      then Some (take 33 (drop 1 script))
      else if length script = 67 \<and> script ! 0 = OP_DATA_65 \<and> script ! 66 = OP_CHECKSIG \<and> script ! 1 = 0x04
         \<and> ParsePubKey c (take 65 (drop 1 script)) \<noteq> None
      then Some (take 65 (drop 1 script))
      else None)"

definition compressedScriptSize :: "crypto \<Rightarrow> bytes \<Rightarrow> nat" where
  "compressedScriptSize c pkScript =
     (if isPubKeyHash pkScript \<noteq> None then 21
      else if isScriptHash pkScript \<noteq> None then 21
      else if isPubKey c pkScript \<noteq> None then 33
      else serializeSizeVLQ (of_nat (length pkScript + numSpecialScripts)) + length pkScript)"

definition decodeCompressedScriptSize :: "bytes \<Rightarrow> int" where
  "decodeCompressedScriptSize serialized =
     (case deserializeVLQ serialized of (scriptSize, bytesRead) \<Rightarrow>
        if bytesRead = 0 then 0
        else if scriptSize = cstPayToPubKeyHash then 21
        else if scriptSize = cstPayToScriptHash then 21
        else if scriptSize \<in> {cstPayToPubKeyComp2, cstPayToPubKeyComp3, cstPayToPubKeyUncomp4, cstPayToPubKeyUncomp5} then 33
        else sint (scriptSize - of_nat numSpecialScripts + of_nat bytesRead))"

definition putCompressedScript :: "crypto \<Rightarrow> bytes \<Rightarrow> bytes \<Rightarrow> (bytes \<times> nat) res" where
  "putCompressedScript c target pkScript =
     (case isPubKeyHash pkScript of
        Some h \<Rightarrow> put target (0 # h)
      | None \<Rightarrow> (case isScriptHash pkScript of
        Some h \<Rightarrow> put target (1 # h)
      | None \<Rightarrow> (case isPubKey c pkScript of
        Some key \<Rightarrow>
          if key ! 0 = 0x02 \<or> key ! 0 = 0x03 then put target (key ! 0 # take 32 (drop 1 key))
          else put target ((key ! 0 OR (key ! 64 AND 0x01)) # take 32 (drop 1 key))
      | None \<Rightarrow>
          rbind (putVLQ target (of_nat (length pkScript + numSpecialScripts))) (\<lambda>(target, vlqSizeLen).
            Inr (copy_at target vlqSizeLen pkScript, vlqSizeLen + length pkScript)))))"

text \<open>Slicing beyond the end panics; the result of a key that does not parse is the nil slice.\<close>

definition slice :: "bytes \<Rightarrow> nat \<Rightarrow> int \<Rightarrow> bytes res" where
  "slice bs a n = (if n < 0 \<or> int a + n > int (length bs) then Inl GoPanic else Inr (take (nat n) (drop a bs)))"

definition decompressScript :: "crypto \<Rightarrow> (bytes \<Rightarrow> bytes) \<Rightarrow> bytes \<Rightarrow> bytes res" where
  "decompressScript c SerializeUncompressed compressedPkScript =
     (if compressedPkScript = [] then Inr []
      else case deserializeVLQ compressedPkScript of (encodedScriptSize, bytesRead) \<Rightarrow>
        if encodedScriptSize = cstPayToPubKeyHash then
          rbind (slice compressedPkScript bytesRead 20) (\<lambda>h. Inr ([OP_DUP, OP_HASH160, OP_DATA_20] @ h @ [OP_EQUALVERIFY, OP_CHECKSIG]))
        else if encodedScriptSize = cstPayToScriptHash then
          rbind (slice compressedPkScript bytesRead 20) (\<lambda>h. Inr ([OP_HASH160, OP_DATA_20] @ h @ [OP_EQUAL]))
        else if encodedScriptSize \<in> {cstPayToPubKeyComp2, cstPayToPubKeyComp3} then
          rbind (slice compressedPkScript bytesRead 32) (\<lambda>x. Inr ([OP_DATA_33, ucast encodedScriptSize] @ x @ [OP_CHECKSIG]))
        else if encodedScriptSize \<in> {cstPayToPubKeyUncomp4, cstPayToPubKeyUncomp5} then
          (let compressedKey = copy_at (ucast (encodedScriptSize - 2) # replicate 32 0) 1 (drop 1 compressedPkScript) in
           case ParsePubKey c compressedKey of
             None \<Rightarrow> Inr []
           | Some key \<Rightarrow> Inr ((copy_at (OP_DATA_65 # replicate 66 0) 1 (SerializeUncompressed key)) [66 := OP_CHECKSIG]))
        else slice compressedPkScript bytesRead (sint (encodedScriptSize - of_nat numSpecialScripts)))"

section \<open>Amounts\<close>

text \<open>The loop that divides by ten, at most nine times.\<close>

function strip_zeros :: "nat \<Rightarrow> u64 \<Rightarrow> u64 \<times> nat" where
  "strip_zeros k amount =
     (if amount mod 10 = 0 \<and> k < 9 then strip_zeros (k + 1) (amount div 10) else (amount, k))"
  by pat_completeness auto
termination by (relation "measure (\<lambda>(k, _). 9 - k)") auto


declare strip_zeros.simps [simp del]

definition compressTxOutAmount :: "u64 \<Rightarrow> u64" where
  "compressTxOutAmount amount =
     (if amount = 0 then 0
      else case strip_zeros 0 amount of (amount, expo) \<Rightarrow>
        if expo < 9 then
          (let lastDigit = amount mod 10; amount = amount div 10 in 1 + 10 * (9 * amount + lastDigit - 1) + of_nat expo)
        else 10 + 10 * (amount - 1))"

definition decompressTxOutAmount :: "u64 \<Rightarrow> u64" where
  "decompressTxOutAmount amount =
     (if amount = 0 then 0
      else let amount = amount - 1; expo = amount mod 10; amount = amount div 10;
               n = (if expo < 9 then (let lastDigit = amount mod 9 + 1; amount = amount div 9 in amount * 10 + lastDigit)
                    else amount + 1)
           in ((\<lambda>n. n * 10) ^^ unat expo) n)"

section \<open>Outputs\<close>

definition compressedTxOutSize :: "crypto \<Rightarrow> u64 \<Rightarrow> bytes \<Rightarrow> nat" where
  "compressedTxOutSize c amount pkScript = serializeSizeVLQ (compressTxOutAmount amount) + compressedScriptSize c pkScript"

definition putCompressedTxOut :: "crypto \<Rightarrow> bytes \<Rightarrow> u64 \<Rightarrow> bytes \<Rightarrow> (bytes \<times> nat) res" where
  "putCompressedTxOut c target amount pkScript =
     rbind (putVLQ target (compressTxOutAmount amount)) (\<lambda>(target, offset).
       rbind (putCompressedScript c (drop offset target) pkScript) (\<lambda>(rest, n).
         Inr (take offset target @ rest, offset + n)))"

text \<open>\<open>ErrOther\<close> is the deserialization error of the package.\<close>

definition decodeCompressedTxOut :: "crypto \<Rightarrow> (bytes \<Rightarrow> bytes) \<Rightarrow> bytes \<Rightarrow> (u64 \<times> bytes \<times> int) res" where
  "decodeCompressedTxOut c SerializeUncompressed serialized =
     (case deserializeVLQ serialized of (compressedAmount, bytesRead) \<Rightarrow>
        if bytesRead \<ge> length serialized then Inl ErrOther
        else let scriptSize = decodeCompressedScriptSize (drop bytesRead serialized) in
          if int (length (drop bytesRead serialized)) < scriptSize then Inl ErrOther
          else rbind (slice serialized bytesRead scriptSize) (\<lambda>s.
            rbind (decompressScript c SerializeUncompressed s) (\<lambda>script.
              Inr (decompressTxOutAmount compressedAmount, script, int bytesRead + scriptSize))))"

section \<open>Reading back what was written\<close>

lemma low7: "b AND 0x7f = take_bit 7 (b :: u8)"
  by (simp add: take_bit_eq_mask mask_eq_decr_exp)

lemma unat_low7: "unat (ucast (b AND 0x7f :: u8) :: u64) = unat b mod 128"
  unfolding low7 by (simp add: unsigned_ucast_eq unsigned_take_bit_eq take_bit_eq_mod unat_mod)

lemma vlq_acc:
  assumes "unat n < 2 ^ 57"
  shows "unat (push_bit 7 (n :: u64) OR ucast (b AND 0x7f :: u8)) = unat n * 128 + unat b mod 128"
proof -
  have p: "unat (push_bit 7 n) = unat n * 128"
    using assms by (simp add: push_bit_eq_mult unat_word_ariths)
  have "push_bit 7 n AND ucast (b AND 0x7f) = 0"
    unfolding low7 by (rule bit_eqI) (auto simp: bit_simps)
  then have "push_bit 7 n OR ucast (b AND 0x7f) = push_bit 7 n + ucast (b AND 0x7f)"
    by (simp add: disjunctive_add_eq_or)
  then show ?thesis using assms p unat_low7 [of b] by (simp add: unat_word_ariths)
qed

lemma bit_80: "bit (0x80 :: u8) n \<longleftrightarrow> n = 7" "bit (0x80 :: u64) n \<longleftrightarrow> n = 7" "bit (0x80 :: nat) n \<longleftrightarrow> n = 7"
  "bit (0x80 :: int) n \<longleftrightarrow> n = 7"
  using bit_exp_iff [of 7 n, where ?'a = u8] bit_exp_iff [of 7 n, where ?'a = u64] bit_exp_iff [of 7 n, where ?'a = nat]
    bit_exp_iff [of 7 n, where ?'a = int] by (auto simp: bit_simps)

lemma low7_u64: "n AND 0x7f = take_bit 7 (n :: u64)"
  by (simp add: take_bit_eq_mask mask_eq_decr_exp)

lemma group_byte:
  fixes n :: u64
  shows "push_bit 7 (drop_bit 7 n) OR ucast ((ucast (n AND 0x7f) OR (if f then 0x00 else 0x80) :: u8) AND 0x7f) = n"
    "(ucast (n AND 0x7f) OR (if f then 0x00 else 0x80) :: u8) AND 0x80 = 0x80 \<longleftrightarrow> \<not> f"
proof -
  show "push_bit 7 (drop_bit 7 n) OR ucast ((ucast (n AND 0x7f) OR (if f then 0x00 else 0x80) :: u8) AND 0x7f) = n"
  proof (rule bit_eqI)
    fix i
    show "bit (push_bit 7 (drop_bit 7 n) OR ucast ((ucast (n AND 0x7f) OR (if f then 0x00 else 0x80) :: u8) AND 0x7f)) i = bit n i"
      unfolding low7 low7_u64 by (cases "i < 7") (auto simp: bit_simps bit_80 dest: bit_imp_le_length)
  qed
  have "bit (ucast (n AND 0x7f) OR (if f then 0x00 else 0x80) :: u8) 7 \<longleftrightarrow> \<not> f"
    unfolding low7_u64 by (auto simp: bit_simps bit_80)
  moreover have "b AND 0x80 = 0x80 \<longleftrightarrow> bit b 7" for b :: u8
  proof
    assume "b AND 0x80 = 0x80"
    then have "bit (b AND 0x80) 7" by (simp add: bit_80)
    then show "bit b 7" by (simp add: bit_and_iff)
  next
    assume "bit b 7"
    then show "b AND 0x80 = 0x80" by (intro bit_eqI) (auto simp: bit_and_iff bit_80)
  qed
  ultimately show "(ucast (n AND 0x7f) OR (if f then 0x00 else 0x80) :: u8) AND 0x80 = 0x80 \<longleftrightarrow> \<not> f" by simp
qed

lemma small_group: "n \<le> 0x7f \<Longrightarrow> drop_bit 7 (n :: u64) = 0"
  by (simp add: drop_bit_eq_div word_le_nat_alt unat_div div_word_less word_less_nat_alt)

lemma groups_read:
  "deserializeVLQ_loop (rev (vlq_groups m False) @ rest) 0 k = deserializeVLQ_loop rest (m + 1) (k + length (vlq_groups m False))"
proof (induction m False arbitrary: rest rule: vlq_groups.induct)
  case (1 m)
  note g = group_byte [of m False]
  show ?case
  proof (cases "m \<le> 0x7f")
    case True
    then show ?thesis using g small_group [OF True] by (simp add: vlq_groups.simps [of m] Let_def)
  next
    case False
    then show ?thesis using g 1 [OF refl False] by (simp add: vlq_groups.simps [of m] Let_def)
  qed
qed

lemma vlq_read: "deserializeVLQ (rev (vlq_groups n True) @ rest) = (n, length (vlq_groups n True))"
proof (cases "n \<le> 0x7f")
  case True
  then show ?thesis
    using group_byte [of n True] small_group [OF True] by (simp add: deserializeVLQ_def vlq_groups.simps [of n] Let_def)
next
  case False
  then show ?thesis
    using group_byte [of n True] groups_read [of "drop_bit 7 n - 1"]
    by (simp add: deserializeVLQ_def vlq_groups.simps [of n] Let_def)
qed

lemma vlq_length: "length (vlq_groups n f) = serializeSizeVLQ n"
proof (induction n f rule: vlq_groups.induct)
  case (1 n f)
  then show ?case
    by (cases "n > 0x7f") (auto simp: vlq_groups.simps [of n] serializeSizeVLQ.simps [of n] Let_def)
qed

lemma put_append: "put (bs' @ rest) bs = Inr (bs @ rest, length bs)" if "length bs' = length bs"
  using that by (simp add: put_def)

section \<open>Amounts read back\<close>

lemma u64_eqI: "unat a = unat b \<Longrightarrow> a = (b :: u64)"
  by (rule unsigned_word_eqI)

lemma unat_10: "unat (x div 10 :: u64) = unat x div 10" "unat (x mod 10 :: u64) = unat x mod 10"
  "unat (x div 9 :: u64) = unat x div 9" "unat (x mod 9 :: u64) = unat x mod 9"
  by (simp_all add: unat_div unat_mod)

lemma strip_zeros_spec:
  "strip_zeros k a = (m, e) \<Longrightarrow> a \<noteq> 0 \<Longrightarrow> k \<le> 9 \<Longrightarrow>
     k \<le> e \<and> e \<le> 9 \<and> unat a = unat m * 10 ^ (e - k) \<and> m \<noteq> 0 \<and> (e < 9 \<longrightarrow> unat m mod 10 \<noteq> 0)"
proof (induction k a rule: strip_zeros.induct)
  case (1 k a)
  show ?case
  proof (cases "a mod 10 = 0 \<and> k < 9")
    case True
    then have z: "unat a mod 10 = 0" using unat_10(2) [of a] by simp
    then have d: "unat a = unat (a div 10) * 10" using div_mult_mod_eq [of "unat a" 10] by (simp add: unat_10)
    then have nz: "a div 10 \<noteq> 0" using "1.prems"(2) unat_eq_zero [of a] by auto
    have s: "strip_zeros (k + 1) (a div 10) = (m, e)" using 1 True by (simp add: strip_zeros.simps [of k])
    have h: "k + 1 \<le> e \<and> e \<le> 9 \<and> unat (a div 10) = unat m * 10 ^ (e - (k + 1)) \<and> m \<noteq> 0 \<and> (e < 9 \<longrightarrow> unat m mod 10 \<noteq> 0)"
      using 1 True s nz by simp
    moreover have "10 ^ (e - k) = 10 * (10::nat) ^ (e - (k + 1))" using h by (simp flip: power_Suc add: Suc_diff_Suc)
    ultimately show ?thesis using d by simp
  next
    case False
    then have "m = a" "e = k" using 1 by (simp_all add: strip_zeros.simps [of k] split: if_split_asm)
    moreover have "a mod 10 \<noteq> 0 \<longleftrightarrow> unat a mod 10 \<noteq> 0" using unat_10(2) [of a] unat_eq_zero [of "a mod 10"] by simp
    ultimately show ?thesis using 1 False by auto
  qed
qed

lemma mult_10_power: "unat n * 10 ^ e < 2 ^ 64 \<Longrightarrow> unat (((\<lambda>n. n * 10) ^^ e) (n :: u64)) = unat n * 10 ^ e"
proof (induction e)
  case (Suc e)
  have "unat n * 10 ^ e < 2 ^ 64" using Suc.prems by (simp add: less_le_trans)
  then show ?case using Suc by (simp add: unat_word_ariths)
qed simp

lemma compress_amount_unat:
  assumes "a \<noteq> 0" "unat a < 2 ^ 60" "strip_zeros 0 a = (m, e)"
  shows "unat (compressTxOutAmount a) =
    (if e < 9 then 1 + 10 * (9 * (unat m div 10) + unat m mod 10 - 1) + e else 10 + 10 * (unat m - 1))"
proof -
  have m: "e \<le> 9" "unat a = unat m * 10 ^ e" "m \<noteq> 0" "e < 9 \<longrightarrow> unat m mod 10 \<noteq> 0"
    using strip_zeros_spec [OF assms(3,1)] by simp_all
  have "unat m \<le> unat a" using m(2) by simp
  then have b: "unat m < 2 ^ 60" using assms(2) by simp
  show ?thesis
  proof (cases "e < 9")
    case True
    let ?x = "9 * (m div 10) + m mod 10"
    have x: "unat ?x = 9 * (unat m div 10) + unat m mod 10" using b by (simp add: unat_word_ariths unat_10)
    have x1: "unat (?x - 1) = 9 * (unat m div 10) + unat m mod 10 - 1"
      using x m(4) True by (subst unat_minus_one) auto
    have bd: "9 * (unat m div 10) + unat m mod 10 - 1 < 2 ^ 60"
      using b div_mult_mod_eq [of "unat m" 10] by simp
    have "unat (1 + 10 * y + of_nat e) = 1 + 10 * unat y + e" if "unat y < 2 ^ 60" for y :: u64
      using that True by (simp add: unat_word_ariths unat_of_nat)
    then have "unat (1 + 10 * (?x - 1) + of_nat e) = 1 + 10 * unat (?x - 1) + e" using bd x1 by presburger
    then show ?thesis using assms(1,3) True x1 by (simp add: compressTxOutAmount_def Let_def)
  next
    case False
    have "unat (m - 1) = unat m - 1" using m(3) by (simp add: unat_minus_one)
    then have "unat (10 + 10 * (m - 1)) = 10 + 10 * (unat m - 1)" using b m(3) by (simp add: unat_word_ariths unat_gt_0 Suc_le_eq flip: unat_gt_0)
    then show ?thesis using assms(1,3) False by (simp add: compressTxOutAmount_def)
  qed
qed

lemma join_digits:
  "unat (x :: u64) = q \<Longrightarrow> unat (y :: u64) = d - 1 \<Longrightarrow> 1 \<le> d \<Longrightarrow> d \<le> 9 \<Longrightarrow> q * 10 + d < 2 ^ 60 \<Longrightarrow> unat (x * 10 + (y + 1)) = q * 10 + d"
  by (simp add: unat_word_ariths)

lemma amount_roundtrip:
  assumes "unat a < 2 ^ 60"
  shows "decompressTxOutAmount (compressTxOutAmount a) = a"
proof (cases "a = 0")
  case True
  then show ?thesis by (simp add: compressTxOutAmount_def decompressTxOutAmount_def)
next
  case False
  obtain m e where s: "strip_zeros 0 a = (m, e)" by fastforce
  have m: "e \<le> 9" "unat a = unat m * 10 ^ e" "m \<noteq> 0" "e < 9 \<longrightarrow> unat m mod 10 \<noteq> 0"
    using strip_zeros_spec [OF s False] by simp_all
  have "unat m \<le> unat a" using m(2) by simp
  then have b: "unat m < 2 ^ 60" "unat m > 0" using assms m(3) by (simp_all add: unat_gt_0)
  let ?v = "compressTxOutAmount a"
  note v = compress_amount_unat [OF False assms s]
  have "unat ?v \<noteq> 0" using v by (simp split: if_splits)
  then have nz: "?v \<noteq> 0" by auto
  have u1: "unat (?v - 1) = unat ?v - 1" using nz by (simp add: unat_minus_one)
  have e: "unat ((?v - 1) mod 10) = e"
    using u1 v m(1) by (cases "e < 9") (simp_all add: unat_10 mod_mult_self4)
  have q: "unat ((?v - 1) div 10) = (if e < 9 then 9 * (unat m div 10) + unat m mod 10 - 1 else unat m - 1)"
    using u1 v m(1) by (cases "e < 9") (simp_all add: unat_10)
  let ?n = "if (?v - 1) mod 10 < 9 then (?v - 1) div 10 div 9 * 10 + ((?v - 1) div 10 mod 9 + 1) else (?v - 1) div 10 + 1"
  have "(?v - 1) mod 10 < 9 \<longleftrightarrow> e < 9" using e by (simp add: word_less_nat_alt)
  moreover have "unat ((?v - 1) div 10 div 9 * 10 + ((?v - 1) div 10 mod 9 + 1)) = unat m" if lt: "e < 9"
  proof -
    let ?q = "unat m div 10" and ?d = "unat m mod 10"
    have d: "?d \<ge> 1" "?d \<le> 9" using m(4) lt by auto
    have "(9 * q + d - 1) div 9 = q \<and> (9 * q + d - 1) mod 9 = d - 1" if "1 \<le> d" "d \<le> 9" for q d :: nat
      using that by (cases d) simp_all
    from this [OF d] have "unat ((?v - 1) div 10 div 9) = ?q" "unat ((?v - 1) div 10 mod 9) = ?d - 1"
      using q lt by (simp_all only: unat_10 if_True)
    from join_digits [OF this d] show ?thesis using b(1) by simp
  qed
  moreover have "unat ((?v - 1) div 10 + 1) = unat m" if "\<not> e < 9"
    using q that b by (simp add: unat_word_ariths)
  ultimately have n: "unat ?n = unat m" by simp
  have "unat (((\<lambda>n. n * 10) ^^ e) ?n) = unat ?n * 10 ^ e" by (rule mult_10_power) (use n m(2) assms in simp)
  then have "((\<lambda>n. n * 10) ^^ e) ?n = a" by (intro u64_eqI) (simp add: n m(2))
  then show ?thesis using nz e unfolding decompressTxOutAmount_def Let_def by (simp del: if_split)
qed

section \<open>Scripts read back\<close>

definition enc_script :: "crypto \<Rightarrow> bytes \<Rightarrow> bytes" where
  "enc_script c pkScript =
     (case isPubKeyHash pkScript of Some h \<Rightarrow> 0 # h
      | None \<Rightarrow> (case isScriptHash pkScript of Some h \<Rightarrow> 1 # h
      | None \<Rightarrow> (case isPubKey c pkScript of
          Some key \<Rightarrow> (if key ! 0 = 0x02 \<or> key ! 0 = 0x03 then key ! 0 else key ! 0 OR (key ! 64 AND 0x01)) # take 32 (drop 1 key)
        | None \<Rightarrow> rev (vlq_groups (of_nat (length pkScript + numSpecialScripts)) True) @ pkScript)))"

lemma drop_eq_nths: "length xs = n + 2 \<Longrightarrow> drop n xs = [xs ! n, xs ! (n + 1)]" "length xs = n + 1 \<Longrightarrow> drop n xs = [xs ! n]"
  by (simp_all add: Cons_nth_drop_Suc [symmetric])

lemma take_eq_nths: "3 \<le> length xs \<Longrightarrow> take 3 xs = [xs ! 0, xs ! 1, xs ! 2]" "2 \<le> length xs \<Longrightarrow> take 2 xs = [xs ! 0, xs ! 1]"
  "1 \<le> length xs \<Longrightarrow> take 1 xs = [xs ! 0]"
  by (auto simp: numeral_3_eq_3 numeral_2_eq_2 Suc_le_length_iff)

lemma split_three: "a + b \<le> length xs \<Longrightarrow> xs = take a xs @ take b (drop a xs) @ drop (a + b) xs"
  by (metis append.assoc append_take_drop_id take_add)

lemma isPubKeyHash_Some:
  "isPubKeyHash s = Some h \<Longrightarrow> s = [OP_DUP, OP_HASH160, OP_DATA_20] @ h @ [OP_EQUALVERIFY, OP_CHECKSIG] \<and> length h = 20"
  using split_three [of 3 20 s] by (auto simp: isPubKeyHash_def take_eq_nths drop_eq_nths split: if_split_asm)

lemma isScriptHash_Some: "isScriptHash s = Some h \<Longrightarrow> s = [OP_HASH160, OP_DATA_20] @ h @ [OP_EQUAL] \<and> length h = 20"
  using split_three [of 2 20 s] by (auto simp: isScriptHash_def take_eq_nths drop_eq_nths split: if_split_asm)

lemma isPubKey_Some:
  assumes "isPubKey c s = Some key"
  shows "ParsePubKey c key \<noteq> None \<and>
    (length key = 33 \<and> s = OP_DATA_33 # key @ [OP_CHECKSIG] \<and> key ! 0 \<in> {0x02, 0x03}
     \<or> length key = 65 \<and> s = OP_DATA_65 # key @ [OP_CHECKSIG] \<and> key ! 0 = 0x04)"
proof -
  have "length s = n + 2 \<Longrightarrow> s = s ! 0 # take n (drop 1 s) @ [s ! (n + 1)]" for n
    using split_three [of 1 n s] take_eq_nths(3) [of s] by (simp add: drop_eq_nths)
  from this [of 33] this [of 65] show ?thesis
    using assms by (auto simp: isPubKey_def nth_append split: if_split_asm)
qed

text \<open>
  What the compression of keys relies on: an uncompressed key that parses is what serializing the parsed
  key gives, and its compressed form, with the oddness of the last byte, parses to the same key.
\<close>

definition key_laws :: "crypto \<Rightarrow> (bytes \<Rightarrow> bytes) \<Rightarrow> bool" where
  "key_laws c SerializeUncompressed \<longleftrightarrow>
     (\<forall>x y k. length x = 32 \<longrightarrow> length y = 32 \<longrightarrow> ParsePubKey c (0x04 # x @ y) = Some k \<longrightarrow>
        SerializeUncompressed k = 0x04 # x @ y \<and> ParsePubKey c ((0x02 OR (last y AND 0x01)) # x) = Some k)"

lemma vlq_single:
  assumes "unat b < 128"
  shows "deserializeVLQ (b # rest) = (ucast b, 1)"
proof -
  have "b AND 0x80 = 0" using assms by (simp add: u8_and_80)
  moreover have "b AND 0x7f = b" unfolding low7
    by (rule u8_eqI) (use assms in \<open>simp add: unsigned_take_bit_eq take_bit_eq_mod unat_mod\<close>)
  ultimately show ?thesis by (simp add: deserializeVLQ_def)
qed

lemma serializeSizeVLQ_pos: "serializeSizeVLQ n \<noteq> 0"
  by (subst serializeSizeVLQ.simps) simp

lemma length_enc_script: "length (enc_script c s) = compressedScriptSize c s"
  using isPubKey_Some [of c s]
  by (auto simp: enc_script_def compressedScriptSize_def vlq_length split: option.split dest!: isPubKeyHash_Some isScriptHash_Some)

lemma put_script:
  "length (enc_script c s) \<le> length target \<Longrightarrow>
   putCompressedScript c target s = Inr (enc_script c s @ drop (length (enc_script c s)) target, length (enc_script c s))"
  using isPubKeyHash_Some [of s] isScriptHash_Some [of s] isPubKey_Some [of c s]
  unfolding putCompressedScript_def enc_script_def
  by (auto simp: put_def putVLQ_def copy_at_def add.commute split: option.split_asm option.split if_split)

text \<open>The four shapes of a compressed script.\<close>

lemma enc_script_cases:
  obtains (p2pkh) h where "s = [OP_DUP, OP_HASH160, OP_DATA_20] @ h @ [OP_EQUALVERIFY, OP_CHECKSIG]" "length h = 20" "enc_script c s = 0 # h"
  | (p2sh) h where "s = [OP_HASH160, OP_DATA_20] @ h @ [OP_EQUAL]" "length h = 20" "enc_script c s = 1 # h"
  | (compressed) p x where "s = OP_DATA_33 # p # x @ [OP_CHECKSIG]" "p \<in> {2, 3}" "length x = 32" "enc_script c s = p # x"
  | (uncompressed) x y k where "s = OP_DATA_65 # 4 # (x @ y) @ [OP_CHECKSIG]" "length x = 32" "length y = 32"
      "ParsePubKey c (4 # x @ y) = Some k" "enc_script c s = (4 OR (last y AND 1)) # x"
  | (general) "enc_script c s = rev (vlq_groups (of_nat (length s + numSpecialScripts)) True) @ s"
proof (cases "isPubKeyHash s")
  case (Some h)
  then show thesis using p2pkh isPubKeyHash_Some [OF Some] by (simp add: enc_script_def)
next
  case n1: None
  show thesis
  proof (cases "isScriptHash s")
    case (Some h)
    then show thesis using p2sh n1 isScriptHash_Some [OF Some] by (simp add: enc_script_def)
  next
    case n2: None
    show thesis
    proof (cases "isPubKey c s")
      case (Some key)
      then have e: "enc_script c s = (if key ! 0 = 2 \<or> key ! 0 = 3 then key ! 0 else key ! 0 OR (key ! 64 AND 1)) # take 32 (drop 1 key)"
        using n1 n2 by (simp add: enc_script_def)
      consider "length key = 33" "s = OP_DATA_33 # key @ [OP_CHECKSIG]" "key ! 0 \<in> {2, 3}"
        | "length key = 65" "s = OP_DATA_65 # key @ [OP_CHECKSIG]" "key ! 0 = 4" "ParsePubKey c key \<noteq> None"
        using isPubKey_Some [OF Some] by auto
      then show thesis
      proof cases
        case 1
        then show thesis using compressed [of "key ! 0" "drop 1 key"] e by (cases key) auto
      next
        case 2
        then obtain xy k where xy: "key = 4 # xy" "length xy = 64" "ParsePubKey c key = Some k" by (cases key) auto
        moreover have "xy ! 63 = last (drop 32 xy)" using xy(2) by (simp add: last_conv_nth)
        ultimately show thesis using uncompressed [of "take 32 xy" "drop 32 xy" k] 2(2) e by simp
      qed
    next
      case None
      then show thesis using general n1 n2 by (simp add: enc_script_def)
    qed
  qed
qed

lemma four_or_odd: "(4 :: u8) OR (b AND 1) = (if odd b then 5 else 4)" "(2 :: u8) OR (b AND 1) = (if odd b then 3 else 2)"
  by (simp_all add: and_one_eq odd_iff_mod_2_eq_one)

lemma general_size:
  assumes "length s < 2 ^ 62"
  shows "(of_nat (length s + numSpecialScripts) :: u64) \<notin> {0, 1, 2, 3, 4, 5}"
    "sint ((of_nat (length s + numSpecialScripts) :: u64) - of_nat numSpecialScripts) = int (length s)"
    "k < 2 ^ 62 \<Longrightarrow> sint ((of_nat (length s + numSpecialScripts) :: u64) - of_nat numSpecialScripts + of_nat k) = int (length s + k)"
proof -
  have u: "unat (of_nat n :: u64) = n" if "n < 2 ^ 64" for n using that by (simp add: unat_of_nat)
  have "unat (of_nat (length s + numSpecialScripts) :: u64) \<ge> 6" using assms u [of "length s + 6"] by (simp add: numSpecialScripts_def)
  then show "(of_nat (length s + numSpecialScripts) :: u64) \<notin> {0, 1, 2, 3, 4, 5}" by auto
  have i: "sint (of_nat n :: u64) = int n" if "n < 2 ^ 63" for n
    using that by (simp add: signed_of_nat signed_take_bit_int_eq_self)
  show "sint ((of_nat (length s + numSpecialScripts) :: u64) - of_nat numSpecialScripts) = int (length s)"
    using i [of "length s"] assms by simp
  show "sint ((of_nat (length s + numSpecialScripts) :: u64) - of_nat numSpecialScripts + of_nat k) = int (length s + k)" if "k < 2 ^ 62"
    using i [of "length s + k"] assms that by simp
qed

lemma serializeSizeVLQ_bound: "serializeSizeVLQ n \<le> 1 + unat n div 128"
proof (induction n rule: serializeSizeVLQ.induct)
  case (1 n)
  show ?case
  proof (cases "n > 0x7f")
    case True
    then have "serializeSizeVLQ n \<le> 1 + (1 + (unat n div 128 - 1) div 128)"
      using 1 vlq_less(1) [of n] by (simp add: serializeSizeVLQ.simps [of n])
    then show ?thesis using vlq_less(2) [OF True] div_le_dividend [of "unat n div 128 - 1" 128] by linarith
  qed (simp add: serializeSizeVLQ.simps [of n])
qed

lemmas cst_defs = cstPayToPubKeyHash_def cstPayToScriptHash_def cstPayToPubKeyComp2_def cstPayToPubKeyComp3_def
  cstPayToPubKeyUncomp4_def cstPayToPubKeyUncomp5_def

lemma decode_script_size:
  assumes "length s < 2 ^ 62"
  shows "decodeCompressedScriptSize (enc_script c s @ rest) = int (length (enc_script c s))"
proof (cases rule: enc_script_cases [of s c])
  case general
  let ?n = "of_nat (length s + numSpecialScripts) :: u64"
  have "deserializeVLQ (enc_script c s @ rest) = (?n, length (vlq_groups ?n True))"
    using vlq_read [of ?n "s @ rest"] general by simp
  moreover have "length (vlq_groups ?n True) < 2 ^ 62"
  proof -
    have "unat ?n = length s + 6" using assms by (simp add: unat_of_nat numSpecialScripts_def del: of_nat_add)
    then have "serializeSizeVLQ ?n \<le> 1 + (length s + 6) div 128" using serializeSizeVLQ_bound [of ?n] by simp
    then show ?thesis using assms by (simp add: vlq_length)
  qed
  moreover have "length (vlq_groups ?n True) \<noteq> 0" by (simp add: vlq_length serializeSizeVLQ_pos)
  ultimately show ?thesis
    using general_size [OF assms] general unfolding decodeCompressedScriptSize_def cst_defs by simp
qed (auto simp: decodeCompressedScriptSize_def vlq_single four_or_odd cst_defs)

lemma decompress_script:
  assumes "length s < 2 ^ 62" "key_laws c ser"
  shows "decompressScript c ser (enc_script c s) = Inr s"
proof (cases rule: enc_script_cases [of s c])
  case (uncompressed x y k)
  have k: "ser k = 4 # x @ y" "ParsePubKey c ((2 OR (last y AND 1)) # x) = Some k"
    using assms(2) uncompressed(2-4) unfolding key_laws_def by blast+
  then show ?thesis using uncompressed
    by (auto simp: decompressScript_def vlq_single four_or_odd cst_defs copy_at_def list_update_append split: if_split_asm)
next
  case general
  let ?n = "of_nat (length s + numSpecialScripts) :: u64"
  have "deserializeVLQ (enc_script c s) = (?n, length (vlq_groups ?n True))"
    using vlq_read [of ?n s] general by simp
  then show ?thesis
    using general_size [OF assms(1)] general unfolding decompressScript_def cst_defs by (simp add: slice_def)
qed (auto simp: decompressScript_def vlq_single four_or_odd cst_defs slice_def)

text \<open>The compressed form of an output.\<close>

definition enc_txout :: "crypto \<Rightarrow> u64 \<Rightarrow> bytes \<Rightarrow> bytes" where
  "enc_txout c amount pkScript = rev (vlq_groups (compressTxOutAmount amount) True) @ enc_script c pkScript"

lemma length_enc_txout: "length (enc_txout c amount pkScript) = compressedTxOutSize c amount pkScript"
  by (simp add: enc_txout_def compressedTxOutSize_def vlq_length length_enc_script)

lemma put_vlq:
  "serializeSizeVLQ n \<le> length target \<Longrightarrow>
   putVLQ target n = Inr (rev (vlq_groups n True) @ drop (serializeSizeVLQ n) target, serializeSizeVLQ n)"
  by (simp add: putVLQ_def put_def vlq_length)

lemma put_txout:
  assumes "length (enc_txout c amount pkScript) \<le> length target"
  shows "putCompressedTxOut c target amount pkScript =
    Inr (enc_txout c amount pkScript @ drop (length (enc_txout c amount pkScript)) target, length (enc_txout c amount pkScript))"
  using assms put_script [of c pkScript "drop (serializeSizeVLQ (compressTxOutAmount amount)) target"]
  by (simp add: putCompressedTxOut_def put_vlq enc_txout_def vlq_length add.commute)

lemma decode_txout:
  assumes "unat amount < 2 ^ 60" "length pkScript < 2 ^ 62" "key_laws c ser"
  shows "decodeCompressedTxOut c ser (enc_txout c amount pkScript @ rest)
    = Inr (amount, pkScript, int (length (enc_txout c amount pkScript)))"
proof -
  let ?a = "rev (vlq_groups (compressTxOutAmount amount) True)" and ?s = "enc_script c pkScript"
  have "?s \<noteq> []" using length_enc_script [of c pkScript]
      by (auto simp: compressedScriptSize_def serializeSizeVLQ_pos split: if_split_asm)
  moreover have "deserializeVLQ (?a @ ?s @ rest) = (compressTxOutAmount amount, length ?a)"
    using vlq_read [of "compressTxOutAmount amount" "?s @ rest"] by simp
  ultimately show ?thesis
    using decode_script_size [OF assms(2), of c rest] decompress_script [OF assms(2,3)] amount_roundtrip [OF assms(1)]
    by (simp add: decodeCompressedTxOut_def slice_def enc_txout_def)
qed

text \<open>C40: A stored output is read back. Compressing an amount below \<open>2 ^ 60\<close> and a script into a target of the size
  computed for them fills it exactly, and decoding the bytes, whatever follows them, returns the amount,
  the script and the number of bytes; for outputs that pay to an uncompressed key this needs that the
  library recovers the key from its abscissa and its oddness.\<close>

theorem txout_compress_roundtrip:
  assumes "unat amount < 2 ^ 60" "length pkScript < 2 ^ 62" "key_laws c ser" "length target = compressedTxOutSize c amount pkScript"
  shows "\<exists>bs. putCompressedTxOut c target amount pkScript = Inr (bs, length target) \<and> length bs = length target
    \<and> decodeCompressedTxOut c ser (bs @ rest) = Inr (amount, pkScript, int (length bs))"
  using put_txout [of c amount pkScript target] decode_txout [OF assms(1-3), of rest] assms(4)
  by (simp add: length_enc_txout)

text \<open>A parser of keys for which the laws hold: the points whose ordinate is their abscissa.\<close>

definition line_key :: "bytes \<Rightarrow> bytes option" where
  "line_key b =
     (if length b = 65 \<and> b ! 0 = 4 \<and> drop 33 b = take 32 (drop 1 b) then Some b
      else if length b = 33 \<and> b ! 0 = 2 OR (last b AND 1) then Some (4 # tl b @ tl b) else None)"

lemma line_key_laws: "key_laws (toy_crypto\<lparr>ParsePubKey := line_key\<rparr>) id"
  by (auto simp: key_laws_def line_key_def split: if_split_asm)

theorem txout_compress_roundtrip_witness:
  "\<exists>bs. putCompressedTxOut (toy_crypto\<lparr>ParsePubKey := line_key\<rparr>)
       (replicate (compressedTxOutSize (toy_crypto\<lparr>ParsePubKey := line_key\<rparr>) 1200 (OP_DATA_65 # 4 # replicate 64 7 @ [OP_CHECKSIG])) 0)
       1200 (OP_DATA_65 # 4 # replicate 64 7 @ [OP_CHECKSIG]) = Inr (bs, length bs)
     \<and> decodeCompressedTxOut (toy_crypto\<lparr>ParsePubKey := line_key\<rparr>) id (bs @ [5, 6])
     = Inr (1200, OP_DATA_65 # 4 # replicate 64 7 @ [OP_CHECKSIG], int (length bs))"
proof -
  let ?c = "toy_crypto\<lparr>ParsePubKey := line_key\<rparr>" and ?s = "OP_DATA_65 # 4 # replicate 64 7 @ [OP_CHECKSIG] :: bytes"
  from txout_compress_roundtrip [of 1200 ?s ?c id "replicate (compressedTxOutSize ?c 1200 ?s) 0" "[5, 6]"] line_key_laws
  show ?thesis by auto
qed

end
