(* ===== verification/Chain_Merkle.thy ===== *)
theory Chain_Merkle
  imports Script_Sighash
begin

unbundle bit_operations_syntax

text \<open>
  Merkle roots (\<open>btcd/blockchain/merkle.go\<close>, \<open>rolling_merkle.go\<close>): the tree stored in one array, the rolling
  computation that keeps one root per row, the proof that both give the root of the textbook definition,
  and the witness commitment. The stacks of the rolling store are lists with the last root at the head.
  Counts of leaves are natural numbers; a block has far fewer than \<open>2 ^ 64\<close> transactions.
\<close>

section \<open>Hashes of transactions\<close>

definition TxHash :: "crypto \<Rightarrow> MsgTx \<Rightarrow> bytes" where
  "TxHash c msg = DoubleHashB c (SerializeNoWitness msg)"

definition WitnessHash :: "crypto \<Rightarrow> MsgTx \<Rightarrow> bytes" where
  "WitnessHash c msg = (if HasWitness msg then DoubleHashB c (Serialize msg) else TxHash c msg)"

definition HashMerkleBranches :: "crypto \<Rightarrow> bytes \<Rightarrow> bytes \<Rightarrow> bytes" where
  "HashMerkleBranches c left right = DoubleHashB c (left @ right)"

text \<open>The leaf a transaction contributes: the first one of a witness tree is zero.\<close>

definition merkle_leaf :: "crypto \<Rightarrow> bool \<Rightarrow> nat \<Rightarrow> MsgTx \<Rightarrow> bytes" where
  "merkle_leaf c witness i tx =
     (if witness \<and> i = 0 then zeroHash else if witness then WitnessHash c tx else TxHash c tx)"

definition merkle_leaves :: "crypto \<Rightarrow> bool \<Rightarrow> MsgTx list \<Rightarrow> bytes list" where
  "merkle_leaves c witness txs = map (\<lambda>(i, tx). merkle_leaf c witness i tx) (enumerate 0 txs)"

section \<open>The tree in an array\<close>

text \<open>The integer part of \<open>math.Log2\<close>, which is exact for the sizes of blocks.\<close>

fun log2 :: "nat \<Rightarrow> nat" where
  "log2 n = (if n < 2 then 0 else 1 + log2 (n div 2))"

declare log2.simps [simp del]

definition nextPowerOfTwo :: "nat \<Rightarrow> nat" where
  "nextPowerOfTwo n = (if int n AND (int n - 1) = 0 then n else 2 ^ (log2 n + 1))"

definition merkle_parent :: "crypto \<Rightarrow> bytes option \<Rightarrow> bytes option \<Rightarrow> bytes option" where
  "merkle_parent c l r =
     (case l of None \<Rightarrow> None
      | Some left \<Rightarrow> (case r of None \<Rightarrow> Some (HashMerkleBranches c left left) | Some right \<Rightarrow> Some (HashMerkleBranches c left right)))"

function merkle_loop :: "crypto \<Rightarrow> nat \<Rightarrow> nat \<Rightarrow> bytes option list \<Rightarrow> bytes option list res" where
  "merkle_loop c i offset merkles =
     (if i + 1 < length merkles then
        (if offset \<ge> length merkles then Inl GoPanic
         else merkle_loop c (i + 2) (offset + 1) (merkles[offset := merkle_parent c (merkles ! i) (merkles ! (i + 1))]))
      else Inr merkles)"
  by pat_completeness auto
termination by (relation "measure (\<lambda>(c, i, offset, merkles). length merkles - i)") auto

declare merkle_loop.simps [simp del]

definition BuildMerkleTreeStore :: "crypto \<Rightarrow> MsgTx list \<Rightarrow> bool \<Rightarrow> bytes option list res" where
  "BuildMerkleTreeStore c transactions witness =
     (let nextPoT = nextPowerOfTwo (length transactions) in
      if nextPoT = 0 then Inl GoPanic
      else let arraySize = nextPoT * 2 - 1;
               leaves = map Some (merkle_leaves c witness transactions)
           in merkle_loop c 0 nextPoT (leaves @ replicate (arraySize - length transactions) None))"

section \<open>The rolling computation\<close>

record rollingMerkleTreeStore =
  roots :: "bytes list"
  numLeaves :: nat

definition newRollingMerkleTreeStore :: rollingMerkleTreeStore where
  "newRollingMerkleTreeStore = \<lparr>roots = [], numLeaves = 0\<rparr>"

fun add_loop :: "crypto \<Rightarrow> nat \<Rightarrow> nat \<Rightarrow> bytes \<Rightarrow> bytes list \<Rightarrow> bytes list res" where
  "add_loop c leaves h newRoot [] = (if odd (leaves div 2 ^ h) then Inl GoPanic else Inr [newRoot])"
| "add_loop c leaves h newRoot (root # rs) =
     (if odd (leaves div 2 ^ h) then add_loop c leaves (h + 1) (HashMerkleBranches c root newRoot) rs
      else Inr (newRoot # root # rs))"

definition rolling_add :: "crypto \<Rightarrow> bytes \<Rightarrow> rollingMerkleTreeStore \<Rightarrow> rollingMerkleTreeStore res" where
  "rolling_add c add s =
     rbind (add_loop c (numLeaves s) 0 add (roots s)) (\<lambda>rs. Inr \<lparr>roots = rs, numLeaves = numLeaves s + 1\<rparr>)"

fun rolling_adds :: "crypto \<Rightarrow> bytes list \<Rightarrow> rollingMerkleTreeStore \<Rightarrow> rollingMerkleTreeStore res" where
  "rolling_adds c [] s = Inr s"
| "rolling_adds c (x # xs) s = rbind (rolling_add c x s) (rolling_adds c xs)"

text \<open>The loops that may not end: \<open>None\<close> is a run that does not return.\<close>

partial_function (option) shift_even :: "nat \<Rightarrow> nat option" where
  "shift_even n = (if even n then shift_even (n div 2) else Some n)"

partial_function (option) roots_loop :: "crypto \<Rightarrow> rollingMerkleTreeStore \<Rightarrow> bytes res option" where
  "roots_loop c s =
     (if length (roots s) > 1 then
        Option.bind (shift_even (numLeaves s)) (\<lambda>n.
          case rolling_add c (hd (roots s)) (s\<lparr>numLeaves := n\<rparr>) of
            Inl e \<Rightarrow> Some (Inl e)
          | Inr s \<Rightarrow> roots_loop c s)
      else Some (case roots s of [] \<Rightarrow> Inl GoPanic | r # _ \<Rightarrow> Inr r))"

definition calcMerkleRoot :: "crypto \<Rightarrow> MsgTx list \<Rightarrow> bool \<Rightarrow> rollingMerkleTreeStore \<Rightarrow> bytes res option" where
  "calcMerkleRoot c adds witness s =
     (case rolling_adds c (merkle_leaves c witness adds) s of
        Inl e \<Rightarrow> Some (Inl e)
      | Inr s \<Rightarrow>
          if numLeaves s = 1 then Some (case rev (roots s) of [] \<Rightarrow> Inl GoPanic | r # _ \<Rightarrow> Inr r)
          else case (if length adds > 0 \<and> length adds mod 2 \<noteq> 0
                     then rolling_add c (if witness then WitnessHash c (last adds) else TxHash c (last adds)) s else Inr s) of
                 Inl e \<Rightarrow> Some (Inl e)
               | Inr s \<Rightarrow> roots_loop c s)"

definition CalcMerkleRoot :: "crypto \<Rightarrow> MsgTx list \<Rightarrow> bool \<Rightarrow> bytes res option" where
  "CalcMerkleRoot c transactions witness = calcMerkleRoot c transactions witness newRollingMerkleTreeStore"

section \<open>The witness commitment\<close>

definition CoinbaseWitnessDataLen :: nat where "CoinbaseWitnessDataLen = 32"
definition CoinbaseWitnessPkScriptLength :: nat where "CoinbaseWitnessPkScriptLength = 38"
definition WitnessMagicBytes :: bytes where "WitnessMagicBytes = [OP_RETURN, 0x24, 0xaa, 0x21, 0xa9, 0xed]"

text \<open>The error codes of the package \<open>blockchain\<close>; \<open>Panic\<close> is a Go panic, the next ones are the other error types of the
  package (a database corruption included) and \<open>OtherError\<close> is any other error value.\<close>

datatype RuleError = Panic | AssertError | ScriptBuildError | DeserializeError | ErrCorruption | NotInMainChain | OtherError
  | ErrDuplicateBlock | ErrBlockTooBig | ErrBlockWeightTooHigh
  | ErrBlockVersionTooOld | ErrInvalidTime | ErrTimeTooOld | ErrTimeTooNew | ErrDifficultyTooLow | ErrUnexpectedDifficulty
  | ErrHighHash | ErrBadMerkleRoot | ErrBadCheckpoint | ErrForkTooOld | ErrCheckpointTimeTooOld | ErrNoTransactions
  | ErrNoTxInputs | ErrNoTxOutputs | ErrTxTooBig | ErrBadTxOutValue | ErrDuplicateTxInputs | ErrBadTxInput | ErrMissingTxOut
  | ErrUnfinalizedTx | ErrDuplicateTx | ErrOverwriteTx | ErrImmatureSpend | ErrSpendTooHigh | ErrBadFees | ErrTooManySigOps
  | ErrFirstTxNotCoinbase | ErrMultipleCoinbases | ErrBadCoinbaseScriptLen | ErrBadCoinbaseValue | ErrMissingCoinbaseHeight
  | ErrBadCoinbaseHeight | ErrScriptMalformed | ErrScriptValidation | ErrUnexpectedWitness | ErrInvalidWitnessCommitment
  | ErrWitnessCommitmentMismatch | ErrPreviousBlockUnknown | ErrInvalidAncestorBlock | ErrPrevBlockNotBest

type_synonym 'a rule = "RuleError + 'a"

definition IsCoinBaseTx :: "MsgTx \<Rightarrow> bool" where
  "IsCoinBaseTx msgTx =
     (if length (MsgTxIn msgTx) \<noteq> 1 then False
      else let prevOut = PreviousOutPoint (MsgTxIn msgTx ! 0) in
        \<not> (op_Index prevOut \<noteq> 0xffffffff \<or> op_Hash prevOut \<noteq> zeroHash))"

text \<open>The outputs are searched from the last one.\<close>

definition ExtractWitnessCommitment :: "MsgTx \<Rightarrow> bytes option" where
  "ExtractWitnessCommitment tx =
     (if \<not> IsCoinBaseTx tx then None
      else map_option (\<lambda>txo. take 32 (drop (length WitnessMagicBytes) (PkScript txo)))
        (find (\<lambda>txo. length (PkScript txo) \<ge> CoinbaseWitnessPkScriptLength \<and> take 6 (PkScript txo) = WitnessMagicBytes)
          (rev (MsgTxOut tx))))"

text \<open>\<open>None\<close> is a root computation that does not end.\<close>

definition ValidateWitnessCommitment :: "crypto \<Rightarrow> MsgTx list \<Rightarrow> unit rule option" where
  "ValidateWitnessCommitment c transactions =
     (if transactions = [] then Some (Inl ErrNoTransactions)
      else let coinbaseTx = hd transactions in
        if MsgTxIn coinbaseTx = [] then Some (Inl ErrNoTxInputs)
        else case ExtractWitnessCommitment coinbaseTx of
          None \<Rightarrow> Some (if list_ex HasWitness transactions then Inl ErrUnexpectedWitness else Inr ())
        | Some witnessCommitment \<Rightarrow>
            let coinbaseWitness = Witness (hd (MsgTxIn coinbaseTx)) in
            if length coinbaseWitness \<noteq> 1 then Some (Inl ErrInvalidWitnessCommitment)
            else let witnessNonce = hd coinbaseWitness in
              if length witnessNonce \<noteq> CoinbaseWitnessDataLen then Some (Inl ErrInvalidWitnessCommitment)
              else map_option (\<lambda>root. case root of
                  Inl e \<Rightarrow> Inl Panic
                | Inr witnessMerkleRoot \<Rightarrow>
                    if DoubleHashB c (witnessMerkleRoot @ witnessNonce) \<noteq> witnessCommitment
                    then Inl ErrWitnessCommitmentMismatch else Inr ())
                (CalcMerkleRoot c transactions True))"

section \<open>The textbook root\<close>

fun merkle_row :: "crypto \<Rightarrow> bytes list \<Rightarrow> bytes list" where
  "merkle_row c [] = []"
| "merkle_row c [x] = [HashMerkleBranches c x x]"
| "merkle_row c (x # y # zs) = HashMerkleBranches c x y # merkle_row c zs"

lemma length_merkle_row [simp]: "length (merkle_row c xs) = (length xs + 1) div 2"
  by (induction c xs rule: merkle_row.induct) auto

lemma merkle_row_Nil_iff [simp]: "merkle_row c xs = [] \<longleftrightarrow> xs = []"
  by (induction c xs rule: merkle_row.induct) auto

function merkle_root :: "crypto \<Rightarrow> bytes list \<Rightarrow> bytes" where
  "merkle_root c xs = (if length xs < 2 then hd xs else merkle_root c (merkle_row c xs))"
  by pat_completeness auto
termination by (relation "measure (length \<circ> snd)") auto

declare merkle_root.simps [simp del]

lemma merkle_root_single [simp]: "merkle_root c [x] = x"
  by (simp add: merkle_root.simps)

lemma merkle_root_row: "2 \<le> length xs \<Longrightarrow> merkle_root c (merkle_row c xs) = merkle_root c xs"
  by (subst (2) merkle_root.simps) simp

lemma merkle_row_append: "even (length xs) \<Longrightarrow> merkle_row c (xs @ ys) = merkle_row c xs @ merkle_row c ys"
  by (induction c xs rule: merkle_row.induct) auto

section \<open>The rolling computation gives the root\<close>

lemma snoc_last2: "xs \<noteq> [] \<Longrightarrow> xs @ [y] = butlast xs @ [last xs, y]"
  by (cases xs rule: rev_cases) simp_all

lemma even_length_ge2: "xs \<noteq> [] \<Longrightarrow> even (length xs) \<Longrightarrow> 2 \<le> length xs"
  by (cases xs; cases "tl xs") auto

text \<open>The roots of the complete subtrees of the leaves, the last one first.\<close>

function peaks :: "crypto \<Rightarrow> bytes list \<Rightarrow> bytes list" where
  "peaks c xs = (if xs = [] then [] else if even (length xs) then peaks c (merkle_row c xs)
     else last xs # peaks c (merkle_row c (butlast xs)))"
  by pat_completeness auto
termination
proof (relation "measure (length \<circ> snd)", goal_cases)
  case (2 c xs)
  then show ?case using even_length_ge2 [of xs] by auto
next
  case (3 c xs)
  then have "length xs \<ge> 1" by (cases xs) auto
  then show ?case by auto
qed simp

declare peaks.simps [simp del]

lemma peaks_small [simp]: "peaks c [] = []" "peaks c [x] = [x]"
  by (simp_all add: peaks.simps)

lemma peaks_Nil_iff: "peaks c xs = [] \<longleftrightarrow> xs = []"
proof (induction c xs rule: peaks.induct)
  case (1 c xs)
  show ?case
  proof (cases "xs \<noteq> [] \<and> even (length xs)")
    case True
    then show ?thesis using 1 by (simp add: peaks.simps [of c xs])
  qed (auto simp: peaks.simps [of c xs])
qed

lemma add_loop_peaks:
  "add_loop c leaves h x (peaks c xs) = Inr (peaks c (xs @ [x]))" if "leaves div 2 ^ h = length xs"
  using that
proof (induction c xs arbitrary: h x rule: peaks.induct)
  case (1 c xs)
  show ?case
  proof (cases "even (length xs)")
    case True
    have "add_loop c leaves h x (peaks c xs) = Inr (x # peaks c xs)"
      using "1.prems" True by (cases "peaks c xs") auto
    moreover have "peaks c (xs @ [x]) = x # peaks c xs"
      using True by (cases "xs = []") (simp_all add: peaks.simps [of c xs] peaks.simps [of c "xs @ [x]"] peaks.simps [of c "[]"])
    ultimately show ?thesis by simp
  next
    case False
    then have ne: "xs \<noteq> []" by auto
    have p: "peaks c xs = last xs # peaks c (merkle_row c (butlast xs))" using False ne by (subst peaks.simps) simp
    have l: "leaves div 2 ^ (h + 1) = length (merkle_row c (butlast xs))"
    proof -
      have "leaves div 2 ^ (h + 1) = length xs div 2" using "1.prems" by (simp add: div_mult2_eq mult.commute [of 2])
      then show ?thesis using False by (auto elim!: oddE)
    qed
    have "merkle_row c (xs @ [x]) = merkle_row c (butlast xs) @ [HashMerkleBranches c (last xs) x]"
      unfolding snoc_last2 [OF ne] using False by (simp add: merkle_row_append)
    then have "peaks c (xs @ [x]) = peaks c (merkle_row c (butlast xs) @ [HashMerkleBranches c (last xs) x])"
      using False by (subst peaks.simps) simp
    then show ?thesis using "1.IH"(2) [OF ne False l] "1.prems" False by (simp add: p)
  qed
qed

lemma rolling_add_peaks:
  "rolling_add c x \<lparr>roots = peaks c xs, numLeaves = length xs\<rparr> = Inr \<lparr>roots = peaks c (xs @ [x]), numLeaves = length xs + 1\<rparr>"
  using add_loop_peaks [of "length xs" 0 xs c x] by (simp add: rolling_add_def)

lemma rolling_adds_peaks:
  "rolling_adds c ys \<lparr>roots = peaks c xs, numLeaves = length xs\<rparr> = Inr \<lparr>roots = peaks c (xs @ ys), numLeaves = length (xs @ ys)\<rparr>"
proof (induction ys arbitrary: xs)
  case (Cons y ys)
  then show ?case using Cons.IH [of "xs @ [y]"] by (simp add: rolling_add_peaks)
qed simp

lemma peaks_single: "length (peaks c xs) = 1 \<Longrightarrow> peaks c xs = [merkle_root c xs]"
proof (induction c xs rule: peaks.induct)
  case (1 c xs)
  then have ne: "xs \<noteq> []" by (auto simp: peaks.simps)
  show ?case
  proof (cases "even (length xs)")
    case True
    then have "length xs \<ge> 2" using ne even_length_ge2 by blast
    then show ?thesis using 1 ne True merkle_root_row [of xs c] by (simp add: peaks.simps [of c xs])
  next
    case False
    then have "peaks c (merkle_row c (butlast xs)) = []" using 1 ne by (simp add: peaks.simps [of c xs])
    then have "butlast xs = []" by (simp add: peaks_Nil_iff)
    then have "xs = [last xs]" using ne append_butlast_last_id [of xs] by simp
    then show ?thesis using peaks_small(2) [of c "last xs"] merkle_root_single [of c "last xs"] by simp
  qed
qed

lemma peaks_even: "xs \<noteq> [] \<Longrightarrow> even (length xs) \<Longrightarrow> peaks c (merkle_row c xs) = peaks c xs"
  by (subst (2) peaks.simps) simp

text \<open>Shifting out the zeros goes up to the row with an odd number of nodes, which has the same peaks and root.\<close>

lemma shift_even_row:
  "xs \<noteq> [] \<Longrightarrow> \<exists>ys. shift_even (length xs) = Some (length ys) \<and> odd (length ys) \<and> length ys \<le> length xs
     \<and> (even (length xs) \<longrightarrow> 2 * length ys \<le> length xs) \<and> peaks c ys = peaks c xs \<and> merkle_root c ys = merkle_root c xs"
proof (induction "length xs" arbitrary: xs rule: less_induct)
  case less
  show ?case
  proof (cases "even (length xs)")
    case True
    then have g: "2 \<le> length xs" using less.prems even_length_ge2 by blast
    then have l: "length (merkle_row c xs) = length xs div 2" using True by auto
    obtain ys where ys: "shift_even (length (merkle_row c xs)) = Some (length ys)" "odd (length ys)" "length ys \<le> length (merkle_row c xs)"
      "peaks c ys = peaks c (merkle_row c xs)" "merkle_root c ys = merkle_root c (merkle_row c xs)"
      using less.hyps [of "merkle_row c xs"] less.prems g l by auto
    then show ?thesis
      using True g l less.prems peaks_even [of xs c] merkle_root_row [OF g, of c]
      by (intro exI [of _ ys]) (auto simp: shift_even.simps [of "length xs"])
  next
    case False
    then show ?thesis by (intro exI [of _ xs]) (simp add: shift_even.simps)
  qed
qed

lemma merkle_root_dup: "odd (length xs) \<Longrightarrow> 2 \<le> length xs \<Longrightarrow> merkle_root c (xs @ [last xs]) = merkle_root c xs"
proof -
  assume a: "odd (length xs)" "2 \<le> length xs"
  then have ne: "xs \<noteq> []" by auto
  have "merkle_row c (xs @ [last xs]) = merkle_row c (butlast xs) @ [HashMerkleBranches c (last xs) (last xs)]"
    unfolding snoc_last2 [OF ne] using a by (simp add: merkle_row_append)
  moreover have "merkle_row c (butlast xs @ [last xs]) = merkle_row c (butlast xs) @ [HashMerkleBranches c (last xs) (last xs)]"
    using a by (simp add: merkle_row_append del: append_butlast_last_id)
  then have "merkle_row c xs = merkle_row c (butlast xs) @ [HashMerkleBranches c (last xs) (last xs)]" using ne by simp
  ultimately show ?thesis using merkle_root_row [of xs c] merkle_root_row [of "xs @ [last xs]" c] a by simp
qed

lemma roots_loop_root:
  assumes "xs \<noteq> []"
  shows "roots_loop c \<lparr>roots = peaks c xs, numLeaves = length xs\<rparr> = Some (Inr (merkle_root c xs))"
proof -
  define m where "m = (if even (length xs) then length xs div 2 else length xs)"
  then show ?thesis using assms
  proof (induction m arbitrary: xs rule: less_induct)
    case (less m)
    show ?case
    proof (cases "length (peaks c xs) > 1")
      case False
      then have "length (peaks c xs) = 1" using less.prems peaks_Nil_iff [of c xs] by (cases "peaks c xs") auto
      then show ?thesis using peaks_single [of c xs] by (simp add: roots_loop.simps)
    next
      case True
      obtain ys where ys: "shift_even (length xs) = Some (length ys)" "odd (length ys)" "length ys \<le> length xs"
        "even (length xs) \<longrightarrow> 2 * length ys \<le> length xs" "peaks c ys = peaks c xs" "merkle_root c ys = merkle_root c xs"
        using shift_even_row [OF less.prems(2)] by metis
      have y2: "2 \<le> length ys"
      proof (rule ccontr)
        assume "\<not> 2 \<le> length ys"
        then have "length ys = 0 \<or> length ys = 1" by linarith
        then have "length ys = 1" using ys(2) by auto
        then obtain y where "ys = [y]" by (auto simp: length_Suc_conv)
        then have "length (peaks c ys) = 1" by simp
        then show False using True ys(5) by simp
      qed
      have hd: "hd (peaks c xs) = last ys" using ys(2,5) y2 by (subst ys(5) [symmetric], subst peaks.simps) auto
      let ?zs = "ys @ [last ys]"
      have "rolling_add c (last ys) \<lparr>roots = peaks c ys, numLeaves = length ys\<rparr> = Inr \<lparr>roots = peaks c ?zs, numLeaves = length ?zs\<rparr>"
        using rolling_add_peaks [of c "last ys" ys] by simp
      moreover have "roots_loop c \<lparr>roots = peaks c ?zs, numLeaves = length ?zs\<rparr> = Some (Inr (merkle_root c ?zs))"
      proof (rule less.IH)
        show "(if even (length ?zs) then length ?zs div 2 else length ?zs) < m"
          using ys(2-4) y2 less.prems(1) by (auto elim!: oddE evenE split: if_split_asm)
      qed (use y2 in auto)
      ultimately show ?thesis
        using True ys hd merkle_root_dup [OF ys(2) y2, of c] by (subst roots_loop.simps) simp
    qed
  qed
qed

lemma length_merkle_leaves [simp]: "length (merkle_leaves c w txs) = length txs"
  by (simp add: merkle_leaves_def)

lemma last_merkle_leaf: "2 \<le> length txs \<Longrightarrow> last (merkle_leaves c w txs) = (if w then WitnessHash c (last txs) else TxHash c (last txs))"
  by (cases txs rule: rev_cases) (auto simp: merkle_leaves_def merkle_leaf_def enumerate_append_eq)

lemma CalcMerkleRoot_root:
  assumes "txs \<noteq> []"
  shows "CalcMerkleRoot c txs w = Some (Inr (merkle_root c (merkle_leaves c w txs)))"
proof -
  let ?xs = "merkle_leaves c w txs"
  have a: "rolling_adds c ?xs newRollingMerkleTreeStore = Inr \<lparr>roots = peaks c ?xs, numLeaves = length ?xs\<rparr>"
    using rolling_adds_peaks [of c ?xs "[]"] by (simp add: newRollingMerkleTreeStore_def)
  show ?thesis
  proof (cases "length txs = 1")
    case True
    then have "length ?xs = Suc 0" by simp
    then obtain x where "?xs = [x]" unfolding length_Suc_conv by auto
    then show ?thesis using a True by (simp add: CalcMerkleRoot_def calcMerkleRoot_def)
  next
    case False
    then have g: "2 \<le> length txs" using assms by (cases txs) (auto simp: Suc_le_eq)
    then have ne: "?xs \<noteq> []" using length_merkle_leaves [of c w txs] by fastforce
    show ?thesis
    proof (cases "odd (length txs)")
      case True
      then show ?thesis
        using a False assms g rolling_add_peaks [of c "last ?xs" ?xs] roots_loop_root [of "?xs @ [last ?xs]" c]
          merkle_root_dup [of ?xs c] last_merkle_leaf [OF g, of c w]
        by (simp add: CalcMerkleRoot_def calcMerkleRoot_def odd_iff_mod_2_eq_one)
    next
      case even: False
      then show ?thesis
        using a False roots_loop_root [OF ne, of c] by (simp add: CalcMerkleRoot_def calcMerkleRoot_def even_iff_mod_2_eq_zero)
    qed
  qed
qed

section \<open>The array holds the rows up to the root\<close>

fun opt_row :: "crypto \<Rightarrow> bytes option list \<Rightarrow> bytes option list" where
  "opt_row c (x # y # zs) = merkle_parent c x y # opt_row c zs"
| "opt_row c _ = []"

lemma opt_row_length: "length (opt_row c xs) = length xs div 2"
  by (induction c xs rule: opt_row.induct) auto

lemma opt_row_nth: "2 * j + 1 < length xs \<Longrightarrow> opt_row c xs ! j = merkle_parent c (xs ! (2 * j)) (xs ! (2 * j + 1))"
proof (induction c xs arbitrary: j rule: opt_row.induct)
  case (1 c x y zs)
  then show ?case by (cases j) auto
qed auto

function levels :: "crypto \<Rightarrow> bytes option list \<Rightarrow> bytes option list" where
  "levels c xs = (if length xs < 2 then xs else xs @ levels c (opt_row c xs))"
  by pat_completeness auto
termination by (relation "measure (length \<circ> snd)") (auto simp: opt_row_length)

declare levels.simps [simp del]

lemma levels_spec:
  "length xs = 2 ^ m \<Longrightarrow> length (levels c xs) = 2 * 2 ^ m - 1 \<and> take (2 ^ m) (levels c xs) = xs
     \<and> (\<forall>j. j + 1 < 2 ^ m \<longrightarrow> levels c xs ! (2 ^ m + j) = merkle_parent c (levels c xs ! (2 * j)) (levels c xs ! (2 * j + 1)))"
proof (induction m arbitrary: xs)
  case 0
  then show ?case by (simp add: levels.simps)
next
  case (Suc m)
  let ?r = "opt_row c xs" and ?l = "levels c xs" and ?n = "(2::nat) ^ m"
  have r: "length ?r = ?n" using Suc.prems by (simp add: opt_row_length)
  have "\<not> length xs < 2" using Suc.prems by simp
  then have l: "?l = xs @ levels c ?r" by (subst levels.simps) simp
  have ih: "length (levels c ?r) = 2 * ?n - 1" "take ?n (levels c ?r) = ?r"
    "\<forall>j. j + 1 < ?n \<longrightarrow> levels c ?r ! (?n + j) = merkle_parent c (levels c ?r ! (2 * j)) (levels c ?r ! (2 * j + 1))"
    using Suc.IH [OF r] by auto
  have "?l ! (2 * ?n + j) = merkle_parent c (?l ! (2 * j)) (?l ! (2 * j + 1))" if j: "j + 1 < 2 * ?n" for j
  proof (cases "j < ?n")
    case True
    have "?l ! (2 * ?n + j) = levels c ?r ! j" using Suc.prems by (simp add: l nth_append)
    also have "\<dots> = ?r ! j" using True ih(2) nth_take [OF True, of "levels c ?r"] by simp
    also have "\<dots> = merkle_parent c (xs ! (2 * j)) (xs ! (2 * j + 1))" using True Suc.prems by (intro opt_row_nth) simp
    finally show ?thesis using True Suc.prems by (simp add: l nth_append)
  next
    case False
    then obtain i where i: "j = ?n + i" using le_Suc_ex not_less by blast
    have a: "?l ! (2 * ?n + k) = levels c ?r ! k" for k using Suc.prems by (simp add: l nth_append)
    have "levels c ?r ! (?n + i) = merkle_parent c (levels c ?r ! (2 * i)) (levels c ?r ! (2 * i + 1))"
      using ih(3) j i by simp
    then show ?thesis using a [of j] a [of "2 * i"] a [of "2 * i + 1"] i by (simp add: algebra_simps)
  qed
  then show ?case using Suc.prems l ih(1) by simp
qed

lemma merkle_loop_levels:
  assumes "length F = 2 * n - 1" "\<forall>j. j + 1 < n \<longrightarrow> F ! (n + j) = merkle_parent c (F ! (2 * j)) (F ! (2 * j + 1))" "j < n"
  shows "merkle_loop c (2 * j) (n + j) (take (n + j) F @ replicate (n - 1 - j) None) = Inr F"
  using assms(3)
proof (induction "n - 1 - j" arbitrary: j)
  case 0
  then show ?case using assms(1) by (subst merkle_loop.simps) auto
next
  case (Suc k)
  let ?a = "take (n + j) F @ replicate (n - 1 - j) None"
  have j: "j + 1 < n" using Suc by simp
  then have len: "length ?a = 2 * n - 1" using assms(1) by simp
  have rd: "?a ! (2 * j) = F ! (2 * j)" "?a ! (2 * j + 1) = F ! (2 * j + 1)" using j assms(1) by (simp_all add: nth_append)
  have "replicate (n - 1 - j) None = None # replicate (n - 1 - (j + 1)) (None :: bytes option)"
    using j by (metis Suc_diff_Suc add.commute add_lessD1 diff_diff_left less_diff_conv plus_1_eq_Suc replicate_Suc)
  then have "?a[n + j := F ! (n + j)] = take (n + (j + 1)) F @ replicate (n - 1 - (j + 1)) None"
    using j assms(1) by (simp add: list_update_append take_Suc_conv_app_nth)
  then show ?case
    using Suc.hyps(1) [of "j + 1"] Suc.hyps(2) j len rd assms(2) by (subst merkle_loop.simps) simp
qed

lemma opt_row_None: "opt_row c (replicate k None) = replicate (k div 2) None"
proof (induction k rule: less_induct)
  case (less k)
  show ?case
  proof (cases "k < 2")
    case True
    then have "k = 0 \<or> k = 1" by linarith
    then show ?thesis by auto
  next
    case False
    then obtain j where "k = Suc (Suc j)" by (metis add_2_eq_Suc le_Suc_ex not_less)
    then show ?thesis using less [of j] by (simp add: merkle_parent_def)
  qed
qed

lemma opt_row_row:
  "even (length xs + k) \<Longrightarrow> opt_row c (map Some xs @ replicate k None) = map Some (merkle_row c xs) @ replicate (k div 2) None"
proof (induction c xs rule: merkle_row.induct)
  case (2 c x)
  then obtain j where j: "k = Suc j" "even j" by (cases k) auto
  then show ?case by (auto simp: merkle_parent_def opt_row_None)
qed (simp_all add: merkle_parent_def opt_row_None)

lemma levels_root:
  "length xs + k = 2 ^ m \<Longrightarrow> 2 ^ m < 2 * length xs \<Longrightarrow> last (levels c (map Some xs @ replicate k None)) = Some (merkle_root c xs)"
proof (induction m arbitrary: xs k)
  case 0
  then have *: "length xs + k = 1" "1 < 2 * length xs" by simp_all
  have "length xs = 1" using * by linarith
  moreover have "k = 0" using * by linarith
  ultimately obtain x where "xs = [x]" "k = 0" by (auto simp: length_Suc_conv)
  then show ?case by (subst levels.simps) simp
next
  case (Suc m)
  let ?l = "map Some xs @ replicate k None" and ?r = "merkle_row c xs"
  have g: "2 \<le> length xs" using Suc.prems by (cases m) auto
  have ev: "even (length xs + k)" using Suc.prems by simp
  have o: "opt_row c ?l = map Some ?r @ replicate (k div 2) None" using opt_row_row [OF ev] .
  have "length (opt_row c ?l) = 2 ^ m" using Suc.prems by (simp add: opt_row_length)
  then have "length ?r + k div 2 = 2 ^ m" by (simp add: o)
  moreover have "2 ^ m < 2 * length ?r" using Suc.prems(2) by simp
  ultimately have "last (levels c (opt_row c ?l)) = Some (merkle_root c ?r)" unfolding o by (rule Suc.IH)
  moreover have "levels c (opt_row c ?l) \<noteq> []"
    using levels_spec [of "opt_row c ?l" m c] \<open>length (opt_row c ?l) = 2 ^ m\<close> by (metis list.size(3) power_not_zero take_eq_Nil zero_neq_numeral)
  moreover have "\<not> length ?l < 2" using g by simp
  ultimately show ?case using merkle_root_row [OF g, of c] by (subst levels.simps) simp
qed

lemma and_pred_power: "0 < n \<Longrightarrow> int n AND (int n - 1) = 0 \<Longrightarrow> \<exists>m. n = 2 ^ m"
proof (induction n rule: less_induct)
  case (less n)
  show ?case
  proof (cases "even n")
    case True
    then obtain k where k: "n = 2 * k" by (rule evenE)
    have "int n AND (int n - 1) = 2 * (int k AND (int k - 1))"
    proof -
      have "(2 * int k - 1) div 2 = int k - 1" by presburger
      then show ?thesis by (subst and_rec) (simp add: k)
    qed
    then have "int k AND (int k - 1) = 0" "0 < k" "k < n" using less.prems k by simp_all
    then obtain m where "k = 2 ^ m" using less.IH by blast
    then show ?thesis using k by (intro exI [of _ "Suc m"]) simp
  next
    case False
    then obtain k where k: "n = 2 * k + 1" by (rule oddE)
    have "int n AND (int n - 1) = 2 * int k"
      by (subst and_rec) (simp add: k)
    then have "k = 0" using less by simp
    then show ?thesis using k by (intro exI [of _ 0]) simp
  qed
qed

lemma log2_bounds: "0 < n \<Longrightarrow> 2 ^ log2 n \<le> n \<and> n < 2 ^ (log2 n + 1)"
proof (induction n rule: log2.induct)
  case (1 n)
  then show ?case by (cases "n < 2") (auto simp: log2.simps [of n])
qed

lemma nextPowerOfTwo_spec:
  assumes "0 < n"
  obtains m where "nextPowerOfTwo n = 2 ^ m" "n \<le> 2 ^ m" "2 ^ m < 2 * n"
proof (cases "int n AND (int n - 1) = 0")
  case True
  then show thesis using and_pred_power [OF assms] that assms by (auto simp: nextPowerOfTwo_def)
next
  case False
  have "int (2 ^ j) AND (int (2 ^ j) - 1) = 0" for j
    using take_bit_eq_mask [of j "2 ^ j :: int"] by (simp add: mask_eq_exp_minus_1)
  then have "n \<noteq> 2 ^ log2 n" using False by metis
  then show thesis using that [of "log2 n + 1"] log2_bounds [OF assms] False by (simp add: nextPowerOfTwo_def)
qed

lemma BuildMerkleTreeStore_root:
  assumes "txs \<noteq> []"
  obtains store where "BuildMerkleTreeStore c txs w = Inr store" "store \<noteq> []" "last store = Some (merkle_root c (merkle_leaves c w txs))"
proof -
  let ?xs = "merkle_leaves c w txs"
  obtain m where m: "nextPowerOfTwo (length txs) = 2 ^ m" "length txs \<le> 2 ^ m" "2 ^ m < 2 * length txs"
    using nextPowerOfTwo_spec [of "length txs"] assms by auto
  let ?k = "2 ^ m - length txs" and ?n = "(2::nat) ^ m"
  let ?l = "map Some ?xs @ replicate ?k None"
  have len: "length ?l = ?n" using m by simp
  have F: "length (levels c ?l) = 2 * ?n - 1" "take ?n (levels c ?l) = ?l"
    "\<forall>j. j + 1 < ?n \<longrightarrow> levels c ?l ! (?n + j) = merkle_parent c (levels c ?l ! (2 * j)) (levels c ?l ! (2 * j + 1))"
    using levels_spec [OF len, of c] by auto
  have e: "?n * 2 - 1 - length txs = ?k + (?n - 1)" using m(2) by simp
  have arr: "map Some ?xs @ replicate (?n * 2 - 1 - length txs) None = ?l @ replicate (?n - 1) None"
    unfolding e replicate_add by simp
  have "merkle_loop c (2 * 0) (?n + 0) (take (?n + 0) (levels c ?l) @ replicate (?n - 1 - 0) None) = Inr (levels c ?l)"
    by (rule merkle_loop_levels [OF F(1,3)]) simp
  then have "merkle_loop c 0 ?n (?l @ replicate (?n - 1) None) = Inr (levels c ?l)" using F(2) by simp
  then have "BuildMerkleTreeStore c txs w = Inr (levels c ?l)"
    using arr m(1) by (simp add: BuildMerkleTreeStore_def Let_def mult.commute)
  moreover have "levels c ?l \<noteq> []" using F(2) len by (metis list.size(3) power_not_zero take_Nil zero_neq_numeral)
  moreover have "last (levels c ?l) = Some (merkle_root c ?xs)" by (rule levels_root) (use m in simp_all)
  ultimately show thesis by (rule that)
qed

text \<open>C21: The two ways the node computes a Merkle root agree. For a block with transactions the computation with one
  root per row ends and returns the last entry of the tree that is stored in an array, and both are the
  root of the textbook definition, which pairs the nodes of a row, the last one with itself, until one
  node is left.\<close>

theorem merkle_roots_agree:
  assumes "txs \<noteq> []"
  shows "\<exists>store. BuildMerkleTreeStore c txs witness = Inr store
    \<and> CalcMerkleRoot c txs witness = Some (Inr (merkle_root c (merkle_leaves c witness txs)))
    \<and> last store = Some (merkle_root c (merkle_leaves c witness txs))"
  using CalcMerkleRoot_root [OF assms, of c witness] BuildMerkleTreeStore_root [OF assms, of c witness] by metis

theorem merkle_roots_agree_witness:
  "\<exists>store r. BuildMerkleTreeStore toy_crypto (replicate 3 sample_tx) False = Inr store
    \<and> CalcMerkleRoot toy_crypto (replicate 3 sample_tx) False = Some (Inr r) \<and> last store = Some r"
  using merkle_roots_agree [of "replicate 3 sample_tx" toy_crypto False] by auto

section \<open>What a root commits to\<close>

text \<open>The byte strings that are hashed on the way from the leaves to the root.\<close>

fun row_inputs :: "bytes list \<Rightarrow> bytes list" where
  "row_inputs [] = []"
| "row_inputs [x] = [x @ x]"
| "row_inputs (x # y # zs) = (x @ y) # row_inputs zs"

function merkle_inputs :: "crypto \<Rightarrow> bytes list \<Rightarrow> bytes list" where
  "merkle_inputs c xs = (if length xs < 2 then [] else row_inputs xs @ merkle_inputs c (merkle_row c xs))"
  by pat_completeness auto
termination by (relation "measure (length \<circ> snd)") auto

declare merkle_inputs.simps [simp del]

definition collide :: "crypto \<Rightarrow> bytes list \<Rightarrow> bytes list \<Rightarrow> bool" where
  "collide c as bs \<longleftrightarrow> (\<exists>a\<in>set as. \<exists>b\<in>set bs. a \<noteq> b \<and> DoubleHashB c a = DoubleHashB c b)"

lemma collide_append [intro]:
  "collide c as bs \<Longrightarrow> collide c (as @ as') (bs @ bs')" "collide c as' bs' \<Longrightarrow> collide c (as @ as') (bs @ bs')"
  by (auto simp: collide_def)

lemma merkle_row_inj:
  "merkle_row c xs = merkle_row c ys \<Longrightarrow> length xs = length ys \<Longrightarrow> \<forall>x\<in>set xs \<union> set ys. length x = 32
   \<Longrightarrow> collide c (row_inputs xs) (row_inputs ys) \<or> xs = ys"
proof (induction c xs arbitrary: ys rule: merkle_row.induct)
  case (2 c x)
  then obtain y where "ys = [y]" by (cases ys) auto
  then show ?case using 2 by (auto simp: collide_def HashMerkleBranches_def)
next
  case (3 c x x' zs)
  then obtain y y' ys' where ys: "ys = y # y' # ys'" by (metis length_Suc_conv)
  then have "collide c (row_inputs zs) (row_inputs ys') \<or> zs = ys'" using 3 by simp
  moreover have "DoubleHashB c (x @ x') = DoubleHashB c (y @ y')" "length x = length y"
    using "3.prems" ys by (simp_all add: HashMerkleBranches_def)
  ultimately show ?case using ys by (auto simp: collide_def)
qed auto

lemma merkle_row_lengths: "\<forall>b. length (sha256 c b) = 32 \<Longrightarrow> \<forall>x\<in>set (merkle_row c xs). length x = 32"
  by (induction c xs rule: merkle_row.induct) (auto simp: HashMerkleBranches_def DoubleHashB_def)

lemma merkle_root_inj:
  "merkle_root c xs = merkle_root c ys \<Longrightarrow> length xs = length ys \<Longrightarrow> xs \<noteq> [] \<Longrightarrow> \<forall>x\<in>set xs \<union> set ys. length x = 32
   \<Longrightarrow> \<forall>b. length (sha256 c b) = 32 \<Longrightarrow> collide c (merkle_inputs c xs) (merkle_inputs c ys) \<or> xs = ys"
proof (induction c xs arbitrary: ys rule: merkle_root.induct)
  case (1 c xs)
  show ?case
  proof (cases "length xs < 2")
    case True
    then obtain x y where "xs = [x]" "ys = [y]" using "1.prems" by (cases xs; cases ys) auto
    then show ?thesis using "1.prems" by simp
  next
    case False
    have step: "merkle_inputs c zs = row_inputs zs @ merkle_inputs c (merkle_row c zs)" if "2 \<le> length zs" for zs
      using that by (subst merkle_inputs.simps) simp
    from False have "merkle_root c (merkle_row c xs) = merkle_root c (merkle_row c ys)" using "1.prems" by (simp add: merkle_root_row)
    then have "collide c (merkle_inputs c (merkle_row c xs)) (merkle_inputs c (merkle_row c ys)) \<or> merkle_row c xs = merkle_row c ys"
      using "1.IH" [OF False, of "merkle_row c ys"] "1.prems" merkle_row_lengths [of c] by auto
    then show ?thesis using merkle_row_inj [of c xs ys] "1.prems" False step [of xs] step [of ys] by auto
  qed
qed

text \<open>C22: A Merkle root commits to the transactions: two blocks with the same number of transactions and the same root
  have the same transaction hashes in the same order, unless two of the strings that are hashed on the way
  to the two roots are a collision of the double hash.\<close>

theorem merkle_root_commits:
  assumes "CalcMerkleRoot c txs False = CalcMerkleRoot c txs' False" "length txs = length txs'" "txs \<noteq> []"
    and "\<forall>b. length (sha256 c b) = 32"
  shows "map (TxHash c) txs = map (TxHash c) txs'
    \<or> (\<exists>a\<in>set (merkle_inputs c (map (TxHash c) txs)). \<exists>b\<in>set (merkle_inputs c (map (TxHash c) txs')).
         a \<noteq> b \<and> DoubleHashB c a = DoubleHashB c b)"
proof -
  have l: "merkle_leaves c False ts = map (TxHash c) ts" for ts
    by (rule nth_equalityI) (simp_all add: merkle_leaves_def merkle_leaf_def nth_enumerate_eq)
  have "txs' \<noteq> []" using assms(2,3) by auto
  then have "merkle_root c (map (TxHash c) txs) = merkle_root c (map (TxHash c) txs')"
    using assms(1,3) CalcMerkleRoot_root [of txs c False] CalcMerkleRoot_root [of txs' c False] by (simp add: l)
  then have "collide c (merkle_inputs c (map (TxHash c) txs)) (merkle_inputs c (map (TxHash c) txs'))
      \<or> map (TxHash c) txs = map (TxHash c) txs'"
    by (rule merkle_root_inj) (use assms(2-4) in \<open>auto simp: TxHash_def DoubleHashB_def\<close>)
  then show ?thesis by (auto simp: collide_def)
qed

text \<open>A hash that keeps the first 32 bytes: two blocks that differ in their second transaction.\<close>

definition prefix_hash :: crypto where
  "prefix_hash = toy_crypto\<lparr>sha256 := \<lambda>b. take 32 (b @ replicate 32 0)\<rparr>"

lemma prefix_hash_length [simp]: "length (sha256 prefix_hash b) = 32"
  by (simp add: prefix_hash_def)

lemma merkle_root_two: "merkle_root c [a, b] = HashMerkleBranches c a b"
  by (subst merkle_root.simps) simp

theorem merkle_root_commits_witness:
  "map (TxHash prefix_hash) [sample_tx, sample_tx] = map (TxHash prefix_hash) [sample_tx, sample_tx\<lparr>Version := 9\<rparr>]
   \<or> (\<exists>a\<in>set (merkle_inputs prefix_hash (map (TxHash prefix_hash) [sample_tx, sample_tx])).
       \<exists>b\<in>set (merkle_inputs prefix_hash (map (TxHash prefix_hash) [sample_tx, sample_tx\<lparr>Version := 9\<rparr>])).
         a \<noteq> b \<and> DoubleHashB prefix_hash a = DoubleHashB prefix_hash b)"
proof (rule merkle_root_commits)
  have "sha256 prefix_hash (sha256 prefix_hash (sha256 prefix_hash a @ b)) = sha256 prefix_hash a" for a b
    by (simp add: prefix_hash_def)
  then show "CalcMerkleRoot prefix_hash [sample_tx, sample_tx] False
      = CalcMerkleRoot prefix_hash [sample_tx, sample_tx\<lparr>Version := 9\<rparr>] False"
    by (simp add: CalcMerkleRoot_root merkle_leaves_def merkle_leaf_def merkle_root_two HashMerkleBranches_def
      TxHash_def DoubleHashB_def)
qed simp_all

end
