(* ===== verification/Wire_Block.thy ===== *)
theory Wire_Block
  imports Chain_Merkle
begin

unbundle bit_operations_syntax

text \<open>
  Blocks and their encoding (\<open>btcd/wire/blockheader.go\<close>, \<open>btcd/wire/msgblock.go\<close>, the accessors of
  \<open>btcd/btcutil/block.go\<close> that validation uses). A \<open>time.Time\<close> is the number of nanoseconds since the epoch.
  Reading and writing a block are inverse both ways, and the locations that \<open>DeserializeTxLoc\<close> reports cut the
  transactions out of the bytes of the block.
\<close>

section \<open>Headers\<close>

record BlockHeader =
  bh_Version :: u32
  PrevBlock :: bytes
  MerkleRoot :: bytes
  Timestamp :: int
  Bits :: u32
  Nonce :: u32

definition blockHeaderLen :: nat where "blockHeaderLen = 80"
definition MaxBlockPayload :: nat where "MaxBlockPayload = 4000000"
definition minTxPayload :: nat where "minTxPayload = 10"
definition maxTxPerBlock :: nat where "maxTxPerBlock = MaxBlockPayload div minTxPayload + 1"

text \<open>\<open>time.Unix(s, 0)\<close> and \<open>t.Unix()\<close>.\<close>

definition time_Unix :: "int \<Rightarrow> int" where "time_Unix s = s * 1000000000"
definition Unix :: "int \<Rightarrow> int" where "Unix t = t div 1000000000"

lemma Unix_time_Unix [simp]: "Unix (time_Unix s) = s"
  by (simp add: Unix_def time_Unix_def)

definition writeBlockHeaderBuf :: "BlockHeader \<Rightarrow> bytes" where
  "writeBlockHeaderBuf bh =
     le_bytes 4 (unat (bh_Version bh)) @ PrevBlock bh @ MerkleRoot bh
     @ le_bytes 4 (unat (of_int (Unix (Timestamp bh)) :: u32))
     @ le_bytes 4 (unat (Bits bh)) @ le_bytes 4 (unat (Nonce bh))"

definition readBlockHeaderBuf :: "bytes \<Rightarrow> (BlockHeader \<times> bytes) wres" where
  "readBlockHeaderBuf r =
     rbind (ReadUint32 r) (\<lambda>(version, r).
     rbind (ReadFull 32 r) (\<lambda>(prevBlock, r).
     rbind (ReadFull 32 r) (\<lambda>(merkleRoot, r).
     rbind (ReadUint32 r) (\<lambda>(sec, r).
     rbind (ReadUint32 r) (\<lambda>(bits, r).
     rbind (ReadUint32 r) (\<lambda>(nonce, r).
       Inr (\<lparr>bh_Version = version, PrevBlock = prevBlock, MerkleRoot = merkleRoot,
             Timestamp = time_Unix (uint sec), Bits = bits, Nonce = nonce\<rparr>, r)))))))"

definition BlockHash :: "crypto \<Rightarrow> BlockHeader \<Rightarrow> bytes" where
  "BlockHash c h = DoubleHashB c (writeBlockHeaderBuf h)"

section \<open>Blocks\<close>

record MsgBlock =
  Header :: BlockHeader
  Transactions :: "MsgTx list"

definition AddTransaction :: "MsgTx \<Rightarrow> MsgBlock \<Rightarrow> MsgBlock" where
  "AddTransaction tx msg = msg\<lparr>Transactions := Transactions msg @ [tx]\<rparr>"

definition ClearTransactions :: "MsgBlock \<Rightarrow> MsgBlock" where
  "ClearTransactions msg = msg\<lparr>Transactions := []\<rparr>"

definition block_BtcDecode :: "MessageEncoding \<Rightarrow> bytes \<Rightarrow> (MsgBlock \<times> bytes) wres" where
  "block_BtcDecode enc r =
     rbind (readBlockHeaderBuf r) (\<lambda>(hdr, r).
     rbind (ReadVarInt r) (\<lambda>(txCount, r).
     if txCount > maxTxPerBlock then Inl MessageError
     else rbind (read_list (\<lambda>_. btcDecode enc) (\<lambda>_. 0) txCount 0 r) (\<lambda>(txs, _, r).
       Inr (\<lparr>Header = hdr, Transactions = txs\<rparr>, r))))"

definition block_Deserialize :: "bytes \<Rightarrow> (MsgBlock \<times> bytes) wres" where
  "block_Deserialize r = block_BtcDecode WitnessEncoding r"

definition block_DeserializeNoWitness :: "bytes \<Rightarrow> (MsgBlock \<times> bytes) wres" where
  "block_DeserializeNoWitness r = block_BtcDecode BaseEncoding r"

record TxLoc =
  TxStart :: nat
  TxLen :: nat

fun read_located :: "nat \<Rightarrow> nat \<Rightarrow> bytes \<Rightarrow> ((MsgTx \<times> TxLoc) list \<times> bytes) wres" where
  "read_located fullLen 0 r = Inr ([], r)"
| "read_located fullLen (Suc n) r =
     (let start = fullLen - length r in
      rbind (btcDecode WitnessEncoding r) (\<lambda>(tx, r).
      let loc = \<lparr>TxStart = start, TxLen = fullLen - length r - start\<rparr> in
      rbind (read_located fullLen n r) (\<lambda>(ts, r). Inr ((tx, loc) # ts, r))))"

definition DeserializeTxLoc :: "bytes \<Rightarrow> (MsgBlock \<times> TxLoc list) wres" where
  "DeserializeTxLoc r =
     (let fullLen = length r in
      rbind (readBlockHeaderBuf r) (\<lambda>(hdr, r).
      rbind (ReadVarInt r) (\<lambda>(txCount, r).
      if txCount > maxTxPerBlock then Inl MessageError
      else rbind (read_located fullLen txCount r) (\<lambda>(ts, r).
        Inr (\<lparr>Header = hdr, Transactions = map fst ts\<rparr>, map snd ts)))))"

definition block_BtcEncode :: "MessageEncoding \<Rightarrow> MsgBlock \<Rightarrow> bytes" where
  "block_BtcEncode enc msg =
     writeBlockHeaderBuf (Header msg) @ WriteVarInt (length (Transactions msg))
     @ concat (map (btcEncode enc) (Transactions msg))"

definition block_Serialize :: "MsgBlock \<Rightarrow> bytes" where
  "block_Serialize msg = block_BtcEncode WitnessEncoding msg"

definition block_SerializeNoWitness :: "MsgBlock \<Rightarrow> bytes" where
  "block_SerializeNoWitness msg = block_BtcEncode BaseEncoding msg"

definition block_SerializeSize :: "MsgBlock \<Rightarrow> nat" where
  "block_SerializeSize msg =
     fold (\<lambda>tx n. n + SerializeSize tx) (Transactions msg) (blockHeaderLen + VarIntSerializeSize (length (Transactions msg)))"

definition block_SerializeSizeStripped :: "MsgBlock \<Rightarrow> nat" where
  "block_SerializeSizeStripped msg =
     fold (\<lambda>tx n. n + SerializeSizeStripped tx) (Transactions msg)
       (blockHeaderLen + VarIntSerializeSize (length (Transactions msg)))"

definition TxHashes :: "crypto \<Rightarrow> MsgBlock \<Rightarrow> bytes list" where
  "TxHashes c msg = map (TxHash c) (Transactions msg)"

text \<open>A block with the height it was given (\<open>btcutil.Block\<close>).\<close>

record Block =
  msgBlock :: MsgBlock
  block_Height :: int

abbreviation block_txs :: "Block \<Rightarrow> MsgTx list" where
  "block_txs b \<equiv> Transactions (msgBlock b)"

definition block_Hash :: "crypto \<Rightarrow> Block \<Rightarrow> bytes" where
  "block_Hash c b = BlockHash c (Header (msgBlock b))"

section \<open>The codecs\<close>

definition wf_header :: "BlockHeader \<Rightarrow> bool" where
  "wf_header bh \<longleftrightarrow> length (PrevBlock bh) = 32 \<and> length (MerkleRoot bh) = 32
     \<and> Timestamp bh mod 1000000000 = 0 \<and> 0 \<le> Timestamp bh \<and> Unix (Timestamp bh) < 2 ^ 32"

definition wf_block :: "MessageEncoding \<Rightarrow> MsgBlock \<Rightarrow> bool" where
  "wf_block enc b \<longleftrightarrow> wf_header (Header b) \<and> length (Transactions b) \<le> maxTxPerBlock
     \<and> (\<forall>tx\<in>set (Transactions b). wf_tx enc tx)"

lemma time_Unix_Unix: "t mod 1000000000 = 0 \<Longrightarrow> time_Unix (Unix t) = t"
  by (auto simp: time_Unix_def Unix_def)

lemma uint_of_int_u32: "0 \<le> x \<Longrightarrow> x < 2 ^ 32 \<Longrightarrow> uint (of_int x :: u32) = x"
  by (simp add: unsigned_of_int take_bit_int_eq_self)

lemma header_time_ok: "wf_header bh \<Longrightarrow> time_Unix (uint (of_int (Unix (Timestamp bh)) :: u32)) = Timestamp bh"
proof -
  assume wf: "wf_header bh"
  then have "0 \<le> Unix (Timestamp bh)" "Unix (Timestamp bh) < 2 ^ 32" by (auto simp: wf_header_def Unix_def pos_imp_zdiv_nonneg_iff)
  then show ?thesis using wf by (simp only: uint_of_int_u32) (simp add: wf_header_def time_Unix_Unix)
qed

interpretation header: codec writeBlockHeaderBuf readBlockHeaderBuf wf_header
proof unfold_locales
  show "readBlockHeaderBuf (writeBlockHeaderBuf x @ r) = Inr (x, r)" if "wf_header x" for x r
    using that header_time_ok [OF that]
    by (simp add: readBlockHeaderBuf_def writeBlockHeaderBuf_def u32.enc_dec wf_header_def)
  show "wf_header x \<and> b = writeBlockHeaderBuf x @ r" if "readBlockHeaderBuf b = Inr (x, r)" for b x r
    using that
    by (auto simp: readBlockHeaderBuf_def writeBlockHeaderBuf_def rbind_eq_Inr ReadFull_Inr wf_header_def
        time_Unix_def Unix_def dest!: u32.dec_enc)
      (use uint_lt2p [where ?'a = 32] in simp)
qed

interpretation tx: codec "btcEncode enc" "btcDecode enc" "wf_tx enc" for enc
  by unfold_locales (rule tx_enc_dec, assumption, rule tx_dec_enc)

lemma maxTxPerBlock_small: "n \<le> maxTxPerBlock \<Longrightarrow> n < 2 ^ 64"
  by (simp add: maxTxPerBlock_def MaxBlockPayload_def minTxPayload_def)

interpretation block: codec "block_BtcEncode enc" "block_BtcDecode enc" "wf_block enc" for enc
proof unfold_locales
  show "block_BtcDecode enc (block_BtcEncode enc x @ r) = Inr (x, r)" if "wf_block enc x" for x r
  proof -
    have "read_list (\<lambda>_. btcDecode enc) (\<lambda>_. 0) (length (Transactions x)) 0 (concat (map (btcEncode enc) (Transactions x)) @ r)
        = Inr (Transactions x, 0, r)"
      using tx.list_enc_dec [of "Transactions x" enc 0 r] that by (simp add: wf_block_def)
    then show ?thesis using that maxTxPerBlock_small
      by (simp add: block_BtcDecode_def block_BtcEncode_def wf_block_def header.enc_dec varint.enc_dec)
  qed
  show "wf_block enc x \<and> b = block_BtcEncode enc x @ r" if "block_BtcDecode enc b = Inr (x, r)" for b x r
  proof -
    from that obtain h b1 n b2 txs room where
      1: "readBlockHeaderBuf b = Inr (h, b1)" and 2: "ReadVarInt b1 = Inr (n, b2)" and 3: "n \<le> maxTxPerBlock"
      and 4: "read_list (\<lambda>_. btcDecode enc) (\<lambda>_. 0) n 0 b2 = Inr (txs, room, r)"
      and 5: "x = \<lparr>Header = h, Transactions = txs\<rparr>"
      by (auto simp: block_BtcDecode_def rbind_eq_Inr split: if_split_asm)
    show ?thesis
      using header.dec_enc [OF 1] varint.dec_enc [OF 2] 3 tx.list_dec_enc [OF 4] 5
      by (auto simp: wf_block_def block_BtcEncode_def)
  qed
qed

text \<open>The locating reader reads the same transactions and its spans cut their encodings out of the input.\<close>

lemma read_located_spans:
  assumes "\<forall>tx\<in>set txs. wf_tx WitnessEncoding tx"
  shows "\<exists>ts. read_located (length (pre @ concat (map Serialize txs) @ r)) (length txs) (concat (map Serialize txs) @ r) = Inr (ts, r)
    \<and> map fst ts = txs \<and> (\<forall>(tx, loc)\<in>set ts. take (TxLen loc) (drop (TxStart loc) (pre @ concat (map Serialize txs) @ r)) = Serialize tx)"
  using assms
proof (induction txs arbitrary: pre)
  case (Cons tx txs)
  obtain ts where ts:
      "read_located (length ((pre @ Serialize tx) @ concat (map Serialize txs) @ r)) (length txs) (concat (map Serialize txs) @ r) = Inr (ts, r)"
      "map fst ts = txs"
      "\<forall>(tx', loc)\<in>set ts. take (TxLen loc) (drop (TxStart loc) ((pre @ Serialize tx) @ concat (map Serialize txs) @ r)) = Serialize tx'"
    using Cons.IH [of "pre @ Serialize tx"] Cons.prems by auto
  have dec: "btcDecode WitnessEncoding (Serialize tx @ concat (map Serialize txs) @ r) = Inr (tx, concat (map Serialize txs) @ r)"
    using Cons.prems tx.enc_dec [of WitnessEncoding tx] by (simp add: Serialize_def)
  show ?case
    by (rule exI [of _ "(tx, \<lparr>TxStart = length pre, TxLen = length (Serialize tx)\<rparr>) # ts"]) (use ts dec in auto)
qed simp

section \<open>Properties\<close>

text \<open>C38: Reading and writing blocks are inverse both ways: what \<open>Deserialize\<close> accepts is the serialization of the block
  it returns, followed by the input it leaves, and every block within the limits is read back.\<close>

theorem block_roundtrip:
  "block_Deserialize b = Inr (blk, r) \<longleftrightarrow> wf_block WitnessEncoding blk \<and> b = block_Serialize blk @ r"
  unfolding block_Deserialize_def block_Serialize_def using block.enc_dec block.dec_enc by blast

text \<open>The locations that \<open>DeserializeTxLoc\<close> reports for the bytes of a block are those of its transactions: cutting
  the span of a location out of these bytes gives the serialization of the transaction.\<close>

theorem DeserializeTxLoc_right:
  assumes "wf_block WitnessEncoding blk"
  shows "\<exists>locs. DeserializeTxLoc (block_Serialize blk) = Inr (blk, locs)
    \<and> map (\<lambda>loc. take (TxLen loc) (drop (TxStart loc) (block_Serialize blk))) locs = map Serialize (Transactions blk)"
proof -
  let ?hd = "writeBlockHeaderBuf (Header blk)" and ?n = "WriteVarInt (length (Transactions blk))"
  let ?txs = "concat (map Serialize (Transactions blk))"
  have ser: "block_Serialize blk = ?hd @ ?n @ ?txs" 
    by (simp add: block_Serialize_def block_BtcEncode_def Serialize_def [abs_def])
  obtain ts where ts: "read_located (length (block_Serialize blk)) (length (Transactions blk)) ?txs = Inr (ts, [])"
      "map fst ts = Transactions blk"
      "\<forall>(tx, loc)\<in>set ts. take (TxLen loc) (drop (TxStart loc) (block_Serialize blk)) = Serialize tx"
    using read_located_spans [of "Transactions blk" "?hd @ ?n" "[]"] assms by (auto simp: wf_block_def ser)
  have "map (\<lambda>loc. take (TxLen loc) (drop (TxStart loc) (block_Serialize blk))) (map snd ts) = map Serialize (map fst ts)"
    using ts(3) by (auto simp: case_prod_beta)
  moreover have "DeserializeTxLoc (block_Serialize blk) = Inr (blk, map snd ts)"
  proof -
    have "readBlockHeaderBuf (?hd @ ?n @ ?txs) = Inr (Header blk, ?n @ ?txs)" "ReadVarInt (?n @ ?txs) = Inr (length (Transactions blk), ?txs)"
      using assms maxTxPerBlock_small by (simp_all add: wf_block_def header.enc_dec varint.enc_dec)
    then show ?thesis using ts assms by (simp add: DeserializeTxLoc_def Let_def ser wf_block_def)
  qed
  ultimately show ?thesis using ts(2) by auto
qed

definition sample_block :: MsgBlock where
  "sample_block = \<lparr>Header = \<lparr>bh_Version = 4, PrevBlock = replicate 32 1, MerkleRoot = replicate 32 2,
     Timestamp = time_Unix 1700000000, Bits = 0x207fffff, Nonce = 7\<rparr>, Transactions = [sample_tx, sample_tx]\<rparr>"

theorem DeserializeTxLoc_right_witness:
  "\<exists>locs. DeserializeTxLoc (block_Serialize sample_block) = Inr (sample_block, locs) \<and> length locs = 2"
proof -
  have "wf_block WitnessEncoding sample_block"
    by (simp add: sample_block_def wf_block_def wf_header_def time_Unix_def Unix_def maxTxPerBlock_def MaxBlockPayload_def
        minTxPayload_def sample_tx_def wf_tx_def ok_txin_def ok_witness_def wit_size_def wire_limits)
  from DeserializeTxLoc_right [OF this] show ?thesis
    by (auto simp: sample_block_def dest!: arg_cong [where f = length])
qed

end
