(* ===== verification/Chain_Entry.thy ===== *)
theory Chain_Entry
  imports Chain_Compress Wire_Block
begin

unbundle bit_operations_syntax

text \<open>
  Unspent outputs and how they are stored: the entry of a view or of the cache (\<open>utxoviewpoint.go\<close>), the details kept of
  a spent output, and the serialized forms of both in the database (\<open>chainio.go\<close>): keys, unspent outputs and the spend
  journal of a block. A bucket is a map from keys to values. The abstract ledger at the end, a map from outpoints to
  coins with the effect of a transaction on it, is what the view and the cache are shown to implement.
\<close>

section \<open>Entries\<close>

type_synonym txoFlags = u8

definition tfCoinBase :: txoFlags where "tfCoinBase = 1"
definition tfSpent :: txoFlags where "tfSpent = 2"
definition tfModified :: txoFlags where "tfModified = 4"
definition tfFresh :: txoFlags where "tfFresh = 8"

lemmas tf_defs = tfCoinBase_def tfSpent_def tfModified_def tfFresh_def

record UtxoEntry =
  amount :: u64
  pkScript :: bytes
  blockHeight :: int
  packedFlags :: txoFlags

definition isModified :: "UtxoEntry \<Rightarrow> bool" where
  "isModified entry \<longleftrightarrow> packedFlags entry AND tfModified = tfModified"

definition isFresh :: "UtxoEntry \<Rightarrow> bool" where
  "isFresh entry \<longleftrightarrow> packedFlags entry AND tfFresh = tfFresh"

definition IsCoinBase :: "UtxoEntry \<Rightarrow> bool" where
  "IsCoinBase entry \<longleftrightarrow> packedFlags entry AND tfCoinBase = tfCoinBase"

definition IsSpent :: "UtxoEntry \<Rightarrow> bool" where
  "IsSpent entry \<longleftrightarrow> packedFlags entry AND tfSpent = tfSpent"

definition Spend :: "UtxoEntry \<Rightarrow> UtxoEntry" where
  "Spend entry = (if IsSpent entry then entry else entry\<lparr>packedFlags := packedFlags entry OR (tfSpent OR tfModified)\<rparr>)"

definition NewUtxoEntry :: "TxOut \<Rightarrow> int \<Rightarrow> bool \<Rightarrow> UtxoEntry" where
  "NewUtxoEntry txOut height isCoinbase =
     \<lparr>amount = Value txOut, pkScript = PkScript txOut, blockHeight = height,
      packedFlags = (if isCoinbase then 0 OR tfCoinBase else 0)\<rparr>"

text \<open>The entry both \<open>addTxOut\<close> functions write.\<close>

definition fresh_entry :: "TxOut \<Rightarrow> bool \<Rightarrow> int \<Rightarrow> UtxoEntry" where
  "fresh_entry txOut isCoinBase height =
     \<lparr>amount = Value txOut, pkScript = PkScript txOut, blockHeight = height,
      packedFlags = (if isCoinBase then (tfFresh OR tfModified) OR tfCoinBase else tfFresh OR tfModified)\<rparr>"

record SpentTxOut =
  Amount :: u64
  stxo_PkScript :: bytes
  stxo_Height :: int
  stxo_IsCoinBase :: bool

definition stxo_of :: "UtxoEntry \<Rightarrow> SpentTxOut" where
  "stxo_of entry = \<lparr>Amount = amount entry, stxo_PkScript = pkScript entry, stxo_Height = blockHeight entry,
     stxo_IsCoinBase = IsCoinBase entry\<rparr>"

lemmas flag_defs = isModified_def isFresh_def IsCoinBase_def IsSpent_def

lemma flag_or:
  "(f OR g :: u8) AND tfCoinBase = (f AND tfCoinBase) OR (g AND tfCoinBase)"
  "(f OR g :: u8) AND tfSpent = (f AND tfSpent) OR (g AND tfSpent)"
  "(f OR g :: u8) AND tfModified = (f AND tfModified) OR (g AND tfModified)"
  "(f OR g :: u8) AND tfFresh = (f AND tfFresh) OR (g AND tfFresh)"
  by (simp_all add: bit.conj_disj_distrib2)

lemma Spend_flags [simp]:
  "IsSpent (Spend e)" "isFresh (Spend e) = isFresh e" "IsCoinBase (Spend e) = IsCoinBase e"
  "amount (Spend e) = amount e" "pkScript (Spend e) = pkScript e" "blockHeight (Spend e) = blockHeight e"
  by (simp_all add: Spend_def flag_defs flag_or) (simp_all add: tf_defs)

lemma fresh_entry_flags [simp]:
  "\<not> IsSpent (fresh_entry txo cb h)" "isFresh (fresh_entry txo cb h)" "isModified (fresh_entry txo cb h)"
  "IsCoinBase (fresh_entry txo cb h) = cb" "stxo_of (fresh_entry txo cb h)
     = \<lparr>Amount = Value txo, stxo_PkScript = PkScript txo, stxo_Height = h, stxo_IsCoinBase = cb\<rparr>"
  by (simp_all add: fresh_entry_def flag_defs stxo_of_def tf_defs)

lemma stxo_of_Spend [simp]: "stxo_of (Spend e) = stxo_of e"
  by (simp add: stxo_of_def)

section \<open>Stored unspent outputs\<close>

type_synonym bucket = "bytes \<rightharpoonup> bytes"

definition outpointKey :: "OutPoint \<Rightarrow> bytes" where
  "outpointKey outpoint = op_Hash outpoint @ rev (vlq_groups (ucast (op_Index outpoint)) True)"

definition utxoEntryHeaderCode :: "UtxoEntry \<Rightarrow> u64 rule" where
  "utxoEntryHeaderCode entry =
     (if IsSpent entry then Inl AssertError
      else let headerCode = push_bit 1 (of_int (blockHeight entry)) in
        Inr (if IsCoinBase entry then headerCode OR 0x01 else headerCode))"

text \<open>A panic of the codecs below is a panic here; their other error is the deserialization error.\<close>

definition lift_res :: "'a res \<Rightarrow> 'a rule" where
  "lift_res r = (case r of Inl GoPanic \<Rightarrow> Inl Panic | Inl _ \<Rightarrow> Inl DeserializeError | Inr x \<Rightarrow> Inr x)"

text \<open>\<open>None\<close> is the nil slice of a spent output.\<close>

definition serializeUtxoEntry :: "crypto \<Rightarrow> UtxoEntry \<Rightarrow> bytes option rule" where
  "serializeUtxoEntry c entry =
     (if IsSpent entry then Inr None
      else rbind (utxoEntryHeaderCode entry) (\<lambda>headerCode.
        let size = serializeSizeVLQ headerCode + compressedTxOutSize c (amount entry) (pkScript entry) in
        lift_res (rbind (putVLQ (replicate size 0) headerCode) (\<lambda>(serialized, offset).
          rbind (putCompressedTxOut c (drop offset serialized) (amount entry) (pkScript entry)) (\<lambda>(rest, n).
            Inr (Some (take offset serialized @ rest)))))))"

text \<open>\<open>int32(code >> 1)\<close>.\<close>

definition code_height :: "u64 \<Rightarrow> int" where
  "code_height code = signed_take_bit 31 (uint (drop_bit 1 code))"

definition deserializeUtxoEntry :: "crypto \<Rightarrow> (bytes \<Rightarrow> bytes) \<Rightarrow> bytes \<Rightarrow> UtxoEntry rule" where
  "deserializeUtxoEntry c ser serialized =
     (case deserializeVLQ serialized of (code, offset) \<Rightarrow>
        if offset \<ge> length serialized then Inl DeserializeError
        else rbind (lift_res (decodeCompressedTxOut c ser (drop offset serialized))) (\<lambda>(amt, script, _).
          Inr \<lparr>amount = amt, pkScript = script, blockHeight = code_height code,
               packedFlags = (if code AND 0x01 \<noteq> 0 then 0 OR tfCoinBase else 0)\<rparr>))"

text \<open>Deserialization errors become database corruption errors.\<close>

definition corruption :: "'a rule \<Rightarrow> 'a rule" where
  "corruption r = (case r of Inl DeserializeError \<Rightarrow> Inl ErrCorruption | _ \<Rightarrow> r)"

definition dbFetchUtxoEntry :: "crypto \<Rightarrow> (bytes \<Rightarrow> bytes) \<Rightarrow> bucket \<Rightarrow> OutPoint \<Rightarrow> UtxoEntry option rule" where
  "dbFetchUtxoEntry c ser utxoBucket outpoint =
     (case utxoBucket (outpointKey outpoint) of
        None \<Rightarrow> Inr None
      | Some serializedUtxo \<Rightarrow>
          if serializedUtxo = [] then Inl AssertError
          else rbind (corruption (deserializeUtxoEntry c ser serializedUtxo)) (\<lambda>entry. Inr (Some entry)))"

definition dbDeleteUtxoEntry :: "OutPoint \<Rightarrow> bucket \<Rightarrow> bucket" where
  "dbDeleteUtxoEntry outpoint utxoBucket = utxoBucket(outpointKey outpoint := None)"

definition dbPutUtxoEntry :: "crypto \<Rightarrow> OutPoint \<Rightarrow> UtxoEntry option \<Rightarrow> bucket \<Rightarrow> bucket rule" where
  "dbPutUtxoEntry c outpoint e utxoBucket =
     (case e of None \<Rightarrow> Inl AssertError
      | Some entry \<Rightarrow>
          if IsSpent entry then Inl AssertError
          else rbind (serializeUtxoEntry c entry) (\<lambda>serialized.
            Inr (utxoBucket(outpointKey outpoint \<mapsto> (case serialized of None \<Rightarrow> [] | Some s \<Rightarrow> s)))))"

section \<open>The spend journal\<close>

definition spentTxOutHeaderCode :: "SpentTxOut \<Rightarrow> u64" where
  "spentTxOutHeaderCode stxo =
     (let headerCode = push_bit 1 (of_int (stxo_Height stxo)) in
      if stxo_IsCoinBase stxo then headerCode OR 0x01 else headerCode)"

definition spentTxOutSerializeSize :: "crypto \<Rightarrow> SpentTxOut \<Rightarrow> nat" where
  "spentTxOutSerializeSize c stxo =
     (let s = serializeSizeVLQ (spentTxOutHeaderCode stxo);
          s = (if stxo_Height stxo > 0 then s + serializeSizeVLQ 0 else s) in
      s + compressedTxOutSize c (Amount stxo) (stxo_PkScript stxo))"

definition putSpentTxOut :: "crypto \<Rightarrow> bytes \<Rightarrow> SpentTxOut \<Rightarrow> (bytes \<times> nat) res" where
  "putSpentTxOut c target stxo =
     rbind (putVLQ target (spentTxOutHeaderCode stxo)) (\<lambda>(target, offset).
     rbind (if stxo_Height stxo > 0
            then rbind (putVLQ (drop offset target) 0) (\<lambda>(rest, n). Inr (take offset target @ rest, offset + n))
            else Inr (target, offset)) (\<lambda>(target, offset).
     rbind (putCompressedTxOut c (drop offset target) (Amount stxo) (stxo_PkScript stxo)) (\<lambda>(rest, n).
       Inr (take offset target @ rest, offset + n))))"

definition decodeSpentTxOut :: "crypto \<Rightarrow> (bytes \<Rightarrow> bytes) \<Rightarrow> bytes \<Rightarrow> (SpentTxOut \<times> nat) rule" where
  "decodeSpentTxOut c ser serialized =
     (if serialized = [] then Inl DeserializeError
      else case deserializeVLQ serialized of (code, offset) \<Rightarrow>
        if offset \<ge> length serialized then Inl DeserializeError
        else let height = code_height code;
                 offset = (if height > 0 then offset + snd (deserializeVLQ (drop offset serialized)) else offset) in
          if height > 0 \<and> offset \<ge> length serialized then Inl DeserializeError
          else rbind (lift_res (decodeCompressedTxOut c ser (drop offset serialized))) (\<lambda>(amt, script, bytesRead).
            Inr (\<lparr>Amount = amt, stxo_PkScript = script, stxo_Height = height, stxo_IsCoinBase = (code AND 0x01 \<noteq> 0)\<rparr>,
                 offset + nat bytesRead)))"

text \<open>The loops over the transactions and their inputs, both backwards: one output per input, filled in from the end.\<close>

fun decode_stxos :: "crypto \<Rightarrow> (bytes \<Rightarrow> bytes) \<Rightarrow> nat \<Rightarrow> bytes \<Rightarrow> SpentTxOut list \<Rightarrow> SpentTxOut list rule" where
  "decode_stxos c ser 0 serialized stxos = Inr stxos"
| "decode_stxos c ser (Suc k) serialized stxos =
     rbind (case decodeSpentTxOut c ser serialized of Inl Panic \<Rightarrow> Inl Panic | Inl _ \<Rightarrow> Inl DeserializeError | Inr r \<Rightarrow> Inr r)
       (\<lambda>(stxo, n). decode_stxos c ser k (drop n serialized) (stxo # stxos))"

definition deserializeSpendJournalEntry :: "crypto \<Rightarrow> (bytes \<Rightarrow> bytes) \<Rightarrow> bytes \<Rightarrow> MsgTx list \<Rightarrow> SpentTxOut list rule" where
  "deserializeSpendJournalEntry c ser serialized txns =
     (let numStxos = sum_list (map (\<lambda>tx. length (MsgTxIn tx)) txns) in
      if serialized = [] then (if numStxos \<noteq> 0 then Inl AssertError else Inr [])
      else decode_stxos c ser numStxos serialized [])"

text \<open>The loop that writes the outputs in reverse order into the slice.\<close>

fun put_stxos :: "crypto \<Rightarrow> SpentTxOut list \<Rightarrow> bytes \<Rightarrow> bytes res" where
  "put_stxos c [] serialized = Inr serialized"
| "put_stxos c (stxo # stxos) serialized =
     rbind (putSpentTxOut c serialized stxo) (\<lambda>(target, n).
       rbind (put_stxos c stxos (drop n target)) (\<lambda>rest. Inr (take n target @ rest)))"

definition serializeSpendJournalEntry :: "crypto \<Rightarrow> SpentTxOut list \<Rightarrow> bytes res" where
  "serializeSpendJournalEntry c stxos =
     (if stxos = [] then Inr []
      else put_stxos c (rev stxos) (replicate (sum_list (map (spentTxOutSerializeSize c) stxos)) 0))"

definition dbFetchSpendJournalEntry :: "crypto \<Rightarrow> (bytes \<Rightarrow> bytes) \<Rightarrow> bucket \<Rightarrow> Block \<Rightarrow> SpentTxOut list rule" where
  "dbFetchSpendJournalEntry c ser spendBucket block =
     (let serialized = (case spendBucket (block_Hash c block) of None \<Rightarrow> [] | Some s \<Rightarrow> s) in
      if block_txs block = [] then Inl Panic
      else corruption (deserializeSpendJournalEntry c ser serialized (tl (block_txs block))))"

definition dbPutSpendJournalEntry :: "crypto \<Rightarrow> bytes \<Rightarrow> SpentTxOut list \<Rightarrow> bucket \<Rightarrow> bucket rule" where
  "dbPutSpendJournalEntry c blockHash stxos spendBucket =
     rbind (lift_res (serializeSpendJournalEntry c stxos)) (\<lambda>serialized. Inr (spendBucket(blockHash \<mapsto> serialized)))"

definition dbRemoveSpendJournalEntry :: "bytes \<Rightarrow> bucket \<Rightarrow> bucket" where
  "dbRemoveSpendJournalEntry blockHash spendBucket = spendBucket(blockHash := None)"

definition dbPruneSpendJournalEntry :: "bytes list \<Rightarrow> bucket \<Rightarrow> bucket" where
  "dbPruneSpendJournalEntry blockHashes spendBucket = fold (\<lambda>blockHash b. b(blockHash := None)) blockHashes spendBucket"

section \<open>Reading back what is stored\<close>

text \<open>The outputs that can be stored: a height that is an \<open>int32\<close> and not negative, and what the compression needs.\<close>

definition storable :: "SpentTxOut \<Rightarrow> bool" where
  "storable s \<longleftrightarrow> 0 \<le> stxo_Height s \<and> stxo_Height s < 2 ^ 31 \<and> unat (Amount s) < 2 ^ 60 \<and> length (stxo_PkScript s) < 2 ^ 62"

lemma header_code:
  assumes "0 \<le> h" "h < 2 ^ 31"
  shows "code_height (push_bit 1 (of_int h) OR (if cb then 1 else 0)) = h"
    "(push_bit 1 (of_int h :: u64) OR (if cb then 1 else 0)) AND 1 \<noteq> 0 \<longleftrightarrow> cb"
proof -
  have "push_bit 1 (of_int h :: u64) OR (if cb then 1 else 0) = of_int (2 * h + of_bool cb)"
    by (simp add: or_one_eq mult.commute)
  moreover have "uint (of_int (2 * h + of_bool cb) :: u64) = 2 * h + of_bool cb"
    unfolding uint_word_of_int using assms by simp
  ultimately have "uint (drop_bit 1 (push_bit 1 (of_int h :: u64) OR (if cb then 1 else 0))) = h"
    by (simp add: drop_bit_eq_div uint_div_distrib)
  then show "code_height (push_bit 1 (of_int h) OR (if cb then 1 else 0)) = h"
    using assms by (simp add: code_height_def signed_take_bit_int_eq_self)
  show "(push_bit 1 (of_int h :: u64) OR (if cb then 1 else 0)) AND 1 \<noteq> 0 \<longleftrightarrow> cb"
    by (simp add: and_one_eq mod_2_eq_odd even_or_iff even_push_bit_iff)
qed

text \<open>The serialized forms.\<close>

definition enc_code :: "int \<Rightarrow> bool \<Rightarrow> bytes" where
  "enc_code h cb = rev (vlq_groups (push_bit 1 (of_int h) OR (if cb then 1 else 0)) True)"

definition enc_entry :: "crypto \<Rightarrow> SpentTxOut \<Rightarrow> bytes" where
  "enc_entry c s = enc_code (stxo_Height s) (stxo_IsCoinBase s) @ enc_txout c (Amount s) (stxo_PkScript s)"

definition enc_stxo :: "crypto \<Rightarrow> SpentTxOut \<Rightarrow> bytes" where
  "enc_stxo c s = enc_code (stxo_Height s) (stxo_IsCoinBase s)
     @ (if stxo_Height s > 0 then rev (vlq_groups 0 True) else []) @ enc_txout c (Amount s) (stxo_PkScript s)"

lemma enc_txout_not_Nil: "enc_txout c a s \<noteq> []"
  using length_enc_txout [of c a s] serializeSizeVLQ_pos [of "compressTxOutAmount a"] by (auto simp: compressedTxOutSize_def)

lemma or_zero_if: "(if cb then w OR 1 else w) = w OR (if cb then 1 else (0 :: u64))"
  by simp

lemma serialize_entry:
  assumes "\<not> IsSpent e"
  shows "serializeUtxoEntry c e = Inr (Some (enc_entry c (stxo_of e)))"
proof -
  let ?code = "push_bit 1 (of_int (blockHeight e)) OR (if IsCoinBase e then 1 else 0) :: u64"
  have "utxoEntryHeaderCode e = Inr ?code"
    using assms by (simp add: utxoEntryHeaderCode_def Let_def or_zero_if)
  then show ?thesis using assms
    by (simp add: serializeUtxoEntry_def Let_def put_vlq put_txout length_enc_txout vlq_length lift_res_def
        enc_entry_def enc_code_def stxo_of_def)
qed

lemma deserialize_entry:
  assumes "storable s" "key_laws c ser"
  shows "\<exists>e. deserializeUtxoEntry c ser (enc_entry c s) = Inr e \<and> stxo_of e = s \<and> \<not> IsSpent e \<and> \<not> isModified e \<and> \<not> isFresh e"
  using assms enc_txout_not_Nil header_code [of "stxo_Height s" "stxo_IsCoinBase s"]
    decode_txout [of "Amount s" "stxo_PkScript s" c ser "[]"]
  by (simp add: deserializeUtxoEntry_def enc_entry_def enc_code_def vlq_read storable_def lift_res_def stxo_of_def
      flag_defs tf_defs)

lemma put_stxo:
  "length (enc_stxo c s) \<le> length target \<Longrightarrow>
   putSpentTxOut c target s = Inr (enc_stxo c s @ drop (length (enc_stxo c s)) target, length (enc_stxo c s))"
  by (auto simp: putSpentTxOut_def spentTxOutHeaderCode_def Let_def or_zero_if enc_stxo_def enc_code_def vlq_length put_vlq
      put_txout length_enc_txout add.commute add.left_commute)

lemma length_enc_stxo: "length (enc_stxo c s) = spentTxOutSerializeSize c s"
  by (simp add: enc_stxo_def enc_code_def vlq_length length_enc_txout spentTxOutSerializeSize_def spentTxOutHeaderCode_def
      or_zero_if Let_def)

lemma decode_stxo:
  assumes "storable s" "key_laws c ser"
  shows "decodeSpentTxOut c ser (enc_stxo c s @ rest) = Inr (s, length (enc_stxo c s))"
proof -
  note h = header_code [of "stxo_Height s" "stxo_IsCoinBase s"]
  have d: "decodeCompressedTxOut c ser (enc_txout c (Amount s) (stxo_PkScript s) @ rest)
      = Inr (Amount s, stxo_PkScript s, int (length (enc_txout c (Amount s) (stxo_PkScript s))))"
    using assms by (intro decode_txout) (simp_all add: storable_def)
  show ?thesis
  proof (cases "stxo_Height s > 0")
    case True
    then show ?thesis using assms d h enc_txout_not_Nil [of c "Amount s" "stxo_PkScript s"]
      by (simp add: decodeSpentTxOut_def enc_stxo_def enc_code_def vlq_read storable_def lift_res_def Let_def)
  next
    case False
    then show ?thesis using assms d h enc_txout_not_Nil [of c "Amount s" "stxo_PkScript s"]
      by (simp add: decodeSpentTxOut_def enc_stxo_def enc_code_def vlq_read storable_def lift_res_def Let_def)
  qed
qed

lemma put_stxos_enc:
  "length target = sum_list (map (spentTxOutSerializeSize c) ss) \<Longrightarrow> put_stxos c ss target = Inr (concat (map (enc_stxo c) ss))"
proof (induction ss arbitrary: target)
  case (Cons s ss)
  then show ?case by (simp add: put_stxo length_enc_stxo Cons.IH [of "drop (spentTxOutSerializeSize c s) target"])
qed simp

lemma decode_stxos_enc:
  "\<forall>s\<in>set ss. storable s \<Longrightarrow> key_laws c ser \<Longrightarrow> decode_stxos c ser (length ss) (concat (map (enc_stxo c) ss)) acc = Inr (rev ss @ acc)"
  by (induction ss arbitrary: acc) (simp_all add: decode_stxo)

lemma enc_stxo_not_Nil: "enc_stxo c s \<noteq> []"
  by (simp add: enc_stxo_def enc_txout_not_Nil)

lemma journal_roundtrip:
  assumes "length stxos = sum_list (map (\<lambda>tx. length (MsgTxIn tx)) txns)" "\<forall>s\<in>set stxos. storable s" "key_laws c ser"
  shows "\<exists>bs. serializeSpendJournalEntry c stxos = Inr bs \<and> deserializeSpendJournalEntry c ser bs txns = Inr stxos"
proof (cases "stxos = []")
  case True
  then show ?thesis using assms(1) by (simp add: serializeSpendJournalEntry_def deserializeSpendJournalEntry_def)
next
  case False
  have "put_stxos c (rev stxos) (replicate (sum_list (map (spentTxOutSerializeSize c) stxos)) 0) = Inr (concat (map (enc_stxo c) (rev stxos)))"
    by (rule put_stxos_enc) (simp add: rev_map [symmetric])
  moreover have "decode_stxos c ser (length stxos) (concat (map (enc_stxo c) (rev stxos))) [] = Inr stxos"
    using decode_stxos_enc [of "rev stxos" c ser "[]"] assms by simp
  ultimately show ?thesis using False assms(1) enc_stxo_not_Nil
    by (auto simp: serializeSpendJournalEntry_def deserializeSpendJournalEntry_def)
qed

text \<open>The spend journal of a block is read back: serializing the outputs the block has spent, in order, and
  deserializing the result for its transactions gives the same outputs, for every number of inputs that matches.\<close>

theorem spend_journal_roundtrip:
  assumes "length stxos = sum_list (map (\<lambda>tx. length (MsgTxIn tx)) txns)" "\<forall>s\<in>set stxos. storable s" "key_laws c ser"
  shows "\<exists>bs. serializeSpendJournalEntry c stxos = Inr bs \<and> deserializeSpendJournalEntry c ser bs txns = Inr stxos"
  using assms by (rule journal_roundtrip)

theorem spend_journal_roundtrip_witness:
  "\<exists>bs. deserializeSpendJournalEntry (toy_crypto\<lparr>ParsePubKey := line_key\<rparr>) id bs [sample_tx, sample_tx]
     = Inr [\<lparr>Amount = 5000000000, stxo_PkScript = [0x51], stxo_Height = 0, stxo_IsCoinBase = True\<rparr>,
            \<lparr>Amount = 1200, stxo_PkScript = [], stxo_Height = 7, stxo_IsCoinBase = False\<rparr>]"
  using spend_journal_roundtrip [of "[\<lparr>Amount = 5000000000, stxo_PkScript = [0x51], stxo_Height = 0, stxo_IsCoinBase = True\<rparr>,
            \<lparr>Amount = 1200, stxo_PkScript = [], stxo_Height = 7, stxo_IsCoinBase = False\<rparr>]" "[sample_tx, sample_tx]"
      "toy_crypto\<lparr>ParsePubKey := line_key\<rparr>" id] line_key_laws
  by (auto simp: sample_tx_def storable_def)

section \<open>The unspent outputs in a bucket\<close>

lemma outpointKey_inject:
  assumes "outpointKey a = outpointKey b" "length (op_Hash a) = length (op_Hash b)"
  shows "a = b"
proof -
  have "op_Hash a = op_Hash b" and g: "vlq_groups (ucast (op_Index a)) True = vlq_groups (ucast (op_Index b)) True"
    using assms by (auto simp: outpointKey_def)
  have "(ucast (op_Index a) :: u64) = ucast (op_Index b)"
    using vlq_read [of "ucast (op_Index a)" "[]"] vlq_read [of "ucast (op_Index b)" "[]"] g by simp
  moreover have "unat (ucast x :: u64) = unat x" for x :: u32
    using unsigned_less [of x, where ?'a = nat] by (simp add: unsigned_ucast_eq take_bit_nat_eq_self)
  ultimately have "op_Index a = op_Index b" by (metis unsigned_word_eqI)
  with \<open>op_Hash a = op_Hash b\<close> show ?thesis by (simp add: OutPoint.equality)
qed

text \<open>What a bucket holds, read through the serialization.\<close>

definition bucket_coins :: "crypto \<Rightarrow> (bytes \<Rightarrow> bytes) \<Rightarrow> bucket \<Rightarrow> OutPoint \<rightharpoonup> SpentTxOut" where
  "bucket_coins c ser b op = (case dbFetchUtxoEntry c ser b op of Inr (Some e) \<Rightarrow> Some (stxo_of e) | _ \<Rightarrow> None)"

lemma bucket_coins_delete:
  assumes "length (op_Hash op) = 32" "length (op_Hash op') = 32"
  shows "bucket_coins c ser (dbDeleteUtxoEntry op b) op' = (if op' = op then None else bucket_coins c ser b op')"
  using assms outpointKey_inject [of op' op] by (auto simp: bucket_coins_def dbFetchUtxoEntry_def dbDeleteUtxoEntry_def)

lemma bucket_coins_put:
  assumes "length (op_Hash op) = 32" "length (op_Hash op') = 32" "\<not> IsSpent e" "storable (stxo_of e)" "key_laws c ser"
  shows "\<exists>b'. dbPutUtxoEntry c op (Some e) b = Inr b'
    \<and> bucket_coins c ser b' op' = (if op' = op then Some (stxo_of e) else bucket_coins c ser b op')"
proof -
  have "enc_entry c (stxo_of e) \<noteq> []" by (simp add: enc_entry_def enc_txout_not_Nil)
  then show ?thesis
    using assms outpointKey_inject [of op' op] serialize_entry [of e c] deserialize_entry [of "stxo_of e" c ser]
    by (auto simp: bucket_coins_def dbFetchUtxoEntry_def dbPutUtxoEntry_def corruption_def)
qed

section \<open>The abstract ledger\<close>

type_synonym coins = "OutPoint \<rightharpoonup> SpentTxOut"

definition inputs :: "MsgTx \<Rightarrow> OutPoint list" where
  "inputs tx = map PreviousOutPoint (MsgTxIn tx)"

definition coin :: "TxOut \<Rightarrow> bool \<Rightarrow> int \<Rightarrow> SpentTxOut" where
  "coin txo cb h = \<lparr>Amount = Value txo, stxo_PkScript = PkScript txo, stxo_Height = h, stxo_IsCoinBase = cb\<rparr>"

text \<open>The outputs a transaction creates at a height: those that are not provably unspendable.\<close>

definition tx_outs :: "crypto \<Rightarrow> int \<Rightarrow> MsgTx \<Rightarrow> coins" where
  "tx_outs c h tx op =
     (if op_Hash op = TxHash c tx \<and> unat (op_Index op) < length (MsgTxOut tx)
         \<and> \<not> IsUnspendable (PkScript (MsgTxOut tx ! unat (op_Index op)))
      then Some (coin (MsgTxOut tx ! unat (op_Index op)) (IsCoinBaseTx tx) h) else None)"

definition ledger_tx :: "crypto \<Rightarrow> int \<Rightarrow> MsgTx \<Rightarrow> coins \<Rightarrow> coins" where
  "ledger_tx c h tx L = (if IsCoinBaseTx tx then L else L |` (- set (inputs tx))) ++ tx_outs c h tx"

definition ledger_block :: "crypto \<Rightarrow> int \<Rightarrow> MsgTx list \<Rightarrow> coins \<Rightarrow> coins" where
  "ledger_block c h txs L = fold (ledger_tx c h) txs L"

text \<open>The transactions of a block in turn find the coins they spend.\<close>

fun can_connect :: "crypto \<Rightarrow> int \<Rightarrow> MsgTx list \<Rightarrow> coins \<Rightarrow> bool" where
  "can_connect c h [] L \<longleftrightarrow> True"
| "can_connect c h (tx # txs) L \<longleftrightarrow>
     (IsCoinBaseTx tx \<or> distinct (inputs tx) \<and> list_all (\<lambda>op. L op \<noteq> None) (inputs tx))
     \<and> length (MsgTxOut tx) \<le> 2 ^ 32 \<and> can_connect c h txs (ledger_tx c h tx L)"

definition tx_spends :: "MsgTx \<Rightarrow> coins \<Rightarrow> SpentTxOut list" where
  "tx_spends tx L = (if IsCoinBaseTx tx then [] else map (the \<circ> L) (inputs tx))"

fun block_spends :: "crypto \<Rightarrow> int \<Rightarrow> MsgTx list \<Rightarrow> coins \<Rightarrow> SpentTxOut list" where
  "block_spends c h [] L = []"
| "block_spends c h (tx # txs) L = tx_spends tx L @ block_spends c h txs (ledger_tx c h tx L)"

section \<open>Stores of unspent outputs\<close>

text \<open>A loop with early return, and the list of spent outputs that is kept when it is asked for.\<close>

fun fold_r :: "('a \<Rightarrow> 's \<Rightarrow> 'e + 's) \<Rightarrow> 'a list \<Rightarrow> 's \<Rightarrow> 'e + 's" where
  "fold_r f [] s = Inr s"
| "fold_r f (x # xs) s = rbind (f x s) (fold_r f xs)"

lemma fold_r_append: "fold_r f (xs @ ys) s = rbind (fold_r f xs s) (fold_r f ys)"
proof (induction xs arbitrary: s)
  case (Cons x xs)
  then have "fold_r f (xs @ ys) = (\<lambda>s. rbind (fold_r f xs s) (fold_r f ys))" by blast
  then show ?case by (simp add: rbind_assoc)
qed simp

definition append_stxo :: "SpentTxOut \<Rightarrow> SpentTxOut list option \<Rightarrow> SpentTxOut list option" where
  "append_stxo stxo stxos = map_option (\<lambda>l. l @ [stxo]) stxos"

text \<open>The loop over the outputs of a transaction that \<open>AddTxOuts\<close> and \<open>addTxOuts\<close> share.\<close>

definition add_outs :: "(OutPoint \<Rightarrow> TxOut \<Rightarrow> bool \<Rightarrow> int \<Rightarrow> 's \<Rightarrow> 's) \<Rightarrow> crypto \<Rightarrow> MsgTx \<Rightarrow> int \<Rightarrow> 's \<Rightarrow> 's" where
  "add_outs add c tx height s =
     fold (\<lambda>(txOutIdx, txOut). add \<lparr>op_Hash = TxHash c tx, op_Index = of_nat txOutIdx\<rparr> txOut (IsCoinBaseTx tx) height)
       (enumerate 0 (MsgTxOut tx)) s"

definition connect_tx :: "(TxIn \<Rightarrow> 's \<times> SpentTxOut list option \<Rightarrow> ('s \<times> SpentTxOut list option) rule)
    \<Rightarrow> (OutPoint \<Rightarrow> TxOut \<Rightarrow> bool \<Rightarrow> int \<Rightarrow> 's \<Rightarrow> 's) \<Rightarrow> crypto \<Rightarrow> int \<Rightarrow> MsgTx
    \<Rightarrow> 's \<times> SpentTxOut list option \<Rightarrow> ('s \<times> SpentTxOut list option) rule" where
  "connect_tx spend add c height tx st =
     rbind (if IsCoinBaseTx tx then Inr st else fold_r spend (MsgTxIn tx) st)
       (\<lambda>(s, stxos). Inr (add_outs add c tx height s, stxos))"

text \<open>
  What the view and the cache promise: spending a coin takes it out, adding an output that is not unspendable puts a
  coin in where the store may add one, and neither takes that permission away.
\<close>

locale utxo_store =
  fixes coins :: "'s \<Rightarrow> coins" and inv :: "'s \<Rightarrow> bool" and may_add :: "'s \<Rightarrow> OutPoint \<Rightarrow> bool"
    and spend :: "TxIn \<Rightarrow> 's \<times> SpentTxOut list option \<Rightarrow> ('s \<times> SpentTxOut list option) rule"
    and add :: "OutPoint \<Rightarrow> TxOut \<Rightarrow> bool \<Rightarrow> int \<Rightarrow> 's \<Rightarrow> 's"
  assumes spend: "inv s \<Longrightarrow> coins s (PreviousOutPoint ti) = Some x \<Longrightarrow>
      \<exists>s'. spend ti (s, st) = Inr (s', append_stxo x st) \<and> inv s' \<and> coins s' = (coins s)(PreviousOutPoint ti := None)
        \<and> (\<forall>op. may_add s op \<longrightarrow> may_add s' op)"
    and add_unspendable: "IsUnspendable (PkScript txo) \<Longrightarrow> add op txo cb h s = s"
    and add: "inv s \<Longrightarrow> may_add s op \<Longrightarrow> \<not> IsUnspendable (PkScript txo) \<Longrightarrow> inv (add op txo cb h s)
        \<and> coins (add op txo cb h s) = (coins s)(op \<mapsto> coin txo cb h)
        \<and> (\<forall>op'. may_add s op' \<longrightarrow> may_add (add op txo cb h s) op')"
begin

lemma spend_all:
  assumes "inv s" "distinct (map PreviousOutPoint ins)" "\<forall>ti\<in>set ins. coins s (PreviousOutPoint ti) \<noteq> None"
  shows "\<exists>s'. fold_r spend ins (s, st) = Inr (s', fold append_stxo (map (the \<circ> coins s \<circ> PreviousOutPoint) ins) st)
    \<and> inv s' \<and> coins s' = coins s |` (- PreviousOutPoint ` set ins) \<and> (\<forall>op. may_add s op \<longrightarrow> may_add s' op)"
  using assms
proof (induction ins arbitrary: s st)
  case (Cons ti ins)
  then obtain x where x: "coins s (PreviousOutPoint ti) = Some x" by auto
  from spend [OF Cons.prems(1) x, of st] obtain s1 where s1: "spend ti (s, st) = Inr (s1, append_stxo x st)" "inv s1"
      "coins s1 = (coins s)(PreviousOutPoint ti := None)" "\<forall>op. may_add s op \<longrightarrow> may_add s1 op" by auto
  have same: "map (the \<circ> coins s1 \<circ> PreviousOutPoint) ins = map (the \<circ> coins s \<circ> PreviousOutPoint) ins"
    using Cons.prems(2) s1(3) by (auto simp: image_iff)
  have "distinct (map PreviousOutPoint ins)" "\<forall>ti\<in>set ins. coins s1 (PreviousOutPoint ti) \<noteq> None"
    using Cons.prems s1(3) by (auto simp: image_iff)
  from Cons.IH [OF s1(2) this, of "append_stxo x st"] obtain s2 where
      s2: "fold_r spend ins (s1, append_stxo x st) = Inr (s2, fold append_stxo (map (the \<circ> coins s1 \<circ> PreviousOutPoint) ins) (append_stxo x st))"
      "inv s2" "coins s2 = coins s1 |` (- PreviousOutPoint ` set ins)" "\<forall>op. may_add s1 op \<longrightarrow> may_add s2 op"
    by blast
  have "coins s2 = coins s |` (- PreviousOutPoint ` set (ti # ins))"
    using s2(3) s1(3) by (auto simp: restrict_map_def fun_eq_iff)
  moreover have "fold_r spend (ti # ins) (s, st) = Inr (s2, fold append_stxo (map (the \<circ> coins s \<circ> PreviousOutPoint) (ti # ins)) st)"
    using s1(1) s2(1) x unfolding same by simp
  ultimately show ?case using s1(4) s2(2,4) by blast
qed (auto simp: restrict_map_def fun_eq_iff)

lemma add_all:
  assumes "inv s" "k + length outs \<le> 2 ^ 32"
    and "\<forall>i<length outs. \<not> IsUnspendable (PkScript (outs ! i)) \<longrightarrow> may_add s \<lparr>op_Hash = hsh, op_Index = of_nat (k + i)\<rparr>"
  shows "let s' = fold (\<lambda>(i, txo). add \<lparr>op_Hash = hsh, op_Index = of_nat i\<rparr> txo cb h) (enumerate k outs) s in
    inv s' \<and> (\<forall>op. may_add s op \<longrightarrow> may_add s' op)
    \<and> coins s' = (\<lambda>op. if op_Hash op = hsh \<and> k \<le> unat (op_Index op) \<and> unat (op_Index op) < k + length outs
          \<and> \<not> IsUnspendable (PkScript (outs ! (unat (op_Index op) - k)))
        then Some (coin (outs ! (unat (op_Index op) - k)) cb h) else coins s op)"
  using assms
proof (induction outs arbitrary: k s)
  case Nil
  then show ?case by (auto simp: fun_eq_iff)
next
  case (Cons txo outs)
  let ?op = "\<lparr>op_Hash = hsh, op_Index = of_nat k\<rparr>" and ?s = "add \<lparr>op_Hash = hsh, op_Index = of_nat k\<rparr> txo cb h s"
  have k: "unat (of_nat k :: u32) = k" using Cons.prems(2) by (simp add: unat_of_nat)
  have ma: "\<not> IsUnspendable (PkScript txo) \<Longrightarrow> may_add s ?op" using Cons.prems(3) by force
  have st: "inv ?s" "coins ?s = (if IsUnspendable (PkScript txo) then coins s else (coins s)(?op \<mapsto> coin txo cb h))"
      "\<forall>op'. may_add s op' \<longrightarrow> may_add ?s op'"
    using add [of s ?op txo cb h] add_unspendable [of txo ?op cb h s] ma Cons.prems(1)
    by (cases "IsUnspendable (PkScript txo)"; simp)+
  have "\<forall>i<length outs. \<not> IsUnspendable (PkScript (outs ! i)) \<longrightarrow> may_add ?s \<lparr>op_Hash = hsh, op_Index = of_nat (Suc k + i)\<rparr>"
    using Cons.prems(3) st(3) by (metis Suc_less_eq add_Suc add_Suc_right length_Cons nth_Cons_Suc)
  note IH = Cons.IH [OF st(1) _ this]
  have eq: "op = ?op \<longleftrightarrow> op_Hash op = hsh \<and> unat (op_Index op) = k" for op :: OutPoint
    using k by (cases op) (auto simp: unat_of_nat intro: unsigned_word_eqI)
  have "coins (fold (\<lambda>(i, txo). add \<lparr>op_Hash = hsh, op_Index = of_nat i\<rparr> txo cb h) (enumerate (Suc k) outs) ?s) op
      = (if op_Hash op = hsh \<and> k \<le> unat (op_Index op) \<and> unat (op_Index op) < k + length (txo # outs)
          \<and> \<not> IsUnspendable (PkScript ((txo # outs) ! (unat (op_Index op) - k)))
        then Some (coin ((txo # outs) ! (unat (op_Index op) - k)) cb h) else coins s op)" for op
    using IH Cons.prems(2) st(2) eq [of op]
    by (cases "unat (op_Index op) = k") (auto simp: Let_def nth_Cons' Suc_diff_le)
  then show ?case using IH Cons.prems(2) st(3) by (simp add: Let_def fun_eq_iff)
qed

text \<open>What connecting a transaction, and all transactions of a block, does to the coins.\<close>

lemma connect_one:
  assumes "inv s" "can_connect c h [tx] (coins s)" "\<forall>op. tx_outs c h tx op \<noteq> None \<longrightarrow> may_add s op"
  shows "\<exists>s'. connect_tx spend add c h tx (s, st) = Inr (s', fold append_stxo (tx_spends tx (coins s)) st)
    \<and> inv s' \<and> coins s' = ledger_tx c h tx (coins s) \<and> (\<forall>op. may_add s op \<longrightarrow> may_add s' op)"
proof -
  obtain s1 where s1: "(if IsCoinBaseTx tx then Inr (s, st) else fold_r spend (MsgTxIn tx) (s, st))
        = Inr (s1, fold append_stxo (tx_spends tx (coins s)) st)" "inv s1"
      "coins s1 = (if IsCoinBaseTx tx then coins s else coins s |` (- set (inputs tx)))" "\<forall>op. may_add s op \<longrightarrow> may_add s1 op"
  proof (cases "IsCoinBaseTx tx")
    case True
    then show thesis using that [of s] assms(1) by (simp add: tx_spends_def)
  next
    case False
    have "\<forall>ti\<in>set (MsgTxIn tx). coins s (PreviousOutPoint ti) \<noteq> None" "distinct (map PreviousOutPoint (MsgTxIn tx))"
      using assms(2) False by (auto simp: inputs_def list_all_iff)
    from spend_all [OF assms(1) this(2,1), of st] show thesis
      using that False by (auto simp: tx_spends_def inputs_def comp_assoc)
  qed
  have idx: "unat (of_nat i :: u32) = i" if "i < length (MsgTxOut tx)" for i
    using assms(2) that by (simp add: unat_of_nat)
  have "\<forall>i<length (MsgTxOut tx). \<not> IsUnspendable (PkScript (MsgTxOut tx ! i)) \<longrightarrow> may_add s1 \<lparr>op_Hash = TxHash c tx, op_Index = of_nat (0 + i)\<rparr>"
    using assms(3) s1(4) by (auto simp: tx_outs_def idx)
  from add_all [OF s1(2) _ this, of "IsCoinBaseTx tx" h] assms(2)
  have "inv (add_outs add c tx h s1)" "\<forall>op. may_add s1 op \<longrightarrow> may_add (add_outs add c tx h s1) op"
      "coins (add_outs add c tx h s1) = coins s1 ++ tx_outs c h tx"
    by (auto simp: add_outs_def Let_def tx_outs_def map_add_def fun_eq_iff)
  then show ?thesis using s1 by (simp add: connect_tx_def ledger_tx_def)
qed

lemma connect_block:
  assumes "inv s" "can_connect c h txs (coins s)" "\<forall>tx\<in>set txs. \<forall>op. tx_outs c h tx op \<noteq> None \<longrightarrow> may_add s op"
  shows "\<exists>s'. fold_r (connect_tx spend add c h) txs (s, st) = Inr (s', fold append_stxo (block_spends c h txs (coins s)) st)
    \<and> inv s' \<and> coins s' = ledger_block c h txs (coins s) \<and> (\<forall>op. may_add s op \<longrightarrow> may_add s' op)"
  using assms
proof (induction txs arbitrary: s st)
  case (Cons tx txs)
  from connect_one [of s c h tx st] Cons.prems obtain s1 where
    s1: "connect_tx spend add c h tx (s, st) = Inr (s1, fold append_stxo (tx_spends tx (coins s)) st)" "inv s1"
      "coins s1 = ledger_tx c h tx (coins s)" "\<forall>op. may_add s op \<longrightarrow> may_add s1 op" by auto
  then show ?case using Cons.IH [of s1 "fold append_stxo (tx_spends tx (coins s)) st"] Cons.prems
    by (auto simp: ledger_block_def)
qed (simp add: ledger_block_def)

end

lemma fold_append_stxo: "fold append_stxo xs (Some l) = Some (l @ xs)" "fold append_stxo xs None = None"
  by (induction xs arbitrary: l) (simp_all add: append_stxo_def)

end
