(* ===== verification/Chain_Cache.thy ===== *)
theory Chain_Cache
  imports Chain_Entry "HOL-Library.AList" "HOL-Library.Multiset"
begin

unbundle bit_operations_syntax

text \<open>
  The cache of unspent outputs in front of the database (\<open>utxocache.go\<close>) with the estimate of the memory its maps take
  (\<open>sizehelper.go\<close>). A Go map is an association list with distinct keys, the two slices of a \<open>mapSlice\<close> that grow and
  shrink together are a list of pairs, and what the cache needs of the database is a record of its buckets. The cache
  implements the abstract ledger whatever is in memory and whatever has been written, as long as no output is created
  again while the database still holds an earlier one: a theorem at the end shows what happens then.
\<close>

section \<open>Estimates of memory\<close>

definition outpointSize :: u64 where "outpointSize = 36"
definition uint64Size :: u64 where "uint64Size = 8"
definition bucketSize :: u64 where "bucketSize = 16 + uint64Size * outpointSize + uint64Size * uint64Size"
definition baseEntrySize :: u64 where "baseEntrySize = 40"
definition pubKeyHashLen :: u64 where "pubKeyHashLen = 25"
definition avgEntrySize :: u64 where "avgEntrySize = baseEntrySize + (pubKeyHashLen + 7)"

text \<open>The constants of the Go runtime, on a 64 bit system.\<close>

definition MaxSmallSize :: u64 where "MaxSmallSize = 32768"
definition smallSizeDiv :: u64 where "smallSizeDiv = 8"
definition smallSizeMax :: u64 where "smallSizeMax = 1024"
definition largeSizeDiv :: u64 where "largeSizeDiv = 128"
definition PageSize :: u64 where "PageSize = push_bit 13 1"
definition MaxUintptr :: u64 where "MaxUintptr = NOT 0"
definition PtrSize :: nat where "PtrSize = 8"
definition bucketCnt :: int where "bucketCnt = 8"
definition loadFactorNum :: u64 where "loadFactorNum = 13"
definition loadFactorDen :: u64 where "loadFactorDen = 2"
definition maxAlloc :: u64 where "maxAlloc = push_bit 40 1"

definition the_default :: "'a \<Rightarrow> 'a option \<Rightarrow> 'a" where
  "the_default d x = (case x of None \<Rightarrow> d | Some y \<Rightarrow> y)"

definition class_to_size :: "u64 list" where
  "class_to_size =
     [0, 8, 16, 24, 32, 48, 64, 80, 96, 112, 128, 144, 160, 176, 192, 208, 224, 240, 256, 288, 320, 352, 384, 416,
     448, 480, 512, 576, 640, 704, 768, 896, 1024, 1152, 1280, 1408, 1536, 1792, 2048, 2304, 2688, 3072, 3200,
     3456, 4096, 4864, 5376, 6144, 6528, 6784, 6912, 8192, 9472, 9728, 10240, 10880, 12288, 13568, 14336, 16384,
     18432, 19072, 20480, 21760, 24576, 27264, 28672, 32768]"

definition size_to_class8 :: "nat list" where
  "size_to_class8 =
     [0, 1, 2, 3, 4, 5, 5, 6, 6, 7, 7, 8, 8, 9, 9, 10, 10, 11, 11, 12, 12, 13, 13, 14, 14, 15, 15, 16, 16, 17, 17,
     18, 18, 19, 19, 19, 19, 20, 20, 20, 20, 21, 21, 21, 21, 22, 22, 22, 22, 23, 23, 23, 23, 24, 24, 24, 24, 25,
     25, 25, 25, 26, 26, 26, 26, 27, 27, 27, 27, 27, 27, 27, 27, 28, 28, 28, 28, 28, 28, 28, 28, 29, 29, 29, 29,
     29, 29, 29, 29, 30, 30, 30, 30, 30, 30, 30, 30, 31, 31, 31, 31, 31, 31, 31, 31, 31, 31, 31, 31, 31, 31, 31,
     31, 32, 32, 32, 32, 32, 32, 32, 32, 32, 32, 32, 32, 32, 32, 32, 32]"

definition size_to_class128 :: "nat list" where
  "size_to_class128 =
     [32, 33, 34, 35, 36, 37, 37, 38, 38, 39, 39, 40, 40, 40, 41, 41, 41, 42, 43, 43, 44, 44, 44, 44, 44, 45, 45,
     45, 45, 45, 45, 46, 46, 46, 46, 47, 47, 47, 47, 47, 47, 48, 48, 48, 49, 49, 50, 51, 51, 51, 51, 51, 51, 51,
     51, 51, 51, 52, 52, 52, 52, 52, 52, 52, 52, 52, 52, 53, 53, 54, 54, 54, 54, 55, 55, 55, 55, 55, 56, 56, 56,
     56, 56, 56, 56, 56, 56, 56, 56, 57, 57, 57, 57, 57, 57, 57, 57, 57, 57, 58, 58, 58, 58, 58, 58, 59, 59, 59,
     59, 59, 59, 59, 59, 59, 59, 59, 59, 59, 59, 59, 59, 60, 60, 60, 60, 60, 60, 60, 60, 60, 60, 60, 60, 60, 60,
     60, 60, 61, 61, 61, 61, 61, 62, 62, 62, 62, 62, 62, 62, 62, 62, 62, 62, 63, 63, 63, 63, 63, 63, 63, 63, 63,
     63, 64, 64, 64, 64, 64, 64, 64, 64, 64, 64, 64, 64, 64, 64, 64, 64, 64, 64, 64, 64, 64, 64, 65, 65, 65, 65,
     65, 65, 65, 65, 65, 65, 65, 65, 65, 65, 65, 65, 65, 65, 65, 65, 65, 66, 66, 66, 66, 66, 66, 66, 66, 66, 66,
     66, 67, 67, 67, 67, 67, 67, 67, 67, 67, 67, 67, 67, 67, 67, 67, 67, 67, 67, 67, 67, 67, 67, 67, 67, 67, 67,
     67, 67, 67, 67, 67, 67]"

definition mulUintptr :: "u64 \<Rightarrow> u64 \<Rightarrow> u64 \<times> bool" where
  "mulUintptr a b =
     (if (a OR b) < push_bit (4 * PtrSize) 1 \<or> a = 0 then (a * b, False) else (a * b, b > MaxUintptr div a))"

definition divRoundUp :: "u64 \<Rightarrow> u64 \<Rightarrow> u64" where
  "divRoundUp n a = (n + a - 1) div a"

definition alignUp :: "u64 \<Rightarrow> u64 \<Rightarrow> u64" where
  "alignUp n a = (n + a - 1) AND NOT (a - 1)"

definition roundupsize :: "u64 \<Rightarrow> u64" where
  "roundupsize s =
     (if s < MaxSmallSize then
        (if s \<le> smallSizeMax - 8 then class_to_size ! (size_to_class8 ! unat (divRoundUp s smallSizeDiv))
         else class_to_size ! (size_to_class128 ! unat (divRoundUp (s - smallSizeMax) largeSizeDiv)))
      else if s + PageSize < s then s
      else alignUp s PageSize)"

definition bucketShift :: "nat \<Rightarrow> u64" where
  "bucketShift b = push_bit (b mod 64) 1"

definition overLoadFactor :: "int \<Rightarrow> nat \<Rightarrow> bool" where
  "overLoadFactor n B \<longleftrightarrow> n > bucketCnt \<and> of_int n > loadFactorNum * (bucketShift B div loadFactorDen)"

text \<open>The loop that increments \<open>B\<close> while the load factor is exceeded ends at the latest at 62 for a Go \<open>int\<close>.\<close>

definition find_B :: "int \<Rightarrow> nat" where
  "find_B hint = the_default 63 (find (\<lambda>B. \<not> overLoadFactor hint B) [0..<63])"

lemma find_B_ends:
  assumes "is_i64 hint"
  shows "\<not> overLoadFactor hint (find_B hint) \<and> (\<forall>B<find_B hint. overLoadFactor hint B)"
proof -
  have "loadFactorNum * (bucketShift 62 div loadFactorDen) = 11529215046068469760"
    by (simp add: loadFactorNum_def bucketShift_def loadFactorDen_def push_bit_eq_mult)
  moreover have "(of_int hint :: u64) \<le> 11529215046068469760" if "hint > 0"
    using assms that by (simp add: is_i64_def word_le_def uint_word_of_int)
  ultimately have "\<not> overLoadFactor hint 62"
    by (cases "hint > 0") (auto simp: overLoadFactor_def bucketCnt_def)
  then have "find (\<lambda>B. \<not> overLoadFactor hint B) [0..<63] \<noteq> None"
    unfolding find_None_iff by (auto intro!: exI [of _ 62])
  then obtain B where "find (\<lambda>B. \<not> overLoadFactor hint B) [0..<63] = Some B" by blast
  moreover from this have "find_B hint = B" by (simp add: find_B_def the_default_def)
  ultimately show ?thesis by (auto simp: find_Some_iff)
qed

definition calculateRoughMapSize :: "int \<Rightarrow> u64 \<Rightarrow> int" where
  "calculateRoughMapSize hint bktSize =
     (let (mem, overflow) = mulUintptr (of_int hint) bktSize;
          hint = (if overflow \<or> mem > maxAlloc then 0 else hint);
          B = find_B hint;
          base = bucketShift B;
          numBuckets = (if B \<ge> 4 then
              let numBuckets = base + bucketShift (B - 4); sz = bktSize * numBuckets; up = roundupsize sz in
              if up \<noteq> sz then up div bktSize else numBuckets
            else base);
          total = fst (mulUintptr bktSize numBuckets);
          total = (if base \<noteq> numBuckets then total + 24 else total) in
      sint (total + 48))"

text \<open>
  \<open>uint8(math.Log2(x))\<close> for an integer \<open>x\<close>. For a number that is not positive the logarithm is not a number and the
  language does not define the conversion: \<open>bad\<close> is what the platform gives.
\<close>

definition uint8_log2 :: "nat \<Rightarrow> int \<Rightarrow> nat" where
  "uint8_log2 bad x = (if x \<le> 0 then bad else log2 (nat x) mod 256)"

text \<open>Integer division of Go, which truncates towards zero.\<close>

definition go_div :: "int \<Rightarrow> int \<Rightarrow> int" where
  "go_div a b = sgn a * sgn b * (\<bar>a\<bar> div \<bar>b\<bar>)"

definition calculateMinEntries :: "nat \<Rightarrow> int \<Rightarrow> int \<Rightarrow> int" where
  "calculateMinEntries bad totalBytes bktSize =
     (let totalBytes = i64 (totalBytes - 48);
          numBuckets = go_div totalBytes bktSize;
          B = uint8_log2 bad numBuckets in
      if B < 4 then (if B = 0 then 0 else if B = 1 then 9 else if B = 2 then 14 else 27)
      else sint (loadFactorNum * (bucketShift (B - 1) div loadFactorDen)) + 1)"

section \<open>Slices of maps\<close>

type_synonym emap = "(OutPoint \<times> UtxoEntry option) list"

text \<open>Each pair is an entry of \<open>maxEntries\<close> with the map of the same index.\<close>

record mapSlice =
  maps :: "(int \<times> emap) list"
  ms_maxTotalMemoryUsage :: u64

definition ms_length :: "mapSlice \<Rightarrow> nat" where
  "ms_length ms = sum_list (map (length \<circ> snd) (maps ms))"

definition ms_size :: "mapSlice \<Rightarrow> int" where
  "ms_size ms = sum_list (map (\<lambda>(num, _). calculateRoughMapSize num bucketSize) (maps ms))"

fun get_maps :: "(int \<times> emap) list \<Rightarrow> OutPoint \<Rightarrow> UtxoEntry option option" where
  "get_maps [] op = None"
| "get_maps ((_, m) # ms) op = (case map_of m op of Some entry \<Rightarrow> Some entry | None \<Rightarrow> get_maps ms op)"

text \<open>\<open>None\<close> is not found; \<open>Some None\<close> is a nil entry.\<close>

definition ms_get :: "mapSlice \<Rightarrow> OutPoint \<Rightarrow> UtxoEntry option option" where
  "ms_get ms op = get_maps (maps ms) op"

text \<open>The two loops of \<open>put\<close>: overwrite the key where it is found, else insert it into the first map with room.\<close>

fun overwrite :: "OutPoint \<Rightarrow> UtxoEntry option \<Rightarrow> (int \<times> emap) list \<Rightarrow> (int \<times> emap) list option" where
  "overwrite op entry [] = None"
| "overwrite op entry ((n, m) # ms) =
     (if map_of m op \<noteq> None then Some ((n, AList.update op entry m) # ms)
      else map_option ((#) (n, m)) (overwrite op entry ms))"

fun insert_room :: "OutPoint \<Rightarrow> UtxoEntry option \<Rightarrow> (int \<times> emap) list \<Rightarrow> (int \<times> emap) list option" where
  "insert_room op entry [] = None"
| "insert_room op entry ((maxNum, m) # ms) =
     (if int (length m) \<ge> maxNum then map_option ((#) (maxNum, m)) (insert_room op entry ms)
      else Some ((maxNum, AList.update op entry m) # ms))"

text \<open>The capacity of the map that \<open>makeNewMap\<close> appends.\<close>

definition makeNewMap :: "nat \<Rightarrow> u64 \<Rightarrow> mapSlice \<Rightarrow> mapSlice" where
  "makeNewMap bad totalEntryMemory ms =
     (let memSize = fold (\<lambda>(maxNum, _) memSize. memSize - of_int (calculateRoughMapSize maxNum bucketSize)) (maps ms)
            (ms_maxTotalMemoryUsage ms - totalEntryMemory);
          numMaxElements = calculateMinEntries bad (sint memSize) (sint (bucketSize + avgEntrySize)) - 1 in
      ms\<lparr>maps := maps ms @ [(numMaxElements, [])]\<rparr>)"

definition ms_put :: "nat \<Rightarrow> OutPoint \<Rightarrow> UtxoEntry option \<Rightarrow> u64 \<Rightarrow> mapSlice \<Rightarrow> mapSlice" where
  "ms_put bad op entry totalEntryMemory ms =
     (case overwrite op entry (maps ms) of
        Some l \<Rightarrow> ms\<lparr>maps := l\<rparr>
      | None \<Rightarrow> (case insert_room op entry (maps ms) of
          Some l \<Rightarrow> ms\<lparr>maps := l\<rparr>
        | None \<Rightarrow>
            let ms = makeNewMap bad totalEntryMemory ms; (n, m) = last (maps ms) in
            ms\<lparr>maps := butlast (maps ms) @ [(n, AList.update op entry m)]\<rparr>))"

definition ms_delete :: "OutPoint \<Rightarrow> mapSlice \<Rightarrow> mapSlice" where
  "ms_delete op ms = ms\<lparr>maps := map (\<lambda>(n, m). (n, AList.delete op m)) (maps ms)\<rparr>"

definition deleteMaps :: "mapSlice \<Rightarrow> mapSlice rule" where
  "deleteMaps ms = (if maps ms = [] then Inl Panic else Inr (ms\<lparr>maps := take 1 (maps ms)\<rparr>))"


section \<open>The cache\<close>

text \<open>What the cache uses of the database: the bucket of unspent outputs and the hash up to which it is consistent.\<close>

record chainDb =
  utxoSet :: bucket
  utxoState :: "bytes option"

record utxoCache =
  cache_db :: chainDb
  maxTotalMemoryUsage :: u64
  cachedEntries :: mapSlice
  totalEntryMemory :: u64
  lastFlushHash :: bytes
  lastFlushTime :: int

definition newUtxoCache :: "nat \<Rightarrow> chainDb \<Rightarrow> u64 \<Rightarrow> utxoCache" where
  "newUtxoCache bad db maxMem =
     (let numMaxElements = calculateMinEntries bad (sint maxMem) (sint (bucketSize + avgEntrySize)) - 1 in
      \<lparr>cache_db = db, maxTotalMemoryUsage = maxMem,
       cachedEntries = \<lparr>maps = [(numMaxElements, [])], ms_maxTotalMemoryUsage = maxMem\<rparr>,
       totalEntryMemory = 0, lastFlushHash = zeroHash, lastFlushTime = 0\<rparr>)"

definition totalMemoryUsage :: "utxoCache \<Rightarrow> u64" where
  "totalMemoryUsage s = of_int (ms_size (cachedEntries s)) + totalEntryMemory s"

definition memoryUsage :: "UtxoEntry option \<Rightarrow> u64" where
  "memoryUsage entry = (case entry of None \<Rightarrow> 0 | Some e \<Rightarrow> baseEntrySize + of_nat (length (pkScript e)))"

text \<open>\<open>s.cachedEntries.put\<close> followed by the update of the memory total.\<close>

definition cache_put :: "nat \<Rightarrow> OutPoint \<Rightarrow> UtxoEntry option \<Rightarrow> utxoCache \<Rightarrow> utxoCache" where
  "cache_put bad op entry s =
     s\<lparr>cachedEntries := ms_put bad op entry (totalEntryMemory s) (cachedEntries s),
       totalEntryMemory := totalEntryMemory s + memoryUsage entry\<rparr>"

text \<open>The entries that were found in the cache, with the fetched ones in the places of the others.\<close>

fun fill_entries :: "mapSlice \<Rightarrow> OutPoint list \<Rightarrow> UtxoEntry option list \<Rightarrow> UtxoEntry option list" where
  "fill_entries ms [] dbEntries = []"
| "fill_entries ms (op # ops) dbEntries =
     (case ms_get ms op of
        Some entry \<Rightarrow> entry # fill_entries ms ops dbEntries
      | None \<Rightarrow> hd dbEntries # fill_entries ms ops (tl dbEntries))"

fun map_r :: "('a \<Rightarrow> 'e + 'b) \<Rightarrow> 'a list \<Rightarrow> 'e + 'b list" where
  "map_r f [] = Inr []"
| "map_r f (x # xs) = rbind (f x) (\<lambda>y. rbind (map_r f xs) (\<lambda>ys. Inr (y # ys)))"

definition fetchEntries :: "crypto \<Rightarrow> (bytes \<Rightarrow> bytes) \<Rightarrow> nat \<Rightarrow> OutPoint list \<Rightarrow> utxoCache
    \<Rightarrow> (UtxoEntry option list \<times> utxoCache) rule" where
  "fetchEntries c ser bad outpoints s =
     (let missingOps = filter (\<lambda>op. ms_get (cachedEntries s) op = None) outpoints in
      rbind (map_r (dbFetchUtxoEntry c ser (utxoSet (cache_db s))) missingOps) (\<lambda>dbEntries.
        Inr (fill_entries (cachedEntries s) outpoints dbEntries,
             fold (\<lambda>(op, entry). cache_put bad op entry) (zip missingOps dbEntries) s)))"

definition cache_addTxOut :: "nat \<Rightarrow> OutPoint \<Rightarrow> TxOut \<Rightarrow> bool \<Rightarrow> int \<Rightarrow> utxoCache \<Rightarrow> utxoCache" where
  "cache_addTxOut bad outpoint txOut isCoinBase height s =
     (if IsUnspendable (PkScript txOut) then s
      else cache_put bad outpoint (Some (fresh_entry txOut isCoinBase height)) s)"

definition cache_addTxOuts :: "nat \<Rightarrow> crypto \<Rightarrow> MsgTx \<Rightarrow> int \<Rightarrow> utxoCache \<Rightarrow> utxoCache" where
  "cache_addTxOuts bad c tx height s = add_outs (cache_addTxOut bad) c tx height s"

text \<open>
  The entry that is fetched is the one in the map, so marking it as spent changes the map. The memory of an entry that
  is not fresh is taken from a nil pointer, for which it is 0.
\<close>

definition addTxIn :: "crypto \<Rightarrow> (bytes \<Rightarrow> bytes) \<Rightarrow> nat \<Rightarrow> TxIn \<Rightarrow> utxoCache \<times> SpentTxOut list option
    \<Rightarrow> (utxoCache \<times> SpentTxOut list option) rule" where
  "addTxIn c ser bad txIn st =
     (let (s, stxos) = st; op = PreviousOutPoint txIn in
      rbind (fetchEntries c ser bad [op] s) (\<lambda>(entries, s).
        if length entries \<noteq> 1 \<or> entries ! 0 = None then Inl AssertError
        else let entry = the (entries ! 0);
                 stxos = append_stxo (stxo_of entry) stxos;
                 entry = Spend entry in
          if isFresh entry then
            Inr (s\<lparr>cachedEntries := ms_delete op (cachedEntries s),
                   totalEntryMemory := totalEntryMemory s - memoryUsage (Some entry)\<rparr>, stxos)
          else
            Inr (s\<lparr>cachedEntries := ms_put bad op (Some entry) (totalEntryMemory s) (cachedEntries s),
                   totalEntryMemory := totalEntryMemory s - memoryUsage None\<rparr>, stxos)))"

definition addTxIns :: "crypto \<Rightarrow> (bytes \<Rightarrow> bytes) \<Rightarrow> nat \<Rightarrow> MsgTx \<Rightarrow> utxoCache \<times> SpentTxOut list option
    \<Rightarrow> (utxoCache \<times> SpentTxOut list option) rule" where
  "addTxIns c ser bad tx st =
     (if IsCoinBaseTx tx then Inr st else fold_r (addTxIn c ser bad) (MsgTxIn tx) st)"

definition cache_connectTransaction :: "crypto \<Rightarrow> (bytes \<Rightarrow> bytes) \<Rightarrow> nat \<Rightarrow> int \<Rightarrow> MsgTx \<Rightarrow> utxoCache \<times> SpentTxOut list option
    \<Rightarrow> (utxoCache \<times> SpentTxOut list option) rule" where
  "cache_connectTransaction c ser bad height tx st =
     rbind (addTxIns c ser bad tx st) (\<lambda>(s, stxos). Inr (cache_addTxOuts bad c tx height s, stxos))"

definition cache_connectTransactions :: "crypto \<Rightarrow> (bytes \<Rightarrow> bytes) \<Rightarrow> nat \<Rightarrow> Block \<Rightarrow> utxoCache \<times> SpentTxOut list option
    \<Rightarrow> (utxoCache \<times> SpentTxOut list option) rule" where
  "cache_connectTransactions c ser bad block st =
     fold_r (cache_connectTransaction c ser bad (block_Height block)) (block_txs block) st"

text \<open>One iteration of the loop over the cached entries that are written to the bucket.\<close>

definition write_entry :: "crypto \<Rightarrow> OutPoint \<times> UtxoEntry option \<Rightarrow> bucket \<Rightarrow> bucket rule" where
  "write_entry c oe b =
     (case oe of (outpoint, None) \<Rightarrow> Inr (dbDeleteUtxoEntry outpoint b)
      | (outpoint, Some entry) \<Rightarrow>
          if IsSpent entry then Inr (dbDeleteUtxoEntry outpoint b)
          else if \<not> isModified entry then Inr b
          else dbPutUtxoEntry c outpoint (Some entry) b)"

text \<open>The entries are deleted from their maps one by one as they are written. \<open>now\<close> is the time of the flush.\<close>

definition writeCache :: "crypto \<Rightarrow> bytes \<Rightarrow> int \<Rightarrow> utxoCache \<Rightarrow> utxoCache rule" where
  "writeCache c bestHash now s =
     rbind (fold_r (write_entry c) (concat (map snd (maps (cachedEntries s)))) (utxoSet (cache_db s))) (\<lambda>b.
     rbind (deleteMaps ((cachedEntries s)\<lparr>maps := map (\<lambda>(n, m). (n, [])) (maps (cachedEntries s))\<rparr>)) (\<lambda>ms.
       Inr (s\<lparr>cache_db := (cache_db s)\<lparr>utxoSet := b, utxoState := Some bestHash\<rparr>, cachedEntries := ms,
              totalEntryMemory := 0, lastFlushHash := bestHash, lastFlushTime := now\<rparr>)))"

datatype FlushMode = FlushRequired | FlushPeriodic | FlushIfNeeded

definition utxoFlushPeriodicInterval :: int where "utxoFlushPeriodicInterval = 5 * 60 * 1000000000"

definition flush :: "crypto \<Rightarrow> FlushMode \<Rightarrow> bytes \<Rightarrow> int \<Rightarrow> utxoCache \<Rightarrow> utxoCache rule" where
  "flush c mode bestHash now s =
     (if mode = FlushIfNeeded \<and> bestHash = lastFlushHash s then Inr s
      else let threshold = (case mode of FlushRequired \<Rightarrow> 0 | FlushIfNeeded \<Rightarrow> maxTotalMemoryUsage s
               | FlushPeriodic \<Rightarrow> if now - lastFlushTime s > utxoFlushPeriodicInterval then 0 else maxTotalMemoryUsage s) in
        if totalMemoryUsage s \<ge> threshold then writeCache c bestHash now s else Inr s)"

text \<open>The replay loop of \<open>InitConsistentState\<close> over the blocks after the last flush, at the times \<open>now\<close>.\<close>

fun replay :: "crypto \<Rightarrow> (bytes \<Rightarrow> bytes) \<Rightarrow> nat \<Rightarrow> (Block \<times> int) list \<Rightarrow> utxoCache \<Rightarrow> utxoCache rule" where
  "replay c ser bad [] s = Inr s"
| "replay c ser bad ((block, now) # bs) s =
     rbind (cache_connectTransactions c ser bad block (s, None)) (\<lambda>(s, _).
     rbind (flush c FlushIfNeeded (block_Hash c block) now s) (replay c ser bad bs))"

section \<open>The laws of a slice of maps\<close>

definition ms_keys :: "mapSlice \<Rightarrow> OutPoint list" where
  "ms_keys ms = concat (map (map fst \<circ> snd) (maps ms))"

abbreviation keys_of :: "(int \<times> emap) list \<Rightarrow> OutPoint list" where
  "keys_of l \<equiv> concat (map (map fst \<circ> snd) l)"

lemma map_of_Some_iff_key: "map_of m op \<noteq> None \<longleftrightarrow> op \<in> fst ` set m"
  by (metis map_of_eq_None_iff)

lemma get_maps_None: "get_maps l op = None \<longleftrightarrow> op \<notin> set (keys_of l)"
  by (induction l op rule: get_maps.induct)
    (auto split: option.split simp: map_of_eq_None_iff dest!: map_of_SomeD intro: rev_image_eqI)

lemma get_maps_append: "get_maps (l @ l') op = (case get_maps l op of Some e \<Rightarrow> Some e | None \<Rightarrow> get_maps l' op)"
  by (induction l op rule: get_maps.induct) (auto split: option.split)

lemma overwrite_get:
  "overwrite op e l = Some l' \<Longrightarrow> get_maps l' = (get_maps l)(op \<mapsto> e) \<and> keys_of l' = keys_of l"
proof (induction op e l arbitrary: l' rule: overwrite.induct)
  case (2 op e n m ms)
  show ?case
  proof (cases "map_of m op = None")
    case True
    with 2 show ?thesis by (auto simp: fun_eq_iff split: option.split)
  next
    case False
    then have "map fst (AList.update op e m) = map fst m" using map_of_Some_iff_key [of m op] by (simp add: update_keys)
    with False "2.prems" show ?thesis by (auto simp: fun_eq_iff update_conv' split: option.split)
  qed
qed simp

lemma overwrite_None: "overwrite op e l = None \<longleftrightarrow> op \<notin> set (keys_of l)"
  by (induction op e l rule: overwrite.induct) (auto simp: map_of_eq_None_iff)

lemma insert_room_get:
  assumes "insert_room op e l = Some l'" "op \<notin> set (keys_of l)"
  shows "get_maps l' = (get_maps l)(op \<mapsto> e)" "mset (keys_of l') = add_mset op (mset (keys_of l))"
proof -
  have "get_maps l' = (get_maps l)(op \<mapsto> e) \<and> mset (keys_of l') = add_mset op (mset (keys_of l))"
    using assms
  proof (induction op e l arbitrary: l' rule: insert_room.induct)
    case (2 op e n m ms)
    then have m: "map_of m op = None" "op \<notin> fst ` set m" by (auto simp: map_of_eq_None_iff)
    then have k: "map fst (AList.update op e m) = map fst m @ [op]" by (simp add: update_keys)
    show ?case
    proof (cases "int (length m) \<ge> n")
      case True
      with 2 m show ?thesis by (auto simp: fun_eq_iff split: option.split)
    next
      case False
      with "2.prems" m k show ?thesis by (auto simp: fun_eq_iff update_conv' split: option.split)
    qed
  qed simp
  then show "get_maps l' = (get_maps l)(op \<mapsto> e)" "mset (keys_of l') = add_mset op (mset (keys_of l))" by auto
qed

lemma ms_get_put [simp]: "ms_get (ms_put bad op e mem ms) = (ms_get ms)(op \<mapsto> e)"
proof (cases "overwrite op e (maps ms)")
  case None
  then have new: "op \<notin> set (keys_of (maps ms))" by (simp add: overwrite_None)
  then have "get_maps (maps ms) op = None" by (simp add: get_maps_None)
  then have "get_maps (maps ms @ [(k, [(op, e)])]) = (get_maps (maps ms))(op \<mapsto> e)" for k
    by (auto simp: fun_eq_iff get_maps_append split: option.split)
  then show ?thesis using None insert_room_get(1) [OF _ new]
    by (auto simp: ms_put_def ms_get_def [abs_def] makeNewMap_def Let_def split: option.split)
qed (auto simp: ms_put_def ms_get_def [abs_def] dest: overwrite_get)

lemma ms_put_keys:
  "set (ms_keys (ms_put bad op e mem ms)) = insert op (set (ms_keys ms))"
  "distinct (ms_keys ms) \<Longrightarrow> distinct (ms_keys (ms_put bad op e mem ms))"
  "maps (ms_put bad op e mem ms) \<noteq> []"
proof -
  have "set (ms_keys (ms_put bad op e mem ms)) = insert op (set (ms_keys ms))
      \<and> (distinct (ms_keys ms) \<longrightarrow> distinct (ms_keys (ms_put bad op e mem ms))) \<and> maps (ms_put bad op e mem ms) \<noteq> []"
  proof (cases "overwrite op e (maps ms)")
    case None
    then have new: "op \<notin> set (keys_of (maps ms))" by (simp add: overwrite_None)
    show ?thesis
    proof (cases "insert_room op e (maps ms)")
      case None
      with \<open>overwrite op e (maps ms) = None\<close> new show ?thesis
        by (auto simp: ms_put_def ms_keys_def makeNewMap_def Let_def)
    next
      case (Some l)
      from insert_room_get(2) [OF Some new] have "mset (keys_of l) = mset (op # keys_of (maps ms))" by simp
      then have "set (keys_of l) = insert op (set (keys_of (maps ms)))" "distinct (keys_of l) = distinct (op # keys_of (maps ms))"
        by (metis list.simps(15) mset_eq_setD, metis mset_eq_imp_distinct_iff)
      moreover have "l \<noteq> []" using Some by (cases "maps ms") (auto split: if_split_asm)
      ultimately show ?thesis using None Some new by (simp add: ms_put_def ms_keys_def)
    qed
  next
    case (Some l)
    then have "op \<in> set (keys_of (maps ms))" using overwrite_None [of op e "maps ms"] by auto
    moreover have "l \<noteq> []" using Some by (cases "maps ms") (auto split: if_split_asm)
    ultimately show ?thesis using Some overwrite_get [OF Some] by (auto simp: ms_put_def ms_keys_def)
  qed
  then show "set (ms_keys (ms_put bad op e mem ms)) = insert op (set (ms_keys ms))"
    "distinct (ms_keys ms) \<Longrightarrow> distinct (ms_keys (ms_put bad op e mem ms))" "maps (ms_put bad op e mem ms) \<noteq> []" by auto
qed

lemma ms_get_None: "ms_get ms op = None \<longleftrightarrow> op \<notin> set (ms_keys ms)"
  by (simp add: ms_get_def ms_keys_def get_maps_None)

lemma ms_delete_laws [simp]:
  "ms_get (ms_delete op ms) = (ms_get ms)(op := None)" "set (ms_keys (ms_delete op ms)) = set (ms_keys ms) - {op}"
  "distinct (ms_keys ms) \<Longrightarrow> distinct (ms_keys (ms_delete op ms))" "maps (ms_delete op ms) = [] \<longleftrightarrow> maps ms = []"
proof -
  have "get_maps (map (\<lambda>(n, m). (n, AList.delete op m)) l) = (get_maps l)(op := None)
      \<and> keys_of (map (\<lambda>(n, m). (n, AList.delete op m)) l) = filter (\<lambda>x. x \<noteq> op) (keys_of l)" for l
    by (induction l) (auto simp: fun_eq_iff delete_conv' delete_keys removeAll_filter_not_eq split: option.split intro: filter_cong)
  then show "ms_get (ms_delete op ms) = (ms_get ms)(op := None)" "set (ms_keys (ms_delete op ms)) = set (ms_keys ms) - {op}"
    "distinct (ms_keys ms) \<Longrightarrow> distinct (ms_keys (ms_delete op ms))" "maps (ms_delete op ms) = [] \<longleftrightarrow> maps ms = []"
    by (auto simp: ms_delete_def ms_get_def [abs_def] ms_keys_def)
qed

section \<open>The coins of a cache\<close>

text \<open>An entry of the cache hides the stored one, and hides it with nothing when it is nil or spent.\<close>

definition cache_coins :: "crypto \<Rightarrow> (bytes \<Rightarrow> bytes) \<Rightarrow> utxoCache \<Rightarrow> coins" where
  "cache_coins c ser s op =
     (if length (op_Hash op) \<noteq> 32 then None
      else case ms_get (cachedEntries s) op of
        None \<Rightarrow> bucket_coins c ser (utxoSet (cache_db s)) op
      | Some None \<Rightarrow> None
      | Some (Some e) \<Rightarrow> if IsSpent e then None else Some (stxo_of e))"

text \<open>The database holds well-formed entries only.\<close>

definition db_ok :: "crypto \<Rightarrow> (bytes \<Rightarrow> bytes) \<Rightarrow> bucket \<Rightarrow> bool" where
  "db_ok c ser b \<longleftrightarrow> (\<forall>op. length (op_Hash op) = 32 \<longrightarrow>
     (b (outpointKey op) = None \<or> (\<exists>e. dbFetchUtxoEntry c ser b op = Inr (Some e)
        \<and> \<not> IsSpent e \<and> \<not> isModified e \<and> \<not> isFresh e)))"

definition cache_inv :: "crypto \<Rightarrow> (bytes \<Rightarrow> bytes) \<Rightarrow> utxoCache \<Rightarrow> bool" where
  "cache_inv c ser s \<longleftrightarrow>
     distinct (ms_keys (cachedEntries s)) \<and> maps (cachedEntries s) \<noteq> []
     \<and> (\<forall>op\<in>set (ms_keys (cachedEntries s)). length (op_Hash op) = 32)
     \<and> (\<forall>op e. ms_get (cachedEntries s) op = Some (Some e) \<longrightarrow>
          (isFresh e \<longrightarrow> utxoSet (cache_db s) (outpointKey op) = None)
          \<and> (\<not> isModified e \<longrightarrow> \<not> IsSpent e \<and> bucket_coins c ser (utxoSet (cache_db s)) op = Some (stxo_of e)))
     \<and> db_ok c ser (utxoSet (cache_db s))"

definition cache_may_add :: "utxoCache \<Rightarrow> OutPoint \<Rightarrow> bool" where
  "cache_may_add s op \<longleftrightarrow> length (op_Hash op) = 32 \<and> utxoSet (cache_db s) (outpointKey op) = None"

lemma Spend_modified: "\<not> IsSpent e \<Longrightarrow> isModified (Spend e)"
  by (simp add: Spend_def isModified_def flag_or)

lemma cache_put_simps [simp]:
  "cache_db (cache_put bad op e s) = cache_db s" "ms_get (cachedEntries (cache_put bad op e s)) = (ms_get (cachedEntries s))(op \<mapsto> e)"
  by (simp_all add: cache_put_def)

text \<open>Fetching entries does not change the coins and gives the entries of the coins.\<close>

definition entry_coin :: "UtxoEntry option \<Rightarrow> SpentTxOut option" where
  "entry_coin e = (case e of None \<Rightarrow> None | Some e \<Rightarrow> if IsSpent e then None else Some (stxo_of e))"

definition entry_for :: "crypto \<Rightarrow> (bytes \<Rightarrow> bytes) \<Rightarrow> utxoCache \<Rightarrow> OutPoint \<Rightarrow> UtxoEntry option" where
  "entry_for c ser s op = (case ms_get (cachedEntries s) op of Some e \<Rightarrow> e
     | None \<Rightarrow> (case dbFetchUtxoEntry c ser (utxoSet (cache_db s)) op of Inl _ \<Rightarrow> None | Inr e \<Rightarrow> e))"

lemma fetched:
  assumes "db_ok c ser b" "length (op_Hash op) = 32"
  obtains e where "dbFetchUtxoEntry c ser b op = Inr e" "bucket_coins c ser b op = map_option stxo_of e"
    "\<And>e'. e = Some e' \<Longrightarrow> \<not> IsSpent e' \<and> \<not> isModified e' \<and> \<not> isFresh e'"
proof (cases "b (outpointKey op)")
  case None
  then show thesis using that [of None] by (simp add: dbFetchUtxoEntry_def bucket_coins_def)
next
  case (Some v)
  then obtain e where "dbFetchUtxoEntry c ser b op = Inr (Some e)" "\<not> IsSpent e" "\<not> isModified e" "\<not> isFresh e"
    using assms by (auto simp: db_ok_def)
  then show thesis using that [of "Some e"] by (simp add: bucket_coins_def)
qed

lemma entry_for_coin:
  assumes "cache_inv c ser s" "length (op_Hash op) = 32"
  shows "entry_coin (entry_for c ser s op) = cache_coins c ser s op"
    "entry_for c ser s op = Some e \<Longrightarrow> \<not> isModified e \<Longrightarrow> \<not> IsSpent e \<and> bucket_coins c ser (utxoSet (cache_db s)) op = Some (stxo_of e)"
    "entry_for c ser s op = Some e \<Longrightarrow> isFresh e \<Longrightarrow> utxoSet (cache_db s) (outpointKey op) = None"
proof -
  obtain e' where e': "dbFetchUtxoEntry c ser (utxoSet (cache_db s)) op = Inr e'"
      "bucket_coins c ser (utxoSet (cache_db s)) op = map_option stxo_of e'"
      "\<And>e. e' = Some e \<Longrightarrow> \<not> IsSpent e \<and> \<not> isModified e \<and> \<not> isFresh e"
    using fetched [of c ser "utxoSet (cache_db s)" op] assms by (auto simp: cache_inv_def)
  show "entry_coin (entry_for c ser s op) = cache_coins c ser s op"
    using e' assms(2) by (auto simp: entry_coin_def entry_for_def cache_coins_def split: option.split)
  have inv: "ms_get (cachedEntries s) op = Some (Some e) \<Longrightarrow>
      (isFresh e \<longrightarrow> utxoSet (cache_db s) (outpointKey op) = None)
      \<and> (\<not> isModified e \<longrightarrow> \<not> IsSpent e \<and> bucket_coins c ser (utxoSet (cache_db s)) op = Some (stxo_of e))" for e
    using assms(1) by (auto simp: cache_inv_def)
  show "entry_for c ser s op = Some e \<Longrightarrow> \<not> isModified e \<Longrightarrow> \<not> IsSpent e \<and> bucket_coins c ser (utxoSet (cache_db s)) op = Some (stxo_of e)"
    "entry_for c ser s op = Some e \<Longrightarrow> isFresh e \<Longrightarrow> utxoSet (cache_db s) (outpointKey op) = None"
    using inv [of e] e' by (auto simp: entry_for_def split: option.split_asm)
qed

text \<open>Putting into the cache what it would fetch changes nothing it stands for.\<close>

lemma put_fetched:
  fixes bad :: nat
  assumes "cache_inv c ser s" "length (op_Hash op) = 32"
  defines "s' \<equiv> cache_put bad op (entry_for c ser s op) s"
  shows "cache_inv c ser s'" "cache_coins c ser s' = cache_coins c ser s" "entry_for c ser s' = entry_for c ser s"
proof -
  note e = entry_for_coin [OF assms(1,2)]
  show "cache_inv c ser s'"
    using assms(1,2) e(2,3) unfolding s'_def cache_inv_def by (auto simp: cache_put_def ms_put_keys)
  show "cache_coins c ser s' = cache_coins c ser s"
    using e(1) assms(2) unfolding s'_def entry_coin_def by (auto simp: fun_eq_iff cache_coins_def split: option.split)
  show "entry_for c ser s' = entry_for c ser s"
    unfolding fun_eq_iff s'_def entry_for_def [of c ser "cache_put bad op (entry_for c ser s op) s"]
    by (auto simp: entry_for_def [of c ser s] split: option.split)
qed

lemma put_all_fetched:
  fixes bad :: nat
  assumes "cache_inv c ser s" "\<forall>op\<in>set ops. length (op_Hash op) = 32" "\<forall>op. f op = entry_for c ser s op"
  defines "s' \<equiv> fold (\<lambda>(op, entry). cache_put bad op entry) (zip ops (map f ops)) s"
  shows "cache_inv c ser s' \<and> cache_coins c ser s' = cache_coins c ser s \<and> cache_db s' = cache_db s
    \<and> ms_get (cachedEntries s') = (\<lambda>op. if op \<in> set ops then Some (f op) else ms_get (cachedEntries s) op)"
  using assms(1-3) unfolding s'_def
proof (induction ops arbitrary: s)
  case (Cons op ops)
  have "cache_inv c ser (cache_put bad op (f op) s)" "cache_coins c ser (cache_put bad op (f op) s) = cache_coins c ser s"
      "\<forall>op'. f op' = entry_for c ser (cache_put bad op (f op) s) op'"
    using put_fetched [OF Cons.prems(1), of op bad] Cons.prems(2,3) by simp_all
  from Cons.IH [OF this(1) _ this(3)] this(2) Cons.prems(2) show ?case by (auto simp: fun_eq_iff)
qed simp

lemma map_r_map: "(\<And>x. x \<in> set xs \<Longrightarrow> f x = Inr (g x)) \<Longrightarrow> map_r f xs = Inr (map g xs)"
  by (induction xs) auto

lemma fill_entries_map:
  "fill_entries ms ops (map f (filter (\<lambda>op. ms_get ms op = None) ops)) = map (\<lambda>op. case ms_get ms op of Some e \<Rightarrow> e | None \<Rightarrow> f op) ops"
  by (induction ops) (auto split: option.split)

lemma fetch_many:
  assumes "cache_inv c ser s" "\<forall>op\<in>set ops. length (op_Hash op) = 32"
  shows "\<exists>s'. fetchEntries c ser bad ops s = Inr (map (entry_for c ser s) ops, s') \<and> cache_inv c ser s'
    \<and> cache_coins c ser s' = cache_coins c ser s \<and> cache_db s' = cache_db s
    \<and> ms_get (cachedEntries s') = (\<lambda>op. if op \<in> set ops then Some (entry_for c ser s op) else ms_get (cachedEntries s) op)"
proof -
  let ?m = "filter (\<lambda>op. ms_get (cachedEntries s) op = None) ops" and ?f = "entry_for c ser s"
  have "dbFetchUtxoEntry c ser (utxoSet (cache_db s)) op = Inr (?f op)" if "op \<in> set ?m" for op
    by (rule fetched [of c ser "utxoSet (cache_db s)" op]) (use assms that in \<open>auto simp: cache_inv_def entry_for_def\<close>)
  then have "map_r (dbFetchUtxoEntry c ser (utxoSet (cache_db s))) ?m = Inr (map ?f ?m)" by (rule map_r_map)
  moreover have "(\<lambda>op. case ms_get (cachedEntries s) op of Some e \<Rightarrow> e | None \<Rightarrow> ?f op) = ?f"
    by (auto simp: fun_eq_iff entry_for_def split: option.split)
  then have "fill_entries (cachedEntries s) ops (map ?f ?m) = map ?f ops" by (simp add: fill_entries_map)
  moreover have "(\<lambda>op. if op \<in> set ?m then Some (?f op) else ms_get (cachedEntries s) op)
      = (\<lambda>op. if op \<in> set ops then Some (?f op) else ms_get (cachedEntries s) op)"
    by (auto simp: fun_eq_iff entry_for_def split: option.split)
  ultimately show ?thesis
    using put_all_fetched [OF assms(1), of ?m ?f bad] assms(2) by (auto simp: fetchEntries_def Let_def)
qed

lemma fetch_one:
  assumes "cache_inv c ser s" "length (op_Hash op) = 32"
  shows "\<exists>e s'. fetchEntries c ser bad [op] s = Inr ([e], s') \<and> cache_inv c ser s' \<and> cache_coins c ser s' = cache_coins c ser s
    \<and> cache_db s' = cache_db s \<and> ms_get (cachedEntries s') op = Some e \<and> cache_coins c ser s op = entry_coin e"
  using fetch_many [OF assms(1), of "[op]" bad] assms(2) entry_for_coin(1) [OF assms] by auto

lemma addTxIn_law:
  assumes "cache_inv c ser s" "cache_coins c ser s (PreviousOutPoint ti) = Some x"
  shows "\<exists>s'. addTxIn c ser bad ti (s, st) = Inr (s', append_stxo x st) \<and> cache_inv c ser s'
    \<and> cache_coins c ser s' = (cache_coins c ser s)(PreviousOutPoint ti := None)
    \<and> (\<forall>op. cache_may_add s op \<longrightarrow> cache_may_add s' op)"
proof -
  let ?op = "PreviousOutPoint ti"
  have len: "length (op_Hash ?op) = 32" using assms(2) by (auto simp: cache_coins_def split: if_split_asm)
  from fetch_one [OF assms(1) len, of bad] assms(2) obtain e s1 where
    s1: "fetchEntries c ser bad [?op] s = Inr ([Some e], s1)" "cache_inv c ser s1" "cache_coins c ser s1 = cache_coins c ser s"
      "cache_db s1 = cache_db s" "ms_get (cachedEntries s1) ?op = Some (Some e)" "\<not> IsSpent e" "stxo_of e = x"
    by (auto simp: entry_coin_def split: option.split_asm if_split_asm)
  show ?thesis
  proof (cases "isFresh e")
    case True
    let ?s = "s1\<lparr>cachedEntries := ms_delete ?op (cachedEntries s1), totalEntryMemory := totalEntryMemory s1 - memoryUsage (Some (Spend e))\<rparr>"
    have "utxoSet (cache_db s1) (outpointKey ?op) = None" using s1(2,5) True by (auto simp: cache_inv_def)
    then have "cache_coins c ser ?s = (cache_coins c ser s)(?op := None)"
      unfolding s1(3) [symmetric]
      by (auto simp: fun_eq_iff cache_coins_def bucket_coins_def dbFetchUtxoEntry_def split: option.split)
    moreover have "cache_inv c ser ?s" using s1(2) by (auto simp: cache_inv_def)
    ultimately show ?thesis using s1 True by (auto simp: addTxIn_def Let_def cache_may_add_def)
  next
    case False
    let ?s = "s1\<lparr>cachedEntries := ms_put bad ?op (Some (Spend e)) (totalEntryMemory s1) (cachedEntries s1), totalEntryMemory := totalEntryMemory s1 - memoryUsage None\<rparr>"
    have "cache_coins c ser ?s = (cache_coins c ser s)(?op := None)"
      unfolding s1(3) [symmetric] by (auto simp: fun_eq_iff cache_coins_def split: option.split)
    moreover have "cache_inv c ser ?s" using s1(2) Spend_modified [OF s1(6)] False len by (auto simp: cache_inv_def ms_put_keys)
    ultimately show ?thesis using s1 False by (auto simp: addTxIn_def Let_def cache_may_add_def)
  qed
qed

lemma addTxOut_law:
  assumes "cache_inv c ser s" "cache_may_add s op" "\<not> IsUnspendable (PkScript txo)"
  shows "cache_inv c ser (cache_addTxOut bad op txo cb h s)
    \<and> cache_coins c ser (cache_addTxOut bad op txo cb h s) = (cache_coins c ser s)(op \<mapsto> coin txo cb h)
    \<and> (\<forall>op'. cache_may_add s op' \<longrightarrow> cache_may_add (cache_addTxOut bad op txo cb h s) op')"
proof -
  let ?s = "cache_put bad op (Some (fresh_entry txo cb h)) s"
  have "cache_inv c ser ?s" using assms unfolding cache_inv_def cache_may_add_def by (auto simp: cache_put_def ms_put_keys)
  moreover have "cache_coins c ser ?s = (cache_coins c ser s)(op \<mapsto> coin txo cb h)"
    using assms(2) by (auto simp: fun_eq_iff cache_coins_def cache_may_add_def coin_def split: option.split)
  ultimately show ?thesis using assms(3) by (simp add: cache_addTxOut_def cache_may_add_def)
qed

interpretation cache: utxo_store "cache_coins c ser" "cache_inv c ser" cache_may_add "addTxIn c ser bad" "cache_addTxOut bad"
  for c ser bad
  by unfold_locales (rule addTxIn_law, assumption+, simp add: cache_addTxOut_def, rule addTxOut_law, assumption+)

lemma cache_connects: "cache_connectTransaction c ser bad h = connect_tx (addTxIn c ser bad) (cache_addTxOut bad) c h"
  by (simp add: fun_eq_iff cache_connectTransaction_def connect_tx_def addTxIns_def cache_addTxOuts_def)

section \<open>Flushing\<close>

definition entry_after :: "crypto \<Rightarrow> (bytes \<Rightarrow> bytes) \<Rightarrow> bucket \<Rightarrow> OutPoint \<Rightarrow> UtxoEntry option \<Rightarrow> SpentTxOut option" where
  "entry_after c ser b op e = (case e of None \<Rightarrow> None | Some e \<Rightarrow>
     if IsSpent e then None else if isModified e then Some (stxo_of e) else bucket_coins c ser b op)"

text \<open>Writing entries with distinct keys leaves each key with its entry and other keys alone.\<close>

lemma write_entries:
  assumes "distinct (map fst oes)" "\<forall>(op, e)\<in>set oes. length (op_Hash op) = 32
      \<and> (\<forall>e'. e = Some e' \<longrightarrow> \<not> IsSpent e' \<longrightarrow> isModified e' \<longrightarrow> storable (stxo_of e'))" "key_laws c ser" "db_ok c ser b"
  shows "\<exists>b'. fold_r (write_entry c) oes b = Inr b' \<and> db_ok c ser b'
    \<and> (\<forall>op. length (op_Hash op) = 32 \<longrightarrow> bucket_coins c ser b' op =
         (case map_of oes op of None \<Rightarrow> bucket_coins c ser b op | Some e \<Rightarrow> entry_after c ser b op e))"
  using assms
proof (induction oes arbitrary: b)
  case (Cons oe oes)
  obtain op e where oe: "oe = (op, e)" by (cases oe)
  have len: "length (op_Hash op) = 32" using Cons.prems(2) oe by simp
  have inj: "outpointKey op' = outpointKey op \<longleftrightarrow> op' = op" if "length (op_Hash op') = 32" for op'
    using outpointKey_inject [of op' op] that len by auto
  obtain b1 where b1: "write_entry c oe b = Inr b1" "db_ok c ser b1"
      "\<forall>op'. length (op_Hash op') = 32 \<longrightarrow> bucket_coins c ser b1 op' = (if op' = op then entry_after c ser b op e else bucket_coins c ser b op')"
  proof (cases "e = None \<or> IsSpent (the e)")
    case True
    then have "write_entry c oe b = Inr (dbDeleteUtxoEntry op b)" by (auto simp: write_entry_def oe split: option.split)
    moreover have "db_ok c ser (dbDeleteUtxoEntry op b)"
      using Cons.prems(4) inj by (auto simp: db_ok_def dbDeleteUtxoEntry_def dbFetchUtxoEntry_def)
    moreover have "entry_after c ser b op e = None" using True by (auto simp: entry_after_def split: option.split)
    ultimately show thesis using that bucket_coins_delete [OF len] by auto
  next
    case False
    then obtain e' where e': "e = Some e'" "\<not> IsSpent e'" by auto
    show thesis
    proof (cases "isModified e'")
      case False
      then show thesis using that [of b] e' Cons.prems(4) by (simp add: write_entry_def oe entry_after_def)
    next
      case True
      then have st: "storable (stxo_of e')" using Cons.prems(2) e' oe by auto
      let ?b = "b(outpointKey op \<mapsto> enc_entry c (stxo_of e'))"
      have "dbPutUtxoEntry c op (Some e') b = Inr ?b" using e' by (simp add: dbPutUtxoEntry_def serialize_entry)
      then have "write_entry c oe b = Inr ?b" using True e' by (simp add: write_entry_def oe)
      moreover have "bucket_coins c ser ?b op' = (if op' = op then entry_after c ser b op e else bucket_coins c ser b op')"
        if "length (op_Hash op') = 32" for op'
        using bucket_coins_put [OF len that e'(2) st Cons.prems(3), of b] True e'
          \<open>dbPutUtxoEntry c op (Some e') b = Inr ?b\<close> by (auto simp: entry_after_def)
      moreover have "db_ok c ser ?b"
        using Cons.prems(4) inj deserialize_entry [OF st Cons.prems(3)]
        by (auto simp: db_ok_def dbFetchUtxoEntry_def corruption_def enc_entry_def enc_txout_not_Nil)
      ultimately show thesis using that by blast
    qed
  qed
  have "\<exists>b'. fold_r (write_entry c) oes b1 = Inr b' \<and> db_ok c ser b'
    \<and> (\<forall>op. length (op_Hash op) = 32 \<longrightarrow> bucket_coins c ser b' op =
         (case map_of oes op of None \<Rightarrow> bucket_coins c ser b1 op | Some e \<Rightarrow> entry_after c ser b1 op e))"
    by (rule Cons.IH) (use Cons.prems oe b1 in auto)
  then obtain b' where b': "fold_r (write_entry c) oes b1 = Inr b'" "db_ok c ser b'"
      "\<forall>op. length (op_Hash op) = 32 \<longrightarrow> bucket_coins c ser b' op =
         (case map_of oes op of None \<Rightarrow> bucket_coins c ser b1 op | Some e \<Rightarrow> entry_after c ser b1 op e)" by auto
  have "map_of oes op = None" using Cons.prems(1) oe by (simp add: map_of_eq_None_iff)
  then have "bucket_coins c ser b' op' = (case map_of (oe # oes) op' of None \<Rightarrow> bucket_coins c ser b op' | Some e \<Rightarrow> entry_after c ser b op' e)"
    if "length (op_Hash op') = 32" for op'
    using b'(3) b1(3) that oe by (auto simp: entry_after_def split: option.split)
  then show ?case using b1(1) b'(1,2) by auto
qed simp

lemma get_maps_map_of: "distinct (keys_of l) \<Longrightarrow> get_maps l = map_of (concat (map snd l))"
proof (induction l)
  case (Cons nm l)
  then show ?case by (cases nm) (auto simp: fun_eq_iff map_add_def map_of_append split: option.split)
qed (simp add: fun_eq_iff)

lemma flush_law:
  assumes "cache_inv c ser s" "\<forall>op x. cache_coins c ser s op = Some x \<longrightarrow> storable x" "key_laws c ser"
  shows "\<exists>s'. writeCache c h now s = Inr s' \<and> cache_inv c ser s' \<and> cache_coins c ser s' = cache_coins c ser s
    \<and> ms_keys (cachedEntries s') = [] \<and> utxoState (cache_db s') = Some h"
proof -
  let ?l = "maps (cachedEntries s)" and ?b = "utxoSet (cache_db s)"
  let ?oes = "concat (map snd ?l)"
  have inv: "distinct (keys_of ?l)" "?l \<noteq> []" "db_ok c ser ?b" "\<forall>op\<in>set (keys_of ?l). length (op_Hash op) = 32"
    using assms(1) by (auto simp: cache_inv_def ms_keys_def)
  have keys: "map fst ?oes = keys_of ?l" by (simp add: map_concat)
  have get: "ms_get (cachedEntries s) = map_of ?oes" using get_maps_map_of [OF inv(1)] by (simp add: ms_get_def [abs_def])
  have ok: "\<forall>(op, e)\<in>set ?oes. length (op_Hash op) = 32
      \<and> (\<forall>e'. e = Some e' \<longrightarrow> \<not> IsSpent e' \<longrightarrow> isModified e' \<longrightarrow> storable (stxo_of e'))"
  proof clarify
    fix op e assume oe: "(op, e) \<in> set ?oes"
    then have len: "length (op_Hash op) = 32" using inv(4) keys by (metis fst_conv image_eqI set_map)
    have "ms_get (cachedEntries s) op = Some e" unfolding get using oe inv(1) keys by (metis map_of_is_SomeI)
    then have "e = Some e' \<Longrightarrow> \<not> IsSpent e' \<Longrightarrow> cache_coins c ser s op = Some (stxo_of e')" for e'
      using len by (simp add: cache_coins_def)
    then show "length (op_Hash op) = 32 \<and> (\<forall>e'. e = Some e' \<longrightarrow> \<not> IsSpent e' \<longrightarrow> isModified e' \<longrightarrow> storable (stxo_of e'))"
      using assms(2) len by blast
  qed
  from write_entries [OF _ ok assms(3) inv(3)] inv(1) keys obtain b' where
    b': "fold_r (write_entry c) ?oes ?b = Inr b'" "db_ok c ser b'"
      "\<forall>op. length (op_Hash op) = 32 \<longrightarrow> bucket_coins c ser b' op =
         (case map_of ?oes op of None \<Rightarrow> bucket_coins c ser ?b op | Some e \<Rightarrow> entry_after c ser ?b op e)"
    by auto
  obtain n m l where l: "?l = (n, m) # l" using inv(2) by (metis list.exhaust surj_pair)
  define s' where "s' = s\<lparr>cache_db := (cache_db s)\<lparr>utxoSet := b', utxoState := Some h\<rparr>,
     cachedEntries := (cachedEntries s)\<lparr>maps := [(n, [])]\<rparr>, totalEntryMemory := 0, lastFlushHash := h, lastFlushTime := now\<rparr>"
  have "writeCache c h now s = Inr s'" using b'(1) by (simp add: writeCache_def deleteMaps_def l s'_def)
  moreover have none: "ms_get (cachedEntries s') op = None" "ms_keys (cachedEntries s') = []" for op
    by (simp_all add: s'_def ms_get_def ms_keys_def)
  moreover have "cache_inv c ser s'" using none b'(2) by (simp add: cache_inv_def) (simp add: s'_def)
  moreover have "cache_coins c ser s' op = cache_coins c ser s op" for op
  proof (cases "length (op_Hash op) = 32")
    case True
    have "ms_get (cachedEntries s) op = Some (Some e) \<Longrightarrow> \<not> isModified e \<Longrightarrow> \<not> IsSpent e \<Longrightarrow> bucket_coins c ser ?b op = Some (stxo_of e)" for e
      using assms(1) by (auto simp: cache_inv_def)
    then show ?thesis using True b'(3) none(1)
      by (auto simp: cache_coins_def get entry_after_def split: option.split) (simp_all add: s'_def entry_after_def)
  qed (simp add: cache_coins_def)
  ultimately show ?thesis by (auto simp: s'_def fun_eq_iff)
qed

lemma flush_any:
  assumes "cache_inv c ser s" "\<forall>op x. cache_coins c ser s op = Some x \<longrightarrow> storable x" "key_laws c ser"
  shows "\<exists>s'. flush c mode h now s = Inr s' \<and> cache_inv c ser s' \<and> cache_coins c ser s' = cache_coins c ser s
    \<and> (s' = s \<or> (\<forall>op. length (op_Hash op) = 32 \<longrightarrow> cache_coins c ser s op = None \<longrightarrow> utxoSet (cache_db s') (outpointKey op) = None))"
proof -
  obtain s1 where s1: "writeCache c h now s = Inr s1" "cache_inv c ser s1" "cache_coins c ser s1 = cache_coins c ser s"
      "ms_keys (cachedEntries s1) = []" using flush_law [OF assms] by blast
  have "utxoSet (cache_db s1) (outpointKey op) = None" if "length (op_Hash op) = 32" "cache_coins c ser s op = None" for op
  proof -
    have "ms_get (cachedEntries s1) op = None" using s1(4) by (simp add: ms_get_None)
    then have "bucket_coins c ser (utxoSet (cache_db s1)) op = None" using that s1(3) by (metis (no_types, lifting) cache_coins_def option.case(1))
    then show ?thesis using s1(2) that(1) unfolding cache_inv_def db_ok_def bucket_coins_def by fastforce
  qed
  then show ?thesis using s1 assms(1) unfolding flush_def by (simp add: Let_def)
qed

section \<open>Replaying blocks\<close>

fun chain_ledger :: "crypto \<Rightarrow> Block list \<Rightarrow> coins \<Rightarrow> coins" where
  "chain_ledger c [] L = L"
| "chain_ledger c (b # bs) L = chain_ledger c bs (ledger_block c (block_Height b) (block_txs b) L)"

fun chain_connects :: "crypto \<Rightarrow> Block list \<Rightarrow> coins \<Rightarrow> bool" where
  "chain_connects c [] L \<longleftrightarrow> True"
| "chain_connects c (b # bs) L \<longleftrightarrow> can_connect c (block_Height b) (block_txs b) L
     \<and> chain_connects c bs (ledger_block c (block_Height b) (block_txs b) L)"

definition chain_hashes :: "crypto \<Rightarrow> Block list \<Rightarrow> bytes list" where
  "chain_hashes c bs = concat (map (map (TxHash c) \<circ> block_txs) bs)"

text \<open>Blocks with values and a height that can be stored.\<close>

definition storable_block :: "Block \<Rightarrow> bool" where
  "storable_block b \<longleftrightarrow> 0 \<le> block_Height b \<and> block_Height b < 2 ^ 31
     \<and> (\<forall>tx\<in>set (block_txs b). \<forall>txo\<in>set (MsgTxOut tx). unat (Value txo) < 2 ^ 60)"

lemma ledger_tx_Some: "ledger_tx c h tx L op = Some x \<Longrightarrow> L op = Some x \<or> tx_outs c h tx op = Some x"
  by (auto simp: ledger_tx_def map_add_Some_iff restrict_map_def split: if_split_asm)

lemma ledger_block_Some:
  "ledger_block c h txs L op = Some x \<Longrightarrow> L op = Some x \<or> (\<exists>tx\<in>set txs. tx_outs c h tx op = Some x)"
  unfolding ledger_block_def
proof (induction txs arbitrary: L)
  case (Cons tx txs)
  then show ?case using ledger_tx_Some [of c h tx L op x] by fastforce
qed simp

lemma tx_outs_hash: "tx_outs c h tx op = Some x \<Longrightarrow> op_Hash op = TxHash c tx"
  by (simp add: tx_outs_def split: if_split_asm)

lemma tx_outs_storable:
  assumes "storable_block b" "tx \<in> set (block_txs b)" "tx_outs c (block_Height b) tx op = Some x"
  shows "storable x"
proof -
  let ?txo = "MsgTxOut tx ! unat (op_Index op)"
  have "?txo \<in> set (MsgTxOut tx)" "\<not> IsUnspendable (PkScript ?txo)" "x = coin ?txo (IsCoinBaseTx tx) (block_Height b)"
    using assms(3) by (auto simp: tx_outs_def split: if_split_asm)
  moreover from this have "length (PkScript ?txo) \<le> 10000" by (auto simp: IsUnspendable_def MaxScriptSize_def split: if_split_asm)
  ultimately show ?thesis using assms(1,2) by (auto simp: storable_def coin_def storable_block_def)
qed

lemma replay_law:
  assumes "cache_inv c ser s" "chain_connects c (map fst bs) (cache_coins c ser s)" "key_laws c ser"
    and "\<forall>b\<in>set bs. storable_block (fst b)" "\<forall>op x. cache_coins c ser s op = Some x \<longrightarrow> storable x"
    and "\<forall>op x. cache_coins c ser s op = Some x \<longrightarrow> op_Hash op \<notin> set (chain_hashes c (map fst bs))"
    and "\<forall>op. op_Hash op \<in> set (chain_hashes c (map fst bs)) \<longrightarrow> cache_may_add s op"
    and "distinct (chain_hashes c (map fst bs))" "\<forall>b. length (sha256 c b) = 32"
  shows "\<exists>s'. replay c ser bad bs s = Inr s' \<and> cache_inv c ser s'
    \<and> cache_coins c ser s' = chain_ledger c (map fst bs) (cache_coins c ser s)"
  using assms
proof (induction bs arbitrary: s)
  case (Cons bn bs)
  obtain b now where bn: "bn = (b, now)" by (cases bn)
  let ?L = "cache_coins c ser s" and ?h = "block_Height b" and ?txs = "block_txs b" and ?H = "set (chain_hashes c (map fst bs))"
  have disj: "TxHash c tx \<notin> ?H" if "tx \<in> set ?txs" for tx using Cons.prems(8) that bn by (auto simp: chain_hashes_def)
  have "\<forall>tx\<in>set ?txs. \<forall>op. tx_outs c ?h tx op \<noteq> None \<longrightarrow> cache_may_add s op"
    using Cons.prems(7) bn by (auto simp: chain_hashes_def dest!: tx_outs_hash)
  then obtain s1 where s1: "cache_connectTransactions c ser bad b (s, None) = Inr (s1, None)" "cache_inv c ser s1"
      "cache_coins c ser s1 = ledger_block c ?h ?txs ?L" "\<forall>op. cache_may_add s op \<longrightarrow> cache_may_add s1 op"
    using cache.connect_block [of c ser s c ?h ?txs bad None] Cons.prems(1,2) bn
    by (auto simp: cache_connectTransactions_def cache_connects fold_append_stxo)
  have st: "storable x \<and> op_Hash op \<notin> ?H" if "cache_coins c ser s1 op = Some x" for op x
  proof -
    from ledger_block_Some [OF that [unfolded s1(3)]] show ?thesis
    proof
      assume "?L op = Some x"
      then show ?thesis using Cons.prems(5,6) bn by (auto simp: chain_hashes_def)
    next
      assume "\<exists>tx\<in>set ?txs. tx_outs c ?h tx op = Some x"
      then show ?thesis using tx_outs_storable [of b] Cons.prems(4) bn disj by (auto dest: tx_outs_hash)
    qed
  qed
  obtain s2 where s2: "flush c FlushIfNeeded (block_Hash c b) now s1 = Inr s2" "cache_inv c ser s2"
      "cache_coins c ser s2 = cache_coins c ser s1"
      "s2 = s1 \<or> (\<forall>op. length (op_Hash op) = 32 \<longrightarrow> cache_coins c ser s1 op = None \<longrightarrow> utxoSet (cache_db s2) (outpointKey op) = None)"
    using flush_any [OF s1(2) _ Cons.prems(3), of FlushIfNeeded "block_Hash c b" now] st by blast
  have may: "cache_may_add s2 op" if "op_Hash op \<in> ?H" for op
  proof -
    have "cache_may_add s1 op" using that Cons.prems(7) s1(4) bn by (simp add: chain_hashes_def)
    moreover have "cache_coins c ser s1 op = None" using st [of op] that by fastforce
    ultimately show ?thesis using s2(4) by (auto simp: cache_may_add_def)
  qed
  have "\<exists>s'. replay c ser bad bs s2 = Inr s' \<and> cache_inv c ser s' \<and> cache_coins c ser s' = chain_ledger c (map fst bs) (cache_coins c ser s2)"
    using Cons.prems(2,4,8) bn by (intro Cons.IH s2(2) Cons.prems(3,9)) (use st s1(3) s2(3) may in \<open>auto simp: chain_hashes_def\<close>)
  then show ?case using s1(1,3) s2(1,3) bn by auto
qed simp

text \<open>A new cache stands for what is stored.\<close>

lemma newUtxoCache_law:
  assumes "db_ok c ser (utxoSet db)"
  shows "cache_inv c ser (newUtxoCache bad db mem)" "cache_coins c ser (newUtxoCache bad db mem)
    = (\<lambda>op. if length (op_Hash op) = 32 then bucket_coins c ser (utxoSet db) op else None)"
    "cache_db (newUtxoCache bad db mem) = db"
  using assms by (auto simp: cache_inv_def newUtxoCache_def Let_def ms_keys_def ms_get_def cache_coins_def fun_eq_iff)

section \<open>Properties\<close>

text \<open>C8: The cache implements the ledger. When the transactions of a block find, one after the other, the coins they spend,
  and the database holds none of the outputs they create, connecting the block to the cache succeeds, the coins of the
  cache are those of the ledger after the block, whatever was in memory and whatever on disk, and the outputs that
  were spent are reported in order. The invariant of the cache is kept.\<close>

theorem cache_connects_block:
  assumes "cache_inv c ser s" "can_connect c (block_Height b) (block_txs b) (cache_coins c ser s)"
    and "\<forall>tx\<in>set (block_txs b). \<forall>op. tx_outs c (block_Height b) tx op \<noteq> None \<longrightarrow>
      length (op_Hash op) = 32 \<and> utxoSet (cache_db s) (outpointKey op) = None"
  shows "\<exists>s'. cache_connectTransactions c ser bad b (s, Some stxos)
      = Inr (s', Some (stxos @ block_spends c (block_Height b) (block_txs b) (cache_coins c ser s)))
    \<and> cache_coins c ser s' = ledger_block c (block_Height b) (block_txs b) (cache_coins c ser s) \<and> cache_inv c ser s'"
  using cache.connect_block [of c ser s c "block_Height b" "block_txs b" bad "Some stxos"] assms
  by (auto simp: cache_connectTransactions_def cache_connects cache_may_add_def fold_append_stxo)

text \<open>Flushing the cache, in any mode and at any time, changes no coin: the flush succeeds, what the cache stood for
  before and after it is the same, and the invariant holds again.\<close>

theorem flush_keeps_coins:
  assumes "cache_inv c ser s" "\<forall>op x. cache_coins c ser s op = Some x \<longrightarrow> storable x" "key_laws c ser"
  shows "\<exists>s'. flush c mode bestHash now s = Inr s' \<and> cache_coins c ser s' = cache_coins c ser s \<and> cache_inv c ser s'"
  using flush_any [OF assms] by blast

text \<open>C7: After an unclean shutdown nothing is lost. A node that starts from a database that is consistent at some block,
  with an empty cache, and replays the blocks after it, flushing where the code does, ends with exactly the coins of
  the ledger after these blocks, provided each block finds its coins and no transaction hash occurs twice.\<close>

theorem recovery_restores_coins:
  assumes "db_ok c ser (utxoSet db)" "key_laws c ser" "\<forall>b. length (sha256 c b) = 32"
    and "L = (\<lambda>op. if length (op_Hash op) = 32 then bucket_coins c ser (utxoSet db) op else None)"
    and "chain_connects c (map fst bs) L" "\<forall>b\<in>set bs. storable_block (fst b)" "\<forall>x\<in>ran L. storable x"
    and "distinct (chain_hashes c (map fst bs))" "\<forall>op\<in>dom L. op_Hash op \<notin> set (chain_hashes c (map fst bs))"
  shows "\<exists>s'. replay c ser bad bs (newUtxoCache bad db mem) = Inr s' \<and> cache_coins c ser s' = chain_ledger c (map fst bs) L"
proof -
  note new = newUtxoCache_law [OF assms(1), of bad mem]
  have "cache_may_add (newUtxoCache bad db mem) op" if h: "op_Hash op \<in> set (chain_hashes c (map fst bs))" for op
  proof -
    have len: "length (op_Hash op) = 32" using h assms(3) by (auto simp: chain_hashes_def TxHash_def DoubleHashB_def)
    have "L op = None" using h assms(9) by (metis domIff)
    then show ?thesis using len assms(1,4) new(3) unfolding db_ok_def cache_may_add_def bucket_coins_def by fastforce
  qed
  then have may: "\<forall>op. op_Hash op \<in> set (chain_hashes c (map fst bs)) \<longrightarrow> cache_may_add (newUtxoCache bad db mem) op" by blast
  have L: "cache_coins c ser (newUtxoCache bad db mem) = L" using new(2) assms(4) by simp
  have "\<forall>op x. L op = Some x \<longrightarrow> storable x" "\<forall>op x. L op = Some x \<longrightarrow> op_Hash op \<notin> set (chain_hashes c (map fst bs))"
    using assms(7,9) by (auto simp: ran_def dom_def)
  from replay_law [OF new(1), unfolded L, OF assms(5,2,6) this may assms(8,3)] show ?thesis by blast
qed

text \<open>C33: An output can come back from the dead. When an output has been written to the database and is then spent in the
  cache, and the same transaction is mined again, the cache takes the new output for fresh; spending this one deletes
  the cache entry and uncovers the stored one, which can be spent a third time.\<close>

theorem respent_output_reappears:
  assumes "cache_inv c ser s" "ms_get (cachedEntries s) op = Some (Some e)" "IsSpent e"
    and "bucket_coins c ser (utxoSet (cache_db s)) op = Some x" "\<not> IsUnspendable (PkScript txo)" "PreviousOutPoint ti = op"
  shows "cache_coins c ser s op = None
    \<and> cache_coins c ser (cache_addTxOut bad op txo cb h s) op = Some (coin txo cb h)
    \<and> (\<exists>s'. addTxIn c ser bad ti (cache_addTxOut bad op txo cb h s, st) = Inr (s', append_stxo (coin txo cb h) st)
         \<and> cache_coins c ser s' op = Some x)"
proof -
  have len: "length (op_Hash op) = 32" using assms(1,2) ms_get_None [of "cachedEntries s" op] by (auto simp: cache_inv_def)
  show ?thesis using assms len
    by (auto simp: cache_coins_def cache_addTxOut_def addTxIn_def fetchEntries_def Let_def coin_def)
qed

section \<open>Witnesses\<close>

definition chain_crypto :: crypto where
  "chain_crypto = prefix_hash\<lparr>ParsePubKey := line_key\<rparr>"

lemma chain_crypto_laws: "key_laws chain_crypto id" "length (sha256 chain_crypto b) = 32" "length (TxHash chain_crypto tx) = 32"
  by (auto simp: chain_crypto_def key_laws_def line_key_def prefix_hash_def TxHash_def DoubleHashB_def split: if_split_asm)

definition mint_tx :: MsgTx where
  "mint_tx = \<lparr>Version = 1, MsgTxIn = [\<lparr>PreviousOutPoint = \<lparr>op_Hash = zeroHash, op_Index = 0xffffffff\<rparr>, SignatureScript = [1, 1],
     Witness = [], Sequence = 0\<rparr>], MsgTxOut = [\<lparr>Value = 5000, PkScript = []\<rparr>], LockTime = 0\<rparr>"

definition mint_op :: OutPoint where
  "mint_op = \<lparr>op_Hash = TxHash chain_crypto mint_tx, op_Index = 0\<rparr>"

definition move_tx :: MsgTx where
  "move_tx = \<lparr>Version = 2, MsgTxIn = [\<lparr>PreviousOutPoint = mint_op, SignatureScript = [],
     Witness = [], Sequence = 0\<rparr>], MsgTxOut = [\<lparr>Value = 4000, PkScript = []\<rparr>], LockTime = 0\<rparr>"

definition mint_block :: Block where
  "mint_block = \<lparr>msgBlock = sample_block\<lparr>Transactions := [mint_tx, move_tx]\<rparr>, block_Height = 5\<rparr>"

definition empty_cache :: utxoCache where
  "empty_cache = newUtxoCache 0 \<lparr>utxoSet = Map.empty, utxoState = None\<rparr> 0"

lemma empty_db_ok: "db_ok c ser Map.empty"
  by (simp add: db_ok_def)

lemma mint_txs: "IsCoinBaseTx mint_tx" "\<not> IsCoinBaseTx move_tx" "\<not> IsUnspendable []"
  "inputs move_tx = [mint_op]" "tx_outs chain_crypto 5 mint_tx mint_op \<noteq> None"
proof -
  have "script_err [] = None" using script_instrs_enc(2) [of "[]"] by simp
  then show u: "\<not> IsUnspendable []" by (simp add: IsUnspendable_def checkScriptParses_def script_err_def)
  have op: "op_Hash mint_op = TxHash chain_crypto mint_tx" "op_Index mint_op = 0" by (simp_all add: mint_op_def)
  moreover have "length (MsgTxOut mint_tx) = 1" "PkScript (MsgTxOut mint_tx ! 0) = []" by (simp_all add: mint_tx_def)
  ultimately show "tx_outs chain_crypto 5 mint_tx mint_op \<noteq> None" using u by (simp add: tx_outs_def)
  have "op_Index mint_op = 0" by (rule op)
  then show "\<not> IsCoinBaseTx move_tx" by (simp add: move_tx_def IsCoinBaseTx_def)
qed (simp_all add: mint_tx_def move_tx_def IsCoinBaseTx_def inputs_def)

lemma mint_block_connects: "can_connect chain_crypto 5 [mint_tx, move_tx] Map.empty"
  using mint_txs by (simp add: ledger_tx_def map_add_def) (simp add: mint_tx_def move_tx_def)

lemma mint_block_simps: "block_Height mint_block = 5" "block_txs mint_block = [mint_tx, move_tx]"
  by (simp_all add: mint_block_def)

lemma empty_cache_coins: "cache_inv c ser empty_cache" "cache_coins c ser empty_cache = Map.empty" "cache_db empty_cache = \<lparr>utxoSet = Map.empty, utxoState = None\<rparr>"
  using newUtxoCache_law [of c ser "\<lparr>utxoSet = Map.empty, utxoState = None\<rparr>" 0 0] empty_db_ok [of c ser]
  by (simp_all add: empty_cache_def fun_eq_iff bucket_coins_def dbFetchUtxoEntry_def)

theorem cache_connects_block_witness:
  "\<exists>s'. cache_connectTransactions chain_crypto id 0 mint_block (empty_cache, Some [])
      = Inr (s', Some [\<lparr>Amount = 5000, stxo_PkScript = [], stxo_Height = 5, stxo_IsCoinBase = True\<rparr>])"
proof -
  have "ledger_tx chain_crypto 5 mint_tx Map.empty mint_op = Some \<lparr>Amount = 5000, stxo_PkScript = [], stxo_Height = 5, stxo_IsCoinBase = True\<rparr>"
    using mint_txs(1,5) unfolding ledger_tx_def
    by (simp add: map_add_def tx_outs_def coin_def mint_op_def split: if_split_asm) (simp add: mint_tx_def)
  then have "block_spends chain_crypto 5 [mint_tx, move_tx] Map.empty = [\<lparr>Amount = 5000, stxo_PkScript = [], stxo_Height = 5, stxo_IsCoinBase = True\<rparr>]"
    using mint_txs by (simp add: tx_spends_def)
  moreover have "length (op_Hash op) = 32" if "tx_outs chain_crypto 5 tx op \<noteq> None" for tx op
    using that chain_crypto_laws(3) [of tx] by (auto simp: tx_outs_def split: if_split_asm)
  ultimately show ?thesis
    using cache_connects_block [OF empty_cache_coins(1) [of chain_crypto id], of mint_block 0 "[]"] mint_block_connects
    by (auto simp: mint_block_simps empty_cache_coins)
qed

lemma mint_outs_fresh: "tx_outs chain_crypto h tx op \<noteq> None \<Longrightarrow> cache_may_add empty_cache op"
  using chain_crypto_laws(3) [of tx] by (auto simp: tx_outs_def cache_may_add_def empty_cache_coins split: if_split_asm)

lemma mint_cache:
  obtains s where "cache_inv chain_crypto id s" "cache_coins chain_crypto id s = ledger_block chain_crypto 5 [mint_tx, move_tx] Map.empty"
  using cache.connect_block [of chain_crypto id empty_cache chain_crypto 5 "[mint_tx, move_tx]" 0 None] mint_outs_fresh
    mint_block_connects by (auto simp: empty_cache_coins)

lemma mint_storable: "storable_block mint_block"
  by (simp add: storable_block_def mint_block_simps) (simp add: mint_tx_def move_tx_def)

theorem flush_keeps_coins_witness:
  "\<exists>s s'. flush chain_crypto FlushRequired zeroHash 9 s = Inr s'
     \<and> cache_coins chain_crypto id s' = ledger_block chain_crypto 5 [mint_tx, move_tx] Map.empty"
proof -
  obtain s where s: "cache_inv chain_crypto id s" "cache_coins chain_crypto id s = ledger_block chain_crypto 5 [mint_tx, move_tx] Map.empty"
    by (rule mint_cache)
  have "\<forall>op x. cache_coins chain_crypto id s op = Some x \<longrightarrow> storable x"
    using tx_outs_storable [OF mint_storable] by (auto simp: s(2) mint_block_simps dest!: ledger_block_Some)
  from flush_keeps_coins [OF s(1) this chain_crypto_laws(1), of FlushRequired zeroHash 9] s(2) show ?thesis by auto
qed

lemma numeral_4_eq_4: "(4 :: nat) = Suc (Suc (Suc (Suc 0)))"
  by simp

lemma hd_TxHash: "hd (TxHash chain_crypto tx) = of_nat (unat (Version tx))"
proof -
  have "\<exists>r. SerializeNoWitness tx = of_nat (unat (Version tx) mod 256) # r"
    unfolding SerializeNoWitness_def btcEncode_def Let_def numeral_4_eq_4 le_bytes.simps by simp
  moreover have "(of_nat (n mod 256) :: u8) = of_nat n" for n
    by (rule u8_eqI) (simp add: unat_of_nat_u8)
  ultimately show ?thesis by (auto simp: TxHash_def DoubleHashB_def chain_crypto_def prefix_hash_def)
qed

theorem recovery_restores_coins_witness:
  "\<exists>s'. replay chain_crypto id 0 [(mint_block, 3)] empty_cache = Inr s'
     \<and> cache_coins chain_crypto id s' = ledger_block chain_crypto 5 [mint_tx, move_tx] Map.empty"
proof -
  have "hd (TxHash chain_crypto mint_tx) \<noteq> hd (TxHash chain_crypto move_tx)"
    unfolding hd_TxHash by (simp add: mint_tx_def move_tx_def)
  then have "TxHash chain_crypto mint_tx \<noteq> TxHash chain_crypto move_tx" by metis
  then show ?thesis
    using recovery_restores_coins [of chain_crypto id "\<lparr>utxoSet = Map.empty, utxoState = None\<rparr>" Map.empty "[(mint_block, 3)]" 0 0]
      empty_db_ok [of chain_crypto id] chain_crypto_laws(1,2) mint_block_connects mint_storable
    by (auto simp: mint_block_simps chain_hashes_def empty_cache_def fun_eq_iff bucket_coins_def dbFetchUtxoEntry_def)
qed

text \<open>A cache with a stored output that it has spent.\<close>

definition respent_cache :: utxoCache where
  "respent_cache = empty_cache\<lparr>
     cache_db := \<lparr>utxoSet = [outpointKey mint_op \<mapsto> enc_entry chain_crypto (coin \<lparr>Value = 5000, PkScript = []\<rparr> True 5)], utxoState = None\<rparr>,
     cachedEntries := \<lparr>maps = [(8, [(mint_op, Some (Spend \<lparr>amount = 5000, pkScript = [], blockHeight = 5, packedFlags = tfCoinBase\<rparr>))])],
       ms_maxTotalMemoryUsage = 0\<rparr>\<rparr>"

lemma respent_cache_inv:
  "cache_inv chain_crypto id respent_cache" "ms_get (cachedEntries respent_cache) mint_op = Some (Some (Spend \<lparr>amount = 5000, pkScript = [], blockHeight = 5, packedFlags = tfCoinBase\<rparr>))"
  "bucket_coins chain_crypto id (utxoSet (cache_db respent_cache)) mint_op = Some (coin \<lparr>Value = 5000, PkScript = []\<rparr> True 5)"
proof -
  let ?x = "coin \<lparr>Value = 5000, PkScript = []\<rparr> True 5" and ?b = "utxoSet (cache_db respent_cache)"
  have b: "?b = [outpointKey mint_op \<mapsto> enc_entry chain_crypto ?x]" by (simp add: respent_cache_def)
  have "storable ?x" by (simp add: storable_def coin_def)
  then obtain e where e: "deserializeUtxoEntry chain_crypto id (enc_entry chain_crypto ?x) = Inr e" "stxo_of e = ?x"
      "\<not> IsSpent e" "\<not> isModified e" "\<not> isFresh e" using deserialize_entry [OF _ chain_crypto_laws(1)] by blast
  have len: "length (op_Hash mint_op) = 32" by (simp add: mint_op_def chain_crypto_laws)
  have f: "dbFetchUtxoEntry chain_crypto id ?b op = Inr (if op = mint_op then Some e else None)" if "length (op_Hash op) = 32" for op
    using outpointKey_inject [of op mint_op] that len e(1) by (auto simp: b dbFetchUtxoEntry_def corruption_def enc_entry_def enc_txout_not_Nil)
  show g: "ms_get (cachedEntries respent_cache) mint_op = Some (Some (Spend \<lparr>amount = 5000, pkScript = [], blockHeight = 5, packedFlags = tfCoinBase\<rparr>))"
    by (simp add: respent_cache_def ms_get_def)
  show "bucket_coins chain_crypto id ?b mint_op = Some ?x" using f [OF len] e(2) by (simp add: bucket_coins_def)
  have "db_ok chain_crypto id ?b" unfolding db_ok_def using f e len by (auto simp: b dest: outpointKey_inject)
  moreover have "ms_keys (cachedEntries respent_cache) = [mint_op]" "maps (cachedEntries respent_cache) \<noteq> []"
    by (simp_all add: respent_cache_def ms_keys_def)
  moreover have "op = mint_op" if "ms_get (cachedEntries respent_cache) op = Some (Some e')" for op e'
    using that calculation(2) ms_get_None [of "cachedEntries respent_cache" op] by auto
  moreover have "\<not> isFresh \<lparr>amount = 5000, pkScript = [], blockHeight = 5, packedFlags = tfCoinBase\<rparr>" 
      "\<not> IsSpent \<lparr>amount = 5000, pkScript = [], blockHeight = 5, packedFlags = tfCoinBase\<rparr>" by (simp_all add: isFresh_def IsSpent_def tf_defs)
  moreover from this(2) have "isModified (Spend \<lparr>amount = 5000, pkScript = [], blockHeight = 5, packedFlags = tfCoinBase\<rparr>)" by (rule Spend_modified)
  ultimately show "cache_inv chain_crypto id respent_cache" unfolding cache_inv_def using g len by fastforce
qed

theorem respent_output_reappears_witness:
  "\<exists>s'. addTxIn chain_crypto id 0 (hd (MsgTxIn move_tx)) (cache_addTxOut 0 mint_op \<lparr>Value = 5000, PkScript = []\<rparr> True 6 respent_cache, None)
      = Inr (s', None) \<and> cache_coins chain_crypto id s' mint_op = Some (coin \<lparr>Value = 5000, PkScript = []\<rparr> True 5)"
  using respent_output_reappears [OF respent_cache_inv(1,2) _ respent_cache_inv(3), of "\<lparr>Value = 5000, PkScript = []\<rparr>" "hd (MsgTxIn move_tx)" 0 True 6 None] mint_txs(3)
  by (simp add: move_tx_def append_stxo_def)

end
