(* ===== verification/Chain_View.thy ===== *)
theory Chain_View
  imports Chain_Cache
begin

unbundle bit_operations_syntax

text \<open>
  Views of the unspent outputs (\<open>utxoviewpoint.go\<close>) and the disconnection of a block from the end of the chain (the calls
  of \<open>reorganizeChain\<close> and \<open>disconnectBlock\<close> in \<open>chain.go\<close> that change unspent outputs). A view maps outpoints to entries,
  where a key may have a nil entry; entries that are changed in place are replaced in the map. Iterating over a view
  follows a list of its keys. Detaching a block undoes connecting it, through the cache, the spend journal and the
  database.
\<close>

section \<open>Views\<close>

record UtxoViewpoint =
  entries :: "OutPoint \<Rightarrow> UtxoEntry option option"
  bestHash :: bytes

definition NewUtxoViewpoint :: UtxoViewpoint where
  "NewUtxoViewpoint = \<lparr>entries = Map.empty, bestHash = zeroHash\<rparr>"

definition SetBestHash :: "bytes \<Rightarrow> UtxoViewpoint \<Rightarrow> UtxoViewpoint" where
  "SetBestHash h view = view\<lparr>bestHash := h\<rparr>"

text \<open>\<open>None\<close> is a nil pointer, for a key that is absent as for a nil entry.\<close>

definition LookupEntry :: "UtxoViewpoint \<Rightarrow> OutPoint \<Rightarrow> UtxoEntry option" where
  "LookupEntry view outpoint = (case entries view outpoint of Some (Some e) \<Rightarrow> Some e | _ \<Rightarrow> None)"

definition FetchPrevOutput :: "UtxoViewpoint \<Rightarrow> OutPoint \<Rightarrow> TxOut option" where
  "FetchPrevOutput view op = map_option (\<lambda>e. \<lparr>Value = amount e, PkScript = pkScript e\<rparr>) (LookupEntry view op)"

definition set_entry :: "OutPoint \<Rightarrow> UtxoEntry \<Rightarrow> UtxoViewpoint \<Rightarrow> UtxoViewpoint" where
  "set_entry op e view = view\<lparr>entries := (entries view)(op \<mapsto> Some e)\<rparr>"

text \<open>All fields of an existing entry are overwritten.\<close>

definition view_addTxOut :: "OutPoint \<Rightarrow> TxOut \<Rightarrow> bool \<Rightarrow> int \<Rightarrow> UtxoViewpoint \<Rightarrow> UtxoViewpoint" where
  "view_addTxOut outpoint txOut isCoinBase height view =
     (if IsUnspendable (PkScript txOut) then view else set_entry outpoint (fresh_entry txOut isCoinBase height) view)"

definition view_AddTxOut :: "crypto \<Rightarrow> MsgTx \<Rightarrow> u32 \<Rightarrow> int \<Rightarrow> UtxoViewpoint \<Rightarrow> UtxoViewpoint" where
  "view_AddTxOut c tx txOutIdx height view =
     (if txOutIdx \<ge> of_nat (length (MsgTxOut tx)) then view
      else view_addTxOut \<lparr>op_Hash = TxHash c tx, op_Index = txOutIdx\<rparr> (MsgTxOut tx ! unat txOutIdx) (IsCoinBaseTx tx) height view)"

definition AddTxOuts :: "crypto \<Rightarrow> MsgTx \<Rightarrow> int \<Rightarrow> UtxoViewpoint \<Rightarrow> UtxoViewpoint" where
  "AddTxOuts c tx height view = add_outs view_addTxOut c tx height view"

text \<open>One input of \<open>connectTransaction\<close>.\<close>

definition view_spend :: "TxIn \<Rightarrow> UtxoViewpoint \<times> SpentTxOut list option \<Rightarrow> (UtxoViewpoint \<times> SpentTxOut list option) rule" where
  "view_spend txIn st =
     (let (view, stxos) = st in
      case LookupEntry view (PreviousOutPoint txIn) of
        None \<Rightarrow> Inl AssertError
      | Some entry \<Rightarrow> Inr (set_entry (PreviousOutPoint txIn) (Spend entry) view, append_stxo (stxo_of entry) stxos))"

definition view_connectTransaction :: "crypto \<Rightarrow> int \<Rightarrow> MsgTx \<Rightarrow> UtxoViewpoint \<times> SpentTxOut list option
    \<Rightarrow> (UtxoViewpoint \<times> SpentTxOut list option) rule" where
  "view_connectTransaction c height tx st =
     (if IsCoinBaseTx tx then Inr (AddTxOuts c tx height (fst st), snd st)
      else rbind (fold_r view_spend (MsgTxIn tx) st) (\<lambda>(view, stxos). Inr (AddTxOuts c tx height view, stxos)))"

definition view_connectTransactions :: "crypto \<Rightarrow> Block \<Rightarrow> UtxoViewpoint \<times> SpentTxOut list option
    \<Rightarrow> (UtxoViewpoint \<times> SpentTxOut list option) rule" where
  "view_connectTransactions c block st =
     rbind (fold_r (view_connectTransaction c (block_Height block)) (block_txs block) st)
       (\<lambda>(view, stxos). Inr (SetBestHash (block_Hash c block) view, stxos))"

section \<open>Disconnecting\<close>

definition MaxOutputsPerBlock :: nat where "MaxOutputsPerBlock = 4000000 div (4 * MinTxOutPayload)"

text \<open>\<open>seek\<close> is the cursor of the database: the first pair of the bucket with a key that is not smaller.\<close>

definition dbFetchUtxoEntryByHash :: "crypto \<Rightarrow> (bytes \<Rightarrow> bytes) \<Rightarrow> (bytes \<Rightarrow> (bytes \<times> bytes) option) \<Rightarrow> bytes \<Rightarrow> UtxoEntry option rule" where
  "dbFetchUtxoEntryByHash c ser seek hash =
     (case seek (outpointKey \<lparr>op_Hash = hash, op_Index = 0\<rparr>) of
        None \<Rightarrow> Inr None
      | Some (cursorKey, val) \<Rightarrow>
          if length cursorKey < 32 \<or> hash \<noteq> take 32 cursorKey then Inr None
          else rbind (deserializeUtxoEntry c ser val) (\<lambda>e. Inr (Some e)))"

definition fetchEntryByHash :: "crypto \<Rightarrow> (bytes \<Rightarrow> bytes) \<Rightarrow> (bytes \<Rightarrow> (bytes \<times> bytes) option) \<Rightarrow> bytes \<Rightarrow> UtxoViewpoint \<Rightarrow> UtxoEntry option rule" where
  "fetchEntryByHash c ser seek hash view =
     (case find (\<lambda>idx. LookupEntry view \<lparr>op_Hash = hash, op_Index = of_nat idx\<rparr> \<noteq> None) [0..<MaxOutputsPerBlock] of
        Some idx \<Rightarrow> Inr (LookupEntry view \<lparr>op_Hash = hash, op_Index = of_nat idx\<rparr>)
      | None \<Rightarrow> dbFetchUtxoEntryByHash c ser seek hash)"

definition countSpentOutputs :: "Block \<Rightarrow> nat rule" where
  "countSpentOutputs block =
     (if block_txs block = [] then Inl Panic else Inr (sum_list (map (\<lambda>tx. length (MsgTxIn tx)) (tl (block_txs block)))))"

text \<open>The loop that marks the outputs of a transaction as spent.\<close>

definition spend_outs :: "crypto \<Rightarrow> int \<Rightarrow> bool \<Rightarrow> MsgTx \<Rightarrow> UtxoViewpoint \<Rightarrow> UtxoViewpoint" where
  "spend_outs c height isCoinBase tx view =
     fold (\<lambda>(txOutIdx, txOut) view.
       if IsUnspendable (PkScript txOut) then view
       else let prevOut = \<lparr>op_Hash = TxHash c tx, op_Index = of_nat txOutIdx\<rparr>;
                entry = (case LookupEntry view prevOut of Some entry \<Rightarrow> entry
                  | None \<Rightarrow> \<lparr>amount = Value txOut, pkScript = PkScript txOut, blockHeight = height,
                            packedFlags = (if isCoinBase then 0 OR tfCoinBase else 0)\<rparr>) in
         set_entry prevOut (Spend entry) view) (enumerate 0 (MsgTxOut tx)) view"

text \<open>The restoration of the output that one input has spent; \<open>txHash\<close> is the hash of the spending transaction.\<close>

definition restore_in :: "crypto \<Rightarrow> (bytes \<Rightarrow> bytes) \<Rightarrow> (bytes \<Rightarrow> (bytes \<times> bytes) option) \<Rightarrow> bytes \<Rightarrow> TxIn \<Rightarrow> SpentTxOut \<Rightarrow> UtxoViewpoint
    \<Rightarrow> UtxoViewpoint rule" where
  "restore_in c ser seek txHash txIn stxo view =
     (let originOut = PreviousOutPoint txIn;
          view = (case LookupEntry view originOut of Some _ \<Rightarrow> view
            | None \<Rightarrow> set_entry originOut \<lparr>amount = 0, pkScript = [], blockHeight = 0, packedFlags = 0\<rparr> view) in
      rbind (if stxo_Height stxo = 0 then
               rbind (fetchEntryByHash c ser seek txHash view) (\<lambda>utxo.
                 case utxo of None \<Rightarrow> Inl AssertError
                 | Some u \<Rightarrow> Inr (stxo\<lparr>stxo_Height := blockHeight u, stxo_IsCoinBase := IsCoinBase u\<rparr>))
             else Inr stxo) (\<lambda>stxo.
        Inr (set_entry originOut \<lparr>amount = Amount stxo, pkScript = stxo_PkScript stxo, blockHeight = stxo_Height stxo,
               packedFlags = (if stxo_IsCoinBase stxo then tfModified OR tfCoinBase else tfModified)\<rparr> view)))"

text \<open>The inputs and the outputs they have spent, both backwards; the rest of the outputs is left for earlier transactions.\<close>

fun restore_ins :: "crypto \<Rightarrow> (bytes \<Rightarrow> bytes) \<Rightarrow> (bytes \<Rightarrow> (bytes \<times> bytes) option) \<Rightarrow> bytes \<Rightarrow> TxIn list \<Rightarrow> SpentTxOut list \<Rightarrow> UtxoViewpoint
    \<Rightarrow> (UtxoViewpoint \<times> SpentTxOut list) rule" where
  "restore_ins c ser seek txHash [] stxos view = Inr (view, stxos)"
| "restore_ins c ser seek txHash (txIn # txIns) [] view = Inl Panic"
| "restore_ins c ser seek txHash (txIn # txIns) (stxo # stxos) view =
     rbind (restore_in c ser seek txHash txIn stxo view) (restore_ins c ser seek txHash txIns stxos)"

text \<open>The loop over the transactions, backwards, each with its index.\<close>

fun disconnect_loop :: "crypto \<Rightarrow> (bytes \<Rightarrow> bytes) \<Rightarrow> (bytes \<Rightarrow> (bytes \<times> bytes) option) \<Rightarrow> int \<Rightarrow> (nat \<times> MsgTx) list \<Rightarrow> SpentTxOut list
    \<Rightarrow> UtxoViewpoint \<Rightarrow> UtxoViewpoint rule" where
  "disconnect_loop c ser seek height [] stxos view = Inr view"
| "disconnect_loop c ser seek height ((txIdx, tx) # txs) stxos view =
     (let isCoinBase = (txIdx = 0); view = spend_outs c height isCoinBase tx view in
      if isCoinBase then disconnect_loop c ser seek height txs stxos view
      else rbind (restore_ins c ser seek (TxHash c tx) (rev (MsgTxIn tx)) stxos view) (\<lambda>(view, stxos).
        disconnect_loop c ser seek height txs stxos view))"

definition disconnectTransactions :: "crypto \<Rightarrow> (bytes \<Rightarrow> bytes) \<Rightarrow> (bytes \<Rightarrow> (bytes \<times> bytes) option) \<Rightarrow> Block \<Rightarrow> SpentTxOut list
    \<Rightarrow> UtxoViewpoint \<Rightarrow> UtxoViewpoint rule" where
  "disconnectTransactions c ser seek block stxos view =
     rbind (countSpentOutputs block) (\<lambda>n.
     if length stxos \<noteq> n then Inl AssertError
     else rbind (disconnect_loop c ser seek (block_Height block) (rev (enumerate 0 (block_txs block))) (rev stxos) view) (\<lambda>view.
       Inr (SetBestHash (PrevBlock (Header (msgBlock block))) view)))"

definition RemoveEntry :: "OutPoint \<Rightarrow> UtxoViewpoint \<Rightarrow> UtxoViewpoint" where
  "RemoveEntry outpoint view = view\<lparr>entries := (entries view)(outpoint := None)\<rparr>"

definition view_commit :: "UtxoViewpoint \<Rightarrow> UtxoViewpoint" where
  "view_commit view = view\<lparr>entries := (\<lambda>op. case entries view op of
       None \<Rightarrow> None
     | Some None \<Rightarrow> None
     | Some (Some entry) \<Rightarrow>
         if isModified entry \<and> IsSpent entry then None
         else Some (Some (entry\<lparr>packedFlags := packedFlags entry XOR tfModified\<rparr>)))\<rparr>"

section \<open>Loading\<close>

definition fetchUtxosFromCache :: "crypto \<Rightarrow> (bytes \<Rightarrow> bytes) \<Rightarrow> nat \<Rightarrow> OutPoint list \<Rightarrow> UtxoViewpoint \<times> utxoCache
    \<Rightarrow> (UtxoViewpoint \<times> utxoCache) rule" where
  "fetchUtxosFromCache c ser bad outpoints vc =
     (let (view, cache) = vc in
      if outpoints = [] then Inr (view, cache)
      else rbind (fetchEntries c ser bad outpoints cache) (\<lambda>(es, cache).
        Inr (fold (\<lambda>(op, e) view. view\<lparr>entries := (entries view)(op \<mapsto> e)\<rparr>) (zip outpoints es) view, cache)))"

definition fetchUtxos :: "crypto \<Rightarrow> (bytes \<Rightarrow> bytes) \<Rightarrow> nat \<Rightarrow> OutPoint list \<Rightarrow> UtxoViewpoint \<times> utxoCache
    \<Rightarrow> (UtxoViewpoint \<times> utxoCache) rule" where
  "fetchUtxos c ser bad outpoints vc =
     (if outpoints = [] then Inr vc
      else fetchUtxosFromCache c ser bad (filter (\<lambda>op. entries (fst vc) op = None) outpoints) vc)"

text \<open>The index of the last transaction of the block with a hash.\<close>

definition txInFlight :: "crypto \<Rightarrow> MsgTx list \<Rightarrow> bytes \<Rightarrow> nat option" where
  "txInFlight c transactions = map_of (rev (zip (map (TxHash c) transactions) [0..<length transactions]))"

definition find_input :: "crypto \<Rightarrow> Block \<Rightarrow> nat \<Rightarrow> TxIn \<Rightarrow> UtxoViewpoint \<times> OutPoint list \<Rightarrow> UtxoViewpoint \<times> OutPoint list" where
  "find_input c block i txIn vn =
     (let (view, needed) = vn; op = PreviousOutPoint txIn in
      case txInFlight c (block_txs block) (op_Hash op) of
        Some inFlightIndex \<Rightarrow>
          if i \<ge> inFlightIndex then (AddTxOuts c (block_txs block ! inFlightIndex) (block_Height block) view, needed)
          else if entries view op \<noteq> None then (view, needed) else (view, needed @ [op])
      | None \<Rightarrow> if entries view op \<noteq> None then (view, needed) else (view, needed @ [op]))"

definition findInputsToFetch :: "crypto \<Rightarrow> Block \<Rightarrow> UtxoViewpoint \<Rightarrow> (UtxoViewpoint \<times> OutPoint list) rule" where
  "findInputsToFetch c block view =
     (if block_txs block = [] then Inl Panic
      else Inr (fold (\<lambda>(i, tx). fold (find_input c block i) (MsgTxIn tx)) (enumerate 0 (tl (block_txs block))) (view, [])))"

definition fetchInputUtxos :: "crypto \<Rightarrow> (bytes \<Rightarrow> bytes) \<Rightarrow> nat \<Rightarrow> Block \<Rightarrow> UtxoViewpoint \<times> utxoCache \<Rightarrow> (UtxoViewpoint \<times> utxoCache) rule" where
  "fetchInputUtxos c ser bad block vc =
     rbind (findInputsToFetch c block (fst vc)) (\<lambda>(view, needed). fetchUtxosFromCache c ser bad needed (view, snd vc))"

definition FetchUtxoView :: "crypto \<Rightarrow> (bytes \<Rightarrow> bytes) \<Rightarrow> nat \<Rightarrow> MsgTx \<Rightarrow> utxoCache \<Rightarrow> (UtxoViewpoint \<times> utxoCache) rule" where
  "FetchUtxoView c ser bad tx cache =
     (let needed = map (\<lambda>i. \<lparr>op_Hash = TxHash c tx, op_Index = of_nat i\<rparr>) [0..<length (MsgTxOut tx)]
            @ (if IsCoinBaseTx tx then [] else map PreviousOutPoint (MsgTxIn tx)) in
      fetchUtxosFromCache c ser bad needed (NewUtxoViewpoint, cache))"

section \<open>Detaching a block\<close>

definition put_view_entry :: "crypto \<Rightarrow> UtxoViewpoint \<Rightarrow> OutPoint \<Rightarrow> bucket \<Rightarrow> bucket rule" where
  "put_view_entry c view outpoint b =
     (case LookupEntry view outpoint of
        None \<Rightarrow> Inr b
      | Some entry \<Rightarrow>
          if \<not> isModified entry then Inr b
          else if IsSpent entry then Inr (dbDeleteUtxoEntry outpoint b)
          else dbPutUtxoEntry c outpoint (Some entry) b)"

text \<open>\<open>order\<close> is the order in which the keys of the view are visited.\<close>

definition dbPutUtxoView :: "crypto \<Rightarrow> OutPoint list \<Rightarrow> UtxoViewpoint \<Rightarrow> bucket \<Rightarrow> bucket rule" where
  "dbPutUtxoView c order view utxoBucket = fold_r (put_view_entry c view) order utxoBucket"

text \<open>
  One round of the loop of \<open>reorganizeChain\<close> that disconnects a block, with what \<open>disconnectBlock\<close> does to the unspent
  outputs: load the inputs, disconnect the transactions, flush the cache, write the view. The other buckets that
  \<open>disconnectBlock\<close> writes (the best state, the index of the main chain, the spend journal and the optional indexes)
  are not part of the state, and the spent outputs that \<open>reorganizeChain\<close> has read from the journal are an argument.
\<close>

definition detach_block :: "crypto \<Rightarrow> (bytes \<Rightarrow> bytes) \<Rightarrow> nat \<Rightarrow> (bytes \<Rightarrow> (bytes \<times> bytes) option) \<Rightarrow> (UtxoViewpoint \<Rightarrow> OutPoint list) \<Rightarrow> int
    \<Rightarrow> Block \<Rightarrow> SpentTxOut list \<Rightarrow> UtxoViewpoint \<times> utxoCache \<Rightarrow> (UtxoViewpoint \<times> utxoCache) rule" where
  "detach_block c ser bad seek order now block stxos vc =
     rbind (fetchInputUtxos c ser bad block vc) (\<lambda>(view, cache).
     rbind (disconnectTransactions c ser seek block stxos view) (\<lambda>view.
     rbind (flush c FlushRequired (PrevBlock (Header (msgBlock block))) now cache) (\<lambda>cache.
     rbind (dbPutUtxoView c (order view) view (utxoSet (cache_db cache))) (\<lambda>b.
       Inr (view_commit view, cache\<lparr>cache_db := (cache_db cache)\<lparr>utxoSet := b\<rparr>\<rparr>)))))"

section \<open>The coins of a view\<close>

text \<open>An entry of the view hides the coin of the base below it.\<close>

definition view_coins :: "coins \<Rightarrow> UtxoViewpoint \<Rightarrow> coins" where
  "view_coins base view op = (case LookupEntry view op of None \<Rightarrow> base op | Some e \<Rightarrow> entry_coin (Some e))"

text \<open>Entries that are not modified are those of the base, and keys are outpoints with a hash.\<close>

definition view_ok :: "coins \<Rightarrow> UtxoViewpoint \<Rightarrow> bool" where
  "view_ok base view \<longleftrightarrow> finite (dom (entries view)) \<and> (\<forall>op. entries view op \<noteq> None \<longrightarrow> length (op_Hash op) = 32)
     \<and> (\<forall>op e. LookupEntry view op = Some e \<longrightarrow> \<not> isModified e \<longrightarrow> \<not> IsSpent e \<and> base op = Some (stxo_of e))"

lemma Lookup_set_entry [simp]: "LookupEntry (set_entry op e view) = (LookupEntry view)(op \<mapsto> e)"
  by (auto simp: fun_eq_iff LookupEntry_def set_entry_def)

lemma view_coins_set_entry [simp]:
  "view_coins base (set_entry op e view) = (view_coins base view)(op := entry_coin (Some e))"
  by (auto simp: fun_eq_iff view_coins_def)

lemma view_ok_set_entry:
  "view_ok base view \<Longrightarrow> isModified e \<Longrightarrow> length (op_Hash op) = 32 \<Longrightarrow> view_ok base (set_entry op e view)"
  by (auto simp: view_ok_def set_entry_def LookupEntry_def split: if_split_asm)

lemma entry_coin_simps [simp]:
  "entry_coin (Some (Spend e)) = None" "entry_coin (Some (fresh_entry txo cb h)) = Some (coin txo cb h)" "entry_coin None = None"
  by (simp_all add: entry_coin_def coin_def)

interpretation view: utxo_store "view_coins Map.empty" "\<lambda>_. True" "\<lambda>_ _. True" view_spend view_addTxOut
proof unfold_locales
  show "\<exists>v'. view_spend ti (v, st) = Inr (v', append_stxo x st) \<and> True
      \<and> view_coins Map.empty v' = (view_coins Map.empty v)(PreviousOutPoint ti := None) \<and> (\<forall>op. True \<longrightarrow> True)"
    if "view_coins Map.empty v (PreviousOutPoint ti) = Some x" for v ti x st
    using that by (auto simp: view_coins_def [of _ v] view_spend_def entry_coin_def split: option.split_asm if_split_asm)
qed (simp_all add: view_addTxOut_def)

lemma view_connects: "view_connectTransaction c h = connect_tx view_spend view_addTxOut c h"
  by (auto simp: fun_eq_iff view_connectTransaction_def connect_tx_def AddTxOuts_def)

section \<open>Undoing a block\<close>

definition out_ops :: "crypto \<Rightarrow> MsgTx \<Rightarrow> OutPoint set" where
  "out_ops c tx = {op. tx_outs c 0 tx op \<noteq> None}"

lemma out_ops_iff: "tx_outs c h tx op \<noteq> None \<longleftrightarrow> op \<in> out_ops c tx"
  by (simp add: out_ops_def tx_outs_def)

lemma Spend_lookup_modified: "view_ok base view \<Longrightarrow> LookupEntry view op = Some e \<Longrightarrow> isModified (Spend e)"
  using Spend_modified [of e] by (cases "IsSpent e") (auto simp: view_ok_def Spend_def)

lemma spend_outs_law:
  assumes "view_ok base view" "length (MsgTxOut tx) \<le> 2 ^ 32" "length (TxHash c tx) = 32"
  shows "view_ok base (spend_outs c h cb tx view)"
    "view_coins base (spend_outs c h cb tx view) = (\<lambda>op. if op \<in> out_ops c tx then None else view_coins base view op)"
proof -
  let ?step = "\<lambda>(txOutIdx, txOut) view.
       if IsUnspendable (PkScript txOut) then view
       else let prevOut = \<lparr>op_Hash = TxHash c tx, op_Index = of_nat txOutIdx\<rparr>;
                entry = (case LookupEntry view prevOut of Some entry \<Rightarrow> entry
                  | None \<Rightarrow> \<lparr>amount = Value txOut, pkScript = PkScript txOut, blockHeight = h,
                            packedFlags = (if cb then 0 OR tfCoinBase else 0)\<rparr>) in
         set_entry prevOut (Spend entry) view"
  have "view_ok base (fold ?step (enumerate k outs) v) \<and> view_coins base (fold ?step (enumerate k outs) v)
      = (\<lambda>op. if op_Hash op = TxHash c tx \<and> k \<le> unat (op_Index op) \<and> unat (op_Index op) < k + length outs
            \<and> \<not> IsUnspendable (PkScript (outs ! (unat (op_Index op) - k))) then None else view_coins base v op)"
    if "view_ok base v" "k + length outs \<le> 2 ^ 32" for k outs v
    using that
  proof (induction outs arbitrary: k v)
    case Nil
    then show ?case by (auto simp: fun_eq_iff)
  next
    case (Cons txo outs)
    let ?op = "\<lparr>op_Hash = TxHash c tx, op_Index = of_nat k\<rparr>" and ?v = "?step (k, txo) v"
    have k: "unat (of_nat k :: u32) = k" using Cons.prems(2) by (simp add: unat_of_nat)
    have eq: "op = ?op \<longleftrightarrow> op_Hash op = TxHash c tx \<and> unat (op_Index op) = k" for op :: OutPoint
      using k by (cases op) (auto simp: unat_of_nat intro: unsigned_word_eqI)
    have ok: "view_ok base ?v"
      using Cons.prems(1) Spend_lookup_modified [OF Cons.prems(1)] assms(3)
      by (auto simp: Let_def Spend_modified IsSpent_def tf_defs intro!: view_ok_set_entry split: option.split)
    have vc: "view_coins base ?v = (if IsUnspendable (PkScript txo) then view_coins base v else (view_coins base v)(?op := None))"
      by (simp add: Let_def)
    from Cons.IH [OF ok, of "Suc k"] Cons.prems(2)
    have "view_ok base (fold ?step (enumerate (Suc k) outs) ?v)"
      and IH: "view_coins base (fold ?step (enumerate (Suc k) outs) ?v)
        = (\<lambda>op. if op_Hash op = TxHash c tx \<and> Suc k \<le> unat (op_Index op) \<and> unat (op_Index op) < Suc k + length outs
            \<and> \<not> IsUnspendable (PkScript (outs ! (unat (op_Index op) - Suc k))) then None else view_coins base ?v op)"
      by simp_all
    moreover have "view_coins base (fold ?step (enumerate (Suc k) outs) ?v) op
      = (if op_Hash op = TxHash c tx \<and> k \<le> unat (op_Index op) \<and> unat (op_Index op) < k + length (txo # outs)
            \<and> \<not> IsUnspendable (PkScript ((txo # outs) ! (unat (op_Index op) - k))) then None else view_coins base v op)" for op
      unfolding IH vc using eq [of op] by (cases "unat (op_Index op) = k") (auto simp: nth_Cons' Suc_diff_le)
    ultimately show ?case by (simp add: fun_eq_iff)
  qed
  from this [OF assms(1), of 0 "MsgTxOut tx"] assms(2)
  show "view_ok base (spend_outs c h cb tx view)"
    "view_coins base (spend_outs c h cb tx view) = (\<lambda>op. if op \<in> out_ops c tx then None else view_coins base view op)"
    unfolding spend_outs_def by (auto simp: out_ops_def tx_outs_def fun_eq_iff)
qed

lemma restore_in_law:
  assumes "view_ok base view" "stxo_Height x \<noteq> 0" "length (op_Hash (PreviousOutPoint ti)) = 32"
  shows "\<exists>v'. restore_in c ser seek hsh ti x view = Inr v' \<and> view_ok base v'
    \<and> view_coins base v' = (view_coins base view)(PreviousOutPoint ti \<mapsto> x)"
proof -
  let ?e = "\<lparr>amount = Amount x, pkScript = stxo_PkScript x, blockHeight = stxo_Height x,
               packedFlags = (if stxo_IsCoinBase x then tfModified OR tfCoinBase else tfModified)\<rparr>"
  have e: "isModified ?e" "entry_coin (Some ?e) = Some x" by (simp_all add: flag_defs tf_defs entry_coin_def stxo_of_def)
  have twice: "set_entry op e (set_entry op e' v) = set_entry op e v" for op e e' v by (simp add: set_entry_def)
  have "restore_in c ser seek hsh ti x view = Inr (set_entry (PreviousOutPoint ti) ?e view)"
    using assms(2) by (simp add: restore_in_def Let_def twice split: option.split)
  then show ?thesis using view_ok_set_entry [OF assms(1) e(1) assms(3)] e(2) by simp
qed

lemma restore_ins_law:
  assumes "view_ok base view" "\<forall>ti\<in>set tis. stxo_Height (f (PreviousOutPoint ti)) \<noteq> 0 \<and> length (op_Hash (PreviousOutPoint ti)) = 32"
  shows "\<exists>v'. restore_ins c ser seek hsh tis (map (f \<circ> PreviousOutPoint) tis @ rest) view = Inr (v', rest) \<and> view_ok base v'
    \<and> view_coins base v' = (\<lambda>op. if op \<in> PreviousOutPoint ` set tis then Some (f op) else view_coins base view op)"
  using assms
proof (induction tis arbitrary: view)
  case (Cons ti tis)
  from restore_in_law [OF Cons.prems(1), of "f (PreviousOutPoint ti)" ti c ser seek hsh] Cons.prems(2) obtain v1 where
    v1: "restore_in c ser seek hsh ti (f (PreviousOutPoint ti)) view = Inr v1" "view_ok base v1"
      "view_coins base v1 = (view_coins base view)(PreviousOutPoint ti \<mapsto> f (PreviousOutPoint ti))" by auto
  then show ?case using Cons.IH [OF v1(2)] Cons.prems(2) by (auto simp: fun_eq_iff)
qed simp

text \<open>A block whose first transaction, and no other, is a coinbase, and whose outputs are new.\<close>

definition coinbase_first :: "MsgTx list \<Rightarrow> bool" where
  "coinbase_first txs \<longleftrightarrow> (\<forall>i<length txs. IsCoinBaseTx (txs ! i) \<longleftrightarrow> i = 0)"

fun fresh_outs :: "crypto \<Rightarrow> int \<Rightarrow> MsgTx list \<Rightarrow> coins \<Rightarrow> bool" where
  "fresh_outs c h [] L \<longleftrightarrow> True"
| "fresh_outs c h (tx # txs) L \<longleftrightarrow> (\<forall>op\<in>out_ops c tx. L op = None) \<and> fresh_outs c h txs (ledger_tx c h tx L)"

lemma ledger_block_append: "ledger_block c h (txs @ txs') L = ledger_block c h txs' (ledger_block c h txs L)"
  by (simp add: ledger_block_def)

lemma can_connect_append:
  "can_connect c h (txs @ txs') L \<longleftrightarrow> can_connect c h txs L \<and> can_connect c h txs' (ledger_block c h txs L)"
  by (induction txs arbitrary: L) (auto simp: ledger_block_def)

lemma fresh_outs_append:
  "fresh_outs c h (txs @ txs') L \<longleftrightarrow> fresh_outs c h txs L \<and> fresh_outs c h txs' (ledger_block c h txs L)"
  by (induction txs arbitrary: L) (auto simp: ledger_block_def)

lemma block_spends_append:
  "block_spends c h (txs @ txs') L = block_spends c h txs L @ block_spends c h txs' (ledger_block c h txs L)"
  by (induction txs arbitrary: L) (auto simp: ledger_block_def)

lemma coinbase_first_snoc: "coinbase_first (txs @ [tx]) \<longleftrightarrow> coinbase_first txs \<and> (IsCoinBaseTx tx \<longleftrightarrow> txs = [])"
  by (auto simp: coinbase_first_def nth_append less_Suc_eq)

lemma disconnect_loop_law:
  assumes "coinbase_first txs" "can_connect c h txs L" "fresh_outs c h txs L" "view_ok base view"
    and "\<forall>x\<in>set (block_spends c h txs L). stxo_Height x \<noteq> 0" "\<forall>tx. length (TxHash c tx) = 32"
    and "\<forall>tx\<in>set txs. \<forall>op\<in>set (inputs tx). length (op_Hash op) = 32"
    and "\<forall>op. op \<notin> \<Union> (out_ops c ` set txs) \<longrightarrow> view_coins base view op = ledger_block c h txs L op"
  shows "\<exists>v'. disconnect_loop c ser seek h (rev (enumerate 0 txs)) (rev (block_spends c h txs L)) view = Inr v'
    \<and> view_ok base v' \<and> view_coins base v' = L"
  using assms
proof (induction txs arbitrary: view rule: rev_induct)
  case Nil
  then show ?case by (auto simp: ledger_block_def fun_eq_iff)
next
  case (snoc tx txs)
  let ?L = "ledger_block c h txs L"
  have cc: "can_connect c h txs L" "can_connect c h [tx] ?L" and fr: "fresh_outs c h txs L" "\<forall>op\<in>out_ops c tx. ?L op = None"
    and cb: "coinbase_first txs" "IsCoinBaseTx tx \<longleftrightarrow> txs = []"
    using snoc.prems(1-3) by (auto simp: can_connect_append fresh_outs_append coinbase_first_snoc)
  let ?v1 = "spend_outs c h (length txs = 0) tx view"
  note so = spend_outs_law [OF snoc.prems(4), of tx c h "length txs = 0"]
  have v1: "view_ok base ?v1" "view_coins base ?v1 = (\<lambda>op. if op \<in> out_ops c tx then None else view_coins base view op)"
    using so cc(2) snoc.prems(6) by auto
  obtain v2 where v2: "(if length txs = 0 then Inr (?v1, rev (block_spends c h txs L))
        else restore_ins c ser seek (TxHash c tx) (rev (MsgTxIn tx)) (rev (tx_spends tx ?L) @ rev (block_spends c h txs L)) ?v1)
        = Inr (v2, rev (block_spends c h txs L))" "view_ok base v2"
      "view_coins base v2 = (\<lambda>op. if \<not> IsCoinBaseTx tx \<and> op \<in> set (inputs tx) then ?L op else view_coins base ?v1 op)"
  proof (cases "length txs = 0")
    case True
    then show thesis using that [of ?v1] v1(1) cb(2) by auto
  next
    case False
    then have ncb: "\<not> IsCoinBaseTx tx" using cb(2) by auto
    then have live: "\<forall>op\<in>set (inputs tx). ?L op \<noteq> None" using cc(2) by (simp add: list_all_iff)
    have sp: "rev (tx_spends tx ?L) = map ((\<lambda>op. the (?L op)) \<circ> PreviousOutPoint) (rev (MsgTxIn tx))"
      using ncb by (simp add: tx_spends_def inputs_def rev_map comp_def)
    have "\<forall>ti\<in>set (rev (MsgTxIn tx)). stxo_Height (the (?L (PreviousOutPoint ti))) \<noteq> 0 \<and> length (op_Hash (PreviousOutPoint ti)) = 32"
      using snoc.prems(5,7) ncb by (auto simp: block_spends_append tx_spends_def inputs_def)
    from restore_ins_law [where f = "\<lambda>op. the (?L op)", OF v1(1) this, of c ser seek "TxHash c tx" "rev (block_spends c h txs L)"] obtain v2 where
      "restore_ins c ser seek (TxHash c tx) (rev (MsgTxIn tx)) (rev (tx_spends tx ?L) @ rev (block_spends c h txs L)) ?v1
        = Inr (v2, rev (block_spends c h txs L))" "view_ok base v2"
      "view_coins base v2 = (\<lambda>op. if op \<in> set (inputs tx) then Some (the (?L op)) else view_coins base ?v1 op)"
      unfolding sp inputs_def set_map set_rev by blast
    then show thesis using that [of v2] False ncb live by (auto simp: fun_eq_iff)
  qed
  have agree: "view_coins base v2 op = ?L op" if "op \<notin> \<Union> (out_ops c ` set txs)" for op
  proof (cases "\<not> IsCoinBaseTx tx \<and> op \<in> set (inputs tx)")
    case False
    show ?thesis
    proof (cases "op \<in> out_ops c tx")
      case True
      then show ?thesis using False v2(3) v1(2) fr(2) by auto
    next
      case out: False
      then have "view_coins base view op = ledger_tx c h tx ?L op"
        using snoc.prems(8) that by (simp add: ledger_block_def)
      also have "\<dots> = ?L op" using out False out_ops_iff [of c h tx op]
        by (auto simp: ledger_tx_def map_add_def restrict_map_def split: option.split)
      finally show ?thesis using False out v2(3) v1(2) by auto
    qed
  qed (use v2(3) in simp)
  have "\<exists>v'. disconnect_loop c ser seek h (rev (enumerate 0 txs)) (rev (block_spends c h txs L)) v2 = Inr v'
      \<and> view_ok base v' \<and> view_coins base v' = L"
    using snoc.prems(5,7) by (intro snoc.IH cb(1) cc(1) fr(1) v2(2) snoc.prems(6))
      (use agree in \<open>auto simp: block_spends_append\<close>)
  moreover have "disconnect_loop c ser seek h (rev (enumerate 0 (txs @ [tx]))) (rev (block_spends c h (txs @ [tx]) L)) view
      = disconnect_loop c ser seek h (rev (enumerate 0 txs)) (rev (block_spends c h txs L)) v2"
    using v2(1) cb(2) by (auto simp: enumerate_append_eq block_spends_append tx_spends_def Let_def split: if_split_asm)
  ultimately show ?case by simp
qed

section \<open>Loading and writing back\<close>

text \<open>Adding outputs of a transaction changes the view at these outputs only.\<close>

lemma AddTxOuts_law:
  assumes "view_ok base view" "length (TxHash c tx) = 32" "length (MsgTxOut tx) \<le> 2 ^ 32"
  shows "view_ok base (AddTxOuts c tx h view)"
    "\<forall>op. op \<notin> out_ops c tx \<longrightarrow> entries (AddTxOuts c tx h view) op = entries view op"
proof -
  have "view_ok base (fold (\<lambda>(i, txo). view_addTxOut \<lparr>op_Hash = TxHash c tx, op_Index = of_nat i\<rparr> txo cb h) ios v)
      \<and> (\<forall>op. op \<notin> out_ops c tx \<longrightarrow> entries (fold (\<lambda>(i, txo). view_addTxOut \<lparr>op_Hash = TxHash c tx, op_Index = of_nat i\<rparr> txo cb h) ios v) op = entries v op)"
    if "set ios \<subseteq> set (enumerate 0 (MsgTxOut tx))" "view_ok base v" for ios v cb
    using that
  proof (induction ios arbitrary: v)
    case (Cons io ios)
    obtain i txo where io: "io = (i, txo)" by (cases io)
    have i: "i < length (MsgTxOut tx)" "MsgTxOut tx ! i = txo" using Cons.prems(1) io by (auto simp: in_set_enumerate_eq)
    then have "unat (of_nat i :: u32) = i" using assms(3) by (simp add: unat_of_nat)
    then have out: "\<not> IsUnspendable (PkScript txo) \<Longrightarrow> \<lparr>op_Hash = TxHash c tx, op_Index = of_nat i\<rparr> \<in> out_ops c tx"
      using i by (simp add: out_ops_def tx_outs_def)
    let ?v = "view_addTxOut \<lparr>op_Hash = TxHash c tx, op_Index = of_nat i\<rparr> txo cb h v"
    have "view_ok base ?v" using Cons.prems(2) assms(2) by (auto simp: view_addTxOut_def intro!: view_ok_set_entry)
    moreover have "\<forall>op. op \<notin> out_ops c tx \<longrightarrow> entries ?v op = entries v op"
      using out by (auto simp: view_addTxOut_def set_entry_def)
    ultimately show ?case using Cons.IH [of ?v] Cons.prems(1) io by simp
  qed simp
  from this [OF order_refl assms(1)] show "view_ok base (AddTxOuts c tx h view)"
    "\<forall>op. op \<notin> out_ops c tx \<longrightarrow> entries (AddTxOuts c tx h view) op = entries view op"
    by (simp_all add: AddTxOuts_def add_outs_def)
qed

lemma view_coins_entries: "entries v op = entries v' op \<Longrightarrow> view_coins base v op = view_coins base v' op"
  by (simp add: view_coins_def LookupEntry_def)

lemma txInFlight_Some: "txInFlight c txs hsh = Some j \<Longrightarrow> j < length txs \<and> TxHash c (txs ! j) = hsh"
  by (auto simp: txInFlight_def in_set_zip dest!: map_of_SomeD)

lemma find_input_law:
  assumes "view_ok base view" "\<forall>tx. length (TxHash c tx) = 32" "\<forall>tx\<in>set (block_txs block). length (MsgTxOut tx) \<le> 2 ^ 32"
    and "find_input c block i ti (view, needed) = (view', needed')"
  shows "view_ok base view' \<and> (\<forall>op. op \<notin> \<Union> (out_ops c ` set (block_txs block)) \<longrightarrow> entries view' op = entries view op)
    \<and> set needed' \<subseteq> insert (PreviousOutPoint ti) (set needed)
    \<and> (\<forall>op\<in>set needed' - set needed. op \<in> \<Union> (out_ops c ` set (block_txs block)) \<or> entries view op = None)"
proof (cases "\<exists>j. txInFlight c (block_txs block) (op_Hash (PreviousOutPoint ti)) = Some j \<and> i \<ge> j")
  case True
  then obtain j where j: "txInFlight c (block_txs block) (op_Hash (PreviousOutPoint ti)) = Some j" "i \<ge> j" by blast
  have tx: "block_txs block ! j \<in> set (block_txs block)" using txInFlight_Some [OF j(1)] by simp
  have "view' = AddTxOuts c (block_txs block ! j) (block_Height block) view" "needed' = needed"
    using assms(4) j by (simp_all add: find_input_def Let_def)
  then show ?thesis using AddTxOuts_law [OF assms(1), of c "block_txs block ! j" "block_Height block"] assms(2,3) tx by auto
next
  case False
  then have "view' = view \<and> needed' = (if entries view (PreviousOutPoint ti) \<noteq> None then needed else needed @ [PreviousOutPoint ti])"
    using assms(4) by (auto simp: find_input_def Let_def split: option.split_asm if_split_asm)
  then show ?thesis using assms(1) by auto
qed

text \<open>The outpoints still needed are inputs of the block that the view does not hold, outputs of the block itself aside.\<close>

lemma find_inputs_law:
  assumes "view_ok base view" "\<forall>tx. length (TxHash c tx) = 32" "\<forall>tx\<in>set (block_txs block). length (MsgTxOut tx) \<le> 2 ^ 32"
    and "findInputsToFetch c block view = Inr (view', needed)"
  shows "view_ok base view'" "\<forall>op. op \<notin> \<Union> (out_ops c ` set (block_txs block)) \<longrightarrow> entries view' op = entries view op"
    "set needed \<subseteq> (\<Union>tx\<in>set (block_txs block). set (inputs tx))"
    "\<forall>op\<in>set needed. op \<in> \<Union> (out_ops c ` set (block_txs block)) \<or> entries view op = None"
proof -
  let ?O = "\<Union> (out_ops c ` set (block_txs block))" and ?I = "\<Union>tx\<in>set (block_txs block). set (inputs tx)"
  define P where "P = (\<lambda>(v, n). view_ok base v \<and> (\<forall>op. op \<notin> ?O \<longrightarrow> entries v op = entries view op) \<and> set n \<subseteq> ?I
      \<and> (\<forall>op\<in>set n. op \<in> ?O \<or> entries view op = None))"
  have one: "P (find_input c block i ti vn)" if "P vn" "ti \<in> set (MsgTxIn tx)" "tx \<in> set (block_txs block)" for i ti vn tx
  proof -
    obtain v n where vn: "vn = (v, n)" by (cases vn)
    obtain v' n' where f: "find_input c block i ti (v, n) = (v', n')" by (cases "find_input c block i ti (v, n)")
    have mem: "PreviousOutPoint ti \<in> ?I" using that(2,3) by (auto simp: inputs_def)
    have p: "view_ok base v" "\<forall>op. op \<notin> ?O \<longrightarrow> entries v op = entries view op" "set n \<subseteq> ?I" "\<forall>op\<in>set n. op \<in> ?O \<or> entries view op = None"
      using that(1) by (simp_all add: P_def vn)
    note q = find_input_law [OF p(1) assms(2,3) f]
    have "set n' \<subseteq> ?I" using q p(3) mem by blast
    moreover have "op \<in> ?O \<or> entries view op = None" if "op \<in> set n'" for op
      using q p(2,4) that by (cases "op \<in> set n"; cases "op \<in> ?O") auto
    ultimately show ?thesis using q p(2) by (simp add: P_def vn f)
  qed
  have ins: "P (fold (find_input c block i) tis vn)" if "P vn" "set tis \<subseteq> set (MsgTxIn tx)" "tx \<in> set (block_txs block)" for i tis vn tx
    using that
  proof (induction tis arbitrary: vn)
    case (Cons ti tis)
    show ?case using Cons.IH [OF one [OF Cons.prems(1), of ti tx i]] Cons.prems by simp
  qed simp
  have "P (fold (\<lambda>(i, tx). fold (find_input c block i) (MsgTxIn tx)) itxs vn)" if "P vn" "snd ` set itxs \<subseteq> set (block_txs block)" for itxs vn
    using that
  proof (induction itxs arbitrary: vn)
    case (Cons itx itxs)
    obtain i tx where itx: "itx = (i, tx)" by (cases itx)
    show ?case using Cons.IH [OF ins [OF Cons.prems(1) order_refl, of tx i]] Cons.prems(2) itx by simp
  qed simp
  moreover have "snd ` set (enumerate 0 (tl (block_txs block))) \<subseteq> set (block_txs block)"
  proof -
    have "snd ` set (enumerate 0 (tl (block_txs block))) = set (tl (block_txs block))" by (simp flip: set_map)
    then show ?thesis by (cases "block_txs block") auto
  qed
  moreover have "P (view, [])" using assms(1) by (simp add: P_def)
  ultimately have "P (fold (\<lambda>(i, tx). fold (find_input c block i) (MsgTxIn tx)) (enumerate 0 (tl (block_txs block))) (view, []))" by blast
  then have "P (view', needed)" using assms(4) by (simp add: findInputsToFetch_def split: if_split_asm)
  then show "view_ok base view'" "\<forall>op. op \<notin> ?O \<longrightarrow> entries view' op = entries view op" "set needed \<subseteq> ?I"
    "\<forall>op\<in>set needed. op \<in> ?O \<or> entries view op = None" by (auto simp: P_def)
qed

lemma load_entries: "entries (fold (\<lambda>(op, e) view. view\<lparr>entries := (entries view)(op \<mapsto> e)\<rparr>) (zip ops (map f ops)) view)
    = (\<lambda>op. if op \<in> set ops then Some (f op) else entries view op)"
  by (induction ops arbitrary: view) (auto simp: fun_eq_iff)

lemma fetchInputUtxos_law:
  assumes "cache_inv c ser s" "view_ok (cache_coins c ser s) view" "\<forall>tx. length (TxHash c tx) = 32"
    and "\<forall>tx\<in>set (block_txs block). length (MsgTxOut tx) \<le> 2 ^ 32" "\<forall>tx\<in>set (block_txs block). \<forall>op\<in>set (inputs tx). length (op_Hash op) = 32"
    and "block_txs block \<noteq> []"
  shows "\<exists>v' s'. fetchInputUtxos c ser bad block (view, s) = Inr (v', s') \<and> cache_inv c ser s' \<and> cache_coins c ser s' = cache_coins c ser s
    \<and> view_ok (cache_coins c ser s) v' \<and> (\<forall>op. op \<notin> \<Union> (out_ops c ` set (block_txs block)) \<longrightarrow>
         view_coins (cache_coins c ser s) v' op = view_coins (cache_coins c ser s) view op)"
proof -
  let ?C = "cache_coins c ser s" and ?O = "\<Union> (out_ops c ` set (block_txs block))"
  obtain v1 needed where f: "findInputsToFetch c block view = Inr (v1, needed)"
    using assms(6) by (auto simp: findInputsToFetch_def) (metis surj_pair)
  note v1 = find_inputs_law [OF assms(2,3,4) f]
  have len: "\<forall>op\<in>set needed. length (op_Hash op) = 32" using v1(3) assms(5) by auto
  show ?thesis
  proof (cases "needed = []")
    case True
    then show ?thesis using f v1(1,2) assms(1) view_coins_entries [of v1 _ view]
      by (auto simp: fetchInputUtxos_def fetchUtxosFromCache_def)
  next
    case False
    obtain s' where s': "fetchEntries c ser bad needed s = Inr (map (entry_for c ser s) needed, s')" "cache_inv c ser s'" "cache_coins c ser s' = ?C"
      using fetch_many [OF assms(1) len, of bad] by auto
    define v' where "v' = fold (\<lambda>(op, e) view. view\<lparr>entries := (entries view)(op \<mapsto> e)\<rparr>) (zip needed (map (entry_for c ser s) needed)) v1"
    have ent: "entries v' = (\<lambda>op. if op \<in> set needed then Some (entry_for c ser s op) else entries v1 op)"
      unfolding v'_def by (rule load_entries)
    have coin: "op \<in> set needed \<Longrightarrow> entry_coin (entry_for c ser s op) = ?C op" for op
      using entry_for_coin(1) [OF assms(1)] len by auto
    have "view_ok ?C v'" unfolding view_ok_def
    proof (intro conjI allI impI)
      have "dom (entries v') \<subseteq> set needed \<union> dom (entries v1)" by (auto simp: ent split: if_split_asm)
      then show "finite (dom (entries v'))" using v1(1) by (auto simp: view_ok_def intro: finite_subset)
    next
      fix op assume "entries v' op \<noteq> None"
      then show "length (op_Hash op) = 32" using len v1(1) by (auto simp: ent view_ok_def split: if_split_asm)
    next
      fix op e assume e: "LookupEntry v' op = Some e" "\<not> isModified e"
      have "\<not> IsSpent e \<and> ?C op = Some (stxo_of e)"
      proof (cases "op \<in> set needed")
        case True
        then have "entry_for c ser s op = Some e" using e(1) by (auto simp: LookupEntry_def ent split: option.split_asm)
        moreover from this have "\<not> IsSpent e" using entry_for_coin(2) [OF assms(1)] len True e(2) by blast
        ultimately show ?thesis using coin [OF True] by (simp add: entry_coin_def)
      next
        case False
        then have "LookupEntry v1 op = Some e" using e(1) by (simp add: LookupEntry_def ent)
        then show ?thesis using v1(1) e(2) by (auto simp: view_ok_def)
      qed
      then show "\<not> IsSpent e" "?C op = Some (stxo_of e)" by auto
    qed
    moreover have "view_coins ?C v' op = view_coins ?C view op" if "op \<notin> ?O" for op
    proof (cases "op \<in> set needed")
      case True
      then have "entries view op = None" using v1(4) that by auto
      then show ?thesis using coin [OF True] True by (cases "entry_for c ser s op") (auto simp: view_coins_def LookupEntry_def ent)
    next
      case False
      then have "entries v' op = entries view op" using v1(2) that by (simp add: ent)
      then show ?thesis by (rule view_coins_entries)
    qed
    ultimately show ?thesis using False f s' by (auto simp: fetchInputUtxos_def fetchUtxosFromCache_def v'_def)
  qed
qed

text \<open>Writing a view to the bucket it was loaded from gives the coins of the view.\<close>

lemma put_entries_law:
  assumes "distinct ops" "\<forall>op\<in>set ops. length (op_Hash op) = 32"
    and "\<forall>op\<in>set ops. \<forall>e. LookupEntry view op = Some e \<longrightarrow> isModified e \<longrightarrow> \<not> IsSpent e \<longrightarrow> storable (stxo_of e)" "key_laws c ser" "db_ok c ser b"
  shows "\<exists>b'. fold_r (put_view_entry c view) ops b = Inr b' \<and> db_ok c ser b'
    \<and> (\<forall>op. length (op_Hash op) = 32 \<longrightarrow> bucket_coins c ser b' op =
         (if op \<in> set ops then (case LookupEntry view op of None \<Rightarrow> bucket_coins c ser b op
            | Some e \<Rightarrow> if isModified e then entry_coin (Some e) else bucket_coins c ser b op) else bucket_coins c ser b op))"
proof -
  define oes where "oes = concat (map (\<lambda>op. case LookupEntry view op of None \<Rightarrow> [] | Some e \<Rightarrow> if isModified e then [(op, Some e)] else []) ops)"
  have step: "put_view_entry c view op b = fold_r (write_entry c) (case LookupEntry view op of None \<Rightarrow> [] | Some e \<Rightarrow> if isModified e then [(op, Some e)] else []) b" for op b
    by (auto simp: put_view_entry_def write_entry_def rbind_def split: option.split sum.split)
  have "fold_r (put_view_entry c view) ops b = fold_r (write_entry c) oes b"
    unfolding oes_def by (induction ops arbitrary: b) (auto simp: step fold_r_append rbind_def split: sum.split)
  moreover have keys: "set (map fst oes) \<subseteq> set ops" "distinct (map fst oes)"
  proof -
    show "set (map fst oes) \<subseteq> set ops" by (auto simp: oes_def split: option.split_asm if_split_asm)
    show "distinct (map fst oes)" unfolding oes_def using assms(1)
      by (induction ops) (auto split: option.split if_split_asm option.split_asm)
  qed
  moreover have look: "map_of oes op = (if op \<in> set ops then (case LookupEntry view op of None \<Rightarrow> None | Some e \<Rightarrow> if isModified e then Some (Some e) else None) else None)" for op
    unfolding oes_def using assms(1) by (induction ops) (auto simp: map_add_def split: option.split)
  moreover have "\<forall>(op, e)\<in>set oes. length (op_Hash op) = 32 \<and> (\<forall>e'. e = Some e' \<longrightarrow> \<not> IsSpent e' \<longrightarrow> isModified e' \<longrightarrow> storable (stxo_of e'))"
    using assms(2,3) by (auto simp: oes_def split: option.split_asm if_split_asm)
  ultimately show ?thesis
    using write_entries [of oes c ser b] assms(4,5) by (auto simp: entry_after_def entry_coin_def split: option.split)
qed

section \<open>Detaching\<close>

lemma length_block_spends:
  assumes "coinbase_first txs"
  shows "length (block_spends c h txs L) = sum_list (map (\<lambda>tx. length (MsgTxIn tx)) (tl txs))"
  using assms
proof (induction txs rule: rev_induct)
  case (snoc tx txs)
  then have "coinbase_first txs" "IsCoinBaseTx tx \<longleftrightarrow> txs = []" by (simp_all add: coinbase_first_snoc)
  then show ?case using snoc.IH
    by (cases "txs = []") (simp_all add: block_spends_append tx_spends_def inputs_def)
qed simp

lemma connect_input_lengths:
  assumes "can_connect c h txs L" "\<forall>op. L op \<noteq> None \<longrightarrow> length (op_Hash op) = 32" "\<forall>tx. length (TxHash c tx) = 32" "tx \<in> set txs" "op \<in> set (inputs tx)"
  shows "length (op_Hash op) = 32"
  using assms
proof (induction txs arbitrary: L)
  case (Cons t txs)
  show ?case
  proof (cases "tx = t")
    case True
    show ?thesis
    proof (cases "IsCoinBaseTx tx")
      case True
      then show ?thesis using Cons.prems(5) by (auto simp: IsCoinBaseTx_def Let_def inputs_def zeroHash_def length_Suc_conv split: if_split_asm)
    next
      case False
      then show ?thesis using Cons.prems True by (auto simp: list_all_iff)
    qed
  next
    case False
    have "ledger_tx c h t L op' = Some x \<Longrightarrow> length (op_Hash op') = 32" for op' x
      using Cons.prems(2,3) by (auto dest!: ledger_tx_Some tx_outs_hash)
    then show ?thesis using Cons.IH [of "ledger_tx c h t L"] Cons.prems False by auto
  qed
qed simp

text \<open>A block that fits on a ledger, and the conditions under which it can be stored and taken off again.\<close>

definition block_fits :: "crypto \<Rightarrow> Block \<Rightarrow> coins \<Rightarrow> bool" where
  "block_fits c b L \<longleftrightarrow> block_txs b \<noteq> [] \<and> coinbase_first (block_txs b) \<and> can_connect c (block_Height b) (block_txs b) L
     \<and> fresh_outs c (block_Height b) (block_txs b) L \<and> storable_block b
     \<and> (\<forall>x\<in>set (block_spends c (block_Height b) (block_txs b) L). stxo_Height x \<noteq> 0)"

definition good_coins :: "coins \<Rightarrow> bool" where
  "good_coins L \<longleftrightarrow> (\<forall>op x. L op = Some x \<longrightarrow> storable x \<and> length (op_Hash op) = 32)"

lemma good_coins_block:
  assumes "good_coins L" "block_fits c b L" "\<forall>tx. length (TxHash c tx) = 32"
  shows "good_coins (ledger_block c (block_Height b) (block_txs b) L)"
  using assms tx_outs_storable [of b] unfolding good_coins_def block_fits_def by (auto dest!: ledger_block_Some dest: tx_outs_hash)

definition order_ok :: "(UtxoViewpoint \<Rightarrow> OutPoint list) \<Rightarrow> bool" where
  "order_ok order \<longleftrightarrow> (\<forall>v. finite (dom (entries v)) \<longrightarrow> distinct (order v) \<and> set (order v) = dom (entries v))"

lemma commit_law:
  assumes "view_ok base view" "view_coins base view = L"
  shows "view_ok L (view_commit view)" "view_coins L (view_commit view) = L"
proof -
  have look: "LookupEntry (view_commit view) op = (case LookupEntry view op of None \<Rightarrow> None
      | Some e \<Rightarrow> if isModified e \<and> IsSpent e then None else Some (e\<lparr>packedFlags := packedFlags e XOR tfModified\<rparr>))" for op
    by (auto simp: LookupEntry_def view_commit_def split: option.split)
  have flags: "IsSpent (e\<lparr>packedFlags := packedFlags e XOR tfModified\<rparr>) = IsSpent e"
      "stxo_of (e\<lparr>packedFlags := packedFlags e XOR tfModified\<rparr>) = stxo_of e" for e
    by (simp_all add: flag_defs stxo_of_def bit.conj_xor_distrib2) (simp_all add: tf_defs)
  have val: "\<not> IsSpent e' \<and> L op = Some (stxo_of e')" if "LookupEntry (view_commit view) op = Some e'" for op e'
  proof -
    from that obtain e where e: "LookupEntry view op = Some e" "\<not> (isModified e \<and> IsSpent e)" "e' = e\<lparr>packedFlags := packedFlags e XOR tfModified\<rparr>"
      by (auto simp: look split: option.split_asm if_split_asm)
    then have "\<not> IsSpent e" using assms(1) by (auto simp: view_ok_def)
    then show ?thesis using assms(2) e(1,3) flags by (auto simp: view_coins_def entry_coin_def)
  qed
  have "dom (entries (view_commit view)) \<subseteq> dom (entries view)"
    by (auto simp: view_commit_def split: option.split_asm)
  moreover from this have "\<forall>op. entries (view_commit view) op \<noteq> None \<longrightarrow> length (op_Hash op) = 32" using assms(1) by (auto simp: view_ok_def)
  ultimately show "view_ok L (view_commit view)" using assms(1) val by (auto simp: view_ok_def intro: finite_subset)
  show "view_coins L (view_commit view) = L" using val by (auto simp: fun_eq_iff view_coins_def entry_coin_def split: option.split)
qed

lemma detach_law:
  assumes "cache_inv c ser s" "key_laws c ser" "\<forall>b. length (sha256 c b) = 32" "order_ok order" "good_coins L" "block_fits c block L"
    and "cache_coins c ser s = ledger_block c (block_Height block) (block_txs block) L"
    and "view_ok (cache_coins c ser s) view" "view_coins (cache_coins c ser s) view = cache_coins c ser s"
  shows "\<exists>v' s'. detach_block c ser bad seek order now block (block_spends c (block_Height block) (block_txs block) L) (view, s) = Inr (v', s')
    \<and> cache_inv c ser s' \<and> cache_coins c ser s' = L \<and> view_ok L v' \<and> view_coins L v' = L"
proof -
  let ?h = "block_Height block" and ?txs = "block_txs block" and ?C = "cache_coins c ser s"
  have hash: "\<forall>tx. length (TxHash c tx) = 32" using assms(3) by (simp add: TxHash_def DoubleHashB_def)
  have fits: "?txs \<noteq> []" "coinbase_first ?txs" "can_connect c ?h ?txs L" "fresh_outs c ?h ?txs L"
      "\<forall>x\<in>set (block_spends c ?h ?txs L). stxo_Height x \<noteq> 0" using assms(6) by (auto simp: block_fits_def)
  have lens: "\<forall>tx\<in>set ?txs. \<forall>op\<in>set (inputs tx). length (op_Hash op) = 32"
    using connect_input_lengths [OF fits(3) _ hash] assms(5) by (auto simp: good_coins_def)
  have outs: "length (MsgTxOut tx) \<le> 2 ^ 32" if "tx \<in> set txs" "can_connect c ?h txs M" for tx txs M
    using that by (induction txs arbitrary: M) auto
  obtain v1 s1 where f: "fetchInputUtxos c ser bad block (view, s) = Inr (v1, s1)" "cache_inv c ser s1" "cache_coins c ser s1 = ?C"
      "view_ok ?C v1" "\<forall>op. op \<notin> \<Union> (out_ops c ` set ?txs) \<longrightarrow> view_coins ?C v1 op = ?C op"
    using fetchInputUtxos_law [OF assms(1,8) hash _ lens fits(1), of bad] outs fits(3) assms(9) by auto
  obtain v2 where v2: "disconnect_loop c ser seek ?h (rev (enumerate 0 ?txs)) (rev (block_spends c ?h ?txs L)) v1 = Inr v2"
      "view_ok ?C v2" "view_coins ?C v2 = L"
    using disconnect_loop_law [OF fits(2-4) f(4) fits(5) hash lens, of ser seek] f(5) unfolding assms(7) by blast
  define v3 where "v3 = SetBestHash (PrevBlock (Header (msgBlock block))) v2"
  have ent3: "entries v3 = entries v2" by (simp add: v3_def SetBestHash_def)
  have v3: "disconnectTransactions c ser seek block (block_spends c ?h ?txs L) v1 = Inr v3" "view_ok ?C v3" "view_coins ?C v3 = L"
    using v2 fits(1) length_block_spends [OF fits(2)] ent3
    by (simp_all add: disconnectTransactions_def countSpentOutputs_def v3_def [symmetric] view_ok_def LookupEntry_def view_coins_def [abs_def])
  have good: "good_coins ?C" using good_coins_block [OF assms(5,6) hash] assms(7) by simp
  obtain s2 where s2: "flush c FlushRequired (PrevBlock (Header (msgBlock block))) now s1 = Inr s2" "cache_inv c ser s2" "cache_coins c ser s2 = ?C"
      "ms_keys (cachedEntries s2) = []"
    using flush_law [OF f(2) _ assms(2), of "PrevBlock (Header (msgBlock block))" now] good f(3)
    by (auto simp: flush_def good_coins_def)
  let ?b = "utxoSet (cache_db s2)"
  have none: "ms_get (cachedEntries s2) op = None" for op using s2(4) by (simp add: ms_get_None)
  have base: "bucket_coins c ser ?b op = ?C op" if "length (op_Hash op) = 32" for op
    using that none fun_cong [OF s2(3), of op] by (simp add: cache_coins_def [of c ser s2])
  have ord: "distinct (order v3)" "set (order v3) = dom (entries v3)" using assms(4) v3(2) by (auto simp: order_ok_def view_ok_def)
  have dbok: "db_ok c ser ?b" using s2(2) by (simp add: cache_inv_def)
  have olen: "\<forall>op\<in>set (order v3). length (op_Hash op) = 32" using ord(2) v3(2) by (auto simp: view_ok_def)
  have "\<forall>op\<in>set (order v3). \<forall>e. LookupEntry v3 op = Some e \<longrightarrow> isModified e \<longrightarrow> \<not> IsSpent e \<longrightarrow> storable (stxo_of e)"
  proof (intro ballI allI impI)
    fix op e assume "LookupEntry v3 op = Some e" "\<not> IsSpent e"
    then have "L op = Some (stxo_of e)" using v3(3) by (auto simp: view_coins_def entry_coin_def)
    then show "storable (stxo_of e)" using assms(5) by (auto simp: good_coins_def)
  qed
  from put_entries_law [OF ord(1) olen this assms(2) dbok] obtain b' where b': "dbPutUtxoView c (order v3) v3 ?b = Inr b'" "db_ok c ser b'"
      "\<forall>op. length (op_Hash op) = 32 \<longrightarrow> bucket_coins c ser b' op =
         (if op \<in> set (order v3) then (case LookupEntry v3 op of None \<Rightarrow> bucket_coins c ser ?b op
            | Some e \<Rightarrow> if isModified e then entry_coin (Some e) else bucket_coins c ser ?b op) else bucket_coins c ser ?b op)"
    by (auto simp: dbPutUtxoView_def)
  define s3 where "s3 = s2\<lparr>cache_db := (cache_db s2)\<lparr>utxoSet := b'\<rparr>\<rparr>"
  have "bucket_coins c ser b' op = L op" if len: "length (op_Hash op) = 32" for op
  proof (cases "LookupEntry v3 op")
    case None
    then have "bucket_coins c ser b' op = ?C op" using b'(3) len base [OF len] by simp
    then show ?thesis using None v3(3) by (auto simp: view_coins_def)
  next
    case (Some e)
    then have "op \<in> set (order v3)" using ord(2) by (auto simp: LookupEntry_def split: option.split_asm)
    moreover have "\<not> isModified e \<Longrightarrow> ?C op = entry_coin (Some e)" using v3(2) Some by (auto simp: view_ok_def entry_coin_def)
    ultimately have "bucket_coins c ser b' op = entry_coin (Some e)" using b'(3) len base [OF len] Some by auto
    then show ?thesis using Some v3(3) by (auto simp: view_coins_def)
  qed
  then have "cache_coins c ser s3 = L"
    using assms(5) none by (auto simp: fun_eq_iff cache_coins_def s3_def good_coins_def split: option.split) (metis not_None_eq)
  moreover have "cache_inv c ser s3" using s2(2) none b'(2) by (simp add: cache_inv_def s3_def)
  moreover have "detach_block c ser bad seek order now block (block_spends c ?h ?txs L) (view, s) = Inr (view_commit v3, s3)"
    using f(1) v3(1) s2(1) b'(1) by (simp add: detach_block_def s3_def)
  ultimately show ?thesis using commit_law [OF v3(2,3)] by auto
qed

text \<open>The blocks of a chain that fit one after the other, and their spent outputs.\<close>

fun chain_fits :: "crypto \<Rightarrow> Block list \<Rightarrow> coins \<Rightarrow> bool" where
  "chain_fits c [] L \<longleftrightarrow> True"
| "chain_fits c (b # bs) L \<longleftrightarrow> block_fits c b L \<and> chain_fits c bs (ledger_block c (block_Height b) (block_txs b) L)"

fun chain_spends :: "crypto \<Rightarrow> Block list \<Rightarrow> coins \<Rightarrow> SpentTxOut list list" where
  "chain_spends c [] L = []"
| "chain_spends c (b # bs) L = block_spends c (block_Height b) (block_txs b) L
     # chain_spends c bs (ledger_block c (block_Height b) (block_txs b) L)"

text \<open>The loop of \<open>reorganizeChain\<close> over the blocks to detach, with the outputs they have spent.\<close>

definition detach_blocks :: "crypto \<Rightarrow> (bytes \<Rightarrow> bytes) \<Rightarrow> nat \<Rightarrow> (bytes \<Rightarrow> (bytes \<times> bytes) option) \<Rightarrow> (UtxoViewpoint \<Rightarrow> OutPoint list) \<Rightarrow> int
    \<Rightarrow> (Block \<times> SpentTxOut list) list \<Rightarrow> bytes \<Rightarrow> utxoCache \<Rightarrow> (UtxoViewpoint \<times> utxoCache) rule" where
  "detach_blocks c ser bad seek order now bs tip cache =
     fold_r (\<lambda>(b, stxos). detach_block c ser bad seek order now b stxos) bs (SetBestHash tip NewUtxoViewpoint, cache)"

lemma detach_all:
  assumes "cache_inv c ser s" "key_laws c ser" "\<forall>b. length (sha256 c b) = 32" "order_ok order" "good_coins L" "chain_fits c bs L"
    and "cache_coins c ser s = chain_ledger c bs L"
    and "view_ok (cache_coins c ser s) view" "view_coins (cache_coins c ser s) view = cache_coins c ser s"
  shows "\<exists>v' s'. fold_r (\<lambda>(b, stxos). detach_block c ser bad seek order now b stxos) (rev (zip bs (chain_spends c bs L))) (view, s) = Inr (v', s')
    \<and> cache_inv c ser s' \<and> cache_coins c ser s' = L \<and> view_ok L v' \<and> view_coins L v' = L"
  using assms
proof (induction bs arbitrary: L)
  case (Cons b bs)
  have hash: "\<forall>tx. length (TxHash c tx) = 32" using assms(3) by (simp add: TxHash_def DoubleHashB_def)
  let ?L = "ledger_block c (block_Height b) (block_txs b) L"
  from Cons.IH [of ?L] Cons.prems good_coins_block [OF Cons.prems(5) _ hash] obtain v1 s1 where
    1: "fold_r (\<lambda>(b, stxos). detach_block c ser bad seek order now b stxos) (rev (zip bs (chain_spends c bs ?L))) (view, s) = Inr (v1, s1)"
      "cache_inv c ser s1" "cache_coins c ser s1 = ?L" "view_ok ?L v1" "view_coins ?L v1 = ?L" by auto
  from detach_law [OF 1(2) Cons.prems(2-5), of b v1 bad seek now] Cons.prems(6) 1(3-5) show ?case
    by (auto simp: fold_r_append 1(1))
qed auto

lemma new_view: "view_ok base (SetBestHash h NewUtxoViewpoint)" "view_coins base (SetBestHash h NewUtxoViewpoint) = base"
  by (simp_all add: view_ok_def view_coins_def [abs_def] LookupEntry_def SetBestHash_def NewUtxoViewpoint_def)

lemma stxos_storable:
  assumes "block_fits c b L" "good_coins L" "\<forall>tx. length (TxHash c tx) = 32"
  shows "\<forall>x\<in>set (block_spends c (block_Height b) (block_txs b) L). storable x"
proof -
  have "storable x" if "x \<in> set (block_spends c h txs M)" "can_connect c h txs M" "\<forall>op y. M op = Some y \<longrightarrow> storable y"
      "\<forall>tx\<in>set txs. \<forall>op y. tx_outs c h tx op = Some y \<longrightarrow> storable y" for txs x M h
    using that
  proof (induction txs arbitrary: M)
    case (Cons tx txs)
    have led: "\<forall>op y. ledger_tx c h tx M op = Some y \<longrightarrow> storable y" using Cons.prems(3,4) by (auto dest!: ledger_tx_Some)
    show ?case
    proof (cases "x \<in> set (tx_spends tx M)")
      case True
      then obtain op where "op \<in> set (inputs tx)" "x = the (M op)" "\<not> IsCoinBaseTx tx" by (auto simp: tx_spends_def split: if_split_asm)
      then show ?thesis using Cons.prems(2,3) by (auto simp: list_all_iff)
    next
      case False
      then show ?thesis using Cons.IH [OF _ _ led] Cons.prems by auto
    qed
  qed simp
  from this [of _ "block_Height b" "block_txs b" L] show ?thesis
    using assms tx_outs_storable [of b] by (auto simp: block_fits_def good_coins_def)
qed

section \<open>Properties\<close>



section \<open>Witnesses\<close>

lemma order_exists: "\<exists>order. order_ok order"
proof -
  have "\<forall>v. \<exists>l. finite (dom (entries v)) \<longrightarrow> distinct l \<and> set l = dom (entries v)"
    using finite_distinct_list [of "dom (entries _)"] by (metis (no_types))
  then show ?thesis unfolding order_ok_def by (rule choice)
qed

lemma mint_block_fits: "block_fits chain_crypto mint_block Map.empty"
proof -
  have h: "hd (TxHash chain_crypto mint_tx) \<noteq> hd (TxHash chain_crypto move_tx)"
    unfolding hd_TxHash by (simp add: mint_tx_def move_tx_def)
  have "ledger_tx chain_crypto 5 mint_tx Map.empty op = None" if "op \<in> out_ops chain_crypto move_tx" for op
    using that h by (auto simp: ledger_tx_def out_ops_def tx_outs_def map_add_def split: if_split_asm)
  then have "fresh_outs chain_crypto 5 [mint_tx, move_tx] Map.empty" by simp
  moreover have "coinbase_first [mint_tx, move_tx]" using mint_txs(1,2) by (simp add: coinbase_first_def less_Suc_eq)
  moreover have "stxo_Height x \<noteq> 0" if "x \<in> set (block_spends chain_crypto 5 [mint_tx, move_tx] Map.empty)" for x
    using that mint_txs(1,2,4,5) by (auto simp: tx_spends_def ledger_tx_def map_add_def tx_outs_def coin_def split: if_split_asm)
  ultimately show ?thesis using mint_block_connects mint_storable by (simp add: block_fits_def mint_block_simps)
qed



end
