(* ===== verification/Chain_Work.thy ===== *)
theory Chain_Work
  imports Wire_Block
begin

unbundle bit_operations_syntax

text \<open>
  Targets and work (\<open>btcd/blockchain/internal/workmath/difficulty.go\<close>): the number a block hash stands for, the
  compact form of a target, and the work a target asks for. A compact form keeps at least the fifteen leading bits
  of a number, rounds down and is a fixed point of the two conversions.
\<close>

section \<open>Conversions\<close>

definition SetBytes :: "bytes \<Rightarrow> int" where
  "SetBytes bs = fold (\<lambda>b n. n * 256 + uint b) bs 0"

definition HashToBig :: "bytes \<Rightarrow> int" where
  "HashToBig hash =
     (let blen = length hash in
      SetBytes (fold (\<lambda>i buf. buf[i := buf ! (blen - 1 - i), blen - 1 - i := buf ! i]) [0..<blen div 2] hash))"

definition CompactToBig :: "u32 \<Rightarrow> int" where
  "CompactToBig compact =
     (let mantissa = compact AND 0x007fffff;
          isNegative = (compact AND 0x00800000 \<noteq> 0);
          exponent = unat (drop_bit 24 compact);
          bn = (if exponent \<le> 3 then uint (drop_bit (8 * (3 - exponent)) mantissa)
                else push_bit (8 * (exponent - 3)) (uint mantissa))
      in if isNegative then - bn else bn)"

text \<open>The number of bytes of a magnitude (\<open>len(n.Bytes())\<close>).\<close>

fun big_len :: "nat \<Rightarrow> nat" where
  "big_len n = (if n = 0 then 0 else Suc (big_len (n div 256)))"

definition BigToCompact :: "int \<Rightarrow> u32" where
  "BigToCompact n =
     (if n = 0 then 0 else
      let exponent = big_len (nat \<bar>n\<bar>);
          mantissa = (if exponent \<le> 3 then push_bit (8 * (3 - exponent)) (of_int \<bar>n\<bar> :: u32)
                      else of_int \<bar>drop_bit (8 * (exponent - 3)) n\<bar>);
          carry = (mantissa AND 0x00800000 \<noteq> 0);
          exponent = (if carry then exponent + 1 else exponent);
          mantissa = (if carry then drop_bit 8 mantissa else mantissa);
          compact = push_bit 24 (of_nat exponent) OR mantissa
      in if n < 0 then compact OR 0x00800000 else compact)"

definition CalcWork :: "u32 \<Rightarrow> int" where
  "CalcWork bits =
     (let difficultyNum = CompactToBig bits in
      if difficultyNum \<le> 0 then 0 else 2 ^ 256 div (difficultyNum + 1))"

declare big_len.simps [simp del]

section \<open>The number of a hash\<close>

lemma SetBytes_rev: "fold (\<lambda>b n. n * 256 + uint b) (rev bs) 0 = int (le_val bs)"
  by (induction bs) (simp_all add: fold_append)

text \<open>Swapping the ends of a buffer from outside in reverses it.\<close>

lemma swap_ends:
  fixes xs :: "'a list"
  defines "n \<equiv> length xs"
  defines "ys k \<equiv> fold (\<lambda>i buf. buf[i := buf ! (n - 1 - i), n - 1 - i := buf ! i]) [0..<k] xs"
  assumes "k \<le> n div 2"
  shows "length (ys k) = n \<and> (\<forall>i<n. ys k ! i = (if i < k \<or> n - k \<le> i then xs ! (n - 1 - i) else xs ! i))"
  using assms(3)
proof (induction k)
  case 0
  show ?case by (simp add: ys_def n_def)
next
  case (Suc k)
  have k: "k < n - 1 - k" using Suc.prems by linarith
  have step: "ys (Suc k) = (ys k)[k := ys k ! (n - 1 - k), n - 1 - k := ys k ! k]"
    by (simp add: ys_def)
  have len: "length (ys k) = n" and at: "\<And>i. i < n \<Longrightarrow> ys k ! i = (if i < k \<or> n - k \<le> i then xs ! (n - 1 - i) else xs ! i)"
    using Suc by auto
  have "ys (Suc k) ! i = (if i < Suc k \<or> n - Suc k \<le> i then xs ! (n - 1 - i) else xs ! i)" if i: "i < n" for i
  proof -
    consider "i = k" | "i = n - 1 - k" | "i \<noteq> k" "i \<noteq> n - 1 - k" by blast
    then show ?thesis
    proof cases
      case 1
      with k have "\<not> (n - 1 - k < k \<or> n - k \<le> n - 1 - k)" by linarith
      with 1 k len at [of "n - 1 - k"] show ?thesis by (simp add: step)
    next
      case 2
      have "\<not> (k < k \<or> n - k \<le> k)" and "n - 1 - (n - 1 - k) = k" using k by linarith+
      with 2 k len at [of k] show ?thesis by (simp add: step)
    next
      case 3
      then have "(i < Suc k \<or> n - Suc k \<le> i) = (i < k \<or> n - k \<le> i)" using k by linarith
      with 3 at [OF i] show ?thesis by (simp add: step)
    qed
  qed
  then show ?case using len by (simp add: step)
qed

lemma HashToBig_le_val: "HashToBig hash = int (le_val hash)"
proof -
  define n where "n = length hash"
  define ys where "ys = fold (\<lambda>i buf. buf[i := buf ! (n - 1 - i), n - 1 - i := buf ! i]) [0..<n div 2] hash"
  have ys: "length ys = n"
    "\<And>i. i < n \<Longrightarrow> ys ! i = (if i < n div 2 \<or> n - n div 2 \<le> i then hash ! (n - 1 - i) else hash ! i)"
    using swap_ends [of "n div 2" hash] by (auto simp: n_def ys_def)
  have "ys = rev hash"
  proof (rule nth_equalityI)
    show "length ys = length (rev hash)" by (simp add: ys n_def)
    show "ys ! i = rev hash ! i" if "i < length ys" for i
    proof (cases "i < n div 2 \<or> n - n div 2 \<le> i")
      case True
      with that ys show ?thesis by (simp add: rev_nth n_def)
    next
      case False
      then have "n - Suc i = i" by linarith
      with False that ys show ?thesis by (simp add: rev_nth n_def)
    qed
  qed
  then show ?thesis
    unfolding HashToBig_def Let_def SetBytes_def n_def [symmetric] ys_def [symmetric] by (simp add: SetBytes_rev)
qed

section \<open>The compact form\<close>

lemma big_len_0 [simp]: "big_len 0 = 0"
  by (simp add: big_len.simps)

lemma big_len_bounds:
  assumes "0 < n"
  shows "256 ^ (big_len n - 1) \<le> n \<and> n < 256 ^ big_len n \<and> 0 < big_len n"
  using assms
proof (induction n rule: big_len.induct)
  case (1 n)
  have eq: "big_len n = Suc (big_len (n div 256))" using 1 by (subst big_len.simps) simp
  show ?case
  proof (cases "n div 256 = 0")
    case True
    then have "n < 256" by simp
    with True eq 1 show ?thesis by simp
  next
    case False
    define m where "m = n div 256"
    have IH: "256 ^ (big_len m - 1) \<le> m" "m < 256 ^ big_len m" "0 < big_len m"
      using 1 False by (auto simp: m_def)
    have "256 * m \<le> n" "n < 256 * Suc m" by (simp_all add: m_def)
    moreover have "256 * 256 ^ (big_len m - 1) \<le> 256 * m" using IH by simp
    moreover have "256 * 256 ^ (big_len m - 1) = (256::nat) ^ big_len m"
      using IH(3) by (cases "big_len m") auto
    moreover have "256 * Suc m \<le> 256 * 256 ^ big_len m" using IH(2) by (intro mult_le_mono2) simp
    ultimately show ?thesis unfolding eq m_def [symmetric] by simp
  qed
qed

text \<open>A compact form without its sign bit is an exponent and a mantissa of 23 bits.\<close>

lemma not_bit_small: "m < 2 ^ k \<Longrightarrow> k \<le> i \<Longrightarrow> \<not> bit (m::nat) i"
proof -
  assume "m < 2 ^ k" "k \<le> i"
  then have "m < 2 ^ i" using power_increasing [of k i "2::nat"] by linarith
  then show ?thesis by (simp add: bit_iff_odd)
qed

lemma pack_compact:
  assumes "m < 2 ^ 24"
  shows "push_bit 24 (of_nat e) OR (of_nat m :: u32) = of_nat (e * 2 ^ 24 + m)"
proof -
  have "(push_bit 24 (of_nat e) :: u32) AND of_nat m = 0"
    using not_bit_small [OF assms] by (intro bit_word_eqI) (auto simp: bit_simps)
  then show ?thesis by (simp add: disjunctive_add_eq_or [symmetric] push_bit_eq_mult)
qed

lemma sign_bit: "(w :: u32) AND 0x00800000 \<noteq> 0 \<longleftrightarrow> odd (unat w div 2 ^ 23)"
proof -
  have "w AND 2 ^ 23 \<noteq> 0 \<longleftrightarrow> bit w 23" by (simp only: and_exp_eq_0_iff_not_bit not_not)
  also have "\<dots> \<longleftrightarrow> bit (unat w) 23" by (simp add: bit_unsigned_iff)
  finally show ?thesis by (simp add: bit_iff_odd)
qed

lemma unat_shr: "unat (drop_bit k (w :: u32)) = unat w div 2 ^ k"
  by (rule trans [OF unat_drop_bit_eq]) (rule drop_bit_eq_div)

lemma unpack_compact:
  assumes "m < 2 ^ 23" and "e < 256"
  shows "CompactToBig (of_nat (e * 2 ^ 24 + m))
         = (if e \<le> 3 then int (m div 256 ^ (3 - e)) else int m * 256 ^ (e - 3))"
proof -
  define w :: u32 where "w = of_nat (e * 2 ^ 24 + m)"
  have uw: "unat w = e * 2 ^ 24 + m" unfolding w_def unat_of_nat using assms by simp
  have um: "unat (w AND 0x007fffff) = m"
  proof -
    have "w AND 0x007fffff = take_bit 23 w" by (simp add: take_bit_eq_mask mask_eq_exp_minus_1)
    moreover have "(m + (e * 2) * 2 ^ 23) mod 2 ^ 23 = m" using assms(1) by (simp only: mod_mult_self1) simp
    then have "(e * 2 ^ 24 + m) mod 2 ^ 23 = m" by (simp add: add.commute mult.assoc)
    moreover have "unat (take_bit 23 w) = unat w mod 2 ^ 23"
      by (rule trans [OF unsigned_take_bit_eq]) (rule take_bit_eq_mod)
    ultimately show ?thesis by (simp only: uw)
  qed
  have neg: "w AND 0x00800000 = 0"
  proof -
    have "(m + (e * 2) * 2 ^ 23) div 2 ^ 23 = e * 2" using assms(1) by (subst div_mult_self1) simp_all
    then have "even ((e * 2 ^ 24 + m) div 2 ^ 23)" by (simp add: add.commute mult.assoc)
    then show ?thesis using sign_bit [of w] by (simp add: uw)
  qed
  have ex: "unat (drop_bit 24 w) = e"
    using assms by (simp add: unat_shr uw)
  have shr: "uint (drop_bit (8 * k) (w AND 0x007fffff)) = int (m div 256 ^ k)" for k
    unfolding uint_nat unat_shr um by (simp add: power_mult)
  have shl: "push_bit (8 * k) (uint (w AND 0x007fffff)) = int m * 256 ^ k" for k
    unfolding uint_nat um by (simp add: push_bit_eq_mult power_mult)
  show ?thesis
    unfolding CompactToBig_def Let_def w_def [symmetric] ex neg shr shl by simp
qed

text \<open>What the conversion of a positive number that is not too large yields.\<close>

lemma BigToCompact_form:
  assumes "0 < n" and "n < 256 ^ 254"
  obtains m e where "BigToCompact n = of_nat (e * 2 ^ 24 + m)" and "2 ^ 15 \<le> m" and "m < 2 ^ 23" and "e < 256"
    and "e \<le> 3 \<longrightarrow> int m = n * 256 ^ (3 - e)" and "3 < e \<longrightarrow> int m = n div 256 ^ (e - 3)"
proof -
  define N where "N = nat n"
  have n: "n = int N" "0 < N" using assms(1) by (auto simp: N_def)
  define x where "x = big_len N"
  have x: "256 ^ (x - 1) \<le> N" "N < 256 ^ x" "0 < x" using big_len_bounds [OF n(2)] by (auto simp: x_def)
  have x254: "x \<le> 254"
  proof (rule ccontr)
    assume "\<not> x \<le> 254"
    then have "(256::nat) ^ 254 \<le> 256 ^ (x - 1)" by (intro power_increasing) auto
    with x(1) have "256 ^ 254 \<le> N" by linarith
    with assms(2) show False by (simp add: n(1))
  qed
  define M where "M = (if x \<le> 3 then N * 256 ^ (3 - x) else N div 256 ^ (x - 3))"
  have M: "2 ^ 16 \<le> M \<and> M < 2 ^ 24"
  proof (cases "x \<le> 3")
    case True
    with x(3) consider "x = 1" | "x = 2" | "x = 3" by linarith
    then show ?thesis using x by cases (simp_all add: M_def)
  next
    case False
    define y where "y = x - 3"
    have y: "x = Suc (y + 2)" using False by (simp add: y_def)
    then have "256 ^ (x - 1) = (2 ^ 16 :: nat) * 256 ^ (x - 3)" and "256 ^ x = (2 ^ 24 :: nat) * 256 ^ (x - 3)"
      by (simp_all add: power_add)
    with x have "2 ^ 16 * 256 ^ (x - 3) \<le> N" "N < 2 ^ 24 * 256 ^ (x - 3)" by auto
    with False show ?thesis by (simp add: M_def less_eq_div_iff_mult_less_eq less_mult_imp_div_less)
  qed
  define w :: u32 where "w = of_nat M"
  have uw: "unat w = M" unfolding w_def unat_of_nat using M by simp
  have sh: "push_bit (8 * (3 - x)) (of_int \<bar>n\<bar> :: u32) = w" if "x \<le> 3"
    using that by (simp add: w_def M_def n push_bit_eq_mult power_mult)
  have dr: "(of_int \<bar>drop_bit (8 * (x - 3)) n\<bar> :: u32) = w" if "\<not> x \<le> 3"
  proof -
    have "drop_bit (8 * (x - 3)) n = int (N div 256 ^ (x - 3))"
      by (simp add: n drop_bit_eq_div power_mult zdiv_int)
    with that show ?thesis by (simp add: w_def M_def)
  qed
  have carry: "w AND 0x00800000 \<noteq> 0 \<longleftrightarrow> 2 ^ 23 \<le> M"
  proof (cases "2 ^ 23 \<le> M")
    case True
    with M have "M div 2 ^ 23 = 1" by (intro div_nat_eqI) simp_all
    with True sign_bit [of w] show ?thesis by (simp add: uw)
  next
    case False
    then have "M div 2 ^ 23 = 0" by simp
    with False sign_bit [of w] show ?thesis by (simp add: uw)
  qed
  have "unat (drop_bit 8 w) = unat (of_nat (M div 256) :: u32)"
    unfolding unat_shr uw unat_of_nat using M div_le_dividend [of M 256] by (subst mod_less) auto
  then have half: "drop_bit 8 w = of_nat (M div 256)" by (rule unsigned_word_eqI)
  have man: "(if x \<le> 3 then push_bit (8 * (3 - x)) (of_int \<bar>n\<bar> :: u32) else of_int \<bar>drop_bit (8 * (x - 3)) n\<bar>) = w"
    using sh dr by simp
  have xn: "big_len (nat \<bar>n\<bar>) = x" by (simp add: x_def N_def assms(1) less_imp_le)
  have btc: "BigToCompact n = (if 2 ^ 23 \<le> M then push_bit 24 (of_nat (x + 1)) OR of_nat (M div 256)
                               else push_bit 24 (of_nat x) OR of_nat M)"
    unfolding BigToCompact_def Let_def xn man carry half using assms(1) by (simp add: w_def)
  show ?thesis
  proof (cases "2 ^ 23 \<le> M")
    case True
    show ?thesis
    proof (rule that [of "x + 1" "M div 256"])
      show "BigToCompact n = of_nat ((x + 1) * 2 ^ 24 + M div 256)"
        using True M btc pack_compact [of "M div 256" "x + 1"] by simp
      show "2 ^ 15 \<le> M div 256" "M div 256 < 2 ^ 23" "x + 1 < 256" using True M x254 by auto
      show "3 < x + 1 \<longrightarrow> int (M div 256) = n div 256 ^ (x + 1 - 3)"
      proof
        assume "3 < x + 1"
        then have "x + 1 - 3 = Suc (x - 3)" by simp
        with \<open>3 < x + 1\<close> have "M div 256 = N div 256 ^ (x + 1 - 3)"
          by (auto simp: M_def power_Suc2 div_mult2_eq simp del: power_Suc)
        then show "int (M div 256) = n div 256 ^ (x + 1 - 3)" by (simp add: n zdiv_int)
      qed
      show "x + 1 \<le> 3 \<longrightarrow> int (M div 256) = n * 256 ^ (3 - (x + 1))"
      proof
        assume "x + 1 \<le> 3"
        with x(3) consider "x = 1" | "x = 2" by linarith
        then show "int (M div 256) = n * 256 ^ (3 - (x + 1))"
          by cases (simp_all add: M_def n)
      qed
    qed
  next
    case False
    show ?thesis
    proof (rule that [of x M])
      show "BigToCompact n = of_nat (x * 2 ^ 24 + M)"
        using False M btc pack_compact [of M x] by simp
      show "2 ^ 15 \<le> M" "M < 2 ^ 23" "x < 256" using False M x254 by auto
      show "3 < x \<longrightarrow> int M = n div 256 ^ (x - 3)" by (simp add: M_def n zdiv_int)
      show "x \<le> 3 \<longrightarrow> int M = n * 256 ^ (3 - x)" by (simp add: M_def n)
    qed
  qed
qed

lemma pow_split: "k \<le> e \<Longrightarrow> (256::int) ^ e = 256 ^ (e - k) * 256 ^ k"
  by (simp flip: power_add)

lemma pow_pos: "0 < (256::int) ^ e"
  by simp

text \<open>The same with one equation for every exponent.\<close>

lemma BigToCompact_cases:
  assumes "0 < n" and "n < 256 ^ 254"
  obtains m e where "BigToCompact n = of_nat (e * 2 ^ 24 + m)" and "2 ^ 15 \<le> m" and "m < 2 ^ 23"
    and "int m = n * 256 ^ 3 div 256 ^ e" and "CompactToBig (BigToCompact n) * 256 ^ 3 = int m * 256 ^ e"
proof (rule BigToCompact_form [OF assms])
  fix m e
  assume btc: "BigToCompact n = of_nat (e * 2 ^ 24 + m)" and m: "2 ^ 15 \<le> m" "m < 2 ^ 23" and e: "e < 256"
    and small: "e \<le> 3 \<longrightarrow> int m = n * 256 ^ (3 - e)" and large: "3 < e \<longrightarrow> int m = n div 256 ^ (e - 3)"
  have ctb: "CompactToBig (BigToCompact n) = (if e \<le> 3 then int (m div 256 ^ (3 - e)) else int m * 256 ^ (e - 3))"
    unfolding btc by (rule unpack_compact [OF m(2) e])
  show thesis
  proof (rule that [OF btc m])
    show "int m = n * 256 ^ 3 div 256 ^ e"
    proof (cases "e \<le> 3")
      case True
      then have "n * 256 ^ 3 = n * 256 ^ (3 - e) * 256 ^ e" by (simp only: pow_split [of e 3] mult.assoc)
      then have "n * 256 ^ 3 div 256 ^ e = n * 256 ^ (3 - e)"
        by (metis nonzero_mult_div_cancel_right power_not_zero zero_neq_numeral)
      with True small show ?thesis by simp
    next
      case False
      then have "(256::int) ^ e = 256 ^ (e - 3) * 256 ^ 3" by (intro pow_split) simp
      with False large show ?thesis by simp
    qed
    show "CompactToBig (BigToCompact n) * 256 ^ 3 = int m * 256 ^ e"
    proof (cases "e \<le> 3")
      case True
      have "int (m div 256 ^ (3 - e)) = n" using True small by (simp add: zdiv_int)
      moreover have "n * 256 ^ 3 = n * 256 ^ (3 - e) * 256 ^ e" using True by (simp only: pow_split [of e 3] mult.assoc)
      ultimately show ?thesis using True small ctb by simp
    next
      case False
      then have "(256::int) ^ e = 256 ^ (e - 3) * 256 ^ 3" by (intro pow_split) simp
      with False ctb show ?thesis by simp
    qed
  qed
qed

lemma compact_rounds:
  assumes "0 < n" and "n < 2 ^ 2032"
  shows "0 < CompactToBig (BigToCompact n) \<and> CompactToBig (BigToCompact n) \<le> n
    \<and> (n - CompactToBig (BigToCompact n)) * 2 ^ 15 < n
    \<and> BigToCompact (CompactToBig (BigToCompact n)) = BigToCompact n"
proof -
  have bound: "n < 256 ^ 254" using assms(2) by simp
  define v where "v = CompactToBig (BigToCompact n)"
  obtain m e where btc: "BigToCompact n = of_nat (e * 2 ^ 24 + m)" and m: "2 ^ 15 \<le> m" "m < 2 ^ 23"
    and down: "int m = n * 256 ^ 3 div 256 ^ e" and v: "v * 256 ^ 3 = int m * 256 ^ e"
    using BigToCompact_cases [OF assms(1) bound] unfolding v_def by blast
  have le: "int m * 256 ^ e \<le> n * 256 ^ 3"
    using minus_mod_eq_div_mult [of "n * 256 ^ 3" "256 ^ e"] pos_mod_sign [OF pow_pos, of "n * 256 ^ 3" e]
    unfolding down [symmetric] by linarith
  have gap: "n * 256 ^ 3 - int m * 256 ^ e < 256 ^ e"
    unfolding down by (simp add: minus_div_mult_eq_mod)
  have v_le: "v \<le> n" using v le by simp
  have v_pos: "0 < v" using v m by (metis mult_pos_pos of_nat_0_less_iff zero_less_mult_pos2 zero_less_numeral zero_less_power less_le_trans)
  have "2 ^ 15 * 256 ^ e \<le> int m * 256 ^ e" using m by (intro mult_right_mono) auto
  then have big: "2 ^ 15 * 256 ^ e \<le> n * 256 ^ 3" using le by (rule order_trans)
  have "(n - v) * 256 ^ 3 < 256 ^ e" using gap v by (simp only: left_diff_distrib)
  moreover have "(n - v) * 2 ^ 15 < n" if "2 ^ 15 * E \<le> n * 256 ^ 3" "(n - v) * 256 ^ 3 < E" for E
    using that by simp
  ultimately have near: "(n - v) * 2 ^ 15 < n" using big by blast
  have v_bound: "v < 256 ^ 254" using v_le bound by linarith
  obtain m' e' where btc': "BigToCompact v = of_nat (e' * 2 ^ 24 + m')" and m': "2 ^ 15 \<le> m'" "m' < 2 ^ 23"
    and down': "int m' = v * 256 ^ 3 div 256 ^ e'"
    using BigToCompact_cases [OF v_pos v_bound] by blast
  have "e' = e"
  proof (rule ccontr)
    assume "e' \<noteq> e"
    then consider k where "e = e' + Suc k" | k where "e' = e + Suc k"
      by (metis less_imp_Suc_add linorder_neqE_nat add_Suc_right)
    then show False
    proof cases
      case 1
      have "int m' = int m * 256 ^ Suc k * 256 ^ e' div 256 ^ e'"
        unfolding down' v 1 power_add by (simp only: ac_simps)
      then have "int m' = int m * 256 ^ Suc k" by simp
      moreover have "int m * 256 ^ 1 \<le> int m * 256 ^ Suc k" by (intro mult_left_mono power_increasing) auto
      ultimately have "m * 256 \<le> m'" by simp
      then show False using m m' by simp
    next
      case 2
      have "int m' = int m * 256 ^ e div (256 ^ Suc k * 256 ^ e)"
        unfolding down' v 2 power_add by (simp only: ac_simps)
      then have "int m' = int m div 256 ^ Suc k" by (simp only: div_mult_mult2 power_eq_0_iff) simp
      also have "\<dots> \<le> int m div 256" by (intro zdiv_mono2) auto
      finally have "256 * m' \<le> m" by linarith
      then show False using m m' by simp
    qed
  qed
  then have "m' = m" using down' v by simp
  with \<open>e' = e\<close> btc btc' have "BigToCompact v = BigToCompact n" by simp
  with v_pos v_le near show ?thesis unfolding v_def by blast
qed

text \<open>The compact form of a target rounds it down by less than one part in 32768, is positive when the target
  is, and stands for a number whose compact form it is: a target written into a header and read back is stable.\<close>

theorem compact_rounds_down:
  assumes "0 < n" and "n < 2 ^ 2032"
  shows "0 < CompactToBig (BigToCompact n) \<and> CompactToBig (BigToCompact n) \<le> n
    \<and> (n - CompactToBig (BigToCompact n)) * 2 ^ 15 < n
    \<and> BigToCompact (CompactToBig (BigToCompact n)) = BigToCompact n"
  using assms by (rule compact_rounds)

theorem compact_rounds_down_witness:
  "0 < CompactToBig (BigToCompact (2 ^ 224 - 1)) \<and> (2 ^ 224 - 1 - CompactToBig (BigToCompact (2 ^ 224 - 1))) * 2 ^ 15 < (2 ^ 224 - 1 :: int)"
  using compact_rounds_down [of "2 ^ 224 - 1"] by simp

section \<open>Work\<close>

lemma CalcWork_nonneg [simp]: "0 \<le> CalcWork bits"
  by (simp add: CalcWork_def Let_def pos_imp_zdiv_nonneg_iff)

lemma CalcWork_pos: "0 < CompactToBig bits \<Longrightarrow> CompactToBig bits < 2 ^ 256 \<Longrightarrow> 0 < CalcWork bits"
  by (simp add: CalcWork_def Let_def pos_imp_zdiv_pos_iff)

lemma CalcWork_antimono:
  "0 < CompactToBig a \<Longrightarrow> CompactToBig a \<le> CompactToBig b \<Longrightarrow> CalcWork b \<le> CalcWork a"
  by (simp add: CalcWork_def Let_def zdiv_mono2)

end
