(* ===== verification/Chain_Nodes.thy ===== *)
theory Chain_Nodes
  imports Chain_Work
begin

unbundle bit_operations_syntax

text \<open>
  The tree of block headers in memory (\<open>btcd/blockchain/blockindex.go\<close>, \<open>chainview.go\<close>). A \<open>*blockNode\<close> is a value:
  every field but the status is fixed when the node is made, so a node is its header fields together with the nodes
  it points to, and comparing pointers is comparing values; the status, which does change, is an argument where
  it is read. The skip list reaches the node that following the parents reaches, a chain view holds the path to
  its tip and finds the last common block of two branches, and the median time never runs backwards.
\<close>

section \<open>Nodes\<close>

datatype blockNode = BlockNode
  (parent: "blockNode option") (ancestor: "blockNode option") (node_hash: bytes) (workSum: int) (height: int)
  (node_version: u32) (node_bits: u32) (node_nonce: u32) (timestamp: int) (node_merkleRoot: bytes)

lemma i32_id: "- (2 ^ 31) \<le> x \<Longrightarrow> x < 2 ^ 31 \<Longrightarrow> i32 x = x"
  by (simp add: i32_def signed_take_bit_int_eq_self)

definition invertLowestOne :: "int \<Rightarrow> int" where
  "invertLowestOne n = n AND i32 (n - 1)"

definition getAncestorHeight :: "int \<Rightarrow> int" where
  "getAncestorHeight h = invertLowestOne (invertLowestOne h)"

lemma size_ancestor: "ancestor n = Some a \<Longrightarrow> size a < size n"
  by (cases n) auto

lemma size_parent: "parent n = Some p \<Longrightarrow> size p < size n"
  by (cases n) auto

text \<open>The loop of \<open>Ancestor\<close> from a node on.\<close>

function ancestor_from :: "blockNode \<Rightarrow> int \<Rightarrow> blockNode option" where
  "ancestor_from n h =
     (if height n = h then Some n
      else case ancestor n of
        Some a \<Rightarrow> if getAncestorHeight (height n) \<ge> h then ancestor_from a h
                  else (case parent n of None \<Rightarrow> None | Some p \<Rightarrow> ancestor_from p h)
      | None \<Rightarrow> (case parent n of None \<Rightarrow> None | Some p \<Rightarrow> ancestor_from p h))"
  by pat_completeness auto
termination
  by (relation "measure (\<lambda>(n, h). size n)") (auto simp: size_ancestor size_parent)

declare ancestor_from.simps [simp del]

definition Ancestor :: "blockNode \<Rightarrow> int \<Rightarrow> blockNode option" where
  "Ancestor node h = (if h < 0 \<or> h > height node then None else ancestor_from node h)"

definition RelativeAncestor :: "blockNode \<Rightarrow> int \<Rightarrow> blockNode option" where
  "RelativeAncestor node distance = Ancestor node (i32 (height node - distance))"

definition newBlockNode :: "crypto \<Rightarrow> BlockHeader \<Rightarrow> blockNode option \<Rightarrow> blockNode" where
  "newBlockNode c hdr par =
     (case par of
        None \<Rightarrow> BlockNode None None (BlockHash c hdr) (CalcWork (Bits hdr)) 0 (bh_Version hdr) (Bits hdr)
                  (Nonce hdr) (Unix (Timestamp hdr)) (MerkleRoot hdr)
      | Some p \<Rightarrow> BlockNode (Some p) (Ancestor p (getAncestorHeight (i32 (height p + 1)))) (BlockHash c hdr)
                  (workSum p + CalcWork (Bits hdr)) (i32 (height p + 1)) (bh_Version hdr) (Bits hdr)
                  (Nonce hdr) (Unix (Timestamp hdr)) (MerkleRoot hdr))"

text \<open>\<open>status\<close> gives the status that a node has at the time of the call.\<close>

definition node_Equals :: "(blockNode \<Rightarrow> u8) \<Rightarrow> blockNode \<Rightarrow> blockNode \<Rightarrow> bool" where
  "node_Equals status node other \<longleftrightarrow>
     node_hash node = node_hash other \<and> workSum node = workSum other \<and> height node = height other
     \<and> node_version node = node_version other \<and> node_bits node = node_bits other
     \<and> node_nonce node = node_nonce other \<and> timestamp node = timestamp other
     \<and> node_merkleRoot node = node_merkleRoot other \<and> status node = status other"

definition node_Header :: "blockNode \<Rightarrow> BlockHeader" where
  "node_Header node =
     \<lparr>bh_Version = node_version node,
      PrevBlock = (case parent node of None \<Rightarrow> replicate 32 0 | Some p \<Rightarrow> node_hash p),
      MerkleRoot = node_merkleRoot node, Timestamp = time_Unix (timestamp node),
      Bits = node_bits node, Nonce = node_nonce node\<rparr>"

definition IsAncestor :: "(blockNode \<Rightarrow> u8) \<Rightarrow> blockNode \<Rightarrow> blockNode option \<Rightarrow> bool" where
  "IsAncestor status node otherNode =
     (case otherNode of None \<Rightarrow> False
      | Some other \<Rightarrow> (case Ancestor node (height other) of None \<Rightarrow> False
         | Some a \<Rightarrow> if height node = height a then False else node_Equals status a other))"

section \<open>The median time of the last blocks\<close>

definition medianTimeBlocks :: nat where "medianTimeBlocks = 11"

fun last_times :: "nat \<Rightarrow> blockNode option \<Rightarrow> int list" where
  "last_times 0 n = []"
| "last_times (Suc k) None = []"
| "last_times (Suc k) (Some n) = timestamp n # last_times k (parent n)"

definition CalcPastMedianTime :: "blockNode option \<Rightarrow> int rule" where
  "CalcPastMedianTime node =
     (let timestamps = sort (last_times medianTimeBlocks node) in
      if length timestamps div 2 < length timestamps
      then Inr (time_Unix (timestamps ! (length timestamps div 2)))
      else Inl Panic)"

section \<open>Nodes that the program makes\<close>

text \<open>The reference: the node \<open>k\<close> parents back.\<close>

fun nth_parent :: "nat \<Rightarrow> blockNode \<Rightarrow> blockNode option" where
  "nth_parent 0 n = Some n"
| "nth_parent (Suc k) n = (case parent n of None \<Rightarrow> None | Some p \<Rightarrow> nth_parent k p)"

inductive chain_node :: "crypto \<Rightarrow> blockNode \<Rightarrow> bool" for c where
  genesis_node: "chain_node c (newBlockNode c hdr None)"
| child_node: "chain_node c p \<Longrightarrow> height p < 2 ^ 31 - 1 \<Longrightarrow> chain_node c (newBlockNode c hdr (Some p))"

lemma i32_height: "0 \<le> h \<Longrightarrow> h < 2 ^ 31 - 1 \<Longrightarrow> i32 (h + 1) = h + 1"
  by (rule i32_id) auto

lemma invertLowestOne_bounds: "0 < h \<Longrightarrow> h < 2 ^ 31 \<Longrightarrow> 0 \<le> invertLowestOne h \<and> invertLowestOne h < h"
  using AND_upper2 [of "h - 1" h] by (simp add: invertLowestOne_def i32_id)

lemma getAncestorHeight_bounds:
  assumes "0 < h" and "h < 2 ^ 31"
  shows "0 \<le> getAncestorHeight h \<and> getAncestorHeight h < h"
proof (cases "invertLowestOne h = 0")
  case True
  then show ?thesis using assms by (simp add: getAncestorHeight_def invertLowestOne_def)
next
  case False
  with invertLowestOne_bounds [OF assms] have "0 < invertLowestOne h" "invertLowestOne h < h" by auto
  with invertLowestOne_bounds [of "invertLowestOne h"] assms show ?thesis by (auto simp: getAncestorHeight_def)
qed

lemma chain_node_height: "chain_node c n \<Longrightarrow> 0 \<le> height n \<and> height n < 2 ^ 31"
  by (induction rule: chain_node.induct) (auto simp: newBlockNode_def i32_height)

lemma chain_node_parent:
  assumes "chain_node c n" and "parent n = Some p"
  shows "chain_node c p \<and> height n = height p + 1"
  using assms(1)
proof cases
  case genesis_node
  with assms(2) show ?thesis by (simp add: newBlockNode_def)
next
  case (child_node q hdr)
  with assms(2) chain_node_height [of c q] show ?thesis by (auto simp: newBlockNode_def i32_height)
qed

lemma chain_node_genesis: "chain_node c n \<Longrightarrow> parent n = None \<longleftrightarrow> height n = 0"
proof (induction rule: chain_node.induct)
  case (child_node p hdr)
  with chain_node_height [of c p] show ?case by (simp add: newBlockNode_def i32_height)
qed (simp add: newBlockNode_def)

lemma nth_parent_chain:
  assumes "chain_node c n" and "int k \<le> height n"
  shows "\<exists>m. nth_parent k n = Some m \<and> chain_node c m \<and> height m = height n - int k"
  using assms
proof (induction k arbitrary: n)
  case (Suc k)
  then obtain p where p: "parent n = Some p" using chain_node_genesis [of c n] by (cases "parent n") auto
  with Suc.prems have "chain_node c p" "height n = height p + 1" using chain_node_parent by auto
  with Suc.IH [of p] Suc.prems p show ?case by auto
qed simp

lemma nth_parent_add: "nth_parent (j + k) n = Option.bind (nth_parent j n) (nth_parent k)"
  by (induction j arbitrary: n) (auto split: option.split)

section \<open>The skip list\<close>

lemma nth_parent_step:
  assumes "chain_node c n" and "parent n = Some p" and "h \<le> height p"
  shows "nth_parent (nat (height n - h)) n = nth_parent (nat (height p - h)) p"
proof -
  have "nat (height n - h) = Suc (nat (height p - h))"
    using assms chain_node_parent [OF assms(1,2)] by simp
  then show ?thesis using assms(2) by simp
qed

lemma ancestor_from_parents:
  assumes "chain_node c n" and "0 \<le> h" and "h \<le> height n"
  shows "ancestor_from n h = nth_parent (nat (height n - h)) n"
  using assms
proof (induction n arbitrary: h rule: measure_induct_rule [where f = size])
  case (less n)
  show ?case
  proof (cases "parent n")
    case None
    with less.prems chain_node_genesis [of c n] have "height n = h" by simp
    then show ?thesis by (simp add: ancestor_from.simps)
  next
    case (Some p)
    have p: "chain_node c p" "height n = height p + 1" "size p < size n"
      using chain_node_parent [OF less.prems(1) Some] size_parent [OF Some] by auto
    define g where "g = getAncestorHeight (height n)"
    have g: "0 \<le> g" "g \<le> height p"
      using getAncestorHeight_bounds [of "height n"] chain_node_height [OF less.prems(1)] chain_node_height [OF p(1)] p(2)
      by (auto simp: g_def)
    have "ancestor n = Ancestor p g"
      using less.prems(1) Some
    proof cases
      case (child_node q hdr)
      then show ?thesis using Some chain_node_height [of c q] by (simp add: newBlockNode_def g_def i32_height)
    qed (simp add: newBlockNode_def)
    then have anc: "ancestor n = nth_parent (nat (height n - g)) n"
      using less.IH [OF p(3,1) g] g nth_parent_step [OF less.prems(1) Some g(2)] by (simp add: Ancestor_def)
    have up: "height n \<noteq> h \<Longrightarrow> ancestor_from p h = nth_parent (nat (height n - h)) n"
      using less.IH [OF p(3,1) less.prems(2)] less.prems(3) p(2) nth_parent_step [OF less.prems(1) Some, of h] by simp
    obtain a where a: "ancestor n = Some a" "chain_node c a" "height a = g"
      using nth_parent_chain [OF less.prems(1), of "nat (height n - g)"] g p(2) anc by auto
    have skip: "h \<le> g \<Longrightarrow> ancestor_from a h = nth_parent (nat (height n - h)) n"
    proof -
      assume "h \<le> g"
      then have "nat (height n - h) = nat (height n - g) + nat (g - h)" using g p(2) by simp
      then have "nth_parent (nat (height n - h)) n = nth_parent (nat (g - h)) a"
        by (simp add: nth_parent_add anc [symmetric] a(1))
      then show ?thesis using less.IH [OF size_ancestor [OF a(1)] a(2) less.prems(2)] a(3) \<open>h \<le> g\<close> by simp
    qed
    show ?thesis using up skip a(1) Some by (subst ancestor_from.simps) (simp add: g_def)
  qed
qed

lemma Ancestor_parents:
  "chain_node c n \<Longrightarrow> Ancestor n h = (if 0 \<le> h \<and> h \<le> height n then nth_parent (nat (height n - h)) n else None)"
  using ancestor_from_parents [of c n h] by (auto simp: Ancestor_def)

lemma Ancestor_Some:
  assumes "chain_node c n" and "0 \<le> h" and "h \<le> height n"
  obtains m where "Ancestor n h = Some m" and "chain_node c m" and "height m = h"
  using nth_parent_chain [OF assms(1), of "nat (height n - h)"] assms by (auto simp: Ancestor_parents [OF assms(1)])

lemma Ancestor_Ancestor:
  assumes "chain_node c n" and "Ancestor n g = Some a" and "0 \<le> h" and "h \<le> g"
  shows "Ancestor a h = Ancestor n h"
proof -
  have g: "0 \<le> g" "g \<le> height n" using assms(2) by (auto simp: Ancestor_def split: if_splits)
  obtain a' where "Ancestor n g = Some a'" "chain_node c a'" "height a' = g" by (rule Ancestor_Some [OF assms(1) g])
  then have a: "chain_node c a" "height a = g" using assms(2) by auto
  have split: "nat (height n - h) = nat (height n - g) + nat (g - h)" using g assms(4) by simp
  have "nth_parent (nat (height n - g)) n = Some a" using assms(2) g by (simp add: Ancestor_parents [OF assms(1)])
  then have "nth_parent (nat (height n - h)) n = nth_parent (nat (g - h)) a" by (simp add: split nth_parent_add)
  then show ?thesis using a g assms(3,4) by (simp add: Ancestor_parents [OF a(1)] Ancestor_parents [OF assms(1)])
qed

text \<open>C17: Following the skip pointers of the block index finds the block that following one parent after the other
  would: for every node the program makes, \<open>Ancestor\<close> returns the block of the branch at the wanted height, and
  nothing exactly when the height is negative or above the node.\<close>

theorem skip_list_finds_ancestor:
  assumes "chain_node c n"
  shows "Ancestor n h = (if 0 \<le> h \<and> h \<le> height n then nth_parent (nat (height n - h)) n else None)
    \<and> (0 \<le> h \<and> h \<le> height n \<longrightarrow> (\<exists>m. Ancestor n h = Some m \<and> chain_node c m \<and> height m = h))"
  using Ancestor_parents [OF assms, of h] Ancestor_Some [OF assms, of h] by metis

text \<open>Three blocks in a row and a second block at height two.\<close>

definition sample_header :: "nat \<Rightarrow> BlockHeader" where
  "sample_header k = \<lparr>bh_Version = 4, PrevBlock = replicate 32 0, MerkleRoot = replicate 32 0,
     Timestamp = time_Unix (int k), Bits = 0x207fffff, Nonce = of_nat k\<rparr>"

definition node0 :: blockNode where "node0 = newBlockNode toy_crypto (sample_header 0) None"
definition node1 :: blockNode where "node1 = newBlockNode toy_crypto (sample_header 1) (Some node0)"
definition node2 :: blockNode where "node2 = newBlockNode toy_crypto (sample_header 2) (Some node1)"
definition node2a :: blockNode where "node2a = newBlockNode toy_crypto (sample_header 3) (Some node1)"

lemma sample_heights [simp]: "height node0 = 0" "height node1 = 1" "height node2 = 2" "height node2a = 2"
  by (simp_all add: node0_def node1_def node2_def node2a_def newBlockNode_def i32_id)

lemma sample_parents [simp]:
  "parent node0 = None" "parent node1 = Some node0" "parent node2 = Some node1" "parent node2a = Some node1"
  by (simp_all add: node0_def node1_def node2_def node2a_def newBlockNode_def)

lemma sample_times [simp]: "timestamp node0 = 0" "timestamp node1 = 1" "timestamp node2 = 2" "timestamp node2a = 3"
  by (simp_all add: node0_def node1_def node2_def node2a_def newBlockNode_def sample_header_def)

lemma node0_chain: "chain_node toy_crypto node0"
  unfolding node0_def by (rule genesis_node)

lemma node1_chain: "chain_node toy_crypto node1"
  unfolding node1_def by (rule child_node [OF node0_chain]) simp

lemma node2_chain: "chain_node toy_crypto node2"
  unfolding node2_def by (rule child_node [OF node1_chain]) simp

lemma node2a_chain: "chain_node toy_crypto node2a"
  unfolding node2a_def by (rule child_node [OF node1_chain]) simp

theorem skip_list_finds_ancestor_witness: "Ancestor node2 0 = Some node0 \<and> Ancestor node2 1 = Some node1"
  using skip_list_finds_ancestor [OF node2_chain, of 0] skip_list_finds_ancestor [OF node2_chain, of 1]
  by (simp add: numeral_eq_Suc)

section \<open>The median time\<close>

definition median :: "int list \<Rightarrow> int" where
  "median xs = sort xs ! (length xs div 2)"

lemma filter_sort_length: "length (filter P (sort xs)) = length (filter P (xs :: int list))"
  by (metis filter_sort length_sort)

lemma median_upper_half: "xs \<noteq> [] \<Longrightarrow> length xs - length xs div 2 \<le> length (filter (\<lambda>x. median xs \<le> x) xs)"
proof -
  assume "xs \<noteq> []"
  define zs where "zs = sort xs"
  define k where "k = length xs div 2"
  have k: "k < length zs" "length zs = length xs" using \<open>xs \<noteq> []\<close> by (auto simp: k_def zs_def)
  have "filter (\<lambda>x. zs ! k \<le> x) (drop k zs) = drop k zs"
    using k by (intro filter_True) (auto simp: in_set_conv_nth zs_def intro!: sorted_nth_mono [OF sorted_sort])
  then have "length (drop k zs) \<le> length (filter (\<lambda>x. zs ! k \<le> x) (take k zs @ drop k zs))"
    unfolding filter_append by simp
  then show ?thesis
    using k filter_sort_length [of "\<lambda>x. median xs \<le> x" xs] by (simp add: median_def zs_def k_def)
qed

lemma median_lower_bound:
  assumes "ys \<noteq> []" and "length ys - length ys div 2 \<le> length (filter (\<lambda>x. m \<le> x) ys)"
  shows "m \<le> median ys"
proof (rule ccontr)
  assume less: "\<not> m \<le> median ys"
  define zs where "zs = sort ys"
  define k where "k = length ys div 2"
  have k: "k < length zs" "length zs = length ys" using assms(1) by (auto simp: k_def zs_def)
  have "filter (\<lambda>x. m \<le> x) (take (Suc k) zs) = []"
  proof (rule filter_False, rule ballI)
    fix x assume "x \<in> set (take (Suc k) zs)"
    then obtain i where "i < Suc k" "x = zs ! i" by (auto simp: in_set_conv_nth)
    then have "x \<le> zs ! k" using k by (auto simp: zs_def intro!: sorted_nth_mono [OF sorted_sort])
    then show "\<not> m \<le> x" using less by (simp add: median_def zs_def k_def)
  qed
  then have "length (filter (\<lambda>x. m \<le> x) (take (Suc k) zs @ drop (Suc k) zs)) \<le> length (drop (Suc k) zs)"
    unfolding filter_append using length_filter_le [of "\<lambda>x. m \<le> x" "drop (Suc k) zs"] by simp
  then have "length (filter (\<lambda>x. m \<le> x) ys) \<le> length ys - Suc k"
    using k filter_sort_length [of "\<lambda>x. m \<le> x" ys] by (simp add: zs_def)
  then show False using assms(2) k unfolding k_def by linarith
qed

text \<open>A window that takes in a later time and lets go of at most one time keeps or raises its median.\<close>

lemma median_slides:
  assumes "xs @ ys \<noteq> []" and "length ys \<le> 1" and "median (xs @ ys) \<le> t"
  shows "median (xs @ ys) \<le> median (t # xs)"
proof (rule median_lower_bound)
  define m where "m = median (xs @ ys)"
  have "length (filter (\<lambda>x. m \<le> x) ys) \<le> length ys" by simp
  moreover have "length (xs @ ys) - length (xs @ ys) div 2 \<le> length (filter (\<lambda>x. m \<le> x) (xs @ ys))"
    unfolding m_def using median_upper_half [OF assms(1)] .
  ultimately show "length (t # xs) - length (t # xs) div 2 \<le> length (filter (\<lambda>x. median (xs @ ys) \<le> x) (t # xs))"
    using assms(2,3) by (cases "length ys") (auto simp: m_def)
qed simp

lemma last_times_Suc: "\<exists>ys. last_times (Suc k) n = last_times k n @ ys \<and> length ys \<le> 1"
proof (induction k arbitrary: n)
  case 0
  show ?case by (cases n) auto
next
  case (Suc k)
  show ?case
  proof (cases n)
    case (Some m)
    with Suc.IH [of "parent m"] show ?thesis by simp
  qed simp
qed

lemma CalcPastMedianTime_Some: "CalcPastMedianTime (Some n) = Inr (time_Unix (median (last_times medianTimeBlocks (Some n))))"
  by (simp add: CalcPastMedianTime_def Let_def median_def medianTimeBlocks_def numeral_eq_Suc)

lemma median_time_step:
  assumes "parent n = Some p" and "CalcPastMedianTime (Some p) = Inr t" and "t \<le> time_Unix (timestamp n)"
  shows "\<exists>t'. CalcPastMedianTime (Some n) = Inr t' \<and> t \<le> t'"
proof -
  obtain ys where ys: "last_times 11 (Some p) = last_times 10 (Some p) @ ys" "length ys \<le> 1"
    using last_times_Suc [of 10 "Some p"] by (auto simp: numeral_eq_Suc)
  have n: "last_times 11 (Some n) = timestamp n # last_times 10 (Some p)"
    using assms(1) by (simp add: numeral_eq_Suc)
  have t: "t = time_Unix (median (last_times 10 (Some p) @ ys))"
    using assms(2) by (simp add: CalcPastMedianTime_Some medianTimeBlocks_def ys(1))
  with assms(3) have "median (last_times 10 (Some p) @ ys) \<le> timestamp n" by (simp add: time_Unix_def)
  with ys have "median (last_times 10 (Some p) @ ys) \<le> median (last_times 11 (Some n))"
    unfolding n by (intro median_slides) (auto simp: numeral_eq_Suc)
  then show ?thesis by (simp add: CalcPastMedianTime_Some medianTimeBlocks_def t time_Unix_def)
qed

section \<open>Views of a branch\<close>

type_synonym chainView = "blockNode option list"

definition view_genesis :: "chainView \<Rightarrow> blockNode option" where
  "view_genesis c = (if c = [] then None else c ! 0)"

definition view_tip :: "chainView \<Rightarrow> blockNode option" where
  "view_tip c = (if c = [] then None else c ! (length c - 1))"

text \<open>The slice is cut or extended with nil pointers to the wanted length, whatever its capacity; then the nodes are
  written from the tip back until the one that is there already.\<close>

definition resize :: "nat \<Rightarrow> chainView \<Rightarrow> chainView" where
  "resize needed nodes = take needed nodes @ replicate (needed - length nodes) None"

function fill_back :: "blockNode option \<Rightarrow> chainView \<Rightarrow> chainView rule" where
  "fill_back None nodes = Inr nodes"
| "fill_back (Some node) nodes =
     (if height node < 0 \<or> int (length nodes) \<le> height node then Inl Panic
      else if nodes ! nat (height node) = Some node then Inr nodes
      else fill_back (parent node) (nodes[nat (height node) := Some node]))"
  by pat_completeness auto
termination
  by (relation "measure (\<lambda>(n, nodes). case n of None \<Rightarrow> 0 | Some m \<Rightarrow> Suc (size m))")
    (auto split: option.split simp: size_parent)

definition setTip :: "blockNode option \<Rightarrow> chainView \<Rightarrow> chainView rule" where
  "setTip node nodes =
     (case node of None \<Rightarrow> Inr []
      | Some n \<Rightarrow>
          let needed = i32 (height n + 1) in
          if needed < 0 then Inl Panic else fill_back (Some n) (resize (nat needed) nodes))"

definition newChainView :: "blockNode option \<Rightarrow> chainView rule" where
  "newChainView tip = setTip tip []"

definition view_height :: "chainView \<Rightarrow> int" where
  "view_height c = i32 (int (length c) - 1)"

definition nodeByHeight :: "chainView \<Rightarrow> int \<Rightarrow> blockNode option" where
  "nodeByHeight c h = (if h < 0 \<or> h \<ge> int (length c) then None else c ! nat h)"

definition view_Equals :: "chainView \<Rightarrow> chainView \<Rightarrow> bool" where
  "view_Equals c other \<longleftrightarrow> length c = length other \<and> view_tip c = view_tip other"

definition view_contains :: "chainView \<Rightarrow> blockNode \<Rightarrow> bool" where
  "view_contains c node \<longleftrightarrow> nodeByHeight c (height node) = Some node"

definition view_next :: "chainView \<Rightarrow> blockNode option \<Rightarrow> blockNode option" where
  "view_next c node =
     (case node of None \<Rightarrow> None
      | Some n \<Rightarrow> if \<not> view_contains c n then None else nodeByHeight c (i32 (height n + 1)))"

function walk_back :: "chainView \<Rightarrow> blockNode option \<Rightarrow> blockNode option" where
  "walk_back c None = None"
| "walk_back c (Some n) = (if view_contains c n then Some n else walk_back c (parent n))"
  by pat_completeness auto
termination
  by (relation "measure (\<lambda>(c, n). case n of None \<Rightarrow> 0 | Some m \<Rightarrow> Suc (size m))")
    (auto split: option.split simp: size_parent)

definition findFork :: "chainView \<Rightarrow> blockNode option \<Rightarrow> blockNode option" where
  "findFork c node =
     (case node of None \<Rightarrow> None
      | Some n \<Rightarrow>
          let chainHeight = view_height c;
              node = (if height n > chainHeight then Ancestor n chainHeight else Some n)
          in walk_back c node)"

text \<open>The path from the genesis block to a node.\<close>

function path :: "blockNode \<Rightarrow> blockNode list" where
  "path n = (case parent n of None \<Rightarrow> [] | Some p \<Rightarrow> path p) @ [n]"
  by pat_completeness auto
termination
  by (relation "measure size") (auto simp: size_parent)

declare path.simps [simp del] fill_back.simps [simp del] walk_back.simps [simp del]

section \<open>Paths\<close>

lemma path_None: "parent n = None \<Longrightarrow> path n = [n]"
  by (simp add: path.simps)

lemma path_Some: "parent n = Some p \<Longrightarrow> path n = path p @ [n]"
  by (subst path.simps) simp

lemma length_path: "chain_node c n \<Longrightarrow> int (length (path n)) = height n + 1"
proof (induction n rule: path.induct)
  case (1 n)
  show ?case
  proof (cases "parent n")
    case None
    with 1 chain_node_genesis [of c n] show ?thesis by (simp add: path_None)
  next
    case (Some p)
    with 1 chain_node_parent [of c n p] show ?thesis by (simp add: path_Some)
  qed
qed

lemma path_chain_node: "chain_node c n \<Longrightarrow> m \<in> set (path n) \<Longrightarrow> chain_node c m \<and> height m \<le> height n"
proof (induction n rule: path.induct)
  case (1 n)
  show ?case
  proof (cases "parent n")
    case None
    with 1 show ?thesis by (simp add: path_None)
  next
    case (Some p)
    with 1 chain_node_parent [of c n p] show ?thesis by (auto simp: path_Some)
  qed
qed

text \<open>A node on a path begins with its own path.\<close>

lemma path_prefix:
  "chain_node c n \<Longrightarrow> m \<in> set (path n) \<Longrightarrow> take (Suc (nat (height m))) (path n) = path m"
proof (induction n rule: path.induct)
  case (1 n)
  show ?case
  proof (cases "m = n")
    case True
    with length_path [OF 1(2)] show ?thesis by simp
  next
    case False
    with 1 obtain p where p: "parent n = Some p" "m \<in> set (path p)"
      by (cases "parent n") (auto simp: path_None path_Some)
    have cp: "chain_node c p" using chain_node_parent [OF 1(2) p(1)] by simp
    have "Suc (nat (height m)) \<le> length (path p)"
      using length_path [OF cp] path_chain_node [OF cp p(2)] chain_node_height [of c m] by auto
    then show ?thesis using 1(1) [OF p(1) cp p(2)] by (simp add: path_Some [OF p(1)])
  qed
qed

lemma path_self: "n \<in> set (path n)"
  by (subst path.simps) simp

lemma path_last: "chain_node c n \<Longrightarrow> path n ! nat (height n) = n"
proof -
  assume n: "chain_node c n"
  have "last (path n) = n" by (subst path.simps) simp
  moreover have "path n \<noteq> []" using path_self [of n] by auto
  moreover have "length (path n) - 1 = nat (height n)"
    using length_path [OF n] chain_node_height [OF n] by simp
  ultimately show ?thesis using last_conv_nth [of "path n"] by simp
qed

lemma path_nth:
  assumes n: "chain_node c n" and m: "m \<in> set (path n)"
  shows "path n ! nat (height m) = m \<and> nat (height m) < length (path n)"
proof -
  have cm: "chain_node c m" "height m \<le> height n" using path_chain_node [OF n m] by auto
  have "path n ! nat (height m) = take (Suc (nat (height m))) (path n) ! nat (height m)" by simp
  also have "\<dots> = m" using path_prefix [OF n m] path_last [OF cm(1)] by simp
  finally show ?thesis using length_path [OF n] cm chain_node_height [OF cm(1)] by auto
qed

lemma path_trans: "chain_node c n \<Longrightarrow> m \<in> set (path n) \<Longrightarrow> set (path m) \<subseteq> set (path n)"
  by (metis path_prefix set_take_subset)

section \<open>What a view holds\<close>

definition view_of :: "crypto \<Rightarrow> chainView \<Rightarrow> blockNode \<Rightarrow> bool" where
  "view_of c v t \<longleftrightarrow> chain_node c t \<and> height t < 2 ^ 31 - 1 \<and> v = map Some (path t)"

lemma fill_back_path:
  assumes "chain_node c n" and "height n < int (length ns)"
    and "\<And>m. chain_node c m \<Longrightarrow> height m \<le> height n \<Longrightarrow> ns ! nat (height m) = Some m
           \<Longrightarrow> take (Suc (nat (height m))) ns = map Some (path m)"
  shows "fill_back (Some n) ns = Inr (map Some (path n) @ drop (Suc (nat (height n))) ns)"
  using assms
proof (induction n arbitrary: ns rule: path.induct)
  case (1 n)
  have h: "0 \<le> height n" using chain_node_height [OF 1(2)] by simp
  show ?case
  proof (cases "ns ! nat (height n) = Some n")
    case True
    then have "take (Suc (nat (height n))) ns = map Some (path n)" using 1(2,4) by simp
    then show ?thesis
      using True h 1(3) append_take_drop_id [of "Suc (nat (height n))" ns] by (simp add: fill_back.simps)
  next
    case False
    define ns' where "ns' = ns[nat (height n) := Some n]"
    have step: "fill_back (Some n) ns = fill_back (parent n) ns'"
      using False h 1(3) by (simp add: fill_back.simps ns'_def)
    have split: "drop (nat (height n)) ns' = Some n # drop (Suc (nat (height n))) ns"
      using h 1(3) Cons_nth_drop_Suc [of "nat (height n)" ns', symmetric] by (simp add: ns'_def)
    show ?thesis
    proof (cases "parent n")
      case None
      then have "height n = 0" using chain_node_genesis [OF 1(2)] by simp
      with None step split show ?thesis by (simp add: fill_back.simps path_None)
    next
      case (Some p)
      have p: "chain_node c p" "height n = height p + 1" using chain_node_parent [OF 1(2) Some] by auto
      have hp: "0 \<le> height p" using chain_node_height [OF p(1)] by simp
      have "fill_back (Some p) ns' = Inr (map Some (path p) @ drop (Suc (nat (height p))) ns')"
      proof (rule 1(1) [OF Some p(1)])
        show "height p < int (length ns')" using 1(3) p by (simp add: ns'_def)
        fix m assume m: "chain_node c m" "height m \<le> height p" "ns' ! nat (height m) = Some m"
        then have lt: "nat (height m) < nat (height n)" using p chain_node_height [OF m(1)] by simp
        then have ne: "nat (height n) \<noteq> nat (height m)" by linarith
        have "ns ! nat (height m) = Some m" using m(3) unfolding ns'_def nth_list_update_neq [OF ne] .
        then have "take (Suc (nat (height m))) ns = map Some (path m)" using 1(4) [OF m(1)] m(2) p(2) by simp
        then show "take (Suc (nat (height m))) ns' = map Some (path m)"
          unfolding ns'_def take_update_cancel [OF Suc_leI [OF lt]] .
      qed
      moreover have "Suc (nat (height p)) = nat (height n)" using p hp by simp
      ultimately show ?thesis using step split Some by (simp add: path_Some)
    qed
  qed
qed

lemma resize_view:
  assumes "view_of c v t \<or> v = []" and "chain_node c m" and "nat (height m) < k"
    and "resize k v ! nat (height m) = Some m"
  shows "take (Suc (nat (height m))) (resize k v) = map Some (path m)"
proof -
  define h where "h = nat (height m)"
  have len: "h < length v" "v ! h = Some m"
    using assms(3,4) by (auto simp: resize_def nth_append h_def split: if_splits)
  then have t: "view_of c v t" using assms(1) by auto
  then have v: "v = map Some (path t)" "chain_node c t" by (auto simp: view_of_def)
  have m: "m \<in> set (path t)" using len v by (metis length_map nth_map nth_mem option.inject)
  have "take (Suc h) (resize k v) = take (Suc h) v"
    using len assms(3) by (simp add: resize_def h_def min_def)
  then show ?thesis using path_prefix [OF v(2) m] v(1) by (simp add: h_def take_map)
qed

text \<open>C16: Setting the tip of a chain view to any node makes the view the path from the genesis block to that node,
  whichever branch it held before, although only the nodes that differ are written.\<close>

theorem setTip_shows_branch:
  assumes "view_of c v t \<or> v = []" and "chain_node c n" and "height n < 2 ^ 31 - 1"
  shows "\<exists>v'. setTip (Some n) v = Inr v' \<and> view_of c v' n"
proof -
  have h: "0 \<le> height n" using chain_node_height [OF assms(2)] by simp
  have i: "i32 (height n + 1) = height n + 1" using h assms(3) by (rule i32_height)
  define ns where "ns = resize (nat (height n + 1)) v"
  have len: "length ns = Suc (nat (height n))" using h by (simp add: ns_def resize_def nat_add_distrib)
  have "fill_back (Some n) ns = Inr (map Some (path n) @ drop (Suc (nat (height n))) ns)"
  proof (rule fill_back_path [OF assms(2)])
    show "height n < int (length ns)" using len h by simp
    fix m assume m: "chain_node c m" "height m \<le> height n" "ns ! nat (height m) = Some m"
    show "take (Suc (nat (height m))) ns = map Some (path m)"
      using resize_view [OF assms(1) m(1), of "nat (height n + 1)"] m h by (simp add: ns_def)
  qed
  then have "setTip (Some n) v = Inr (map Some (path n))"
    using i h len by (simp add: setTip_def Let_def ns_def)
  then show ?thesis using assms(2,3) by (simp add: view_of_def)
qed

lemma sample_path: "path node2 = [node0, node1, node2]" "path node2a = [node0, node1, node2a]"
  by (simp_all add: path_None path_Some)

lemma sample_view: "view_of toy_crypto (map Some [node0, node1, node2]) node2"
  using node2_chain by (simp add: view_of_def sample_path)

theorem setTip_shows_branch_witness:
  "setTip (Some node2a) (map Some [node0, node1, node2]) = Inr (map Some [node0, node1, node2a])"
  using setTip_shows_branch [OF disjI1 [OF sample_view] node2a_chain] by (auto simp: view_of_def sample_path)

lemma contains_path:
  assumes "view_of c v t" and "chain_node c n"
  shows "view_contains v n \<longleftrightarrow> n \<in> set (path t)"
proof
  have v: "v = map Some (path t)" "chain_node c t" using assms(1) by (auto simp: view_of_def)
  show "n \<in> set (path t)" if "view_contains v n"
  proof -
    have "0 \<le> height n" "height n < int (length (path t))" "path t ! nat (height n) = n"
      using that v(1) by (auto simp: view_contains_def nodeByHeight_def split: if_splits)
    then show ?thesis by (metis nat_less_iff nth_mem)
  qed
  show "view_contains v n" if "n \<in> set (path t)"
    using path_nth [OF v(2) that] chain_node_height [OF assms(2)] v(1)
    by (auto simp: view_contains_def nodeByHeight_def)
qed

lemma walk_back_path:
  assumes "view_of c v t" and "chain_node c n"
  shows "walk_back v (Some n) = List.find (\<lambda>m. m \<in> set (path t)) (rev (path n))"
  using assms(2)
proof (induction n rule: path.induct)
  case (1 n)
  show ?case
  proof (cases "parent n")
    case None
    then show ?thesis using contains_path [OF assms(1) 1(2)] by (simp add: walk_back.simps path_None)
  next
    case (Some p)
    then show ?thesis
      using contains_path [OF assms(1) 1(2)] 1(1) [OF Some] chain_node_parent [OF 1(2) Some]
      by (simp add: walk_back.simps path_Some)
  qed
qed

lemma find_rev_path:
  assumes "chain_node c n" and "List.find P (rev (path n)) = Some f"
  shows "f \<in> set (path n) \<and> P f \<and> (\<forall>g\<in>set (path n). P g \<longrightarrow> height g \<le> height f)"
  using assms
proof (induction n rule: path.induct)
  case (1 n)
  show ?case
  proof (cases "P n")
    case True
    have "List.find P (rev (path n)) = Some n" using True by (subst path.simps) simp
    then show ?thesis using True 1(3) path_chain_node [OF 1(2)] path_self by auto
  next
    case False
    then obtain p where p: "parent n = Some p" using 1(3) by (cases "parent n") (auto simp: path_None)
    then show ?thesis
      using 1(1) [OF p] 1(3) False chain_node_parent [OF 1(2) p] by (auto simp: path_Some)
  qed
qed

lemma find_rev_path_None: "List.find P (rev (path n)) = None \<Longrightarrow> g \<in> set (path n) \<Longrightarrow> \<not> P g"
  by (auto simp: find_None_iff)

lemma nth_parent_in_path: "nth_parent k n = Some m \<Longrightarrow> m \<in> set (path n)"
proof (induction k arbitrary: n)
  case 0
  then show ?case using path_self by simp
next
  case (Suc k)
  then obtain p where "parent n = Some p" "m \<in> set (path p)" by (auto split: option.splits)
  then show ?case by (simp add: path_Some)
qed

lemma Ancestor_in_path: "chain_node c n \<Longrightarrow> Ancestor n h = Some m \<Longrightarrow> m \<in> set (path n)"
  by (auto simp: Ancestor_parents nth_parent_in_path split: if_splits)

lemma path_below:
  assumes "chain_node c n" and "m \<in> set (path n)" and "g \<in> set (path n)" and "height g \<le> height m"
  shows "g \<in> set (path m)"
proof -
  have "nat (height g) < Suc (nat (height m))" using assms(4) by (simp add: nat_mono less_Suc_eq_le)
  then show ?thesis
    using path_nth [OF assms(1,3)] path_prefix [OF assms(1,2), symmetric]
    by (metis in_set_conv_nth length_take min_less_iff_conj nth_take)
qed

text \<open>C15: The fork of a node from a chain view is the last block the two branches share: it lies on both, no block on
  both is higher, and there is none only when the branches share no block at all.\<close>

theorem findFork_last_common:
  assumes "view_of c v t" and "chain_node c n"
  shows "case findFork v (Some n) of
           None \<Rightarrow> set (path n) \<inter> set (path t) = {}
         | Some f \<Rightarrow> f \<in> set (path n) \<inter> set (path t)
             \<and> (\<forall>g \<in> set (path n) \<inter> set (path t). height g \<le> height f)"
proof -
  have t: "chain_node c t" "length v = length (path t)" using assms(1) by (auto simp: view_of_def)
  have vh: "view_height v = height t"
    using length_path [OF t(1)] chain_node_height [OF t(1)] t(2) by (simp add: view_height_def i32_id)
  obtain m where m: "findFork v (Some n) = walk_back v (Some m)" "chain_node c m" "m \<in> set (path n)"
    and below: "\<And>g. g \<in> set (path n) \<Longrightarrow> g \<in> set (path t) \<Longrightarrow> height g \<le> height m"
  proof (cases "height n > height t")
    case True
    obtain m where m: "Ancestor n (height t) = Some m" "chain_node c m" "height m = height t"
      using Ancestor_Some [OF assms(2), of "height t"] True chain_node_height [OF t(1)] by auto
    show thesis
      using that [of m] m True Ancestor_in_path [OF assms(2) m(1)] path_chain_node [OF t(1)]
      by (simp add: findFork_def vh)
  next
    case False
    show thesis using that [of n] False assms(2) path_self path_chain_node [OF assms(2)]
      by (simp add: findFork_def vh)
  qed
  have sub: "set (path m) \<subseteq> set (path n)" by (rule path_trans [OF assms(2) m(3)])
  have in_m: "g \<in> set (path m)" if "g \<in> set (path n)" "g \<in> set (path t)" for g
    by (rule path_below [OF assms(2) m(3) that(1) below [OF that]])
  show ?thesis
  proof (cases "findFork v (Some n)")
    case None
    with m walk_back_path [OF assms(1) m(2)] have "List.find (\<lambda>m. m \<in> set (path t)) (rev (path m)) = None" by simp
    from find_rev_path_None [OF this] in_m None show ?thesis by auto
  next
    case (Some f)
    with m walk_back_path [OF assms(1) m(2)] have "List.find (\<lambda>m. m \<in> set (path t)) (rev (path m)) = Some f" by simp
    from find_rev_path [OF m(2) this] in_m sub Some show ?thesis by auto
  qed
qed

lemma sample_differ: "node2 \<noteq> node2a"
  by (metis sample_times(3,4) numeral_eq_iff num.distinct(5))

theorem findFork_last_common_witness: "findFork (map Some [node0, node1, node2]) (Some node2a) = Some node1"
proof -
  have "node1 \<in> set (path node2a) \<inter> set (path node2)" by (simp add: sample_path)
  moreover have "node2a \<notin> set (path node2)"
    using sample_differ sample_heights by (auto simp: sample_path simp del: sample_heights)
  ultimately show ?thesis
    using findFork_last_common [OF sample_view node2a_chain]
    by (auto simp: sample_path split: option.splits)
qed

end
