(* ===== verification/Chain_Deploy.thy ===== *)
theory Chain_Deploy
  imports Chain_Nodes "HOL-Library.Signed_Division"
begin

unbundle bit_operations_syntax

text \<open>
  Network parameters (\<open>btcd/chaincfg/params.go\<close>, \<open>deployment_time_frame.go\<close>) and the votes of the miners on rule
  changes (\<open>btcd/blockchain/thresholdstate.go\<close>, \<open>versionbits.go\<close>). A checker is the interface
  \<open>thresholdConditionChecker\<close> as a record of functions; its condition may change a state of the caller (the caches of
  the deployments, when unknown rules are watched for). The cached search through the windows computes the state that
  the transitions of BIP0009 give from the first window on.
\<close>

section \<open>Network parameters\<close>

record ConsensusDeployment =
  BitNumber :: nat
  MinActivationHeight :: u32
  CustomActivationThreshold :: u32
  startTime :: int
  endTime :: int

record Checkpoint =
  cp_Height :: int
  cp_Hash :: bytes

record Params =
  GenesisHash :: bytes
  PowLimit :: int
  PowLimitBits :: u32
  PoWNoRetargeting :: bool
  BIP0034Height :: int
  BIP0065Height :: int
  BIP0066Height :: int
  CoinbaseMaturity :: u16
  SubsidyReductionInterval :: int
  TargetTimespan :: int
  TargetTimePerBlock :: int
  RetargetAdjustmentFactor :: int
  ReduceMinDifficulty :: bool
  MinDiffReductionTime :: int
  params_Checkpoints :: "Checkpoint list"
  params_RuleChangeActivationThreshold :: u32
  params_MinerConfirmationWindow :: u32
  Deployments :: "ConsensusDeployment list"

text \<open>Durations are nanoseconds; \<open>time.Time{}\<close> is the first instant of the year one.\<close>

definition time_Second :: int where "time_Second = 1000000000"
definition zero_time :: int where "zero_time = time_Unix (- 62135596800)"

definition deployment :: "nat \<Rightarrow> int \<Rightarrow> int \<Rightarrow> u32 \<Rightarrow> u32 \<Rightarrow> ConsensusDeployment" where
  "deployment bitno begin_at end_at thr minh =
     \<lparr>BitNumber = bitno, MinActivationHeight = minh, CustomActivationThreshold = thr, startTime = begin_at, endTime = end_at\<rparr>"

definition DeploymentTestDummy :: nat where "DeploymentTestDummy = 0"
definition DeploymentTestDummyMinActivation :: nat where "DeploymentTestDummyMinActivation = 1"
definition DeploymentCSV :: nat where "DeploymentCSV = 2"
definition DeploymentSegwit :: nat where "DeploymentSegwit = 3"
definition DeploymentTaproot :: nat where "DeploymentTaproot = 4"
definition DefinedDeployments :: nat where "DefinedDeployments = 5"

definition MainNetParams :: Params where
  "MainNetParams =
     \<lparr>GenesisHash = [0x6f, 0xe2, 0x8c, 0x0a, 0xb6, 0xf1, 0xb3, 0x72, 0xc1, 0xa6, 0xa2, 0x46, 0xae, 0x63, 0xf7, 0x4f,
        0x93, 0x1e, 0x83, 0x65, 0xe1, 0x5a, 0x08, 0x9c, 0x68, 0xd6, 0x19, 0x00, 0x00, 0x00, 0x00, 0x00],
      PowLimit = 2 ^ 224 - 1, PowLimitBits = 0x1d00ffff, PoWNoRetargeting = False,
      BIP0034Height = 227931, BIP0065Height = 388381, BIP0066Height = 363725,
      CoinbaseMaturity = 1, SubsidyReductionInterval = 210000,
      TargetTimespan = 14 * 24 * 3600 * time_Second, TargetTimePerBlock = 600 * time_Second,
      RetargetAdjustmentFactor = 4, ReduceMinDifficulty = True, MinDiffReductionTime = 0,
      params_Checkpoints = [],
      params_RuleChangeActivationThreshold = 1916, params_MinerConfirmationWindow = 2016,
      Deployments =
        [deployment 28 (time_Unix 11991456010) (time_Unix 1230767999) 0 0,
         deployment 22 zero_time zero_time 1815 100000,
         deployment 0 (time_Unix 1462060800) (time_Unix 1493596800) 0 0,
         deployment 1 (time_Unix 1479168000) (time_Unix 1510704000) 0 0,
         deployment 2 (time_Unix 1619222400) (time_Unix 1628640000) 1815 709632]\<rparr>"

definition RegressionNetParams :: Params where
  "RegressionNetParams =
     \<lparr>GenesisHash = [0x06, 0x22, 0x6e, 0x46, 0x11, 0x1a, 0x0b, 0x59, 0xca, 0xaf, 0x12, 0x60, 0x43, 0xeb, 0x5b, 0xbf,
        0x28, 0xc3, 0x4f, 0x3a, 0x5e, 0x33, 0x2a, 0x1f, 0xc7, 0xb2, 0xb7, 0x3c, 0xf1, 0x88, 0x91, 0x0f],
      PowLimit = 2 ^ 255 - 1, PowLimitBits = 0x207fffff, PoWNoRetargeting = True,
      BIP0034Height = 100000000, BIP0065Height = 1351, BIP0066Height = 1251,
      CoinbaseMaturity = 100, SubsidyReductionInterval = 150,
      TargetTimespan = 14 * 24 * 3600 * time_Second, TargetTimePerBlock = 600 * time_Second,
      RetargetAdjustmentFactor = 4, ReduceMinDifficulty = True, MinDiffReductionTime = 1200 * time_Second,
      params_Checkpoints = [],
      params_RuleChangeActivationThreshold = 108, params_MinerConfirmationWindow = 144,
      Deployments =
        [deployment 28 zero_time zero_time 0 0,
         deployment 22 zero_time zero_time 72 600,
         deployment 0 zero_time zero_time 0 0,
         deployment 1 zero_time zero_time 0 0,
         deployment 2 zero_time zero_time 108 0]\<rparr>"

section \<open>Checkers\<close>

datatype ThresholdState = ThresholdDefined | ThresholdStarted | ThresholdLockedIn | ThresholdActive | ThresholdFailed

record 's thresholdConditionChecker =
  HasStarted :: "blockNode \<Rightarrow> bool"
  HasEnded :: "blockNode \<Rightarrow> bool"
  RuleChangeActivationThreshold :: u32
  MinerConfirmationWindow :: u32
  EligibleToActivate :: "blockNode \<Rightarrow> bool"
  IsSpeedy :: bool
  Condition :: "blockNode \<Rightarrow> 's \<Rightarrow> (bool \<times> 's) rule"

text \<open>\<open>b.index\<close>, as far as the clock needs it: the node of a hash.\<close>

type_synonym node_index = "bytes \<Rightarrow> blockNode option"

definition PastMedianTime :: "crypto \<Rightarrow> node_index \<Rightarrow> BlockHeader \<Rightarrow> int rule" where
  "PastMedianTime c index blockHeader =
     (case index (PrevBlock blockHeader) of
        None \<Rightarrow> Inl OtherError
      | Some prevNode \<Rightarrow> CalcPastMedianTime (Some (newBlockNode c blockHeader (Some prevNode))))"

text \<open>The clock is the chain, once \<open>SynchronizeClock\<close> has been called; before, it is nil.\<close>

definition starter_HasStarted :: "crypto \<Rightarrow> node_index option \<Rightarrow> int \<Rightarrow> BlockHeader \<Rightarrow> bool rule" where
  "starter_HasStarted c blockClock start blkHeader =
     (case blockClock of
        None \<Rightarrow> Inl OtherError
      | Some index \<Rightarrow>
          if start = zero_time then Inr True
          else rbind (PastMedianTime c index blkHeader) (\<lambda>medianTime. Inr (medianTime > start \<or> medianTime = start)))"

definition ender_HasEnded :: "crypto \<Rightarrow> node_index option \<Rightarrow> int \<Rightarrow> BlockHeader \<Rightarrow> bool rule" where
  "ender_HasEnded c blockClock fin blkHeader =
     (case blockClock of
        None \<Rightarrow> Inl OtherError
      | Some index \<Rightarrow>
          if fin = zero_time then Inr False
          else rbind (PastMedianTime c index blkHeader) (\<lambda>medianTime. Inr (medianTime > fin \<or> medianTime = fin)))"

text \<open>The error of the clock is discarded, with the value \<open>false\<close> that comes with it.\<close>

definition no_error :: "bool rule \<Rightarrow> bool" where
  "no_error r = (case r of Inl e \<Rightarrow> False | Inr b \<Rightarrow> b)"

definition vbTopBits :: u32 where "vbTopBits = 0x20000000"
definition vbTopMask :: u32 where "vbTopMask = 0xe0000000"
definition vbNumBits :: nat where "vbNumBits = 29"

definition deploymentChecker :: "crypto \<Rightarrow> node_index \<Rightarrow> Params \<Rightarrow> ConsensusDeployment \<Rightarrow> 's thresholdConditionChecker" where
  "deploymentChecker c index params d =
     \<lparr>HasStarted = (\<lambda>blkNode. no_error (starter_HasStarted c (Some index) (startTime d) (node_Header blkNode))),
      HasEnded = (\<lambda>blkNode. no_error (ender_HasEnded c (Some index) (endTime d) (node_Header blkNode))),
      RuleChangeActivationThreshold =
        (if CustomActivationThreshold d \<noteq> 0 then CustomActivationThreshold d
         else params_RuleChangeActivationThreshold params),
      MinerConfirmationWindow = params_MinerConfirmationWindow params,
      EligibleToActivate = (\<lambda>blkNode.
        if MinActivationHeight d = 0 then True
        else of_int (height blkNode) + 1 \<ge> MinActivationHeight d),
      IsSpeedy = (MinActivationHeight d \<noteq> 0 \<or> CustomActivationThreshold d \<noteq> 0),
      Condition = (\<lambda>node s.
        let conditionMask = push_bit (BitNumber d) (1 :: u32); version = node_version node in
        Inr (version AND vbTopMask = vbTopBits \<and> version AND conditionMask \<noteq> 0, s))\<rparr>"

section \<open>Transitions\<close>

fun count_votes :: "('s, 'b) thresholdConditionChecker_scheme \<Rightarrow> nat \<Rightarrow> blockNode option \<Rightarrow> u32 \<Rightarrow> 's \<Rightarrow> (u32 \<times> 's) rule" where
  "count_votes checker 0 node cnt s = Inr (cnt, s)"
| "count_votes checker (Suc k) None cnt s = Inl Panic"
| "count_votes checker (Suc k) (Some node) cnt s =
     rbind (Condition checker node s) (\<lambda>(yes, s).
     count_votes checker k (parent node) (if yes then cnt + 1 else cnt) s)"

definition thresholdStateTransition ::
    "ThresholdState \<Rightarrow> blockNode \<Rightarrow> ('s, 'b) thresholdConditionChecker_scheme \<Rightarrow> int \<Rightarrow> 's \<Rightarrow> (ThresholdState \<times> 's) rule" where
  "thresholdStateTransition state prevNode checker confirmationWindow s =
     (case state of
        ThresholdDefined \<Rightarrow>
          if \<not> IsSpeedy checker \<and> HasEnded checker prevNode then Inr (ThresholdFailed, s)
          else if HasStarted checker prevNode then Inr (ThresholdStarted, s)
          else Inr (ThresholdDefined, s)
      | ThresholdStarted \<Rightarrow>
          if \<not> IsSpeedy checker \<and> HasEnded checker prevNode then Inr (ThresholdFailed, s)
          else rbind (count_votes checker (nat confirmationWindow) (Some prevNode) 0 s) (\<lambda>(cnt, s).
            if cnt \<ge> RuleChangeActivationThreshold checker then Inr (ThresholdLockedIn, s)
            else if IsSpeedy checker \<and> HasEnded checker prevNode then Inr (ThresholdFailed, s)
            else Inr (ThresholdStarted, s))
      | ThresholdLockedIn \<Rightarrow>
          if \<not> EligibleToActivate checker prevNode then Inr (ThresholdLockedIn, s)
          else Inr (ThresholdActive, s)
      | ThresholdActive \<Rightarrow> Inr (ThresholdActive, s)
      | ThresholdFailed \<Rightarrow> Inr (ThresholdFailed, s))"

section \<open>The cached state of a window\<close>

type_synonym thresholdStateCache = "bytes \<Rightarrow> ThresholdState option"

lemma ancestor_from_size: "ancestor_from n h = Some m \<Longrightarrow> height n \<noteq> h \<Longrightarrow> size m < size n"
proof (induction n h rule: ancestor_from.induct)
  case (1 n h)
  have "size m < size n" if p: "parent n = Some p" "ancestor_from p h = Some m"
    and IH: "height p \<noteq> h \<Longrightarrow> size m < size p" for p
  proof (cases "height p = h")
    case True
    with p(2) have "m = p" by (simp add: ancestor_from.simps)
    with size_parent [OF p(1)] show ?thesis by simp
  next
    case False
    with IH size_parent [OF p(1)] show ?thesis by simp
  qed
  note up = this
  have skip: "size m < size n" if a: "ancestor n = Some a" "ancestor_from a h = Some m"
    and IH: "height a \<noteq> h \<Longrightarrow> size m < size a" for a
  proof (cases "height a = h")
    case True
    with a(2) have "m = a" by (simp add: ancestor_from.simps)
    with size_ancestor [OF a(1)] show ?thesis by simp
  next
    case False
    with IH size_ancestor [OF a(1)] show ?thesis by simp
  qed
  show ?case
    using 1 up skip by (auto simp: ancestor_from.simps [of n h] split: option.splits if_splits)
qed

lemma RelativeAncestor_size: "RelativeAncestor n d = Some m \<Longrightarrow> i32 (height n - d) \<noteq> height n \<Longrightarrow> size m < size n"
  by (auto simp: RelativeAncestor_def Ancestor_def ancestor_from_size split: if_splits)

lemma i32_moves: "- (2 ^ 31) \<le> d \<Longrightarrow> d < 2 ^ 31 \<Longrightarrow> d \<noteq> 0 \<Longrightarrow> i32 (h - d) \<noteq> h"
proof
  assume d: "- (2 ^ 31) \<le> d" "d < 2 ^ 31" "d \<noteq> 0" and eq: "i32 (h - d) = h"
  have "take_bit 32 (i32 (h - d)) = take_bit 32 (h - d)"
    by (simp add: i32_def take_bit_signed_take_bit)
  then have "h mod 2 ^ 32 = (h - d) mod 2 ^ 32" using eq by (simp add: take_bit_eq_mod)
  then have "2 ^ 32 dvd h - (h - d)" by (rule mod_eq_dvd_iff [THEN iffD1])
  then have "2 ^ 32 dvd d" by simp
  then show False using d by (auto simp: zdvd_not_zless dest: zdvd_imp_le [of _ "- d"] zdvd_imp_le)
qed

lemma window_moves: "w \<noteq> 0 \<Longrightarrow> i32 (height n - sint (w :: u32)) \<noteq> height n"
proof -
  assume "w \<noteq> 0"
  then have "sint w \<noteq> 0" using signed_word_eqI [of w 0] by auto
  moreover have "- (2 ^ 31) \<le> sint w" "sint w < 2 ^ 31"
    using sint_greater_eq [of w] sint_less [of w] by auto
  ultimately show ?thesis by (intro i32_moves)
qed

text \<open>The loop back through the windows: the nodes whose state is needed, the node where the search ends and the cache.
  A window of no blocks has failed in the remainder before the loop.\<close>

function (sequential) needed_states ::
    "('s, 'b) thresholdConditionChecker_scheme \<Rightarrow> u32 \<Rightarrow> blockNode option \<Rightarrow> blockNode list \<Rightarrow> thresholdStateCache
     \<Rightarrow> blockNode list \<times> blockNode option \<times> thresholdStateCache" where
  "needed_states checker window None needed cache = (needed, None, cache)"
| "needed_states checker window (Some prevNode) needed cache =
     (if cache (node_hash prevNode) \<noteq> None \<or> window = 0 then (needed, Some prevNode, cache)
      else if \<not> HasStarted checker prevNode
           then (needed, Some prevNode, cache(node_hash prevNode \<mapsto> ThresholdDefined))
      else needed_states checker window (RelativeAncestor prevNode (sint window)) (needed @ [prevNode]) cache)"
  by pat_completeness auto
termination
proof (relation "measure (\<lambda>(ch, w, p, n, ca). case p of None \<Rightarrow> 0 | Some m \<Rightarrow> Suc (size m))", goal_cases)
  case 1
  show ?case by simp
next
  case (2 checker window prevNode needed cache)
  then show ?case using window_moves [of window prevNode]
    by (auto split: option.split dest: RelativeAncestor_size)
qed

fun step_states ::
    "('s, 'b) thresholdConditionChecker_scheme \<Rightarrow> int \<Rightarrow> blockNode list \<Rightarrow> ThresholdState \<Rightarrow> thresholdStateCache \<Rightarrow> 's
     \<Rightarrow> (ThresholdState \<times> thresholdStateCache \<times> 's) rule" where
  "step_states checker window [] state cache s = Inr (state, cache, s)"
| "step_states checker window (prevNode # ns) state cache s =
     rbind (thresholdStateTransition state prevNode checker window s) (\<lambda>(state, s).
     step_states checker window ns state (cache(node_hash prevNode \<mapsto> state)) s)"

text \<open>\<open>thresholdState\<close> with the cache and the state of the conditions returned; the nodes collected are handled from
  the oldest one on.\<close>

definition thresholdState ::
    "blockNode option \<Rightarrow> ('s, 'b) thresholdConditionChecker_scheme \<Rightarrow> thresholdStateCache \<Rightarrow> 's
     \<Rightarrow> (ThresholdState \<times> thresholdStateCache \<times> 's) rule" where
  "thresholdState prevNode checker cache s =
     (let confirmationWindow = sint (MinerConfirmationWindow checker) in
      case prevNode of
        None \<Rightarrow> Inr (ThresholdDefined, cache, s)
      | Some p \<Rightarrow>
          if i32 (height p + 1) < confirmationWindow then Inr (ThresholdDefined, cache, s)
          else if confirmationWindow = 0 then Inl Panic
          else
            let prevNode = Ancestor p (i32 (height p - i32 (height p + 1) smod confirmationWindow));
                (needed, prevNode, cache) = needed_states checker (MinerConfirmationWindow checker) prevNode [] cache;
                state = (case prevNode of None \<Rightarrow> Inr ThresholdDefined
                         | Some n \<Rightarrow> (case cache (node_hash n) of None \<Rightarrow> Inl AssertError | Some st \<Rightarrow> Inr st))
            in rbind state (\<lambda>state. step_states checker confirmationWindow (rev needed) state cache s))"

section \<open>Deployments and versions\<close>

definition deploymentState ::
    "crypto \<Rightarrow> node_index \<Rightarrow> Params \<Rightarrow> blockNode option \<Rightarrow> nat \<Rightarrow> thresholdStateCache list
     \<Rightarrow> (ThresholdState \<times> thresholdStateCache list) rule" where
  "deploymentState c index params prevNode deploymentID caches =
     (if deploymentID > length (Deployments params) then Inl OtherError
      else if deploymentID \<ge> length (Deployments params) \<or> deploymentID \<ge> length caches then Inl Panic
      else
        let checker = deploymentChecker c index params (Deployments params ! deploymentID) in
        rbind (thresholdState prevNode checker (caches ! deploymentID) ()) (\<lambda>(state, cache, _).
        Inr (state, caches[deploymentID := cache])))"

fun version_bits ::
    "crypto \<Rightarrow> node_index \<Rightarrow> Params \<Rightarrow> blockNode option \<Rightarrow> ConsensusDeployment list \<Rightarrow> nat \<Rightarrow> u32 \<Rightarrow> thresholdStateCache list
     \<Rightarrow> (u32 \<times> thresholdStateCache list) rule" where
  "version_bits c index params prevNode [] did expected caches = Inr (expected, caches)"
| "version_bits c index params prevNode (d # ds) did expected caches =
     (if did \<ge> length caches then Inl Panic
      else rbind (thresholdState prevNode (deploymentChecker c index params d) (caches ! did) ()) (\<lambda>(state, cache, _).
        version_bits c index params prevNode ds (did + 1)
          (if state = ThresholdStarted \<or> state = ThresholdLockedIn
           then expected OR push_bit (BitNumber d) 1 else expected)
          (caches[did := cache])))"

definition calcNextBlockVersion ::
    "crypto \<Rightarrow> node_index \<Rightarrow> Params \<Rightarrow> blockNode option \<Rightarrow> thresholdStateCache list \<Rightarrow> (u32 \<times> thresholdStateCache list) rule" where
  "calcNextBlockVersion c index params prevNode caches =
     version_bits c index params prevNode (Deployments params) 0 vbTopBits caches"

definition bitConditionChecker :: "crypto \<Rightarrow> node_index \<Rightarrow> Params \<Rightarrow> nat \<Rightarrow> thresholdStateCache list thresholdConditionChecker" where
  "bitConditionChecker c index params bitno =
     \<lparr>HasStarted = (\<lambda>_. True), HasEnded = (\<lambda>_. False),
      RuleChangeActivationThreshold = params_RuleChangeActivationThreshold params,
      MinerConfirmationWindow = params_MinerConfirmationWindow params,
      EligibleToActivate = (\<lambda>_. True), IsSpeedy = False,
      Condition = (\<lambda>node caches.
        let conditionMask = push_bit bitno (1 :: u32); version = node_version node in
        if version AND vbTopMask \<noteq> vbTopBits then Inr (False, caches)
        else if version AND conditionMask = 0 then Inr (False, caches)
        else rbind (calcNextBlockVersion c index params (parent node) caches) (\<lambda>(expectedVersion, caches).
          Inr (expectedVersion AND conditionMask = 0, caches)))\<rparr>"

section \<open>BIP0009\<close>

text \<open>The reference: the votes are the blocks of the window that set the bit, and the state of a window follows from
  the state of the one before it, with nothing cached.\<close>

definition signals :: "ConsensusDeployment \<Rightarrow> blockNode \<Rightarrow> bool" where
  "signals d n \<longleftrightarrow> node_version n AND vbTopMask = vbTopBits \<and> node_version n AND push_bit (BitNumber d) 1 \<noteq> 0"

definition votes :: "ConsensusDeployment \<Rightarrow> nat \<Rightarrow> blockNode \<Rightarrow> nat" where
  "votes d k n = length (filter (signals d) (take k (rev (path n))))"

definition bip9_step ::
    "('s, 'b) thresholdConditionChecker_scheme \<Rightarrow> ConsensusDeployment \<Rightarrow> ThresholdState \<Rightarrow> blockNode \<Rightarrow> ThresholdState" where
  "bip9_step chk d st n =
     (case st of
        ThresholdDefined \<Rightarrow>
          if \<not> IsSpeedy chk \<and> HasEnded chk n then ThresholdFailed
          else if HasStarted chk n then ThresholdStarted else ThresholdDefined
      | ThresholdStarted \<Rightarrow>
          if \<not> IsSpeedy chk \<and> HasEnded chk n then ThresholdFailed
          else if unat (RuleChangeActivationThreshold chk) \<le> votes d (nat (sint (MinerConfirmationWindow chk))) n
               then ThresholdLockedIn
          else if HasEnded chk n then ThresholdFailed else ThresholdStarted
      | ThresholdLockedIn \<Rightarrow> if EligibleToActivate chk n then ThresholdActive else ThresholdLockedIn
      | _ \<Rightarrow> st)"

function (sequential) bip9 ::
    "('s, 'b) thresholdConditionChecker_scheme \<Rightarrow> ConsensusDeployment \<Rightarrow> blockNode option \<Rightarrow> ThresholdState" where
  "bip9 chk d None = ThresholdDefined"
| "bip9 chk d (Some n) =
     (if MinerConfirmationWindow chk = 0 then ThresholdDefined
      else bip9_step chk d (bip9 chk d (RelativeAncestor n (sint (MinerConfirmationWindow chk)))) n)"
  by pat_completeness auto
termination
proof (relation "measure (\<lambda>(chk, d, p). case p of None \<Rightarrow> 0 | Some m \<Rightarrow> Suc (size m))", goal_cases)
  case 1
  show ?case by simp
next
  case (2 chk d n)
  then show ?case using window_moves [of "MinerConfirmationWindow chk" n]
    by (auto split: option.split dest: RelativeAncestor_size)
qed

declare bip9.simps(2) [simp del] needed_states.simps(2) [simp del]

section \<open>The clock of the index\<close>

text \<open>The median time of a node, and an index that holds the branches of its nodes, each block later than the median
  time of its parent.\<close>

definition mtp :: "blockNode \<Rightarrow> int" where
  "mtp n = time_Unix (median (last_times medianTimeBlocks (Some n)))"

definition known :: "node_index \<Rightarrow> blockNode \<Rightarrow> bool" where
  "known index n \<longleftrightarrow> index (node_hash n) = Some n"

definition good_index :: "crypto \<Rightarrow> node_index \<Rightarrow> bool" where
  "good_index c index \<longleftrightarrow>
     index (replicate 32 0) = None
     \<and> (\<forall>n. known index n \<longrightarrow> chain_node c n
          \<and> (\<forall>p. parent n = Some p \<longrightarrow> known index p \<and> mtp p < time_Unix (timestamp n)))"

lemma CalcPastMedianTime_mtp: "CalcPastMedianTime (Some n) = Inr (mtp n)"
  by (simp add: CalcPastMedianTime_Some mtp_def)

lemma good_index_parent:
  "good_index c index \<Longrightarrow> known index n \<Longrightarrow> parent n = Some p \<Longrightarrow> known index p \<and> mtp p \<le> mtp n"
  using median_time_step [of n p "mtp p"] by (fastforce simp: good_index_def CalcPastMedianTime_mtp)

lemma good_index_chain: "good_index c index \<Longrightarrow> known index n \<Longrightarrow> chain_node c n"
  by (simp add: good_index_def)

lemma known_nth_parent:
  assumes "good_index c index" and "known index n" and "nth_parent k n = Some m"
  shows "known index m \<and> mtp m \<le> mtp n"
  using assms(2,3)
proof (induction k arbitrary: n)
  case (Suc k)
  then obtain p where p: "parent n = Some p" "nth_parent k p = Some m" by (auto split: option.splits)
  with Suc.IH [of p] good_index_parent [OF assms(1) Suc.prems(1) p(1)] show ?case by auto
qed simp

lemma known_Ancestor:
  assumes "good_index c index" and "known index n" and "Ancestor n h = Some m"
  shows "known index m \<and> mtp m \<le> mtp n \<and> height m = h"
proof -
  have n: "chain_node c n" by (rule good_index_chain [OF assms(1,2)])
  then have h: "0 \<le> h" "h \<le> height n" and np: "nth_parent (nat (height n - h)) n = Some m"
    using assms(3) by (auto simp: Ancestor_parents split: if_splits)
  obtain m' where "Ancestor n h = Some m'" "height m' = h" by (rule Ancestor_Some [OF n h])
  then show ?thesis using known_nth_parent [OF assms(1,2) np] assms(3) by simp
qed

lemma node_Header_times:
  assumes "parent n = Some p"
  shows "last_times k (Some (newBlockNode c (node_Header n) (Some p))) = last_times k (Some n)"
  using assms by (cases k) (simp_all add: newBlockNode_def node_Header_def)

lemma PastMedianTime_known:
  assumes "good_index c index" and "known index n"
  shows "PastMedianTime c index (node_Header n) = (if parent n = None then Inl OtherError else Inr (mtp n))"
proof (cases "parent n")
  case None
  then show ?thesis using assms(1) by (simp add: PastMedianTime_def node_Header_def good_index_def)
next
  case (Some p)
  then have "index (PrevBlock (node_Header n)) = Some p"
    using good_index_parent [OF assms Some] by (simp add: node_Header_def known_def)
  then show ?thesis
    using Some by (simp add: PastMedianTime_def CalcPastMedianTime_Some mtp_def node_Header_times)
qed

section \<open>The states of a deployment\<close>

lemma HasStarted_known:
  assumes "good_index c index" and "known index n"
  shows "HasStarted (deploymentChecker c index params d) n
         \<longleftrightarrow> startTime d = zero_time \<or> (parent n \<noteq> None \<and> startTime d \<le> mtp n)"
  using PastMedianTime_known [OF assms]
  by (auto simp: deploymentChecker_def starter_HasStarted_def no_error_def)

lemma HasEnded_known:
  assumes "good_index c index" and "known index n"
  shows "HasEnded (deploymentChecker c index params d) n
         \<longleftrightarrow> endTime d \<noteq> zero_time \<and> parent n \<noteq> None \<and> endTime d \<le> mtp n"
  using PastMedianTime_known [OF assms]
  by (auto simp: deploymentChecker_def ender_HasEnded_def no_error_def)

text \<open>A deployment does not end before it starts. The search takes a deployment that has not started for defined,
  where the transitions ask first whether it has ended, so that the two differ on a deployment that ends first; of
  the deployments of the main network \<open>DeploymentTestDummy\<close> is such a one.\<close>

definition frame_ok :: "ConsensusDeployment \<Rightarrow> bool" where
  "frame_ok d \<longleftrightarrow> endTime d = zero_time \<or> startTime d = zero_time \<or> startTime d \<le> endTime d"

lemma mainnet_frames:
  assumes "k < DefinedDeployments"
  shows "frame_ok (Deployments MainNetParams ! k) \<longleftrightarrow> k \<noteq> DeploymentTestDummy"
proof -
  have "k \<in> {0, 1, 2, 3, 4}" using assms by (auto simp: DefinedDeployments_def)
  then show ?thesis
    by (auto simp: frame_ok_def MainNetParams_def deployment_def DeploymentTestDummy_def time_Unix_def zero_time_def)
qed

lemma ended_started:
  assumes "good_index c index" and "known index n" and "frame_ok d"
    and "HasEnded (deploymentChecker c index params d) n"
  shows "HasStarted (deploymentChecker c index params d) n"
  using assms by (auto simp: HasStarted_known HasEnded_known frame_ok_def)

lemma count_votes_deployment:
  assumes "k \<le> length (path n)"
  shows "count_votes (deploymentChecker c index params d) k (Some n) cnt s = Inr (cnt + of_nat (votes d k n), s)"
  using assms
proof (induction k arbitrary: n cnt)
  case 0
  show ?case by (simp add: votes_def)
next
  case (Suc k)
  define chk :: "'a thresholdConditionChecker" where "chk = deploymentChecker c index params d"
  have cond: "Condition chk n s = Inr (signals d n, s)"
    by (simp add: chk_def deploymentChecker_def signals_def Let_def)
  show ?case
  proof (cases "parent n")
    case None
    then have "k = 0" using Suc.prems by (simp add: path_None)
    with None cond show ?thesis by (simp add: votes_def path_None flip: chk_def)
  next
    case (Some p)
    then have "k \<le> length (path p)" using Suc.prems by (simp add: path_Some)
    with Suc.IH [of p] Some cond show ?thesis by (simp add: votes_def path_Some flip: chk_def)
  qed
qed

lemma votes_le: "votes d k n \<le> k"
  unfolding votes_def by (metis length_filter_le length_take min.bounded_iff)

definition window_end :: "int \<Rightarrow> blockNode \<Rightarrow> bool" where
  "window_end W n \<longleftrightarrow> W dvd height n + 1"

lemma window_full:
  assumes "chain_node c n" and "window_end W n" and "0 < W"
  shows "nat W \<le> length (path n)"
proof -
  have "W \<le> height n + 1"
    using assms chain_node_height [OF assms(1)] by (auto simp: window_end_def intro: zdvd_imp_le)
  then show ?thesis using length_path [OF assms(1)] by linarith
qed

lemma transition_deployment:
  fixes chk :: "'s thresholdConditionChecker"
  assumes "chain_node c n" and "window_end W n" and "0 < W"
    and "chk = deploymentChecker c' index params d" and "W = sint (MinerConfirmationWindow chk)"
  shows "thresholdStateTransition st n chk W s = Inr (bip9_step chk d st n, s)"
proof -
  have cv: "count_votes chk (nat W) (Some n) 0 s = Inr (of_nat (votes d (nat W) n), s)"
    by (simp add: assms(4) count_votes_deployment [OF window_full [OF assms(1-3)]])
  have "W < 2 ^ 31" using sint_less [of "MinerConfirmationWindow chk"] assms(5) by simp
  then have "votes d (nat W) n < 2 ^ 32" using votes_le [of d "nat W" n] by simp
  then have cmp: "RuleChangeActivationThreshold chk \<le> of_nat (votes d (nat W) n)
    \<longleftrightarrow> unat (RuleChangeActivationThreshold chk) \<le> votes d (nat W) n"
    by (simp add: word_le_nat_alt unat_of_nat)
  show ?thesis
    unfolding thresholdStateTransition_def bip9_step_def assms(5) [symmetric] cv
    by (cases st) (auto simp: cmp)
qed

lemma back_lower:
  assumes "good_index c index" and "known index n" and "RelativeAncestor n (sint w) = Some a" and "w \<noteq> (0 :: u32)"
  shows "height a < height n"
proof -
  have anc: "Ancestor n (i32 (height n - sint w)) = Some a" using assms(3) by (simp add: RelativeAncestor_def)
  then have "i32 (height n - sint w) \<le> height n" by (simp add: Ancestor_def split: if_splits)
  moreover have "height a = i32 (height n - sint w)" using known_Ancestor [OF assms(1,2) anc] by simp
  ultimately show ?thesis using window_moves [OF assms(4), of n] by simp
qed

lemma unstarted_defined:
  fixes chk :: "'s thresholdConditionChecker"
  assumes "good_index c index" and "frame_ok d" and "chk = deploymentChecker c index params d"
    and "known index n" and "\<not> HasStarted chk n"
  shows "bip9 chk d (Some n) = ThresholdDefined"
  using assms(4,5)
proof (induction "size n" arbitrary: n rule: less_induct)
  case less
  define w where "w = MinerConfirmationWindow chk"
  show ?case
  proof (cases "w = 0")
    case True
    then show ?thesis by (simp add: bip9.simps w_def)
  next
    case False
    have prev: "bip9 chk d (RelativeAncestor n (sint w)) = ThresholdDefined"
    proof (cases "RelativeAncestor n (sint w)")
      case (Some a)
      then have a: "known index a" "mtp a \<le> mtp n" "size a < size n"
        using known_Ancestor [OF assms(1) less.prems(1)] RelativeAncestor_size [OF Some window_moves [OF False]]
        by (auto simp: RelativeAncestor_def)
      moreover have "\<not> HasStarted chk a"
      proof
        assume "HasStarted chk a"
        then have "startTime d = zero_time \<or> parent a \<noteq> None \<and> startTime d \<le> mtp a"
          by (simp add: assms(3) HasStarted_known [OF assms(1) a(1)])
        moreover have "parent n \<noteq> None"
          using back_lower [OF assms(1) less.prems(1) Some False]
            chain_node_height [OF good_index_chain [OF assms(1) a(1)]]
            chain_node_genesis [OF good_index_chain [OF assms(1) less.prems(1)]] by auto
        ultimately show False
          using less.prems(2) a(2) by (auto simp: assms(3) HasStarted_known [OF assms(1) less.prems(1)])
      qed
      ultimately show ?thesis using less.hyps Some by simp
    qed simp
    have "\<not> HasEnded chk n"
      using less.prems(2) unfolding assms(3) by (auto dest: ended_started [OF assms(1) less.prems(1) assms(2)])
    with prev less.prems(2) show ?thesis
      by (simp add: bip9.simps bip9_step_def flip: w_def)
  qed
qed

text \<open>A cache is sound when it holds the state of BIP0009 for every known node it has.\<close>

definition cache_sound ::
    "node_index \<Rightarrow> ('s, 'b) thresholdConditionChecker_scheme \<Rightarrow> ConsensusDeployment \<Rightarrow> thresholdStateCache \<Rightarrow> bool" where
  "cache_sound index chk d cache \<longleftrightarrow>
     (\<forall>n st. known index n \<longrightarrow> cache (node_hash n) = Some st \<longrightarrow> bip9 chk d (Some n) = st)"

lemma cache_sound_update:
  assumes "cache_sound index chk d cache" and "known index n" and "bip9 chk d (Some n) = st"
  shows "cache_sound index chk d (cache(node_hash n \<mapsto> st))"
  unfolding cache_sound_def
proof (intro allI impI)
  fix m st' assume m: "known index m" "(cache(node_hash n \<mapsto> st)) (node_hash m) = Some st'"
  show "bip9 chk d (Some m) = st'"
  proof (cases "node_hash m = node_hash n")
    case True
    then have "m = n" using m(1) assms(2) by (simp add: known_def)
    then show ?thesis using m(2) assms(3) by simp
  next
    case False
    then show ?thesis using m assms(1) by (simp add: cache_sound_def)
  qed
qed

lemma step_states_append:
  "step_states chk W (xs @ ys) st cache s =
     rbind (step_states chk W xs st cache s) (\<lambda>(st, cache, s). step_states chk W ys st cache s)"
  by (induction xs arbitrary: st cache s) (auto simp: rbind_assoc split: prod.split intro!: rbind_cong)

text \<open>What the search finds and the transitions from there on: the state of BIP0009 and a sound cache.\<close>

definition resume ::
    "('s, 'b) thresholdConditionChecker_scheme \<Rightarrow> int \<Rightarrow> blockNode list \<times> blockNode option \<times> thresholdStateCache \<Rightarrow> 's
     \<Rightarrow> (ThresholdState \<times> thresholdStateCache \<times> 's) rule" where
  "resume chk W found s =
     (case found of (needed, prevNode, cache) \<Rightarrow>
        rbind (case prevNode of None \<Rightarrow> Inr ThresholdDefined
               | Some n \<Rightarrow> (case cache (node_hash n) of None \<Rightarrow> Inl AssertError | Some st \<Rightarrow> Inr st))
          (\<lambda>state. step_states chk W (rev needed) state cache s))"

lemma needed_states_acc:
  "needed_states chk w p acc cache = (case needed_states chk w p [] cache of (ms, stop, cache') \<Rightarrow> (acc @ ms, stop, cache'))"
proof (induction p arbitrary: acc rule: measure_induct_rule [where f = "\<lambda>p. case p of None \<Rightarrow> 0 | Some m \<Rightarrow> Suc (size m)"])
  case (less p)
  show ?case
  proof (cases p)
    case (Some n)
    show ?thesis
    proof (cases "cache (node_hash n) \<noteq> None \<or> w = 0 \<or> \<not> HasStarted chk n")
      case True
      then show ?thesis using Some by (auto simp: needed_states.simps)
    next
      case False
      define q where "q = RelativeAncestor n (sint w)"
      have "w \<noteq> 0" using False by simp
      then have sz: "(case q of None \<Rightarrow> 0 | Some m \<Rightarrow> Suc (size m)) < Suc (size n)"
        using window_moves [of w n] by (auto simp: q_def split: option.split dest: RelativeAncestor_size)
      have "needed_states chk w p acc' cache = needed_states chk w q (acc' @ [n]) cache" for acc'
        using False Some by (simp add: needed_states.simps q_def)
      then show ?thesis
        using less.IH [of q "acc @ [n]"] less.IH [of q "[n]"] sz Some by (simp split: prod.split)
    qed
  qed simp
qed

lemma resume_bip9:
  fixes chk :: "'s thresholdConditionChecker"
  assumes "good_index c index" and "frame_ok d" and "chk = deploymentChecker c index params d"
    and W: "W = sint (MinerConfirmationWindow chk)" "0 < W"
    and "p = None \<or> (\<exists>n. p = Some n \<and> known index n \<and> window_end W n)" and "cache_sound index chk d cache"
  shows "\<exists>cache'. resume chk W (needed_states chk (MinerConfirmationWindow chk) p [] cache) s
           = Inr (bip9 chk d p, cache', s) \<and> cache_sound index chk d cache'"
  using assms(6)
proof (induction p rule: measure_induct_rule [where f = "\<lambda>p. case p of None \<Rightarrow> 0 | Some m \<Rightarrow> Suc (size m)"])
  case (less p)
  define w where "w = MinerConfirmationWindow chk"
  have w0: "w \<noteq> 0" using W by (auto simp: w_def)
  show ?case
  proof (cases p)
    case None
    then show ?thesis using assms(7) by (simp add: resume_def)
  next
    case (Some n)
    then have n: "known index n" "window_end W n" using less.prems by auto
    consider st where "cache (node_hash n) = Some st"
      | "cache (node_hash n) = None" "\<not> HasStarted chk n" | "cache (node_hash n) = None" "HasStarted chk n"
      by fastforce
    then show ?thesis
    proof cases
      case 1
      then have "bip9 chk d (Some n) = st" using assms(7) n(1) by (simp add: cache_sound_def)
      with 1 Some assms(7) show ?thesis by (simp add: resume_def needed_states.simps)
    next
      case 2
      have "bip9 chk d (Some n) = ThresholdDefined" by (rule unstarted_defined [OF assms(1-3) n(1) 2(2)])
      with 2 Some w0 cache_sound_update [OF assms(7) n(1)] show ?thesis
        by (auto simp: resume_def needed_states.simps w_def)
    next
      case 3
      define q where "q = RelativeAncestor n (sint w)"
      obtain ms stop cache0 where found: "needed_states chk w q [] cache = (ms, stop, cache0)"
        by (metis prod_cases3)
      have "needed_states chk w p [] cache = ([n] @ ms, stop, cache0)"
        using 3 Some w0 needed_states_acc [of chk w q "[n]" cache] found by (simp add: needed_states.simps q_def)
      then have whole: "resume chk W (needed_states chk w p [] cache) s =
          rbind (resume chk W (ms, stop, cache0) s) (\<lambda>(st, cache, s). step_states chk W [n] st cache s)"
        by (simp add: resume_def step_states_append rbind_assoc)
      have q: "q = None \<or> (\<exists>m. q = Some m \<and> known index m \<and> window_end W m)"
      proof (cases q)
        case (Some a)
        then have a: "known index a" "height a = i32 (height n - W)"
          using known_Ancestor [OF assms(1) n(1)] by (auto simp: q_def RelativeAncestor_def w_def W)
        moreover have "i32 (height n - W) = height n - W"
          using chain_node_height [OF good_index_chain [OF assms(1) n(1)]] W sint_less [of w] by (intro i32_id) (auto simp: w_def)
        ultimately have "height a + 1 = (height n + 1) - W" by simp
        then have "window_end W a" using n(2) unfolding window_end_def by (metis dvd_diff dvd_refl)
        with a Some show ?thesis by simp
      qed simp
      have "(case q of None \<Rightarrow> 0 | Some m \<Rightarrow> Suc (size m)) < Suc (size n)"
        using window_moves [OF w0, of n] by (auto simp: q_def split: option.split dest: RelativeAncestor_size)
      then obtain cache1 where IH: "resume chk W (ms, stop, cache0) s = Inr (bip9 chk d q, cache1, s)"
        "cache_sound index chk d cache1"
        using less.IH [of q] q Some found by (auto simp: w_def)
      have b: "bip9 chk d (Some n) = bip9_step chk d (bip9 chk d q) n"
        using w0 by (simp add: bip9.simps q_def w_def)
      have "thresholdStateTransition (bip9 chk d q) n chk W s = Inr (bip9 chk d (Some n), s)"
        using transition_deployment [OF good_index_chain [OF assms(1) n(1)] n(2) W(2) assms(3) W(1)] b by simp
      then have "resume chk W (needed_states chk w p [] cache) s
                 = Inr (bip9 chk d (Some n), cache1(node_hash n \<mapsto> bip9 chk d (Some n)), s)"
        using whole IH(1) by simp
      then show ?thesis using cache_sound_update [OF IH(2) n(1) refl] Some by (auto simp: w_def)
    qed
  qed
qed

lemma smod_pos: "0 \<le> a \<Longrightarrow> 0 < b \<Longrightarrow> a smod b = a mod (b :: int)"
  by (cases "a = 0") (auto simp: signed_modulo_int_def signed_divide_int_def minus_div_mult_eq_mod)

text \<open>The last block of the window before the one that follows a node.\<close>

definition window_node :: "int \<Rightarrow> blockNode \<Rightarrow> blockNode option" where
  "window_node W n = Ancestor n (height n - (height n + 1) mod W)"

lemma threshold_state_lemma:
  fixes chk :: "'s thresholdConditionChecker"
  assumes "good_index c index" and "frame_ok d" and "chk = deploymentChecker c index params d"
    and "0 < sint (params_MinerConfirmationWindow params)" and "known index n" and "height n < 2 ^ 31 - 1"
    and "cache_sound index chk d cache"
  shows "\<exists>cache'. thresholdState (Some n) chk cache s
           = Inr (bip9 chk d (window_node (sint (params_MinerConfirmationWindow params)) n), cache', s)
           \<and> cache_sound index chk d cache'"
proof -
  define W where "W = sint (params_MinerConfirmationWindow params)"
  have W: "W = sint (MinerConfirmationWindow chk)" "0 < W"
    using assms(4) by (simp_all add: W_def assms(3) deploymentChecker_def)
  have n: "chain_node c n" "0 \<le> height n"
    using good_index_chain [OF assms(1,5)] chain_node_height by auto
  have h1: "i32 (height n + 1) = height n + 1" using n(2) assms(6) by (rule i32_height)
  have m: "0 \<le> (height n + 1) mod W" "(height n + 1) mod W < W" using W(2) by simp_all
  show ?thesis
  proof (cases "height n + 1 < W")
    case True
    then have "(height n + 1) mod W = height n + 1" using n(2) by simp
    then have "window_node W n = None" by (simp add: window_node_def Ancestor_def)
    with True show ?thesis using assms(7) h1 by (auto simp: thresholdState_def W(1) [symmetric] W_def [symmetric])
  next
    case False
    define g where "g = height n - (height n + 1) mod W"
    have le: "(height n + 1) mod W \<le> height n" using m False by linarith
    have g: "0 \<le> g" "g \<le> height n" "i32 g = g"
      using le m n(2) assms(6) by (auto simp: g_def intro!: i32_id)
    obtain p where p: "Ancestor n g = Some p" "height p = g" by (rule Ancestor_Some [OF n(1) g(1,2)])
    have "W dvd g + 1" unfolding g_def by (metis add_diff_eq add.commute dvd_minus_mod)
    then have fin: "known index p \<and> window_end W p"
      using known_Ancestor [OF assms(1,5) p(1)] p(2) by (simp add: window_end_def)
    have "thresholdState (Some n) chk cache s = resume chk W (needed_states chk (MinerConfirmationWindow chk) (Some p) [] cache) s"
      using False W(2) g p(1) smod_pos [of "height n + 1" W] n(2)
      by (simp add: thresholdState_def resume_def h1 W(1) [symmetric] g_def Let_def split: prod.split)
    moreover have "window_node W n = Some p" using p(1) by (simp add: window_node_def g_def)
    ultimately show ?thesis
      using resume_bip9 [OF assms(1-3) W _ assms(7), of "Some p" s] fin by (simp add: W_def)
  qed
qed

text \<open>C10: The state of a deployment that the node computes, by searching back through the windows for a cached one and
  by taking a deployment that has not started for defined, is the state that BIP0009 gives when it is applied window by
  window from the genesis block, and the cache stays right: every cached state is the state of its block. This holds
  for deployments that do not end before they start (\<open>frame_ok\<close>), which are all deployments of the main network but
  \<open>DeploymentTestDummy\<close>, on a branch of the index whose nodes are valid and a cache that is right before.\<close>

theorem threshold_state_is_bip9:
  fixes chk :: "'s thresholdConditionChecker"
  assumes "good_index c index" and "frame_ok d" and "chk = deploymentChecker c index params d"
    and "0 < sint (params_MinerConfirmationWindow params)" and "known index n" and "height n < 2 ^ 31 - 1"
    and "cache_sound index chk d cache"
  shows "\<exists>cache'. thresholdState (Some n) chk cache s
           = Inr (bip9 chk d (window_node (sint (params_MinerConfirmationWindow params)) n), cache', s)
           \<and> cache_sound index chk d cache'"
  using assms by (rule threshold_state_lemma)

section \<open>A sample branch\<close>

text \<open>A line of blocks, one second after the other from \<open>t0\<close> on, and the index that holds the first \<open>m\<close> of them.\<close>

definition line_header :: "int \<Rightarrow> nat \<Rightarrow> BlockHeader" where
  "line_header t0 k = \<lparr>bh_Version = 4, PrevBlock = replicate 32 0, MerkleRoot = replicate 32 0,
     Timestamp = time_Unix (t0 + int k), Bits = 0x207fffff, Nonce = of_nat k\<rparr>"

primrec line :: "int \<Rightarrow> nat \<Rightarrow> blockNode" where
  "line t0 0 = newBlockNode toy_crypto (line_header t0 0) None"
| "line t0 (Suc k) = newBlockNode toy_crypto (line_header t0 (Suc k)) (Some (line t0 k))"

definition line_index :: "int \<Rightarrow> nat \<Rightarrow> node_index" where
  "line_index t0 m = map_of (map (\<lambda>k. (node_hash (line t0 k), line t0 k)) [0..<m])"

lemma line_chain: "int k < 2 ^ 31 \<Longrightarrow> chain_node toy_crypto (line t0 k) \<and> height (line t0 k) = int k"
proof (induction k)
  case 0
  show ?case using genesis_node [of toy_crypto] by (simp add: newBlockNode_def)
next
  case (Suc k)
  then have k: "chain_node toy_crypto (line t0 k)" "height (line t0 k) = int k" by auto
  with Suc.prems child_node [OF k(1), of "line_header t0 (Suc k)"] show ?case
    by (simp add: newBlockNode_def i32_id)
qed

lemma line_hash: "node_hash (line t0 k) = writeBlockHeaderBuf (line_header t0 k)"
  by (cases k) (simp_all add: newBlockNode_def BlockHash_def DoubleHashB_def toy_crypto_def)

lemma line_timestamp: "timestamp (line t0 k) = t0 + int k"
  by (cases k) (simp_all add: newBlockNode_def line_header_def)

lemma line_parent: "parent (line t0 0) = None" "parent (line t0 (Suc k)) = Some (line t0 k)"
  by (simp_all add: newBlockNode_def)

declare line.simps [simp del]

lemma line_hash_inj:
  assumes "node_hash (line t0 j) = node_hash (line t0 k)" and "j < 2 ^ 32" and "k < 2 ^ 32"
  shows "j = k"
proof -
  have "le_bytes 4 (unat (of_nat j :: u32)) = le_bytes 4 (unat (of_nat k :: u32))"
    using assms(1) by (simp add: line_hash writeBlockHeaderBuf_def line_header_def)
  then have "le_val (le_bytes 4 j) = le_val (le_bytes 4 k)" using assms(2,3) by (simp add: unat_of_nat)
  then show ?thesis using assms(2,3) by (simp add: le_val_le_bytes)
qed

lemma line_known:
  assumes "m \<le> 2 ^ 31"
  shows "known (line_index t0 m) n \<longleftrightarrow> (\<exists>k<m. n = line t0 k)"
proof -
  have "distinct (map (\<lambda>k. node_hash (line t0 k)) [0..<m])"
    using assms by (auto simp: distinct_map inj_on_def dest!: line_hash_inj)
  then have "line_index t0 m h = Some n \<longleftrightarrow> (\<exists>k<m. h = node_hash (line t0 k) \<and> n = line t0 k)" for h
    unfolding line_index_def by (subst map_of_eq_Some_iff) (auto simp: comp_def)
  then show ?thesis by (auto simp: known_def)
qed

lemma line_times: "set (last_times j (Some (line t0 k))) \<subseteq> {..t0 + int k}"
proof (induction k arbitrary: j)
  case 0
  show ?case by (cases j; cases "j - 1") (auto simp: line_timestamp line_parent)
next
  case (Suc k)
  show ?case
  proof (cases j)
    case (Suc i)
    with Suc.IH [of i] show ?thesis by (fastforce simp: line_timestamp line_parent)
  qed simp
qed

lemma median_in_set: "xs \<noteq> [] \<Longrightarrow> median xs \<in> set xs"
proof -
  assume "xs \<noteq> []"
  then have "length xs div 2 < length (sort xs)" by simp
  then have "sort xs ! (length xs div 2) \<in> set (sort xs)" by (rule nth_mem)
  then show ?thesis by (simp add: median_def)
qed

lemma line_mtp: "mtp (line t0 k) \<le> time_Unix (t0 + int k)"
proof -
  have "median (last_times medianTimeBlocks (Some (line t0 k))) \<in> set (last_times medianTimeBlocks (Some (line t0 k)))"
    by (rule median_in_set) (simp add: medianTimeBlocks_def numeral_eq_Suc)
  then show ?thesis using line_times [of medianTimeBlocks t0 k] by (auto simp: mtp_def time_Unix_def)
qed

lemma line_index_good: "m \<le> 2 ^ 31 \<Longrightarrow> good_index toy_crypto (line_index t0 m)"
proof -
  assume m: "m \<le> 2 ^ 31"
  have "length (node_hash (line t0 k)) \<noteq> length (replicate 32 (0::u8))" for k
    by (simp add: line_hash writeBlockHeaderBuf_def line_header_def)
  then have "node_hash (line t0 k) \<noteq> replicate 32 0" for k by metis
  then have zero: "line_index t0 m (replicate 32 0) = None"
    unfolding line_index_def map_of_eq_None_iff by (auto dest: sym)
  show ?thesis
    unfolding good_index_def
  proof (intro conjI allI impI)
    show "line_index t0 m (replicate 32 0) = None" by (rule zero)
    fix n assume "known (line_index t0 m) n"
    then obtain k where k: "k < m" "n = line t0 k" using line_known [OF m] by auto
    then show "chain_node toy_crypto n" using line_chain [of k] m by auto
    fix p assume p: "parent n = Some p"
    then obtain j where j: "k = Suc j" "p = line t0 j" using k(2) line_parent by (cases k) auto
    then show "known (line_index t0 m) p" using k(1) line_known [OF m, of t0 p] by (auto intro!: exI [of _ j])
    have "mtp p \<le> time_Unix (t0 + int j)" unfolding j(2) by (rule line_mtp)
    then show "mtp p < time_Unix (timestamp n)" by (simp add: k(2) line_timestamp j(1) time_Unix_def)
  qed
qed

definition csv_checker :: "unit thresholdConditionChecker" where
  "csv_checker = deploymentChecker toy_crypto (line_index 1462060800 300) RegressionNetParams
     (Deployments RegressionNetParams ! DeploymentCSV)"

theorem threshold_state_is_bip9_witness:
  "\<exists>cache'. thresholdState (Some (line 1462060800 299)) csv_checker Map.empty ()
     = Inr (bip9 csv_checker (Deployments RegressionNetParams ! DeploymentCSV) (window_node 144 (line 1462060800 299)), cache', ())
     \<and> cache_sound (line_index 1462060800 300) csv_checker (Deployments RegressionNetParams ! DeploymentCSV) cache'"
proof -
  have "known (line_index 1462060800 300) (line 1462060800 299)"
    by (subst line_known) (auto intro!: exI [of _ 299])
  moreover have "height (line 1462060800 299) < 2 ^ 31 - 1" using line_chain [of 299 1462060800] by simp
  moreover have "sint (params_MinerConfirmationWindow RegressionNetParams) = 144"
    by (simp add: RegressionNetParams_def)
  moreover have "frame_ok (Deployments RegressionNetParams ! DeploymentCSV)"
    by (simp add: frame_ok_def RegressionNetParams_def DeploymentCSV_def deployment_def)
  moreover have "cache_sound (line_index 1462060800 300) csv_checker (Deployments RegressionNetParams ! DeploymentCSV) Map.empty"
    by (simp add: cache_sound_def)
  ultimately show ?thesis
    using threshold_state_is_bip9 [OF line_index_good [of 300] _ csv_checker_def] by simp
qed

section \<open>Expired deployments\<close>

lemma expired_fails:
  fixes chk :: "'s thresholdConditionChecker"
  assumes "good_index c index" and "chk = deploymentChecker c index params d" and "\<not> IsSpeedy chk"
    and W: "W = sint (MinerConfirmationWindow chk)" "1 < W"
    and "endTime d \<noteq> zero_time" and "known index n" and "window_end W n"
    and "Ancestor n (W - 1) = Some f" and "endTime d \<le> mtp f"
  shows "bip9 chk d (Some n) = ThresholdFailed"
  using assms(7-9)
proof (induction "size n" arbitrary: n rule: less_induct)
  case less
  define w where "w = MinerConfirmationWindow chk"
  have w0: "w \<noteq> 0" using W by (auto simp: w_def)
  have n: "chain_node c n" by (rule good_index_chain [OF assms(1) less.prems(1)])
  have f: "known index f" "mtp f \<le> mtp n" "height f = W - 1" "W - 1 \<le> height n"
    using known_Ancestor [OF assms(1) less.prems(1,3)] less.prems(3) by (auto simp: Ancestor_def split: if_splits)
  have np: "parent n \<noteq> None" using chain_node_genesis [OF n] f(4) W(2) by auto
  have ended: "HasEnded chk n"
    using assms(6,10) f(2) np by (simp add: assms(2) HasEnded_known [OF assms(1) less.prems(1)])
  have moved: "i32 (height n - W) = height n - W"
    using chain_node_height [OF n] W sint_less [of w] by (intro i32_id) (auto simp: w_def)
  have "bip9 chk d (RelativeAncestor n W) = ThresholdDefined \<or> bip9 chk d (RelativeAncestor n W) = ThresholdFailed"
  proof (cases "RelativeAncestor n W")
    case (Some a)
    then have anc: "Ancestor n (height n - W) = Some a" by (simp add: RelativeAncestor_def moved)
    have a: "known index a" "height a = height n - W" using known_Ancestor [OF assms(1) less.prems(1) anc] by auto
    have ca: "chain_node c a" by (rule good_index_chain [OF assms(1) a(1)])
    have "height a + 1 = (height n + 1) - W" using a(2) by simp
    then have wa: "window_end W a" using less.prems(2) unfolding window_end_def by (metis dvd_diff dvd_refl)
    then have "W \<le> height a + 1"
      using chain_node_height [OF ca] by (auto simp: window_end_def intro: zdvd_imp_le)
    then have "Ancestor a (W - 1) = Some f"
      using Ancestor_Ancestor [OF n anc, of "W - 1"] less.prems(3) a(2) W(2) by simp
    then show ?thesis using less.hyps [of a] a(1) wa Some RelativeAncestor_size [OF Some] moved W(2) by simp
  qed simp
  moreover have "bip9 chk d (Some n) = bip9_step chk d (bip9 chk d (RelativeAncestor n W)) n"
    using w0 by (simp add: bip9.simps W(1) w_def)
  moreover have "bip9_step chk d st n = ThresholdFailed" if "st = ThresholdDefined \<or> st = ThresholdFailed" for st
    using that ended by (elim disjE) (simp_all add: bip9_step_def assms(3))
  ultimately show ?case by metis
qed

lemma mainnet_windows: "sint (params_MinerConfirmationWindow MainNetParams) = 2016"
  by (simp add: MainNetParams_def)

text \<open>C31: On the main network the deployments of relative lock times and of segregated witness end in 2017. On a branch
  whose first 2016 blocks reach a median time after that, as every branch mined since then does, both have failed for
  every later block: the rules never become active, whatever the miners signal.\<close>

theorem mainnet_segwit_fails:
  assumes "good_index c index" and "known index n" and "height n < 2 ^ 31 - 1"
    and "Ancestor n 2015 = Some f" and "time_Unix 1510704000 \<le> mtp f"
    and "dep = DeploymentCSV \<or> dep = DeploymentSegwit" and "length caches = DefinedDeployments"
    and "cache_sound index (deploymentChecker c index MainNetParams (Deployments MainNetParams ! dep) :: unit thresholdConditionChecker)
           (Deployments MainNetParams ! dep) (caches ! dep)"
  shows "\<exists>caches'. deploymentState c index MainNetParams (Some n) dep caches = Inr (ThresholdFailed, caches')"
proof -
  define d where "d = Deployments MainNetParams ! dep"
  define chk :: "unit thresholdConditionChecker" where "chk = deploymentChecker c index MainNetParams d"
  have dep: "dep < length (Deployments MainNetParams)" "dep < length caches"
    using assms(6,7) by (auto simp: MainNetParams_def DeploymentCSV_def DeploymentSegwit_def DefinedDeployments_def)
  have d: "endTime d \<noteq> zero_time" "endTime d \<le> time_Unix 1510704000" "frame_ok d"
    "MinActivationHeight d = 0" "CustomActivationThreshold d = 0"
    using assms(6)
    by (auto simp: d_def MainNetParams_def DeploymentCSV_def DeploymentSegwit_def deployment_def frame_ok_def
        zero_time_def time_Unix_def)
  have W: "2016 = sint (MinerConfirmationWindow chk)" by (simp add: chk_def deploymentChecker_def mainnet_windows)
  have h: "2015 \<le> height n" using assms(4) by (simp add: Ancestor_def split: if_splits)
  define g where "g = height n - (height n + 1) mod 2016"
  have m: "(height n + 1) mod 2016 < 2016" "0 \<le> (height n + 1) mod 2016" by simp_all
  have dv: "2016 dvd g + 1" unfolding g_def by (metis add_diff_eq add.commute dvd_minus_mod)
  have "0 < g + 1" using h m by (simp add: g_def)
  then have "2016 \<le> g + 1" by (rule zdvd_imp_le [OF dv])
  then have g: "2015 \<le> g" "g \<le> height n" "2016 dvd g + 1" using m dv by (simp_all add: g_def)
  have n: "chain_node c n" by (rule good_index_chain [OF assms(1,2)])
  obtain p where p: "Ancestor n g = Some p" using Ancestor_Some [OF n, of g] g by auto
  have kp: "known index p" "height p = g" using known_Ancestor [OF assms(1,2) p] by auto
  have "Ancestor p 2015 = Some f" using Ancestor_Ancestor [OF n p, of 2015] g assms(4) by simp
  then have "bip9 chk d (Some p) = ThresholdFailed"
    using expired_fails [OF assms(1) chk_def _ W _ d(1) kp(1), of f] g(3) kp(2) d assms(5)
    by (simp add: window_end_def chk_def deploymentChecker_def)
  moreover have "window_node 2016 n = Some p" using p by (simp add: window_node_def g_def)
  ultimately obtain cache' where "thresholdState (Some n) chk (caches ! dep) () = Inr (ThresholdFailed, cache', ())"
    using threshold_state_lemma [OF assms(1) d(3) chk_def _ assms(2,3), of "caches ! dep" "()"] assms(8)
    by (auto simp: mainnet_windows chk_def d_def)
  then show ?thesis using dep by (simp add: deploymentState_def Let_def d_def chk_def)
qed

lemma line_Ancestor:
  assumes "int k < 2 ^ 31" and "j \<le> k"
  shows "Ancestor (line t0 k) (int j) = Some (line t0 j)"
proof -
  have np: "nth_parent i (line t0 (i + j)) = Some (line t0 j)" for i
    by (induction i) (simp_all add: line_parent)
  have k: "chain_node toy_crypto (line t0 k)" "height (line t0 k) = int k" using line_chain [OF assms(1)] by auto
  have "nat (int k - int j) + j = k" using assms(2) by simp
  then show ?thesis using np [of "nat (int k - int j)"] assms(2) k(2) by (simp add: Ancestor_parents [OF k(1)])
qed

lemma line_times_lower: "set (last_times j (Some (line t0 k))) \<subseteq> {t0..}"
proof (induction k arbitrary: j)
  case 0
  show ?case by (cases j; cases "j - 1") (auto simp: line_timestamp line_parent)
next
  case (Suc k)
  show ?case
  proof (cases j)
    case (Suc i)
    with Suc.IH [of i] show ?thesis by (fastforce simp: line_timestamp line_parent)
  qed simp
qed

lemma line_mtp_lower: "time_Unix t0 \<le> mtp (line t0 k)"
proof -
  have "median (last_times medianTimeBlocks (Some (line t0 k))) \<in> set (last_times medianTimeBlocks (Some (line t0 k)))"
    by (rule median_in_set) (simp add: medianTimeBlocks_def numeral_eq_Suc)
  then show ?thesis using line_times_lower [of medianTimeBlocks t0 k] by (auto simp: mtp_def time_Unix_def)
qed

theorem mainnet_segwit_fails_witness:
  "\<exists>caches'. deploymentState toy_crypto (line_index 1600000000 3000) MainNetParams (Some (line 1600000000 2999))
     DeploymentSegwit (replicate DefinedDeployments Map.empty) = Inr (ThresholdFailed, caches')"
proof -
  have "known (line_index 1600000000 3000) (line 1600000000 2999)"
    by (subst line_known) (auto intro!: exI [of _ 2999])
  moreover have "height (line 1600000000 2999) < 2 ^ 31 - 1" using line_chain [of 2999 1600000000] by simp
  moreover have "Ancestor (line 1600000000 2999) 2015 = Some (line 1600000000 2015)"
    using line_Ancestor [of 2999 2015 1600000000] by simp
  moreover have "time_Unix 1510704000 \<le> mtp (line 1600000000 2015)"
    using line_mtp_lower [of 1600000000 2015] by (simp add: time_Unix_def)
  moreover have "replicate DefinedDeployments Map.empty ! DeploymentSegwit = (Map.empty :: thresholdStateCache)"
    by (simp add: DefinedDeployments_def DeploymentSegwit_def)
  ultimately show ?thesis
    by (intro mainnet_segwit_fails [OF line_index_good]) (simp_all add: cache_sound_def)
qed

end
