(* ===== verification/Chain_Header.thy ===== *)
theory Chain_Header
  imports Chain_Deploy
begin

unbundle bit_operations_syntax

text \<open>
  Block headers (\<open>btcd/blockchain/difficulty.go\<close>, \<open>mediantime.go\<close>, \<open>checkpoints.go\<close> and the header checks of
  \<open>validate.go\<close>): the required difficulty, the adjusted time of the network, checkpoints, and the checks with and
  without context. The interface \<open>ChainCtx\<close> is a record; what \<open>FindPreviousCheckpoint\<close> remembers is a state that the
  checks return. A header that passes the checks keeps the index of headers good, which is what the votes rely on.
\<close>

section \<open>The context of the chain\<close>

record 's ChainCtx =
  ChainParams :: Params
  BlocksPerRetarget :: int
  MinRetargetTimespan :: int
  MaxRetargetTimespan :: int
  VerifyCheckpoint :: "int \<Rightarrow> bytes \<Rightarrow> bool"
  FindPreviousCheckpoint :: "'s \<Rightarrow> (blockNode option \<times> 's) rule"

section \<open>The required difficulty\<close>

text \<open>The loop of \<open>calcEasiestDifficulty\<close>; \<open>None\<close> is a loop that does not end.\<close>

partial_function (option) easiest_target :: "int \<Rightarrow> int \<Rightarrow> int \<Rightarrow> int \<Rightarrow> int \<Rightarrow> int option" where
  "easiest_target limit factor span durationVal newTarget =
     (if durationVal > 0 \<and> newTarget < limit
      then easiest_target limit factor span (i64 (durationVal - span)) (newTarget * factor)
      else Some newTarget)"

definition calcEasiestDifficulty :: "'s ChainCtx \<Rightarrow> u32 \<Rightarrow> int \<Rightarrow> u32 option" where
  "calcEasiestDifficulty ctx bits duration =
     (let params = ChainParams ctx;
          durationVal = duration sdiv time_Second;
          reductionTime = MinDiffReductionTime params sdiv time_Second
      in if ReduceMinDifficulty params \<and> durationVal > reductionTime then Some (PowLimitBits params)
         else map_option (\<lambda>t. BigToCompact (if t > PowLimit params then PowLimit params else t))
           (easiest_target (PowLimit params) (RetargetAdjustmentFactor params) (MaxRetargetTimespan ctx)
              durationVal (CompactToBig bits)))"

function (sequential) testnet_bits :: "'s ChainCtx \<Rightarrow> blockNode option \<Rightarrow> u32 rule" where
  "testnet_bits ctx None = Inr (PowLimitBits (ChainParams ctx))"
| "testnet_bits ctx (Some n) =
     (if BlocksPerRetarget ctx = 0 then Inl Panic
      else if height n smod BlocksPerRetarget ctx \<noteq> 0 \<and> node_bits n = PowLimitBits (ChainParams ctx)
      then testnet_bits ctx (parent n) else Inr (node_bits n))"
  by pat_completeness auto
termination
  by (relation "measure (\<lambda>(ctx, p). case p of None \<Rightarrow> 0 | Some n \<Rightarrow> Suc (size n))")
    (auto split: option.split dest: size_parent)

declare testnet_bits.simps(2) [simp del]

definition findPrevTestNetDifficulty :: "'s ChainCtx \<Rightarrow> blockNode option \<Rightarrow> u32 rule" where
  "findPrevTestNetDifficulty ctx startNode = testnet_bits ctx startNode"

definition calcNextRequiredDifficulty :: "'s ChainCtx \<Rightarrow> blockNode option \<Rightarrow> int \<Rightarrow> u32 rule" where
  "calcNextRequiredDifficulty ctx lastNode newBlockTime =
     (let params = ChainParams ctx in
      if PoWNoRetargeting params then Inr (PowLimitBits params)
      else case lastNode of
        None \<Rightarrow> Inr (PowLimitBits params)
      | Some lst \<Rightarrow>
          if BlocksPerRetarget ctx = 0 then Inl Panic
          else if i32 (height lst + 1) smod BlocksPerRetarget ctx \<noteq> 0 then
            if ReduceMinDifficulty params then
              let reductionTime = MinDiffReductionTime params sdiv time_Second;
                  allowMinTime = i64 (timestamp lst + reductionTime)
              in if Unix newBlockTime > allowMinTime then Inr (PowLimitBits params)
                 else findPrevTestNetDifficulty ctx lastNode
            else Inr (node_bits lst)
          else case RelativeAncestor lst (i32 (BlocksPerRetarget ctx - 1)) of
            None \<Rightarrow> Inl AssertError
          | Some firstNode \<Rightarrow>
              let actualTimespan = i64 (timestamp lst - timestamp firstNode);
                  adjustedTimespan =
                    (if actualTimespan < MinRetargetTimespan ctx then MinRetargetTimespan ctx
                     else if actualTimespan > MaxRetargetTimespan ctx then MaxRetargetTimespan ctx
                     else actualTimespan);
                  oldTarget = CompactToBig (node_bits lst);
                  targetTimeSpan = TargetTimespan params sdiv time_Second
              in if targetTimeSpan = 0 then Inl Panic
                 else let newTarget = (if targetTimeSpan > 0 then oldTarget * adjustedTimespan div targetTimeSpan
                                       else - (oldTarget * adjustedTimespan div - targetTimeSpan))
                      in Inr (BigToCompact (if newTarget > PowLimit params then PowLimit params else newTarget)))"

section \<open>The adjusted time of the network\<close>

text \<open>The samples arrive from the peers in whole seconds; \<open>now\<close> is the local clock.\<close>

record medianTime =
  knownIDs :: "string set"
  offsets :: "int list"
  offsetSecs :: int
  invalidTimeChecked :: bool

definition maxAllowedOffsetSecs :: int where "maxAllowedOffsetSecs = 70 * 60"
definition similarTimeSecs :: int where "similarTimeSecs = 5 * 60"
definition maxMedianTimeEntries :: nat where "maxMedianTimeEntries = 200"

definition NewMedianTime :: medianTime where
  "NewMedianTime = \<lparr>knownIDs = {}, offsets = [], offsetSecs = 0, invalidTimeChecked = False\<rparr>"

definition AdjustedTime :: "int \<Rightarrow> medianTime \<Rightarrow> int" where
  "AdjustedTime now m = time_Unix (Unix now) + offsetSecs m * time_Second"

definition AddTimeSample :: "int \<Rightarrow> string \<Rightarrow> int \<Rightarrow> medianTime \<Rightarrow> medianTime" where
  "AddTimeSample now sourceID timeVal m =
     (if sourceID \<in> knownIDs m then m
      else
        let m = m\<lparr>knownIDs := insert sourceID (knownIDs m)\<rparr>;
            offset = (timeVal - time_Unix (Unix now)) sdiv time_Second;
            kept = (if length (offsets m) = maxMedianTimeEntries \<and> maxMedianTimeEntries > 0
                    then tl (offsets m) else offsets m);
            m = m\<lparr>offsets := kept @ [offset]\<rparr>;
            numOffsets = length (offsets m);
            sortedOffsets = sort (offsets m)
        in if numOffsets < 5 \<or> even numOffsets then m
           else let med = sortedOffsets ! (numOffsets div 2) in
             if \<bar>med\<bar> < maxAllowedOffsetSecs then m\<lparr>offsetSecs := med\<rparr>
             else m\<lparr>offsetSecs := 0, invalidTimeChecked := True\<rparr>)"

definition Offset :: "medianTime \<Rightarrow> int" where
  "Offset m = offsetSecs m * time_Second"

text \<open>Two properties of the adjusted time: it stays within seventy minutes of the local clock, and it does not move any
  more once two hundred samples have come in.\<close>

lemma AddTimeSample_offset_bound:
  "\<bar>offsetSecs m\<bar> < maxAllowedOffsetSecs \<Longrightarrow> \<bar>offsetSecs (AddTimeSample now src t m)\<bar> < maxAllowedOffsetSecs"
  by (simp add: AddTimeSample_def Let_def maxAllowedOffsetSecs_def)

lemma AddTimeSample_offsets:
  "length (offsets m) \<le> maxMedianTimeEntries \<Longrightarrow> length (offsets (AddTimeSample now src t m)) \<le> maxMedianTimeEntries"
  by (simp add: AddTimeSample_def Let_def maxMedianTimeEntries_def)

lemma AddTimeSample_full:
  assumes "length (offsets m) = maxMedianTimeEntries"
  shows "length (offsets (AddTimeSample now src t m)) = maxMedianTimeEntries \<and> offsetSecs (AddTimeSample now src t m) = offsetSecs m"
  using assms by (simp add: AddTimeSample_def Let_def maxMedianTimeEntries_def)

definition add_samples :: "(int \<times> string \<times> int) list \<Rightarrow> medianTime \<Rightarrow> medianTime" where
  "add_samples samples m = fold (\<lambda>(now, src, t). AddTimeSample now src t) samples m"

lemma add_samples_bounds:
  "\<bar>offsetSecs m\<bar> < maxAllowedOffsetSecs \<Longrightarrow> length (offsets m) \<le> maxMedianTimeEntries
   \<Longrightarrow> \<bar>offsetSecs (add_samples xs m)\<bar> < maxAllowedOffsetSecs \<and> length (offsets (add_samples xs m)) \<le> maxMedianTimeEntries"
proof (induction xs arbitrary: m)
  case (Cons x xs)
  obtain now src t where x: "x = (now, src, t)" by (cases x)
  have "add_samples (x # xs) m = add_samples xs (AddTimeSample now src t m)" by (simp add: add_samples_def x)
  then show ?case
    using Cons.IH [OF AddTimeSample_offset_bound [OF Cons.prems(1)] AddTimeSample_offsets [OF Cons.prems(2)]] by simp
qed (simp add: add_samples_def)

lemma add_samples_full:
  "length (offsets m) = maxMedianTimeEntries \<Longrightarrow> offsetSecs (add_samples xs m) = offsetSecs m"
proof (induction xs arbitrary: m)
  case (Cons x xs)
  obtain now src t where x: "x = (now, src, t)" by (cases x)
  have "add_samples (x # xs) m = add_samples xs (AddTimeSample now src t m)" by (simp add: add_samples_def x)
  then show ?case using Cons.IH [of "AddTimeSample now src t m"] AddTimeSample_full [OF Cons.prems] by simp
qed (simp add: add_samples_def)

text \<open>C39: Whatever the peers claim, the time of the network that block times are compared with stays less than seventy
  minutes from the local clock, at most two hundred samples are kept, and once two hundred are kept no further sample
  changes the time.\<close>

theorem network_time_bounded:
  "\<bar>AdjustedTime now (add_samples samples NewMedianTime) - time_Unix (Unix now)\<bar> < time_Unix 4200
   \<and> length (offsets (add_samples samples NewMedianTime)) \<le> maxMedianTimeEntries
   \<and> (length (offsets (add_samples samples NewMedianTime)) = maxMedianTimeEntries
      \<longrightarrow> Offset (add_samples (samples @ later) NewMedianTime) = Offset (add_samples samples NewMedianTime))"
proof -
  have "\<bar>offsetSecs (add_samples samples NewMedianTime)\<bar> < maxAllowedOffsetSecs"
    "length (offsets (add_samples samples NewMedianTime)) \<le> maxMedianTimeEntries"
    using add_samples_bounds [of NewMedianTime samples] by (auto simp: NewMedianTime_def maxAllowedOffsetSecs_def)
  moreover have "add_samples (samples @ later) NewMedianTime = add_samples later (add_samples samples NewMedianTime)"
    by (simp add: add_samples_def)
  ultimately show ?thesis
    using add_samples_full [of "add_samples samples NewMedianTime" later]
    by (simp add: AdjustedTime_def Offset_def time_Second_def time_Unix_def maxAllowedOffsetSecs_def)
qed

lemma AddTimeSample_new:
  "src \<notin> knownIDs m \<Longrightarrow> length (offsets m) < maxMedianTimeEntries
   \<Longrightarrow> length (offsets (AddTimeSample now src t m)) = Suc (length (offsets m))
      \<and> knownIDs (AddTimeSample now src t m) = insert src (knownIDs m)"
  by (simp add: AddTimeSample_def Let_def)

lemma many_samples:
  assumes "k \<le> maxMedianTimeEntries"
  shows "length (offsets (add_samples (map (\<lambda>i. (0, replicate i CHR ''a'', 0)) [0..<k]) NewMedianTime)) = k
    \<and> knownIDs (add_samples (map (\<lambda>i. (0, replicate i CHR ''a'', 0)) [0..<k]) NewMedianTime) = (\<lambda>i. replicate i CHR ''a'') ` {..<k}"
  using assms
proof (induction k)
  case 0
  show ?case by (simp add: add_samples_def NewMedianTime_def)
next
  case (Suc k)
  define m where "m = add_samples (map (\<lambda>i. (0, replicate i CHR ''a'', 0)) [0..<k]) NewMedianTime"
  have IH: "length (offsets m) = k" "knownIDs m = (\<lambda>i. replicate i CHR ''a'') ` {..<k}" using Suc by (auto simp: m_def)
  have "replicate k CHR ''a'' \<notin> knownIDs m" by (auto simp: IH(2) dest: arg_cong [of _ _ length])
  with AddTimeSample_new [of "replicate k CHR ''a''" m 0 0] IH Suc.prems show ?case
    by (auto simp: add_samples_def m_def lessThan_Suc)
qed

theorem network_time_bounded_witness:
  "Offset (add_samples (map (\<lambda>i. (0, replicate i CHR ''a'', 0)) [0..<200] @ [(0, ''b'', time_Unix 60)]) NewMedianTime)
   = Offset (add_samples (map (\<lambda>i. (0, replicate i CHR ''a'', 0)) [0..<200]) NewMedianTime)"
  using network_time_bounded [of 0 "map (\<lambda>i. (0, replicate i CHR ''a'', 0)) [0..<200]" "[(0, ''b'', time_Unix 60)]"]
    many_samples [of 200] by (simp add: maxMedianTimeEntries_def)

section \<open>What a retarget does\<close>

text \<open>The context that the node builds from its parameters (\<open>New\<close> in \<open>chain.go\<close>).\<close>

definition chain_ctx :: "Params \<Rightarrow> (int \<Rightarrow> bytes \<Rightarrow> bool) \<Rightarrow> ('s \<Rightarrow> (blockNode option \<times> 's) rule) \<Rightarrow> 's ChainCtx" where
  "chain_ctx params verify previous =
     (let targetTimespan = TargetTimespan params sdiv time_Second;
          targetTimePerBlock = TargetTimePerBlock params sdiv time_Second;
          adjustmentFactor = RetargetAdjustmentFactor params
      in \<lparr>ChainParams = params, BlocksPerRetarget = i32 (targetTimespan sdiv targetTimePerBlock),
          MinRetargetTimespan = targetTimespan sdiv adjustmentFactor,
          MaxRetargetTimespan = i64 (targetTimespan * adjustmentFactor),
          VerifyCheckpoint = verify, FindPreviousCheckpoint = previous\<rparr>)"

lemma sdiv_pos: "0 \<le> a \<Longrightarrow> 0 < b \<Longrightarrow> a sdiv b = a div (b :: int)"
  by (cases "a = 0") (auto simp: signed_divide_int_def)

lemma clamp_bounds: "(lo::int) \<le> hi \<Longrightarrow> lo \<le> (if x < lo then lo else if x > hi then hi else x)
   \<and> (if x < lo then lo else if x > hi then hi else x) \<le> hi"
  by simp

lemma compact_near:
  assumes "0 \<le> n" and "n < 2 ^ 2032"
  shows "0 \<le> CompactToBig (BigToCompact n) \<and> CompactToBig (BigToCompact n) \<le> n
    \<and> n * (2 ^ 15 - 1) \<le> CompactToBig (BigToCompact n) * 2 ^ 15"
proof (cases "n = 0")
  case True
  then show ?thesis by (simp add: BigToCompact_def CompactToBig_def)
next
  case False
  then have "0 < n" using assms(1) by simp
  from compact_rounds [OF this assms(2)] show ?thesis by (simp add: algebra_simps)
qed

text \<open>C19: At a retarget the new target is at most the adjustment factor times the old one and never above the limit of
  the network, and it is not below the old target divided by the factor (nor below the limit, when that is lower) by
  more than the rounding of the compact form, one part in 32768. The time stamps of the blocks cannot move the
  difficulty further.\<close>

theorem retarget_bounds:
  assumes "ctx = chain_ctx params verify previous" and "\<not> PoWNoRetargeting params"
    and "S = TargetTimespan params sdiv time_Second" and "f = RetargetAdjustmentFactor params"
    and "0 < S" and "0 < f" and "f dvd S" and "S * f < 2 ^ 63" and "0 \<le> PowLimit params" and "PowLimit params < 2 ^ 2032"
    and "BlocksPerRetarget ctx \<noteq> 0" and "i32 (height lst + 1) smod BlocksPerRetarget ctx = 0"
    and "RelativeAncestor lst (i32 (BlocksPerRetarget ctx - 1)) = Some first" and "0 \<le> CompactToBig (node_bits lst)"
  shows "\<exists>bits. calcNextRequiredDifficulty ctx (Some lst) newBlockTime = Inr bits
    \<and> CompactToBig bits \<le> min (CompactToBig (node_bits lst) * f) (PowLimit params)
    \<and> min (CompactToBig (node_bits lst) div f) (PowLimit params) * (2 ^ 15 - 1) \<le> CompactToBig bits * 2 ^ 15"
proof -
  define old where "old = CompactToBig (node_bits lst)"
  have ctx: "ChainParams ctx = params" "MinRetargetTimespan ctx = S div f" "MaxRetargetTimespan ctx = S * f"
  proof -
    have "0 < S * f" using assms(5,6) by simp
    then have "i64 (S * f) = S * f" using assms(8) by (intro i64_id) (simp add: is_i64_def)
    then show "ChainParams ctx = params" "MinRetargetTimespan ctx = S div f" "MaxRetargetTimespan ctx = S * f"
      using assms(5,6) by (simp_all add: assms(1) chain_ctx_def Let_def sdiv_pos flip: assms(3,4))
  qed
  define actual where "actual = i64 (timestamp lst - timestamp first)"
  define adj where "adj = (if actual < S div f then S div f else if actual > S * f then S * f else actual)"
  obtain g where g: "S = f * g" using assms(7) by auto
  have "0 < g" using assms(5,6) g zero_less_mult_pos by blast
  have "S div f \<le> S * f"
  proof -
    have "S div f \<le> S" using assms(6) \<open>0 < g\<close> by (simp add: g)
    also have "S \<le> S * f" using assms(5,6) by simp
    finally show ?thesis .
  qed
  then have adj: "g \<le> adj" "adj \<le> S * f"
    using clamp_bounds [of "S div f" "S * f" actual] g assms(6) by (simp_all add: adj_def)
  define new where "new = old * adj div S"
  have upper: "new \<le> old * f"
  proof -
    have "old * adj \<le> old * (S * f)" using adj assms(14) by (intro mult_left_mono) (auto simp: old_def)
    then have "new \<le> old * (S * f) div S" unfolding new_def using assms(5) by (intro zdiv_mono1)
    also have "old * (S * f) div S = old * f" using assms(5) by (simp add: mult.left_commute [of old])
    finally show ?thesis .
  qed
  have lower: "old div f \<le> new"
  proof -
    have "old div f = old * g div (f * g)" using \<open>0 < g\<close> by simp
    also have "\<dots> \<le> old * adj div (f * g)"
      using adj assms(5,14) g by (intro zdiv_mono1 mult_left_mono) (auto simp: old_def)
    finally show ?thesis by (simp add: new_def g)
  qed
  have "0 \<le> old div f" using assms(6,14) by (simp add: old_def pos_imp_zdiv_nonneg_iff)
  with lower have new0: "0 \<le> new" by simp
  define capped where "capped = (if new > PowLimit params then PowLimit params else new)"
  have "calcNextRequiredDifficulty ctx (Some lst) newBlockTime = Inr (BigToCompact capped)"
    using assms(2,5,11-13) ctx
    by (simp add: calcNextRequiredDifficulty_def Let_def assms(3) [symmetric] capped_def new_def old_def adj_def actual_def)
  moreover have "0 \<le> capped" "capped < 2 ^ 2032" "capped \<le> min (old * f) (PowLimit params)" "min (old div f) (PowLimit params) \<le> capped"
    using new0 upper lower assms(9,10) by (auto simp: capped_def)
  moreover have "min (old div f) (PowLimit params) * (2 ^ 15 - 1) \<le> capped * (2 ^ 15 - 1)"
    using calculation(5) by (intro mult_right_mono) simp_all
  ultimately show ?thesis using compact_near [of capped] unfolding old_def [symmetric] by fastforce
qed

definition main_ctx :: "unit ChainCtx" where
  "main_ctx = chain_ctx MainNetParams (\<lambda>_ _. True) (\<lambda>s. Inr (None, s))"

lemma mainnet_retarget: "BlocksPerRetarget main_ctx = 2016"
  by (simp add: main_ctx_def chain_ctx_def MainNetParams_def Let_def time_Second_def sdiv_pos i32_id)

lemma line_bits: "node_bits (line t0 k) = 0x207fffff"
  by (cases k) (simp_all add: line.simps newBlockNode_def line_header_def)

theorem retarget_bounds_witness:
  "\<exists>bits. calcNextRequiredDifficulty main_ctx (Some (line 1600000000 2015)) 0 = Inr bits
    \<and> CompactToBig bits \<le> 2 ^ 224 - 1"
proof -
  have h: "height (line 1600000000 2015) = 2015" using line_chain [of 2015 1600000000] by simp
  have "RelativeAncestor (line 1600000000 2015) (i32 (2016 - 1)) = Some (line 1600000000 0)"
    using line_Ancestor [of 2015 0 1600000000] h by (simp add: RelativeAncestor_def i32_id)
  moreover have "i32 (height (line 1600000000 2015) + 1) smod 2016 = 0"
    by (simp add: h i32_id smod_pos)
  moreover have "node_bits (line 1600000000 2015) = 0x207fffff"
    by (rule line_bits)
  moreover have "0 \<le> CompactToBig 0x207fffff"
    by (simp add: CompactToBig_def Let_def)
  ultimately show ?thesis
    using retarget_bounds [OF main_ctx_def _ refl refl, of "line 1600000000 2015" "line 1600000000 0" 0]
    by (auto simp: mainnet_retarget) (auto simp: MainNetParams_def time_Second_def sdiv_pos)
qed

text \<open>C32: On the main network the reduction of the difficulty that is meant for test networks is on, with a waiting
  time of zero: between retargets, a block whose time stamp is later than the one of its parent needs only the lowest
  difficulty of the network, however hard the chain has been to extend.\<close>

theorem mainnet_minimum_difficulty:
  assumes "0 \<le> height lst" and "height lst < 2 ^ 31 - 1" and "(height lst + 1) mod 2016 \<noteq> 0"
    and "0 \<le> timestamp lst" and "timestamp lst < 2 ^ 32" and "timestamp lst < Unix newBlockTime"
  shows "calcNextRequiredDifficulty main_ctx (Some lst) newBlockTime = Inr 0x1d00ffff"
proof -
  have p: "ChainParams main_ctx = MainNetParams" by (simp add: main_ctx_def chain_ctx_def Let_def)
  have h: "i32 (height lst + 1) smod 2016 \<noteq> 0" using assms(1-3) by (simp add: i32_height smod_pos)
  have t: "i64 (timestamp lst) = timestamp lst" using assms(4,5) by (intro i64_id) (simp add: is_i64_def)
  show ?thesis
    using h t assms(6) by (simp add: calcNextRequiredDifficulty_def p mainnet_retarget Let_def)
      (simp add: MainNetParams_def sdiv_pos time_Second_def)
qed

theorem mainnet_minimum_difficulty_witness:
  "calcNextRequiredDifficulty main_ctx (Some (line 1600000000 5)) (time_Unix 1600000006) = Inr 0x1d00ffff"
  using mainnet_minimum_difficulty [of "line 1600000000 5" "time_Unix 1600000006"] line_chain [of 5 1600000000]
  by (simp add: line_timestamp)

section \<open>Checkpoints\<close>

record checkpoint_state =
  checkpointNode :: "blockNode option"
  nextCheckpoint :: "Checkpoint option"

definition LatestCheckpoint :: "Checkpoint list \<Rightarrow> Checkpoint option" where
  "LatestCheckpoint checkpoints = (if checkpoints = [] then None else Some (last checkpoints))"

definition verifyCheckpoint :: "Checkpoint list \<Rightarrow> int \<Rightarrow> bytes \<Rightarrow> bool" where
  "verifyCheckpoint checkpoints h hash =
     (if checkpoints = [] then True
      else case find (\<lambda>cp. cp_Height cp = h) (rev checkpoints) of
        None \<Rightarrow> True
      | Some cp \<Rightarrow> cp_Hash cp = hash)"

text \<open>The two loops run from the last checkpoint back.\<close>

fun search_checkpoints :: "node_index \<Rightarrow> chainView \<Rightarrow> Checkpoint list \<Rightarrow> nat \<Rightarrow> (nat \<times> blockNode) option" where
  "search_checkpoints index bestChain checkpoints 0 = None"
| "search_checkpoints index bestChain checkpoints (Suc i) =
     (case index (cp_Hash (checkpoints ! i)) of
        None \<Rightarrow> search_checkpoints index bestChain checkpoints i
      | Some node \<Rightarrow> if \<not> view_contains bestChain node then search_checkpoints index bestChain checkpoints i
                     else Some (i, node))"

fun checkpoint_position :: "Checkpoint list \<Rightarrow> bytes \<Rightarrow> nat \<Rightarrow> nat option" where
  "checkpoint_position checkpoints hash 0 = None"
| "checkpoint_position checkpoints hash (Suc i) =
     (if cp_Hash (checkpoints ! i) = hash then Some i else checkpoint_position checkpoints hash i)"

definition findPreviousCheckpoint ::
    "node_index \<Rightarrow> chainView \<Rightarrow> Checkpoint list \<Rightarrow> checkpoint_state \<Rightarrow> (blockNode option \<times> checkpoint_state) rule" where
  "findPreviousCheckpoint index bestChain checkpoints s =
     (if checkpoints = [] then Inr (None, s)
      else let numCheckpoints = length checkpoints in
        if checkpointNode s = None \<and> nextCheckpoint s = None then
          (case search_checkpoints index bestChain checkpoints numCheckpoints of
             Some (i, node) \<Rightarrow>
               Inr (Some node, s\<lparr>checkpointNode := Some node,
                 nextCheckpoint := (if i < numCheckpoints - 1 then Some (checkpoints ! (i + 1)) else nextCheckpoint s)\<rparr>)
           | None \<Rightarrow> Inr (None, s\<lparr>nextCheckpoint := Some (checkpoints ! 0)\<rparr>))
        else case nextCheckpoint s of
          None \<Rightarrow> Inr (checkpointNode s, s)
        | Some nxt \<Rightarrow>
            (case view_tip bestChain of
               None \<Rightarrow> Inl Panic
             | Some tip \<Rightarrow>
                 if height tip < cp_Height nxt then Inr (checkpointNode s, s)
                 else case index (cp_Hash nxt) of
                   None \<Rightarrow> Inl AssertError
                 | Some node \<Rightarrow>
                     let pos = checkpoint_position checkpoints (cp_Hash nxt) numCheckpoints;
                         following = (case pos of
                             Some i \<Rightarrow> if i < numCheckpoints - 1 then Some (checkpoints ! (i + 1)) else None
                           | None \<Rightarrow> None)
                     in Inr (Some node, \<lparr>checkpointNode = Some node, nextCheckpoint = following\<rparr>)))"

section \<open>The checks of a header\<close>

type_synonym BehaviorFlags = u32

definition BFFastAdd :: BehaviorFlags where "BFFastAdd = 1"
definition BFNoPoWCheck :: BehaviorFlags where "BFNoPoWCheck = 2"
definition BFNone :: BehaviorFlags where "BFNone = 0"
definition MaxTimeOffsetSeconds :: int where "MaxTimeOffsetSeconds = 2 * 60 * 60"

definition checkProofOfWork :: "crypto \<Rightarrow> BlockHeader \<Rightarrow> int \<Rightarrow> BehaviorFlags \<Rightarrow> unit rule" where
  "checkProofOfWork c header powLimit flags =
     (let target = CompactToBig (Bits header) in
      if target \<le> 0 then Inl ErrUnexpectedDifficulty
      else if target > powLimit then Inl ErrUnexpectedDifficulty
      else if flags AND BFNoPoWCheck \<noteq> BFNoPoWCheck \<and> HashToBig (BlockHash c header) > target then Inl ErrHighHash
      else Inr ())"

definition CheckBlockHeaderSanity :: "crypto \<Rightarrow> BlockHeader \<Rightarrow> int \<Rightarrow> int \<Rightarrow> BehaviorFlags \<Rightarrow> unit rule" where
  "CheckBlockHeaderSanity c header powLimit adjustedTime flags =
     rbind (checkProofOfWork c header powLimit flags) (\<lambda>_.
       if Timestamp header \<noteq> time_Unix (Unix (Timestamp header)) then Inl ErrInvalidTime
       else if Timestamp header > adjustedTime + time_Second * MaxTimeOffsetSeconds then Inl ErrTimeTooNew
       else Inr ())"

definition CheckBlockHeaderContext ::
    "crypto \<Rightarrow> 's ChainCtx \<Rightarrow> BlockHeader \<Rightarrow> blockNode option \<Rightarrow> BehaviorFlags \<Rightarrow> bool \<Rightarrow> 's \<Rightarrow> 's rule" where
  "CheckBlockHeaderContext c ctx header prevNode flags skipCheckpoint s =
     rbind (if flags AND BFFastAdd = BFFastAdd then Inr ()
            else rbind (calcNextRequiredDifficulty ctx prevNode (Timestamp header)) (\<lambda>expectedDifficulty.
              if Bits header \<noteq> expectedDifficulty then Inl ErrUnexpectedDifficulty
              else rbind (CalcPastMedianTime prevNode) (\<lambda>medianTime.
                if \<not> Timestamp header > medianTime then Inl ErrTimeTooOld else Inr ()))) (\<lambda>_.
     case prevNode of None \<Rightarrow> Inl Panic
     | Some prev \<Rightarrow>
         let blockHeight = i32 (height prev + 1);
             params = ChainParams ctx;
             version = sint (bh_Version header)
         in if version < 2 \<and> blockHeight \<ge> BIP0034Height params
               \<or> version < 3 \<and> blockHeight \<ge> BIP0066Height params
               \<or> version < 4 \<and> blockHeight \<ge> BIP0065Height params then Inl ErrBlockVersionTooOld
            else if skipCheckpoint then Inr s
            else if \<not> VerifyCheckpoint ctx blockHeight (BlockHash c header) then Inl ErrBadCheckpoint
            else rbind (FindPreviousCheckpoint ctx s) (\<lambda>(checkpointNode, s).
              case checkpointNode of
                Some cp \<Rightarrow> if blockHeight < height cp then Inl ErrForkTooOld else Inr s
              | None \<Rightarrow> Inr s))"

text \<open>The context of a node with its index and its best chain.\<close>

definition block_chain_ctx :: "Params \<Rightarrow> Checkpoint list \<Rightarrow> node_index \<Rightarrow> chainView \<Rightarrow> checkpoint_state ChainCtx" where
  "block_chain_ctx params checkpoints index bestChain =
     chain_ctx params (verifyCheckpoint checkpoints) (findPreviousCheckpoint index bestChain checkpoints)"

lemma known_update:
  assumes "index (node_hash m) = None"
  shows "known (index(node_hash m \<mapsto> m)) n \<longleftrightarrow> n = m \<or> known index n"
  using assms by (auto simp: known_def)

text \<open>C18: A header that passes the checks with and without context extends the index of headers to an index that is
  still good: the new node is later than the median time of its parent, its parent is known, and its height, work and
  skip pointer are those of a node the program makes. So the clock of the votes on rule changes never runs backwards.\<close>

theorem accepted_header_keeps_index:
  assumes "good_index c index" and "known index p" and "height p < 2 ^ 31 - 1"
    and "index (BlockHash c hdr) = None" and "BlockHash c hdr \<noteq> replicate 32 0"
    and "CheckBlockHeaderSanity c hdr powLimit now flags = Inr ()"
    and "CheckBlockHeaderContext c ctx hdr (Some p) flags skip s = Inr s'" and "flags AND BFFastAdd \<noteq> BFFastAdd"
  shows "good_index c (index(BlockHash c hdr \<mapsto> newBlockNode c hdr (Some p)))
    \<and> mtp p \<le> mtp (newBlockNode c hdr (Some p))"
proof -
  define m where "m = newBlockNode c hdr (Some p)"
  have m: "node_hash m = BlockHash c hdr" "parent m = Some p" "timestamp m = Unix (Timestamp hdr)"
    by (simp_all add: m_def newBlockNode_def)
  have whole: "Timestamp hdr = time_Unix (Unix (Timestamp hdr))"
    using assms(6) by (auto simp: CheckBlockHeaderSanity_def rbind_eq_Inr split: if_splits)
  have "mtp p < Timestamp hdr"
    using assms(7,8)
    by (auto simp: CheckBlockHeaderContext_def rbind_eq_Inr CalcPastMedianTime_mtp split: if_splits)
  then have later: "mtp p < time_Unix (timestamp m)" using whole m(3) by simp
  have cm: "chain_node c m"
    unfolding m_def by (rule child_node [OF good_index_chain [OF assms(1,2)] assms(3)])
  have fresh: "index (node_hash m) = None" using assms(4) m(1) by simp
  have "good_index c (index(node_hash m \<mapsto> m))"
    unfolding good_index_def known_update [of index m, OF fresh]
    using assms(1,2,5) m cm later by (auto simp: good_index_def)
  moreover have "mtp p \<le> mtp m"
    using median_time_step [OF m(2) CalcPastMedianTime_mtp] later by (auto simp: CalcPastMedianTime_mtp)
  ultimately show ?thesis by (simp add: m(1) flip: m_def)
qed

definition regtest_ctx :: "unit ChainCtx" where
  "regtest_ctx = chain_ctx RegressionNetParams (\<lambda>_ _. True) (\<lambda>s. Inr (None, s))"

lemma line_index_next: "k \<le> 2 ^ 31 \<Longrightarrow> line_index t0 k (BlockHash toy_crypto (line_header t0 k)) = None"
proof (rule ccontr)
  assume k: "k \<le> 2 ^ 31" and "line_index t0 k (BlockHash toy_crypto (line_header t0 k)) \<noteq> None"
  then obtain j where "j < k" "node_hash (line t0 k) = node_hash (line t0 j)"
    by (auto simp: line_index_def line_hash BlockHash_def DoubleHashB_def toy_crypto_def dest!: map_of_SomeD)
  with line_hash_inj [of t0 k j] k show False by auto
qed

theorem accepted_header_keeps_index_witness:
  "good_index toy_crypto ((line_index 1600000000 3)(BlockHash toy_crypto (line_header 1600000000 3)
     \<mapsto> newBlockNode toy_crypto (line_header 1600000000 3) (Some (line 1600000000 2))))"
proof -
  have kn: "known (line_index 1600000000 3) (line 1600000000 2)"
    by (subst line_known) (auto intro!: exI [of _ 2])
  have h: "height (line 1600000000 2) < 2 ^ 31 - 1" using line_chain [of 2 1600000000] by simp
  have new: "line_index 1600000000 3 (BlockHash toy_crypto (line_header 1600000000 3)) = None"
    by (rule line_index_next) simp
  have "length (BlockHash toy_crypto (line_header 1600000000 3)) \<noteq> length (replicate 32 (0::u8))"
    by (simp add: BlockHash_def DoubleHashB_def toy_crypto_def writeBlockHeaderBuf_def line_header_def)
  then have nz: "BlockHash toy_crypto (line_header 1600000000 3) \<noteq> replicate 32 0" by metis
  have target: "CompactToBig 0x207fffff = 0x7fffff * 256 ^ 29" by (simp add: CompactToBig_def Let_def push_bit_eq_mult)
  have sane: "CheckBlockHeaderSanity toy_crypto (line_header 1600000000 3) (2 ^ 255 - 1) (time_Unix 1600000003) BFNoPoWCheck = Inr ()"
    by (simp add: CheckBlockHeaderSanity_def checkProofOfWork_def line_header_def target BFNoPoWCheck_def
        time_Second_def MaxTimeOffsetSeconds_def Let_def)
  have "mtp (line 1600000000 2) < time_Unix 1600000003"
    using line_mtp [of 1600000000 2] by (simp add: time_Unix_def)
  moreover have "height (line 1600000000 2) = 2" using line_chain [of 2 1600000000] by simp
  ultimately have ctx_ok: "CheckBlockHeaderContext toy_crypto regtest_ctx (line_header 1600000000 3) (Some (line 1600000000 2)) BFNoPoWCheck True () = Inr ()"
    by (simp add: CheckBlockHeaderContext_def calcNextRequiredDifficulty_def regtest_ctx_def chain_ctx_def Let_def
        RegressionNetParams_def line_header_def CalcPastMedianTime_mtp BFFastAdd_def BFNoPoWCheck_def i32_id)
  have "BFNoPoWCheck AND BFFastAdd \<noteq> BFFastAdd" by (simp add: BFFastAdd_def BFNoPoWCheck_def)
  then show ?thesis
    using accepted_header_keeps_index [OF line_index_good kn h new nz sane ctx_ok] by simp
qed

end
