(* ===== verification/Chain_Rules.thy ===== *)
theory Chain_Rules
  imports Chain_View Chain_Header Script_Opcodes
begin

unbundle bit_operations_syntax

text \<open>
  The rules of transactions (\<open>btcd/blockchain/validate.go\<close>, \<open>weight.go\<close>, the sequence locks of \<open>chain.go\<close>): sanity
  without context, weights and signature operations, lock times, the subsidy and the check of the inputs, which gives
  the fee. Amounts are \<open>int64\<close>: sums are written with \<open>i64\<close>, and the checks of the ranges are shown to keep them exact.
\<close>

section \<open>Constants\<close>

definition SatoshiPerBitcoin :: int where "SatoshiPerBitcoin = 10 ^ 8"
definition MaxSatoshi :: int where "MaxSatoshi = 21 * 10 ^ 6 * SatoshiPerBitcoin"
definition baseSubsidy :: int where "baseSubsidy = 50 * SatoshiPerBitcoin"
definition MinCoinbaseScriptLen :: nat where "MinCoinbaseScriptLen = 2"
definition MaxCoinbaseScriptLen :: nat where "MaxCoinbaseScriptLen = 100"
definition serializedHeightVersion :: int where "serializedHeightVersion = 2"
definition MaxBlockWeight :: int where "MaxBlockWeight = 4000000"
definition MaxBlockBaseSize :: nat where "MaxBlockBaseSize = 1000000"
definition MaxBlockSigOpsCost :: int where "MaxBlockSigOpsCost = 80000"
definition WitnessScaleFactor :: nat where "WitnessScaleFactor = 4"
definition Bip16Activation :: int where "Bip16Activation = time_Unix 1333238400"

section \<open>Lock times\<close>

definition isNullOutpoint :: "OutPoint \<Rightarrow> bool" where
  "isNullOutpoint outpoint \<longleftrightarrow> op_Index outpoint = 0xffffffff \<and> op_Hash outpoint = zeroHash"

definition ShouldHaveSerializedBlockHeight :: "BlockHeader \<Rightarrow> bool" where
  "ShouldHaveSerializedBlockHeight header \<longleftrightarrow> sint (bh_Version header) \<ge> serializedHeightVersion"

definition IsFinalizedTransaction :: "MsgTx \<Rightarrow> int \<Rightarrow> int \<Rightarrow> bool" where
  "IsFinalizedTransaction tx bh blockTime =
     (let lockTime = uint (LockTime tx) in
      if lockTime = 0 then True
      else let blockTimeOrHeight = (if lockTime < LockTimeThreshold then bh else Unix blockTime) in
        if lockTime < blockTimeOrHeight then True
        else list_all (\<lambda>txIn. Sequence txIn = 0xffffffff) (MsgTxIn tx))"

record SequenceLock =
  Seconds :: int
  lock_BlockHeight :: int

definition SequenceLockActive :: "SequenceLock \<Rightarrow> int \<Rightarrow> int \<Rightarrow> bool" where
  "SequenceLockActive sequenceLock bh medianTimePast \<longleftrightarrow>
     \<not> (Seconds sequenceLock \<ge> Unix medianTimePast \<or> lock_BlockHeight sequenceLock \<ge> bh)"

abbreviation SequenceLockTimeGranularity :: nat where "SequenceLockTimeGranularity \<equiv> 9"

definition LockTimeToSequence :: "bool \<Rightarrow> u32 \<Rightarrow> u32" where
  "LockTimeToSequence isSeconds locktime =
     (if \<not> isSeconds then locktime
      else of_int SequenceLockTimeIsSeconds OR drop_bit SequenceLockTimeGranularity locktime)"

text \<open>The round of the loop of \<open>calcSequenceLock\<close> for one input.\<close>

definition input_lock :: "blockNode \<Rightarrow> UtxoViewpoint \<Rightarrow> TxIn \<Rightarrow> SequenceLock \<Rightarrow> SequenceLock rule" where
  "input_lock node utxoView txIn sequenceLock =
     (case LookupEntry utxoView (PreviousOutPoint txIn) of
        None \<Rightarrow> Inl ErrMissingTxOut
      | Some utxo \<Rightarrow>
          let inputHeight = (if blockHeight utxo = 0x7fffffff then i32 (height node + 1) else blockHeight utxo);
              sequenceNum = uint (Sequence txIn);
              relativeLock = sequenceNum AND SequenceLockTimeMask
          in if sequenceNum AND SequenceLockTimeDisabled = SequenceLockTimeDisabled then Inr sequenceLock
             else if sequenceNum AND SequenceLockTimeIsSeconds = SequenceLockTimeIsSeconds then
               let prevInputHeight = i32 (inputHeight - 1);
                   prevInputHeight = (if prevInputHeight < 0 then 0 else prevInputHeight)
               in rbind (CalcPastMedianTime (Ancestor node prevInputHeight)) (\<lambda>medianTime.
                  let timeLock = i64 (Unix medianTime + (push_bit SequenceLockTimeGranularity relativeLock - 1))
                  in Inr (if timeLock > Seconds sequenceLock then sequenceLock\<lparr>Seconds := timeLock\<rparr> else sequenceLock))
             else
               let bh = i32 (inputHeight + (relativeLock - 1))
               in Inr (if bh > lock_BlockHeight sequenceLock then sequenceLock\<lparr>lock_BlockHeight := bh\<rparr> else sequenceLock))"

definition calcSequenceLock ::
    "crypto \<Rightarrow> node_index \<Rightarrow> Params \<Rightarrow> blockNode \<Rightarrow> MsgTx \<Rightarrow> UtxoViewpoint \<Rightarrow> bool \<Rightarrow> thresholdStateCache list
     \<Rightarrow> (SequenceLock \<times> thresholdStateCache list) rule" where
  "calcSequenceLock c index params node tx utxoView mempool caches =
     rbind (if mempool then Inr (True, caches)
            else rbind (deploymentState c index params (parent node) DeploymentCSV caches) (\<lambda>(csvState, caches).
              Inr (csvState = ThresholdActive, caches))) (\<lambda>(csvSoftforkActive, caches).
       if \<not> (uint (Version tx) \<ge> 2 \<and> csvSoftforkActive) \<or> IsCoinBaseTx tx
       then Inr (\<lparr>Seconds = -1, lock_BlockHeight = -1\<rparr>, caches)
       else rbind (fold_r (input_lock node utxoView) (MsgTxIn tx) \<lparr>Seconds = -1, lock_BlockHeight = -1\<rparr>) (\<lambda>lock.
         Inr (lock, caches)))"

section \<open>The subsidy\<close>

text \<open>A shift by a negative count, converted to an unsigned one, leaves nothing.\<close>

definition CalcBlockSubsidy :: "int \<Rightarrow> Params \<Rightarrow> int" where
  "CalcBlockSubsidy h chainParams =
     (if SubsidyReductionInterval chainParams = 0 then baseSubsidy
      else let halvings = i32 (h sdiv SubsidyReductionInterval chainParams)
           in if halvings < 0 then 0 else drop_bit (nat halvings) baseSubsidy)"

section \<open>Sanity of a transaction\<close>

text \<open>The loop over the outputs and the total it leaves.\<close>

fun check_outs :: "TxOut list \<Rightarrow> int \<Rightarrow> int rule" where
  "check_outs [] totalSatoshi = Inr totalSatoshi"
| "check_outs (txOut # txOuts) totalSatoshi =
     (let satoshi = sint (Value txOut) in
      if satoshi < 0 then Inl ErrBadTxOutValue
      else if satoshi > MaxSatoshi then Inl ErrBadTxOutValue
      else let totalSatoshi = i64 (totalSatoshi + satoshi) in
        if totalSatoshi < 0 then Inl ErrBadTxOutValue
        else if totalSatoshi > MaxSatoshi then Inl ErrBadTxOutValue
        else check_outs txOuts totalSatoshi)"

definition CheckTransactionSanity :: "MsgTx \<Rightarrow> unit rule" where
  "CheckTransactionSanity tx =
     (if length (MsgTxIn tx) = 0 then Inl ErrNoTxInputs
      else if length (MsgTxOut tx) = 0 then Inl ErrNoTxOutputs
      else if SerializeSizeStripped tx > MaxBlockBaseSize then Inl ErrTxTooBig
      else rbind (check_outs (MsgTxOut tx) 0) (\<lambda>_.
        if \<not> distinct (map PreviousOutPoint (MsgTxIn tx)) then Inl ErrDuplicateTxInputs
        else if IsCoinBaseTx tx then
          let slen = length (SignatureScript (MsgTxIn tx ! 0)) in
          if slen < MinCoinbaseScriptLen \<or> slen > MaxCoinbaseScriptLen then Inl ErrBadCoinbaseScriptLen else Inr ()
        else if list_ex (\<lambda>txIn. isNullOutpoint (PreviousOutPoint txIn)) (MsgTxIn tx) then Inl ErrBadTxInput
        else Inr ()))"

section \<open>Weights and signature operations\<close>

definition GetBlockWeight :: "Block \<Rightarrow> int" where
  "GetBlockWeight blk =
     int (block_SerializeSizeStripped (msgBlock blk) * (WitnessScaleFactor - 1) + block_SerializeSize (msgBlock blk))"

definition GetTransactionWeight :: "MsgTx \<Rightarrow> int" where
  "GetTransactionWeight tx = int (SerializeSizeStripped tx * (WitnessScaleFactor - 1) + SerializeSize tx)"

definition CountSigOps :: "MsgTx \<Rightarrow> int" where
  "CountSigOps tx =
     fold (\<lambda>txOut n. i64 (n + int (GetSigOpCount (PkScript txOut)))) (MsgTxOut tx)
       (fold (\<lambda>txIn n. i64 (n + int (GetSigOpCount (SignatureScript txIn)))) (MsgTxIn tx) 0)"

definition p2sh_ops :: "UtxoViewpoint \<Rightarrow> TxIn \<Rightarrow> int \<Rightarrow> int rule" where
  "p2sh_ops utxoView txIn totalSigOps =
     (case LookupEntry utxoView (PreviousOutPoint txIn) of
        None \<Rightarrow> Inl ErrMissingTxOut
      | Some utxo \<Rightarrow>
          if IsSpent utxo then Inl ErrMissingTxOut
          else if \<not> isScriptHashScript (pkScript utxo) then Inr totalSigOps
          else let lastSigOps = totalSigOps;
                   totalSigOps = i64 (totalSigOps + int (GetPreciseSigOpCount (SignatureScript txIn) (pkScript utxo)))
               in if totalSigOps < lastSigOps then Inl ErrTooManySigOps else Inr totalSigOps)"

definition CountP2SHSigOps :: "MsgTx \<Rightarrow> bool \<Rightarrow> UtxoViewpoint \<Rightarrow> int rule" where
  "CountP2SHSigOps tx isCoinBaseTx utxoView =
     (if isCoinBaseTx then Inr 0 else fold_r (p2sh_ops utxoView) (MsgTxIn tx) 0)"

definition witness_ops :: "UtxoViewpoint \<Rightarrow> TxIn \<Rightarrow> int \<Rightarrow> int rule" where
  "witness_ops utxoView txIn numSigOps =
     (case LookupEntry utxoView (PreviousOutPoint txIn) of
        None \<Rightarrow> Inl ErrMissingTxOut
      | Some utxo \<Rightarrow>
          if IsSpent utxo then Inl ErrMissingTxOut
          else Inr (i64 (numSigOps + int (GetWitnessSigOpCount (SignatureScript txIn) (pkScript utxo) (Witness txIn)))))"

text \<open>When the count of a script hash fails, the function returns zero and no error.\<close>

definition GetSigOpCost :: "MsgTx \<Rightarrow> bool \<Rightarrow> UtxoViewpoint \<Rightarrow> bool \<Rightarrow> bool \<Rightarrow> int rule" where
  "GetSigOpCost tx isCoinBaseTx utxoView enforceBip16 segWit =
     (let numSigOps = i64 (CountSigOps tx * int WitnessScaleFactor);
          segwit_ops = (\<lambda>n. if segWit \<and> \<not> isCoinBaseTx then fold_r (witness_ops utxoView) (MsgTxIn tx) n else Inr n)
      in if enforceBip16 then
           (case CountP2SHSigOps tx isCoinBaseTx utxoView of
              Inl _ \<Rightarrow> Inr 0
            | Inr numP2SHSigOps \<Rightarrow> segwit_ops (i64 (numSigOps + i64 (numP2SHSigOps * int WitnessScaleFactor))))
         else segwit_ops numSigOps)"

section \<open>The inputs of a transaction\<close>

text \<open>The round of the loop of \<open>CheckTransactionInputs\<close> for one input.\<close>

definition check_input :: "int \<Rightarrow> UtxoViewpoint \<Rightarrow> Params \<Rightarrow> TxIn \<Rightarrow> int \<Rightarrow> int rule" where
  "check_input txHeight utxoView chainParams txIn totalSatoshiIn =
     (case LookupEntry utxoView (PreviousOutPoint txIn) of
        None \<Rightarrow> Inl ErrMissingTxOut
      | Some utxo \<Rightarrow>
          if IsSpent utxo then Inl ErrMissingTxOut
          else if IsCoinBase utxo \<and> i32 (txHeight - blockHeight utxo) < uint (CoinbaseMaturity chainParams)
          then Inl ErrImmatureSpend
          else let originTxSatoshi = sint (amount utxo) in
            if originTxSatoshi < 0 then Inl ErrBadTxOutValue
            else if originTxSatoshi > MaxSatoshi then Inl ErrBadTxOutValue
            else let lastSatoshiIn = totalSatoshiIn; totalSatoshiIn = i64 (totalSatoshiIn + originTxSatoshi) in
              if totalSatoshiIn < lastSatoshiIn \<or> totalSatoshiIn > MaxSatoshi then Inl ErrBadTxOutValue
              else Inr totalSatoshiIn)"

text \<open>The sum of the outputs, with no check of overflow.\<close>

definition sum_outs :: "TxOut list \<Rightarrow> int" where
  "sum_outs txOuts = fold (\<lambda>txOut n. i64 (n + sint (Value txOut))) txOuts 0"

definition CheckTransactionInputs :: "MsgTx \<Rightarrow> int \<Rightarrow> UtxoViewpoint \<Rightarrow> Params \<Rightarrow> int rule" where
  "CheckTransactionInputs tx txHeight utxoView chainParams =
     (if IsCoinBaseTx tx then Inr 0
      else rbind (fold_r (check_input txHeight utxoView chainParams) (MsgTxIn tx) 0) (\<lambda>totalSatoshiIn.
        let totalSatoshiOut = sum_outs (MsgTxOut tx) in
        if totalSatoshiIn < totalSatoshiOut then Inl ErrSpendTooHigh
        else Inr (i64 (totalSatoshiIn - totalSatoshiOut))))"

section \<open>Sums of amounts\<close>

definition amounts :: "TxOut list \<Rightarrow> int" where
  "amounts txOuts = sum_list (map (sint \<circ> Value) txOuts)"

lemma MaxSatoshi_eq: "MaxSatoshi = 2100000000000000" "baseSubsidy = 5000000000"
  by (simp_all add: MaxSatoshi_def baseSubsidy_def SatoshiPerBitcoin_def)

lemma i64_amount: "0 \<le> a \<Longrightarrow> a \<le> 2 * MaxSatoshi \<Longrightarrow> i64 a = a"
  by (rule i64_id) (simp add: is_i64_def MaxSatoshi_eq)

lemma check_outs_Inr:
  assumes "check_outs outs t = Inr t'" "0 \<le> t" "t \<le> MaxSatoshi"
  shows "t' = t + amounts outs" "\<forall>txo\<in>set outs. 0 \<le> sint (Value txo)" "t + amounts outs \<le> MaxSatoshi"
proof -
  have "t' = t + amounts outs \<and> (\<forall>txo\<in>set outs. 0 \<le> sint (Value txo)) \<and> t + amounts outs \<le> MaxSatoshi"
    using assms
  proof (induction outs arbitrary: t)
    case (Cons txo outs)
    let ?s = "sint (Value txo)"
    have s: "0 \<le> ?s" "?s \<le> MaxSatoshi" using Cons.prems(1) by (simp_all add: Let_def split: if_splits)
    have i: "i64 (t + ?s) = t + ?s" using s Cons.prems(2,3) by (intro i64_amount) auto
    have "check_outs outs (t + ?s) = Inr t'" "t + ?s \<le> MaxSatoshi"
      using Cons.prems(1) by (simp_all add: Let_def i split: if_splits)
    from Cons.IH [OF this(1) _ this(2)] s Cons.prems(2) show ?case by (simp add: amounts_def)
  qed (simp add: amounts_def)
  then show "t' = t + amounts outs" "\<forall>txo\<in>set outs. 0 \<le> sint (Value txo)" "t + amounts outs \<le> MaxSatoshi" by auto
qed

lemma amounts_nonneg: "\<forall>txo\<in>set outs. 0 \<le> sint (Value txo) \<Longrightarrow> 0 \<le> amounts outs"
  by (auto simp: amounts_def intro!: sum_list_nonneg)

lemma sum_outs_exact:
  assumes "\<forall>txo\<in>set outs. 0 \<le> sint (Value txo)" "amounts outs \<le> MaxSatoshi"
  shows "sum_outs outs = amounts outs"
proof -
  have "fold (\<lambda>txOut n. i64 (n + sint (Value txOut))) outs t = t + amounts outs"
    if "0 \<le> t" "t + amounts outs \<le> MaxSatoshi" "\<forall>txo\<in>set outs. 0 \<le> sint (Value txo)" for t
    using that
  proof (induction outs arbitrary: t)
    case (Cons txo outs)
    have "0 \<le> sint (Value txo)" "0 \<le> amounts outs" using Cons.prems(3) by (auto intro: amounts_nonneg)
    moreover from this have "i64 (t + sint (Value txo)) = t + sint (Value txo)"
      using Cons.prems(1,2) by (intro i64_amount) (auto simp: amounts_def)
    ultimately show ?case using Cons.IH [of "t + sint (Value txo)"] Cons.prems by (simp add: amounts_def)
  qed (simp add: amounts_def)
  from this [of 0] assms show ?thesis by (simp add: sum_outs_def)
qed

text \<open>What the sanity check ensures.\<close>

definition sane :: "MsgTx \<Rightarrow> bool" where
  "sane tx \<longleftrightarrow> MsgTxIn tx \<noteq> [] \<and> MsgTxOut tx \<noteq> [] \<and> SerializeSizeStripped tx \<le> MaxBlockBaseSize
     \<and> distinct (map PreviousOutPoint (MsgTxIn tx))
     \<and> (\<forall>txo\<in>set (MsgTxOut tx). 0 \<le> sint (Value txo)) \<and> amounts (MsgTxOut tx) \<le> MaxSatoshi
     \<and> (\<not> IsCoinBaseTx tx \<longrightarrow> (\<forall>txIn\<in>set (MsgTxIn tx). \<not> isNullOutpoint (PreviousOutPoint txIn)))"

lemma CheckTransactionSanity_sane: "CheckTransactionSanity tx = Inr () \<Longrightarrow> sane tx"
proof -
  assume a: "CheckTransactionSanity tx = Inr ()"
  then obtain t where "check_outs (MsgTxOut tx) 0 = Inr t"
    by (auto simp: CheckTransactionSanity_def rbind_eq_Inr split: if_splits)
  from check_outs_Inr [OF this] a show ?thesis
    by (auto simp: CheckTransactionSanity_def sane_def rbind_eq_Inr MaxSatoshi_eq list_ex_iff Let_def split: if_splits)
qed

lemma sane_sums: "sane tx \<Longrightarrow> sum_outs (MsgTxOut tx) = amounts (MsgTxOut tx)" "sane tx \<Longrightarrow> 0 \<le> amounts (MsgTxOut tx)"
  by (simp_all add: sane_def sum_outs_exact amounts_nonneg)

lemma sane_outs: "sane tx \<Longrightarrow> length (MsgTxOut tx) \<le> 2 ^ 32"
proof -
  assume "sane tx"
  moreover have "length outs \<le> sum_list (map TxOut_SerializeSize outs)" for outs
    by (induction outs) (auto simp: TxOut_SerializeSize_def)
  note this [of "MsgTxOut tx"]
  ultimately show ?thesis
    by (simp add: sane_def SerializeSizeStripped_def baseSize_eq MaxBlockBaseSize_def)
qed

section \<open>Fees\<close>

text \<open>The amount of the coins that the inputs spend.\<close>

definition coins_amount :: "coins \<Rightarrow> OutPoint list \<Rightarrow> int" where
  "coins_amount L ops = sum_list (map (\<lambda>op. sint (Amount (the (L op)))) ops)"

lemma check_input_Inr:
  assumes "check_input h view params txIn t = Inr t'" "0 \<le> t" "t \<le> MaxSatoshi"
  shows "\<exists>x. view_coins Map.empty view (PreviousOutPoint txIn) = Some x \<and> 0 \<le> sint (Amount x) \<and> t' = t + sint (Amount x)
    \<and> t' \<le> MaxSatoshi \<and> (stxo_IsCoinBase x \<longrightarrow> uint (CoinbaseMaturity params) \<le> i32 (h - stxo_Height x))"
proof -
  from assms(1) obtain u where u: "LookupEntry view (PreviousOutPoint txIn) = Some u" "\<not> IsSpent u"
      "IsCoinBase u \<longrightarrow> uint (CoinbaseMaturity params) \<le> i32 (h - blockHeight u)"
      "0 \<le> sint (amount u)" "sint (amount u) \<le> MaxSatoshi" "t' = i64 (t + sint (amount u))" "t' \<le> MaxSatoshi"
    by (auto simp: check_input_def Let_def split: option.splits if_splits)
  moreover have "i64 (t + sint (amount u)) = t + sint (amount u)" using u(4,5) assms(2,3) by (intro i64_amount) auto
  moreover have "view_coins Map.empty view (PreviousOutPoint txIn) = Some (stxo_of u)"
    using u(1,2) by (simp add: view_coins_def entry_coin_def)
  ultimately show ?thesis by (auto simp: stxo_of_def)
qed

lemma check_inputs_Inr:
  assumes "fold_r (check_input h view params) ins t = Inr t'" "0 \<le> t" "t \<le> MaxSatoshi"
  shows "(\<forall>txIn\<in>set ins. \<exists>x. view_coins Map.empty view (PreviousOutPoint txIn) = Some x \<and> 0 \<le> sint (Amount x)
      \<and> (stxo_IsCoinBase x \<longrightarrow> uint (CoinbaseMaturity params) \<le> i32 (h - stxo_Height x)))
    \<and> t' = t + coins_amount (view_coins Map.empty view) (map PreviousOutPoint ins) \<and> t' \<le> MaxSatoshi \<and> 0 \<le> t'"
  using assms
proof (induction ins arbitrary: t)
  case (Cons ti ins)
  from Cons.prems(1) obtain t1 where 1: "check_input h view params ti t = Inr t1"
      and r: "fold_r (check_input h view params) ins t1 = Inr t'" by (auto simp: rbind_eq_Inr)
  from check_input_Inr [OF 1 Cons.prems(2,3)] obtain x where
    "view_coins Map.empty view (PreviousOutPoint ti) = Some x" "0 \<le> sint (Amount x)" "t1 = t + sint (Amount x)"
    "t1 \<le> MaxSatoshi" "stxo_IsCoinBase x \<longrightarrow> uint (CoinbaseMaturity params) \<le> i32 (h - stxo_Height x)" by blast
  with Cons.IH [OF r] Cons.prems(2) show ?case by (auto simp: coins_amount_def)
qed (simp add: coins_amount_def)

text \<open>What the check of the inputs ensures, over the coins the view shows: every input finds a coin, coinbases are mature,
  and the fee is the exact difference of what goes in and what comes out.\<close>

lemma CheckTransactionInputs_fee:
  assumes "CheckTransactionInputs tx h view params = Inr fee" "sane tx" "\<not> IsCoinBaseTx tx"
  shows "\<forall>op\<in>set (map PreviousOutPoint (MsgTxIn tx)). \<exists>x. view_coins Map.empty view op = Some x \<and> 0 \<le> sint (Amount x)
      \<and> (stxo_IsCoinBase x \<longrightarrow> uint (CoinbaseMaturity params) \<le> i32 (h - stxo_Height x))"
    "fee = coins_amount (view_coins Map.empty view) (map PreviousOutPoint (MsgTxIn tx)) - amounts (MsgTxOut tx)"
    "0 \<le> fee" "fee \<le> MaxSatoshi"
proof -
  from assms(1,3) obtain t where t: "fold_r (check_input h view params) (MsgTxIn tx) 0 = Inr t"
      and fee: "sum_outs (MsgTxOut tx) \<le> t" "fee = i64 (t - sum_outs (MsgTxOut tx))"
    by (auto simp: CheckTransactionInputs_def rbind_eq_Inr Let_def split: if_splits)
  have c: "(\<forall>txIn\<in>set (MsgTxIn tx). \<exists>x. view_coins Map.empty view (PreviousOutPoint txIn) = Some x \<and> 0 \<le> sint (Amount x)
      \<and> (stxo_IsCoinBase x \<longrightarrow> uint (CoinbaseMaturity params) \<le> i32 (h - stxo_Height x)))"
      "t = coins_amount (view_coins Map.empty view) (map PreviousOutPoint (MsgTxIn tx))" "t \<le> MaxSatoshi" "0 \<le> t"
    using check_inputs_Inr [OF t] by (simp_all add: MaxSatoshi_eq)
  have "i64 (t - sum_outs (MsgTxOut tx)) = t - sum_outs (MsgTxOut tx)"
    using fee(1) c(3) sane_sums [OF assms(2)] by (intro i64_amount) auto
  with fee c(2-4) sane_sums [OF assms(2)]
  show "fee = coins_amount (view_coins Map.empty view) (map PreviousOutPoint (MsgTxIn tx)) - amounts (MsgTxOut tx)"
    "0 \<le> fee" "fee \<le> MaxSatoshi" by auto
  show "\<forall>op\<in>set (map PreviousOutPoint (MsgTxIn tx)). \<exists>x. view_coins Map.empty view op = Some x \<and> 0 \<le> sint (Amount x)
      \<and> (stxo_IsCoinBase x \<longrightarrow> uint (CoinbaseMaturity params) \<le> i32 (h - stxo_Height x))"
    using c(1) by simp
qed

section \<open>The supply\<close>

lemma CalcBlockSubsidy_range: "0 \<le> CalcBlockSubsidy h params" "CalcBlockSubsidy h params \<le> baseSubsidy"
  using zdiv_mono2 [of 5000000000 1 "2 ^ k" for k :: nat]
  by (auto simp: CalcBlockSubsidy_def MaxSatoshi_eq Let_def drop_bit_eq_div pos_imp_zdiv_nonneg_iff)

lemma sum_blocks: "(\<Sum>h<m * i. f (h div i)) = of_nat i * (\<Sum>k<m. (f k :: int))" if "0 < i"
proof (induction m)
  case (Suc m)
  have "(\<Sum>h<Suc m * i. f (h div i)) = (\<Sum>h<m * i. f (h div i)) + (\<Sum>h=m * i..<m * i + i. f (h div i))"
    by (simp add: add.commute sum.atLeastLessThan_concat flip: atLeast0LessThan)
  also have "(\<Sum>h=m * i..<m * i + i. f (h div i)) = (\<Sum>h=m * i..<m * i + i. f m)"
    using div_nat_eqI [of i m h for h] by (intro sum.cong) (auto simp: algebra_simps)
  finally show ?case using Suc by (simp add: algebra_simps)
qed simp

lemma main_subsidy:
  assumes "h < 2 ^ 31"
  shows "CalcBlockSubsidy (int h) MainNetParams = 5000000000 div 2 ^ (h div 210000)"
proof -
  have "int h sdiv 210000 = int (h div 210000)" by (cases "h = 0") (simp_all add: signed_divide_int_def zdiv_int)
  moreover have "i32 (int (h div 210000)) = int (h div 210000)" using assms by (intro i32_small) auto
  ultimately show ?thesis
    by (simp add: CalcBlockSubsidy_def MainNetParams_def MaxSatoshi_eq drop_bit_eq_div)
qed

text \<open>C30: All subsidies of the main network together, over every block height an \<open>int32\<close> can hold, stay below the largest
  amount of money that the checks of amounts admit.\<close>

theorem supply_cap:
  assumes "n \<le> 2 ^ 31"
  shows "(\<Sum>h<n. CalcBlockSubsidy (int h) MainNetParams) \<le> MaxSatoshi"
proof -
  let ?f = "\<lambda>k. 5000000000 div 2 ^ k :: int"
  have "(\<Sum>h<n. CalcBlockSubsidy (int h) MainNetParams) = (\<Sum>h<n. ?f (h div 210000))"
    using assms by (intro sum.cong) (auto simp: main_subsidy)
  also have "\<dots> \<le> (\<Sum>h<(Suc (n div 210000)) * 210000. ?f (h div 210000))"
    by (intro sum_mono2) (auto simp: dividend_less_times_div pos_imp_zdiv_nonneg_iff)
  also have "\<dots> = 210000 * (\<Sum>k<Suc (n div 210000). ?f k)" by (subst sum_blocks) simp_all
  also have "(\<Sum>k<Suc (n div 210000). ?f k) \<le> (\<Sum>k<33 + Suc (n div 210000). ?f k)"
    by (intro sum_mono2) (auto simp: pos_imp_zdiv_nonneg_iff)
  also have "(\<Sum>k<33 + Suc (n div 210000). ?f k) = (\<Sum>k<33. ?f k)"
  proof (rule sum.mono_neutral_right)
    have "5000000000 < (2 :: int) ^ k" if "33 \<le> k" for k :: nat
      using power_increasing [OF that, of "2 :: int"] by simp
    then show "\<forall>k\<in>{..<33 + Suc (n div 210000)} - {..<33}. ?f k = 0" by auto
  qed auto
  finally show ?thesis by (simp add: MaxSatoshi_eq sum.lessThan_Suc numeral_eq_Suc)
qed

theorem supply_cap_witness: "(\<Sum>h<7000000. CalcBlockSubsidy (int h) MainNetParams) \<le> 2100000000000000"
  using supply_cap [of 7000000] by (simp add: MaxSatoshi_eq)

end
