(* ===== verification/Chain_Validate.thy ===== *)
theory Chain_Validate
  imports Chain_Rules Script_Engine
begin

unbundle bit_operations_syntax

text \<open>
  The rules of blocks (\<open>btcd/blockchain/validate.go\<close>, \<open>scriptval.go\<close>, the cache of digests of \<open>txscript/hashcache.go\<close>):
  sanity without context, the height in the coinbase, the context of the parent, the scripts of all inputs, and
  \<open>checkConnectBlock\<close>, which connects a block to a view of the unspent outputs. The handlers that run scripts in
  parallel are taken in an order that is a parameter, the one in which their results arrive.
\<close>

section \<open>The state of the chain\<close>

type_synonym HashCache = "bytes \<rightharpoonup> TxSigHashes"

definition AddSigHashes :: "crypto \<Rightarrow> MsgTx \<Rightarrow> PrevOutputFetcher \<Rightarrow> HashCache \<Rightarrow> HashCache res" where
  "AddSigHashes c tx inputFetcher h = rbind (NewTxSigHashes c tx inputFetcher) (\<lambda>sh. Inr (h(TxHash c tx \<mapsto> sh)))"

definition ContainsHashes :: "bytes \<Rightarrow> HashCache \<Rightarrow> bool" where
  "ContainsHashes txid h \<longleftrightarrow> h txid \<noteq> None"

definition GetSigHashes :: "bytes \<Rightarrow> HashCache \<Rightarrow> TxSigHashes option" where
  "GetSigHashes txid h = h txid"

definition PurgeSigHashes :: "bytes \<Rightarrow> HashCache \<Rightarrow> HashCache" where
  "PurgeSigHashes txid h = h(txid := None)"

text \<open>The part of \<open>BlockChain\<close> that the checks read and change.\<close>

record BlockChain =
  chainParams :: Params
  checkpoints :: "Checkpoint list"
  checkpointState :: checkpoint_state
  blockIndex :: node_index
  bestChain :: chainView
  deploymentCaches :: "thresholdStateCache list"
  chain_utxoCache :: utxoCache
  chain_sigCache :: "SigCache option"
  chain_hashCache :: "HashCache option"

definition chain_deploymentState :: "crypto \<Rightarrow> blockNode option \<Rightarrow> nat \<Rightarrow> BlockChain \<Rightarrow> (ThresholdState \<times> BlockChain) rule" where
  "chain_deploymentState c prevNode deploymentID b =
     rbind (deploymentState c (blockIndex b) (chainParams b) prevNode deploymentID (deploymentCaches b)) (\<lambda>(state, caches).
       Inr (state, b\<lparr>deploymentCaches := caches\<rparr>))"

section \<open>Sanity of a block\<close>

text \<open>The loop over the transactions that counts signature operations.\<close>

fun legacy_ops :: "MsgTx list \<Rightarrow> int \<Rightarrow> unit rule" where
  "legacy_ops [] totalSigOps = Inr ()"
| "legacy_ops (tx # txs) totalSigOps =
     (let lastSigOps = totalSigOps; totalSigOps = i64 (totalSigOps + i64 (CountSigOps tx * int WitnessScaleFactor)) in
      if totalSigOps < lastSigOps \<or> totalSigOps > MaxBlockSigOpsCost then Inl ErrTooManySigOps
      else legacy_ops txs totalSigOps)"

text \<open>\<open>None\<close> is a computation of the Merkle root that does not end.\<close>

definition checkBlockSanity :: "crypto \<Rightarrow> Block \<Rightarrow> int \<Rightarrow> int \<Rightarrow> BehaviorFlags \<Rightarrow> unit rule option" where
  "checkBlockSanity c block powLimit adjustedTime fl =
     (let header = Header (msgBlock block); transactions = block_txs block; numTx = length transactions in
      case CheckBlockHeaderSanity c header powLimit adjustedTime fl of
        Inl e \<Rightarrow> Some (Inl e)
      | Inr _ \<Rightarrow>
          if numTx = 0 then Some (Inl ErrNoTransactions)
          else if numTx > MaxBlockBaseSize then Some (Inl ErrBlockTooBig)
          else if block_SerializeSizeStripped (msgBlock block) > MaxBlockBaseSize then Some (Inl ErrBlockTooBig)
          else if \<not> IsCoinBaseTx (transactions ! 0) then Some (Inl ErrFirstTxNotCoinbase)
          else if list_ex IsCoinBaseTx (drop 1 transactions) then Some (Inl ErrMultipleCoinbases)
          else (case fold_r (\<lambda>tx _. CheckTransactionSanity tx) transactions () of
            Inl e \<Rightarrow> Some (Inl e)
          | Inr _ \<Rightarrow> map_option (\<lambda>root. (case root of
                Inl e \<Rightarrow> Inl Panic
              | Inr computedRoot \<Rightarrow>
                  if MerkleRoot header \<noteq> computedRoot then Inl ErrBadMerkleRoot
                  else if \<not> distinct (map (TxHash c) transactions) then Inl ErrDuplicateTx
                  else legacy_ops transactions 0))
              (CalcMerkleRoot c transactions False)))"

section \<open>The height in the coinbase\<close>

definition compareScript :: "int \<Rightarrow> bytes \<Rightarrow> unit rule" where
  "compareScript h script =
     (case AddInt64 h NewScriptBuilder of
        Inl _ \<Rightarrow> Inl Panic
      | Inr b \<Rightarrow>
          (case bld_Script b of
             (_, Some _) \<Rightarrow> Inl ScriptBuildError
           | (scriptHeight, None) \<Rightarrow>
               if take (length scriptHeight) script \<noteq> scriptHeight then Inl ErrBadCoinbaseHeight else Inr ()))"

definition ExtractCoinbaseHeight :: "MsgTx \<Rightarrow> int rule" where
  "ExtractCoinbaseHeight coinbaseTx =
     (if MsgTxIn coinbaseTx = [] then Inl Panic
      else let sigScript = SignatureScript (MsgTxIn coinbaseTx ! 0) in
        if length sigScript < 1 then Inl ErrMissingCoinbaseHeight
        else let opcode = sigScript ! 0 in
          if opcode = OP_0 then Inr 0
          else if opcode \<ge> OP_1 \<and> opcode \<le> OP_16 then Inr (uint opcode - (uint OP_1 - 1))
          else let serializedLen = unat opcode in
            if length (drop 1 sigScript) < serializedLen then Inl ErrMissingCoinbaseHeight
            else let copied = take 4 (take serializedLen (drop 1 sigScript));
                     serializedHeightBytes = copied @ replicate (4 - length copied) 0;
                     serializedHeight = i32 (int (le_val serializedHeightBytes))
                 in rbind (compareScript serializedHeight sigScript) (\<lambda>_. Inr serializedHeight))"

definition CheckSerializedHeight :: "MsgTx \<Rightarrow> int \<Rightarrow> unit rule" where
  "CheckSerializedHeight coinbaseTx wantHeight =
     rbind (ExtractCoinbaseHeight coinbaseTx) (\<lambda>serializedHeight.
       if serializedHeight \<noteq> wantHeight then Inl ErrBadCoinbaseHeight else Inr ())"

section \<open>The context of the parent\<close>

text \<open>The context of the headers, with the checkpoint that has been found kept in the chain.\<close>

definition chain_header_context :: "crypto \<Rightarrow> BlockHeader \<Rightarrow> blockNode option \<Rightarrow> BehaviorFlags \<Rightarrow> BlockChain \<Rightarrow> BlockChain rule" where
  "chain_header_context c header prevNode fl b =
     rbind (CheckBlockHeaderContext c (block_chain_ctx (chainParams b) (checkpoints b) (blockIndex b) (bestChain b))
              header prevNode fl False (checkpointState b)) (\<lambda>s. Inr (b\<lparr>checkpointState := s\<rparr>))"

definition witness_context :: "crypto \<Rightarrow> Block \<Rightarrow> unit rule option" where
  "witness_context c block =
     map_option (\<lambda>r. rbind r (\<lambda>_.
       if GetBlockWeight block > MaxBlockWeight then Inl ErrBlockWeightTooHigh else Inr ()))
       (ValidateWitnessCommitment c (block_txs block))"

definition checkBlockContext :: "crypto \<Rightarrow> Block \<Rightarrow> blockNode option \<Rightarrow> BehaviorFlags \<Rightarrow> BlockChain \<Rightarrow> BlockChain rule option" where
  "checkBlockContext c block prevNode fl b =
     (let header = Header (msgBlock block) in
      case chain_header_context c header prevNode fl b of
        Inl e \<Rightarrow> Some (Inl e)
      | Inr b \<Rightarrow>
          if fl AND BFFastAdd = BFFastAdd then Some (Inr b)
          else case prevNode of None \<Rightarrow> Some (Inl Panic)
          | Some prev \<Rightarrow>
            (case rbind (chain_deploymentState c prevNode DeploymentCSV b) (\<lambda>(csvState, b).
                rbind (if csvState = ThresholdActive then CalcPastMedianTime prevNode else Inr (Timestamp header)) (\<lambda>blockTime.
                let bh = i32 (height prev + 1) in
                if \<not> list_all (\<lambda>tx. IsFinalizedTransaction tx bh blockTime) (block_txs block) then Inl ErrUnfinalizedTx
                else rbind (if ShouldHaveSerializedBlockHeight header \<and> bh \<ge> BIP0034Height (chainParams b)
                            then if block_txs block = [] then Inl Panic else CheckSerializedHeight (block_txs block ! 0) bh
                            else Inr ()) (\<lambda>_.
                  chain_deploymentState c prevNode DeploymentSegwit b))) of
              Inl e \<Rightarrow> Some (Inl e)
            | Inr (segwitState, b) \<Rightarrow>
                if segwitState = ThresholdActive
                then map_option (\<lambda>r. rbind r (\<lambda>_. Inr b)) (witness_context c block)
                else Some (Inr b)))"

section \<open>Running the scripts\<close>

record txValidateItem =
  txInIndex :: nat
  item_txIn :: TxIn
  item_tx :: MsgTx
  sigHashes :: "TxSigHashes option"

text \<open>An error of the engine becomes the given error of the chain; a panic stays one.\<close>

definition script_error :: "RuleError \<Rightarrow> 'a res \<Rightarrow> 'a rule" where
  "script_error err r = (case r of Inr x \<Rightarrow> Inr x | Inl e \<Rightarrow> Inl (if e = GoPanic then Panic else err))"

text \<open>The work of a handler on one item, with the cache of signatures it leaves.\<close>

definition validateHandler ::
    "crypto \<Rightarrow> UtxoViewpoint \<Rightarrow> ScriptFlags \<Rightarrow> txValidateItem \<Rightarrow> SigCache option \<Rightarrow> SigCache option rule" where
  "validateHandler c utxoView fl txVI sc =
     (case LookupEntry utxoView (PreviousOutPoint (item_txIn txVI)) of
        None \<Rightarrow> Inl ErrMissingTxOut
      | Some utxo \<Rightarrow>
          rbind (script_error ErrScriptMalformed (NewEngine (pkScript utxo) (item_tx txVI) (int (txInIndex txVI)) fl sc
                   (sigHashes txVI) (amount utxo) (FetchPrevOutput utxoView))) (\<lambda>vm.
          rbind (script_error ErrScriptValidation (Execute c vm)) (\<lambda>vm. Inr (sigCache vm))))"

text \<open>\<open>order\<close> is the order in which the handlers answer.\<close>

definition Validate ::
    "crypto \<Rightarrow> (txValidateItem list \<Rightarrow> txValidateItem list) \<Rightarrow> UtxoViewpoint \<Rightarrow> ScriptFlags \<Rightarrow> txValidateItem list
     \<Rightarrow> SigCache option \<Rightarrow> SigCache option rule" where
  "Validate c order utxoView fl items sc =
     (if items = [] then Inr sc else fold_r (validateHandler c utxoView fl) (order items) sc)"

definition input_items :: "MsgTx \<Rightarrow> TxSigHashes option \<Rightarrow> txValidateItem list" where
  "input_items tx cachedHashes =
     map (\<lambda>(txInIdx, txIn). \<lparr>txInIndex = txInIdx, item_txIn = txIn, item_tx = tx, sigHashes = cachedHashes\<rparr>)
       (filter (\<lambda>(txInIdx, txIn). op_Index (PreviousOutPoint txIn) \<noteq> 0xffffffff) (enumerate 0 (MsgTxIn tx)))"

text \<open>The digests that all inputs of a transaction share, from the cache when there is one.\<close>

definition tx_hashes :: "crypto \<Rightarrow> bool \<Rightarrow> UtxoViewpoint \<Rightarrow> MsgTx \<Rightarrow> HashCache option
    \<Rightarrow> (TxSigHashes option \<times> HashCache option) rule" where
  "tx_hashes c segwitActive utxoView tx hc =
     (if \<not> (segwitActive \<and> HasWitness tx) then Inr (None, hc)
      else case hc of
        None \<Rightarrow> rbind (script_error Panic (NewTxSigHashes c tx (FetchPrevOutput utxoView))) (\<lambda>sh. Inr (Some sh, None))
      | Some h \<Rightarrow>
          rbind (if \<not> ContainsHashes (TxHash c tx) h
                 then script_error Panic (AddSigHashes c tx (FetchPrevOutput utxoView) h) else Inr h) (\<lambda>h.
          Inr (GetSigHashes (TxHash c tx) h, Some h)))"

fun block_items :: "crypto \<Rightarrow> bool \<Rightarrow> UtxoViewpoint \<Rightarrow> MsgTx list \<Rightarrow> HashCache option
    \<Rightarrow> (txValidateItem list \<times> HashCache option) rule" where
  "block_items c segwitActive utxoView [] hc = Inr ([], hc)"
| "block_items c segwitActive utxoView (tx # txs) hc =
     rbind (tx_hashes c segwitActive utxoView tx hc) (\<lambda>(cachedHashes, hc).
     rbind (block_items c segwitActive utxoView txs hc) (\<lambda>(items, hc).
       Inr (input_items tx cachedHashes @ items, hc)))"

definition checkBlockScripts ::
    "crypto \<Rightarrow> (txValidateItem list \<Rightarrow> txValidateItem list) \<Rightarrow> Block \<Rightarrow> UtxoViewpoint \<Rightarrow> ScriptFlags
     \<Rightarrow> SigCache option \<times> HashCache option \<Rightarrow> (SigCache option \<times> HashCache option) rule" where
  "checkBlockScripts c order block utxoView scriptFlags st =
     (let segwitActive = (scriptFlags AND ScriptVerifyWitness = ScriptVerifyWitness); (sc, hc) = st in
      rbind (block_items c segwitActive utxoView (block_txs block) hc) (\<lambda>(items, hc).
      rbind (Validate c order utxoView scriptFlags items sc) (\<lambda>sc.
        Inr (sc, if segwitActive
                 then map_option (fold (\<lambda>tx h. if HasWitness tx then PurgeSigHashes (TxHash c tx) h else h) (block_txs block)) hc
                 else hc))))"

text \<open>For a single transaction a cache of digests is always there: a nil one is dereferenced when a witness is found.\<close>

definition ValidateTransactionScripts ::
    "crypto \<Rightarrow> (txValidateItem list \<Rightarrow> txValidateItem list) \<Rightarrow> MsgTx \<Rightarrow> UtxoViewpoint \<Rightarrow> ScriptFlags
     \<Rightarrow> SigCache option \<times> HashCache option \<Rightarrow> (SigCache option \<times> HashCache option) rule" where
  "ValidateTransactionScripts c order tx utxoView fl st =
     (let segwitActive = (fl AND ScriptVerifyWitness = ScriptVerifyWitness); (sc, hc) = st in
      if segwitActive \<and> HasWitness tx \<and> hc = None then Inl Panic
      else rbind (tx_hashes c segwitActive utxoView tx hc) (\<lambda>(cachedHashes, hc).
        rbind (Validate c order utxoView fl (input_items tx cachedHashes) sc) (\<lambda>sc. Inr (sc, hc))))"

section \<open>Connecting a block\<close>

definition block91842Hash :: bytes where
  "block91842Hash = [0xec, 0xca, 0xe0, 0x00, 0xe3, 0xc8, 0xe4, 0xe0, 0x93, 0x93, 0x63, 0x60, 0x43, 0x1f, 0x3b, 0x76,
     0x03, 0xc5, 0x63, 0xc1, 0xff, 0x61, 0x81, 0x39, 0x0a, 0x4d, 0x0a, 0x00, 0x00, 0x00, 0x00, 0x00]"

definition block91880Hash :: bytes where
  "block91880Hash = [0x21, 0xd7, 0x7c, 0xcb, 0x4c, 0x08, 0x38, 0x6a, 0x04, 0xac, 0x01, 0x96, 0xae, 0x10, 0xf6, 0xa1,
     0xd2, 0xc2, 0xa3, 0x77, 0x55, 0x8c, 0xa1, 0x90, 0xf1, 0x43, 0x07, 0x00, 0x00, 0x00, 0x00, 0x00]"

definition isBIP0030Node :: "blockNode \<Rightarrow> bool" where
  "isBIP0030Node node \<longleftrightarrow> height node = 91842 \<and> node_hash node = block91842Hash
     \<or> height node = 91880 \<and> node_hash node = block91880Hash"

definition checkBIP0030 ::
    "crypto \<Rightarrow> (bytes \<Rightarrow> bytes) \<Rightarrow> nat \<Rightarrow> Block \<Rightarrow> UtxoViewpoint \<times> utxoCache \<Rightarrow> (UtxoViewpoint \<times> utxoCache) rule" where
  "checkBIP0030 c ser bad block vc =
     (let fetch = concat (map (\<lambda>tx. map (\<lambda>i. \<lparr>op_Hash = TxHash c tx, op_Index = of_nat i\<rparr>) [0..<length (MsgTxOut tx)]) (block_txs block)) in
      rbind (fetchUtxos c ser bad fetch vc) (\<lambda>(view, cache).
        if list_ex (\<lambda>outpoint. case LookupEntry view outpoint of None \<Rightarrow> False | Some utxo \<Rightarrow> \<not> IsSpent utxo) fetch
        then Inl ErrOverwriteTx else Inr (view, cache)))"

text \<open>The two loops of \<open>checkConnectBlock\<close>: the cost of the signature operations, and the fees with the connection of
  the transactions to the view.\<close>

fun sigop_costs :: "UtxoViewpoint \<Rightarrow> bool \<Rightarrow> bool \<Rightarrow> (nat \<times> MsgTx) list \<Rightarrow> int \<Rightarrow> unit rule" where
  "sigop_costs view enforceBIP0016 enforceSegWit [] totalSigOpCost = Inr ()"
| "sigop_costs view enforceBIP0016 enforceSegWit ((i, tx) # txs) totalSigOpCost =
     rbind (GetSigOpCost tx (i = 0) view enforceBIP0016 enforceSegWit) (\<lambda>sigOpCost.
       let lastSigOpCost = totalSigOpCost; totalSigOpCost = i64 (totalSigOpCost + sigOpCost) in
       if totalSigOpCost < lastSigOpCost \<or> totalSigOpCost > MaxBlockSigOpsCost then Inl ErrTooManySigOps
       else sigop_costs view enforceBIP0016 enforceSegWit txs totalSigOpCost)"

fun connect_fees :: "crypto \<Rightarrow> int \<Rightarrow> Params \<Rightarrow> MsgTx list \<Rightarrow> int \<Rightarrow> UtxoViewpoint \<times> SpentTxOut list option
    \<Rightarrow> (int \<times> UtxoViewpoint \<times> SpentTxOut list option) rule" where
  "connect_fees c h params [] totalFees st = Inr (totalFees, st)"
| "connect_fees c h params (tx # txs) totalFees st =
     rbind (CheckTransactionInputs tx h (fst st) params) (\<lambda>txFee.
       let lastTotalFees = totalFees; totalFees = i64 (totalFees + txFee) in
       if totalFees < lastTotalFees then Inl ErrBadFees
       else rbind (view_connectTransaction c h tx st) (connect_fees c h params txs totalFees))"

text \<open>The lock times of all inputs, once relative lock times are active.\<close>

fun check_locks :: "crypto \<Rightarrow> blockNode \<Rightarrow> int \<Rightarrow> UtxoViewpoint \<Rightarrow> MsgTx list \<Rightarrow> BlockChain \<Rightarrow> BlockChain rule" where
  "check_locks c node medianTime view [] b = Inr b"
| "check_locks c node medianTime view (tx # txs) b =
     rbind (calcSequenceLock c (blockIndex b) (chainParams b) node tx view False (deploymentCaches b)) (\<lambda>(lock, caches).
       if \<not> SequenceLockActive lock (height node) medianTime then Inl ErrUnfinalizedTx
       else check_locks c node medianTime view txs (b\<lparr>deploymentCaches := caches\<rparr>))"

text \<open>The flags that the position of the block, its version and its time switch on; the deployments add theirs below.\<close>

definition base_flags :: "Params \<Rightarrow> blockNode \<Rightarrow> BlockHeader \<Rightarrow> ScriptFlags" where
  "base_flags params node header =
     (if timestamp node \<ge> Unix Bip16Activation then ScriptBip16 else 0)
     OR (if sint (bh_Version header) \<ge> 3 \<and> height node \<ge> BIP0066Height params then ScriptVerifyDERSignatures else 0)
     OR (if sint (bh_Version header) \<ge> 4 \<and> height node \<ge> BIP0065Height params then ScriptVerifyCheckLockTimeVerify else 0)"

text \<open>Once relative lock times are active, they are checked and the opcode is switched on.\<close>

definition lock_flags :: "crypto \<Rightarrow> blockNode \<Rightarrow> Block \<Rightarrow> UtxoViewpoint \<Rightarrow> ScriptFlags \<Rightarrow> BlockChain \<Rightarrow> (ScriptFlags \<times> BlockChain) rule" where
  "lock_flags c node block view scriptFlags b =
     rbind (chain_deploymentState c (parent node) DeploymentCSV b) (\<lambda>(csvState, b).
       if csvState = ThresholdActive
       then rbind (CalcPastMedianTime (parent node)) (\<lambda>medianTime.
         rbind (check_locks c node medianTime view (block_txs block) b) (\<lambda>b.
         Inr (scriptFlags OR ScriptVerifyCheckSequenceVerify, b)))
       else Inr (scriptFlags, b))"

text \<open>The second half of \<open>checkConnectBlock\<close>, after the check of the coinbase: lock times and scripts.\<close>

definition connect_scripts ::
    "crypto \<Rightarrow> (txValidateItem list \<Rightarrow> txValidateItem list) \<Rightarrow> blockNode \<Rightarrow> Block \<Rightarrow> bool \<Rightarrow> UtxoViewpoint \<Rightarrow> BlockChain
     \<Rightarrow> BlockChain rule" where
  "connect_scripts c order node block enforceSegWit view b =
     (let runScripts = (case LatestCheckpoint (checkpoints b) of
              Some checkpoint \<Rightarrow> \<not> height node \<le> cp_Height checkpoint | None \<Rightarrow> True);
          scriptFlags = base_flags (chainParams b) node (Header (msgBlock block))
      in rbind (lock_flags c node block view scriptFlags b) (\<lambda>(scriptFlags, b).
         let scriptFlags = (if enforceSegWit then scriptFlags OR ScriptVerifyWitness OR ScriptStrictMultiSig else scriptFlags) in
         rbind (chain_deploymentState c (parent node) DeploymentTaproot b) (\<lambda>(taprootState, b).
         let scriptFlags = (if taprootState = ThresholdActive then scriptFlags OR ScriptVerifyTaproot else scriptFlags) in
         if runScripts
         then rbind (checkBlockScripts c order block view scriptFlags (chain_sigCache b, chain_hashCache b)) (\<lambda>(sc, hc).
           Inr (b\<lparr>chain_sigCache := sc, chain_hashCache := hc\<rparr>))
         else Inr b)))"

definition checkConnectBlock ::
    "crypto \<Rightarrow> (bytes \<Rightarrow> bytes) \<Rightarrow> nat \<Rightarrow> (txValidateItem list \<Rightarrow> txValidateItem list) \<Rightarrow> blockNode \<Rightarrow> Block
     \<Rightarrow> UtxoViewpoint \<times> SpentTxOut list option \<Rightarrow> BlockChain \<Rightarrow> ((UtxoViewpoint \<times> SpentTxOut list option) \<times> BlockChain) rule" where
  "checkConnectBlock c ser bad order node block st b =
     (let (view, stxos) = st in
      if node_hash node = GenesisHash (chainParams b) then Inl ErrMissingTxOut
      else if bestHash view \<noteq> PrevBlock (Header (msgBlock block)) then Inl AssertError
      else
      rbind (if \<not> isBIP0030Node node \<and> height node < BIP0034Height (chainParams b)
             then checkBIP0030 c ser bad block (view, chain_utxoCache b) else Inr (view, chain_utxoCache b)) (\<lambda>(view, cache).
      rbind (fetchInputUtxos c ser bad block (view, cache)) (\<lambda>(view, cache).
      let b = b\<lparr>chain_utxoCache := cache\<rparr>; enforceBIP0016 = (timestamp node \<ge> Unix Bip16Activation) in
      rbind (chain_deploymentState c (parent node) DeploymentSegwit b) (\<lambda>(segwitState, b).
      let enforceSegWit = (segwitState = ThresholdActive) in
      rbind (sigop_costs view enforceBIP0016 enforceSegWit (enumerate 0 (block_txs block)) 0) (\<lambda>_.
      rbind (connect_fees c (height node) (chainParams b) (block_txs block) 0 (view, stxos)) (\<lambda>(totalFees, view, stxos).
      if block_txs block = [] then Inl Panic
      else if sum_outs (MsgTxOut (block_txs block ! 0)) > i64 (CalcBlockSubsidy (height node) (chainParams b) + totalFees)
      then Inl ErrBadCoinbaseValue
      else
      rbind (connect_scripts c order node block enforceSegWit view b) (\<lambda>b.
        Inr ((SetBestHash (node_hash node) view, stxos), b))))))))"

definition CheckConnectBlockTemplate ::
    "crypto \<Rightarrow> (bytes \<Rightarrow> bytes) \<Rightarrow> nat \<Rightarrow> (txValidateItem list \<Rightarrow> txValidateItem list) \<Rightarrow> int \<Rightarrow> Block \<Rightarrow> BlockChain
     \<Rightarrow> BlockChain rule option" where
  "CheckConnectBlockTemplate c ser bad order adjustedTime block b =
     (let header = Header (msgBlock block) in
      case view_tip (bestChain b) of
        None \<Rightarrow> Some (Inl Panic)
      | Some tip \<Rightarrow>
          if node_hash tip \<noteq> PrevBlock header then Some (Inl ErrPrevBlockNotBest)
          else Option.bind (checkBlockSanity c block (PowLimit (chainParams b)) adjustedTime BFNoPoWCheck) (\<lambda>r.
            (case r of Inl e \<Rightarrow> Some (Inl e)
            | Inr _ \<Rightarrow> map_option (\<lambda>r. rbind r (\<lambda>b.
                rbind (checkConnectBlock c ser bad order (newBlockNode c header (Some tip)) block
                         (SetBestHash (node_hash tip) NewUtxoViewpoint, None) b) (\<lambda>(_, b). Inr b)))
                (checkBlockContext c block (Some tip) BFNoPoWCheck b))))"

end
