(* ===== verification/Chain_Supply.thy ===== *)
theory Chain_Supply
  imports Chain_Validate
begin

unbundle bit_operations_syntax

text \<open>
  What the rules of blocks promise about money: a block that the checks accept can be connected to the ledger, it takes
  every coin it spends from there, and the coins it leaves are worth at most those before it and the subsidy. A last
  theorem shows how far this depends on the order in which the outputs of the block are loaded.
\<close>

section \<open>The worth of a ledger\<close>

abbreviation worth :: "SpentTxOut option \<Rightarrow> int" where
  "worth x \<equiv> (case x of None \<Rightarrow> 0 | Some x \<Rightarrow> sint (Amount x))"

definition money :: "coins \<Rightarrow> int" where
  "money L = (\<Sum>op\<in>dom L. worth (L op))"

definition good_coins :: "coins \<Rightarrow> bool" where
  "good_coins L \<longleftrightarrow> finite (dom L) \<and> (\<forall>op x. L op = Some x \<longrightarrow> 0 \<le> sint (Amount x))"

lemma good_restrict: "good_coins L \<Longrightarrow> good_coins (L |` A)"
  by (auto simp: good_coins_def) (metis restrict_in restrict_out option.distinct(1))

lemma good_add: "good_coins L \<Longrightarrow> good_coins M \<Longrightarrow> good_coins (L ++ M)"
  by (auto simp: good_coins_def)

lemma total_remove:
  assumes "good_coins L" "distinct ops" "\<forall>op\<in>set ops. L op \<noteq> None"
  shows "money (L |` (- set ops)) = money L - coins_amount L ops"
proof -
  have sub: "set ops \<subseteq> dom L" using assms(3) by auto
  have fin: "finite (dom L)" using assms(1) by (simp add: good_coins_def)
  have "coins_amount L ops = (\<Sum>op\<in>set ops. sint (Amount (the (L op))))"
    unfolding coins_amount_def using assms(2) by (rule sum_list_distinct_conv_sum_set)
  also have "\<dots> = (\<Sum>op\<in>set ops. worth (L op))" using assms(3) by (intro sum.cong) auto
  finally have am: "coins_amount L ops = (\<Sum>op\<in>set ops. worth (L op))" .
  have "money (L |` (- set ops)) = (\<Sum>op\<in>dom L - set ops. worth (L op))"
    unfolding money_def by (rule sum.cong) auto
  also have "\<dots> = money L - (\<Sum>op\<in>set ops. worth (L op))"
    unfolding money_def using fin sub by (rule sum_diff)
  finally show ?thesis using am by simp
qed

lemma total_add_le:
  assumes "good_coins L" "good_coins M"
  shows "money (L ++ M) \<le> money L + money M"
proof -
  have fin: "finite (dom L)" "finite (dom M)" using assms by (simp_all add: good_coins_def)
  have pos: "0 \<le> worth (L op)" for op using assms(1) by (auto simp: good_coins_def split: option.split)
  have "money (L ++ M) = (\<Sum>op\<in>dom M \<union> (dom L - dom M). worth ((L ++ M) op))"
    unfolding money_def by (rule sum.cong) auto
  also have "\<dots> = (\<Sum>op\<in>dom M. worth ((L ++ M) op)) + (\<Sum>op\<in>dom L - dom M. worth ((L ++ M) op))"
    using fin by (intro sum.union_disjoint) auto
  also have "(\<Sum>op\<in>dom M. worth ((L ++ M) op)) = money M"
    unfolding money_def by (rule sum.cong) (auto simp: map_add_dom_app_simps)
  also have "(\<Sum>op\<in>dom L - dom M. worth ((L ++ M) op)) = (\<Sum>op\<in>dom L - dom M. worth (L op))"
    by (rule sum.cong) (auto simp: map_add_dom_app_simps)
  also have "\<dots> \<le> money L" unfolding money_def using fin pos by (intro sum_mono2) auto
  finally show ?thesis by simp
qed

lemma tx_outs_good: "sane tx \<Longrightarrow> good_coins (tx_outs c h tx)"
  and total_tx_outs: "sane tx \<Longrightarrow> money (tx_outs c h tx) \<le> amounts (MsgTxOut tx)"
proof -
  assume sane: "sane tx"
  let ?O = "tx_outs c h tx" and ?n = "length (MsgTxOut tx)"
  let ?i = "\<lambda>op. unat (op_Index op)" and ?v = "\<lambda>i. sint (Value (MsgTxOut tx ! i))"
  have d: "op \<in> dom ?O \<Longrightarrow> op_Hash op = TxHash c tx \<and> ?i op < ?n \<and> worth (?O op) = ?v (?i op)" for op
    by (auto simp: tx_outs_def coin_def split: if_split_asm)
  have inj: "inj_on ?i (dom ?O)"
    using d by (intro inj_onI) (metis OutPoint.equality old.unit.exhaust unsigned_word_eqI)
  have img: "?i ` dom ?O \<subseteq> {..<?n}" using d by auto
  have fin: "finite (dom ?O)" using finite_subset [OF img] inj by (simp add: finite_image_iff)
  have pos: "0 \<le> ?v i" if "i < ?n" for i using sane that by (auto simp: sane_def)
  show "good_coins ?O" using fin pos by (auto simp: good_coins_def tx_outs_def coin_def split: if_split_asm)
  have "money ?O = (\<Sum>op\<in>dom ?O. ?v (?i op))" unfolding money_def using d by (intro sum.cong) auto
  also have "\<dots> = (\<Sum>i\<in>?i ` dom ?O. ?v i)" by (simp add: sum.reindex [OF inj])
  also have "\<dots> \<le> (\<Sum>i<?n. ?v i)" using img pos by (intro sum_mono2) auto
  also have "\<dots> = amounts (MsgTxOut tx)"
    by (simp add: amounts_def sum_list_sum_nth atLeast0LessThan)
  finally show "money ?O \<le> amounts (MsgTxOut tx)" .
qed

lemma ledger_tx_good: "good_coins L \<Longrightarrow> sane tx \<Longrightarrow> good_coins (ledger_tx c h tx L)"
  by (simp add: ledger_tx_def good_add good_restrict tx_outs_good)

lemma total_spend:
  assumes "good_coins L" "sane tx" "\<not> IsCoinBaseTx tx" "\<forall>op\<in>set (inputs tx). L op \<noteq> None"
  shows "money (ledger_tx c h tx L) \<le> money L - (coins_amount L (inputs tx) - amounts (MsgTxOut tx))"
proof -
  have "distinct (inputs tx)" using assms(2) by (simp add: sane_def inputs_def)
  with total_remove [OF assms(1) this assms(4)] total_tx_outs [OF assms(2), of c h]
    total_add_le [OF good_restrict [OF assms(1), of "- set (inputs tx)"] tx_outs_good [OF assms(2), of c h]] assms(3)
  show ?thesis by (simp add: ledger_tx_def)
qed

lemma total_coinbase:
  assumes "good_coins L" "sane tx" "IsCoinBaseTx tx"
  shows "money (ledger_tx c h tx L) \<le> money L + amounts (MsgTxOut tx)"
  using total_add_le [OF assms(1) tx_outs_good [OF assms(2), of c h]] total_tx_outs [OF assms(2), of c h] assms(3)
  by (simp add: ledger_tx_def)

section \<open>Connecting with fees\<close>

text \<open>
  The view that is loaded for a block holds outputs of the block before they exist. What the loop over the transactions
  needs: away from the outputs still to come the view agrees with the ledger where it has a coin, and no transaction
  finds a coin at an output that is still to come, its own included.
\<close>

definition to_come :: "crypto \<Rightarrow> MsgTx list \<Rightarrow> OutPoint set" where
  "to_come c txs = \<Union> (out_ops c ` set txs)"

definition agrees :: "crypto \<Rightarrow> MsgTx list \<Rightarrow> UtxoViewpoint \<Rightarrow> coins \<Rightarrow> bool" where
  "agrees c txs view L \<longleftrightarrow>
     (\<forall>op x. op \<notin> to_come c txs \<longrightarrow> view_coins Map.empty view op = Some x \<longrightarrow> L op = Some x)"

fun unborn :: "crypto \<Rightarrow> MsgTx list \<Rightarrow> UtxoViewpoint \<Rightarrow> bool" where
  "unborn c [] view \<longleftrightarrow> True"
| "unborn c (tx # txs) view \<longleftrightarrow>
     (\<not> IsCoinBaseTx tx \<longrightarrow> (\<forall>op\<in>set (inputs tx) \<inter> to_come c (tx # txs). view_coins Map.empty view op = None)) \<and> unborn c txs view"

lemma out_ops_hash: "op \<in> out_ops c tx \<Longrightarrow> op_Hash op = TxHash c tx"
  by (auto simp: out_ops_def tx_outs_def split: if_split_asm)

lemma out_ops_disjoint: "TxHash c tx \<notin> TxHash c ` set txs \<Longrightarrow> op \<in> out_ops c tx \<Longrightarrow> op \<notin> to_come c txs"
  by (auto simp: to_come_def dest!: out_ops_hash) (metis imageI)

lemma unborn_mono:
  assumes "unborn c txs view" "\<forall>op\<in>to_come c txs. view_coins Map.empty view op = None \<longrightarrow> view_coins Map.empty view' op = None"
  shows "unborn c txs view'"
  using assms by (induction txs) (auto simp: to_come_def)

lemma ledger_tx_apply:
  "ledger_tx c h tx L op = (if op \<in> out_ops c tx then tx_outs c h tx op
     else if \<not> IsCoinBaseTx tx \<and> op \<in> set (inputs tx) then None else L op)"
proof -
  have "op \<in> out_ops c tx \<longleftrightarrow> tx_outs c h tx op \<noteq> None" using out_ops_iff [of c h tx op] by simp
  then show ?thesis by (auto simp: ledger_tx_def map_add_def restrict_map_def split: option.split)
qed

lemma coinbase_fee: "IsCoinBaseTx tx \<Longrightarrow> CheckTransactionInputs tx h view params = Inr 0"
  by (simp add: CheckTransactionInputs_def)

text \<open>One transaction: it spends coins of the ledger, and the view stays as the loop needs it.\<close>

lemma connect_step:
  assumes "agrees c (tx # txs) view L" "unborn c (tx # txs) view" "TxHash c tx \<notin> TxHash c ` set txs" "sane tx"
    and "CheckTransactionInputs tx h view params = Inr fee"
  shows "\<exists>view'. view_connectTransaction c h tx (view, st) = Inr (view', fold append_stxo (tx_spends tx L) st)
      \<and> agrees c txs view' (ledger_tx c h tx L) \<and> unborn c txs view'"
    "\<not> IsCoinBaseTx tx \<Longrightarrow> (\<forall>op\<in>set (inputs tx). L op \<noteq> None \<and> L op = view_coins Map.empty view op)
      \<and> fee = coins_amount L (inputs tx) - amounts (MsgTxOut tx)"
    "0 \<le> fee" "fee \<le> MaxSatoshi"
proof -
  let ?VC = "view_coins Map.empty view"
  have ins: "L op = ?VC op \<and> ?VC op \<noteq> None" if "\<not> IsCoinBaseTx tx" "op \<in> set (inputs tx)" for op
  proof -
    from CheckTransactionInputs_fee(1) [OF assms(5,4) that(1)] that(2) obtain x where x: "?VC op = Some x"
      by (auto simp: inputs_def)
    with assms(2) that have "op \<notin> to_come c (tx # txs)" by auto
    with assms(1) x show ?thesis by (auto simp: agrees_def)
  qed
  have can: "can_connect c h [tx] ?VC"
    using ins assms(4) sane_outs [OF assms(4)] by (auto simp: list_all_iff sane_def inputs_def)
  have same: "tx_spends tx ?VC = tx_spends tx L" using ins by (auto simp: tx_spends_def)
  obtain view' where v: "view_connectTransaction c h tx (view, st) = Inr (view', fold append_stxo (tx_spends tx L) st)"
      "view_coins Map.empty view' = ledger_tx c h tx ?VC"
    using view.connect_one [OF _ can, of st] by (auto simp: view_connects same)
  have "agrees c txs view' (ledger_tx c h tx L)"
    using assms(1) by (auto simp: agrees_def v(2) ledger_tx_apply to_come_def split: if_split_asm)
  moreover have "unborn c txs view'"
  proof (rule unborn_mono)
    show "unborn c txs view" using assms(2) by simp
    show "\<forall>op\<in>to_come c txs. ?VC op = None \<longrightarrow> view_coins Map.empty view' op = None"
      using out_ops_disjoint [OF assms(3)] by (auto simp: v(2) ledger_tx_apply)
  qed
  ultimately show "\<exists>view'. view_connectTransaction c h tx (view, st) = Inr (view', fold append_stxo (tx_spends tx L) st)
      \<and> agrees c txs view' (ledger_tx c h tx L) \<and> unborn c txs view'" using v(1) by blast
  have "coins_amount ?VC (inputs tx) = coins_amount L (inputs tx)" if "\<not> IsCoinBaseTx tx"
    unfolding coins_amount_def using ins [OF that] by (intro arg_cong [where f = sum_list] map_cong) auto
  then show "\<not> IsCoinBaseTx tx \<Longrightarrow> (\<forall>op\<in>set (inputs tx). L op \<noteq> None \<and> L op = ?VC op)
      \<and> fee = coins_amount L (inputs tx) - amounts (MsgTxOut tx)"
    using ins CheckTransactionInputs_fee(2) [OF assms(5,4)] by (auto simp: inputs_def)
  show "0 \<le> fee" "fee \<le> MaxSatoshi"
    using CheckTransactionInputs_fee(3,4) [OF assms(5,4)] assms(5) by (cases "IsCoinBaseTx tx"; simp add: coinbase_fee MaxSatoshi_eq)+
qed

lemma add_fee:
  assumes "is_i64 t" "0 \<le> t" "0 \<le> fee" "fee \<le> MaxSatoshi" "\<not> i64 (t + fee) < t"
  shows "i64 (t + fee) = t + fee" "is_i64 (t + fee)"
proof -
  have "is_i64 (t + fee)"
  proof (rule ccontr)
    assume "\<not> is_i64 (t + fee)"
    then have "i64 (t + fee) = t + fee - 2 ^ 64"
      using assms(1-4) mod_pos_pos_trivial [of "t + fee - 2 ^ 63" "2 ^ 64"] mod_add_self2 [of "t + fee - 2 ^ 63" "2 ^ 64"]
      by (simp add: i64_def signed_take_bit_eq_take_bit_shift take_bit_eq_mod is_i64_def MaxSatoshi_eq add.commute)
    with assms(1-5) show False by (auto simp: is_i64_def MaxSatoshi_eq)
  qed
  then show "is_i64 (t + fee)" "i64 (t + fee) = t + fee" by (simp_all add: i64_id)
qed

lemma i64_le: "is_i64 t \<Longrightarrow> 0 \<le> t \<Longrightarrow> 0 \<le> s \<Longrightarrow> s \<le> MaxSatoshi \<Longrightarrow> i64 (t + s) \<le> t + s"
  using add_fee(1) [of t s] by linarith

lemma connect_fees_law:
  assumes "connect_fees c h params txs t (view, st) = Inr (F, view', st')" "agrees c txs view L" "unborn c txs view"
    and "distinct (map (TxHash c) txs)" "\<forall>tx\<in>set txs. sane tx" "good_coins L" "is_i64 t" "0 \<le> t"
  shows "can_connect c h txs L \<and> st' = fold append_stxo (block_spends c h txs L) st \<and> is_i64 F \<and> 0 \<le> F
    \<and> money (ledger_block c h txs L) + F \<le> money L + t + (\<Sum>tx\<leftarrow>txs. if IsCoinBaseTx tx then amounts (MsgTxOut tx) else 0)"
  using assms
proof (induction txs arbitrary: t view st L)
  case (Cons tx txs)
  from Cons.prems(1) obtain fee v1 st1 where fee: "CheckTransactionInputs tx h view params = Inr fee"
      and t: "\<not> i64 (t + fee) < t" and con: "view_connectTransaction c h tx (view, st) = Inr (v1, st1)"
      and rest: "connect_fees c h params txs (i64 (t + fee)) (v1, st1) = Inr (F, view', st')"
    by (auto simp: rbind_eq_Inr Let_def split: if_splits)
  have sane: "sane tx" and fresh: "TxHash c tx \<notin> TxHash c ` set txs" using Cons.prems(4,5) by auto
  note step = connect_step [OF Cons.prems(2,3) fresh sane fee]
  have v1: "st1 = fold append_stxo (tx_spends tx L) st" "agrees c txs v1 (ledger_tx c h tx L)" "unborn c txs v1"
    using step(1) [of st] con by auto
  have t1: "i64 (t + fee) = t + fee" "is_i64 (t + fee)" by (fact add_fee [OF Cons.prems(7,8) step(3,4) t])+
  have "can_connect c h txs (ledger_tx c h tx L) \<and> st' = fold append_stxo (block_spends c h txs (ledger_tx c h tx L)) st1
      \<and> is_i64 F \<and> 0 \<le> F \<and> money (ledger_block c h txs (ledger_tx c h tx L)) + F
        \<le> money (ledger_tx c h tx L) + (t + fee) + (\<Sum>tx\<leftarrow>txs. if IsCoinBaseTx tx then amounts (MsgTxOut tx) else 0)"
    using rest v1 Cons.prems(4,5,8) t1 step(3) ledger_tx_good [OF Cons.prems(6) sane]
    by (intro Cons.IH) auto
  moreover have "money (ledger_tx c h tx L) + fee \<le> money L + (if IsCoinBaseTx tx then amounts (MsgTxOut tx) else 0)"
  proof (cases "IsCoinBaseTx tx")
    case True
    then show ?thesis using total_coinbase [OF Cons.prems(6) sane, of c h] fee by (simp add: coinbase_fee)
  next
    case False
    with step(2) have "\<forall>op\<in>set (inputs tx). L op \<noteq> None" "fee = coins_amount L (inputs tx) - amounts (MsgTxOut tx)" by blast+
    with total_spend [OF Cons.prems(6) sane False, of c h] False show ?thesis by simp
  qed
  moreover have "can_connect c h [tx] L"
    using step(2) sane sane_outs [OF sane] by (auto simp: list_all_iff sane_def inputs_def)
  ultimately show ?case by (auto simp: ledger_block_def v1(1))
qed (simp add: ledger_block_def)

section \<open>Loading\<close>

text \<open>The outputs of the transactions after a position.\<close>

definition later :: "crypto \<Rightarrow> MsgTx list \<Rightarrow> nat \<Rightarrow> OutPoint set" where
  "later c txs i = to_come c (drop (Suc i) txs)"

lemma later_iff: "op \<in> later c txs i \<longleftrightarrow> (\<exists>j. i < j \<and> j < length txs \<and> op \<in> out_ops c (txs ! j))"
proof
  assume "op \<in> later c txs i"
  then obtain tx where "tx \<in> set (drop (Suc i) txs)" "op \<in> out_ops c tx" by (auto simp: later_def to_come_def)
  then obtain k where "k < length txs - Suc i" "op \<in> out_ops c (txs ! (Suc i + k))" by (auto simp: in_set_conv_nth)
  then show "\<exists>j. i < j \<and> j < length txs \<and> op \<in> out_ops c (txs ! j)" by (intro exI [of _ "Suc i + k"]) auto
next
  assume "\<exists>j. i < j \<and> j < length txs \<and> op \<in> out_ops c (txs ! j)"
  then obtain j where "i < j" "j < length txs" "op \<in> out_ops c (txs ! j)" by blast
  moreover from this have "txs ! j \<in> set (drop (Suc i) txs)"
    by (auto simp: in_set_conv_nth intro!: exI [of _ "j - Suc i"])
  ultimately show "op \<in> later c txs i" by (auto simp: later_def to_come_def)
qed

lemma later_Suc: "op \<in> later c txs (Suc i) \<Longrightarrow> op \<in> later c txs i"
  by (auto simp: later_iff dest: Suc_lessD)

lemma later_hash:
  assumes "distinct (map (TxHash c) txs)" "op \<in> later c txs i" "j < length txs" "op_Hash op = TxHash c (txs ! j)"
  shows "i < j"
  using assms by (auto simp: later_iff distinct_conv_nth dest!: out_ops_hash) (metis)

text \<open>An input that names an output of its own or of a later transaction is asked for, when the view is fresh.\<close>

lemma find_input_later:
  assumes "view_ok base view" "\<forall>tx. length (TxHash c tx) = 32" "\<forall>tx\<in>set (block_txs block). length (MsgTxOut tx) \<le> 2 ^ 32"
    and "distinct (map (TxHash c) (block_txs block))" "\<forall>op\<in>later c (block_txs block) i. entries view op = None"
    and "find_input c block i ti (view, needed) = (view', needed')"
  shows "view_ok base view' \<and> (\<forall>op\<in>later c (block_txs block) i. entries view' op = None) \<and> set needed \<subseteq> set needed'
    \<and> (PreviousOutPoint ti \<in> later c (block_txs block) i \<longrightarrow> PreviousOutPoint ti \<in> set needed')"
proof (cases "\<exists>j. txInFlight c (block_txs block) (op_Hash (PreviousOutPoint ti)) = Some j \<and> i \<ge> j")
  case True
  then obtain j where j: "txInFlight c (block_txs block) (op_Hash (PreviousOutPoint ti)) = Some j" "i \<ge> j" by blast
  have tx: "j < length (block_txs block)" "TxHash c (block_txs block ! j) = op_Hash (PreviousOutPoint ti)"
    using txInFlight_Some [OF j(1)] by auto
  have v: "view' = AddTxOuts c (block_txs block ! j) (block_Height block) view" "needed' = needed"
    using assms(6) j by (simp_all add: find_input_def Let_def)
  have "op \<notin> out_ops c (block_txs block ! j)" if "op \<in> later c (block_txs block) i" for op
    using later_hash [OF assms(4) that tx(1)] j(2) by (auto dest!: out_ops_hash)
  moreover have "PreviousOutPoint ti \<notin> later c (block_txs block) i"
    using later_hash [OF assms(4) _ tx(1)] tx(2) j(2) by force
  ultimately show ?thesis
    using AddTxOuts_law [OF assms(1), of c "block_txs block ! j" "block_Height block"] assms(2,3,5) tx(1) v by auto
next
  case False
  then have "view' = view \<and> needed' = (if entries view (PreviousOutPoint ti) \<noteq> None then needed else needed @ [PreviousOutPoint ti])"
    using assms(6) by (auto simp: find_input_def Let_def split: option.split_asm if_split_asm)
  then show ?thesis using assms(1,5) by auto
qed

lemma find_tx_later:
  assumes "view_ok base view" "\<forall>tx. length (TxHash c tx) = 32" "\<forall>tx\<in>set (block_txs block). length (MsgTxOut tx) \<le> 2 ^ 32"
    and "distinct (map (TxHash c) (block_txs block))" "\<forall>op\<in>later c (block_txs block) i. entries view op = None"
    and "fold (find_input c block i) tis (view, needed) = (view', needed')"
  shows "view_ok base view' \<and> (\<forall>op\<in>later c (block_txs block) i. entries view' op = None) \<and> set needed \<subseteq> set needed'
    \<and> (\<forall>ti\<in>set tis. PreviousOutPoint ti \<in> later c (block_txs block) i \<longrightarrow> PreviousOutPoint ti \<in> set needed')"
  using assms(1,5,6)
proof (induction tis arbitrary: view needed)
  case (Cons ti tis)
  obtain v1 n1 where f: "find_input c block i ti (view, needed) = (v1, n1)" by (cases "find_input c block i ti (view, needed)")
  note one = find_input_later [OF Cons.prems(1) assms(2-4) Cons.prems(2) f]
  show ?case using Cons.IH [of v1 n1] one Cons.prems(3) f by auto
qed simp

lemma find_block_later:
  assumes "view_ok base view" "\<forall>tx. length (TxHash c tx) = 32" "\<forall>tx\<in>set (block_txs block). length (MsgTxOut tx) \<le> 2 ^ 32"
    and "distinct (map (TxHash c) (block_txs block))" "\<forall>op\<in>later c (block_txs block) n. entries view op = None"
    and "fold (\<lambda>(i, tx). fold (find_input c block i) (MsgTxIn tx)) (enumerate n txs) (view, needed) = (view', needed')"
  shows "set needed \<subseteq> set needed' \<and> (\<forall>m<length txs. \<forall>op\<in>set (inputs (txs ! m)) \<inter> later c (block_txs block) (n + m). op \<in> set needed')"
  using assms(1,5,6)
proof (induction txs arbitrary: n view needed)
  case (Cons tx txs)
  obtain v1 n1 where f: "fold (find_input c block n) (MsgTxIn tx) (view, needed) = (v1, n1)"
    by (cases "fold (find_input c block n) (MsgTxIn tx) (view, needed)")
  note one = find_tx_later [OF Cons.prems(1) assms(2-4) Cons.prems(2) f]
  have "\<forall>op\<in>later c (block_txs block) (Suc n). entries v1 op = None" using one by (auto dest: later_Suc)
  with Cons.IH [of v1 "Suc n" n1] one Cons.prems(3) f
  have "set n1 \<subseteq> set needed'" "\<forall>m<length txs. \<forall>op\<in>set (inputs (txs ! m)) \<inter> later c (block_txs block) (Suc n + m). op \<in> set needed'"
    by auto
  with one show ?case by (auto simp: nth_Cons inputs_def split: nat.split)
qed simp

lemma drop_later: "to_come c (drop (Suc k) txs) = later c txs k"
  by (simp add: later_def)

lemma unborn_nth:
  assumes "\<forall>k<length txs. \<not> IsCoinBaseTx (txs ! k) \<longrightarrow>
    (\<forall>op\<in>set (inputs (txs ! k)) \<inter> to_come c (drop k txs). view_coins Map.empty view op = None)"
  shows "unborn c txs view"
  using assms
proof (induction txs)
  case (Cons tx txs)
  from Cons.prems have "\<forall>k<length txs. \<not> IsCoinBaseTx (txs ! k) \<longrightarrow>
    (\<forall>op\<in>set (inputs (txs ! k)) \<inter> to_come c (drop k txs). view_coins Map.empty view op = None)" by fastforce
  moreover from Cons.prems have "\<not> IsCoinBaseTx tx \<longrightarrow>
    (\<forall>op\<in>set (inputs tx) \<inter> to_come c (tx # txs). view_coins Map.empty view op = None)" by fastforce
  ultimately show ?case using Cons.IH by simp
qed simp

text \<open>No transaction names an output of its own or of a later transaction.\<close>

definition ordered :: "crypto \<Rightarrow> MsgTx list \<Rightarrow> bool" where
  "ordered c txs \<longleftrightarrow> (\<forall>k<length txs. \<not> IsCoinBaseTx (txs ! k) \<longrightarrow> set (inputs (txs ! k)) \<inter> to_come c (drop k txs) = {})"

lemma load_block:
  assumes "cache_inv c ser s" "view_ok (cache_coins c ser s) view" "view_coins (cache_coins c ser s) view = cache_coins c ser s"
    and "\<forall>tx. length (TxHash c tx) = 32" "\<forall>tx\<in>set (block_txs block). sane tx"
    and "\<forall>tx\<in>set (block_txs block). \<forall>op\<in>set (inputs tx). length (op_Hash op) = 32"
    and "block_txs block \<noteq> []" "IsCoinBaseTx (hd (block_txs block))" "distinct (map (TxHash c) (block_txs block))"
    and "\<forall>op\<in>to_come c (block_txs block). cache_coins c ser s op = None"
    and "ordered c (block_txs block) \<or> (\<forall>op\<in>to_come c (block_txs block). entries view op = None)"
    and "fetchInputUtxos c ser bad block (view, s) = Inr (view', s')"
  shows "agrees c (block_txs block) view' (cache_coins c ser s)" "unborn c (block_txs block) view'"
    "cache_inv c ser s'" "cache_coins c ser s' = cache_coins c ser s"
proof -
  let ?C = "cache_coins c ser s" and ?T = "block_txs block"
  have outs: "\<forall>tx\<in>set ?T. length (MsgTxOut tx) \<le> 2 ^ 32" using assms(5) sane_outs by blast
  from fetchInputUtxos_law [OF assms(1,2,4) outs assms(6,7), of bad] assms(12)
  have law: "cache_inv c ser s'" "cache_coins c ser s' = ?C" "view_ok ?C view'"
      "\<forall>op. op \<notin> to_come c ?T \<longrightarrow> view_coins ?C view' op = ?C op"
    using assms(3) by (auto simp: to_come_def)
  then show "cache_inv c ser s'" "cache_coins c ser s' = ?C" by auto
  show "agrees c ?T view' ?C" unfolding agrees_def
  proof (intro allI impI)
    fix op x assume op: "op \<notin> to_come c ?T" "view_coins Map.empty view' op = Some x"
    then have "view_coins ?C view' op = Some x" by (auto simp: view_coins_def split: option.split_asm)
    with law(4) op(1) show "?C op = Some x" by auto
  qed
  show "unborn c ?T view'"
  proof (cases "ordered c ?T")
    case True
    then show ?thesis by (intro unborn_nth) (auto simp: ordered_def)
  next
    case False
    with assms(11) have none: "\<forall>op\<in>to_come c ?T. entries view op = None" by blast
    obtain v1 needed where f: "findInputsToFetch c block view = Inr (v1, needed)"
      using assms(7) by (auto simp: findInputsToFetch_def) (metis surj_pair)
    have len: "\<forall>op\<in>set needed. length (op_Hash op) = 32"
      using find_inputs_law(3) [OF assms(2,4) outs f] assms(6) by auto
    have "\<forall>op\<in>later c ?T 0. entries view op = None" using none by (auto simp: later_def to_come_def dest: in_set_dropD)
    from find_block_later [OF assms(2,4) outs assms(9) this, of "tl ?T" "[]" v1 needed] f assms(7)
    have need: "\<forall>m<length (tl ?T). \<forall>op\<in>set (inputs (tl ?T ! m)) \<inter> later c ?T m. op \<in> set needed"
      by (auto simp: findInputsToFetch_def)
    have loaded: "view_coins Map.empty view' op = ?C op" if "op \<in> set needed" for op
    proof -
      obtain s1 where "fetchEntries c ser bad needed s = Inr (map (entry_for c ser s) needed, s1)"
        using fetch_many [OF assms(1) len, of bad] by auto
      with f that assms(12) have "entries view' op = Some (entry_for c ser s op)"
        by (auto simp: fetchInputUtxos_def fetchUtxosFromCache_def load_entries split: if_split_asm)
      moreover have "entry_coin (entry_for c ser s op) = ?C op" using entry_for_coin(1) [OF assms(1)] len that by auto
      ultimately show ?thesis by (cases "entry_for c ser s op") (auto simp: view_coins_def LookupEntry_def)
    qed
    show ?thesis
    proof (intro unborn_nth allI impI ballI)
      fix k op assume k: "k < length ?T" "\<not> IsCoinBaseTx (?T ! k)" and op: "op \<in> set (inputs (?T ! k)) \<inter> to_come c (drop k ?T)"
      from k assms(8) obtain m where m: "k = Suc m" by (cases k) (auto simp: hd_conv_nth [OF assms(7)])
      have "op \<in> later c ?T m" using op by (simp add: m later_def)
      moreover have "m < length (tl ?T)" "tl ?T ! m = ?T ! k" using k(1) m by (simp_all add: nth_tl)
      ultimately have "op \<in> set needed" using need op by auto
      moreover have "?C op = None" using assms(10) op by (auto simp: to_come_def dest: in_set_dropD)
      ultimately show "view_coins Map.empty view' op = None" using loaded by simp
    qed
  qed
qed

text \<open>What the rule of BIP0030 leaves: a view that still shows the coins of the cache, none of them at an output of the
  block.\<close>

lemma bip30_law:
  assumes "cache_inv c ser s" "entries view = Map.empty" "\<forall>tx. length (TxHash c tx) = 32"
    and "\<forall>tx\<in>set (block_txs block). length (MsgTxOut tx) \<le> 2 ^ 32" "checkBIP0030 c ser bad block (view, s) = Inr (view', s')"
  shows "view_ok (cache_coins c ser s) view'" "view_coins (cache_coins c ser s) view' = cache_coins c ser s"
    "cache_inv c ser s'" "cache_coins c ser s' = cache_coins c ser s"
    "\<forall>op\<in>to_come c (block_txs block). cache_coins c ser s op = None"
proof -
  let ?C = "cache_coins c ser s"
  define ops where "ops = concat (map (\<lambda>tx. map (\<lambda>i. \<lparr>op_Hash = TxHash c tx, op_Index = of_nat i\<rparr> :: OutPoint)
    [0..<length (MsgTxOut tx)]) (block_txs block))"
  have len: "\<forall>op\<in>set ops. length (op_Hash op) = 32" using assms(3) by (auto simp: ops_def)
  have flt: "filter (\<lambda>op. entries view op = None) ops = ops" by (simp add: assms(2))
  obtain s1 where s1: "fetchEntries c ser bad ops s = Inr (map (entry_for c ser s) ops, s1)" "cache_inv c ser s1" "cache_coins c ser s1 = ?C"
    using fetch_many [OF assms(1) len, of bad] by auto
  from assms(5) obtain acc: "\<not> list_ex (\<lambda>op. case LookupEntry view' op of None \<Rightarrow> False | Some u \<Rightarrow> \<not> IsSpent u) ops"
      and f: "fetchUtxos c ser bad ops (view, s) = Inr (view', s')"
    by (auto simp: checkBIP0030_def Let_def rbind_eq_Inr ops_def split: if_split_asm)
  have ent: "entries view' = (\<lambda>op. if op \<in> set ops then Some (entry_for c ser s op) else None)"
      and inv: "cache_inv c ser s'" "cache_coins c ser s' = ?C"
    using f s1 assms(1,2) by (cases "ops = []"; auto simp: fetchUtxos_def fetchUtxosFromCache_def flt load_entries fun_eq_iff)+
  have coin: "entry_coin (entry_for c ser s op) = ?C op" if "op \<in> set ops" for op
    using entry_for_coin(1) [OF assms(1)] len that by auto
  show "cache_inv c ser s'" "cache_coins c ser s' = ?C" using inv by auto
  show "view_coins ?C view' = ?C"
  proof
    fix op show "view_coins ?C view' op = ?C op"
      using coin [of op] by (cases "entry_for c ser s op") (auto simp: view_coins_def LookupEntry_def ent)
  qed
  show "view_ok ?C view'" unfolding view_ok_def
  proof (intro conjI allI impI)
    have "dom (entries view') \<subseteq> set ops" by (auto simp: ent split: if_split_asm)
    then show "finite (dom (entries view'))" by (rule finite_subset) simp
  next
    fix op e assume e: "LookupEntry view' op = Some e" "\<not> isModified e"
    then have "op \<in> set ops" "entry_for c ser s op = Some e"
      by (auto simp: LookupEntry_def ent split: option.split_asm if_split_asm)
    moreover from this show "\<not> IsSpent e" using entry_for_coin(2) [OF assms(1)] len e(2) by blast
    ultimately show "?C op = Some (stxo_of e)" using coin [of op] by (simp add: entry_coin_def)
  qed (use len in \<open>auto simp: ent split: if_split_asm\<close>)
  show "\<forall>op\<in>to_come c (block_txs block). ?C op = None"
  proof
    fix op assume "op \<in> to_come c (block_txs block)"
    then obtain tx where tx: "tx \<in> set (block_txs block)" "op_Hash op = TxHash c tx" "unat (op_Index op) < length (MsgTxOut tx)"
      by (auto simp: to_come_def out_ops_def tx_outs_def split: if_split_asm)
    then have "op = \<lparr>op_Hash = TxHash c tx, op_Index = of_nat (unat (op_Index op))\<rparr>" by simp
    with tx have mem: "op \<in> set ops" unfolding ops_def by (force intro!: bexI [of _ tx])
    with acc have "entry_coin (entry_for c ser s op) = None"
      by (auto simp: list_ex_iff LookupEntry_def ent entry_coin_def split: option.split)
    with coin [OF mem] show "?C op = None" by simp
  qed
qed

section \<open>Accepted blocks\<close>

lemma and_or_keep: "(a OR x) AND y = y" if "a AND y = y" for a x y :: ScriptFlags
proof -
  have "(a OR x) AND y = (a AND y) OR (x AND y)" by (rule bit.conj_disj_distrib2)
  with that show ?thesis by (simp add: or.commute)
qed


lemma fold_r_unit: "fold_r (\<lambda>x _. f x) xs () = Inr () \<Longrightarrow> x \<in> set xs \<Longrightarrow> f x = Inr ()"
  by (induction xs) (auto simp: rbind_eq_Inr)

lemma checkBlockSanity_law:
  assumes "checkBlockSanity c block powLimit now fl = Some (Inr ())"
  shows "block_txs block \<noteq> []" "IsCoinBaseTx (hd (block_txs block))" "\<forall>tx\<in>set (tl (block_txs block)). \<not> IsCoinBaseTx tx"
    "\<forall>tx\<in>set (block_txs block). sane tx" "distinct (map (TxHash c) (block_txs block))"
proof -
  note ok = assms [unfolded checkBlockSanity_def Let_def]
  show ne: "block_txs block \<noteq> []" using ok by (auto split: sum.split_asm if_split_asm)
  show "IsCoinBaseTx (hd (block_txs block))"
    using ok by (auto simp: hd_conv_nth [OF ne] split: sum.split_asm if_split_asm)
  show "\<forall>tx\<in>set (tl (block_txs block)). \<not> IsCoinBaseTx tx"
    using ok by (auto simp: list_ex_iff drop_Suc split: sum.split_asm if_split_asm)
  show "\<forall>tx\<in>set (block_txs block). sane tx"
    using ok by (auto split: sum.split_asm if_split_asm intro: CheckTransactionSanity_sane fold_r_unit)
  show "distinct (map (TxHash c) (block_txs block))"
    using ok CalcMerkleRoot_root [OF ne, of c False] by (auto split: sum.split_asm if_split_asm)
qed

text \<open>The checks end: the computation of the Merkle root returns.\<close>

lemma checkBlockSanity_returns: "\<exists>r. checkBlockSanity c block powLimit now fl = Some r"
proof (cases "block_txs block = []")
  case False
  with CalcMerkleRoot_root [OF this, of c False] show ?thesis
    by (auto simp: checkBlockSanity_def Let_def split: sum.split)
qed (auto simp: checkBlockSanity_def Let_def split: sum.split)

text \<open>The parts of an accepted connection: the loaded view, the fees and the coinbase, the scripts.\<close>

lemma checkConnectBlock_cases:
  assumes "checkConnectBlock c ser bad order node block (view, stxos) b = Inr ((view', stxos'), b')"
  obtains v0 s0 v1 s1 F v2 segwit b1 where
    "(if \<not> isBIP0030Node node \<and> height node < BIP0034Height (chainParams b)
      then checkBIP0030 c ser bad block (view, chain_utxoCache b) else Inr (view, chain_utxoCache b)) = Inr (v0, s0)"
    "fetchInputUtxos c ser bad block (v0, s0) = Inr (v1, s1)"
    "connect_fees c (height node) (chainParams b) (block_txs block) 0 (v1, stxos) = Inr (F, v2, stxos')"
    "sum_outs (MsgTxOut (block_txs block ! 0)) \<le> i64 (CalcBlockSubsidy (height node) (chainParams b) + F)"
    "connect_scripts c order node block segwit v2 b1 = Inr b'"
    "chain_utxoCache b1 = s1" "chainParams b1 = chainParams b" "checkpoints b1 = checkpoints b"
    "view' = SetBestHash (node_hash node) v2"
  using assms unfolding checkConnectBlock_def Let_def split_beta prod.sel
  by (auto simp: rbind_eq_Inr chain_deploymentState_def split: if_split_asm)

lemma deployment_keeps:
  "chain_deploymentState c prev d b = Inr (state, b') \<Longrightarrow> chain_utxoCache b' = chain_utxoCache b \<and> checkpoints b' = checkpoints b
    \<and> chainParams b' = chainParams b"
  by (auto simp: chain_deploymentState_def rbind_eq_Inr)

lemma check_locks_keeps: "check_locks c node mt view txs b = Inr b' \<Longrightarrow> chain_utxoCache b' = chain_utxoCache b"
  by (induction txs arbitrary: b) (fastforce simp: rbind_eq_Inr split: if_split_asm)+

lemma lock_flags_keeps:
  assumes "lock_flags c node block view fl b = Inr x"
  shows "chain_utxoCache (snd x) = chain_utxoCache b" "fst x AND fl = fl"
  using assms deployment_keeps [of c "parent node" DeploymentCSV b]
  by (auto simp: lock_flags_def rbind_eq_Inr and_or_keep split: if_split_asm dest!: check_locks_keeps)

text \<open>The scripts are run, unless a checkpoint vouches for the block, with at least the flags of the block.\<close>

lemma connect_scripts_cases:
  assumes "connect_scripts c order node block segwit view b = Inr b'"
  shows "chain_utxoCache b' = chain_utxoCache b"
    "checkpoints b = [] \<Longrightarrow> \<exists>fl st st'. fl AND base_flags (chainParams b) node (Header (msgBlock block))
        = base_flags (chainParams b) node (Header (msgBlock block))
      \<and> checkBlockScripts c order block view fl st = Inr st'"
proof -
  let ?bf = "base_flags (chainParams b) node (Header (msgBlock block))"
  obtain x y where x: "lock_flags c node block view ?bf b = Inr x"
      and y: "chain_deploymentState c (parent node) DeploymentTaproot (snd x) = Inr y"
      and run: "(let fl2 = (if segwit then fst x OR ScriptVerifyWitness OR ScriptStrictMultiSig else fst x);
            fl3 = (if fst y = ThresholdActive then fl2 OR ScriptVerifyTaproot else fl2) in
          if (case LatestCheckpoint (checkpoints b) of Some checkpoint \<Rightarrow> \<not> height node \<le> cp_Height checkpoint | None \<Rightarrow> True)
          then rbind (checkBlockScripts c order block view fl3 (chain_sigCache (snd y), chain_hashCache (snd y))) (\<lambda>z.
            Inr ((snd y)\<lparr>chain_sigCache := fst z, chain_hashCache := snd z\<rparr>))
          else Inr (snd y)) = Inr b'"
    using assms unfolding connect_scripts_def Let_def split_beta by (elim rbindE) (erule that, assumption, simp only: Let_def)
  have "chain_utxoCache (snd y) = chain_utxoCache (snd x)" using deployment_keeps [of c "parent node" _ _ "fst y" "snd y"] y by simp
  moreover have "chain_utxoCache b' = chain_utxoCache (snd y)" using run by (auto simp: Let_def rbind_eq_Inr split: if_split_asm)
  ultimately show "chain_utxoCache b' = chain_utxoCache b" using lock_flags_keeps(1) [OF x] by simp
  let ?fl2 = "if segwit then fst x OR ScriptVerifyWitness OR ScriptStrictMultiSig else fst x"
  let ?fl3 = "if fst y = ThresholdActive then ?fl2 OR ScriptVerifyTaproot else ?fl2"
  have "?fl3 AND ?bf = ?bf" using lock_flags_keeps(2) [OF x] by (simp add: and_or_keep)
  moreover assume "checkpoints b = []"
  with run obtain z where "checkBlockScripts c order block view ?fl3 (chain_sigCache (snd y), chain_hashCache (snd y)) = Inr z"
    unfolding Let_def by (auto simp: LatestCheckpoint_def elim: rbindE)
  ultimately show "\<exists>fl st st'. fl AND ?bf = ?bf \<and> checkBlockScripts c order block view fl st = Inr st'" by blast
qed

text \<open>The facts an accepted block has in common for the theorems below.\<close>

lemma accepted_block:
  assumes "checkBlockSanity c block powLimit now fl = Some (Inr ())"
    and "checkConnectBlock c ser bad order node block (view, stxos) b = Inr ((view', stxos'), b')"
    and "entries view = Map.empty" "cache_inv c ser (chain_utxoCache b)" "\<forall>tx. length (TxHash c tx) = 32"
    and "\<forall>tx\<in>set (block_txs block). \<forall>op\<in>set (inputs tx). length (op_Hash op) = 32"
    and "if \<not> isBIP0030Node node \<and> height node < BIP0034Height (chainParams b) then ordered c (block_txs block)
      else \<forall>op\<in>to_come c (block_txs block). cache_coins c ser (chain_utxoCache b) op = None"
  obtains v1 F v2 segwit b1 where "agrees c (block_txs block) v1 (cache_coins c ser (chain_utxoCache b))"
    "unborn c (block_txs block) v1"
    "connect_fees c (height node) (chainParams b) (block_txs block) 0 (v1, stxos) = Inr (F, v2, stxos')"
    "sum_outs (MsgTxOut (hd (block_txs block))) \<le> i64 (CalcBlockSubsidy (height node) (chainParams b) + F)"
    "connect_scripts c order node block segwit v2 b1 = Inr b'" "checkpoints b1 = checkpoints b" "chainParams b1 = chainParams b"
    "cache_inv c ser (chain_utxoCache b')"
    "cache_coins c ser (chain_utxoCache b') = cache_coins c ser (chain_utxoCache b)"
proof -
  let ?C = "cache_coins c ser (chain_utxoCache b)" and ?T = "block_txs block"
  note sane = checkBlockSanity_law [OF assms(1)]
  have outs: "\<forall>tx\<in>set ?T. length (MsgTxOut tx) \<le> 2 ^ 32" using sane(4) sane_outs by blast
  obtain v0 s0 v1 s1 F v2 segwit b1 where
    bip30: "(if \<not> isBIP0030Node node \<and> height node < BIP0034Height (chainParams b)
      then checkBIP0030 c ser bad block (view, chain_utxoCache b) else Inr (view, chain_utxoCache b)) = Inr (v0, s0)"
    and load: "fetchInputUtxos c ser bad block (v0, s0) = Inr (v1, s1)"
    and rest: "connect_fees c (height node) (chainParams b) ?T 0 (v1, stxos) = Inr (F, v2, stxos')"
      "sum_outs (MsgTxOut (?T ! 0)) \<le> i64 (CalcBlockSubsidy (height node) (chainParams b) + F)"
      "connect_scripts c order node block segwit v2 b1 = Inr b'" "chain_utxoCache b1 = s1" "chainParams b1 = chainParams b" "checkpoints b1 = checkpoints b"
      "view' = SetBestHash (node_hash node) v2"
    by (rule checkConnectBlock_cases [OF assms(2)])
  have "view_ok ?C v0 \<and> view_coins ?C v0 = ?C \<and> cache_inv c ser s0 \<and> cache_coins c ser s0 = ?C
      \<and> (\<forall>op\<in>to_come c ?T. ?C op = None) \<and> (ordered c ?T \<or> (\<forall>op\<in>to_come c ?T. entries v0 op = None))"
  proof (cases "\<not> isBIP0030Node node \<and> height node < BIP0034Height (chainParams b)")
    case True
    with bip30_law [OF assms(4,3,5) outs, of bad v0 s0] bip30 assms(7) show ?thesis by auto
  next
    case False
    then have "v0 = view" "s0 = chain_utxoCache b" using bip30 by auto
    moreover have "view_ok ?C view" "view_coins ?C view = ?C"
      using assms(3) by (auto simp: view_ok_def view_coins_def LookupEntry_def)
    ultimately show ?thesis using assms(3,4,7) False by auto
  qed
  then have v0: "view_ok ?C v0" "view_coins ?C v0 = ?C" "cache_inv c ser s0" "cache_coins c ser s0 = ?C"
    "\<forall>op\<in>to_come c ?T. ?C op = None" "ordered c ?T \<or> (\<forall>op\<in>to_come c ?T. entries v0 op = None)" by auto
  note loaded = load_block [of c ser s0, unfolded v0(4), OF v0(3,1,2) assms(5) sane(4) assms(6) sane(1,2,5) v0(5,6) load]
  show thesis
    using that [OF loaded(1,2) rest(1) _ rest(3,6,5)] rest(2,4) loaded(3,4) connect_scripts_cases(1) [OF rest(3)]
    by (simp add: hd_conv_nth [OF sane(1)])
qed

section \<open>Authorised spends\<close>

text \<open>The view keeps the script and the amount of an output when it is spent.\<close>

definition entry_shows :: "UtxoViewpoint \<Rightarrow> OutPoint \<Rightarrow> SpentTxOut \<Rightarrow> bool" where
  "entry_shows view op x \<longleftrightarrow> (\<exists>e. LookupEntry view op = Some e \<and> amount e = Amount x \<and> pkScript e = stxo_PkScript x)"

lemma spends_show: "fold_r view_spend ins (view, st) = Inr (view', st') \<Longrightarrow> entry_shows view op x \<Longrightarrow> entry_shows view' op x"
proof (induction ins arbitrary: view st)
  case (Cons ti ins)
  from Cons.prems(1) obtain s1 where s1: "view_spend ti (view, st) = Inr s1" "fold_r view_spend ins s1 = Inr (view', st')"
    by (auto simp: rbind_eq_Inr)
  from s1(1) obtain e where "LookupEntry view (PreviousOutPoint ti) = Some e"
      "s1 = (set_entry (PreviousOutPoint ti) (Spend e) view, append_stxo (stxo_of e) st)"
    by (auto simp: view_spend_def rbind_eq_Inr split: option.split_asm)
  with s1(2) have e: "LookupEntry view (PreviousOutPoint ti) = Some e"
      "fold_r view_spend ins (set_entry (PreviousOutPoint ti) (Spend e) view, append_stxo (stxo_of e) st) = Inr (view', st')"
    by simp_all
  moreover have "entry_shows (set_entry (PreviousOutPoint ti) (Spend e) view) op x"
    using Cons.prems(2) e(1) by (auto simp: entry_shows_def Spend_def)
  ultimately show ?case using Cons.IH by blast
qed simp

lemma outs_show:
  assumes "op \<notin> out_ops c tx" "length (MsgTxOut tx) \<le> 2 ^ 32"
  shows "LookupEntry (AddTxOuts c tx h view) op = LookupEntry view op"
proof -
  have "LookupEntry (fold (\<lambda>(i, txo). view_addTxOut \<lparr>op_Hash = TxHash c tx, op_Index = of_nat i\<rparr> txo cb h) ios v) op = LookupEntry v op"
    if "set ios \<subseteq> set (enumerate 0 (MsgTxOut tx))" for ios v cb
    using that
  proof (induction ios arbitrary: v)
    case (Cons io ios)
    obtain i txo where io: "io = (i, txo)" by (cases io)
    have i: "i < length (MsgTxOut tx)" "MsgTxOut tx ! i = txo" using Cons.prems io by (auto simp: in_set_enumerate_eq)
    then have "unat (of_nat i :: u32) = i" using assms(2) by (simp add: unat_of_nat)
    then have "IsUnspendable (PkScript txo) \<or> op \<noteq> \<lparr>op_Hash = TxHash c tx, op_Index = of_nat i\<rparr>"
      using assms(1) i by (auto simp: out_ops_def tx_outs_def)
    then have "LookupEntry (view_addTxOut \<lparr>op_Hash = TxHash c tx, op_Index = of_nat i\<rparr> txo cb h v) op = LookupEntry v op"
      by (auto simp: view_addTxOut_def)
    with Cons.IH Cons.prems io show ?case by simp
  qed simp
  from this [OF order_refl] show ?thesis by (simp add: AddTxOuts_def add_outs_def)
qed

lemma connect_shows:
  assumes "view_connectTransaction c h tx (view, st) = Inr (view', st')" "op \<notin> out_ops c tx" "sane tx" "entry_shows view op x"
  shows "entry_shows view' op x"
proof -
  obtain v1 where v1: "view' = AddTxOuts c tx h v1" "entry_shows v1 op x"
    using assms(1,4) spends_show by (fastforce simp: view_connectTransaction_def rbind_eq_Inr split: if_split_asm)
  then show ?thesis using outs_show [OF assms(2) sane_outs [OF assms(3)], of h v1] by (simp add: entry_shows_def)
qed

lemma fees_show:
  assumes "connect_fees c h params txs t (view, st) = Inr (F, view', st')" "op \<notin> to_come c txs" "\<forall>tx\<in>set txs. sane tx" "entry_shows view op x"
  shows "entry_shows view' op x"
  using assms
proof (induction txs arbitrary: t view st)
  case (Cons tx txs)
  from Cons.prems(1) obtain t1 v1 st1 where con: "view_connectTransaction c h tx (view, st) = Inr (v1, st1)"
      and rest: "connect_fees c h params txs t1 (v1, st1) = Inr (F, view', st')"
    by (auto simp: rbind_eq_Inr Let_def split: if_splits)
  have "entry_shows v1 op x" using connect_shows [OF con] Cons.prems(2-4) by (simp add: to_come_def)
  with Cons.IH [OF rest] Cons.prems(2,3) show ?case by (simp add: to_come_def)
qed simp

text \<open>What an input spends, in the ledger that the transactions before it leave: a mature coin, which the last view still shows.\<close>

lemma spent_shows:
  assumes "connect_fees c h params txs t (view, st) = Inr (F, view', st')" "agrees c txs view L" "unborn c txs view"
    and "distinct (map (TxHash c) txs)" "\<forall>tx\<in>set txs. sane tx" "k < length txs" "\<not> IsCoinBaseTx (txs ! k)" "op \<in> set (inputs (txs ! k))"
  shows "\<exists>x. ledger_block c h (take k txs) L op = Some x \<and> entry_shows view' op x
    \<and> (stxo_IsCoinBase x \<longrightarrow> uint (CoinbaseMaturity params) \<le> i32 (h - stxo_Height x))"
  using assms
proof (induction txs arbitrary: t view st L k)
  case (Cons tx txs)
  from Cons.prems(1) obtain fee t1 v1 st1 where fee: "CheckTransactionInputs tx h view params = Inr fee"
      and con: "view_connectTransaction c h tx (view, st) = Inr (v1, st1)"
      and rest: "connect_fees c h params txs t1 (v1, st1) = Inr (F, view', st')"
    by (auto simp: rbind_eq_Inr Let_def split: if_splits)
  have sane: "sane tx" and fresh: "TxHash c tx \<notin> TxHash c ` set txs" using Cons.prems(4,5) by auto
  note step = connect_step [OF Cons.prems(2,3) fresh sane fee]
  show ?case
  proof (cases k)
    case 0
    then have k: "\<not> IsCoinBaseTx tx" "op \<in> set (inputs tx)" using Cons.prems(7,8) by simp_all
    from CheckTransactionInputs_fee(1) [OF fee sane k(1)] k(2) obtain x where x: "view_coins Map.empty view op = Some x"
        "stxo_IsCoinBase x \<longrightarrow> uint (CoinbaseMaturity params) \<le> i32 (h - stxo_Height x)" by (auto simp: inputs_def)
    have L: "L op = Some x" using step(2) [OF k(1)] k(2) x(1) by auto
    have out: "op \<notin> to_come c (tx # txs)" using Cons.prems(3) k x(1) by auto
    have "entry_shows view op x"
      using x(1) by (auto simp: entry_shows_def view_coins_def entry_coin_def stxo_of_def split: option.split_asm if_split_asm)
    then have "entry_shows v1 op x" using connect_shows [OF con _ sane] out by (simp add: to_come_def)
    then have "entry_shows view' op x" using fees_show [OF rest] out Cons.prems(5) by (simp add: to_come_def)
    with L x(2) 0 show ?thesis by (simp add: ledger_block_def)
  next
    case (Suc j)
    have "agrees c txs v1 (ledger_tx c h tx L)" "unborn c txs v1" using step(1) [of st] con by auto
    from Cons.IH [OF rest this] Cons.prems(4-8) Suc show ?thesis by (simp add: ledger_block_def)
  qed
qed simp

lemma validated:
  assumes "fold_r (validateHandler c view fl) items sc = Inr sc'" "it \<in> set items"
  shows "\<exists>s s'. validateHandler c view fl it s = Inr s'"
  using assms by (induction items arbitrary: sc) (auto simp: rbind_eq_Inr)

lemma block_items_all:
  assumes "block_items c sw view txs hc = Inr (items, hc')" "tx \<in> set txs" "i < length (MsgTxIn tx)"
    and "op_Index (PreviousOutPoint (MsgTxIn tx ! i)) \<noteq> 0xffffffff"
  shows "\<exists>sh. \<lparr>txInIndex = i, item_txIn = MsgTxIn tx ! i, item_tx = tx, sigHashes = sh\<rparr> \<in> set items"
  using assms
proof (induction txs arbitrary: hc items)
  case (Cons t txs)
  from Cons.prems(1) obtain sh h1 items1 where "block_items c sw view txs h1 = Inr (items1, hc')" "items = input_items t sh @ items1"
    by (auto simp: rbind_eq_Inr)
  moreover have "(i, MsgTxIn tx ! i) \<in> set (enumerate 0 (MsgTxIn tx))" using Cons.prems(3) by (simp add: in_set_enumerate_eq)
  then have "\<lparr>txInIndex = i, item_txIn = MsgTxIn tx ! i, item_tx = tx, sigHashes = sh\<rparr> \<in> set (input_items tx sh)"
    using Cons.prems(4) by (force simp: input_items_def)
  ultimately show ?case using Cons.IH Cons.prems(2-4) by (cases "tx = t") fastforce+
qed simp

lemma script_error_Inr: "script_error err r = Inr x \<longleftrightarrow> r = Inr x"
  by (simp add: script_error_def split: sum.split)

lemma checked_script:
  assumes "checkBlockScripts c order block view fl st = Inr st'" "\<forall>xs. set (order xs) = set xs" "tx \<in> set (block_txs block)"
    and "i < length (MsgTxIn tx)" "op_Index (PreviousOutPoint (MsgTxIn tx ! i)) \<noteq> 0xffffffff"
    and "entry_shows view (PreviousOutPoint (MsgTxIn tx ! i)) x"
  shows "\<exists>sc sh vm vm'. NewEngine (stxo_PkScript x) tx (int i) fl sc sh (Amount x) (FetchPrevOutput view) = Inr vm \<and> Execute c vm = Inr vm'"
proof -
  obtain sc hc where st: "st = (sc, hc)" by (cases st)
  from assms(1) obtain sw items hc' sc' where items: "block_items c sw view (block_txs block) hc = Inr (items, hc')"
      and val: "Validate c order view fl items sc = Inr sc'"
    by (auto simp: checkBlockScripts_def st Let_def rbind_eq_Inr)
  obtain sh where mem: "\<lparr>txInIndex = i, item_txIn = MsgTxIn tx ! i, item_tx = tx, sigHashes = sh\<rparr> \<in> set items" (is "?it \<in> _")
    using block_items_all [OF items assms(3-5)] by blast
  then have "fold_r (validateHandler c view fl) (order items) sc = Inr sc'" using val by (auto simp: Validate_def split: if_split_asm)
  from validated [OF this, of ?it] mem assms(2) obtain s s' where "validateHandler c view fl ?it s = Inr s'" by blast
  then show ?thesis using assms(6)
    by (auto simp: validateHandler_def entry_shows_def rbind_eq_Inr script_error_Inr) metis
qed

end
