(* ===== verification/Chain_Sample.thy ===== *)
theory Chain_Sample
  imports Chain_Supply
begin

text \<open>
  Two small blocks on top of a chain of one block, with concrete hash functions, evaluated through the checks: one that
  pays a coin on twice, in order, and one that spends an output of a later transaction. They show that the hypotheses of
  the theorems about money can hold, and what becomes of them when an output is spent before it exists.
\<close>

section \<open>Sample blocks\<close>

definition anyone :: bytes where "anyone = [OP_1]"

definition base_op :: OutPoint where "base_op = \<lparr>op_Hash = replicate 32 9, op_Index = 0\<rparr>"

definition pay :: "u32 \<Rightarrow> OutPoint \<Rightarrow> bytes \<Rightarrow> u64 list \<Rightarrow> MsgTx" where
  "pay version op sig vals = \<lparr>Version = version, MsgTxIn = [\<lparr>PreviousOutPoint = op, SignatureScript = sig, Witness = [],
     Sequence = 0xffffffff\<rparr>], MsgTxOut = map (\<lambda>v. \<lparr>Value = v, PkScript = anyone\<rparr>) vals, LockTime = 0\<rparr>"

definition out_of :: "MsgTx \<Rightarrow> u32 \<Rightarrow> OutPoint" where
  "out_of tx i = \<lparr>op_Hash = TxHash chain_crypto tx, op_Index = i\<rparr>"

definition reward :: MsgTx where "reward = pay 1 \<lparr>op_Hash = zeroHash, op_Index = 0xffffffff\<rparr> [0, 0] [5000000000]"
definition spend_base :: MsgTx where "spend_base = pay 3 base_op [] [1000, 0]"
definition spend_second :: MsgTx where "spend_second = pay 4 (out_of spend_base 1) [] [0]"
definition spend_early :: MsgTx where "spend_early = pay 2 (out_of spend_base 0) [] [1000]"

definition rich_cache :: utxoCache where
  "rich_cache = cache_addTxOut 0 base_op \<lparr>Value = 1000, PkScript = anyone\<rparr> False 1 empty_cache"

definition header_of :: "bytes \<Rightarrow> MsgTx list \<Rightarrow> int \<Rightarrow> BlockHeader" where
  "header_of prev txs t = \<lparr>bh_Version = 4, PrevBlock = prev,
     MerkleRoot = merkle_root chain_crypto (merkle_leaves chain_crypto False txs),
     Timestamp = time_Unix t, Bits = 0x1d00ffff, Nonce = 0\<rparr>"

definition tip_node :: blockNode where
  "tip_node = newBlockNode chain_crypto (header_of zeroHash [reward] 1700000000) None"

definition block_of :: "MsgTx list \<Rightarrow> Block" where
  "block_of txs = \<lparr>msgBlock = \<lparr>Header = header_of (node_hash tip_node) txs 1700000600, Transactions = txs\<rparr>, block_Height = 1\<rparr>"

definition node_of :: "MsgTx list \<Rightarrow> blockNode" where
  "node_of txs = newBlockNode chain_crypto (Header (msgBlock (block_of txs))) (Some tip_node)"

definition tip_view :: UtxoViewpoint where
  "tip_view = SetBestHash (node_hash tip_node) NewUtxoViewpoint"

definition rich_chain :: BlockChain where
  "rich_chain = \<lparr>chainParams = MainNetParams, checkpoints = [], checkpointState = \<lparr>checkpointNode = None, nextCheckpoint = None\<rparr>,
     blockIndex = (\<lambda>_. None), bestChain = [Some tip_node], deploymentCaches = replicate 5 Map.empty,
     chain_utxoCache = rich_cache, chain_sigCache = None, chain_hashCache = None\<rparr>"

lemma anyone_facts: "GetSigOpCount anyone = 0" "isScriptHashScript anyone = False" "IsUnspendable anyone = False"
  "GetSigOpCount [] = 0" "GetSigOpCount [0, 0] = 0"
  by code_simp+

text \<open>The script that anyone may spend runs without an error, whatever the transaction.\<close>

definition runs_anyone :: "crypto \<Rightarrow> MsgTx \<Rightarrow> u64 \<Rightarrow> PrevOutputFetcher \<Rightarrow> bool" where
  "runs_anyone c tx amt fetch = (case NewEngine anyone tx 0 ScriptBip16 None None amt fetch of Inl _ \<Rightarrow> False
     | Inr vm \<Rightarrow> (case Execute c vm of Inl _ \<Rightarrow> False | Inr vm' \<Rightarrow> sigCache vm' = None))"

lemma anyone_runs: "runs_anyone c \<lparr>Version = v, MsgTxIn = [\<lparr>PreviousOutPoint = op, SignatureScript = [], Witness = [], Sequence = s\<rparr>],
    MsgTxOut = outs, LockTime = l\<rparr> amt fetch"
  by code_simp

lemma pay_facts:
  "MsgTxIn (pay v op sig vals) = [\<lparr>PreviousOutPoint = op, SignatureScript = sig, Witness = [], Sequence = 0xffffffff\<rparr>]"
  "MsgTxOut (pay v op sig vals) = map (\<lambda>v. \<lparr>Value = v, PkScript = anyone\<rparr>) vals" "inputs (pay v op sig vals) = [op]"
  "Version (pay v op sig vals) = v" "LockTime (pay v op sig vals) = 0" "HasWitness (pay v op sig vals) = False"
  "IsCoinBaseTx (pay v op sig vals) = (op_Index op = 0xffffffff \<and> op_Hash op = zeroHash)"
  by (simp_all add: pay_def inputs_def HasWitness_def IsCoinBaseTx_def)

lemma pay_ops: "CountSigOps (pay v op [] vals) = 0" "CountSigOps (pay v op [0, 0] vals) = 0"
proof -
  have "fold (\<lambda>txOut n. i64 (n + int (GetSigOpCount (PkScript txOut)))) (map (\<lambda>v. \<lparr>Value = v, PkScript = anyone\<rparr>) vals) 0 = 0"
    by (induction vals) (simp_all add: anyone_facts)
  then show "CountSigOps (pay v op [] vals) = 0" "CountSigOps (pay v op [0, 0] vals) = 0"
    by (simp_all add: CountSigOps_def pay_facts anyone_facts)
qed

lemma pay_cost:
  assumes "\<And>u. LookupEntry view op = Some u \<Longrightarrow> pkScript u = anyone" "sig = [] \<or> sig = [0, 0]"
  shows "GetSigOpCost (pay v op sig vals) cb view True False = Inr 0"
  using assms by (cases "LookupEntry view op")
    (auto simp: GetSigOpCost_def CountP2SHSigOps_def p2sh_ops_def pay_ops pay_facts anyone_facts)

lemma pay_outs:
  "AddTxOuts chain_crypto (pay v op sig vals) h view = fold (\<lambda>(i, val). set_entry (out_of (pay v op sig vals) (of_nat i))
     (fresh_entry \<lparr>Value = val, PkScript = anyone\<rparr> (IsCoinBaseTx (pay v op sig vals)) h)) (enumerate 0 vals) view"
proof -
  have "fold (\<lambda>(i, txo). view_addTxOut \<lparr>op_Hash = H, op_Index = of_nat i\<rparr> txo cb h) (enumerate k (map (\<lambda>v. \<lparr>Value = v, PkScript = anyone\<rparr>) vals)) view
    = fold (\<lambda>(i, val). set_entry \<lparr>op_Hash = H, op_Index = of_nat i\<rparr> (fresh_entry \<lparr>Value = val, PkScript = anyone\<rparr> cb h)) (enumerate k vals) view" for H k cb
    by (induction vals arbitrary: k view) (simp_all add: view_addTxOut_def anyone_facts)
  then show ?thesis by (simp add: AddTxOuts_def add_outs_def pay_facts out_of_def)
qed

lemma pay_connect:
  assumes "LookupEntry view op = Some u" "op_Index op \<noteq> 0xffffffff"
  shows "view_connectTransaction chain_crypto h (pay v op [] vals) (view, st)
    = Inr (AddTxOuts chain_crypto (pay v op [] vals) h (set_entry op (Spend u) view), append_stxo (stxo_of u) st)"
  using assms by (simp add: view_connectTransaction_def pay_facts view_spend_def)

lemma pay_fee:
  assumes "LookupEntry view op = Some u" "\<not> IsSpent u" "\<not> IsCoinBase u" "op_Index op \<noteq> 0xffffffff"
    and "0 \<le> sint (amount u)" "sint (amount u) \<le> MaxSatoshi" "sum_outs (map (\<lambda>v. \<lparr>Value = v, PkScript = anyone\<rparr>) vals) = sint (amount u)"
  shows "CheckTransactionInputs (pay v op [] vals) h view params = Inr 0"
  using assms i64_amount [of "sint (amount u)"] by (simp add: CheckTransactionInputs_def pay_facts check_input_def Let_def)

lemma pay_run:
  assumes "LookupEntry view op = Some u" "pkScript u = anyone" "op_Index op \<noteq> 0xffffffff"
  shows "fold_r (validateHandler c view ScriptBip16) (input_items (pay v op [] vals) None) None = Inr None"
proof -
  have "runs_anyone c (pay v op [] vals) (amount u) (FetchPrevOutput view)" unfolding pay_def by (rule anyone_runs)
  then show ?thesis using assms
    by (auto simp: runs_anyone_def input_items_def pay_facts validateHandler_def script_error_def split: sum.split_asm)
qed

text \<open>The cache of the samples holds one coin, the transactions have different hashes.\<close>

lemma rich_cache_law:
  "cache_inv chain_crypto id rich_cache"
  "entry_for chain_crypto id rich_cache op = (if op = base_op then Some (fresh_entry \<lparr>Value = 1000, PkScript = anyone\<rparr> False 1) else None)"
  "cache_coins chain_crypto id rich_cache = [base_op \<mapsto> coin \<lparr>Value = 1000, PkScript = anyone\<rparr> False 1]"
proof -
  have "length (op_Hash base_op) = 32" by (simp add: base_op_def)
  then have may: "cache_may_add empty_cache base_op" by (simp add: cache_may_add_def empty_cache_coins)
  show "cache_inv chain_crypto id rich_cache"
    "cache_coins chain_crypto id rich_cache = [base_op \<mapsto> coin \<lparr>Value = 1000, PkScript = anyone\<rparr> False 1]"
    using cache.add [of chain_crypto id empty_cache base_op "\<lparr>Value = 1000, PkScript = anyone\<rparr>" 0 False 1] may
    by (simp_all add: rich_cache_def empty_cache_coins anyone_facts)
  show "entry_for chain_crypto id rich_cache op = (if op = base_op then Some (fresh_entry \<lparr>Value = 1000, PkScript = anyone\<rparr> False 1) else None)"
    by (simp add: entry_for_def rich_cache_def cache_addTxOut_def anyone_facts cache_put_def dbFetchUtxoEntry_def empty_cache_def
      newUtxoCache_def Let_def ms_get_def)
qed

lemma entry_for_fetched:
  assumes "cache_inv c ser s" "\<forall>op\<in>set ops. length (op_Hash op) = 32"
  obtains s' where "fetchEntries c ser bad ops s = Inr (map (entry_for c ser s) ops, s')" "cache_inv c ser s'"
    "entry_for c ser s' = entry_for c ser s" "cache_coins c ser s' = cache_coins c ser s"
proof -
  obtain s' where s': "fetchEntries c ser bad ops s = Inr (map (entry_for c ser s) ops, s')" "cache_inv c ser s'"
      "cache_coins c ser s' = cache_coins c ser s" "cache_db s' = cache_db s"
      "ms_get (cachedEntries s') = (\<lambda>op. if op \<in> set ops then Some (entry_for c ser s op) else ms_get (cachedEntries s) op)"
    using fetch_many [OF assms, of bad] by blast
  then have "entry_for c ser s' op = entry_for c ser s op" for op
    by (cases "op \<in> set ops"; cases "ms_get (cachedEntries s) op") (simp_all add: entry_for_def)
  then show thesis using that [OF s'(1,2) _ s'(3)] by blast
qed

lemma sample_hashes:
  "hd (TxHash chain_crypto reward) = 1" "hd (TxHash chain_crypto spend_early) = 2"
  "hd (TxHash chain_crypto spend_base) = 3" "hd (TxHash chain_crypto spend_second) = 4"
  by (simp_all add: hd_TxHash reward_def spend_early_def spend_base_def spend_second_def pay_facts)

lemma sample_distinct:
  "TxHash chain_crypto reward \<noteq> TxHash chain_crypto spend_early" "TxHash chain_crypto reward \<noteq> TxHash chain_crypto spend_base"
  "TxHash chain_crypto reward \<noteq> TxHash chain_crypto spend_second" "TxHash chain_crypto spend_early \<noteq> TxHash chain_crypto spend_base"
  "TxHash chain_crypto spend_early \<noteq> TxHash chain_crypto spend_second" "TxHash chain_crypto spend_base \<noteq> TxHash chain_crypto spend_second"
  using sample_hashes by auto

lemma not_base: "hd (TxHash chain_crypto tx) \<noteq> 9 \<Longrightarrow> replicate 32 9 \<noteq> TxHash chain_crypto tx"
  by (auto dest: arg_cong [where f = hd])

lemma sample_ops:
  "out_of tx i = out_of tx' j \<longleftrightarrow> TxHash chain_crypto tx = TxHash chain_crypto tx' \<and> i = j"
  "base_op \<noteq> out_of reward i" "base_op \<noteq> out_of spend_early i" "base_op \<noteq> out_of spend_base i" "base_op \<noteq> out_of spend_second i"
  "length (op_Hash base_op) = 32" "length (op_Hash (out_of tx i)) = 32" "op_Hash (out_of tx i) = TxHash chain_crypto tx"
  "op_Index (out_of tx i) = i" "op_Index base_op = 0"
  using not_base [of reward] not_base [of spend_early] not_base [of spend_base]
    not_base [of spend_second] chain_crypto_laws(3) by (simp_all add: out_of_def base_op_def sample_hashes)

lemma early_deployment:
  assumes "height p = 0" "d < 5"
  shows "chain_deploymentState chain_crypto (Some p) d rich_chain = Inr (ThresholdDefined, rich_chain)"
    "chain_deploymentState chain_crypto (Some p) d (rich_chain\<lparr>chain_utxoCache := s\<rparr>) = Inr (ThresholdDefined, rich_chain\<lparr>chain_utxoCache := s\<rparr>)"
proof -
  have win: "MinerConfirmationWindow (deploymentChecker c i MainNetParams dep) = 2016" "length (Deployments MainNetParams) = 5" for c i dep
    by (simp_all add: deploymentChecker_def MainNetParams_def)
  have "deploymentState chain_crypto i MainNetParams (Some p) d (replicate 5 Map.empty) = Inr (ThresholdDefined, replicate 5 Map.empty)" for i
    using assms by (simp add: deploymentState_def thresholdState_def win Let_def i32_def list_update_same_conv)
  then show "chain_deploymentState chain_crypto (Some p) d rich_chain = Inr (ThresholdDefined, rich_chain)"
    "chain_deploymentState chain_crypto (Some p) d (rich_chain\<lparr>chain_utxoCache := s\<rparr>) = Inr (ThresholdDefined, rich_chain\<lparr>chain_utxoCache := s\<rparr>)"
    by (simp_all add: chain_deploymentState_def rich_chain_def)
qed

lemma hd_BlockHash: "hd (BlockHash chain_crypto hdr) = of_nat (unat (bh_Version hdr))"
proof -
  have "\<exists>r. writeBlockHeaderBuf hdr = of_nat (unat (bh_Version hdr) mod 256) # r"
    unfolding writeBlockHeaderBuf_def numeral_4_eq_4 le_bytes.simps by simp
  moreover have "(of_nat (n mod 256) :: u8) = of_nat n" for n
    by (rule u8_eqI) (simp add: unat_of_nat_u8)
  ultimately show ?thesis by (auto simp: BlockHash_def DoubleHashB_def chain_crypto_def prefix_hash_def)
qed

lemma sample_node:
  "height (node_of txs) = 1" "parent (node_of txs) = Some tip_node" "timestamp (node_of txs) = 1700000600" "height tip_node = 0"
  "node_hash (node_of txs) \<noteq> GenesisHash MainNetParams" "isBIP0030Node (node_of txs) = False"
proof -
  have tip: "height tip_node = 0" by (simp add: tip_node_def newBlockNode_def)
  then show "height tip_node = 0" "height (node_of txs) = 1" "isBIP0030Node (node_of txs) = False"
    by (simp_all add: node_of_def newBlockNode_def i32_def isBIP0030Node_def)
  show "parent (node_of txs) = Some tip_node" "timestamp (node_of txs) = 1700000600"
    by (simp_all add: node_of_def newBlockNode_def block_of_def header_of_def time_Unix_def Unix_def)
  have "hd (node_hash (node_of txs)) = 4"
    by (simp add: node_of_def newBlockNode_def block_of_def hd_BlockHash) (simp add: header_of_def)
  then show "node_hash (node_of txs) \<noteq> GenesisHash MainNetParams" by (auto simp: MainNetParams_def)
qed

lemma block_items_legacy: "block_items c False view txs hc = Inr (concat (map (\<lambda>tx. input_items tx None) txs), hc)"
  by (induction txs) (simp_all add: tx_hashes_def)

text \<open>What is left to evaluate for a block on top of the sample chain.\<close>

lemma sample_connects:
  assumes "T \<noteq> []" "checkBIP0030 chain_crypto id 0 (block_of T) (tip_view, rich_cache) = Inr (v0, s0)"
    and "fetchInputUtxos chain_crypto id 0 (block_of T) (v0, s0) = Inr (v1, s1)"
    and "sigop_costs v1 True False (enumerate 0 T) 0 = Inr ()"
    and "connect_fees chain_crypto 1 MainNetParams T 0 (v1, Some []) = Inr (0, v2, st)"
    and "sum_outs (MsgTxOut (T ! 0)) \<le> 5000000000"
    and "fold_r (validateHandler chain_crypto v2 ScriptBip16) (concat (map (\<lambda>tx. input_items tx None) T)) None = Inr None"
  shows "checkConnectBlock chain_crypto id 0 id (node_of T) (block_of T) (tip_view, Some []) rich_chain
    = Inr ((SetBestHash (node_hash (node_of T)) v2, st), rich_chain\<lparr>chain_utxoCache := s1\<rparr>)"
proof -
  have par: "chainParams rich_chain = MainNetParams" "chain_utxoCache rich_chain = rich_cache" "checkpoints rich_chain = []"
      "chain_sigCache rich_chain = None" "chain_hashCache rich_chain = None" by (simp_all add: rich_chain_def)
  have txs: "block_txs (block_of T) = T" "PrevBlock (Header (msgBlock (block_of T))) = node_hash tip_node" "bestHash tip_view = node_hash tip_node"
    by (simp_all add: block_of_def header_of_def tip_view_def SetBestHash_def)
  have main: "BIP0034Height MainNetParams = 227931" "BIP0065Height MainNetParams = 388381" "BIP0066Height MainNetParams = 363725"
    by (simp_all add: MainNetParams_def)
  have time: "Unix Bip16Activation \<le> 1700000600" by (simp add: Bip16Activation_def time_Unix_def Unix_def)
  have flags: "base_flags MainNetParams (node_of T) hdr = ScriptBip16" for hdr
    using time by (simp add: base_flags_def sample_node main)
  have sub: "CalcBlockSubsidy 1 MainNetParams = 5000000000" using main_subsidy [of 1] by simp
  note dep = early_deployment [OF sample_node(4)]
  have "lock_flags chain_crypto (node_of T) (block_of T) v2 ScriptBip16 (rich_chain\<lparr>chain_utxoCache := s1\<rparr>)
      = Inr (ScriptBip16, rich_chain\<lparr>chain_utxoCache := s1\<rparr>)"
    by (simp add: lock_flags_def sample_node dep DeploymentCSV_def)
  moreover have "checkBlockScripts chain_crypto id (block_of T) v2 ScriptBip16 (None, None) = Inr (None, None)"
    using assms(7) by (simp add: checkBlockScripts_def block_items_legacy txs Validate_def)
  ultimately have "connect_scripts chain_crypto id (node_of T) (block_of T) False v2 (rich_chain\<lparr>chain_utxoCache := s1\<rparr>)
      = Inr (rich_chain\<lparr>chain_utxoCache := s1\<rparr>)"
    by (simp add: connect_scripts_def par flags sample_node dep DeploymentTaproot_def LatestCheckpoint_def)
  then show ?thesis using assms time
    by (simp add: checkConnectBlock_def par txs sample_node main dep DeploymentSegwit_def sub i64_amount MaxSatoshi_eq)
qed

definition outs_of :: "MsgTx list \<Rightarrow> OutPoint list" where
  "outs_of T = concat (map (\<lambda>tx. map (\<lambda>i. out_of tx (of_nat i)) [0..<length (MsgTxOut tx)]) T)"

lemma sample_bip30:
  assumes "base_op \<notin> set (outs_of T)" "outs_of T \<noteq> []"
  obtains v0 s0 where "checkBIP0030 chain_crypto id 0 (block_of T) (tip_view, rich_cache) = Inr (v0, s0)"
    "entries v0 = (\<lambda>op. if op \<in> set (outs_of T) then Some None else None)"
    "cache_inv chain_crypto id s0" "entry_for chain_crypto id s0 = entry_for chain_crypto id rich_cache"
proof -
  have len: "\<forall>op\<in>set (outs_of T). length (op_Hash op) = 32" by (auto simp: outs_of_def sample_ops chain_crypto_laws)
  obtain s0 where s0: "fetchEntries chain_crypto id 0 (outs_of T) rich_cache = Inr (map (entry_for chain_crypto id rich_cache) (outs_of T), s0)"
      "cache_inv chain_crypto id s0" "entry_for chain_crypto id s0 = entry_for chain_crypto id rich_cache"
    using entry_for_fetched [OF rich_cache_law(1) len] by blast
  define v0 where "v0 = fold (\<lambda>(op, e) view. view\<lparr>entries := (entries view)(op \<mapsto> e)\<rparr>)
    (zip (outs_of T) (map (entry_for chain_crypto id rich_cache) (outs_of T))) tip_view"
  have none: "entries tip_view = Map.empty" by (simp add: tip_view_def SetBestHash_def NewUtxoViewpoint_def)
  have ent: "entries v0 = (\<lambda>op. if op \<in> set (outs_of T) then Some None else None)"
    unfolding v0_def load_entries none using assms(1) by (auto simp: fun_eq_iff rich_cache_law(2))
  have fetch: "concat (map (\<lambda>tx. map (\<lambda>i. \<lparr>op_Hash = TxHash chain_crypto tx, op_Index = of_nat i\<rparr>) [0..<length (MsgTxOut tx)])
      (block_txs (block_of T))) = outs_of T" by (simp add: outs_of_def out_of_def block_of_def)
  have "fetchUtxos chain_crypto id 0 (outs_of T) (tip_view, rich_cache) = Inr (v0, s0)"
    using s0(1) assms(2) by (simp add: fetchUtxos_def fetchUtxosFromCache_def none v0_def)
  moreover have "\<not> list_ex (\<lambda>op. case LookupEntry v0 op of None \<Rightarrow> False | Some u \<Rightarrow> \<not> IsSpent u) (outs_of T)"
    by (auto simp: list_ex_iff LookupEntry_def ent)
  ultimately have "checkBIP0030 chain_crypto id 0 (block_of T) (tip_view, rich_cache) = Inr (v0, s0)"
    unfolding checkBIP0030_def fetch by simp
  then show thesis using that ent s0(2,3) by blast
qed

lemma sample_load:
  assumes "findInputsToFetch chain_crypto (block_of T) v0 = Inr (v, [base_op])" "cache_inv chain_crypto id s0"
    and "entry_for chain_crypto id s0 = entry_for chain_crypto id rich_cache"
  obtains s1 where "fetchInputUtxos chain_crypto id 0 (block_of T) (v0, s0)
      = Inr (set_entry base_op (fresh_entry \<lparr>Value = 1000, PkScript = anyone\<rparr> False 1) v, s1)"
proof -
  obtain s1 where "fetchEntries chain_crypto id 0 [base_op] s0 = Inr (map (entry_for chain_crypto id s0) [base_op], s1)"
    using entry_for_fetched [OF assms(2), of "[base_op]"] sample_ops(6) by auto
  then show thesis using that assms(1,3)
    by (simp add: fetchInputUtxos_def fetchUtxosFromCache_def rich_cache_law(2) set_entry_def)
qed

abbreviation sample_coin :: "u64 \<Rightarrow> int \<Rightarrow> UtxoEntry" where
  "sample_coin v h \<equiv> fresh_entry \<lparr>Value = v, PkScript = anyone\<rparr> False h"

lemma sample_coin_simps:
  "\<not> IsSpent (sample_coin v h)" "\<not> IsCoinBase (sample_coin v h)" "amount (sample_coin v h) = v" "pkScript (sample_coin v h) = anyone"
  "pkScript (Spend e) = pkScript e" "amount (Spend e) = amount e"
  by (simp_all add: fresh_entry_def IsSpent_def IsCoinBase_def Spend_def tf_defs)

lemma sample_outs:
  "AddTxOuts chain_crypto spend_base h view = set_entry (out_of spend_base 1) (sample_coin 0 h) (set_entry (out_of spend_base 0) (sample_coin 1000 h) view)"
  "AddTxOuts chain_crypto spend_early h view = set_entry (out_of spend_early 0) (sample_coin 1000 h) view"
  "AddTxOuts chain_crypto spend_second h view = set_entry (out_of spend_second 0) (sample_coin 0 h) view"
  "AddTxOuts chain_crypto reward h view = set_entry (out_of reward 0) (fresh_entry \<lparr>Value = 5000000000, PkScript = anyone\<rparr> True h) view"
  unfolding spend_base_def spend_early_def spend_second_def reward_def pay_outs
  by (simp_all add: pay_facts base_op_def out_of_def)

lemma sample_txs:
  "IsCoinBaseTx reward" "\<not> IsCoinBaseTx spend_base" "\<not> IsCoinBaseTx spend_early" "\<not> IsCoinBaseTx spend_second"
  "inputs spend_base = [base_op]" "inputs spend_early = [out_of spend_base 0]" "inputs spend_second = [out_of spend_base 1]"
  "inputs reward = [\<lparr>op_Hash = zeroHash, op_Index = 0xffffffff\<rparr>]"
  by (simp_all add: reward_def spend_base_def spend_early_def spend_second_def pay_facts sample_ops)

definition good_txs :: "MsgTx list" where "good_txs = [reward, spend_base, spend_second]"
definition early_txs :: "MsgTx list" where "early_txs = [reward, spend_early, spend_base, spend_second]"

lemma sample_outs_of:
  "set (outs_of good_txs) = {out_of reward 0, out_of spend_base 0, out_of spend_base 1, out_of spend_second 0}" "outs_of good_txs \<noteq> []"
  "set (outs_of early_txs) = {out_of reward 0, out_of spend_early 0, out_of spend_base 0, out_of spend_base 1, out_of spend_second 0}" "outs_of early_txs \<noteq> []"
  by (simp_all add: outs_of_def good_txs_def early_txs_def reward_def spend_base_def spend_early_def spend_second_def pay_facts upt_rec insert_commute)

lemma sample_flight:
  "txInFlight chain_crypto good_txs (TxHash chain_crypto spend_base) = Some 1" "txInFlight chain_crypto good_txs (op_Hash base_op) = None"
  "txInFlight chain_crypto early_txs (TxHash chain_crypto spend_base) = Some 2" "txInFlight chain_crypto early_txs (op_Hash base_op) = None"
  using sample_distinct by (simp_all add: txInFlight_def good_txs_def early_txs_def upt_rec base_op_def not_base sample_hashes)

lemma sample_finds:
  assumes "entries v0 = (\<lambda>op. if op \<in> set (outs_of T) then Some None else None)" "T = good_txs \<or> T = early_txs"
  shows "findInputsToFetch chain_crypto (block_of T) v0 = Inr (AddTxOuts chain_crypto spend_base 1 v0, [base_op])"
proof -
  have base: "entries v0 base_op = None" using assms sample_ops(2-5) by (auto simp: sample_outs_of)
  have txs: "block_txs (block_of X) = X" "block_Height (block_of X) = 1" for X by (simp_all add: block_of_def)
  have ins: "MsgTxIn spend_base = [\<lparr>PreviousOutPoint = base_op, SignatureScript = [], Witness = [], Sequence = 0xffffffff\<rparr>]"
    "MsgTxIn spend_early = [\<lparr>PreviousOutPoint = out_of spend_base 0, SignatureScript = [], Witness = [], Sequence = 0xffffffff\<rparr>]"
    "MsgTxIn spend_second = [\<lparr>PreviousOutPoint = out_of spend_base 1, SignatureScript = [], Witness = [], Sequence = 0xffffffff\<rparr>]"
    by (simp_all add: spend_base_def spend_early_def spend_second_def pay_facts)
  from assms(2) show ?thesis
  proof
    assume T: "T = good_txs"
    show ?thesis unfolding findInputsToFetch_def txs T good_txs_def
      by (simp add: ins find_input_def txs sample_flight [unfolded good_txs_def] sample_ops base)
  next
    assume T: "T = early_txs"
    have "entries v0 (out_of spend_base 0) \<noteq> None" using assms(1) by (simp add: T sample_outs_of)
    then show ?thesis unfolding findInputsToFetch_def txs T early_txs_def
      by (simp add: ins find_input_def txs sample_flight [unfolded early_txs_def] sample_ops base)
  qed
qed

lemma sample_params: "CoinbaseMaturity MainNetParams = 1"
  by (simp add: MainNetParams_def)

lemma sample_sums:
  "sum_outs (map (\<lambda>v. \<lparr>Value = v, PkScript = anyone\<rparr>) [1000, 0]) = 1000" "sum_outs (map (\<lambda>v. \<lparr>Value = v, PkScript = anyone\<rparr>) [1000]) = 1000"
  "sum_outs (map (\<lambda>v. \<lparr>Value = v, PkScript = anyone\<rparr>) [0]) = 0" "sum_outs (MsgTxOut reward) = 5000000000"
  by (simp_all add: sum_outs_def i64_amount MaxSatoshi_eq reward_def pay_facts)

lemma sample_fees:
  "LookupEntry view base_op = Some (sample_coin 1000 h') \<Longrightarrow> CheckTransactionInputs spend_base h view params = Inr 0"
  "LookupEntry view (out_of spend_base 0) = Some (sample_coin 1000 h') \<Longrightarrow> CheckTransactionInputs spend_early h view params = Inr 0"
  "LookupEntry view (out_of spend_base 1) = Some (sample_coin 0 h') \<Longrightarrow> CheckTransactionInputs spend_second h view params = Inr 0"
proof -
  show "LookupEntry view base_op = Some (sample_coin 1000 h') \<Longrightarrow> CheckTransactionInputs spend_base h view params = Inr 0"
    unfolding spend_base_def by (erule pay_fee) (simp_all add: sample_coin_simps sample_sums [simplified] sample_ops MaxSatoshi_eq)
  show "LookupEntry view (out_of spend_base 0) = Some (sample_coin 1000 h') \<Longrightarrow> CheckTransactionInputs spend_early h view params = Inr 0"
    unfolding spend_early_def by (erule pay_fee) (simp_all add: sample_coin_simps sample_sums [simplified] sample_ops MaxSatoshi_eq)
  show "LookupEntry view (out_of spend_base 1) = Some (sample_coin 0 h') \<Longrightarrow> CheckTransactionInputs spend_second h view params = Inr 0"
    unfolding spend_second_def by (erule pay_fee) (simp_all add: sample_coin_simps sample_sums [simplified] sample_ops MaxSatoshi_eq)
qed

lemma sample_connect:
  "LookupEntry view base_op = Some u \<Longrightarrow> view_connectTransaction chain_crypto h spend_base (view, st)
    = Inr (AddTxOuts chain_crypto spend_base h (set_entry base_op (Spend u) view), append_stxo (stxo_of u) st)"
  "LookupEntry view (out_of spend_base 0) = Some u \<Longrightarrow> view_connectTransaction chain_crypto h spend_early (view, st)
    = Inr (AddTxOuts chain_crypto spend_early h (set_entry (out_of spend_base 0) (Spend u) view), append_stxo (stxo_of u) st)"
  "LookupEntry view (out_of spend_base 1) = Some u \<Longrightarrow> view_connectTransaction chain_crypto h spend_second (view, st)
    = Inr (AddTxOuts chain_crypto spend_second h (set_entry (out_of spend_base 1) (Spend u) view), append_stxo (stxo_of u) st)"
  "view_connectTransaction chain_crypto h reward (view, st) = Inr (AddTxOuts chain_crypto reward h view, st)"
proof -
  show "LookupEntry view base_op = Some u \<Longrightarrow> view_connectTransaction chain_crypto h spend_base (view, st)
    = Inr (AddTxOuts chain_crypto spend_base h (set_entry base_op (Spend u) view), append_stxo (stxo_of u) st)"
    unfolding spend_base_def by (erule pay_connect) (simp_all add: sample_ops)
  show "LookupEntry view (out_of spend_base 0) = Some u \<Longrightarrow> view_connectTransaction chain_crypto h spend_early (view, st)
    = Inr (AddTxOuts chain_crypto spend_early h (set_entry (out_of spend_base 0) (Spend u) view), append_stxo (stxo_of u) st)"
    unfolding spend_early_def by (erule pay_connect) (simp_all add: sample_ops)
  show "LookupEntry view (out_of spend_base 1) = Some u \<Longrightarrow> view_connectTransaction chain_crypto h spend_second (view, st)
    = Inr (AddTxOuts chain_crypto spend_second h (set_entry (out_of spend_base 1) (Spend u) view), append_stxo (stxo_of u) st)"
    unfolding spend_second_def by (erule pay_connect) (simp_all add: sample_ops)
  show "view_connectTransaction chain_crypto h reward (view, st) = Inr (AddTxOuts chain_crypto reward h view, st)"
    by (simp add: view_connectTransaction_def sample_txs)
qed

lemma sample_costs:
  assumes "\<And>op u. LookupEntry view op = Some u \<Longrightarrow> pkScript u = anyone"
  shows "sigop_costs view True False (enumerate n [reward, spend_base, spend_second]) 0 = Inr ()"
    "sigop_costs view True False (enumerate n [reward, spend_early, spend_base, spend_second]) 0 = Inr ()"
proof -
  have "GetSigOpCost tx cb view True False = Inr 0" if "tx \<in> {reward, spend_base, spend_early, spend_second}" for tx cb
    using that pay_cost [OF assms] by (auto simp: reward_def spend_base_def spend_early_def spend_second_def)
  then show "sigop_costs view True False (enumerate n [reward, spend_base, spend_second]) 0 = Inr ()"
    "sigop_costs view True False (enumerate n [reward, spend_early, spend_base, spend_second]) 0 = Inr ()"
    by (simp_all add: MaxBlockSigOpsCost_def)
qed

lemma sample_runs:
  assumes "LookupEntry view op = Some u" "pkScript u = anyone" "op_Index op \<noteq> 0xffffffff"
    and "tx = spend_base \<and> op = base_op \<or> tx = spend_early \<and> op = out_of spend_base 0 \<or> tx = spend_second \<and> op = out_of spend_base 1"
  shows "fold_r (validateHandler c view ScriptBip16) (input_items tx None @ items) None
    = fold_r (validateHandler c view ScriptBip16) items None"
    "fold_r (validateHandler c view ScriptBip16) (input_items tx None) None = Inr None"
  using assms pay_run [OF assms(1-3)] by (auto simp: fold_r_append spend_base_def spend_early_def spend_second_def)

lemma reward_items: "input_items reward None = []"
  by (simp add: input_items_def reward_def pay_facts)

text \<open>Both sample blocks pass the check of the connection.\<close>

lemma good_connects:
  "\<exists>v2 st s1. checkConnectBlock chain_crypto id 0 id (node_of good_txs) (block_of good_txs) (tip_view, Some []) rich_chain
    = Inr ((SetBestHash (node_hash (node_of good_txs)) v2, st), rich_chain\<lparr>chain_utxoCache := s1\<rparr>)"
proof -
  let ?base = "set_entry base_op (sample_coin 1000 1)"
  obtain v0 s0 where v0: "checkBIP0030 chain_crypto id 0 (block_of good_txs) (tip_view, rich_cache) = Inr (v0, s0)"
      "entries v0 = (\<lambda>op. if op \<in> set (outs_of good_txs) then Some None else None)"
      "cache_inv chain_crypto id s0" "entry_for chain_crypto id s0 = entry_for chain_crypto id rich_cache"
    using sample_bip30 [of good_txs] sample_ops(2-5) by (metis (no_types, lifting) sample_outs_of(1,2) insert_iff empty_iff)
  define v1 where "v1 = ?base (AddTxOuts chain_crypto spend_base 1 v0)"
  obtain s1 where s1: "fetchInputUtxos chain_crypto id 0 (block_of good_txs) (v0, s0) = Inr (v1, s1)"
    using sample_load [OF sample_finds [OF v0(2)] v0(3,4)] unfolding v1_def by blast
  have none: "LookupEntry v0 op = None" for op by (simp add: LookupEntry_def v0(2))
  have costs: "sigop_costs v1 True False (enumerate 0 good_txs) 0 = Inr ()"
    unfolding good_txs_def by (rule sample_costs) (auto simp: v1_def sample_outs none sample_coin_simps split: if_split_asm)
  have look: "LookupEntry v1 base_op = Some (sample_coin 1000 1)" by (simp add: v1_def)
  let ?r = "AddTxOuts chain_crypto reward 1 v1"
  let ?b = "AddTxOuts chain_crypto spend_base 1 (set_entry base_op (Spend (sample_coin 1000 1)) ?r)"
  let ?s = "AddTxOuts chain_crypto spend_second 1 (set_entry (out_of spend_base 1) (Spend (sample_coin 0 1)) ?b)"
  have fees: "connect_fees chain_crypto 1 MainNetParams good_txs 0 (v1, Some [])
    = Inr (0, ?s, Some [stxo_of (sample_coin 1000 1), stxo_of (sample_coin 0 1)])"
    using look sample_distinct sample_ops
    by (simp add: good_txs_def sample_connect coinbase_fee sample_txs sample_fees sample_outs append_stxo_def)
  have "fold_r (validateHandler chain_crypto ?s ScriptBip16) (concat (map (\<lambda>tx. input_items tx None) good_txs)) None = Inr None"
    using sample_runs [of ?s base_op "Spend (sample_coin 1000 1)" spend_base] sample_runs [of ?s "out_of spend_base 1" "Spend (sample_coin 0 1)" spend_second]
      sample_distinct sample_ops by (simp add: good_txs_def reward_items sample_outs sample_coin_simps)
  then show ?thesis
    using sample_connects [OF _ v0(1) s1 costs fees] by (auto simp: good_txs_def sample_sums)
qed

lemma early_connects:
  "\<exists>v2 st s1. checkConnectBlock chain_crypto id 0 id (node_of early_txs) (block_of early_txs) (tip_view, Some []) rich_chain
      = Inr ((SetBestHash (node_hash (node_of early_txs)) v2, st), rich_chain\<lparr>chain_utxoCache := s1\<rparr>)
    \<and> view_coins Map.empty v2 (out_of spend_early 0) \<noteq> None \<and> view_coins Map.empty v2 (out_of spend_base 0) \<noteq> None"
proof -
  let ?base = "set_entry base_op (sample_coin 1000 1)"
  obtain v0 s0 where v0: "checkBIP0030 chain_crypto id 0 (block_of early_txs) (tip_view, rich_cache) = Inr (v0, s0)"
      "entries v0 = (\<lambda>op. if op \<in> set (outs_of early_txs) then Some None else None)"
      "cache_inv chain_crypto id s0" "entry_for chain_crypto id s0 = entry_for chain_crypto id rich_cache"
    using sample_bip30 [of early_txs] sample_ops(2-5) by (metis (no_types, lifting) sample_outs_of(3,4) insert_iff empty_iff)
  define v1 where "v1 = ?base (AddTxOuts chain_crypto spend_base 1 v0)"
  obtain s1 where s1: "fetchInputUtxos chain_crypto id 0 (block_of early_txs) (v0, s0) = Inr (v1, s1)"
    using sample_load [OF sample_finds [OF v0(2)] v0(3,4)] unfolding v1_def by blast
  have none: "LookupEntry v0 op = None" for op by (simp add: LookupEntry_def v0(2))
  have costs: "sigop_costs v1 True False (enumerate 0 early_txs) 0 = Inr ()"
    unfolding early_txs_def by (rule sample_costs) (auto simp: v1_def sample_outs none sample_coin_simps split: if_split_asm)
  have look: "LookupEntry v1 base_op = Some (sample_coin 1000 1)" "LookupEntry v1 (out_of spend_base 0) = Some (sample_coin 1000 1)"
    using sample_ops by (simp_all add: v1_def sample_outs)
  let ?r = "AddTxOuts chain_crypto reward 1 v1"
  let ?e = "AddTxOuts chain_crypto spend_early 1 (set_entry (out_of spend_base 0) (Spend (sample_coin 1000 1)) ?r)"
  let ?b = "AddTxOuts chain_crypto spend_base 1 (set_entry base_op (Spend (sample_coin 1000 1)) ?e)"
  let ?s = "AddTxOuts chain_crypto spend_second 1 (set_entry (out_of spend_base 1) (Spend (sample_coin 0 1)) ?b)"
  have fees: "connect_fees chain_crypto 1 MainNetParams early_txs 0 (v1, Some [])
    = Inr (0, ?s, Some [stxo_of (sample_coin 1000 1), stxo_of (sample_coin 1000 1), stxo_of (sample_coin 0 1)])"
    using look sample_distinct sample_ops
    by (simp add: early_txs_def sample_connect coinbase_fee sample_txs sample_fees sample_outs append_stxo_def)
  have "fold_r (validateHandler chain_crypto ?s ScriptBip16) (concat (map (\<lambda>tx. input_items tx None) early_txs)) None = Inr None"
    using sample_runs [of ?s base_op "Spend (sample_coin 1000 1)" spend_base] sample_runs [of ?s "out_of spend_base 1" "Spend (sample_coin 0 1)" spend_second]
      sample_runs [of ?s "out_of spend_base 0" "sample_coin 1000 1" spend_early]
      sample_distinct sample_ops by (simp add: early_txs_def reward_items sample_outs sample_coin_simps)
  then have "checkConnectBlock chain_crypto id 0 id (node_of early_txs) (block_of early_txs) (tip_view, Some []) rich_chain
      = Inr ((SetBestHash (node_hash (node_of early_txs)) ?s, Some [stxo_of (sample_coin 1000 1), stxo_of (sample_coin 1000 1), stxo_of (sample_coin 0 1)]),
          rich_chain\<lparr>chain_utxoCache := s1\<rparr>)"
    using sample_connects [OF _ v0(1) s1 costs fees] by (simp add: early_txs_def sample_sums)
  moreover have "view_coins Map.empty ?s (out_of spend_early 0) \<noteq> None" "view_coins Map.empty ?s (out_of spend_base 0) \<noteq> None"
    using sample_distinct sample_ops by (simp_all add: view_coins_def sample_outs sample_ops(2-5) [symmetric])
  ultimately show ?thesis by blast
qed

lemma sample_sanity:
  assumes "T = good_txs \<or> T = early_txs"
  shows "checkBlockSanity chain_crypto (block_of T) (PowLimit MainNetParams) (time_Unix 1700000000) BFNoPoWCheck = Some (Inr ())"
proof -
  let ?S = "{reward, spend_base, spend_early, spend_second}"
  have sub: "set T \<subseteq> ?S" using assms by (auto simp: good_txs_def early_txs_def)
  have head: "CheckBlockHeaderSanity chain_crypto (Header (msgBlock (block_of T))) (PowLimit MainNetParams) (time_Unix 1700000000) BFNoPoWCheck = Inr ()"
    by (simp add: CheckBlockHeaderSanity_def checkProofOfWork_def block_of_def header_of_def MainNetParams_def CompactToBig_def
      time_Unix_def Unix_def time_Second_def MaxTimeOffsetSeconds_def BFNoPoWCheck_def)
  have small: "SerializeSizeStripped (pay v op sig vals) \<le> 100" if "vals \<in> {[1000, 0], [1000], [0], [5000000000]}" "sig = [] \<or> sig = [0, 0]" for v op sig vals
    using that by (auto simp: SerializeSizeStripped_def baseSize_eq pay_facts TxIn_SerializeSize_def TxOut_SerializeSize_def anyone_def VarIntSerializeSize_def)
  have pay: "CheckTransactionSanity (pay v op sig vals) = Inr ()" if "vals \<in> {[1000, 0], [1000], [0], [5000000000]}"
      "sig = [] \<and> op_Index op \<noteq> 0xffffffff \<or> sig = [0, 0] \<and> op_Hash op = zeroHash \<and> op_Index op = 0xffffffff" for v op sig vals
  proof -
    have "check_outs (MsgTxOut (pay v op sig vals)) 0 = Inr t \<Longrightarrow> ?thesis" for t
      using that small [OF that(1), of sig v op]
      by (auto simp: CheckTransactionSanity_def pay_facts MaxBlockBaseSize_def isNullOutpoint_def MinCoinbaseScriptLen_def MaxCoinbaseScriptLen_def)
    moreover have "\<exists>t. check_outs (MsgTxOut (pay v op sig vals)) 0 = Inr t"
      using that(1) by (auto simp: pay_facts MaxSatoshi_eq i64_amount)
    ultimately show ?thesis by blast
  qed
  have "CheckTransactionSanity tx = Inr ()" if "tx \<in> ?S" for tx
    using that by (auto simp: reward_def spend_base_def spend_early_def spend_second_def sample_ops intro!: pay)
  then have each: "fold_r (\<lambda>tx _. CheckTransactionSanity tx) xs () = Inr ()" if "set xs \<subseteq> ?S" for xs
    using that by (induction xs) auto
  have ops: "CountSigOps tx = 0" if "tx \<in> ?S" for tx
    using that by (auto simp: reward_def spend_base_def spend_early_def spend_second_def pay_ops)
  have legacy: "legacy_ops xs 0 = Inr ()" if "set xs \<subseteq> ?S" for xs
    using that by (induction xs) (auto simp: ops MaxBlockSigOpsCost_def)
  have size: "SerializeSizeStripped tx \<le> 100" if "tx \<in> ?S" for tx
    using that by (auto simp: reward_def spend_base_def spend_early_def spend_second_def intro!: small)
  have "sum_list (map SerializeSizeStripped xs) \<le> 100 * length xs" if "set xs \<subseteq> ?S" for xs
    using that size by (induction xs) force+
  from this [OF sub] have "block_SerializeSizeStripped (msgBlock (block_of T)) \<le> MaxBlockBaseSize"
    using assms by (auto simp: block_SerializeSizeStripped_def fold_add block_of_def blockHeaderLen_def VarIntSerializeSize_def MaxBlockBaseSize_def
      good_txs_def early_txs_def)
  moreover have "T \<noteq> []" "length T \<le> 4" "IsCoinBaseTx (T ! 0)" "\<not> list_ex IsCoinBaseTx (drop 1 T)" "distinct (map (TxHash chain_crypto) T)"
    using assms sample_txs sample_distinct by (auto simp: good_txs_def early_txs_def)
  moreover have "MerkleRoot (Header (msgBlock (block_of T))) = merkle_root chain_crypto (merkle_leaves chain_crypto False T)"
    by (simp add: block_of_def header_of_def)
  ultimately show ?thesis
    using head each [OF sub] legacy [OF sub] CalcMerkleRoot_root [of T chain_crypto False]
    by (simp add: checkBlockSanity_def) (simp add: block_of_def MaxBlockBaseSize_def)
qed

end
