(* ===== verification/Chain_Money.thy ===== *)
theory Chain_Money
  imports Chain_Sample
begin

unbundle bit_operations_syntax

text \<open>
  What the checks of a block promise about money. A block that they accept creates no coin but the subsidy, and each coin
  it spends was spent by a script that the engine accepted. Below the height of BIP0034 both need that no transaction
  spends an output of a later one: a block that does so passes the checks, and the cache then fails half way through it.
\<close>

lemma good_ordered: "ordered chain_crypto good_txs"
  using sample_ops sample_distinct
  by (auto simp: ordered_def good_txs_def less_Suc_eq to_come_def out_of_def sample_txs base_op_def not_base sample_hashes
      dest!: out_ops_hash)

lemma good_inputs: "\<forall>tx\<in>set (block_txs (block_of good_txs)). \<forall>op\<in>set (inputs tx). length (op_Hash op) = 32"
  using sample_ops by (simp add: block_of_def good_txs_def sample_txs chain_crypto_laws zeroHash_def)

lemma rich_coins:
  "good_coins (cache_coins chain_crypto id rich_cache)" "money (cache_coins chain_crypto id rich_cache) = 1000"
  by (simp_all add: rich_cache_law(3) good_coins_def money_def coin_def)

lemma rich_chain_simps: "chain_utxoCache rich_chain = rich_cache" "chainParams rich_chain = MainNetParams" "checkpoints rich_chain = []"
    "entries tip_view = Map.empty" "block_txs (block_of T) = T"
  by (simp_all add: rich_chain_def tip_view_def SetBestHash_def NewUtxoViewpoint_def block_of_def)

lemma good_order:
  "if \<not> isBIP0030Node (node_of good_txs) \<and> height (node_of good_txs) < BIP0034Height (chainParams rich_chain)
    then ordered chain_crypto (block_txs (block_of good_txs))
    else \<forall>op\<in>to_come chain_crypto (block_txs (block_of good_txs)). cache_coins chain_crypto id (chain_utxoCache rich_chain) op = None"
  using good_ordered by (simp add: rich_chain_simps sample_node MainNetParams_def)

lemmas good_premises = sample_sanity [of good_txs, OF disjI1 [OF refl]] rich_chain_simps(4) good_inputs good_order

text \<open>C1: A block that passes the checks of sanity and connection creates no money but the subsidy. Every transaction in it
  finds the coins it spends in the ledger that the transactions before it leave, no coin is spent twice, and the coins
  after the block are worth at most the coins before it and the subsidy of its height, with no overflow of a sum. For
  heights at which the rule of BIP0030 is checked, the order of the transactions is a hypothesis: no input names an
  output of its own or of a later transaction. At other heights, that none of the outputs the block creates is among the
  coins yet is a hypothesis: there the code does not check it.\<close>

theorem block_creates_no_money:
  assumes "checkBlockSanity c block powLimit now fl = Some (Inr ())"
    and "checkConnectBlock c ser bad order node block (view, Some []) b = Inr ((view', stxos'), b')"
    and "entries view = Map.empty" "cache_inv c ser (chain_utxoCache b)" "\<forall>tx. length (TxHash c tx) = 32"
    and "\<forall>tx\<in>set (block_txs block). \<forall>op\<in>set (inputs tx). length (op_Hash op) = 32"
    and "if \<not> isBIP0030Node node \<and> height node < BIP0034Height (chainParams b) then ordered c (block_txs block)
      else \<forall>op\<in>to_come c (block_txs block). cache_coins c ser (chain_utxoCache b) op = None"
    and "C = cache_coins c ser (chain_utxoCache b)" "good_coins C"
  shows "can_connect c (height node) (block_txs block) C
    \<and> money (ledger_block c (height node) (block_txs block) C) \<le> money C + CalcBlockSubsidy (height node) (chainParams b)
    \<and> stxos' = Some (block_spends c (height node) (block_txs block) C) \<and> cache_coins c ser (chain_utxoCache b') = C"
proof -
  let ?T = "block_txs block"
  note sane = checkBlockSanity_law [OF assms(1)]
  obtain v1 F v2 segwit b1 where v1: "agrees c ?T v1 C" "unborn c ?T v1"
    and fees: "connect_fees c (height node) (chainParams b) ?T 0 (v1, Some []) = Inr (F, v2, stxos')"
    and cb: "sum_outs (MsgTxOut (hd ?T)) \<le> i64 (CalcBlockSubsidy (height node) (chainParams b) + F)"
    and keep: "cache_coins c ser (chain_utxoCache b') = C"
    using accepted_block [OF assms(1-7)] assms(8) by metis
  have law: "can_connect c (height node) ?T C" "stxos' = Some (block_spends c (height node) ?T C)" "is_i64 F" "0 \<le> F"
      "money (ledger_block c (height node) ?T C) + F \<le> money C + (\<Sum>tx\<leftarrow>?T. if IsCoinBaseTx tx then amounts (MsgTxOut tx) else 0)"
    using connect_fees_law [OF fees v1 sane(5,4) assms(9)] by (simp_all add: is_i64_def fold_append_stxo)
  obtain t ts where T: "?T = t # ts" using sane(1) by (cases ?T) auto
  have "\<forall>tx\<in>set ts. \<not> IsCoinBaseTx tx" using sane(3) by (simp add: T)
  then have "(\<Sum>tx\<leftarrow>ts. if IsCoinBaseTx tx then amounts (MsgTxOut tx) else 0) = 0" by (induction ts) auto
  with sane(2) have sum: "(\<Sum>tx\<leftarrow>?T. if IsCoinBaseTx tx then amounts (MsgTxOut tx) else 0) = amounts (MsgTxOut t)" by (simp add: T)
  let ?S = "CalcBlockSubsidy (height node) (chainParams b)"
  have "sane t" using sane(4) by (simp add: T)
  with cb have out: "amounts (MsgTxOut t) \<le> i64 (?S + F)" "0 \<le> amounts (MsgTxOut t)" by (simp_all add: T sane_sums)
  have "0 \<le> ?S" "?S \<le> MaxSatoshi"
    using CalcBlockSubsidy_range [of "height node" "chainParams b"] by (auto simp: MaxSatoshi_eq)
  then have "i64 (?S + F) \<le> ?S + F" using i64_le [of F ?S] law(3,4) by (simp add: add.commute)
  with out(1) law(1,2,5) sum keep show ?thesis by simp
qed

theorem block_creates_no_money_witness:
  "can_connect chain_crypto 1 good_txs (cache_coins chain_crypto id rich_cache)
    \<and> money (ledger_block chain_crypto 1 good_txs (cache_coins chain_crypto id rich_cache)) \<le> 5000001000"
proof -
  obtain v2 st s1 where con: "checkConnectBlock chain_crypto id 0 id (node_of good_txs) (block_of good_txs) (tip_view, Some []) rich_chain
      = Inr ((SetBestHash (node_hash (node_of good_txs)) v2, st), rich_chain\<lparr>chain_utxoCache := s1\<rparr>)"
    using good_connects by blast
  have "CalcBlockSubsidy 1 MainNetParams = 5000000000" using main_subsidy [of 1] by simp
  with block_creates_no_money [OF good_premises(1) con good_premises(2) _ _ good_premises(3,4) refl] rich_cache_law(1) rich_coins
  show ?thesis by (simp add: rich_chain_simps sample_node chain_crypto_laws)
qed

section \<open>Authorised spends\<close>

text \<open>C2: Every coin that a block spends is spent by a script that ran to success. When no checkpoint vouches for the block,
  each input of each of its transactions names a coin of the ledger that the transactions before it leave, mature if it
  is a coinbase, and the engine has accepted the input for the script and the amount of this coin, with at least the
  flags of the block, in whatever order the handlers have run. The hypotheses on the order of the spends or on new outputs
  are those of the money that a block creates, and inputs whose outpoint has the index \<open>0xffffffff\<close>, for which no
  script is run, are left out.\<close>

theorem spent_coins_are_authorised:
  assumes "checkBlockSanity c block powLimit now fl = Some (Inr ())"
    and "checkConnectBlock c ser bad order node block (view, stxos) b = Inr ((view', stxos'), b')"
    and "entries view = Map.empty" "cache_inv c ser (chain_utxoCache b)" "\<forall>tx. length (TxHash c tx) = 32"
    and "\<forall>tx\<in>set (block_txs block). \<forall>op\<in>set (inputs tx). length (op_Hash op) = 32"
    and "if \<not> isBIP0030Node node \<and> height node < BIP0034Height (chainParams b) then ordered c (block_txs block)
      else \<forall>op\<in>to_come c (block_txs block). cache_coins c ser (chain_utxoCache b) op = None"
    and "checkpoints b = []" "\<forall>xs. set (order xs) = set xs"
    and "0 < k" "k < length (block_txs block)" "tx = block_txs block ! k" "i < length (MsgTxIn tx)"
    and "op = PreviousOutPoint (MsgTxIn tx ! i)" "op_Index op \<noteq> 0xffffffff"
  shows "\<exists>x f sc hashes prevOuts vm vm'.
      ledger_block c (height node) (take k (block_txs block)) (cache_coins c ser (chain_utxoCache b)) op = Some x
    \<and> (stxo_IsCoinBase x \<longrightarrow> uint (CoinbaseMaturity (chainParams b)) \<le> i32 (height node - stxo_Height x))
    \<and> f AND base_flags (chainParams b) node (Header (msgBlock block)) = base_flags (chainParams b) node (Header (msgBlock block))
    \<and> NewEngine (stxo_PkScript x) tx (int i) f sc hashes (Amount x) prevOuts = Inr vm \<and> Execute c vm = Inr vm'"
proof -
  let ?T = "block_txs block" and ?C = "cache_coins c ser (chain_utxoCache b)"
  note sane = checkBlockSanity_law [OF assms(1)]
  obtain v1 F v2 segwit b1 where v1: "agrees c ?T v1 ?C" "unborn c ?T v1"
    and fees: "connect_fees c (height node) (chainParams b) ?T 0 (v1, stxos) = Inr (F, v2, stxos')"
    and scr: "connect_scripts c order node block segwit v2 b1 = Inr b'" "checkpoints b1 = checkpoints b" "chainParams b1 = chainParams b"
    using accepted_block [OF assms(1-7)] by metis
  have mem: "tx \<in> set ?T" using assms(11,12) by simp
  have "tx \<in> set (tl ?T)" using assms(10-12) by (cases ?T) (auto simp: nth_Cons' split: if_split_asm)
  then have "\<not> IsCoinBaseTx (?T ! k)" using sane(3) assms(12) by blast
  moreover have "op \<in> set (inputs (?T ! k))" using assms(12-14) by (auto simp: inputs_def)
  ultimately obtain x where x: "ledger_block c (height node) (take k ?T) ?C op = Some x" "entry_shows v2 op x"
      "stxo_IsCoinBase x \<longrightarrow> uint (CoinbaseMaturity (chainParams b)) \<le> i32 (height node - stxo_Height x)"
    using spent_shows [OF fees v1 sane(5,4) assms(11)] by blast
  obtain f st st' where f: "f AND base_flags (chainParams b) node (Header (msgBlock block)) = base_flags (chainParams b) node (Header (msgBlock block))"
      "checkBlockScripts c order block v2 f st = Inr st'"
    using connect_scripts_cases(2) [OF scr(1)] assms(8) scr(2,3) by auto
  from checked_script [OF f(2) assms(9) mem assms(13)] assms(14,15) x(2) f(1) x(1,3) show ?thesis by blast
qed

theorem spent_coins_are_authorised_witness:
  "\<exists>f sc hashes prevOuts vm vm'. NewEngine anyone spend_base 0 f sc hashes 1000 prevOuts = Inr vm \<and> Execute chain_crypto vm = Inr vm'"
proof -
  obtain v2 st s1 where con: "checkConnectBlock chain_crypto id 0 id (node_of good_txs) (block_of good_txs) (tip_view, Some []) rich_chain
      = Inr ((SetBestHash (node_hash (node_of good_txs)) v2, st), rich_chain\<lparr>chain_utxoCache := s1\<rparr>)"
    using good_connects by blast
  have tx: "good_txs ! 1 = spend_base" "MsgTxIn spend_base ! 0 = \<lparr>PreviousOutPoint = base_op, SignatureScript = [], Witness = [], Sequence = 0xffffffff\<rparr>"
    "length (MsgTxIn spend_base) = 1" by (simp_all add: good_txs_def spend_base_def pay_facts)
  have "base_op \<notin> out_ops chain_crypto reward"
    by (auto simp: base_op_def not_base sample_hashes dest!: out_ops_hash)
  then have "ledger_block chain_crypto 1 (take 1 good_txs) (cache_coins chain_crypto id rich_cache) base_op
      = Some (coin \<lparr>Value = 1000, PkScript = anyone\<rparr> False 1)"
    by (simp add: good_txs_def ledger_block_def ledger_tx_apply sample_txs rich_cache_law(3))
  with spent_coins_are_authorised [OF good_premises(1) con good_premises(2) _ _ good_premises(3,4), of 1 spend_base 0 base_op] tx
    rich_cache_law(1) show ?thesis
    by (auto simp: rich_chain_simps sample_node chain_crypto_laws good_txs_def sample_ops coin_def) blast
qed


section \<open>Outputs that are spent too early\<close>

lemma early_cache:
  "cache_connectTransactions chain_crypto id 0 (block_of early_txs) (rich_cache, Some []) = Inl AssertError"
proof -
  let ?op = "out_of spend_base 0"
  let ?s = "cache_addTxOuts 0 chain_crypto reward 1 rich_cache"
  have hash: "length (op_Hash base_op) = 32" by (simp add: base_op_def)
  have outs: "?s = cache_addTxOut 0 (out_of reward 0) \<lparr>Value = 5000000000, PkScript = anyone\<rparr> True 1 rich_cache"
    by (simp add: cache_addTxOuts_def add_outs_def out_of_def sample_txs) (simp add: reward_def pay_facts)
  have may: "cache_may_add rich_cache (out_of reward 0)"
    by (simp add: cache_may_add_def sample_ops chain_crypto_laws rich_cache_def cache_addTxOut_def anyone_facts empty_cache_coins)
  have "cache_inv chain_crypto id ?s"
    using cache.add [OF rich_cache_law(1) may] by (simp add: outs anyone_facts)
  moreover have "entry_for chain_crypto id ?s ?op = None"
    using rich_cache_law(2) [of ?op] sample_ops(4) [of 0, symmetric] sample_distinct
    by (simp add: outs entry_for_def cache_addTxOut_def anyone_facts sample_ops(1) cong: option.case_cong)
  ultimately obtain s' where "fetchEntries chain_crypto id 0 [?op] ?s = Inr ([None], s')"
    using fetch_many [of chain_crypto id ?s "[?op]" 0] sample_ops by auto
  moreover have "MsgTxIn spend_early = [\<lparr>PreviousOutPoint = ?op, SignatureScript = [], Witness = [], Sequence = 0xffffffff\<rparr>]"
    by (simp add: spend_early_def pay_facts)
  ultimately show ?thesis
    by (simp add: cache_connectTransactions_def rich_chain_simps early_txs_def cache_connectTransaction_def addTxIns_def sample_txs
      addTxIn_def) (simp add: block_of_def)
qed

text \<open>C28: A block may spend an output before it exists. At height 1 of the main net, with one coin in the cache, the block
  whose second transaction spends the first output of its third one passes the check of sanity and the check of the
  connection, and the view it leaves has both the new coin and the one that was spent for it, although no ledger can
  connect it: the check for BIP0030 leaves nil entries for all outputs of the block in the view, an input that names
  one of them is then not loaded, and the input of the fourth transaction adds all outputs of the third before the
  second is looked at. The cache refuses the block only when the coinbase is already in it.\<close>

theorem early_spend_passes_checks:
  "checkBlockSanity chain_crypto (block_of early_txs) (PowLimit MainNetParams) (time_Unix 1700000000) BFNoPoWCheck = Some (Inr ())
    \<and> (\<exists>view stxos b. checkConnectBlock chain_crypto id 0 id (node_of early_txs) (block_of early_txs) (tip_view, Some []) rich_chain
          = Inr ((view, stxos), b)
        \<and> view_coins Map.empty view (out_of spend_early 0) \<noteq> None \<and> view_coins Map.empty view (out_of spend_base 0) \<noteq> None)
    \<and> \<not> can_connect chain_crypto 1 early_txs (cache_coins chain_crypto id (chain_utxoCache rich_chain))
    \<and> cache_connectTransactions chain_crypto id 0 (block_of early_txs) (chain_utxoCache rich_chain, Some []) = Inl AssertError"
proof -
  have "out_of spend_base 0 \<notin> out_ops chain_crypto reward"
    using sample_distinct by (auto simp: sample_ops dest!: out_ops_hash)
  then have "ledger_tx chain_crypto 1 reward [base_op \<mapsto> x] (out_of spend_base 0) = None" for x
    using sample_ops(4) [of 0] by (auto simp: ledger_tx_apply sample_txs)
  then have "\<not> can_connect chain_crypto 1 early_txs (cache_coins chain_crypto id rich_cache)"
    by (simp add: early_txs_def sample_txs rich_cache_law(3))
  moreover have "view_coins L (SetBestHash H view) = view_coins L view" for L H view
    by (simp add: view_coins_def SetBestHash_def LookupEntry_def fun_eq_iff)
  ultimately show ?thesis
    using early_connects early_cache sample_sanity [of early_txs] unfolding rich_chain_simps by fastforce
qed

end
