(* ===== verification/Db_Store.thy ===== *)
theory Db_Store
  imports Squid_Prelude
begin

text \<open>
  The treaps in which the database keeps writes that are not on disk yet (\<open>btcd/database/internal/treap\<close>: \<open>common.go\<close>,
  \<open>mutable.go\<close>, \<open>immutable.go\<close>, \<open>treapiter.go\<close>). Nodes are shared between versions of an immutable treap and changed
  in place, so a pointer is an address of an explicit store. A loop that follows pointers is a partial function:
  \<open>None\<close> means that it does not end, or that a nil pointer is dereferenced. The random priority of a new node is an
  argument. Keys are not nil; a value may be nil when it is put.
\<close>

section \<open>Nodes\<close>

type_synonym addr = nat

record treapNode =
  tn_key :: bytes
  tn_value :: bytes
  tn_priority :: int
  tn_left :: "addr option"
  tn_right :: "addr option"

text \<open>The store of nodes, with the next address that has not been handed out.\<close>

record store =
  node_at :: "addr \<Rightarrow> treapNode"
  next_addr :: addr

definition staticDepth :: nat where "staticDepth = 128"
definition nodeFieldsSize :: nat where "nodeFieldsSize = 72"

fun bytes_Compare :: "bytes \<Rightarrow> bytes \<Rightarrow> int" where
  "bytes_Compare [] [] = 0"
| "bytes_Compare [] (y # ys) = -1"
| "bytes_Compare (x # xs) [] = 1"
| "bytes_Compare (x # xs) (y # ys) = (if x < y then -1 else if y < x then 1 else bytes_Compare xs ys)"

definition node_size :: "treapNode \<Rightarrow> nat" where
  "node_size n = nodeFieldsSize + (length (tn_key n) + length (tn_value n))"

definition nodeSize :: "addr \<Rightarrow> store \<Rightarrow> 64 word" where
  "nodeSize a h = of_nat (node_size (node_at h a))"

definition new_node :: "treapNode \<Rightarrow> store \<Rightarrow> addr \<times> store" where
  "new_node n h = (next_addr h, h\<lparr>node_at := (node_at h)(next_addr h := n), next_addr := Suc (next_addr h)\<rparr>)"

definition newTreapNode :: "bytes \<Rightarrow> bytes \<Rightarrow> int \<Rightarrow> store \<Rightarrow> addr \<times> store" where
  "newTreapNode key val prio h = new_node \<lparr>tn_key = key, tn_value = val, tn_priority = prio, tn_left = None, tn_right = None\<rparr> h"

definition cloneTreapNode :: "addr \<Rightarrow> store \<Rightarrow> addr \<times> store" where
  "cloneTreapNode node h = new_node (node_at h node) h"

definition set_left :: "addr \<Rightarrow> addr option \<Rightarrow> store \<Rightarrow> store" where
  "set_left a p h = h\<lparr>node_at := (node_at h)(a := (node_at h a)\<lparr>tn_left := p\<rparr>)\<rparr>"

definition set_right :: "addr \<Rightarrow> addr option \<Rightarrow> store \<Rightarrow> store" where
  "set_right a p h = h\<lparr>node_at := (node_at h)(a := (node_at h a)\<lparr>tn_right := p\<rparr>)\<rparr>"

definition set_value :: "addr \<Rightarrow> bytes \<Rightarrow> store \<Rightarrow> store" where
  "set_value a v h = h\<lparr>node_at := (node_at h)(a := (node_at h a)\<lparr>tn_value := v\<rparr>)\<rparr>"

abbreviation left_of :: "store \<Rightarrow> addr \<Rightarrow> addr option" where "left_of h a \<equiv> tn_left (node_at h a)"
abbreviation right_of :: "store \<Rightarrow> addr \<Rightarrow> addr option" where "right_of h a \<equiv> tn_right (node_at h a)"

section \<open>The stack of parents\<close>

text \<open>An array of fixed size with an overflow slice; its cells are read below the index only, where they exist.\<close>

record parentStack =
  ps_index :: nat
  ps_items :: "addr option list"
  ps_overflow :: "addr option list"

definition empty_stack :: parentStack where
  "empty_stack = \<lparr>ps_index = 0, ps_items = replicate staticDepth None, ps_overflow = []\<rparr>"

definition ps_At :: "parentStack \<Rightarrow> int \<Rightarrow> addr option" where
  "ps_At s n =
     (let index = int (ps_index s) - n - 1 in
      if index < 0 then None
      else if index < int staticDepth then ps_items s ! nat index
      else ps_overflow s ! (nat index - staticDepth))"

definition ps_Pop :: "parentStack \<Rightarrow> addr option \<times> parentStack" where
  "ps_Pop s =
     (if ps_index s = 0 then (None, s)
      else let index = ps_index s - 1 in
        if index < staticDepth
        then (ps_items s ! index, s\<lparr>ps_index := index, ps_items := (ps_items s)[index := None]\<rparr>)
        else (ps_overflow s ! (index - staticDepth),
              s\<lparr>ps_index := index, ps_overflow := (ps_overflow s)[index - staticDepth := None]\<rparr>))"

definition ps_Push :: "addr \<Rightarrow> parentStack \<Rightarrow> parentStack" where
  "ps_Push node s =
     (if ps_index s < staticDepth
      then s\<lparr>ps_items := (ps_items s)[ps_index s := Some node], ps_index := ps_index s + 1\<rparr>
      else let index = ps_index s - staticDepth;
               overflow = (if index + 1 > length (ps_overflow s)
                           then ps_overflow s @ replicate (index + 1 - length (ps_overflow s)) None
                           else ps_overflow s)
           in s\<lparr>ps_overflow := overflow[index := Some node], ps_index := ps_index s + 1\<rparr>)"

section \<open>Searching\<close>

text \<open>The loop of \<open>get\<close> of an immutable treap, and of a mutable one, which also returns the parent.\<close>

partial_function (option) im_get :: "addr option \<Rightarrow> bytes \<Rightarrow> store \<Rightarrow> addr option option" where
  "im_get node key h =
     (case node of
        None \<Rightarrow> Some None
      | Some n \<Rightarrow>
          let compareResult = bytes_Compare key (tn_key (node_at h n)) in
          if compareResult < 0 then im_get (left_of h n) key h
          else if compareResult > 0 then im_get (right_of h n) key h
          else Some (Some n))"

partial_function (option) mu_get :: "addr option \<Rightarrow> addr option \<Rightarrow> bytes \<Rightarrow> store \<Rightarrow> (addr option \<times> addr option) option" where
  "mu_get node parent key h =
     (case node of
        None \<Rightarrow> Some (None, None)
      | Some n \<Rightarrow>
          let compareResult = bytes_Compare key (tn_key (node_at h n)) in
          if compareResult < 0 then mu_get (left_of h n) (Some n) key h
          else if compareResult > 0 then mu_get (right_of h n) (Some n) key h
          else Some (Some n, parent))"

text \<open>The loop that remembers the path: in \<open>Delete\<close> of an immutable treap and in \<open>Put\<close> of a mutable one. It returns the
  node with the key, the parents with this node on top, and the last result of a comparison.\<close>

partial_function (option) find_path :: "addr option \<Rightarrow> bytes \<Rightarrow> parentStack \<Rightarrow> int \<Rightarrow> store \<Rightarrow> (addr option \<times> parentStack \<times> int) option" where
  "find_path node key parents compareResult h =
     (case node of
        None \<Rightarrow> Some (None, parents, compareResult)
      | Some n \<Rightarrow>
          let parents = ps_Push n parents; compareResult = bytes_Compare key (tn_key (node_at h n)) in
          if compareResult < 0 then find_path (left_of h n) key parents compareResult h
          else if compareResult > 0 then find_path (right_of h n) key parents compareResult h
          else Some (Some n, parents, compareResult))"

text \<open>A node of the path is cloned, linked from the copy of its parent, and becomes the top of the stack.\<close>

definition clone_step :: "addr \<Rightarrow> parentStack \<Rightarrow> store \<Rightarrow> parentStack \<times> store" where
  "clone_step node parents h =
     (let (nodeCopy, h) = cloneTreapNode node h;
          h = (case ps_At parents 0 of
                 None \<Rightarrow> h
               | Some oldParent \<Rightarrow>
                   if left_of h oldParent = Some node then set_left oldParent (Some nodeCopy) h
                   else set_right oldParent (Some nodeCopy) h)
      in (ps_Push nodeCopy parents, h))"

text \<open>The loop of \<open>Put\<close> of an immutable treap.\<close>

partial_function (option) clone_path :: "addr option \<Rightarrow> bytes \<Rightarrow> parentStack \<Rightarrow> int \<Rightarrow> store \<Rightarrow> (addr option \<times> parentStack \<times> int \<times> store) option" where
  "clone_path node key parents compareResult h =
     (case node of
        None \<Rightarrow> Some (None, parents, compareResult, h)
      | Some n \<Rightarrow>
          let (parents, h) = clone_step n parents h; compareResult = bytes_Compare key (tn_key (node_at h n)) in
          if compareResult < 0 then clone_path (left_of h n) key parents compareResult h
          else if compareResult > 0 then clone_path (right_of h n) key parents compareResult h
          else Some (Some n, parents, compareResult, h))"

section \<open>Insertion\<close>

text \<open>The parent of a rotated node is relinked. The immutable treap keeps the new root in a variable.\<close>

definition relinkGrandparent :: "addr \<Rightarrow> addr \<Rightarrow> addr option \<Rightarrow> addr option \<times> store \<Rightarrow> addr option \<times> store" where
  "relinkGrandparent node parent grandparent rh =
     (let (root, h) = rh in
      case grandparent of
        None \<Rightarrow> (Some node, h)
      | Some g \<Rightarrow> (root, if left_of h g = Some parent then set_left g (Some node) h else set_right g (Some node) h))"

lemma ps_Pop_index: "ps_Pop s = (x, s') \<Longrightarrow> 0 < ps_index s \<Longrightarrow> ps_index s' < ps_index s"
  by (auto simp: ps_Pop_def Let_def split: if_split_asm)

text \<open>A new node is rotated up while its priority is smaller than that of its parent.\<close>

function put_rotations :: "addr \<Rightarrow> parentStack \<Rightarrow> addr option \<times> store \<Rightarrow> (addr option \<times> store) option" where
  "put_rotations node parents rh =
     (if ps_index parents = 0 then Some rh
      else case ps_Pop parents of
        (None, parents) \<Rightarrow> None
      | (Some parent, parents) \<Rightarrow>
          let (root, h) = rh in
          if tn_priority (node_at h node) \<ge> tn_priority (node_at h parent) then Some (root, h)
          else let h = (if left_of h parent = Some node
                        then let r = right_of h node in set_left parent r (set_right node (Some parent) h)
                        else let l = left_of h node in set_right parent l (set_left node (Some parent) h))
               in put_rotations node parents (relinkGrandparent node parent (ps_At parents 0) (root, h)))"
  by auto
termination
  by (relation "measure (\<lambda>(_, parents, _). ps_index parents)") (auto dest: ps_Pop_index [OF sym])

record Immutable =
  im_root :: "addr option"
  im_count :: int
  im_totalSize :: "64 word"

definition NewImmutable :: Immutable where
  "NewImmutable = \<lparr>im_root = None, im_count = 0, im_totalSize = 0\<rparr>"

definition im_Has :: "bytes \<Rightarrow> Immutable \<Rightarrow> store \<Rightarrow> bool option" where
  "im_Has key t h = map_option (\<lambda>node. node \<noteq> None) (im_get (im_root t) key h)"

definition im_Get :: "bytes \<Rightarrow> Immutable \<Rightarrow> store \<Rightarrow> bytes option option" where
  "im_Get key t h = map_option (map_option (\<lambda>a. tn_value (node_at h a))) (im_get (im_root t) key h)"

abbreviation or_empty :: "bytes option \<Rightarrow> bytes" where
  "or_empty val \<equiv> (case val of None \<Rightarrow> [] | Some v \<Rightarrow> v)"

definition im_Put :: "bytes \<Rightarrow> bytes option \<Rightarrow> int \<Rightarrow> Immutable \<Rightarrow> store \<Rightarrow> (Immutable \<times> store) option" where
  "im_Put key val rnd t h =
     (let val = or_empty val in
      if im_root t = None
      then let (root, h) = newTreapNode key val rnd h in
           Some (\<lparr>im_root = Some root, im_count = 1, im_totalSize = nodeSize root h\<rparr>, h)
      else Option.bind (clone_path (im_root t) key empty_stack 0 h) (\<lambda>(found, parents, compareResult, h).
        let newRoot = ps_At parents (int (ps_index parents) - 1) in
        case found of
          Some node \<Rightarrow>
            Option.bind (ps_At parents 0) (\<lambda>nodeCopy.
              let h = set_value nodeCopy val h in
              Some (\<lparr>im_root = newRoot, im_count = im_count t,
                     im_totalSize = im_totalSize t - of_nat (length (tn_value (node_at h node))) + of_nat (length val)\<rparr>, h))
        | None \<Rightarrow>
            let (node, h) = newTreapNode key val rnd h in
            Option.bind (ps_At parents 0) (\<lambda>parent.
              let h = (if compareResult < 0 then set_left parent (Some node) h else set_right parent (Some node) h) in
              Option.bind (put_rotations node parents (newRoot, h)) (\<lambda>(newRoot, h).
                Some (\<lparr>im_root = newRoot, im_count = im_count t + 1, im_totalSize = im_totalSize t + nodeSize node h\<rparr>, h)))))"

record Mutable =
  mu_root :: "addr option"
  mu_count :: int
  mu_totalSize :: "64 word"

definition NewMutable :: Mutable where
  "NewMutable = \<lparr>mu_root = None, mu_count = 0, mu_totalSize = 0\<rparr>"

definition mu_Reset :: "Mutable \<Rightarrow> Mutable" where
  "mu_Reset t = t\<lparr>mu_count := 0, mu_totalSize := 0, mu_root := None\<rparr>"

definition mu_Has :: "bytes \<Rightarrow> Mutable \<Rightarrow> store \<Rightarrow> bool option" where
  "mu_Has key t h = map_option (\<lambda>(node, _). node \<noteq> None) (mu_get (mu_root t) None key h)"

definition mu_Get :: "bytes \<Rightarrow> Mutable \<Rightarrow> store \<Rightarrow> bytes option option" where
  "mu_Get key t h = map_option (\<lambda>(node, _). map_option (\<lambda>a. tn_value (node_at h a)) node) (mu_get (mu_root t) None key h)"

definition mu_Put :: "bytes \<Rightarrow> bytes option \<Rightarrow> int \<Rightarrow> Mutable \<Rightarrow> store \<Rightarrow> (Mutable \<times> store) option" where
  "mu_Put key val rnd t h =
     (let val = or_empty val in
      if mu_root t = None
      then let (node, h) = newTreapNode key val rnd h in
           Some (t\<lparr>mu_count := 1, mu_totalSize := nodeSize node h, mu_root := Some node\<rparr>, h)
      else Option.bind (find_path (mu_root t) key empty_stack 0 h) (\<lambda>(found, parents, compareResult).
        case found of
          Some node \<Rightarrow>
            Some (t\<lparr>mu_totalSize := mu_totalSize t - of_nat (length (tn_value (node_at h node))) + of_nat (length val)\<rparr>, set_value node val h)
        | None \<Rightarrow>
            let (node, h) = newTreapNode key val rnd h in
            Option.bind (ps_At parents 0) (\<lambda>parent.
              let size = nodeSize node h;
                  h = (if compareResult < 0 then set_left parent (Some node) h else set_right parent (Some node) h) in
              Option.bind (put_rotations node parents (mu_root t, h)) (\<lambda>(root, h).
                Some (\<lparr>mu_root = root, mu_count = mu_count t + 1, mu_totalSize = mu_totalSize t + size\<rparr>, h)))))"

section \<open>Deletion\<close>

text \<open>The child that takes the place of the node, and whether it is the left one.\<close>

definition choose_child :: "addr \<Rightarrow> store \<Rightarrow> (addr \<times> bool) option" where
  "choose_child node h =
     (case (left_of h node, right_of h node) of
        (None, None) \<Rightarrow> None
      | (None, Some r) \<Rightarrow> Some (r, False)
      | (Some l, None) \<Rightarrow> Some (l, True)
      | (Some l, Some r) \<Rightarrow> if tn_priority (node_at h l) \<ge> tn_priority (node_at h r) then Some (l, True) else Some (r, False))"

text \<open>The node is rotated down to a leaf. The immutable treap clones each child it moves (\<open>clones\<close>).\<close>

partial_function (option) sink :: "bool \<Rightarrow> addr \<Rightarrow> addr option \<Rightarrow> addr option \<times> store \<Rightarrow> (addr option \<times> addr option \<times> store) option" where
  "sink clones node parent rh =
     (let (root, h) = rh in
      case choose_child node h of
        None \<Rightarrow> Some (parent, root, h)
      | Some (child, isLeft) \<Rightarrow>
          let (child, h) = (if clones then cloneTreapNode child h else (child, h));
              h = (if isLeft
                   then let r = right_of h child in set_left node r (set_right child (Some node) h)
                   else let l = left_of h child in set_right node l (set_left child (Some node) h))
          in sink clones node (Some child) (relinkGrandparent child node parent (root, h)))"

definition unlink :: "addr \<Rightarrow> addr \<Rightarrow> store \<Rightarrow> store" where
  "unlink parent node h = (if right_of h parent = Some node then set_right parent None h else set_left parent None h)"

text \<open>The loop of \<open>Delete\<close> that clones the remembered path, from the root down.\<close>

fun clone_parents :: "nat \<Rightarrow> parentStack \<Rightarrow> parentStack \<Rightarrow> store \<Rightarrow> (parentStack \<times> store) option" where
  "clone_parents 0 parents newParents h = Some (newParents, h)"
| "clone_parents (Suc i) parents newParents h =
     Option.bind (ps_At parents (int i)) (\<lambda>node.
       let (newParents, h) = clone_step node newParents h in clone_parents i parents newParents h)"

definition im_Delete :: "bytes \<Rightarrow> Immutable \<Rightarrow> store \<Rightarrow> (Immutable \<times> store) option" where
  "im_Delete key t h =
     Option.bind (find_path (im_root t) key empty_stack 0 h) (\<lambda>(delNode, parents, _).
       case delNode of
         None \<Rightarrow> Some (t, h)
       | Some del \<Rightarrow>
           if ps_At parents 1 = None \<and> left_of h del = None \<and> right_of h del = None
           then Some (\<lparr>im_root = None, im_count = 0, im_totalSize = 0\<rparr>, h)
           else Option.bind (clone_parents (ps_index parents) parents empty_stack h) (\<lambda>(newParents, h).
             let (delNode, newParents) = ps_Pop newParents in
             Option.bind delNode (\<lambda>del.
             Option.bind (sink True del (ps_At newParents 0) (ps_At newParents (int (ps_index newParents) - 1), h)) (\<lambda>(parent, newRoot, h).
             Option.bind parent (\<lambda>parent.
               let h = unlink parent del h in
               Some (\<lparr>im_root = newRoot, im_count = im_count t - 1, im_totalSize = im_totalSize t - nodeSize del h\<rparr>, h))))))"

definition mu_Delete :: "bytes \<Rightarrow> Mutable \<Rightarrow> store \<Rightarrow> (Mutable \<times> store) option" where
  "mu_Delete key t h =
     Option.bind (mu_get (mu_root t) None key h) (\<lambda>(node, parent).
       case node of
         None \<Rightarrow> Some (t, h)
       | Some node \<Rightarrow>
           if parent = None \<and> left_of h node = None \<and> right_of h node = None
           then Some (t\<lparr>mu_root := None, mu_count := 0, mu_totalSize := 0\<rparr>, h)
           else Option.bind (sink False node parent (mu_root t, h)) (\<lambda>(parent, root, h).
             Option.bind parent (\<lambda>parent.
               let h = unlink parent node h in
               Some (\<lparr>mu_root = root, mu_count = mu_count t - 1, mu_totalSize = mu_totalSize t - nodeSize node h\<rparr>, h))))"

declare im_get.simps [code] mu_get.simps [code] find_path.simps [code] clone_path.simps [code] sink.simps [code]

end
