(* ===== verification/Db_Treap.thy ===== *)
theory Db_Treap
  imports Db_Store "HOL-Library.List_Lexorder" "HOL-Library.Multiset"
begin

text \<open>
  What the treaps of \<open>Db_Store\<close> do. A store represents a tree (\<open>holds\<close>), a path in it a list of contexts (\<open>path_holds\<close>),
  and each loop moves a tree in its contexts (\<open>focus\<close>). Both kinds of treaps interpret the locale \<open>key_value_store\<close>:
  every operation ends, and does to the map of keys and values what its name says; an immutable treap leaves all nodes
  of earlier versions alone. Putting a key keeps the order of priorities, deleting one may break it.
\<close>

section \<open>The stack of parents is a stack\<close>

abbreviation cells :: "parentStack \<Rightarrow> addr option list" where
  "cells s \<equiv> ps_items s @ ps_overflow s"

text \<open>The stack \<open>s\<close> holds the list \<open>l\<close>, with its top first; the cells above the index are cleared.\<close>

definition is_stack :: "parentStack \<Rightarrow> addr list \<Rightarrow> bool" where
  "is_stack s l \<longleftrightarrow> length (ps_items s) = staticDepth \<and> ps_index s = length l
     \<and> (\<exists>n. cells s = map Some (rev l) @ replicate n None)"

lemma empty_stack_law [simp]: "is_stack empty_stack []"
  by (simp add: is_stack_def empty_stack_def)

lemma is_stack_index: "is_stack s l \<Longrightarrow> ps_index s = length l"
  by (simp add: is_stack_def)

lemma cell_at: "is_stack s l \<Longrightarrow> (if i < staticDepth then ps_items s ! i else ps_overflow s ! (i - staticDepth)) = cells s ! i"
  by (auto simp: is_stack_def nth_append)

lemma ps_At_law:
  assumes "is_stack s l"
  shows "n < length l \<Longrightarrow> ps_At s (int n) = Some (l ! n)" "l = [] \<Longrightarrow> ps_At s (int n) = None" "l = [] \<Longrightarrow> ps_At s (-1) = None"
    "length l \<le> n \<Longrightarrow> ps_At s (int n) = None"
proof -
  show "l = [] \<Longrightarrow> ps_At s (int n) = None" "length l \<le> n \<Longrightarrow> ps_At s (int n) = None"
    using assms by (simp_all add: ps_At_def is_stack_def)
  assume n: "n < length l"
  let ?i = "length l - Suc n"
  have i: "int (ps_index s) - int n - 1 = int ?i" using n is_stack_index [OF assms] by linarith
  obtain m where "cells s = map Some (rev l) @ replicate m None" using assms by (auto simp: is_stack_def)
  then have "cells s ! ?i = (map Some (rev l) @ replicate m None) ! ?i" by simp
  also have "\<dots> = Some (l ! n)" using n by (simp add: nth_append rev_nth)
  finally have "cells s ! ?i = Some (l ! n)" .
  then show "ps_At s (int n) = Some (l ! n)"
    using cell_at [OF assms, of ?i] unfolding ps_At_def Let_def i by (auto split: if_split_asm)
next
  assume l: "l = []"
  then have "ps_items s ! 0 = None" using assms by (auto simp: is_stack_def staticDepth_def nth_append append_eq_conv_conj)
  then show "ps_At s (-1) = None" using assms l by (simp add: ps_At_def is_stack_def staticDepth_def)
qed

lemma ps_Push_law [simp]:
  assumes "is_stack s l"
  shows "is_stack (ps_Push a s) (a # l)"
proof -
  obtain n where n: "cells s = map Some (rev l) @ replicate n None" "length (ps_items s) = staticDepth" "ps_index s = length l"
    using assms by (auto simp: is_stack_def)
  show ?thesis
  proof (cases "length l < staticDepth")
    case True
    have "length (cells s) = length l + n" using n(1) by simp
    then have "0 < n" using True n(2) by simp
    then obtain m where m: "n = Suc m" by (cases n) auto
    have "(ps_items s)[length l := Some a] @ ps_overflow s = (cells s)[length l := Some a]"
      using True n(2) by (simp add: list_update_append)
    also have "\<dots> = map Some (rev (a # l)) @ replicate m None" unfolding n(1) m by (simp add: list_update_append)
    finally show ?thesis using True n by (auto simp: is_stack_def ps_Push_def)
  next
    case False
    let ?i = "length l - staticDepth"
    let ?ov = "if ?i + 1 > length (ps_overflow s) then ps_overflow s @ replicate (?i + 1 - length (ps_overflow s)) None else ps_overflow s"
    obtain m where m: "ps_items s @ ?ov = map Some (rev l) @ replicate (Suc m) None"
    proof (cases "?i + 1 > length (ps_overflow s)")
      case True
      have "length (cells s) = length l + n" using n(1) by simp
      then have "length (ps_overflow s) = ?i" "n = 0" using True False n(2) by simp_all
      then show thesis using that [of 0] n(1) True by simp
    next
      case f: False
      have "length (cells s) = length l + n" using n(1) by simp
      then have "0 < n" using f False n(2) by simp
      then show thesis using that [of "n - 1"] n(1) f by simp
    qed
    have "ps_items s @ ?ov[?i := Some a] = (ps_items s @ ?ov)[length l := Some a]"
      using False n(2) by (simp add: list_update_append)
    also have "\<dots> = map Some (rev (a # l)) @ replicate m None" unfolding m by (simp add: list_update_append)
    finally show ?thesis using False n by (auto simp: is_stack_def ps_Push_def Let_def)
  qed
qed

lemma ps_Pop_law:
  assumes "is_stack s (a # l)"
  obtains s' where "ps_Pop s = (Some a, s')" "is_stack s' l"
proof -
  obtain n where n: "cells s = map Some (rev (a # l)) @ replicate n None" "length (ps_items s) = staticDepth" "ps_index s = Suc (length l)"
    using assms by (auto simp: is_stack_def)
  let ?i = "length l"
  have a: "cells s ! ?i = Some a" unfolding n(1) by (simp add: nth_append)
  have upd: "(cells s)[?i := None] = map Some (rev l) @ replicate (Suc n) None"
    unfolding n(1) by (simp add: list_update_append)
  show thesis
  proof (cases "?i < staticDepth")
    case True
    have "(ps_items s)[?i := None] @ ps_overflow s = (cells s)[?i := None]" using True n(2) by (simp add: list_update_append)
    then have "is_stack (s\<lparr>ps_index := ?i, ps_items := (ps_items s)[?i := None]\<rparr>) l"
      using n(2) unfolding upd is_stack_def by (auto intro!: exI [of _ "Suc n"])
    then show thesis using that True n(3) a cell_at [OF assms, of ?i] by (simp add: ps_Pop_def Let_def)
  next
    case False
    have "ps_items s @ (ps_overflow s)[?i - staticDepth := None] = (cells s)[?i := None]" using False n(2) by (simp add: list_update_append)
    then have "is_stack (s\<lparr>ps_index := ?i, ps_overflow := (ps_overflow s)[?i - staticDepth := None]\<rparr>) l"
      using n(2) unfolding upd is_stack_def by (auto intro!: exI [of _ "Suc n"])
    then show thesis using that False n(3) a cell_at [OF assms, of ?i] by (simp add: ps_Pop_def Let_def)
  qed
qed

lemma ps_Pop_empty: "is_stack s [] \<Longrightarrow> ps_Pop s = (None, s)"
  by (simp add: ps_Pop_def is_stack_def)

section \<open>Keys in order\<close>

lemma bytes_Compare_iff: "bytes_Compare a b < 0 \<longleftrightarrow> a < b" "bytes_Compare a b = 0 \<longleftrightarrow> a = b" "bytes_Compare a b > 0 \<longleftrightarrow> b < a"
  by (induction a b rule: bytes_Compare.induct) auto

section \<open>Trees and their contexts\<close>

text \<open>The trees that the store represents: a node has its address, key, value and priority.\<close>

datatype tree = Tip | Bin tree addr bytes bytes int tree

fun root_of :: "tree \<Rightarrow> addr option" where
  "root_of Tip = None"
| "root_of (Bin l a k v p r) = Some a"

fun addr_list :: "tree \<Rightarrow> addr list" where
  "addr_list Tip = []"
| "addr_list (Bin l a k v p r) = a # addr_list l @ addr_list r"

fun items :: "tree \<Rightarrow> (bytes \<times> bytes) list" where
  "items Tip = []"
| "items (Bin l a k v p r) = items l @ (k, v) # items r"

definition total_size :: "(bytes \<times> bytes) list \<Rightarrow> nat" where
  "total_size kvs = sum_list (map (\<lambda>(k, v). nodeFieldsSize + (length k + length v)) kvs)"

definition in_order :: "(bytes \<times> bytes) list \<Rightarrow> bool" where
  "in_order kvs \<longleftrightarrow> sorted_wrt (<) (map fst kvs)"

text \<open>No priority below a node is smaller than its own.\<close>

fun at_least :: "int \<Rightarrow> tree \<Rightarrow> bool" where
  "at_least q Tip \<longleftrightarrow> True"
| "at_least q (Bin l a k v p r) \<longleftrightarrow> q \<le> p \<and> at_least p l \<and> at_least p r"

fun min_heap :: "tree \<Rightarrow> bool" where
  "min_heap Tip \<longleftrightarrow> True"
| "min_heap (Bin l a k v p r) \<longleftrightarrow> at_least p l \<and> at_least p r"

lemma at_least_mono: "at_least q t \<Longrightarrow> q' \<le> q \<Longrightarrow> at_least q' t"
  by (cases t) auto

lemma at_least_min_heap: "at_least q t \<Longrightarrow> min_heap t"
  by (cases t) auto

fun holds :: "store \<Rightarrow> tree \<Rightarrow> bool" where
  "holds h Tip \<longleftrightarrow> True"
| "holds h (Bin l a k v p r) \<longleftrightarrow>
     node_at h a = \<lparr>tn_key = k, tn_value = v, tn_priority = p, tn_left = root_of l, tn_right = root_of r\<rparr> \<and> holds h l \<and> holds h r"

text \<open>One step up from a subtree: the hole is on the left or on the right.\<close>

datatype ctx = GoL addr bytes bytes int tree | GoR tree addr bytes bytes int

fun ctx_addr :: "ctx \<Rightarrow> addr" where
  "ctx_addr (GoL a k v p r) = a"
| "ctx_addr (GoR l a k v p) = a"

fun plug :: "tree \<Rightarrow> ctx list \<Rightarrow> tree" where
  "plug t [] = t"
| "plug t (GoL a k v p r # cs) = plug (Bin t a k v p r) cs"
| "plug t (GoR l a k v p # cs) = plug (Bin l a k v p t) cs"

fun path_addrs :: "ctx list \<Rightarrow> addr list" where
  "path_addrs [] = []"
| "path_addrs (GoL a k v p r # cs) = a # addr_list r @ path_addrs cs"
| "path_addrs (GoR l a k v p # cs) = a # addr_list l @ path_addrs cs"

fun before :: "ctx list \<Rightarrow> (bytes \<times> bytes) list" where
  "before [] = []"
| "before (GoL a k v p r # cs) = before cs"
| "before (GoR l a k v p # cs) = before cs @ items l @ [(k, v)]"

fun after :: "ctx list \<Rightarrow> (bytes \<times> bytes) list" where
  "after [] = []"
| "after (GoL a k v p r # cs) = (k, v) # items r @ after cs"
| "after (GoR l a k v p # cs) = after cs"

fun path_holds :: "store \<Rightarrow> addr option \<Rightarrow> ctx list \<Rightarrow> bool" where
  "path_holds h x [] \<longleftrightarrow> True"
| "path_holds h x (GoL a k v p r # cs) \<longleftrightarrow>
     node_at h a = \<lparr>tn_key = k, tn_value = v, tn_priority = p, tn_left = x, tn_right = root_of r\<rparr> \<and> holds h r \<and> path_holds h (Some a) cs"
| "path_holds h x (GoR l a k v p # cs) \<longleftrightarrow>
     node_at h a = \<lparr>tn_key = k, tn_value = v, tn_priority = p, tn_left = root_of l, tn_right = x\<rparr> \<and> holds h l \<and> path_holds h (Some a) cs"

fun side :: "bytes \<Rightarrow> ctx \<Rightarrow> bool" where
  "side key (GoL a k v p r) \<longleftrightarrow> key < k"
| "side key (GoR l a k v p) \<longleftrightarrow> k < key"

lemma items_plug [simp]: "items (plug t cs) = before cs @ items t @ after cs"
  by (induction t cs rule: plug.induct) simp_all

lemma mset_addr_plug: "mset (addr_list (plug t cs)) = mset (addr_list t @ path_addrs cs)"
  by (induction t cs rule: plug.induct) (simp_all add: ac_simps)

lemma distinct_addr_plug: "distinct (addr_list (plug t cs)) \<longleftrightarrow> distinct (addr_list t @ path_addrs cs)"
  by (rule mset_eq_imp_distinct_iff) (rule mset_addr_plug)

lemma set_addr_plug: "set (addr_list (plug t cs)) = set (addr_list t) \<union> set (path_addrs cs)"
  using arg_cong [OF mset_addr_plug [of t cs], of set_mset] by simp

lemma holds_plug: "holds h (plug t cs) \<longleftrightarrow> holds h t \<and> path_holds h (root_of t) cs"
  by (induction t cs rule: plug.induct) auto

lemma root_of_plug: "root_of (plug t cs) = (if cs = [] then root_of t else Some (ctx_addr (last cs)))"
  by (induction t cs rule: plug.induct) auto

lemma ctx_addr_path: "c \<in> set cs \<Longrightarrow> ctx_addr c \<in> set (path_addrs cs)"
  by (induction cs rule: path_addrs.induct) auto

lemma root_of_addr: "root_of t = Some a \<Longrightarrow> a \<in> set (addr_list t)"
  by (cases t) auto

lemma length_items: "length (items t) = length (addr_list t)"
  by (induction t) auto

text \<open>What is not changed stays.\<close>

lemma holds_frame: "holds h t \<Longrightarrow> \<forall>a\<in>set (addr_list t). node_at h' a = node_at h a \<Longrightarrow> holds h' t"
  by (induction t) auto

lemma path_holds_frame: "path_holds h x cs \<Longrightarrow> \<forall>a\<in>set (path_addrs cs). node_at h' a = node_at h a \<Longrightarrow> path_holds h' x cs"
  by (induction h x cs rule: path_holds.induct) (auto intro: holds_frame)

lemma sides:
  assumes "in_order (before cs @ after cs)" "list_all (side key) cs"
  shows "(\<forall>kv\<in>set (before cs). fst kv < key) \<and> (\<forall>kv\<in>set (after cs). key < fst kv)"
  using assms
proof (induction cs rule: before.induct)
  case (2 a k v p r cs)
  then have "in_order (before cs @ after cs)" by (auto simp: in_order_def sorted_wrt_append)
  moreover have "\<forall>kv\<in>set (items r). k < fst kv" using 2(2) by (auto simp: in_order_def sorted_wrt_append)
  ultimately show ?case using 2 by fastforce
next
  case (3 l a k v p cs)
  then have "in_order (before cs @ after cs)" by (auto simp: in_order_def sorted_wrt_append)
  moreover have "\<forall>kv\<in>set (items l). fst kv < k" using 3(2) by (auto simp: in_order_def sorted_wrt_append)
  ultimately show ?case using 3 by fastforce
qed simp

lemma map_of_sides:
  assumes "\<forall>kv\<in>set xs. fst kv < key" "\<forall>kv\<in>set ys. key < fst kv"
  shows "map_of (xs @ (key, v) # ys) = (map_of (xs @ ys))(key \<mapsto> v)" "map_of (xs @ ys) = (map_of (xs @ (key, v) # ys))(key := None)"
    "in_order (xs @ ys) \<Longrightarrow> in_order (xs @ (key, v) # ys)" "in_order (xs @ (key, v) # ys) \<Longrightarrow> in_order (xs @ ys)"
proof -
  have no: "map_of xs key = None" "map_of ys key = None" using assms by (force simp: map_of_eq_None_iff)+
  show "map_of (xs @ (key, v) # ys) = (map_of (xs @ ys))(key \<mapsto> v)" "map_of (xs @ ys) = (map_of (xs @ (key, v) # ys))(key := None)"
    using no by (auto simp: map_add_def fun_eq_iff split: option.split)
  show "in_order (xs @ ys) \<Longrightarrow> in_order (xs @ (key, v) # ys)" "in_order (xs @ (key, v) # ys) \<Longrightarrow> in_order (xs @ ys)"
    using assms by (auto simp: in_order_def sorted_wrt_append)
qed

section \<open>Rotations in the store\<close>

lemma store_simps [simp]:
  "node_at (set_left a x h) = (node_at h)(a := (node_at h a)\<lparr>tn_left := x\<rparr>)" "next_addr (set_left a x h) = next_addr h"
  "node_at (set_right a x h) = (node_at h)(a := (node_at h a)\<lparr>tn_right := x\<rparr>)" "next_addr (set_right a x h) = next_addr h"
  "node_at (set_value a v h) = (node_at h)(a := (node_at h a)\<lparr>tn_value := v\<rparr>)" "next_addr (set_value a v h) = next_addr h"
  by (simp_all add: set_left_def set_right_def set_value_def)

text \<open>A tree in its context, in a store that has handed out its addresses, each to one node.\<close>

definition focus :: "store \<Rightarrow> tree \<Rightarrow> ctx list \<Rightarrow> bool" where
  "focus h t cs \<longleftrightarrow> holds h t \<and> path_holds h (root_of t) cs \<and> distinct (addr_list t @ path_addrs cs)
     \<and> (\<forall>a\<in>set (addr_list t @ path_addrs cs). a < next_addr h)"

lemma focus_plug: "focus h (plug t cs) [] \<longleftrightarrow> focus h t cs"
  by (simp only: focus_def holds_plug distinct_addr_plug set_addr_plug set_append path_addrs.simps append_Nil2 path_holds.simps simp_thms conj_assoc)

abbreviation top_addr :: "ctx list \<Rightarrow> addr option" where
  "top_addr cs \<equiv> (case cs of [] \<Rightarrow> None | c # _ \<Rightarrow> Some (ctx_addr c))"

lemma stack_top: "is_stack s (map ctx_addr cs) \<Longrightarrow> ps_At s 0 = top_addr cs"
  using ps_At_law(1) [of s "map ctx_addr cs" 0] ps_At_law(2) [of s "map ctx_addr cs" 0] by (cases cs) auto

lemma relink_law:
  assumes "path_holds h (Some b) cs" "distinct (path_addrs cs)" "b \<notin> set (path_addrs cs)"
  shows "\<exists>h'. relinkGrandparent a b (top_addr cs) (root, h) = (if cs = [] then Some a else root, h') \<and> path_holds h' (Some a) cs
    \<and> next_addr h' = next_addr h \<and> (\<forall>x. x \<notin> ctx_addr ` set (take 1 cs) \<longrightarrow> node_at h' x = node_at h x)"
proof (cases cs)
  case (Cons c ds)
  show ?thesis
  proof (cases c)
    case (GoL g k v p r)
    let ?h = "set_left g (Some a) h"
    have "holds ?h r" by (rule holds_frame [of h]) (use assms Cons GoL in auto)
    moreover have "path_holds ?h (Some g) ds" by (rule path_holds_frame [of h]) (use assms Cons GoL in auto)
    ultimately show ?thesis using assms(1) by (auto simp: Cons GoL relinkGrandparent_def)
  next
    case (GoR l g k v p)
    let ?h = "set_right g (Some a) h"
    have "holds ?h l" by (rule holds_frame [of h]) (use assms Cons GoR in auto)
    moreover have "path_holds ?h (Some g) ds" by (rule path_holds_frame [of h]) (use assms Cons GoR in auto)
    moreover have "root_of l \<noteq> Some b" using assms(3) root_of_addr [of l b] by (auto simp: Cons GoR)
    ultimately show ?thesis using assms(1) by (auto simp: Cons GoR relinkGrandparent_def)
  qed
qed (simp add: relinkGrandparent_def)

text \<open>A rotated tree with its new root takes the place of the old root \<open>b\<close>.\<close>

lemma relink_focus:
  assumes "holds h t" "path_holds h (Some b) cs" "distinct (addr_list t @ path_addrs cs)" "\<forall>a\<in>set (addr_list t @ path_addrs cs). a < next_addr h"
    and "root_of t = Some a" "b \<notin> set (path_addrs cs)"
  obtains h' where "relinkGrandparent a b (top_addr cs) (root, h) = (if cs = [] then Some a else root, h')" "focus h' t cs"
    "next_addr h' = next_addr h" "\<forall>x. x \<notin> ctx_addr ` set cs \<longrightarrow> node_at h' x = node_at h x"
proof -
  obtain h' where h': "relinkGrandparent a b (top_addr cs) (root, h) = (if cs = [] then Some a else root, h')" "path_holds h' (Some a) cs"
      "next_addr h' = next_addr h" "\<forall>x. x \<notin> ctx_addr ` set (take 1 cs) \<longrightarrow> node_at h' x = node_at h x"
    using relink_law [of h b cs a root] assms by auto
  then have same: "\<forall>x. x \<notin> ctx_addr ` set cs \<longrightarrow> node_at h' x = node_at h x" by (auto dest: in_set_takeD)
  have "x \<notin> ctx_addr ` set cs" if "x \<in> set (addr_list t)" for x using assms(3) that ctx_addr_path [of _ cs] by auto
  then have "holds h' t" using same by (intro holds_frame [OF assms(1)]) blast
  then show thesis using that h' same assms(3-5) by (simp add: focus_def)
qed

fun up :: "tree \<Rightarrow> ctx list \<Rightarrow> tree" where
  "up (Bin l a k v p r) (GoL b k' v' q s # cs) =
     (if p \<ge> q then plug (Bin l a k v p r) (GoL b k' v' q s # cs) else up (Bin l a k v p (Bin r b k' v' q s)) cs)"
| "up (Bin l a k v p r) (GoR s b k' v' q # cs) =
     (if p \<ge> q then plug (Bin l a k v p r) (GoR s b k' v' q # cs) else up (Bin (Bin s b k' v' q l) a k v p r) cs)"
| "up t cs = plug t cs"

declare put_rotations.simps [simp del]

lemma put_rotations_law:
  assumes "focus h (Bin l a k v p r) cs" "is_stack parents (map ctx_addr cs)" "root = root_of (plug (Bin l a k v p r) cs)"
  shows "\<exists>h'. put_rotations a parents (root, h) = Some (root_of (up (Bin l a k v p r) cs), h') \<and> focus h' (up (Bin l a k v p r) cs) []
    \<and> next_addr h' = next_addr h \<and> (\<forall>x. x \<notin> insert a (ctx_addr ` set cs) \<longrightarrow> node_at h' x = node_at h x)
    \<and> node_size (node_at h' a) = nodeFieldsSize + (length k + length v)"
  using assms
proof (induction cs arbitrary: l r parents h root)
  case Nil
  then show ?case using is_stack_index [OF Nil(2)] by (auto simp: put_rotations.simps focus_def node_size_def)
next
  case (Cons c cs)
  let ?b = "ctx_addr c"
  obtain parents' where pop: "ps_Pop parents = (Some ?b, parents')" "is_stack parents' (map ctx_addr cs)"
    using ps_Pop_law Cons.prems(2) by (metis list.simps(9))
  have ne: "ps_index parents \<noteq> 0" using is_stack_index [OF Cons.prems(2)] by simp
  note foc = Cons.prems(1) [unfolded focus_def]
  show ?case
  proof (cases c)
    case c: (GoL b k' v' q s)
    show ?thesis
    proof (cases "p \<ge> q")
      case True
      then show ?thesis using Cons.prems pop ne foc focus_plug [of h "Bin l a k v p r" "c # cs"]
        by (auto simp: c put_rotations.simps [of a parents] node_size_def)
    next
      case False
      let ?h = "set_left b (root_of r) (set_right a (Some b) h)" and ?t = "Bin l a k v p (Bin r b k' v' q s)"
      have path: "path_holds ?h (Some b) cs" by (rule path_holds_frame [of h]) (use foc in \<open>auto simp: c\<close>)
      have hold: "holds ?h ?t" using foc by (auto simp: c intro!: holds_frame [of h _ ?h])
      have d: "distinct (addr_list ?t @ path_addrs cs)" "\<forall>x\<in>set (addr_list ?t @ path_addrs cs). x < next_addr ?h" "b \<notin> set (path_addrs cs)"
        using foc by (auto simp: c)
      obtain h1 where h1: "relinkGrandparent a b (top_addr cs) (root, ?h) = (if cs = [] then Some a else root, h1)" "focus h1 ?t cs"
          "next_addr h1 = next_addr ?h" "\<forall>x. x \<notin> ctx_addr ` set cs \<longrightarrow> node_at h1 x = node_at ?h x"
        by (rule relink_focus [OF hold path d(1,2) root_of.simps(2) d(3)])
      have rt: "(if cs = [] then Some a else root) = root_of (plug ?t cs)" using Cons.prems(3) by (simp add: root_of_plug c)
      obtain h' where "put_rotations a parents' (if cs = [] then Some a else root, h1) = Some (root_of (up ?t cs), h')"
          "focus h' (up ?t cs) []" "next_addr h' = next_addr h1" "\<forall>x. x \<notin> insert a (ctx_addr ` set cs) \<longrightarrow> node_at h' x = node_at h1 x"
          "node_size (node_at h' a) = nodeFieldsSize + (length k + length v)"
        using Cons.IH [OF h1(2) pop(2) rt] by blast
      moreover have "put_rotations a parents (root, h) = put_rotations a parents' (if cs = [] then Some a else root, h1)"
        using False pop ne foc h1(1) stack_top [OF pop(2)] by (simp add: put_rotations.simps [of a parents] c)
      ultimately show ?thesis using False h1(3,4) by (auto simp: c)
    qed
  next
    case c: (GoR s b k' v' q)
    show ?thesis
    proof (cases "p \<ge> q")
      case True
      then show ?thesis using Cons.prems pop ne foc focus_plug [of h "Bin l a k v p r" "c # cs"]
        by (auto simp: c put_rotations.simps [of a parents] node_size_def)
    next
      case False
      let ?h = "set_right b (root_of l) (set_left a (Some b) h)" and ?t = "Bin (Bin s b k' v' q l) a k v p r"
      have path: "path_holds ?h (Some b) cs" by (rule path_holds_frame [of h]) (use foc in \<open>auto simp: c\<close>)
      have hold: "holds ?h ?t" using foc by (auto simp: c intro!: holds_frame [of h _ ?h])
      have d: "distinct (addr_list ?t @ path_addrs cs)" "\<forall>x\<in>set (addr_list ?t @ path_addrs cs). x < next_addr ?h" "b \<notin> set (path_addrs cs)"
        using foc by (auto simp: c)
      obtain h1 where h1: "relinkGrandparent a b (top_addr cs) (root, ?h) = (if cs = [] then Some a else root, h1)" "focus h1 ?t cs"
          "next_addr h1 = next_addr ?h" "\<forall>x. x \<notin> ctx_addr ` set cs \<longrightarrow> node_at h1 x = node_at ?h x"
        by (rule relink_focus [OF hold path d(1,2) root_of.simps(2) d(3)])
      have rt: "(if cs = [] then Some a else root) = root_of (plug ?t cs)" using Cons.prems(3) by (simp add: root_of_plug c)
      obtain h' where "put_rotations a parents' (if cs = [] then Some a else root, h1) = Some (root_of (up ?t cs), h')"
          "focus h' (up ?t cs) []" "next_addr h' = next_addr h1" "\<forall>x. x \<notin> insert a (ctx_addr ` set cs) \<longrightarrow> node_at h' x = node_at h1 x"
          "node_size (node_at h' a) = nodeFieldsSize + (length k + length v)"
        using Cons.IH [OF h1(2) pop(2) rt] by blast
      moreover have "root_of s \<noteq> Some a" using root_of_addr [of s a] foc by (auto simp: c)
      then have "put_rotations a parents (root, h) = put_rotations a parents' (if cs = [] then Some a else root, h1)"
        using False pop ne foc h1(1) stack_top [OF pop(2)] by (simp add: put_rotations.simps [of a parents] c)
      ultimately show ?thesis using False h1(3,4) by (auto simp: c)
    qed
  qed
qed

section \<open>Following and copying a path\<close>

text \<open>A tree without its addresses.\<close>

fun erase :: "tree \<Rightarrow> tree" where
  "erase Tip = Tip"
| "erase (Bin l a k v p r) = Bin (erase l) 0 k v p (erase r)"

lemma erase_plug: "erase t = erase t' \<Longrightarrow> erase (plug t cs) = erase (plug t' cs)"
proof (induction cs arbitrary: t t')
  case (Cons c cs)
  then show ?case by (cases c) auto
qed simp

lemma items_erase: "items (erase t) = items t" and at_least_erase: "at_least q (erase t) = at_least q t"
  by (induction t arbitrary: q) auto

lemma min_heap_erase: "min_heap (erase t) = min_heap t"
  by (cases t) (auto simp: at_least_erase)

fun is_left :: "ctx \<Rightarrow> bool" where
  "is_left (GoL a k v p r) \<longleftrightarrow> True"
| "is_left (GoR l a k v p) \<longleftrightarrow> False"

lemma focus_down:
  "focus h (Bin l a k v p r) cs \<longleftrightarrow> focus h l (GoL a k v p r # cs)" "focus h (Bin l a k v p r) cs \<longleftrightarrow> focus h r (GoR l a k v p # cs)"
  using focus_plug [of h l "GoL a k v p r # cs"] focus_plug [of h r "GoR l a k v p # cs"] focus_plug [of h "Bin l a k v p r" cs] by auto

lemma clone_step_law:
  assumes "focus h (Bin l a k v p r) cs" "is_stack parents (map ctx_addr cs)"
  obtains h' where "clone_step a parents h = (ps_Push (next_addr h) parents, h')" "focus h' (Bin l (next_addr h) k v p r) cs"
    "next_addr h' = Suc (next_addr h)" "\<forall>x. x \<noteq> next_addr h \<longrightarrow> x \<notin> ctx_addr ` set cs \<longrightarrow> node_at h' x = node_at h x"
proof -
  let ?n = "next_addr h"
  let ?t = "Bin l (next_addr h) k v p r"
  note foc = assms(1) [unfolded focus_def]
  define hc where "hc = h\<lparr>node_at := (node_at h)(?n := node_at h a), next_addr := Suc ?n\<rparr>"
  then have h: "cloneTreapNode a h = (?n, hc)" "node_at hc = (node_at h)(?n := node_at h a)" "next_addr hc = Suc ?n"
    by (simp_all add: cloneTreapNode_def new_node_def)
  have new: "?n \<notin> set (addr_list (Bin l a k v p r) @ path_addrs cs)" using foc by fast
  have "holds hc l" "holds hc r" using foc new h(2) by (auto intro!: holds_frame [of h])
  then have hold: "holds hc ?t" using foc by (simp add: h(2))
  have path: "path_holds hc (Some a) cs" by (rule path_holds_frame [of h]) (use foc new h(2) in auto)
  have d: "distinct (addr_list ?t @ path_addrs cs)" "\<forall>x\<in>set (addr_list ?t @ path_addrs cs). x < next_addr hc" "a \<notin> set (path_addrs cs)"
    using foc new h(3) by (auto simp: less_Suc_eq)
  obtain h' where h': "relinkGrandparent ?n a (top_addr cs) (None, hc) = (if cs = [] then Some ?n else None, h')" "focus h' ?t cs"
      "next_addr h' = next_addr hc" "\<forall>x. x \<notin> ctx_addr ` set cs \<longrightarrow> node_at h' x = node_at hc x"
    by (rule relink_focus [OF hold path d(1,2) root_of.simps(2) d(3)])
  have "clone_step a parents h = (ps_Push ?n parents, h')"
    using h'(1) unfolding clone_step_def h(1) stack_top [OF assms(2)] by (cases cs) (auto simp: relinkGrandparent_def)
  then show thesis using that h'(2-4) h(2,3) by simp
qed

lemma clone_path_law:
  assumes "focus h u cs" "is_stack parents (map ctx_addr cs)" "list_all (side key) cs" "\<forall>c\<in>set cs. n0 \<le> ctx_addr c" "n0 \<le> next_addr h"
    and "cs \<noteq> [] \<longrightarrow> (cr < 0 \<longleftrightarrow> is_left (hd cs))"
  shows "\<exists>found parents' cr' h' u' cs'. clone_path (root_of u) key parents cr h = Some (found, parents', cr', h')
    \<and> focus h' u' cs' \<and> list_all (side key) cs' \<and> erase (plug u' cs') = erase (plug u cs) \<and> next_addr h \<le> next_addr h'
    \<and> (\<forall>x<n0. node_at h' x = node_at h x) \<and> (\<forall>c\<in>set cs'. n0 \<le> ctx_addr c)
    \<and> (case u' of
        Tip \<Rightarrow> found = None \<and> is_stack parents' (map ctx_addr cs') \<and> (cs' \<noteq> [] \<longrightarrow> (cr' < 0 \<longleftrightarrow> is_left (hd cs')))
      | Bin l a k v p r \<Rightarrow> k = key \<and> n0 \<le> a \<and> is_stack parents' (a # map ctx_addr cs')
          \<and> (\<exists>old. found = Some old \<and> old \<noteq> a \<and> tn_value (node_at h' old) = v))"
  using assms
proof (induction u arbitrary: cs parents cr h)
  case Tip
  then show ?case by (subst clone_path.simps) (auto intro!: exI [of _ Tip] exI [of _ cs])
next
  case (Bin l a k v p r)
  let ?n = "next_addr h"
  note foc = Bin.prems(1) [unfolded focus_def]
  obtain h' where h': "clone_step a parents h = (ps_Push ?n parents, h')" "focus h' (Bin l ?n k v p r) cs"
      "next_addr h' = Suc ?n" "\<forall>x. x \<noteq> ?n \<longrightarrow> x \<notin> ctx_addr ` set cs \<longrightarrow> node_at h' x = node_at h x"
    using clone_step_law [OF Bin.prems(1,2)] .
  have "a \<noteq> ?n" "a \<notin> ctx_addr ` set cs" using foc ctx_addr_path [of _ cs] by auto
  with h'(4) foc have old: "node_at h' a = \<lparr>tn_key = k, tn_value = v, tn_priority = p, tn_left = root_of l, tn_right = root_of r\<rparr>" by simp
  have st: "is_stack (ps_Push ?n parents) (?n # map ctx_addr cs)" using Bin.prems(2) by simp
  have "x \<noteq> ?n \<and> x \<notin> ctx_addr ` set cs" if "x < n0" for x using that Bin.prems(4,5) by auto
  then have same: "\<forall>x<n0. node_at h' x = node_at h x" using h'(4) by blast
  have er: "erase (plug (Bin l ?n k v p r) cs) = erase (plug (Bin l a k v p r) cs)" by (rule erase_plug) simp
  have run: "clone_path (Some a) key parents cr h = (let c = bytes_Compare key k in
      if c < 0 then clone_path (root_of l) key (ps_Push ?n parents) c h' else if c > 0 then clone_path (root_of r) key (ps_Push ?n parents) c h'
      else Some (Some a, ps_Push ?n parents, c, h'))"
    by (subst clone_path.simps) (simp add: h'(1) old Let_def)
  consider "key < k" | "k < key" | "key = k" by fastforce
  then show ?case
  proof cases
    case 1
    then have c: "bytes_Compare key k < 0" by (simp add: bytes_Compare_iff)
    from Bin.IH(1) [of h' "GoL ?n k v p r # cs" "ps_Push ?n parents" "bytes_Compare key k"] show ?thesis
      using h'(2,3) st same er Bin.prems 1 c by (simp add: run focus_down(1) [symmetric]) fastforce
  next
    case 2
    then have c: "bytes_Compare key k > 0" by (simp add: bytes_Compare_iff)
    from Bin.IH(2) [of h' "GoR l ?n k v p # cs" "ps_Push ?n parents" "bytes_Compare key k"] show ?thesis
      using h'(2,3) st same er Bin.prems 2 c by (simp add: run focus_down(2) [symmetric]) fastforce
  next
    case 3
    then have "bytes_Compare key k = 0" by (simp add: bytes_Compare_iff)
    then have "clone_path (root_of (Bin l a k v p r)) key parents cr h = Some (Some a, ps_Push ?n parents, 0, h')" by (simp add: run)
    then show ?thesis using h'(2,3) st same er Bin.prems(3-5) 3 old \<open>a \<noteq> ?n\<close>
      by (intro exI [of _ "Some a"] exI [of _ "ps_Push ?n parents"] exI [of _ 0] exI [of _ h'] exI [of _ "Bin l ?n k v p r"] exI [of _ cs]) auto
  qed
qed

lemma find_path_law:
  assumes "focus h u cs" "is_stack parents (map ctx_addr cs)" "list_all (side key) cs" "cs \<noteq> [] \<longrightarrow> (cr < 0 \<longleftrightarrow> is_left (hd cs))"
  shows "\<exists>found parents' cr' u' cs'. find_path (root_of u) key parents cr h = Some (found, parents', cr')
    \<and> plug u' cs' = plug u cs \<and> list_all (side key) cs'
    \<and> (case u' of
        Tip \<Rightarrow> found = None \<and> is_stack parents' (map ctx_addr cs') \<and> (cs' \<noteq> [] \<longrightarrow> (cr' < 0 \<longleftrightarrow> is_left (hd cs')))
      | Bin l a k v p r \<Rightarrow> k = key \<and> found = Some a \<and> is_stack parents' (a # map ctx_addr cs'))"
  using assms
proof (induction u arbitrary: cs parents cr)
  case Tip
  then show ?case by (subst find_path.simps) (auto intro!: exI [of _ Tip] exI [of _ cs])
next
  case (Bin l a k v p r)
  have node: "node_at h a = \<lparr>tn_key = k, tn_value = v, tn_priority = p, tn_left = root_of l, tn_right = root_of r\<rparr>"
    using Bin.prems(1) by (simp add: focus_def)
  have st: "is_stack (ps_Push a parents) (a # map ctx_addr cs)" using Bin.prems(2) by simp
  have run: "find_path (Some a) key parents cr h = (let c = bytes_Compare key k in
      if c < 0 then find_path (root_of l) key (ps_Push a parents) c h else if c > 0 then find_path (root_of r) key (ps_Push a parents) c h
      else Some (Some a, ps_Push a parents, c))"
    by (subst find_path.simps) (simp add: node Let_def)
  consider "key < k" | "k < key" | "key = k" by fastforce
  then show ?case
  proof cases
    case 1
    then have c: "bytes_Compare key k < 0" by (simp add: bytes_Compare_iff)
    from Bin.IH(1) [of "GoL a k v p r # cs" "ps_Push a parents" "bytes_Compare key k"] show ?thesis
      using st Bin.prems 1 c by (simp add: run focus_down(1) [symmetric])
  next
    case 2
    then have c: "bytes_Compare key k > 0" by (simp add: bytes_Compare_iff)
    from Bin.IH(2) [of "GoR l a k v p # cs" "ps_Push a parents" "bytes_Compare key k"] show ?thesis
      using st Bin.prems 2 c by (simp add: run focus_down(2) [symmetric])
  next
    case 3
    then have "bytes_Compare key k = 0" by (simp add: bytes_Compare_iff)
    then have "find_path (root_of (Bin l a k v p r)) key parents cr h = Some (Some a, ps_Push a parents, 0)" by (simp add: run)
    then show ?thesis using st Bin.prems(3) 3
      by (intro exI [of _ "Some a"] exI [of _ "ps_Push a parents"] exI [of _ 0] exI [of _ "Bin l a k v p r"] exI [of _ cs]) auto
  qed
qed

lemma mu_get_law:
  assumes "holds h u" "list_all (side key) cs"
  shows "\<exists>u' cs'. mu_get (root_of u) (top_addr cs) key h = Some (root_of u', if u' = Tip then None else top_addr cs')
    \<and> plug u' cs' = plug u cs \<and> list_all (side key) cs' \<and> (case u' of Tip \<Rightarrow> True | Bin l a k v p r \<Rightarrow> k = key)"
  using assms
proof (induction u arbitrary: cs)
  case Tip
  then show ?case by (subst mu_get.simps) (auto intro!: exI [of _ Tip] exI [of _ cs])
next
  case (Bin l a k v p r)
  have run: "mu_get (Some a) (top_addr cs) key h = (let c = bytes_Compare key k in
      if c < 0 then mu_get (root_of l) (Some a) key h else if c > 0 then mu_get (root_of r) (Some a) key h else Some (Some a, top_addr cs))"
    using Bin.prems(1) by (subst mu_get.simps) (simp add: Let_def)
  consider "key < k" | "k < key" | "key = k" by fastforce
  then show ?case
  proof cases
    case 1
    with Bin.IH(1) [of "GoL a k v p r # cs"] Bin.prems show ?thesis by (simp add: run Let_def bytes_Compare_iff)
  next
    case 2
    with Bin.IH(2) [of "GoR l a k v p # cs"] Bin.prems show ?thesis by (auto simp: run Let_def bytes_Compare_iff)
  next
    case 3
    then have "mu_get (Some a) (top_addr cs) key h = Some (Some a, top_addr cs)" using run bytes_Compare_iff(2) [of key k] by simp
    then show ?thesis using Bin.prems(2) 3 by (intro exI [of _ "Bin l a k v p r"] exI [of _ cs]) auto
  qed
qed

lemma im_get_law:
  assumes "holds h t" "in_order (items t)"
  shows "\<exists>node. im_get (root_of t) key h = Some node \<and> map_option (\<lambda>a. tn_value (node_at h a)) node = map_of (items t) key"
  using assms
proof (induction t)
  case Tip
  then show ?case by (simp add: im_get.simps)
next
  case (Bin l a k v p r)
  have run: "im_get (Some a) key h = (if key < k then im_get (root_of l) key h else if k < key then im_get (root_of r) key h else Some (Some a))"
    using Bin.prems(1) by (subst im_get.simps) (simp add: Let_def bytes_Compare_iff)
  have ord: "in_order (items l)" "in_order (items r)" "\<forall>kv\<in>set (items l). fst kv < k" "\<forall>kv\<in>set (items r). k < fst kv"
    using Bin.prems(2) by (auto simp: in_order_def sorted_wrt_append)
  have no: "key \<le> k \<Longrightarrow> map_of (items r) key = None" "k \<le> key \<Longrightarrow> map_of (items l) key = None"
    using ord(3,4) by (force simp: map_of_eq_None_iff)+
  show ?case using Bin run ord no
    by (cases key k rule: linorder_cases) (auto simp: map_add_def split: option.split)
qed

section \<open>Putting\<close>

fun ctx_priority :: "ctx \<Rightarrow> int" where
  "ctx_priority (GoL a k v p r) = p"
| "ctx_priority (GoR l a k v p) = p"

abbreviation below_top :: "ctx list \<Rightarrow> (int \<Rightarrow> bool) \<Rightarrow> bool" where
  "below_top cs P \<equiv> (case cs of [] \<Rightarrow> True | c # _ \<Rightarrow> P (ctx_priority c))"

fun path_heap :: "ctx list \<Rightarrow> bool" where
  "path_heap [] \<longleftrightarrow> True"
| "path_heap (GoL a k v p r # cs) \<longleftrightarrow> at_least p r \<and> path_heap cs \<and> below_top cs (\<lambda>q. q \<le> p)"
| "path_heap (GoR l a k v p # cs) \<longleftrightarrow> at_least p l \<and> path_heap cs \<and> below_top cs (\<lambda>q. q \<le> p)"

lemma min_heap_plug: "min_heap (plug t cs) \<longleftrightarrow> min_heap t \<and> path_heap cs \<and> below_top cs (\<lambda>q. at_least q t)"
proof (induction cs arbitrary: t)
  case (Cons c cs)
  show ?case using at_least_min_heap by (cases c) (auto simp: Cons.IH split: list.split)
qed simp

lemma up_items [simp]: "items (up t cs) = before cs @ items t @ after cs"
  by (induction t cs rule: up.induct) auto

lemma up_heap:
  assumes "at_least p l" "at_least p r" "path_heap cs" "below_top cs (\<lambda>q. at_least q l \<and> at_least q r)"
  shows "min_heap (up (Bin l a k v p r) cs)"
  using assms
proof (induction cs arbitrary: l r)
  case (Cons c cs)
  show ?case
  proof (cases c)
    case c: (GoL b k' v' q s)
    show ?thesis
    proof (cases "p \<ge> q")
      case True
      then show ?thesis using Cons.prems min_heap_plug [of "Bin l a k v p r" "c # cs"] by (simp add: c)
    next
      case False
      have "below_top cs (\<lambda>q'. at_least q' l \<and> at_least q' (Bin r b k' v' q s))"
        using Cons.prems by (auto simp: c intro: at_least_mono split: list.splits)
      then show ?thesis using Cons.IH [of l "Bin r b k' v' q s"] Cons.prems False by (auto simp: c)
    qed
  next
    case c: (GoR s b k' v' q)
    show ?thesis
    proof (cases "p \<ge> q")
      case True
      then show ?thesis using Cons.prems min_heap_plug [of "Bin l a k v p r" "c # cs"] by (simp add: c)
    next
      case False
      have "below_top cs (\<lambda>q'. at_least q' (Bin s b k' v' q l) \<and> at_least q' r)"
        using Cons.prems by (auto simp: c intro: at_least_mono split: list.splits)
      then show ?thesis using Cons.IH [of "Bin s b k' v' q l" r] Cons.prems False by (auto simp: c)
    qed
  qed
qed simp

text \<open>A new node is linked at the hole.\<close>

lemma link_new:
  assumes "focus h Tip (c # cs)" "newTreapNode key val prio h = (n, h1)"
    and "h2 = (if is_left c then set_left (ctx_addr c) (Some n) h1 else set_right (ctx_addr c) (Some n) h1)"
  shows "n = next_addr h" "focus h2 (Bin Tip n key val prio Tip) (c # cs)" "next_addr h2 = Suc (next_addr h)"
    "\<forall>x. x \<noteq> n \<longrightarrow> x \<noteq> ctx_addr c \<longrightarrow> node_at h2 x = node_at h x"
proof -
  let ?new = "\<lparr>tn_key = key, tn_value = val, tn_priority = prio, tn_left = None, tn_right = None\<rparr>"
  have n: "n = next_addr h" "node_at h1 = (node_at h)(n := ?new)" "next_addr h1 = Suc n"
    using assms(2) by (auto simp: newTreapNode_def new_node_def)
  note foc = assms(1) [unfolded focus_def]
  have fresh: "n \<notin> set (path_addrs (c # cs))" using foc n(1) by auto
  then have nc: "n \<noteq> ctx_addr c" using ctx_addr_path [of c "c # cs"] by auto
  show "n = next_addr h" "next_addr h2 = Suc (next_addr h)" "\<forall>x. x \<noteq> n \<longrightarrow> x \<noteq> ctx_addr c \<longrightarrow> node_at h2 x = node_at h x"
    using n by (simp_all add: assms(3))
  have "path_holds h2 (Some n) (c # cs)"
  proof (cases c)
    case c: (GoL b k v p r)
    have "holds h2 r" by (rule holds_frame [of h]) (use foc fresh n(2) in \<open>auto simp: assms(3) c\<close>)
    moreover have "path_holds h2 (Some b) cs" by (rule path_holds_frame [of h]) (use foc fresh n(2) in \<open>auto simp: assms(3) c\<close>)
    ultimately show ?thesis using foc fresh n(2) by (simp add: assms(3) c)
  next
    case c: (GoR l b k v p)
    have "holds h2 l" by (rule holds_frame [of h]) (use foc fresh n(2) in \<open>auto simp: assms(3) c\<close>)
    moreover have "path_holds h2 (Some b) cs" by (rule path_holds_frame [of h]) (use foc fresh n(2) in \<open>auto simp: assms(3) c\<close>)
    ultimately show ?thesis using foc fresh n(2) by (simp add: assms(3) c)
  qed
  then show "focus h2 (Bin Tip n key val prio Tip) (c # cs)"
    using foc fresh n nc by (auto simp: focus_def assms(3) less_Suc_eq)
qed

lemma set_value_focus:
  assumes "focus h (Bin l a k v p r) cs"
  shows "focus (set_value a val h) (Bin l a k val p r) cs"
proof -
  have "holds (set_value a val h) l" "holds (set_value a val h) r"
    using assms by (auto simp: focus_def intro!: holds_frame [of h])
  moreover have "path_holds (set_value a val h) (Some a) cs"
    by (rule path_holds_frame [of h]) (use assms in \<open>auto simp: focus_def\<close>)
  ultimately show ?thesis using assms by (simp add: focus_def)
qed

text \<open>What a treap stands for, with its two counters.\<close>

definition treap_rep :: "store \<Rightarrow> tree \<Rightarrow> addr option \<Rightarrow> int \<Rightarrow> 64 word \<Rightarrow> bool" where
  "treap_rep h t root cnt sz \<longleftrightarrow> root = root_of t \<and> focus h t [] \<and> in_order (items t)
     \<and> cnt = int (length (items t)) \<and> sz = of_nat (total_size (items t))"

abbreviation im_rep :: "store \<Rightarrow> Immutable \<Rightarrow> tree \<Rightarrow> bool" where
  "im_rep h T t \<equiv> treap_rep h t (im_root T) (im_count T) (im_totalSize T)"

abbreviation mu_rep :: "store \<Rightarrow> Mutable \<Rightarrow> tree \<Rightarrow> bool" where
  "mu_rep h T t \<equiv> treap_rep h t (mu_root T) (mu_count T) (mu_totalSize T)"

definition keeps :: "store \<Rightarrow> store \<Rightarrow> bool" where
  "keeps h h' \<longleftrightarrow> next_addr h \<le> next_addr h' \<and> (\<forall>x<next_addr h. node_at h' x = node_at h x)"

text \<open>A store that keeps the nodes keeps every treap in it.\<close>

lemma keeps_focus: "keeps h h' \<Longrightarrow> focus h t [] \<Longrightarrow> focus h' t []"
  by (auto simp: keeps_def focus_def intro!: holds_frame [of h])

lemma keeps_rep: "keeps h h' \<Longrightarrow> treap_rep h t root cnt sz \<Longrightarrow> treap_rep h' t root cnt sz"
  by (auto simp: treap_rep_def intro: keeps_focus)

lemma total_size_simps [simp]:
  "total_size [] = 0" "total_size ((k, v) # kvs) = nodeFieldsSize + (length k + length v) + total_size kvs"
  "total_size (xs @ ys) = total_size xs + total_size ys"
  by (simp_all add: total_size_def)

text \<open>A new key with its value goes between the smaller and the greater ones.\<close>

lemma between:
  assumes "in_order (before cs @ after cs)" "list_all (side key) cs"
  shows "in_order (before cs @ (key, v) # after cs)" "map_of (before cs @ (key, v) # after cs) = (map_of (before cs @ after cs))(key \<mapsto> v)"
    "map_of (before cs @ after cs) = (map_of (before cs @ (key, v) # after cs))(key := None)"
  using map_of_sides [of "before cs" key "after cs" v] sides [OF assms] assms(1) by auto

lemma replace_value:
  assumes "in_order (xs @ (key, v) # ys)"
  shows "in_order (xs @ (key, val) # ys)" "map_of (xs @ (key, val) # ys) = (map_of (xs @ (key, v) # ys))(key \<mapsto> val)"
    "in_order (xs @ ys)" "map_of (xs @ ys) = (map_of (xs @ (key, v) # ys))(key := None)"
proof -
  have k: "\<forall>kv\<in>set xs. fst kv < key" "\<forall>kv\<in>set ys. key < fst kv" using assms by (auto simp: in_order_def sorted_wrt_append)
  show "in_order (xs @ (key, val) # ys)" using assms by (simp add: in_order_def)
  show "map_of (xs @ (key, val) # ys) = (map_of (xs @ (key, v) # ys))(key \<mapsto> val)" "in_order (xs @ ys)"
    "map_of (xs @ ys) = (map_of (xs @ (key, v) # ys))(key := None)"
    using map_of_sides [OF k, of v] map_of_sides [OF k, of val] assms by simp_all
qed

lemma stack_bottom:
  assumes "is_stack s l" "l \<noteq> []"
  shows "ps_At s (int (ps_index s) - 1) = Some (last l)"
proof -
  have "int (ps_index s) - 1 = int (length l - 1)" using assms is_stack_index [OF assms(1)] by (cases l) auto
  then show ?thesis using ps_At_law(1) [OF assms(1), of "length l - 1"] assms(2) by (simp add: last_conv_nth)
qed

lemma im_Put_law:
  assumes "im_rep h T t" "val = or_empty value"
  shows "\<exists>T' h' t'. im_Put key value rnd T h = Some (T', h') \<and> im_rep h' T' t' \<and> map_of (items t') = (map_of (items t))(key \<mapsto> val)
    \<and> (min_heap t \<longrightarrow> min_heap t') \<and> keeps h h'"
proof (cases t)
  case Tip
  let ?T = "\<lparr>im_root = Some (next_addr h), im_count = 1, im_totalSize = of_nat (nodeFieldsSize + (length key + length val))\<rparr>"
  let ?h = "snd (newTreapNode key val rnd h)"
  have "im_Put key value rnd T h = Some (?T, ?h)"
    using assms Tip by (simp add: im_Put_def treap_rep_def newTreapNode_def new_node_def nodeSize_def node_size_def Let_def)
  moreover have "im_rep ?h ?T (Bin Tip (next_addr h) key val rnd Tip)" "keeps h ?h"
    by (simp_all add: treap_rep_def focus_def newTreapNode_def new_node_def in_order_def keeps_def)
  ultimately show ?thesis using Tip by fastforce
next
  case (Bin l0 a0 k0 v0 p0 r0)
  have rep: "im_root T = root_of t" "focus h t []" "in_order (items t)" "im_count T = int (length (items t))"
      "im_totalSize T = of_nat (total_size (items t))" using assms(1) by (simp_all add: treap_rep_def)
  obtain found parents cr h1 u cs where path: "clone_path (root_of t) key empty_stack 0 h = Some (found, parents, cr, h1)"
    and u: "focus h1 u cs" "list_all (side key) cs" "erase (plug u cs) = erase t" "next_addr h \<le> next_addr h1"
      "\<forall>x<next_addr h. node_at h1 x = node_at h x" "\<forall>c\<in>set cs. next_addr h \<le> ctx_addr c"
    and found: "case u of Tip \<Rightarrow> found = None \<and> is_stack parents (map ctx_addr cs) \<and> (cs \<noteq> [] \<longrightarrow> (cr < 0 \<longleftrightarrow> is_left (hd cs)))
      | Bin l a k v p r \<Rightarrow> k = key \<and> next_addr h \<le> a \<and> is_stack parents (a # map ctx_addr cs)
          \<and> (\<exists>old. found = Some old \<and> old \<noteq> a \<and> tn_value (node_at h1 old) = v)"
    using clone_path_law [OF rep(2), of empty_stack key "next_addr h" 0] by auto
  have it: "items t = before cs @ items u @ after cs" using arg_cong [OF u(3), of items] by (simp add: items_erase)
  have mh: "min_heap t \<longleftrightarrow> min_heap (plug u cs)" using arg_cong [OF u(3), of min_heap] by (simp add: min_heap_erase)
  show ?thesis
  proof (cases u)
    case u': (Bin l a k v p r)
    let ?t = "plug (Bin l a key val p r) cs" and ?h = "set_value a val h1"
    from found obtain old where f: "found = Some old" "old \<noteq> a" "tn_value (node_at h1 old) = v" "k = key" "next_addr h \<le> a"
        "is_stack parents (a # map ctx_addr cs)" by (auto simp: u')
    let ?T = "\<lparr>im_root = root_of ?t, im_count = im_count T, im_totalSize = im_totalSize T - of_nat (length v) + of_nat (length val)\<rparr>"
    have "ps_At parents 0 = Some a" using ps_At_law(1) [OF f(6), of 0] by simp
    moreover have "ps_At parents (int (ps_index parents) - 1) = root_of ?t"
      using stack_bottom [OF f(6)] by (auto simp: root_of_plug last_map)
    ultimately have "im_Put key value rnd T h = Some (?T, ?h)"
      using path f(1-3) rep(1) Bin assms(2) by (simp add: im_Put_def Let_def)
    moreover have "focus ?h ?t []" using set_value_focus [of h1 l a k v p r cs val] u(1) u' f(4) by (simp add: focus_plug)
    moreover have "in_order (items ?t)" "map_of (items ?t) = (map_of (items t))(key \<mapsto> val)"
      using replace_value(1,2) [of "before cs @ items l" key v "items r @ after cs" val] rep(3) by (simp_all add: it u' f(4))
    moreover have "min_heap t \<longrightarrow> min_heap ?t" using mh by (auto simp: min_heap_plug u' split: list.split)
    moreover have "keeps h ?h" using u(4,5) f(5) by (simp add: keeps_def)
    ultimately show ?thesis using rep(4,5) by (intro exI [of _ ?T] exI [of _ ?h] exI [of _ ?t]) (simp add: treap_rep_def it u' f(4))
  next
    case Tip
    obtain c ds where cs: "cs = c # ds" using u(3) by (cases cs) (auto simp: Tip Bin)
    have f: "found = None" "is_stack parents (map ctx_addr cs)" "cr < 0 \<longleftrightarrow> is_left c" using found by (simp_all add: Tip cs)
    obtain n h2 where new: "newTreapNode key val rnd h1 = (n, h2)" by fastforce
    define h3 where "h3 = (if is_left c then set_left (ctx_addr c) (Some n) h2 else set_right (ctx_addr c) (Some n) h2)"
    have "focus h1 Tip (c # ds)" using u(1) by (simp add: Tip cs)
    note link = link_new [OF this new h3_def]
    let ?t = "up (Bin Tip n key val rnd Tip) cs" and ?root = "ps_At parents (int (ps_index parents) - 1)"
    have bottom: "?root = root_of (plug (Bin Tip n key val rnd Tip) cs)"
      using stack_bottom [OF f(2)] by (simp add: root_of_plug last_map cs)
    obtain h' where h': "put_rotations n parents (?root, h3) = Some (root_of ?t, h')" "focus h' ?t []" "next_addr h' = next_addr h3"
        "\<forall>x. x \<notin> insert n (ctx_addr ` set cs) \<longrightarrow> node_at h' x = node_at h3 x"
        "node_size (node_at h' n) = nodeFieldsSize + (length key + length val)"
      using put_rotations_law [OF link(2) [folded cs] f(2) bottom] by blast
    let ?T = "\<lparr>im_root = root_of ?t, im_count = im_count T + 1, im_totalSize = im_totalSize T + nodeSize n h'\<rparr>"
    have "ps_At parents 0 = Some (ctx_addr c)" using stack_top [OF f(2)] by (simp add: cs)
    then have "im_Put key value rnd T h = Some (?T, h')"
      using path f(1,3) rep(1) Bin assms(2) new h'(1) by (simp add: im_Put_def h3_def)
    moreover have "in_order (items ?t)" "map_of (items ?t) = (map_of (items t))(key \<mapsto> val)"
      using between [of cs key val] rep(3) u(2) by (simp_all add: it Tip)
    moreover have "min_heap t \<longrightarrow> min_heap ?t" using mh by (auto simp: min_heap_plug Tip cs intro!: up_heap)
    moreover have "x \<notin> insert n (ctx_addr ` set cs)" if "x < next_addr h" for x using that u(4,6) link(1) by auto
    then have "keeps h h'" using h'(3,4) link(3,4) u(4,5) by (auto simp: keeps_def cs)
    ultimately show ?thesis using rep(4,5) h'(2,5) by (intro exI [of _ ?T] exI [of _ h'] exI [of _ ?t]) (simp add: treap_rep_def it Tip nodeSize_def)
  qed
qed

lemma up_addrs: "set (addr_list (up t cs)) = set (addr_list t) \<union> set (path_addrs cs)"
  by (induction t cs rule: up.induct) (auto simp: set_addr_plug)

text \<open>A mutable treap changes its own nodes only, and takes new ones from the store.\<close>

definition owns :: "store \<Rightarrow> tree \<Rightarrow> store \<Rightarrow> tree \<Rightarrow> bool" where
  "owns h t h' t' \<longleftrightarrow> next_addr h \<le> next_addr h' \<and> set (addr_list t') \<subseteq> set (addr_list t) \<union> {next_addr h..}
     \<and> (\<forall>x<next_addr h. x \<notin> set (addr_list t) \<longrightarrow> node_at h' x = node_at h x)"

lemma mu_Put_law:
  assumes "mu_rep h T t" "val = or_empty value"
  shows "\<exists>T' h' t'. mu_Put key value rnd T h = Some (T', h') \<and> mu_rep h' T' t' \<and> map_of (items t') = (map_of (items t))(key \<mapsto> val)
    \<and> (min_heap t \<longrightarrow> min_heap t') \<and> owns h t h' t'"
proof (cases t)
  case Tip
  let ?T = "T\<lparr>mu_count := 1, mu_totalSize := of_nat (nodeFieldsSize + (length key + length val)), mu_root := Some (next_addr h)\<rparr>"
  let ?h = "snd (newTreapNode key val rnd h)" and ?t = "Bin Tip (next_addr h) key val rnd Tip"
  have "mu_Put key value rnd T h = Some (?T, ?h)"
    using assms Tip by (simp add: mu_Put_def treap_rep_def newTreapNode_def new_node_def nodeSize_def node_size_def Let_def)
  moreover have "mu_rep ?h ?T ?t" "owns h t ?h ?t"
    by (auto simp: treap_rep_def focus_def newTreapNode_def new_node_def in_order_def owns_def)
  ultimately show ?thesis using Tip by fastforce
next
  case (Bin l0 a0 k0 v0 p0 r0)
  have rep: "mu_root T = root_of t" "focus h t []" "in_order (items t)" "mu_count T = int (length (items t))"
      "mu_totalSize T = of_nat (total_size (items t))" using assms(1) by (simp_all add: treap_rep_def)
  obtain found parents cr u cs where path: "find_path (root_of t) key empty_stack 0 h = Some (found, parents, cr)"
    and u: "plug u cs = t" "list_all (side key) cs"
    and found: "case u of Tip \<Rightarrow> found = None \<and> is_stack parents (map ctx_addr cs) \<and> (cs \<noteq> [] \<longrightarrow> (cr < 0 \<longleftrightarrow> is_left (hd cs)))
      | Bin l a k v p r \<Rightarrow> k = key \<and> found = Some a \<and> is_stack parents (a # map ctx_addr cs)"
    using find_path_law [OF rep(2), of empty_stack key 0] by auto
  have foc: "focus h u cs" using rep(2) focus_plug [of h u cs] by (simp add: u(1))
  have it: "items t = before cs @ items u @ after cs" using items_plug [of u cs] by (simp add: u(1))
  have ad: "set (addr_list t) = set (addr_list u) \<union> set (path_addrs cs)" using set_addr_plug [of u cs] by (simp add: u(1))
  show ?thesis
  proof (cases u)
    case u': (Bin l a k v p r)
    let ?t = "plug (Bin l a key val p r) cs" and ?h = "set_value a val h"
    have f: "found = Some a" "k = key" using found by (simp_all add: u')
    let ?T = "T\<lparr>mu_totalSize := mu_totalSize T - of_nat (length v) + of_nat (length val)\<rparr>"
    have "tn_value (node_at h a) = v" using foc by (simp add: focus_def u')
    then have "mu_Put key value rnd T h = Some (?T, ?h)" using path f(1) rep(1) Bin assms(2) by (simp add: mu_Put_def Let_def)
    moreover have "focus ?h ?t []" using set_value_focus [of h l a k v p r cs val] foc u' f(2) by (simp add: focus_plug)
    moreover have "in_order (items ?t)" "map_of (items ?t) = (map_of (items t))(key \<mapsto> val)"
      using replace_value(1,2) [of "before cs @ items l" key v "items r @ after cs" val] rep(3) by (simp_all add: it u' f(2))
    moreover have "min_heap t \<longrightarrow> min_heap ?t" using u(1) by (auto simp: min_heap_plug u' split: list.split)
    moreover have "owns h t ?h ?t" using ad by (auto simp: owns_def u' set_addr_plug)
    moreover have "root_of ?t = root_of t" using u(1) by (auto simp: root_of_plug u')
    ultimately show ?thesis using rep(1,4,5) by (intro exI [of _ ?T] exI [of _ ?h] exI [of _ ?t]) (simp add: treap_rep_def it u' f(2))
  next
    case Tip
    obtain c ds where cs: "cs = c # ds" using u(1) by (cases cs) (auto simp: Tip Bin)
    have f: "found = None" "is_stack parents (map ctx_addr cs)" "cr < 0 \<longleftrightarrow> is_left c" using found by (simp_all add: Tip cs)
    obtain n h2 where new: "newTreapNode key val rnd h = (n, h2)" by fastforce
    define h3 where "h3 = (if is_left c then set_left (ctx_addr c) (Some n) h2 else set_right (ctx_addr c) (Some n) h2)"
    have "focus h Tip (c # ds)" using foc by (simp add: Tip cs)
    note link = link_new [OF this new h3_def]
    let ?t = "up (Bin Tip n key val rnd Tip) cs"
    have bottom: "mu_root T = root_of (plug (Bin Tip n key val rnd Tip) cs)"
      using rep(1) u(1) root_of_plug [of Tip cs] by (simp add: root_of_plug Tip cs)
    obtain h' where h': "put_rotations n parents (mu_root T, h3) = Some (root_of ?t, h')" "focus h' ?t []" "next_addr h' = next_addr h3"
        "\<forall>x. x \<notin> insert n (ctx_addr ` set cs) \<longrightarrow> node_at h' x = node_at h3 x"
      using put_rotations_law [OF link(2) [folded cs] f(2) bottom] by blast
    let ?T = "\<lparr>mu_root = root_of ?t, mu_count = mu_count T + 1, mu_totalSize = mu_totalSize T + nodeSize n h2\<rparr>"
    have "ps_At parents 0 = Some (ctx_addr c)" using stack_top [OF f(2)] by (simp add: cs)
    then have "mu_Put key value rnd T h = Some (?T, h')"
      using path f(1,3) rep(1) Bin assms(2) new h'(1) by (simp add: mu_Put_def h3_def)
    moreover have "nodeSize n h2 = of_nat (nodeFieldsSize + (length key + length val))"
      using new by (auto simp: newTreapNode_def new_node_def nodeSize_def node_size_def)
    moreover have "in_order (items ?t)" "map_of (items ?t) = (map_of (items t))(key \<mapsto> val)"
      using between [of cs key val] rep(3) u(2) by (simp_all add: it Tip)
    moreover have "min_heap t \<longrightarrow> min_heap ?t" using u(1) by (auto simp: min_heap_plug Tip cs intro!: up_heap)
    moreover have "owns h t h' ?t"
    proof -
      have "node_at h' x = node_at h x" if "x < next_addr h" "x \<notin> set (path_addrs cs)" for x
      proof -
        have "x \<notin> insert n (ctx_addr ` set cs)" using that link(1) ctx_addr_path [of _ cs] by auto
        then show ?thesis using h'(4) link(4) by (auto simp: cs)
      qed
      then show ?thesis using h'(3) link(1,3) ad by (auto simp: owns_def up_addrs Tip)
    qed
    ultimately show ?thesis using rep(4,5) h'(2) by (intro exI [of _ ?T] exI [of _ h'] exI [of _ ?t]) (simp add: treap_rep_def it Tip)
  qed
qed

section \<open>Deleting\<close>

text \<open>One rotation down, with the child cloned or not.\<close>

lemma child_copy:
  assumes "focus h (Bin cl a ck cv cp cr) cs" "(c', hc) = (if clones then cloneTreapNode a h else (a, h))"
  shows "node_at hc c' = \<lparr>tn_key = ck, tn_value = cv, tn_priority = cp, tn_left = root_of cl, tn_right = root_of cr\<rparr>"
    "\<forall>x. x \<noteq> c' \<longrightarrow> node_at hc x = node_at h x" "c' \<notin> set (addr_list cl @ addr_list cr @ path_addrs cs)" "c' < next_addr hc"
    "next_addr hc = (if clones then Suc (next_addr h) else next_addr h)" "c' = (if clones then next_addr h else a)"
  using assms by (fastforce simp: focus_def cloneTreapNode_def new_node_def split: if_split_asm)+

lemma rotate_down_left:
  assumes "focus h (Bin (Bin cl a ck cv cp cr) d k v p r) cs" "(c', hc) = (if clones then cloneTreapNode a h else (a, h))"
  obtains h' where "relinkGrandparent c' d (top_addr cs) (root, set_left d (right_of hc c') (set_right c' (Some d) hc)) = (if cs = [] then Some c' else root, h')"
    "focus h' (Bin cr d k v p r) (GoR cl c' ck cv cp # cs)" "next_addr h' = next_addr hc"
    "\<forall>x. x \<notin> insert c' (insert d (ctx_addr ` set cs)) \<longrightarrow> node_at h' x = node_at h x"
proof -
  let ?t = "Bin cl c' ck cv cp (Bin cr d k v p r)" and ?h = "set_left d (right_of hc c') (set_right c' (Some d) hc)"
  have "focus h (Bin cl a ck cv cp cr) (GoL d k v p r # cs)" using assms(1) by (simp add: focus_down)
  note cc = child_copy [OF this assms(2)]
  note foc = assms(1) [unfolded focus_def]
  have dc: "d \<noteq> c'" using cc(3) by auto
  have sub: "holds ?h u" if "holds h u" "d \<notin> set (addr_list u)" "c' \<notin> set (addr_list u)" for u
    using that cc(2) by (intro holds_frame [OF that(1)]) auto
  have "holds ?h cl" "holds ?h cr" "holds ?h r" using foc cc(3) by (auto intro!: sub)
  then have hold: "holds ?h ?t" using foc cc(1,2) dc by auto
  have path: "path_holds ?h (Some d) cs" by (rule path_holds_frame [of h]) (use foc cc(2,3) in auto)
  have d: "distinct (addr_list ?t @ path_addrs cs)" "\<forall>x\<in>set (addr_list ?t @ path_addrs cs). x < next_addr ?h" "d \<notin> set (path_addrs cs)"
    using foc cc(3-6) by (auto simp: less_Suc_eq)
  obtain h' where h': "relinkGrandparent c' d (top_addr cs) (root, ?h) = (if cs = [] then Some c' else root, h')" "focus h' ?t cs"
      "next_addr h' = next_addr ?h" "\<forall>x. x \<notin> ctx_addr ` set cs \<longrightarrow> node_at h' x = node_at ?h x"
    by (rule relink_focus [OF hold path d(1,2) root_of.simps(2) d(3)])
  then show thesis using that [of h'] cc(2) by (simp add: focus_down(2) [symmetric])
qed

lemma rotate_down_right:
  assumes "focus h (Bin l d k v p (Bin cl a ck cv cp cr)) cs" "(c', hc) = (if clones then cloneTreapNode a h else (a, h))"
  obtains h' where "relinkGrandparent c' d (top_addr cs) (root, set_right d (left_of hc c') (set_left c' (Some d) hc)) = (if cs = [] then Some c' else root, h')"
    "focus h' (Bin l d k v p cl) (GoL c' ck cv cp cr # cs)" "next_addr h' = next_addr hc"
    "\<forall>x. x \<notin> insert c' (insert d (ctx_addr ` set cs)) \<longrightarrow> node_at h' x = node_at h x"
proof -
  let ?t = "Bin (Bin l d k v p cl) c' ck cv cp cr" and ?h = "set_right d (left_of hc c') (set_left c' (Some d) hc)"
  have "focus h (Bin cl a ck cv cp cr) (GoR l d k v p # cs)" using assms(1) focus_down(2) by blast
  note cc = child_copy [OF this assms(2)]
  note foc = assms(1) [unfolded focus_def]
  have dc: "d \<noteq> c'" using cc(3) by auto
  have sub: "holds ?h u" if "holds h u" "d \<notin> set (addr_list u)" "c' \<notin> set (addr_list u)" for u
    using that cc(2) by (intro holds_frame [OF that(1)]) auto
  have "holds ?h cl" "holds ?h cr" "holds ?h l" using foc cc(3) by (auto intro!: sub)
  then have hold: "holds ?h ?t" using foc cc(1,2) dc by auto
  have path: "path_holds ?h (Some d) cs" by (rule path_holds_frame [of h]) (use foc cc(2,3) in auto)
  have d: "distinct (addr_list ?t @ path_addrs cs)" "\<forall>x\<in>set (addr_list ?t @ path_addrs cs). x < next_addr ?h" "d \<notin> set (path_addrs cs)"
    using foc cc(3-6) by (auto simp: less_Suc_eq)
  obtain h' where h': "relinkGrandparent c' d (top_addr cs) (root, ?h) = (if cs = [] then Some c' else root, h')" "focus h' ?t cs"
      "next_addr h' = next_addr ?h" "\<forall>x. x \<notin> ctx_addr ` set cs \<longrightarrow> node_at h' x = node_at ?h x"
    by (rule relink_focus [OF hold path d(1,2) root_of.simps(2) d(3)])
  then show thesis using that [of h'] cc(2) by (simp add: focus_down(1) [symmetric])
qed

lemma choose_cases:
  assumes "node_at h d = \<lparr>tn_key = k, tn_value = v, tn_priority = p, tn_left = root_of l, tn_right = root_of r\<rparr>"
  obtains (leaf) "l = Tip" "r = Tip" "choose_child d h = None"
  | (left) cl a ck cv cp cr where "l = Bin cl a ck cv cp cr" "choose_child d h = Some (a, True)"
  | (right) cl a ck cv cp cr where "r = Bin cl a ck cv cp cr" "choose_child d h = Some (a, False)"
proof (cases l)
  case Tip
  then show thesis using assms leaf right by (cases r) (auto simp: choose_child_def)
next
  case l: (Bin cl a ck cv cp cr)
  show thesis
  proof (cases r)
    case Tip
    then show thesis using assms l left by (auto simp: choose_child_def)
  next
    case r: (Bin cl' a' ck' cv' cp' cr')
    show thesis using assms l r left right
      by (cases "tn_priority (node_at h a) \<ge> tn_priority (node_at h a')") (auto simp: choose_child_def)
  qed
qed

text \<open>What sinking the node \<open>d\<close> leaves: a leaf in a new context, with the other items in their order.\<close>

definition sunk :: "bool \<Rightarrow> addr \<Rightarrow> store \<Rightarrow> tree \<Rightarrow> addr \<Rightarrow> bytes \<Rightarrow> bytes \<Rightarrow> int \<Rightarrow> tree \<Rightarrow> ctx list \<Rightarrow> ctx list \<Rightarrow> addr option \<Rightarrow> store \<Rightarrow> bool" where
  "sunk clones n0 h l d k v p r cs cs' root' h' \<longleftrightarrow> focus h' (Bin Tip d k v p Tip) cs'
     \<and> (cs' \<noteq> [] \<longrightarrow> root' = Some (ctx_addr (last cs'))) \<and> (cs \<noteq> [] \<or> l \<noteq> Tip \<or> r \<noteq> Tip \<longrightarrow> cs' \<noteq> [])
     \<and> before cs' @ after cs' = before cs @ items l @ items r @ after cs \<and> next_addr h \<le> next_addr h'
     \<and> (clones \<longrightarrow> (\<forall>x<n0. node_at h' x = node_at h x) \<and> (\<forall>c\<in>set cs'. n0 \<le> ctx_addr c))
     \<and> (\<not> clones \<longrightarrow> next_addr h' = next_addr h \<and> set (path_addrs cs') = set (addr_list l @ addr_list r @ path_addrs cs)
         \<and> (\<forall>x. x \<notin> insert d (set (addr_list l @ addr_list r @ path_addrs cs)) \<longrightarrow> node_at h' x = node_at h x))"

lemma sink_law:
  assumes "focus h (Bin l d k v p r) cs" "cs \<noteq> [] \<longrightarrow> root = Some (ctx_addr (last cs))"
    and "n0 \<le> next_addr h" "clones \<longrightarrow> n0 \<le> d \<and> (\<forall>c\<in>set cs. n0 \<le> ctx_addr c)"
  shows "\<exists>cs' root' h'. sink clones d (top_addr cs) (root, h) = Some (top_addr cs', root', h') \<and> sunk clones n0 h l d k v p r cs cs' root' h'"
  using assms
proof (induction "length (addr_list l) + length (addr_list r)" arbitrary: l r cs h root rule: less_induct)
  case less
  note foc = less.prems(1) [unfolded focus_def]
  have "node_at h d = \<lparr>tn_key = k, tn_value = v, tn_priority = p, tn_left = root_of l, tn_right = root_of r\<rparr>" using foc by simp
  then show ?case
  proof (cases rule: choose_cases)
    case leaf
    then have "sink clones d (top_addr cs) (root, h) = Some (top_addr cs, root, h)" by (subst sink.simps) simp
    then show ?thesis using less.prems leaf by (intro exI [of _ cs] exI [of _ root] exI [of _ h]) (auto simp: sunk_def)
  next
    case (left cl a ck cv cp cr)
    obtain c' hc where cc: "(c', hc) = (if clones then cloneTreapNode a h else (a, h))" by (cases "if clones then cloneTreapNode a h else (a, h)") auto
    have "focus h (Bin cl a ck cv cp cr) (GoL d k v p r # cs)" using less.prems(1) by (simp add: left focus_down)
    note copy = child_copy [OF this cc]
    let ?ds = "GoR cl c' ck cv cp # cs" and ?root = "if cs = [] then Some c' else root"
    obtain h1 where h1: "relinkGrandparent c' d (top_addr cs) (root, set_left d (right_of hc c') (set_right c' (Some d) hc)) = (?root, h1)"
        "focus h1 (Bin cr d k v p r) ?ds" "next_addr h1 = next_addr hc" "\<forall>x. x \<notin> insert c' (insert d (ctx_addr ` set cs)) \<longrightarrow> node_at h1 x = node_at h x"
      by (rule rotate_down_left [OF less.prems(1) [unfolded left(1)] cc])
    have run: "sink clones d (top_addr cs) (root, h) = sink clones d (top_addr ?ds) (?root, h1)"
      using left(2) h1(1) cc [symmetric] by (subst sink.simps) (simp add: Let_def)
    have old: "?ds \<noteq> [] \<longrightarrow> ?root = Some (ctx_addr (last ?ds))" "n0 \<le> next_addr h1" "clones \<longrightarrow> n0 \<le> d \<and> (\<forall>c\<in>set ?ds. n0 \<le> ctx_addr c)"
        "length (addr_list cr) + length (addr_list r) < length (addr_list l) + length (addr_list r)"
      using less.prems(2-4) copy(5,6) h1(3) by (auto simp: left(1))
    obtain cs' root' h' where res: "sink clones d (top_addr ?ds) (?root, h1) = Some (top_addr cs', root', h')" "sunk clones n0 h1 cr d k v p r ?ds cs' root' h'"
      using less.hyps [OF old(4) h1(2) old(1-3)] by blast
    have "x \<notin> insert c' (insert d (ctx_addr ` set cs))" if "x \<notin> insert d (set (addr_list l @ addr_list r @ path_addrs cs)) \<and> \<not> clones \<or> x < n0 \<and> clones" for x
      using that copy(6) less.prems(3,4) ctx_addr_path [of _ cs] by (auto simp: left(1))
    then have "node_at h1 x = node_at h x" if "x \<notin> insert d (set (addr_list l @ addr_list r @ path_addrs cs)) \<and> \<not> clones \<or> x < n0 \<and> clones" for x
      using that h1(4) by blast
    then have "sunk clones n0 h l d k v p r cs cs' root' h'" using res(2) h1(3) copy(5,6) by (auto simp: sunk_def left(1))
    then show ?thesis using res(1) run by auto
  next
    case (right cl a ck cv cp cr)
    obtain c' hc where cc: "(c', hc) = (if clones then cloneTreapNode a h else (a, h))" by (cases "if clones then cloneTreapNode a h else (a, h)") auto
    have "focus h (Bin cl a ck cv cp cr) (GoR l d k v p # cs)" using less.prems(1) focus_down(2) by (simp add: right)
    note copy = child_copy [OF this cc]
    let ?ds = "GoL c' ck cv cp cr # cs" and ?root = "if cs = [] then Some c' else root"
    obtain h1 where h1: "relinkGrandparent c' d (top_addr cs) (root, set_right d (left_of hc c') (set_left c' (Some d) hc)) = (?root, h1)"
        "focus h1 (Bin l d k v p cl) ?ds" "next_addr h1 = next_addr hc" "\<forall>x. x \<notin> insert c' (insert d (ctx_addr ` set cs)) \<longrightarrow> node_at h1 x = node_at h x"
      by (rule rotate_down_right [OF less.prems(1) [unfolded right(1)] cc])
    have run: "sink clones d (top_addr cs) (root, h) = sink clones d (top_addr ?ds) (?root, h1)"
      using right(2) h1(1) cc [symmetric] by (subst sink.simps) (simp add: Let_def)
    have old: "?ds \<noteq> [] \<longrightarrow> ?root = Some (ctx_addr (last ?ds))" "n0 \<le> next_addr h1" "clones \<longrightarrow> n0 \<le> d \<and> (\<forall>c\<in>set ?ds. n0 \<le> ctx_addr c)"
        "length (addr_list l) + length (addr_list cl) < length (addr_list l) + length (addr_list r)"
      using less.prems(2-4) copy(5,6) h1(3) by (auto simp: right(1))
    obtain cs' root' h' where res: "sink clones d (top_addr ?ds) (?root, h1) = Some (top_addr cs', root', h')" "sunk clones n0 h1 l d k v p cl ?ds cs' root' h'"
      using less.hyps [OF old(4) h1(2) old(1-3)] by blast
    have "x \<notin> insert c' (insert d (ctx_addr ` set cs))" if "x \<notin> insert d (set (addr_list l @ addr_list r @ path_addrs cs)) \<and> \<not> clones \<or> x < n0 \<and> clones" for x
      using that copy(6) less.prems(3,4) ctx_addr_path [of _ cs] by (auto simp: right(1))
    then have "node_at h1 x = node_at h x" if "x \<notin> insert d (set (addr_list l @ addr_list r @ path_addrs cs)) \<and> \<not> clones \<or> x < n0 \<and> clones" for x
      using that h1(4) by blast
    then have "sunk clones n0 h l d k v p r cs cs' root' h'" using res(2) h1(3) copy(5,6) by (auto simp: sunk_def right(1))
    then show ?thesis using res(1) run by auto
  qed
qed

lemma unlink_law:
  assumes "focus h (Bin Tip d k v p Tip) (c # cs)"
  shows "focus (unlink (ctx_addr c) d h) Tip (c # cs)" "next_addr (unlink (ctx_addr c) d h) = next_addr h"
    "\<forall>x. x \<noteq> ctx_addr c \<longrightarrow> node_at (unlink (ctx_addr c) d h) x = node_at h x"
    "node_size (node_at (unlink (ctx_addr c) d h) d) = nodeFieldsSize + (length k + length v)"
proof -
  note foc = assms [unfolded focus_def]
  let ?h = "unlink (ctx_addr c) d h"
  have ne: "d \<noteq> ctx_addr c" using foc ctx_addr_path [of c "c # cs"] by auto
  show n: "next_addr ?h = next_addr h" and same: "\<forall>x. x \<noteq> ctx_addr c \<longrightarrow> node_at ?h x = node_at h x"
    by (simp_all add: unlink_def)
  then show "node_size (node_at ?h d) = nodeFieldsSize + (length k + length v)" using foc ne by (simp add: node_size_def)
  have "path_holds ?h None (c # cs)"
  proof (cases c)
    case c: (GoL b k' v' q r)
    have "root_of r \<noteq> Some d" using foc root_of_addr [of r d] by (auto simp: c)
    then have h: "unlink b d h = set_left b None h" using foc by (simp add: unlink_def c)
    have "holds ?h r" by (rule holds_frame [of h]) (use foc same in \<open>auto simp: c\<close>)
    moreover have "path_holds ?h (Some b) cs" by (rule path_holds_frame [of h]) (use foc same in \<open>auto simp: c\<close>)
    ultimately show ?thesis using foc by (simp add: h c)
  next
    case c: (GoR l b k' v' q)
    have h: "unlink b d h = set_right b None h" using foc by (simp add: unlink_def c)
    have "holds ?h l" by (rule holds_frame [of h]) (use foc same in \<open>auto simp: c\<close>)
    moreover have "path_holds ?h (Some b) cs" by (rule path_holds_frame [of h]) (use foc same in \<open>auto simp: c\<close>)
    ultimately show ?thesis using foc by (simp add: h c)
  qed
  then show "focus ?h Tip (c # cs)" using foc n by (simp add: focus_def)
qed

lemma before_append [simp]: "before (cs @ ds) = before ds @ before cs" and after_append [simp]: "after (cs @ ds) = after cs @ after ds"
  by (induction cs rule: before.induct) auto

lemma plug_append: "plug t (cs @ ds) = plug (plug t cs) ds"
  by (induction t cs rule: plug.induct) auto

lemma clone_parents_law:
  assumes "focus h (plug (Bin l d k v p r) inner) cs" "is_stack parents (d # map ctx_addr (inner @ outer))"
    and "is_stack newParents (map ctx_addr cs)" "\<forall>c\<in>set cs. n0 \<le> ctx_addr c" "n0 \<le> next_addr h"
  shows "\<exists>newParents' h' d' cs'. clone_parents (Suc (length inner)) parents newParents h = Some (newParents', h')
    \<and> is_stack newParents' (d' # map ctx_addr cs') \<and> focus h' (Bin l d' k v p r) cs' \<and> before cs' = before (inner @ cs) \<and> after cs' = after (inner @ cs)
    \<and> length cs' = length inner + length cs \<and> n0 \<le> d' \<and> (\<forall>c\<in>set cs'. n0 \<le> ctx_addr c) \<and> next_addr h \<le> next_addr h' \<and> (\<forall>x<n0. node_at h' x = node_at h x)"
  using assms
proof (induction inner arbitrary: h cs newParents outer rule: rev_induct)
  case Nil
  have at: "ps_At parents 0 = Some d" using ps_At_law(1) [OF Nil(2), of 0] by simp
  obtain h' where h': "clone_step d newParents h = (ps_Push (next_addr h) newParents, h')" "focus h' (Bin l (next_addr h) k v p r) cs"
      "next_addr h' = Suc (next_addr h)" "\<forall>x. x \<noteq> next_addr h \<longrightarrow> x \<notin> ctx_addr ` set cs \<longrightarrow> node_at h' x = node_at h x"
    using clone_step_law [of h l d k v p r cs newParents] Nil(1,3) by auto
  have "x \<noteq> next_addr h \<and> x \<notin> ctx_addr ` set cs" if "x < n0" for x using that Nil(4,5) by auto
  then have "\<forall>x<n0. node_at h' x = node_at h x" using h'(4) by blast
  then show ?case using h' at Nil(3-5)
    by (intro exI [of _ "ps_Push (next_addr h) newParents"] exI [of _ h'] exI [of _ "next_addr h"] exI [of _ cs]) simp
next
  case (snoc c inner)
  obtain l' a k' v' q r' ctx where c: "plug (Bin l d k v p r) (inner @ [c]) = Bin l' a k' v' q r'" "ctx_addr c = a"
      "\<forall>a'. plug (Bin l d k v p r) (inner @ [ctx a']) = Bin l' a' k' v' q r' \<and> ctx_addr (ctx a') = a' \<and> before [ctx a'] = before [c] \<and> after [ctx a'] = after [c]"
    using that [where ctx = "\<lambda>a'. case c of GoL a k v p r \<Rightarrow> GoL a' k v p r | GoR l a k v p \<Rightarrow> GoR l a' k v p"] by (cases c) (auto simp: plug_append)
  let ?n = "next_addr h"
  have at: "ps_At parents (int (Suc (length inner))) = Some a"
    using ps_At_law(1) [OF snoc.prems(2), of "Suc (length inner)"] by (simp add: nth_append c(2))
  obtain h' where h': "clone_step a newParents h = (ps_Push ?n newParents, h')" "focus h' (Bin l' ?n k' v' q r') cs"
      "next_addr h' = Suc ?n" "\<forall>x. x \<noteq> ?n \<longrightarrow> x \<notin> ctx_addr ` set cs \<longrightarrow> node_at h' x = node_at h x"
    using clone_step_law [of h l' a k' v' q r' cs newParents] snoc.prems(1,3) c(1) by auto
  have "x \<noteq> ?n \<and> x \<notin> ctx_addr ` set cs" if "x < n0" for x using that snoc.prems(4,5) by auto
  then have same: "\<forall>x<n0. node_at h' x = node_at h x" using h'(4) by blast
  have "focus h' (plug (plug (Bin l d k v p r) inner) [ctx ?n]) cs" using h'(2) c(3) by (simp add: plug_append)
  then have "focus h' (plug (Bin l d k v p r) inner) (ctx ?n # cs)"
    using focus_plug [of h' "plug (Bin l d k v p r) inner" "ctx ?n # cs"] focus_plug [of h' _ cs] plug_append [of _ "[ctx ?n]" cs] by simp
  moreover have "is_stack (ps_Push ?n newParents) (map ctx_addr (ctx ?n # cs))" using snoc.prems(3) c(3) by simp
  ultimately obtain newParents' h2 d' cs' where res: "clone_parents (Suc (length inner)) parents (ps_Push ?n newParents) h' = Some (newParents', h2)"
      "is_stack newParents' (d' # map ctx_addr cs')" "focus h2 (Bin l d' k v p r) cs'" "before cs' = before (inner @ ctx ?n # cs)" "after cs' = after (inner @ ctx ?n # cs)"
      "length cs' = length inner + length (ctx ?n # cs)" "n0 \<le> d'" "\<forall>c\<in>set cs'. n0 \<le> ctx_addr c" "next_addr h' \<le> next_addr h2" "\<forall>x<n0. node_at h2 x = node_at h' x"
    using snoc.IH [of h' "ctx ?n # cs" "c # outer" "ps_Push ?n newParents"] snoc.prems(2,4,5) h'(3) c(3) by auto
  have "before (inner @ ctx ?n # cs) = before ((inner @ [c]) @ cs)" "after (inner @ ctx ?n # cs) = after ((inner @ [c]) @ cs)"
    using c(3) before_append [of "[ctx ?n]" cs] before_append [of "[c]" cs] after_append [of "[ctx ?n]" cs] after_append [of "[c]" cs] by simp_all
  then show ?case using res at h'(1,3) same
    by (intro exI [of _ newParents'] exI [of _ h2] exI [of _ d'] exI [of _ cs']) simp
qed

lemma delete_items:
  assumes "in_order (items t)" "items t = before cs @ (items l @ (key, v) # items r) @ after cs"
    and "before cs' @ after cs' = before cs @ items l @ items r @ after cs"
  shows "in_order (items (plug Tip cs'))" "map_of (items (plug Tip cs')) = (map_of (items t))(key := None)"
    "length (items t) = Suc (length (items (plug Tip cs')))"
    "total_size (items t) = total_size (items (plug Tip cs')) + (nodeFieldsSize + (length key + length v))"
proof -
  have t': "items (plug Tip cs') = (before cs @ items l) @ items r @ after cs" using assms(3) by simp
  show "in_order (items (plug Tip cs'))" "map_of (items (plug Tip cs')) = (map_of (items t))(key := None)"
    unfolding t' using replace_value(3,4) [of "before cs @ items l" key v "items r @ after cs"] assms(1,2) by simp_all
  show "length (items t) = Suc (length (items (plug Tip cs')))"
    "total_size (items t) = total_size (items (plug Tip cs')) + (nodeFieldsSize + (length key + length v))"
    unfolding t' by (simp_all add: assms(2))
qed

lemma absent:
  assumes "in_order (items t)" "plug Tip cs = t" "list_all (side key) cs"
  shows "map_of (items t) = (map_of (items t))(key := None)"
proof -
  have it: "items t = before cs @ after cs" using items_plug [of Tip cs] by (simp add: assms(2))
  have "map_of (items t) key = None" using sides [of cs key] assms(1,3) by (fastforce simp: it map_of_eq_None_iff)
  then show ?thesis by auto
qed

lemma im_Delete_law:
  assumes "im_rep h T t"
  shows "\<exists>T' h' t'. im_Delete key T h = Some (T', h') \<and> im_rep h' T' t' \<and> map_of (items t') = (map_of (items t))(key := None) \<and> keeps h h'"
proof -
  have rep: "im_root T = root_of t" "focus h t []" "in_order (items t)" "im_count T = int (length (items t))"
      "im_totalSize T = of_nat (total_size (items t))" using assms(1) by (simp_all add: treap_rep_def)
  obtain found parents cr u cs where path: "find_path (root_of t) key empty_stack 0 h = Some (found, parents, cr)"
    and u: "plug u cs = t" "list_all (side key) cs"
    and found: "case u of Tip \<Rightarrow> found = None \<and> is_stack parents (map ctx_addr cs) \<and> (cs \<noteq> [] \<longrightarrow> (cr < 0 \<longleftrightarrow> is_left (hd cs)))
      | Bin l a k v p r \<Rightarrow> k = key \<and> found = Some a \<and> is_stack parents (a # map ctx_addr cs)"
    using find_path_law [OF rep(2), of empty_stack key 0] by auto
  show ?thesis
  proof (cases u)
    case Tip
    then have "im_Delete key T h = Some (T, h)" using path rep(1) found by (simp add: im_Delete_def)
    moreover have "keeps h h" by (simp add: keeps_def)
    ultimately show ?thesis using assms absent [OF rep(3) u(1) [unfolded Tip] u(2)] by blast
  next
    case u': (Bin l d k v p r)
    have f: "found = Some d" "k = key" "is_stack parents (d # map ctx_addr cs)" using found by (simp_all add: u')
    have foc: "focus h (Bin l d key v p r) cs" using rep(2) focus_plug [of h u cs] by (simp add: u(1) [symmetric] u' f(2))
    have node: "left_of h d = root_of l" "right_of h d = root_of r" using foc by (simp_all add: focus_def)
    have it: "items t = before cs @ (items l @ (key, v) # items r) @ after cs" by (simp add: u(1) [symmetric] u' f(2))
    have one: "ps_At parents 1 = top_addr cs"
      using ps_At_law(1,4) [OF f(3), of 1] by (cases cs) auto
    show ?thesis
    proof (cases "cs = [] \<and> l = Tip \<and> r = Tip")
      case True
      then have "im_Delete key T h = Some (\<lparr>im_root = None, im_count = 0, im_totalSize = 0\<rparr>, h)"
        using path rep(1) f(1) one node by (simp add: im_Delete_def)
      moreover have "im_rep h \<lparr>im_root = None, im_count = 0, im_totalSize = 0\<rparr> Tip" by (simp add: treap_rep_def focus_def in_order_def)
      ultimately show ?thesis using True it by (fastforce simp: keeps_def)
    next
      case False
      have more: "\<not> (top_addr cs = None \<and> root_of l = None \<and> root_of r = None)" using False by (cases cs; cases l; cases r) auto
      obtain np h1 d' ds where cl: "clone_parents (Suc (length cs)) parents empty_stack h = Some (np, h1)" "is_stack np (d' # map ctx_addr ds)"
          "focus h1 (Bin l d' key v p r) ds" "before ds = before cs" "after ds = after cs" "length ds = length cs"
          "next_addr h \<le> d'" "\<forall>c\<in>set ds. next_addr h \<le> ctx_addr c" "next_addr h \<le> next_addr h1" "\<forall>x<next_addr h. node_at h1 x = node_at h x"
        using clone_parents_law [of h l d key v p r cs "[]" parents "[]" empty_stack "next_addr h"] foc f(3) by (auto simp: focus_plug)
      obtain np' where pop: "ps_Pop np = (Some d', np')" "is_stack np' (map ctx_addr ds)" using ps_Pop_law [OF cl(2)] .
      let ?root = "ps_At np' (int (ps_index np') - 1)"
      have root: "ds \<noteq> [] \<longrightarrow> ?root = Some (ctx_addr (last ds))" using stack_bottom [OF pop(2)] by (auto simp: last_map)
      obtain cs' root' h2 where sk: "sink True d' (top_addr ds) (?root, h1) = Some (top_addr cs', root', h2)" "sunk True (next_addr h) h1 l d' key v p r ds cs' root' h2"
        using sink_law [OF cl(3) root cl(9), of True] cl(7,8) by auto
      have ne: "cs' \<noteq> []" using sk(2) False cl(6) by (auto simp: sunk_def)
      then obtain c cs'' where cs': "cs' = c # cs''" by (cases cs') auto
      let ?h = "unlink (ctx_addr c) d' h2"
      have foc': "focus h2 (Bin Tip d' key v p Tip) (c # cs'')" using sk(2) by (simp add: sunk_def cs')
      note un = unlink_law [OF foc']
      let ?T = "\<lparr>im_root = root', im_count = im_count T - 1, im_totalSize = im_totalSize T - nodeSize d' ?h\<rparr>"
      have idx: "ps_index parents = Suc (length cs)" using is_stack_index [OF f(3)] by simp
      have "im_Delete key T h = Some (?T, ?h)"
        using path rep(1) f(1) one node more cl(1) pop(1) sk(1) stack_top [OF pop(2)] idx by (auto simp: im_Delete_def cs' Let_def simp del: clone_parents.simps)
      moreover have "before cs' @ after cs' = before cs @ items l @ items r @ after cs" using sk(2) cl(4,5) by (simp add: sunk_def)
      note items = delete_items [OF rep(3) it this]
      have "root' = root_of (plug Tip cs')" using sk(2) ne by (simp add: sunk_def root_of_plug)
      moreover have "nodeSize d' ?h = of_nat (nodeFieldsSize + (length key + length v))" using un(4) by (simp add: nodeSize_def)
      ultimately have "im_rep ?h ?T (plug Tip cs')"
        using un(1) items(1) rep(4,5) unfolding items(3,4) by (simp add: treap_rep_def focus_plug cs')
      moreover have "next_addr h \<le> ctx_addr c" using sk(2) by (simp add: sunk_def cs')
      then have "keeps h ?h" using sk(2) cl(9,10) un(2,3) by (auto simp: keeps_def sunk_def)
      ultimately show ?thesis using \<open>im_Delete key T h = Some (?T, ?h)\<close> items(2) by blast
    qed
  qed
qed

lemma mu_Delete_law:
  assumes "mu_rep h T t"
  shows "\<exists>T' h' t'. mu_Delete key T h = Some (T', h') \<and> mu_rep h' T' t' \<and> map_of (items t') = (map_of (items t))(key := None) \<and> owns h t h' t'"
proof -
  have rep: "mu_root T = root_of t" "focus h t []" "in_order (items t)" "mu_count T = int (length (items t))"
      "mu_totalSize T = of_nat (total_size (items t))" using assms(1) by (simp_all add: treap_rep_def)
  obtain u cs where path: "mu_get (root_of t) None key h = Some (root_of u, if u = Tip then None else top_addr cs)"
    and u: "plug u cs = t" "list_all (side key) cs" "case u of Tip \<Rightarrow> True | Bin l a k v p r \<Rightarrow> k = key"
    using mu_get_law [of h t key "[]"] rep(2) by (auto simp: focus_def)
  show ?thesis
  proof (cases u)
    case Tip
    then have "mu_Delete key T h = Some (T, h)" using path rep(1) by (simp add: mu_Delete_def)
    moreover have "owns h t h t" by (auto simp: owns_def)
    ultimately show ?thesis using assms absent [OF rep(3) u(1) [unfolded Tip] u(2)] by blast
  next
    case u': (Bin l d k v p r)
    have k: "k = key" using u(3) by (simp add: u')
    have foc: "focus h (Bin l d key v p r) cs" using rep(2) focus_plug [of h u cs] by (simp add: u(1) [symmetric] u' k)
    have node: "left_of h d = root_of l" "right_of h d = root_of r" using foc by (simp_all add: focus_def)
    have it: "items t = before cs @ (items l @ (key, v) # items r) @ after cs" by (simp add: u(1) [symmetric] u' k)
    have ad: "set (addr_list t) = insert d (set (addr_list l @ addr_list r @ path_addrs cs))"
      unfolding u(1) [symmetric] set_addr_plug u' by auto
    show ?thesis
    proof (cases "cs = [] \<and> l = Tip \<and> r = Tip")
      case True
      let ?T = "T\<lparr>mu_root := None, mu_count := 0, mu_totalSize := 0\<rparr>"
      have "mu_Delete key T h = Some (?T, h)" using True path rep(1) node by (simp add: mu_Delete_def u')
      moreover have "mu_rep h ?T Tip" "owns h t h Tip" by (simp_all add: treap_rep_def focus_def in_order_def owns_def)
      ultimately show ?thesis using True it by fastforce
    next
      case False
      have more: "\<not> (top_addr cs = None \<and> root_of l = None \<and> root_of r = None)" using False by (cases cs; cases l; cases r) auto
      have root: "cs \<noteq> [] \<longrightarrow> mu_root T = Some (ctx_addr (last cs))" using rep(1) by (simp add: u(1) [symmetric] root_of_plug)
      obtain cs' root' h2 where sk: "sink False d (top_addr cs) (mu_root T, h) = Some (top_addr cs', root', h2)" "sunk False 0 h l d key v p r cs cs' root' h2"
        using sink_law [OF foc root, of 0 False] by auto
      have ne: "cs' \<noteq> []" using sk(2) False by (auto simp: sunk_def)
      then obtain c cs'' where cs': "cs' = c # cs''" by (cases cs') auto
      let ?h = "unlink (ctx_addr c) d h2"
      have foc': "focus h2 (Bin Tip d key v p Tip) (c # cs'')" using sk(2) by (simp add: sunk_def cs')
      note un = unlink_law [OF foc']
      let ?T = "\<lparr>mu_root = root', mu_count = mu_count T - 1, mu_totalSize = mu_totalSize T - nodeSize d ?h\<rparr>"
      have run: "mu_Delete key T h = Some (?T, ?h)"
        using path rep(1) node more sk(1) by (auto simp: mu_Delete_def u' cs' Let_def)
      have "before cs' @ after cs' = before cs @ items l @ items r @ after cs" using sk(2) by (simp add: sunk_def)
      note items = delete_items [OF rep(3) it this]
      have "root' = root_of (plug Tip cs')" using sk(2) ne by (simp add: sunk_def root_of_plug)
      moreover have "nodeSize d ?h = of_nat (nodeFieldsSize + (length key + length v))" using un(4) by (simp add: nodeSize_def)
      ultimately have "mu_rep ?h ?T (plug Tip cs')"
        using un(1) items(1) rep(4,5) unfolding items(3,4) by (simp add: treap_rep_def focus_plug cs')
      moreover have own: "next_addr h2 = next_addr h" "set (path_addrs cs') = set (addr_list l @ addr_list r @ path_addrs cs)"
          "\<forall>x. x \<notin> insert d (set (addr_list l @ addr_list r @ path_addrs cs)) \<longrightarrow> node_at h2 x = node_at h x"
        using sk(2) by (simp_all add: sunk_def)
      have "ctx_addr c \<in> set (path_addrs cs')" using ctx_addr_path [of c cs'] by (simp add: cs')
      then have "owns h t ?h (plug Tip cs')" using un(2,3) own ad by (auto simp: owns_def set_addr_plug)
      ultimately show ?thesis using run items(2) by blast
    qed
  qed
qed

section \<open>Any sequence of operations\<close>

datatype treap_op = OpPut bytes "bytes option" int | OpDelete bytes

fun run_ops :: "(bytes \<Rightarrow> bytes option \<Rightarrow> int \<Rightarrow> 's \<Rightarrow> 's option) \<Rightarrow> (bytes \<Rightarrow> 's \<Rightarrow> 's option) \<Rightarrow> treap_op list \<Rightarrow> 's \<Rightarrow> 's option" where
  "run_ops put del [] s = Some s"
| "run_ops put del (OpPut key val rnd # ops) s = Option.bind (put key val rnd s) (run_ops put del ops)"
| "run_ops put del (OpDelete key # ops) s = Option.bind (del key s) (run_ops put del ops)"

definition apply_op :: "treap_op \<Rightarrow> (bytes \<rightharpoonup> bytes) \<Rightarrow> (bytes \<rightharpoonup> bytes)" where
  "apply_op op m = (case op of OpPut key val rnd \<Rightarrow> m(key \<mapsto> or_empty val) | OpDelete key \<Rightarrow> m(key := None))"

abbreviation apply_ops :: "treap_op list \<Rightarrow> (bytes \<rightharpoonup> bytes) \<Rightarrow> (bytes \<rightharpoonup> bytes)" where
  "apply_ops ops \<equiv> fold apply_op ops"

text \<open>What a store of keys and values promises, whatever its states are; \<open>later\<close> relates the states that it goes through.\<close>

locale key_value_store =
  fixes rep :: "'s \<Rightarrow> (bytes \<rightharpoonup> bytes) \<Rightarrow> bool"
    and put :: "bytes \<Rightarrow> bytes option \<Rightarrow> int \<Rightarrow> 's \<Rightarrow> 's option"
    and del :: "bytes \<Rightarrow> 's \<Rightarrow> 's option"
    and lookup :: "bytes \<Rightarrow> 's \<Rightarrow> bytes option option"
    and later :: "'s \<Rightarrow> 's \<Rightarrow> bool"
  assumes put_law: "rep s m \<Longrightarrow> \<exists>s'. put key val rnd s = Some s' \<and> rep s' (m(key \<mapsto> or_empty val)) \<and> later s s'"
    and del_law: "rep s m \<Longrightarrow> \<exists>s'. del key s = Some s' \<and> rep s' (m(key := None)) \<and> later s s'"
    and lookup_law: "rep s m \<Longrightarrow> lookup key s = Some (m key)"
    and later_refl: "later s s"
    and later_trans: "later s s' \<Longrightarrow> later s' s'' \<Longrightarrow> later s s''"
begin

lemma run_law: "rep s m \<Longrightarrow> \<exists>s'. run_ops put del ops s = Some s' \<and> rep s' (apply_ops ops m) \<and> later s s'"
proof (induction ops arbitrary: s m)
  case (Cons op ops)
  obtain s1 where s1: "run_ops put del (op # ops) s = run_ops put del ops s1" "rep s1 (apply_op op m)" "later s s1"
  proof (cases op)
    case (OpPut key val rnd)
    with put_law [OF Cons.prems, of key val rnd] that show thesis by (auto simp: apply_op_def)
  next
    case (OpDelete key)
    with del_law [OF Cons.prems, of key] that show thesis by (auto simp: apply_op_def)
  qed
  then show ?case using Cons.IH [OF s1(2)] later_trans by auto
qed (auto intro: later_refl)

lemma lookup_after_run:
  assumes "rep s m"
  shows "\<exists>s'. run_ops put del ops s = Some s' \<and> (\<forall>key. lookup key s' = Some (apply_ops ops m key))"
  using run_law [OF assms, of ops] lookup_law by blast

end

definition im_state :: "Immutable \<times> store \<Rightarrow> (bytes \<rightharpoonup> bytes) \<Rightarrow> bool" where
  "im_state s m \<longleftrightarrow> (\<exists>t. im_rep (snd s) (fst s) t \<and> map_of (items t) = m)"

definition mu_state :: "Mutable \<times> store \<Rightarrow> (bytes \<rightharpoonup> bytes) \<Rightarrow> bool" where
  "mu_state s m \<longleftrightarrow> (\<exists>t. mu_rep (snd s) (fst s) t \<and> map_of (items t) = m)"

lemma im_Get_law: "im_state (T, h) m \<Longrightarrow> im_Get key T h = Some (m key)"
  using im_get_law by (fastforce simp: im_state_def treap_rep_def focus_def im_Get_def)

lemma mu_Get_law:
  assumes "mu_state (T, h) m"
  shows "mu_Get key T h = Some (m key)"
proof -
  obtain t where t: "mu_root T = root_of t" "focus h t []" "in_order (items t)" "map_of (items t) = m"
    using assms by (auto simp: mu_state_def treap_rep_def)
  obtain u cs where u: "mu_get (root_of t) None key h = Some (root_of u, if u = Tip then None else top_addr cs)"
      "plug u cs = t" "list_all (side key) cs" "case u of Tip \<Rightarrow> True | Bin l a k v p r \<Rightarrow> k = key"
    using mu_get_law [of h t key "[]"] t(2) by (auto simp: focus_def)
  show ?thesis
  proof (cases u)
    case Tip
    then show ?thesis using u(1) t(1,4) absent [OF t(3) u(2) [unfolded Tip] u(3)] by (simp add: mu_Get_def) (metis fun_upd_same)
  next
    case (Bin l a k v p r)
    have "in_order ((before cs @ items l) @ (key, v) # items r @ after cs)" "m = map_of ((before cs @ items l) @ (key, v) # items r @ after cs)"
      using t(3,4) u(4) by (simp_all add: u(2) [symmetric] Bin)
    then have "m key = Some v" using replace_value(2) [of "before cs @ items l" key v "items r @ after cs" v] by (metis fun_upd_same)
    moreover have "tn_value (node_at h a) = v" using t(2) u(2) holds_plug [of h u cs] by (auto simp: focus_def Bin)
    ultimately show ?thesis using u(1) t(1) by (simp add: mu_Get_def Bin)
  qed
qed

interpretation im: key_value_store im_state "\<lambda>key val rnd (T, h). im_Put key val rnd T h" "\<lambda>key (T, h). im_Delete key T h"
  "\<lambda>key (T, h). im_Get key T h" "\<lambda>(T, h) (T', h'). keeps h h'"
proof unfold_locales
  fix s m key val rnd
  assume s: "im_state s m"
  obtain T h where Th: "s = (T, h)" by (cases s)
  obtain t where t: "im_rep h T t" "map_of (items t) = m" using s by (auto simp: im_state_def Th)
  show "\<exists>s'. (case s of (T, h) \<Rightarrow> im_Put key val rnd T h) = Some s' \<and> im_state s' (m(key \<mapsto> or_empty val)) \<and> (case s of (T, h) \<Rightarrow> \<lambda>(T', h'). keeps h h') s'"
    using im_Put_law [OF t(1) refl, of key val rnd] t(2) by (fastforce simp: Th im_state_def)
  show "\<exists>s'. (case s of (T, h) \<Rightarrow> im_Delete key T h) = Some s' \<and> im_state s' (m(key := None)) \<and> (case s of (T, h) \<Rightarrow> \<lambda>(T', h'). keeps h h') s'"
    using im_Delete_law [OF t(1), of key] t(2) by (fastforce simp: Th im_state_def)
  show "(case s of (T, h) \<Rightarrow> im_Get key T h) = Some (m key)" using im_Get_law s by (simp add: Th)
qed (auto simp: keeps_def)

interpretation mu: key_value_store mu_state "\<lambda>key val rnd (T, h). mu_Put key val rnd T h" "\<lambda>key (T, h). mu_Delete key T h"
  "\<lambda>key (T, h). mu_Get key T h" "\<lambda>_ _. True"
proof unfold_locales
  fix s m key val rnd
  assume s: "mu_state s m"
  obtain T h where Th: "s = (T, h)" by (cases s)
  obtain t where t: "mu_rep h T t" "map_of (items t) = m" using s by (auto simp: mu_state_def Th)
  show "\<exists>s'. (case s of (T, h) \<Rightarrow> mu_Put key val rnd T h) = Some s' \<and> mu_state s' (m(key \<mapsto> or_empty val)) \<and> True"
    using mu_Put_law [OF t(1) refl, of key val rnd] t(2) by (fastforce simp: Th mu_state_def)
  show "\<exists>s'. (case s of (T, h) \<Rightarrow> mu_Delete key T h) = Some s' \<and> mu_state s' (m(key := None)) \<and> True"
    using mu_Delete_law [OF t(1), of key] t(2) by (fastforce simp: Th mu_state_def)
  show "(case s of (T, h) \<Rightarrow> mu_Get key T h) = Some (m key)" using mu_Get_law s by (simp add: Th)
qed auto

lemma new_states: "im_state (NewImmutable, h) Map.empty" "mu_state (NewMutable, h) Map.empty"
  by (auto simp: im_state_def mu_state_def treap_rep_def focus_def in_order_def NewImmutable_def NewMutable_def intro!: exI [of _ Tip])

abbreviation im_run :: "treap_op list \<Rightarrow> Immutable \<times> store \<Rightarrow> (Immutable \<times> store) option" where
  "im_run \<equiv> run_ops (\<lambda>key val rnd (T, h). im_Put key val rnd T h) (\<lambda>key (T, h). im_Delete key T h)"

abbreviation mu_run :: "treap_op list \<Rightarrow> Mutable \<times> store \<Rightarrow> (Mutable \<times> store) option" where
  "mu_run \<equiv> run_ops (\<lambda>key val rnd (T, h). mu_Put key val rnd T h) (\<lambda>key (T, h). mu_Delete key T h)"

lemma count_card: "in_order kvs \<Longrightarrow> length kvs = card (dom (map_of kvs))"
proof -
  assume "in_order kvs"
  then have "distinct (map fst kvs)" by (simp add: in_order_def strict_sorted_iff)
  then show ?thesis using distinct_card [of "map fst kvs"] by (simp add: dom_map_of_conv_image_fst)
qed

text \<open>C12: A mutable treap is a map. Whatever keys are put and deleted in whatever order, with whatever priorities, every
  operation ends without a nil pointer being dereferenced, a lookup then finds exactly the value that was put last and
  not deleted since, and the number of items is the number of such keys.\<close>

theorem mutable_treap_is_map:
  "\<exists>T h'. mu_run ops (NewMutable, h) = Some (T, h') \<and> (\<forall>key. mu_Get key T h' = Some (apply_ops ops Map.empty key))
     \<and> mu_count T = int (card (dom (apply_ops ops Map.empty)))"
proof -
  obtain T h' where run: "mu_run ops (NewMutable, h) = Some (T, h')" "mu_state (T, h') (apply_ops ops Map.empty)"
    using mu.run_law [OF new_states(2), of ops h] by auto
  then have "mu_count T = int (card (dom (apply_ops ops Map.empty)))"
    using count_card by (auto simp: mu_state_def treap_rep_def)
  with run mu_Get_law [OF run(2)] show ?thesis by blast
qed

text \<open>C11: A version of an immutable treap is a snapshot. After any further operations, in the same store and although they
  share nodes with it, the old version still has exactly its own contents, and the new one those of all operations.\<close>

theorem immutable_treap_snapshots:
  "\<exists>T h1 T' h2. im_run ops (NewImmutable, h) = Some (T, h1) \<and> im_run ops' (T, h1) = Some (T', h2)
     \<and> (\<forall>key. im_Get key T h2 = Some (apply_ops ops Map.empty key)) \<and> (\<forall>key. im_Get key T' h2 = Some (apply_ops (ops @ ops') Map.empty key))"
proof -
  obtain T h1 where run: "im_run ops (NewImmutable, h) = Some (T, h1)" "im_state (T, h1) (apply_ops ops Map.empty)"
    using im.run_law [OF new_states(1), of ops h] by auto
  obtain T' h2 where run': "im_run ops' (T, h1) = Some (T', h2)" "im_state (T', h2) (apply_ops ops' (apply_ops ops Map.empty))" "keeps h1 h2"
    using im.run_law [OF run(2), of ops'] by auto
  have "im_state (T, h2) (apply_ops ops Map.empty)" using run(2) keeps_rep [OF run'(3)] unfolding im_state_def by (metis fst_conv snd_conv)
  then show ?thesis using run run'(1) im_Get_law im_Get_law [OF run'(2)] by auto
qed

definition blank_store :: store where
  "blank_store = \<lparr>node_at = (\<lambda>_. \<lparr>tn_key = [], tn_value = [], tn_priority = 0, tn_left = None, tn_right = None\<rparr>), next_addr = 0\<rparr>"

text \<open>Deleting a key breaks the order of priorities. In a treap whose nodes have the priorities 1, 5 and 3, put in this
  order, deleting the root leaves a node of priority 5 above one of priority 3: \<open>Delete\<close> rotates the child with the
  greater priority up, while \<open>Put\<close> keeps a heap with the smallest priority at the root.\<close>

lemma delete_breaks_heap:
  "case mu_run [OpPut [2] None 1, OpPut [1] None 5, OpPut [3] None 3, OpDelete [2]] (NewMutable, blank_store) of
     Some (T, h) \<Rightarrow> (case mu_root T of Some a \<Rightarrow> (case right_of h a of
         Some b \<Rightarrow> tn_priority (node_at h a) = 5 \<and> tn_priority (node_at h b) = 3 | None \<Rightarrow> False) | None \<Rightarrow> False)
   | None \<Rightarrow> False"
  by code_simp

end
