(* ===== verification/Db_Iterator.thy ===== *)
theory Db_Iterator
  imports Db_Treap
begin

text \<open>
  Traversal of treaps: \<open>ForEach\<close> (the same code in \<open>mutable.go\<close> and \<open>immutable.go\<close>) and the iterators of
  \<open>treapiter.go\<close>, which may be limited to a range of keys and are told when the treap below them changes. Forward
  iteration over a range visits the keys of the range in ascending order; an iterator with a limit but no start does not
  check its first key against the limit.
\<close>

section \<open>Visiting all items\<close>

text \<open>A node and its children to the left are pushed.\<close>

partial_function (option) push_left :: "addr option \<Rightarrow> parentStack \<Rightarrow> store \<Rightarrow> parentStack option" where
  "push_left node parents h =
     (case node of None \<Rightarrow> Some parents | Some n \<Rightarrow> push_left (left_of h n) (ps_Push n parents) h)"

text \<open>The function that is called may change a state; its result says whether to go on.\<close>

partial_function (option) foreach_loop :: "parentStack \<Rightarrow> (bytes \<Rightarrow> bytes \<Rightarrow> 's \<Rightarrow> bool \<times> 's) \<Rightarrow> store \<Rightarrow> 's \<Rightarrow> 's option" where
  "foreach_loop parents fn h s =
     (if ps_index parents = 0 then Some s
      else Option.bind (fst (ps_Pop parents)) (\<lambda>node.
        let (go, s) = fn (tn_key (node_at h node)) (tn_value (node_at h node)) s in
        if \<not> go then Some s
        else Option.bind (push_left (right_of h node) (snd (ps_Pop parents)) h) (\<lambda>parents. foreach_loop parents fn h s)))"

definition ForEach :: "(bytes \<Rightarrow> bytes \<Rightarrow> 's \<Rightarrow> bool \<times> 's) \<Rightarrow> addr option \<Rightarrow> store \<Rightarrow> 's \<Rightarrow> 's option" where
  "ForEach fn root h s = Option.bind (push_left root empty_stack h) (\<lambda>parents. foreach_loop parents fn h s)"

section \<open>Iterators\<close>

text \<open>\<open>it_t\<close> tells whether the iterator belongs to a mutable treap, whose root \<open>ForceReseek\<close> reads.\<close>

record Iterator =
  it_t :: bool
  it_root :: "addr option"
  it_node :: "addr option"
  it_parents :: parentStack
  it_isNew :: bool
  it_seekKey :: "bytes option"
  it_startKey :: "bytes option"
  it_limitKey :: "bytes option"

definition new_iterator :: "bool \<Rightarrow> addr option \<Rightarrow> bytes option \<Rightarrow> bytes option \<Rightarrow> Iterator" where
  "new_iterator mutable root startKey limitKey =
     \<lparr>it_t = mutable, it_root = root, it_node = None, it_parents = empty_stack, it_isNew = True, it_seekKey = None,
      it_startKey = startKey, it_limitKey = limitKey\<rparr>"

definition mu_Iterator :: "bytes option \<Rightarrow> bytes option \<Rightarrow> Mutable \<Rightarrow> Iterator" where
  "mu_Iterator startKey limitKey t = new_iterator True (mu_root t) startKey limitKey"

definition im_Iterator :: "bytes option \<Rightarrow> bytes option \<Rightarrow> Immutable \<Rightarrow> Iterator" where
  "im_Iterator startKey limitKey t = new_iterator False (im_root t) startKey limitKey"

definition limitIterator :: "store \<Rightarrow> Iterator \<Rightarrow> bool \<times> Iterator" where
  "limitIterator h iter =
     (case it_node iter of
        None \<Rightarrow> (False, iter)
      | Some node \<Rightarrow>
          let key = tn_key (node_at h node) in
          if (case it_startKey iter of None \<Rightarrow> False | Some s \<Rightarrow> bytes_Compare key s < 0) then (False, iter\<lparr>it_node := None\<rparr>)
          else if (case it_limitKey iter of None \<Rightarrow> False | Some l \<Rightarrow> bytes_Compare key l \<ge> 0) then (False, iter\<lparr>it_node := None\<rparr>)
          else (True, iter))"

text \<open>The loop of \<open>seek\<close>. It returns the node with the key, if it is looked for, the stack, and the node to select with
  its depth.\<close>

partial_function (option) seek_loop :: "addr option \<Rightarrow> bytes \<Rightarrow> bool \<Rightarrow> bool \<Rightarrow> store \<Rightarrow> parentStack \<Rightarrow> addr option \<Rightarrow> nat
    \<Rightarrow> (addr option \<times> parentStack \<times> addr option \<times> nat) option" where
  "seek_loop node key exactMatch upwards h parents selected depth =
     (case node of
        None \<Rightarrow> Some (None, parents, selected, depth)
      | Some n \<Rightarrow>
          let parents = ps_Push n parents; compareResult = bytes_Compare key (tn_key (node_at h n)) in
          if compareResult < 0
          then if upwards then seek_loop (left_of h n) key exactMatch upwards h parents (Some n) (ps_index parents - 1)
               else seek_loop (left_of h n) key exactMatch upwards h parents selected depth
          else if compareResult > 0
          then if \<not> upwards then seek_loop (right_of h n) key exactMatch upwards h parents (Some n) (ps_index parents - 1)
               else seek_loop (right_of h n) key exactMatch upwards h parents selected depth
          else if exactMatch then Some (Some n, parents, selected, depth)
          else if upwards then seek_loop (right_of h n) key exactMatch upwards h parents selected depth
          else seek_loop (left_of h n) key exactMatch upwards h parents selected depth)"

fun pop_parents :: "nat \<Rightarrow> parentStack \<Rightarrow> parentStack" where
  "pop_parents 0 s = s"
| "pop_parents (Suc n) s = pop_parents n (snd (ps_Pop s))"

definition seek :: "bytes \<Rightarrow> bool \<Rightarrow> bool \<Rightarrow> store \<Rightarrow> Iterator \<Rightarrow> (bool \<times> Iterator) option" where
  "seek key exactMatch upwards h iter =
     map_option (\<lambda>(found, parents, selected, depth).
       case found of
         Some n \<Rightarrow> limitIterator h (iter\<lparr>it_node := Some n, it_parents := snd (ps_Pop parents)\<rparr>)
       | None \<Rightarrow> limitIterator h (iter\<lparr>it_node := selected, it_parents := pop_parents (ps_index parents - depth) parents\<rparr>))
     (seek_loop (it_root iter) key exactMatch upwards h empty_stack None 0)"

text \<open>The left-most node below a node, with its parents pushed; and the right-most one.\<close>

partial_function (option) leftmost :: "addr option \<Rightarrow> parentStack \<Rightarrow> store \<Rightarrow> (addr option \<times> parentStack) option" where
  "leftmost node parents h =
     (case node of
        None \<Rightarrow> Some (None, parents)
      | Some n \<Rightarrow> if left_of h n = None then Some (Some n, parents) else leftmost (left_of h n) (ps_Push n parents) h)"

partial_function (option) rightmost :: "addr option \<Rightarrow> parentStack \<Rightarrow> store \<Rightarrow> (addr option \<times> parentStack) option" where
  "rightmost node parents h =
     (case node of
        None \<Rightarrow> Some (None, parents)
      | Some n \<Rightarrow> if right_of h n = None then Some (Some n, parents) else rightmost (right_of h n) (ps_Push n parents) h)"

definition First :: "store \<Rightarrow> Iterator \<Rightarrow> (bool \<times> Iterator) option" where
  "First h iter =
     (let iter = iter\<lparr>it_isNew := False\<rparr> in
      case it_startKey iter of
        Some s \<Rightarrow> seek s True True h iter
      | None \<Rightarrow> map_option (\<lambda>(node, parents).
          case node of
            None \<Rightarrow> (False, iter\<lparr>it_parents := parents\<rparr>)
          | Some n \<Rightarrow> (True, iter\<lparr>it_node := Some n, it_parents := parents\<rparr>))
          (leftmost (it_root iter) empty_stack h))"

definition Last :: "store \<Rightarrow> Iterator \<Rightarrow> (bool \<times> Iterator) option" where
  "Last h iter =
     (let iter = iter\<lparr>it_isNew := False\<rparr> in
      case it_limitKey iter of
        Some l \<Rightarrow> seek l False False h iter
      | None \<Rightarrow> map_option (\<lambda>(node, parents).
          case node of
            None \<Rightarrow> (False, iter\<lparr>it_parents := parents\<rparr>)
          | Some n \<Rightarrow> (True, iter\<lparr>it_node := Some n, it_parents := parents\<rparr>))
          (rightmost (it_root iter) empty_stack h))"

lemma ps_Pop_Some: "ps_Pop s = (Some a, s') \<Longrightarrow> ps_index s' < ps_index s"
  using ps_Pop_index [of s "Some a" s'] by (cases "ps_index s = 0") (auto simp: ps_Pop_def)

text \<open>The parents are walked up while the node is their right (left) child.\<close>

function climb :: "bool \<Rightarrow> addr \<Rightarrow> parentStack \<Rightarrow> store \<Rightarrow> addr option \<times> parentStack" where
  "climb rightwards node parents h =
     (case ps_Pop parents of
        (None, parents') \<Rightarrow> (None, parents')
      | (Some parent, parents') \<Rightarrow>
          if (if rightwards then right_of h parent else left_of h parent) = Some node
          then climb rightwards parent parents' h
          else (Some parent, parents'))"
  by auto
termination
  by (relation "measure (\<lambda>(_, _, parents, _). ps_index parents)") (auto dest: ps_Pop_Some [OF sym])

declare climb.simps [simp del]

definition it_Next :: "store \<Rightarrow> Iterator \<Rightarrow> (bool \<times> Iterator) option" where
  "it_Next h iter =
     (if it_isNew iter then First h iter
      else case it_node iter of
        None \<Rightarrow> Some (False, iter)
      | Some n \<Rightarrow>
          (case it_seekKey iter of
             Some k \<Rightarrow> seek k False True h (iter\<lparr>it_seekKey := None\<rparr>)
           | None \<Rightarrow>
               if right_of h n = None
               then let (node, parents) = climb True n (it_parents iter) h
                    in Some (limitIterator h (iter\<lparr>it_node := node, it_parents := parents\<rparr>))
               else map_option (\<lambda>(node, parents). limitIterator h (iter\<lparr>it_node := node, it_parents := parents\<rparr>))
                      (leftmost (right_of h n) (ps_Push n (it_parents iter)) h)))"

definition it_Prev :: "store \<Rightarrow> Iterator \<Rightarrow> (bool \<times> Iterator) option" where
  "it_Prev h iter =
     (if it_isNew iter then Last h iter
      else case it_node iter of
        None \<Rightarrow> Some (False, iter)
      | Some n \<Rightarrow>
          (case it_seekKey iter of
             Some k \<Rightarrow> seek k False False h (iter\<lparr>it_seekKey := None\<rparr>)
           | None \<Rightarrow>
               if left_of h n = None
               then let (node, parents) = climb False n (it_parents iter) h
                    in Some (limitIterator h (iter\<lparr>it_node := node, it_parents := parents\<rparr>))
               else map_option (\<lambda>(node, parents). limitIterator h (iter\<lparr>it_node := node, it_parents := parents\<rparr>))
                      (rightmost (left_of h n) (ps_Push n (it_parents iter)) h)))"

definition it_Seek :: "bytes \<Rightarrow> store \<Rightarrow> Iterator \<Rightarrow> (bool \<times> Iterator) option" where
  "it_Seek key h iter = seek key True True h (iter\<lparr>it_isNew := False\<rparr>)"

definition it_Key :: "store \<Rightarrow> Iterator \<Rightarrow> bytes option" where
  "it_Key h iter = map_option (\<lambda>n. tn_key (node_at h n)) (it_node iter)"

definition it_Value :: "store \<Rightarrow> Iterator \<Rightarrow> bytes option" where
  "it_Value h iter = map_option (\<lambda>n. tn_value (node_at h n)) (it_node iter)"

definition it_Valid :: "Iterator \<Rightarrow> bool" where
  "it_Valid iter \<longleftrightarrow> it_node iter \<noteq> None"

text \<open>A node always has a key, since the keys of the treaps here are byte strings; a nil key, for which the source
  would forget the position, does not occur.\<close>

definition ForceReseek :: "Mutable \<Rightarrow> store \<Rightarrow> Iterator \<Rightarrow> Iterator" where
  "ForceReseek t h iter =
     (if \<not> it_t iter then iter
      else iter\<lparr>it_root := mu_root t, it_seekKey := it_Key h iter\<rparr>)"

text \<open>The loop for which iterators are made: \<open>for iter.Next() { ... iter.Key(), iter.Value() ... }\<close>.\<close>

partial_function (option) visit :: "store \<Rightarrow> Iterator \<Rightarrow> (bytes \<times> bytes) list option" where
  "visit h iter =
     Option.bind (it_Next h iter) (\<lambda>(ok, iter).
       if ok
       then Option.bind (it_Key h iter) (\<lambda>k. Option.bind (it_Value h iter) (\<lambda>v.
         Option.bind (visit h iter) (\<lambda>kvs. Some ((k, v) # kvs))))
       else Some [])"

declare push_left.simps [code] foreach_loop.simps [code] seek_loop.simps [code] leftmost.simps [code] rightmost.simps [code] visit.simps [code]

section \<open>Visiting all items in order\<close>

fun each :: "(bytes \<Rightarrow> bytes \<Rightarrow> 's \<Rightarrow> bool \<times> 's) \<Rightarrow> (bytes \<times> bytes) list \<Rightarrow> 's \<Rightarrow> 's" where
  "each fn [] s = s"
| "each fn ((k, v) # kvs) s = (let (go, s) = fn k v s in if go then each fn kvs s else s)"

text \<open>The nodes on the stack of \<open>ForEach\<close> are still to be visited, each with the tree to its right.\<close>

type_synonym pending = "(addr \<times> bytes \<times> bytes \<times> tree) list"

fun spine :: "tree \<Rightarrow> pending \<Rightarrow> pending" where
  "spine Tip ps = ps"
| "spine (Bin l a k v p r) ps = spine l ((a, k, v, r) # ps)"

fun pend_ok :: "store \<Rightarrow> pending \<Rightarrow> bool" where
  "pend_ok h [] \<longleftrightarrow> True"
| "pend_ok h ((a, k, v, r) # ps) \<longleftrightarrow>
     tn_key (node_at h a) = k \<and> tn_value (node_at h a) = v \<and> right_of h a = root_of r \<and> holds h r \<and> pend_ok h ps"

fun pend_items :: "pending \<Rightarrow> (bytes \<times> bytes) list" where
  "pend_items [] = []"
| "pend_items ((a, k, v, r) # ps) = (k, v) # items r @ pend_items ps"

lemma spine_items [simp]: "pend_items (spine u ps) = items u @ pend_items ps"
  by (induction u ps rule: spine.induct) auto

lemma push_left_law:
  assumes "holds h u" "pend_ok h ps" "is_stack parents (map fst ps)"
  shows "\<exists>parents'. push_left (root_of u) parents h = Some parents' \<and> is_stack parents' (map fst (spine u ps)) \<and> pend_ok h (spine u ps)"
  using assms
proof (induction u ps arbitrary: parents rule: spine.induct)
  case (1 ps)
  then show ?case by (auto simp: push_left.simps)
next
  case (2 l a k v p r ps)
  then show ?case using 2(1) [of "ps_Push a parents"] by (simp add: push_left.simps [of "Some a"])
qed

lemma foreach_law:
  assumes "pend_ok h ps" "is_stack parents (map fst ps)"
  shows "foreach_loop parents fn h s = Some (each fn (pend_items ps) s)"
  using assms
proof (induction "length (pend_items ps)" arbitrary: ps parents s rule: less_induct)
  case less
  show ?case
  proof (cases ps)
    case Nil
    then show ?thesis using is_stack_index [OF less.prems(2)] by (simp add: foreach_loop.simps)
  next
    case (Cons x qs)
    obtain a k v r where x: "x = (a, k, v, r)" by (cases x)
    obtain parents' where pop: "ps_Pop parents = (Some a, parents')" "is_stack parents' (map fst qs)"
      using ps_Pop_law less.prems(2) by (metis Cons fst_conv list.simps(9) x)
    have ne: "ps_index parents \<noteq> 0" using is_stack_index [OF less.prems(2)] by (simp add: Cons)
    have node: "tn_key (node_at h a) = k" "tn_value (node_at h a) = v" "right_of h a = root_of r" "holds h r" "pend_ok h qs"
      using less.prems(1) by (simp_all add: Cons x)
    obtain parents'' where push: "push_left (root_of r) parents' h = Some parents''" "is_stack parents'' (map fst (spine r qs))" "pend_ok h (spine r qs)"
      using push_left_law [OF node(4,5) pop(2)] by blast
    have IH: "foreach_loop parents'' fn h s' = Some (each fn (pend_items (spine r qs)) s')" for s'
      by (rule less.hyps [OF _ push(3,2)]) (simp add: Cons x)
    show ?thesis using ne pop(1) node push(1) IH
      by (subst foreach_loop.simps) (simp add: Cons x Let_def split: prod.split)
  qed
qed

lemma ForEach_law: "holds h t \<Longrightarrow> ForEach fn (root_of t) h s = Some (each fn (items t) s)"
  using push_left_law [of h t "[]" empty_stack] foreach_law [of h "spine t []"] by (auto simp: ForEach_def)

section \<open>Positions of an iterator\<close>

text \<open>The iterator stands at the first of the items \<open>ys\<close>, after the items \<open>xs\<close>.\<close>

definition stands :: "tree \<Rightarrow> Iterator \<Rightarrow> (bytes \<times> bytes) list \<Rightarrow> (bytes \<times> bytes) list \<Rightarrow> bool" where
  "stands t iter xs ys \<longleftrightarrow> (case ys of
       [] \<Rightarrow> xs = items t \<and> it_node iter = None
     | (k, v) # ys' \<Rightarrow> \<exists>cs l a p r. plug (Bin l a k v p r) cs = t \<and> it_node iter = Some a \<and> is_stack (it_parents iter) (map ctx_addr cs)
         \<and> xs = before cs @ items l \<and> ys' = items r @ after cs)"

lemma stands_items: "stands t iter xs ys \<Longrightarrow> items t = xs @ ys"
  by (auto simp: stands_def split: list.split_asm)

lemma leftmost_law:
  assumes "holds h u" "u \<noteq> Tip" "is_stack parents (map ctx_addr cs)"
  shows "\<exists>a k v p r cs' parents'. leftmost (root_of u) parents h = Some (Some a, parents') \<and> plug (Bin Tip a k v p r) cs' = plug u cs
    \<and> is_stack parents' (map ctx_addr cs') \<and> before cs' = before cs \<and> (k, v) # items r @ after cs' = items u @ after cs"
  using assms
proof (induction u arbitrary: cs parents)
  case (Bin l a k v p r)
  show ?case
  proof (cases l)
    case Tip
    then have "leftmost (Some a) parents h = Some (Some a, parents)" using Bin.prems(1) by (simp add: leftmost.simps)
    then show ?thesis using Bin.prems(3) Tip by (intro exI [of _ a] exI [of _ k] exI [of _ v] exI [of _ p] exI [of _ r] exI [of _ cs] exI [of _ parents]) simp
  next
    case l: (Bin ll b kb vb pb lr)
    have "leftmost (Some a) parents h = leftmost (root_of l) (ps_Push a parents) h"
      using Bin.prems(1) l by (simp add: leftmost.simps [of "Some a"])
    moreover have "holds h l" "l \<noteq> Tip" "is_stack (ps_Push a parents) (map ctx_addr (GoL a k v p r # cs))" using Bin.prems l by simp_all
    ultimately show ?thesis using Bin.IH(1) [of "ps_Push a parents" "GoL a k v p r # cs"] by simp
  qed
qed simp

lemma climb_law:
  assumes "focus h u cs" "root_of u = Some a" "is_stack parents (map ctx_addr cs)"
  shows "\<exists>node parents'. climb True a parents h = (node, parents') \<and> (case after cs of
       [] \<Rightarrow> node = None
     | (k, v) # ys \<Rightarrow> \<exists>ds l b p r. plug (Bin l b k v p r) ds = plug u cs \<and> node = Some b \<and> is_stack parents' (map ctx_addr ds)
         \<and> before ds @ items l = before cs @ items u \<and> ys = items r @ after ds)"
  using assms
proof (induction cs arbitrary: u a parents)
  case Nil
  then show ?case using ps_Pop_empty [of parents] by (simp add: climb.simps)
next
  case (Cons c cs)
  obtain parents' where pop: "ps_Pop parents = (Some (ctx_addr c), parents')" "is_stack parents' (map ctx_addr cs)"
    using ps_Pop_law Cons.prems(3) by (metis list.simps(9))
  show ?case
  proof (cases c)
    case c: (GoL b k v p r)
    have "root_of r \<noteq> Some a" using Cons.prems(1,2) root_of_addr [of r a] root_of_addr [of u a] by (auto simp: focus_def c)
    then have "climb True a parents h = (Some b, parents')"
      using pop Cons.prems(1) by (simp add: climb.simps [of True a] c focus_def)
    then show ?thesis using pop(2) by (auto simp: c)
  next
    case c: (GoR l b k v p)
    have "climb True a parents h = climb True b parents' h"
      using pop Cons.prems(1,2) by (simp add: climb.simps [of True a] c focus_def)
    moreover have "focus h (Bin l b k v p u) cs" using Cons.prems(1) focus_down(2) by (simp add: c)
    moreover have "plug u (c # cs) = plug (Bin l b k v p u) cs" "before (c # cs) @ items u = before cs @ items (Bin l b k v p u)" "after (c # cs) = after cs"
      by (simp_all add: c)
    ultimately show ?thesis using Cons.IH [of "Bin l b k v p u" b parents'] pop(2) by (simp only: root_of.simps)
  qed
qed

definition in_range :: "bytes option \<Rightarrow> bytes option \<Rightarrow> bytes \<Rightarrow> bool" where
  "in_range startKey limitKey k \<longleftrightarrow> (case startKey of None \<Rightarrow> True | Some s \<Rightarrow> s \<le> k) \<and> (case limitKey of None \<Rightarrow> True | Some l \<Rightarrow> k < l)"

lemma limit_law:
  assumes "focus h t []" "stands t iter xs ys"
  shows "limitIterator h iter = (case ys of [] \<Rightarrow> (False, iter)
    | (k, v) # _ \<Rightarrow> if in_range (it_startKey iter) (it_limitKey iter) k then (True, iter) else (False, iter\<lparr>it_node := None\<rparr>))"
proof (cases ys)
  case Nil
  then show ?thesis using assms(2) by (simp add: stands_def limitIterator_def)
next
  case (Cons kv ys')
  obtain k v where kv: "kv = (k, v)" by (cases kv)
  obtain cs l a p r where pos: "plug (Bin l a k v p r) cs = t" "it_node iter = Some a" using assms(2) by (auto simp: stands_def Cons kv)
  have "tn_key (node_at h a) = k" using assms(1) holds_plug [of h "Bin l a k v p r" cs] by (simp add: pos(1) focus_def)
  moreover have "bytes_Compare k s < 0 \<longleftrightarrow> \<not> s \<le> k" "bytes_Compare k s \<ge> 0 \<longleftrightarrow> \<not> k < s" for s
    using bytes_Compare_iff(1) [of k s] by auto
  ultimately show ?thesis using pos(2)
    by (auto simp: limitIterator_def in_range_def Cons kv Let_def split: option.split)
qed

lemma Next_law:
  assumes "focus h t []" "stands t iter xs ((k, v) # ys)" "\<not> it_isNew iter" "it_seekKey iter = None"
  shows "\<exists>node parents. it_Next h iter = Some (limitIterator h (iter\<lparr>it_node := node, it_parents := parents\<rparr>))
    \<and> stands t (iter\<lparr>it_node := node, it_parents := parents\<rparr>) (xs @ [(k, v)]) ys"
proof -
  obtain cs l a p r where pos: "plug (Bin l a k v p r) cs = t" "it_node iter = Some a" "is_stack (it_parents iter) (map ctx_addr cs)"
      "xs = before cs @ items l" "ys = items r @ after cs" using assms(2) by (auto simp: stands_def)
  have foc: "focus h (Bin l a k v p r) cs" using assms(1) focus_plug [of h "Bin l a k v p r" cs] by (simp add: pos(1))
  have node: "right_of h a = root_of r" using foc by (simp add: focus_def)
  have it: "items t = xs @ (k, v) # ys" using stands_items [OF assms(2)] .
  show ?thesis
  proof (cases r)
    case Tip
    obtain node parents where cl: "climb True a (it_parents iter) h = (node, parents)" and res: "case after cs of [] \<Rightarrow> node = None
     | (k', v') # ys \<Rightarrow> \<exists>ds l' b p' r'. plug (Bin l' b k' v' p' r') ds = plug (Bin l a k v p r) cs \<and> node = Some b \<and> is_stack parents (map ctx_addr ds)
         \<and> before ds @ items l' = before cs @ items (Bin l a k v p r) \<and> ys = items r' @ after ds"
      using climb_law [OF foc root_of.simps(2) pos(3)] by blast
    have run: "it_Next h iter = Some (limitIterator h (iter\<lparr>it_node := node, it_parents := parents\<rparr>))"
      using assms(3,4) pos(2) node cl by (simp add: it_Next_def Tip)
    have "stands t (iter\<lparr>it_node := node, it_parents := parents\<rparr>) (xs @ [(k, v)]) ys"
      using res it pos(1,4,5) by (cases "after cs", auto simp: stands_def Tip split: prod.splits, metis)
    with run show ?thesis by blast
  next
    case r: (Bin rl b kb vb pb rr)
    have st: "is_stack (ps_Push a (it_parents iter)) (map ctx_addr (GoR l a k v p # cs))" using pos(3) by simp
    have "holds h r" "r \<noteq> Tip" using foc r by (simp_all add: focus_def)
    from leftmost_law [OF this st] obtain a' k' v' p' r' cs' parents' where
      lm: "leftmost (root_of r) (ps_Push a (it_parents iter)) h = Some (Some a', parents')" "plug (Bin Tip a' k' v' p' r') cs' = t"
        "is_stack parents' (map ctx_addr cs')" "before cs' = xs @ [(k, v)]" "(k', v') # items r' @ after cs' = ys"
      using pos(1,4,5) by auto
    have "it_Next h iter = Some (limitIterator h (iter\<lparr>it_node := Some a', it_parents := parents'\<rparr>))"
      using assms(3,4) pos(2) node lm(1) by (simp add: it_Next_def r)
    moreover have "stands t (iter\<lparr>it_node := Some a', it_parents := parents'\<rparr>) (xs @ [(k, v)]) ys"
      unfolding stands_def lm(5) [symmetric] using lm(2-4) by fastforce
    ultimately show ?thesis by blast
  qed
qed

section \<open>Seeking forwards\<close>

text \<open>On the way down the items before the subtree are too small and those after it are not; the last node whose left
  subtree was entered is the first of the latter.\<close>

fun near :: "bytes \<Rightarrow> bool \<Rightarrow> ctx \<Rightarrow> bool" where
  "near key exact (GoL a k v p r) \<longleftrightarrow> key < k"
| "near key exact (GoR l a k v p) \<longleftrightarrow> (if exact then k < key else k \<le> key)"

abbreviation too_small :: "bytes \<Rightarrow> bool \<Rightarrow> bytes \<Rightarrow> bool" where
  "too_small key exact k \<equiv> (if exact then k < key else k \<le> key)"

fun last_left :: "ctx list \<Rightarrow> addr option \<times> nat" where
  "last_left [] = (None, 0)"
| "last_left (GoL a k v p r # cs) = (Some a, length cs)"
| "last_left (GoR l a k v p # cs) = last_left cs"

lemma near_sides:
  assumes "in_order (before cs @ after cs)" "list_all (near key exact) cs"
  shows "(\<forall>kv\<in>set (before cs). too_small key exact (fst kv)) \<and> (\<forall>kv\<in>set (after cs). key < fst kv)"
  using assms
proof (induction cs rule: before.induct)
  case (2 a k v p r cs)
  then have "in_order (before cs @ after cs)" by (auto simp: in_order_def sorted_wrt_append)
  moreover have "\<forall>kv\<in>set (items r). k < fst kv" using 2(2) by (auto simp: in_order_def sorted_wrt_append)
  ultimately show ?case using 2 by fastforce
next
  case (3 l a k v p cs)
  then have "in_order (before cs @ after cs)" by (auto simp: in_order_def sorted_wrt_append)
  moreover have "\<forall>kv\<in>set (items l). fst kv < k" using 3(2) by (auto simp: in_order_def sorted_wrt_append)
  ultimately show ?case using 3 by (fastforce split: if_split_asm)
qed simp

lemma seek_loop_law:
  assumes "holds h u" "list_all (near key exact) cs" "is_stack parents (map ctx_addr cs)" "(sel, depth) = last_left cs"
  shows "\<exists>found parents' sel' depth' u' cs'. seek_loop (root_of u) key exact True h parents sel depth = Some (found, parents', sel', depth')
    \<and> plug u' cs' = plug u cs \<and> list_all (near key exact) cs' \<and> (sel', depth') = last_left cs'
    \<and> (case u' of Tip \<Rightarrow> found = None \<and> is_stack parents' (map ctx_addr cs')
      | Bin l a k v p r \<Rightarrow> exact \<and> k = key \<and> found = Some a \<and> is_stack parents' (a # map ctx_addr cs'))"
  using assms
proof (induction u arbitrary: cs parents sel depth)
  case Tip
  then show ?case
    by (intro exI [of _ None] exI [of _ parents] exI [of _ sel] exI [of _ depth] exI [of _ Tip] exI [of _ cs]) (simp add: seek_loop.simps)
next
  case (Bin l a k v p r)
  have st: "is_stack (ps_Push a parents) (a # map ctx_addr cs)" using Bin.prems(3) by simp
  have idx: "ps_index (ps_Push a parents) = Suc (length cs)" using is_stack_index [OF st] by simp
  have run: "seek_loop (Some a) key exact True h parents sel depth = (let c = bytes_Compare key k in
      if c < 0 then seek_loop (root_of l) key exact True h (ps_Push a parents) (Some a) (length cs)
      else if c > 0 then seek_loop (root_of r) key exact True h (ps_Push a parents) sel depth
      else if exact then Some (Some a, ps_Push a parents, sel, depth) else seek_loop (root_of r) key exact True h (ps_Push a parents) sel depth)"
    using Bin.prems(1) by (subst seek_loop.simps) (simp add: idx Let_def)
  have hold: "holds h l" "holds h r" using Bin.prems(1) by simp_all
  consider "key < k" | "k < key \<or> key = k \<and> \<not> exact" | "key = k" exact by fastforce
  then show ?case
  proof cases
    case 1
    then have c: "bytes_Compare key k < 0" by (simp add: bytes_Compare_iff)
    from Bin.IH(1) [OF hold(1), of "GoL a k v p r # cs" "ps_Push a parents" "Some a" "length cs"] show ?thesis
      using st Bin.prems(2) 1 c by (simp add: run)
  next
    case 2
    then have "seek_loop (Some a) key exact True h parents sel depth = seek_loop (root_of r) key exact True h (ps_Push a parents) sel depth"
      using bytes_Compare_iff [of key k] by (auto simp: run Let_def)
    moreover have "list_all (near key exact) (GoR l a k v p # cs)" using Bin.prems(2) 2 by (auto dest: less_imp_le)
    moreover have "is_stack (ps_Push a parents) (map ctx_addr (GoR l a k v p # cs))" "(sel, depth) = last_left (GoR l a k v p # cs)"
      using st Bin.prems(4) by simp_all
    ultimately show ?thesis using Bin.IH(2) [OF hold(2), of "GoR l a k v p # cs" "ps_Push a parents" sel depth] by (simp del: near.simps)
  next
    case 3
    then have "seek_loop (root_of (Bin l a k v p r)) key exact True h parents sel depth = Some (Some a, ps_Push a parents, sel, depth)"
      using bytes_Compare_iff(2) [of key k] run by simp
    then show ?thesis using st Bin.prems(2,4) 3
      by (intro exI [of _ "Some a"] exI [of _ "ps_Push a parents"] exI [of _ sel] exI [of _ depth] exI [of _ "Bin l a k v p r"] exI [of _ cs]) simp
  qed
qed

lemma pop_parents_law: "is_stack s (map ctx_addr (rs @ ds)) \<Longrightarrow> is_stack (pop_parents (length rs) s) (map ctx_addr ds)"
proof (induction rs arbitrary: s)
  case (Cons c rs)
  obtain s' where "ps_Pop s = (Some (ctx_addr c), s')" "is_stack s' (map ctx_addr (rs @ ds))"
    using ps_Pop_law [of s "ctx_addr c" "map ctx_addr (rs @ ds)"] Cons.prems by auto
  then show ?case using Cons.IH by simp
qed simp

text \<open>The selected node is where the items after the path begin.\<close>

lemma last_left_law:
  "case after cs of
     [] \<Rightarrow> last_left cs = (None, 0)
   | (k, v) # ys \<Rightarrow> \<exists>rs b p r ds l. cs = rs @ GoL b k v p r # ds \<and> last_left cs = (Some b, length ds)
       \<and> plug Tip rs = l \<and> before cs = before ds @ items l \<and> ys = items r @ after ds"
proof (induction cs)
  case (Cons c cs)
  show ?case
  proof (cases c)
    case (GoL a k v p r)
    then show ?thesis by (auto intro!: exI [of _ "[]"])
  next
    case c: (GoR l a k v p)
    show ?thesis
    proof (cases "after cs")
      case Nil
      then show ?thesis using Cons.IH by (simp add: c)
    next
      case (Cons kv ys)
      obtain k' v' where kv: "kv = (k', v')" by (cases kv)
      obtain rs b q r ds where "cs = rs @ GoL b k' v' q r # ds" "last_left cs = (Some b, length ds)" "before cs = before ds @ items (plug Tip rs)" "ys = items r @ after ds"
        using Cons.IH by (auto simp: Cons kv)
      then show ?thesis by (auto simp: c Cons kv intro!: exI [of _ "c # rs"])
    qed
  qed
qed simp

lemma seek_law:
  assumes "focus h t []" "in_order (items t)" "it_root iter = root_of t"
  shows "\<exists>node parents xs ys. seek key exact True h iter = Some (limitIterator h (iter\<lparr>it_node := node, it_parents := parents\<rparr>))
    \<and> stands t (iter\<lparr>it_node := node, it_parents := parents\<rparr>) xs ys
    \<and> (\<forall>kv\<in>set xs. too_small key exact (fst kv)) \<and> (\<forall>kv\<in>set ys. \<not> too_small key exact (fst kv))"
proof -
  have "holds h t" using assms(1) by (simp add: focus_def)
  from seek_loop_law [OF this, of key exact "[]" empty_stack None 0]
  obtain found parents sel depth u cs where run: "seek_loop (root_of t) key exact True h empty_stack None 0 = Some (found, parents, sel, depth)"
    and u: "plug u cs = t" "list_all (near key exact) cs" "(sel, depth) = last_left cs"
      "case u of Tip \<Rightarrow> found = None \<and> is_stack parents (map ctx_addr cs)
        | Bin l a k v p r \<Rightarrow> exact \<and> k = key \<and> found = Some a \<and> is_stack parents (a # map ctx_addr cs)" by auto
  have it: "items t = before cs @ items u @ after cs" by (simp add: u(1) [symmetric])
  have "in_order (before cs @ after cs)" using assms(2) by (auto simp: it in_order_def sorted_wrt_append)
  note sides = near_sides [OF this u(2)]
  show ?thesis
  proof (cases u)
    case u': (Bin l a k v p r)
    have f: "exact" "k = key" "found = Some a" "is_stack parents (a # map ctx_addr cs)" using u(4) by (simp_all add: u')
    obtain parents' where pop: "ps_Pop parents = (Some a, parents')" "is_stack parents' (map ctx_addr cs)" using ps_Pop_law [OF f(4)] .
    let ?i = "iter\<lparr>it_node := Some a, it_parents := parents'\<rparr>"
    have "seek key exact True h iter = Some (limitIterator h ?i)" using run assms(3) f(3) pop(1) by (simp add: seek_def)
    moreover have "stands t ?i (before cs @ items l) ((key, v) # items r @ after cs)"
      using u(1) pop(2) by (auto simp: stands_def u' f(2))
    moreover have "\<forall>kv\<in>set (before cs @ items l). fst kv < key" "\<forall>kv\<in>set ((key, v) # items r @ after cs). \<not> fst kv < key"
      using assms(2) by (auto simp: it u' f(2) in_order_def sorted_wrt_append dest: less_imp_not_less)
    ultimately show ?thesis using f(1) by (simp only: if_True) blast
  next
    case Tip
    have f: "found = None" "is_stack parents (map ctx_addr cs)" using u(4) by (simp_all add: Tip)
    let ?i = "iter\<lparr>it_node := sel, it_parents := pop_parents (ps_index parents - depth) parents\<rparr>"
    have run': "seek key exact True h iter = Some (limitIterator h ?i)" using run assms(3) f(1) by (simp add: seek_def)
    have "stands t ?i (before cs) (after cs)"
    proof (cases "after cs")
      case Nil
      then show ?thesis using last_left_law [of cs] u(3) it by (simp add: stands_def Tip)
    next
      case (Cons kv ys)
      obtain k v where kv: "kv = (k, v)" by (cases kv)
      obtain rs b p r ds where ll: "cs = rs @ GoL b k v p r # ds" "last_left cs = (Some b, length ds)"
          "before cs = before ds @ items (plug Tip rs)" "ys = items r @ after ds"
        using last_left_law [of cs] by (auto simp: Cons kv)
      have "ps_index parents - depth = length (rs @ [GoL b k v p r])" using is_stack_index [OF f(2)] u(3) ll(1,2) by simp
      moreover have "is_stack parents (map ctx_addr ((rs @ [GoL b k v p r]) @ ds))" using f(2) ll(1) by simp
      ultimately have "is_stack (it_parents ?i) (map ctx_addr ds)" using pop_parents_law by (metis Iterator.select_convs(4) Iterator.surjective Iterator.update_convs(3,4))
      moreover have "plug (Bin (plug Tip rs) b k v p r) ds = t" using u(1) by (simp add: Tip ll(1) plug_append)
      ultimately show ?thesis using ll u(3) unfolding stands_def Cons kv by (fastforce simp: ll(3))
    qed
    moreover have "\<forall>kv\<in>set (after cs). \<not> too_small key exact (fst kv)" using sides by (auto dest: less_imp_not_less)
    ultimately show ?thesis using run' sides by blast
  qed
qed

section \<open>Iterating over a range\<close>

lemma visit_law:
  assumes "focus h t []" "in_order (items t)" "stands t iter xs ys" "\<not> it_isNew iter" "it_seekKey iter = None"
    and "\<forall>kv\<in>set ys. case it_startKey iter of None \<Rightarrow> True | Some s \<Rightarrow> s \<le> fst kv"
    and "ok = (ys \<noteq> [] \<and> in_range (it_startKey iter) (it_limitKey iter) (fst (hd ys)))"
  shows "(if ok then Option.bind (it_Key h iter) (\<lambda>k. Option.bind (it_Value h iter) (\<lambda>v. Option.bind (visit h iter) (\<lambda>kvs. Some ((k, v) # kvs)))) else Some [])
    = Some (filter (in_range (it_startKey iter) (it_limitKey iter) \<circ> fst) ys)"
  using assms(3-)
proof (induction ys arbitrary: iter xs ok)
  case (Cons kv ys)
  obtain k v where kv: "kv = (k, v)" by (cases kv)
  have it: "items t = xs @ (k, v) # ys" using stands_items [OF Cons.prems(1)] by (simp add: kv)
  have gr: "\<forall>kv\<in>set ys. k < fst kv" using assms(2) by (auto simp: it in_order_def sorted_wrt_append)
  let ?in = "in_range (it_startKey iter) (it_limitKey iter)"
  show ?case
  proof (cases "?in k")
    case True
    obtain cs l a p r where pos: "plug (Bin l a k v p r) cs = t" "it_node iter = Some a" using Cons.prems(1) by (auto simp: stands_def kv)
    have node: "tn_key (node_at h a) = k" "tn_value (node_at h a) = v"
      using assms(1) holds_plug [of h "Bin l a k v p r" cs] by (simp_all add: pos(1) focus_def)
    obtain node' parents where nx: "it_Next h iter = Some (limitIterator h (iter\<lparr>it_node := node', it_parents := parents\<rparr>))"
        "stands t (iter\<lparr>it_node := node', it_parents := parents\<rparr>) (xs @ [(k, v)]) ys"
      using Next_law [OF assms(1) Cons.prems(1) [unfolded kv] Cons.prems(2,3)] by blast
    let ?i = "iter\<lparr>it_node := node', it_parents := parents\<rparr>"
    let ?ok = "ys \<noteq> [] \<and> ?in (fst (hd ys))"
    have "visit h iter = (if ?ok then Option.bind (it_Key h ?i) (\<lambda>k. Option.bind (it_Value h ?i) (\<lambda>v. Option.bind (visit h ?i) (\<lambda>kvs. Some ((k, v) # kvs)))) else Some [])"
      unfolding visit.simps [of h iter] nx(1) limit_law [OF assms(1) nx(2)] by (cases ys) auto
    also have "\<dots> = Some (filter (?in \<circ> fst) ys)"
      using Cons.IH [OF nx(2), of ?ok] Cons.prems(2-4) by (simp add: comp_def)
    finally show ?thesis using True Cons.prems(5) pos(2) node by (simp add: kv it_Key_def it_Value_def comp_def)
  next
    case False
    then have "\<not> ?in (fst x)" if "x \<in> set ys" for x
      using gr that Cons.prems(4) by (fastforce simp: in_range_def kv split: option.splits)
    then show ?thesis using False Cons.prems(5) by (auto simp: kv filter_empty_conv)
  qed
qed simp

lemma First_law:
  assumes "focus h t []" "in_order (items t)" "it_root iter = root_of t" "it_node iter = None"
  shows "\<exists>iter' xs ys. First h iter = Some (if it_startKey iter = None then (ys \<noteq> [], iter') else limitIterator h iter')
    \<and> stands t iter' xs ys \<and> \<not> it_isNew iter' \<and> it_seekKey iter' = it_seekKey iter \<and> it_startKey iter' = it_startKey iter \<and> it_limitKey iter' = it_limitKey iter
    \<and> (\<forall>kv\<in>set xs. case it_startKey iter of None \<Rightarrow> False | Some s \<Rightarrow> fst kv < s)
    \<and> (\<forall>kv\<in>set ys. case it_startKey iter of None \<Rightarrow> True | Some s \<Rightarrow> s \<le> fst kv)"
proof (cases "it_startKey iter")
  case None
  show ?thesis
  proof (cases t)
    case Tip
    then have "First h iter = Some (False, iter\<lparr>it_isNew := False, it_parents := empty_stack\<rparr>)"
      using assms(3) None by (simp add: First_def leftmost.simps)
    then show ?thesis using assms(4) None Tip
      by (intro exI [of _ "iter\<lparr>it_isNew := False, it_parents := empty_stack\<rparr>"] exI [of _ "[]"]) (simp add: stands_def)
  next
    case (Bin l0 a0 k0 v0 p0 r0)
    have "holds h t" using assms(1) by (simp add: focus_def)
    from leftmost_law [OF this, of empty_stack "[]"] obtain a k v p r cs parents where
      lm: "leftmost (root_of t) empty_stack h = Some (Some a, parents)" "plug (Bin Tip a k v p r) cs = t" "is_stack parents (map ctx_addr cs)"
        "before cs = []" "(k, v) # items r @ after cs = items t" by (auto simp: Bin)
    let ?i = "iter\<lparr>it_isNew := False, it_node := Some a, it_parents := parents\<rparr>"
    have "First h iter = Some (True, ?i)" using lm(1) assms(3) None by (simp add: First_def)
    moreover have "stands t ?i [] ((k, v) # items r @ after cs)" using lm(2-4) by (fastforce simp: stands_def)
    ultimately show ?thesis using None
      by (intro exI [of _ ?i] exI [of _ "[]"] exI [of _ "(k, v) # items r @ after cs"]) simp
  qed
next
  case (Some s)
  let ?iter = "iter\<lparr>it_isNew := False\<rparr>"
  obtain node parents xs ys where sk: "seek s True True h ?iter = Some (limitIterator h (?iter\<lparr>it_node := node, it_parents := parents\<rparr>))"
      "stands t (?iter\<lparr>it_node := node, it_parents := parents\<rparr>) xs ys" "\<forall>kv\<in>set xs. fst kv < s" "\<forall>kv\<in>set ys. \<not> fst kv < s"
    using seek_law [OF assms(1,2), of ?iter s True] assms(3) by auto
  then show ?thesis using Some
    by (intro exI [of _ "?iter\<lparr>it_node := node, it_parents := parents\<rparr>"] exI [of _ xs] exI [of _ ys]) (auto simp: First_def not_less)
qed

lemma visit_range:
  assumes "focus h t []" "in_order (items t)" "startKey \<noteq> None \<or> limitKey = None"
  shows "visit h (new_iterator m (root_of t) startKey limitKey) = Some (filter (in_range startKey limitKey \<circ> fst) (items t))"
proof -
  let ?new = "new_iterator m (root_of t) startKey limitKey" and ?in = "in_range startKey limitKey"
  have new: "it_root ?new = root_of t" "it_node ?new = None" "it_startKey ?new = startKey" "it_limitKey ?new = limitKey" "it_seekKey ?new = None" "it_isNew ?new"
    by (simp_all add: new_iterator_def)
  obtain iter xs ys where first: "First h ?new = Some (if startKey = None then (ys \<noteq> [], iter) else limitIterator h iter)"
    and st: "stands t iter xs ys" "\<not> it_isNew iter" "it_seekKey iter = None" "it_startKey iter = startKey" "it_limitKey iter = limitKey"
    and small: "\<forall>kv\<in>set xs. case startKey of None \<Rightarrow> False | Some s \<Rightarrow> fst kv < s"
    and big: "\<forall>kv\<in>set ys. case startKey of None \<Rightarrow> True | Some s \<Rightarrow> s \<le> fst kv"
    using First_law [OF assms(1,2) new(1,2)] unfolding new(3-5) by blast
  let ?ok = "ys \<noteq> [] \<and> ?in (fst (hd ys))"
  have "\<exists>iter'. First h ?new = Some (?ok, iter') \<and> (?ok \<longrightarrow> iter' = iter)"
  proof (cases startKey)
    case None
    then show ?thesis using first assms(3) by (auto simp: in_range_def)
  next
    case (Some s)
    then show ?thesis using first limit_law [OF assms(1) st(1)] st(4,5) by (auto split: list.split)
  qed
  then have "visit h ?new = (if ?ok then Option.bind (it_Key h iter) (\<lambda>k. Option.bind (it_Value h iter) (\<lambda>v. Option.bind (visit h iter) (\<lambda>kvs. Some ((k, v) # kvs)))) else Some [])"
    using new(6) by (subst visit.simps) (auto simp: it_Next_def)
  also have "\<dots> = Some (filter (?in \<circ> fst) ys)"
    using visit_law [OF assms(1,2) st(1-3), of ?ok] big unfolding st(4,5) by simp
  also have "filter (?in \<circ> fst) ys = filter (?in \<circ> fst) (items t)"
  proof -
    have "filter (?in \<circ> fst) xs = []" using small by (fastforce simp: filter_empty_conv in_range_def split: option.splits)
    then show ?thesis by (simp add: stands_items [OF st(1)])
  qed
  finally show ?thesis .
qed

lemma filter_restrict: "in_order kvs \<Longrightarrow> map_of (filter (P \<circ> fst) kvs) = map_of kvs |` {k. P k} \<and> in_order (filter (P \<circ> fst) kvs)"
proof (induction kvs)
  case (Cons kv kvs)
  obtain k v where kv: "kv = (k, v)" by (cases kv)
  have "in_order kvs" "\<forall>x\<in>set kvs. k < fst x" using Cons.prems by (auto simp: in_order_def kv)
  with Cons.IH show ?case by (auto simp: in_order_def kv restrict_map_def fun_eq_iff)
qed (simp add: in_order_def restrict_map_def fun_eq_iff)

text \<open>C20: An iterator over a range of keys visits the range. After any operations on a mutable treap, the loop over a new
  iterator with a start and a limit, or with no limit, ends and visits the items whose keys are at least the start and
  below the limit, all of them, each once, in ascending order of the keys.\<close>

theorem iterator_visits_range:
  assumes "startKey \<noteq> None \<or> limitKey = None" "mu_run ops (NewMutable, h) = Some (T, h')"
  shows "\<exists>kvs. visit h' (mu_Iterator startKey limitKey T) = Some kvs \<and> sorted_wrt (<) (map fst kvs)
    \<and> map_of kvs = apply_ops ops Map.empty |` {k. in_range startKey limitKey k}"
proof -
  obtain t where t: "mu_root T = root_of t" "focus h' t []" "in_order (items t)" "map_of (items t) = apply_ops ops Map.empty"
    using mu.run_law [OF new_states(2), of ops h] assms(2) by (auto simp: mu_state_def treap_rep_def)
  show ?thesis
    using visit_range [OF t(2,3) assms(1), of True] filter_restrict [OF t(3), of "in_range startKey limitKey"] t(1,4)
    by (auto simp: mu_Iterator_def in_order_def)
qed

theorem iterator_visits_range_witness:
  "\<exists>T h kvs. mu_run [OpPut [7] None 3, OpPut [4] (Some [1]) 5, OpPut [1] None 2] (NewMutable, blank_store) = Some (T, h)
     \<and> visit h (mu_Iterator (Some [2]) (Some [6]) T) = Some kvs \<and> map_of kvs = [[4] \<mapsto> [1]]"
proof -
  let ?ops = "[OpPut [7] None 3, OpPut [4] (Some [1]) 5, OpPut [1] None 2]"
  obtain T h where run: "mu_run ?ops (NewMutable, blank_store) = Some (T, h)"
    using mu.run_law [OF new_states(2), of ?ops blank_store] by auto
  have "apply_ops ?ops Map.empty |` {k. in_range (Some [2]) (Some [6]) k} = [[4] \<mapsto> [1]]"
    by (auto simp: apply_op_def restrict_map_def in_range_def fun_eq_iff)
  with iterator_visits_range [OF _ run, of "Some [2]" "Some [6]"] run show ?thesis by auto
qed

text \<open>C29: An iterator with a limit and no start leaves its range. After any operations that leave a treap with some keys,
  none of them below the limit, the first step of a new iterator over the keys below the limit succeeds, and stands
  at the smallest key of the treap, which is outside the range.\<close>

theorem iterator_ignores_limit:
  assumes "mu_run ops (NewMutable, h) = Some (T, h')" "dom (apply_ops ops Map.empty) \<noteq> {}"
    and "\<forall>k\<in>dom (apply_ops ops Map.empty). limit \<le> k"
  shows "\<exists>iter k. it_Next h' (mu_Iterator None (Some limit) T) = Some (True, iter) \<and> it_Key h' iter = Some k
    \<and> k \<in> dom (apply_ops ops Map.empty) \<and> (\<forall>k'\<in>dom (apply_ops ops Map.empty). k \<le> k') \<and> \<not> in_range None (Some limit) k"
proof -
  obtain t where t: "mu_root T = root_of t" "focus h' t []" "in_order (items t)" "map_of (items t) = apply_ops ops Map.empty"
    using mu.run_law [OF new_states(2), of ops h] assms(1) by (auto simp: mu_state_def treap_rep_def)
  have dom: "dom (apply_ops ops Map.empty) = fst ` set (items t)" using dom_map_of_conv_image_fst t(4) by metis
  let ?new = "mu_Iterator None (Some limit) T"
  have new: "it_root ?new = root_of t" "it_node ?new = None" "it_startKey ?new = None" "it_isNew ?new"
    using t(1) by (simp_all add: mu_Iterator_def new_iterator_def)
  obtain iter xs ys where first: "First h' ?new = Some (ys \<noteq> [], iter)" and st: "stands t iter xs ys"
    and none: "\<forall>kv\<in>set xs. False"
    using First_law [OF t(2,3) new(1,2)] unfolding new(3) by (simp only: simp_thms if_True option.case) blast
  have xs: "xs = []" using none by (cases xs) auto
  have ys: "items t = ys" using stands_items [OF st] xs by simp
  then obtain k v ys' where kv: "ys = (k, v) # ys'" using assms(2) dom by (cases ys) auto
  obtain cs l a p r where "plug (Bin l a k v p r) cs = t" "it_node iter = Some a" using st kv by (auto simp: stands_def)
  then have key: "it_Key h' iter = Some k"
    using t(2) by (auto simp: it_Key_def focus_def holds_plug)
  have least: "\<forall>k'\<in>dom (apply_ops ops Map.empty). k \<le> k'" and mem: "k \<in> dom (apply_ops ops Map.empty)"
    using t(3) unfolding dom by (auto simp: ys kv in_order_def)
  then have "\<not> in_range None (Some limit) k" using assms(3) by (auto simp: in_range_def not_less)
  with first key least mem new(4) kv show ?thesis by (auto simp: it_Next_def)
qed

theorem iterator_ignores_limit_witness:
  "\<exists>T h iter k. mu_run [OpPut [7] None 3, OpPut [5] None 1] (NewMutable, blank_store) = Some (T, h)
     \<and> it_Next h (mu_Iterator None (Some [3]) T) = Some (True, iter) \<and> it_Key h iter = Some k \<and> \<not> in_range None (Some [3]) k"
proof -
  let ?ops = "[OpPut [7] None 3, OpPut [5] None 1]"
  obtain T h where run: "mu_run ?ops (NewMutable, blank_store) = Some (T, h)"
    using mu.run_law [OF new_states(2), of ?ops blank_store] by auto
  have d: "dom (apply_ops ?ops Map.empty) = {[7], [5]}" by (auto simp: apply_op_def)
  have "dom (apply_ops ?ops Map.empty) \<noteq> {}" "\<forall>k\<in>dom (apply_ops ?ops Map.empty). [3] \<le> k" unfolding d by simp_all
  from iterator_ignores_limit [OF run this] run show ?thesis by blast
qed

end
