(* ===== verification/Spec2Isabelle.thy ===== *)
theory Spec2Isabelle
  imports Script_Width Script_P2pkh Chain_Money Db_Iterator
begin

text \<open>
  Verification library of the Squidcoin node.

  \<^bold>\<open>The program.\<close> Squidcoin is a Bitcoin-like full node (\<open>btcd\<close>), a wallet (\<open>btcwallet\<close>) and a market for files
  on top of them (\<open>application-layer\<close>, \<open>client\<close>). Two parts of the node make coins safe. The script machine of
  \<open>btcd/txscript\<close> decides whether one input may spend one output: a transaction arrives as bytes (\<open>btcd/wire\<close>), each
  of its inputs names an output and carries a signature script and a witness. The block chain of
  \<open>btcd/blockchain\<close> decides which blocks count, and keeps the outputs that are not spent yet: a header is checked
  against the required difficulty, the time of the network and the votes on rule changes, a block is connected to
  the outputs or detached from them, and the outputs live in a cache over a database. This library models both, from
  the bytes of a transaction to the verdict of the engine and from the header of a block to the coins it leaves.

  \<^bold>\<open>Conventions.\<close> A Go struct is a record and keeps its field names, prefixed where two structs share one; an
  error is the left side of \<open>'a res\<close> with the \<open>ErrorCode\<close> of \<open>txscript/error.go\<close> (\<open>wres\<close> for the errors of
  \<open>wire\<close>); a Go panic is the error \<open>GoPanic\<close>, so that every index, slice and nil dereference that can fail is
  a branch. Bytes are 8-bit words, script flags and sequence numbers 32-bit words; \<open>int64\<close> arithmetic is
  \<open>int\<close> with \<open>i64\<close> written where the source can wrap. SHA-1, SHA-256 and RIPEMD-160 come from libraries
  outside the repository. The parsing of keys and signatures and their verification are in \<open>btcd/btcec/ecdsa\<close> and
  \<open>btcd/btcec/schnorr\<close>, over the arithmetic of the curve, which is outside the repository again; these packages are not
  modelled. All of them are the fields of the record \<open>crypto\<close>, an argument of every definition that calls them, and
  nothing is assumed of them but what the theorems state as hypotheses. Offsets into a script are natural numbers; the
  source has \<open>int32\<close> there, which is the same for scripts of fewer than \<open>2 ^ 31\<close> bytes (\<open>Script_Width\<close>).

  \<^bold>\<open>Theories.\<close>
  \<^item> \<open>Squid_Prelude\<close>: results and their bind, byte strings and little-endian numbers, \<open>int64\<close>, list lemmas.
  \<^item> \<open>Script_Num\<close> (\<open>scriptnum.go\<close>, \<open>error.go\<close>): the sign-magnitude codec of numbers; encoding and decoding are
    inverse both ways, and \<open>Bytes\<close> panics at the smallest \<open>int64\<close> only.
  \<^item> \<open>Script_Stack\<close> (\<open>stack.go\<close>): the operand stack; every shuffle is the list function it is named for, by a
    locale of an abstract stack that the slice representation interprets.
  \<^item> \<open>Script_Tokenizer\<close> (\<open>tokenizer.go\<close>, lengths of \<open>opcode.go\<close>): the loop over the
    instructions of a script and the encoding of instructions.
  \<^item> \<open>Script_Width\<close> (\<open>tokenizer.go\<close>): the tokenizer with the 32-bit offsets of the source, equal to the other one on
    scripts of fewer than \<open>2 ^ 31\<close> bytes; there tokenizing inverts the encoding of instructions and finds nothing else.
  \<^item> \<open>Script_Forms\<close> (\<open>script.go\<close>, recognisers of \<open>standard.go\<close>): classes of scripts, witness programs, removal of
    opcodes and data, counts of signature operations.
  \<^item> \<open>Script_Builder\<close> (\<open>scriptbuilder.go\<close>, \<open>standard.go\<close>): canonical pushes and payment scripts with their
    round trips through the recognisers.
  \<^item> \<open>Wire_Tx\<close> (\<open>wire/msgtx.go\<close>, \<open>common.go\<close>): the two encodings of a transaction, inverse both ways, their
    sizes, and the panic of the decoder on scripts that overflow its slab.
  \<^item> \<open>Script_Sighash\<close> (\<open>sighash.go\<close>, \<open>hashcache.go\<close>): the digests that signatures sign; what they commit to (for
    the legacy digest also which input and which script code) and that shared midstates do not change them.
  \<^item> \<open>Script_Taproot\<close> (\<open>taproot.go\<close>, \<open>sigcache.go\<close>): script trees and their inclusion proofs, control blocks,
    output keys, the bounded cache of valid signatures.
  \<^item> \<open>Script_Vm\<close> (state of \<open>engine.go\<close>, \<open>sigvalidate.go\<close>): the engine record, flags, the encoding checks and
    the three signature verifiers, whose verdicts do not depend on the cache.
  \<^item> \<open>Script_Opcodes\<close> (\<open>opcode.go\<close>): every handler and the table; what a handler may change.
  \<^item> \<open>Script_Engine\<close> (\<open>engine.go\<close>): one step, the change of scripts with the rules for script hashes and
    witnesses, the run and the creation of an engine. \<open>Execute\<close> is total: a step reads a byte of the current
    script or goes to a later script, and at most one script is added (\<open>scripts_left\<close>, \<open>bytes_left\<close>).
  \<^item> \<open>Script_Safety\<close>: no run panics, with the one exception of a later witness version nested in a script
    hash, for which a crashing spend is exhibited; limits on operations and conditionals hold in
    every reachable state, and on the stacks once the current script has run an opcode; a run has at most one step per
    byte.
  \<^item> \<open>Script_Spends\<close>: multi-signature checks accept exactly the signatures that match a subsequence of the
    keys, although the code tries them greedily; arithmetic is exact.
  \<^item> \<open>Script_P2pkh\<close>: the engine runs a script as the sequence of its instructions, and a payment to a key
    hash is spent exactly by the key and a valid signature, from the builder to the verdict.

  \<^item> \<open>Chain_Compress\<close> (\<open>blockchain/compress.go\<close>): variable length quantities and the compressed form in which
    unspent outputs are stored; what is written has the announced size and is read back.
  \<^item> \<open>Chain_Merkle\<close> (\<open>blockchain/merkle.go\<close>, \<open>rolling_merkle.go\<close>, \<open>error.go\<close>): the two computations of a Merkle
    root agree with the textbook definition, a root commits to the transactions, the witness commitment.
  \<^item> \<open>Wire_Block\<close> (\<open>wire/blockheader.go\<close>, \<open>msgblock.go\<close>): headers and blocks; deserializing succeeds exactly on what
    serializing a block within the limits gives.
  \<^item> \<open>Chain_Entry\<close> (\<open>blockchain/chainio.go\<close>, entries of \<open>utxoviewpoint.go\<close>): stored outputs and the spend journal; the
    ledger, a map from outpoints to coins, and the locale \<open>utxo_store\<close> of what keeps one.
  \<^item> \<open>Chain_Cache\<close> (\<open>utxocache.go\<close>, \<open>sizehelper.go\<close>): the cache interprets \<open>utxo_store\<close>, so connecting a block
    whose outputs are not on disk yet does to memory and disk what it does to the ledger; flushing changes no coin, and
    a replay after a crash restores them.
  \<^item> \<open>Chain_View\<close> (\<open>utxoviewpoint.go\<close>, parts of \<open>chain.go\<close>): views interpret \<open>utxo_store\<close> too; detaching blocks restores
    the ledger before them.
  \<^item> \<open>Chain_Work\<close> (\<open>internal/workmath\<close>): targets and their compact form.
  \<^item> \<open>Chain_Nodes\<close> (\<open>blockindex.go\<close>, \<open>chainview.go\<close>): nodes with skip pointers, median times, views of a branch; the
    reference is the path of parents.
  \<^item> \<open>Chain_Deploy\<close> (\<open>chaincfg/params.go\<close>, \<open>thresholdstate.go\<close>, \<open>versionbits.go\<close>): network parameters and votes on
    rule changes; the cached search is the state of BIP0009, for deployments that do not end before they start.
  \<^item> \<open>Chain_Header\<close> (\<open>difficulty.go\<close>, \<open>mediantime.go\<close>, \<open>checkpoints.go\<close>, header checks of \<open>validate.go\<close>): bounds of a
    retarget and of the time of the network; accepted headers keep the index good.
  \<^item> \<open>Chain_Rules\<close> (\<open>weight.go\<close>, the rules of transactions of \<open>validate.go\<close>, lock times of \<open>chain.go\<close>): sanity, finality,
    weights, counts of signature operations, inputs and fees, the subsidy and its bound.
  \<^item> \<open>Chain_Validate\<close> (\<open>validate.go\<close>, \<open>scriptval.go\<close>, the cache of \<open>hashcache.go\<close>): sanity and context of a block, its
    scripts, and its connection to a view of the outputs.
  \<^item> \<open>Chain_Supply\<close>, \<open>Chain_Sample\<close>, \<open>Chain_Money\<close>: the worth of a ledger, what the loops of the connection keep, two
    blocks evaluated through all checks; an accepted block creates no money but the subsidy, and each coin it spends was
    released by its script. Below the height of BIP0034 this needs that outputs are spent after they are made: a block
    that breaks it is accepted by the checks and refused by the cache half way.
  \<^item> \<open>Db_Store\<close>, \<open>Db_Treap\<close>, \<open>Db_Iterator\<close> (\<open>database/internal/treap\<close>): the treaps in which the database keeps writes that
    are not on disk, over an explicit store of nodes. Both kinds interpret the locale \<open>key_value_store\<close>, versions of an
    immutable treap are snapshots, iterators visit their range; deleting can break the order of priorities, and a limit
    without a start is not checked at the first key.

  \<^bold>\<open>Fuel and bounds.\<close> Loops are structural recursion or have a termination measure. Only \<open>walk32\<close> of
  \<open>Script_Width\<close> counts its calls, one more than the script has bytes, and is proved to end within them. The loop
  of \<open>calcMerkleRoot\<close>, whose end is not evident, is a partial function, proved to return; so are the loops that follow
  the pointers of a treap; the loop of
  \<open>calcEasiestDifficulty\<close> is one too, because its end depends on the parameters of the network.

  \<^bold>\<open>Not modelled.\<close> The peer-to-peer protocol, the JSON-RPC servers, the database files, the wallet and the file
  market are I/O around this core or separate programs; disassembly and tracing are text output; signing
  needs private keys and the curve, and the verification of signatures in \<open>btcec\<close> is a parameter. The status of blocks in the index and the choice of the best chain, the
  memory pool and the miner are not modelled.
\<close>

end
